(* ===== verification/Prelude.thy ===== *)
theory Prelude
  imports Main "HOL-Library.Word" "HOL-Library.List_Lexorder"
begin

text \<open>
  Shared vocabulary of the development: byte strings and the order Rust gives them, fixed-width
  little- and big-endian codecs, slices and in-place copies of a buffer, Rust's checked
  arithmetic, and the three-way outcome of a fallible operation (a value, an error, a panic).
  The collections of facts declared here carry the component proofs.
\<close>

named_theorems codec_simps \<open>round trips of the fixed-width codecs\<close>
named_theorems slice_simps \<open>reading a buffer after a copy into it\<close>

section \<open>Bytes and machine integers\<close>

type_synonym byte = "8 word"
type_synonym bytes = "8 word list"
type_synonym u16 = "16 word"
type_synonym u32 = "32 word"
type_synonym u64 = "64 word"

abbreviation u64_max :: nat where
  "u64_max \<equiv> 18446744073709551615"

abbreviation u32_max :: nat where
  "u32_max \<equiv> 4294967295"

text \<open>\<open>checked_add\<close> on \<open>u64\<close> values held as \<open>nat\<close>.\<close>

definition checked_add_u64 :: "nat \<Rightarrow> nat \<Rightarrow> nat option" where
  "checked_add_u64 a b = (if a + b \<le> u64_max then Some (a + b) else None)"

lemma checked_add_u64_Some: "checked_add_u64 a b = Some c \<longleftrightarrow> c = a + b \<and> a + b \<le> u64_max"
  by (auto simp: checked_add_u64_def)

lemma checked_add_u64_None: "checked_add_u64 a b = None \<longleftrightarrow> u64_max < a + b"
  by (auto simp: checked_add_u64_def)

text \<open>The bytes of an ASCII literal.\<close>

definition ascii :: "string \<Rightarrow> bytes" where
  "ascii s = map of_char s"

lemma length_ascii [simp]: "length (ascii s) = length s"
  by (simp add: ascii_def)

lemma unat_less_len: "unat (w :: 'a::len word) < 2 ^ LENGTH('a)"
  by (rule unsigned_less)

lemma unat_byte_less: "unat (b :: byte) < 256"
  using unat_less_len [of b] by simp

section \<open>Outcomes\<close>

text \<open>
  A Rust function of type \<open>Result<T>\<close> returns a value or an error; an index out of range, a failed
  assertion or an arithmetic underflow panics instead. The three are kept apart.
\<close>

datatype ('e, 'a) outcome = Ok 'a | Err 'e | Panic

fun obind :: "('e, 'a) outcome \<Rightarrow> ('a \<Rightarrow> ('e, 'b) outcome) \<Rightarrow> ('e, 'b) outcome" where
  "obind (Ok x) f = f x"
| "obind (Err e) f = Err e"
| "obind Panic f = Panic"

lemma obind_Ok_iff: "obind m f = Ok y \<longleftrightarrow> (\<exists>x. m = Ok x \<and> f x = Ok y)"
  by (cases m) auto

lemma obind_Err_iff: "obind m f = Err e \<longleftrightarrow> m = Err e \<or> (\<exists>x. m = Ok x \<and> f x = Err e)"
  by (cases m) auto

lemma obind_Panic_iff: "obind m f = Panic \<longleftrightarrow> m = Panic \<or> (\<exists>x. m = Ok x \<and> f x = Panic)"
  by (cases m) auto

lemma obind_cong [fundef_cong]:
  "m = m' \<Longrightarrow> (\<And>x. m' = Ok x \<Longrightarrow> f x = f' x) \<Longrightarrow> obind m f = obind m' f'"
  by (cases m') auto

lemma obind_Ok_right [simp]: "obind m Ok = m"
  by (cases m) auto

lemmas obind_iffs = obind_Ok_iff obind_Err_iff obind_Panic_iff

fun of_option :: "'e \<Rightarrow> 'a option \<Rightarrow> ('e, 'a) outcome" where
  "of_option e None = Err e"
| "of_option e (Some x) = Ok x"

lemma of_option_Ok_iff [simp]: "of_option e m = Ok x \<longleftrightarrow> m = Some x"
  by (cases m) auto

lemma of_option_Err_iff [simp]: "of_option e m = Err e' \<longleftrightarrow> m = None \<and> e' = e"
  by (cases m) auto

lemma of_option_not_Panic [simp]: "of_option e m \<noteq> Panic"
  by (cases m) auto

fun is_ok :: "('e, 'a) outcome \<Rightarrow> bool" where
  "is_ok (Ok _) = True"
| "is_ok _ = False"

lemma is_ok_iff: "is_ok m \<longleftrightarrow> (\<exists>x. m = Ok x)"
  by (cases m) auto

section \<open>Fixed-width codecs\<close>

fun le_bytes :: "nat \<Rightarrow> nat \<Rightarrow> bytes" where
  "le_bytes 0 x = []"
| "le_bytes (Suc n) x = word_of_nat x # le_bytes n (x div 256)"

fun le_nat :: "bytes \<Rightarrow> nat" where
  "le_nat [] = 0"
| "le_nat (b # bs) = unat b + 256 * le_nat bs"

definition to_le :: "'a::len word \<Rightarrow> bytes" where
  "to_le w = le_bytes (LENGTH('a) div 8) (unat w)"

definition from_le :: "bytes \<Rightarrow> 'a::len word" where
  "from_le bs = word_of_nat (le_nat bs)"

definition to_be :: "'a::len word \<Rightarrow> bytes" where
  "to_be w = rev (to_le w)"

definition from_be :: "bytes \<Rightarrow> 'a::len word" where
  "from_be bs = from_le (rev bs)"

lemma length_le_bytes [simp]: "length (le_bytes n x) = n"
  by (induction n arbitrary: x) auto

lemma unat_byte_of_nat [simp]: "unat (word_of_nat x :: byte) = x mod 256"
  by (simp add: unat_of_nat)

lemma byte_of_unat_add: "word_of_nat (unat (b::byte) + 256 * k) = b"
proof (rule word_unat_eq_iff [THEN iffD2])
  have "unat b < 256" by (rule unat_byte_less)
  then show "unat (word_of_nat (unat b + 256 * k) :: byte) = unat b"
    unfolding unat_byte_of_nat by (metis mod_less mod_mult_self2)
qed

lemma le_nat_bound: "le_nat bs < 256 ^ length bs"
proof (induction bs)
  case Nil
  then show ?case by simp
next
  case (Cons b bs)
  have "unat b < 256" by (rule unat_byte_less)
  moreover have "le_nat bs + 1 \<le> 256 ^ length bs" using Cons by simp
  then have "256 * (le_nat bs + 1) \<le> 256 * 256 ^ length bs" by (rule mult_le_mono2)
  ultimately show ?case by simp
qed

lemma le_nat_le_bytes: "le_nat (le_bytes n x) = x mod 256 ^ n"
proof (induction n arbitrary: x)
  case 0
  then show ?case by simp
next
  case (Suc n)
  have "x mod 256 ^ Suc n = x mod 256 + 256 * (x div 256 mod 256 ^ n)"
    by (simp add: mod_mult2_eq)
  then show ?case by (simp add: Suc)
qed

lemma le_bytes_le_nat: "le_bytes (length bs) (le_nat bs) = bs"
proof (induction bs)
  case Nil
  then show ?case by simp
next
  case (Cons b bs)
  have "unat b < 256" by (rule unat_byte_less)
  then have "(unat b + 256 * le_nat bs) div 256 = le_nat bs" by simp
  then show ?case by (simp add: Cons byte_of_unat_add del: of_nat_add of_nat_mult)
qed

lemma pow256: "(256::nat) ^ n = 2 ^ (8 * n)"
  by (simp add: power_mult)

lemma length_to_le [simp]: "length (to_le (w :: 'a::len word)) = LENGTH('a) div 8"
  by (simp add: to_le_def)

lemma length_to_be [simp]: "length (to_be (w :: 'a::len word)) = LENGTH('a) div 8"
  by (simp add: to_be_def)

lemma le_nat_to_le:
  assumes "8 dvd LENGTH('a::len)"
  shows "le_nat (to_le (w :: 'a word)) = unat w"
proof -
  have "(256::nat) ^ (LENGTH('a) div 8) = 2 ^ LENGTH('a)"
    using assms by (simp add: pow256)
  then show ?thesis
    using unat_less_len [of w] by (simp add: to_le_def le_nat_le_bytes)
qed

lemma from_le_to_le [simp, codec_simps]:
  "8 dvd LENGTH('a::len) \<Longrightarrow> from_le (to_le (w :: 'a word)) = w"
  by (simp add: from_le_def le_nat_to_le)

lemma from_be_to_be [simp, codec_simps]:
  "8 dvd LENGTH('a::len) \<Longrightarrow> from_be (to_be (w :: 'a word)) = w"
  by (simp add: from_be_def to_be_def)

lemma unat_from_le:
  assumes "8 * length bs \<le> LENGTH('a::len)"
  shows "unat (from_le bs :: 'a word) = le_nat bs"
proof -
  have "le_nat bs < 2 ^ (8 * length bs)"
    using le_nat_bound [of bs] by (simp add: pow256)
  also have "\<dots> \<le> 2 ^ LENGTH('a)" using assms by simp
  finally show ?thesis by (simp add: from_le_def unat_of_nat)
qed

lemma to_le_from_le [simp, codec_simps]:
  assumes "8 dvd LENGTH('a::len)" "length bs = LENGTH('a) div 8"
  shows "to_le (from_le bs :: 'a word) = bs"
proof -
  have "8 * length bs = LENGTH('a)" using assms by simp
  then have "unat (from_le bs :: 'a word) = le_nat bs" by (simp add: unat_from_le)
  then show ?thesis by (simp add: to_le_def flip: assms(2)) (rule le_bytes_le_nat)
qed

lemma to_be_from_be [simp, codec_simps]:
  assumes "8 dvd LENGTH('a::len)" "length bs = LENGTH('a) div 8"
  shows "to_be (from_be bs :: 'a word) = bs"
  using assms by (simp add: from_be_def to_be_def)

lemma to_le_inject: "8 dvd LENGTH('a::len) \<Longrightarrow> to_le (v :: 'a word) = to_le w \<longleftrightarrow> v = w"
  by (metis from_le_to_le)

lemma to_be_inject: "8 dvd LENGTH('a::len) \<Longrightarrow> to_be (v :: 'a word) = to_be w \<longleftrightarrow> v = w"
  by (metis from_be_to_be)

section \<open>Byte order is numeric order\<close>

definition be_nat :: "bytes \<Rightarrow> nat" where
  "be_nat bs = le_nat (rev bs)"

lemma le_nat_append: "le_nat (xs @ ys) = le_nat xs + 256 ^ length xs * le_nat ys"
  by (induction xs) (auto simp: algebra_simps)

lemma be_nat_Nil [simp]: "be_nat [] = 0"
  by (simp add: be_nat_def)

lemma be_nat_Cons: "be_nat (b # bs) = be_nat bs + 256 ^ length bs * unat b"
  by (simp add: be_nat_def le_nat_append)

lemma be_nat_bound: "be_nat bs < 256 ^ length bs"
  using le_nat_bound [of "rev bs"] by (simp add: be_nat_def)

lemma be_nat_to_be: "8 dvd LENGTH('a::len) \<Longrightarrow> be_nat (to_be (w :: 'a word)) = unat w"
  by (simp add: be_nat_def to_be_def le_nat_to_le)

lemma digit_less_iff:
  fixes x y m a b :: nat
  assumes "x < m" "y < m"
  shows "x + m * a < y + m * b \<longleftrightarrow> a < b \<or> a = b \<and> x < y"
proof -
  have step: "u + m * c < v + m * d" if "u < m" "c < d" for u v c d
  proof -
    have "u + m * c < m * Suc c" using that by simp
    also have "\<dots> \<le> m * d" using that by (intro mult_le_mono2) simp
    finally show ?thesis by simp
  qed
  consider "a < b" | "a = b" | "b < a" by linarith
  then show ?thesis
    using step [of x a b y] step [of y b a x] assms by cases auto
qed

lemma bytes_less_iff_be_nat:
  "length xs = length ys \<Longrightarrow> xs < ys \<longleftrightarrow> be_nat xs < be_nat ys"
proof (induction xs ys rule: list_induct2)
  case Nil
  then show ?case by simp
next
  case (Cons x xs y ys)
  have "be_nat (x # xs) < be_nat (y # ys) \<longleftrightarrow> unat x < unat y \<or> unat x = unat y \<and> be_nat xs < be_nat ys"
    using digit_less_iff [of "be_nat xs" "256 ^ length xs" "be_nat ys" "unat x" "unat y"]
      be_nat_bound [of xs] be_nat_bound [of ys] Cons.hyps by (simp add: be_nat_Cons)
  then show ?case using Cons.IH by (auto simp: word_less_nat_alt word_unat_eq_iff)
qed

lemma to_be_less_iff [simp]:
  "8 dvd LENGTH('a::len) \<Longrightarrow> to_be (v :: 'a word) < to_be w \<longleftrightarrow> v < w"
  by (simp add: bytes_less_iff_be_nat be_nat_to_be word_less_nat_alt)

lemma append_less_append:
  fixes xs ys us vs :: bytes
  shows "length xs = length ys \<Longrightarrow> xs @ us < ys @ vs \<longleftrightarrow> xs < ys \<or> xs = ys \<and> us < vs"
  by (induction xs ys rule: list_induct2) auto

lemma append_less_same [simp]: "(xs :: bytes) @ us < xs @ vs \<longleftrightarrow> us < vs"
  by (simp add: append_less_append)

section \<open>Slices and in-place copies\<close>

text \<open>
  \<open>slice b i j\<close> is \<open>&b[i..j]\<close> where \<open>i \<le> j \<le> b.len()\<close>; \<open>put_at b i v\<close> is
  \<open>b[i..i + v.len()].copy_from_slice(v)\<close> where that range is inside \<open>b\<close>. Callers test the ranges.
\<close>

definition slice :: "'a list \<Rightarrow> nat \<Rightarrow> nat \<Rightarrow> 'a list" where
  "slice b i j = take (j - i) (drop i b)"

definition put_at :: "'a list \<Rightarrow> nat \<Rightarrow> 'a list \<Rightarrow> 'a list" where
  "put_at b i v = take i b @ v @ drop (i + length v) b"

text \<open>\<open>b.get(i..j)\<close>.\<close>

definition get_range :: "'a list \<Rightarrow> nat \<Rightarrow> nat \<Rightarrow> 'a list option" where
  "get_range b i j = (if i \<le> j \<and> j \<le> length b then Some (slice b i j) else None)"

text \<open>\<open>b.get(i)\<close>.\<close>

definition get_at :: "'a list \<Rightarrow> nat \<Rightarrow> 'a option" where
  "get_at b i = (if i < length b then Some (b ! i) else None)"

text \<open>\<open>&b[i..j]\<close>, which panics where the range leaves the buffer.\<close>

definition index_range :: "'a list \<Rightarrow> nat \<Rightarrow> nat \<Rightarrow> ('e, 'a list) outcome" where
  "index_range b i j = (if i \<le> j \<and> j \<le> length b then Ok (slice b i j) else Panic)"

lemma index_range_Ok: "i \<le> j \<Longrightarrow> j \<le> length b \<Longrightarrow> index_range b i j = Ok (slice b i j)"
  by (simp add: index_range_def)

lemma get_range_Some: "get_range b i j = Some v \<longleftrightarrow> i \<le> j \<and> j \<le> length b \<and> v = slice b i j"
  by (auto simp: get_range_def)

lemma get_at_Some: "get_at b i = Some x \<longleftrightarrow> i < length b \<and> x = b ! i"
  by (auto simp: get_at_def)

lemma length_slice [simp]: "length (slice b i j) = min (j - i) (length b - i)"
  by (simp add: slice_def)

lemma nth_slice: "n < j - i \<Longrightarrow> i + n < length b \<Longrightarrow> slice b i j ! n = b ! (i + n)"
  by (simp add: slice_def)

lemma length_put_at [simp]: "i + length v \<le> length b \<Longrightarrow> length (put_at b i v) = length b"
  by (simp add: put_at_def)

lemma nth_put_at:
  "i + length v \<le> length b \<Longrightarrow> n < length b \<Longrightarrow>
   put_at b i v ! n = (if i \<le> n \<and> n < i + length v then v ! (n - i) else b ! n)"
  by (auto simp: put_at_def nth_append)

lemma slice_put_at_same [slice_simps]:
  "j = i \<Longrightarrow> k = i + length v \<Longrightarrow> i + length v \<le> length b \<Longrightarrow> slice (put_at b i v) j k = v"
  by (simp add: slice_def put_at_def)

lemma slice_put_at_before [slice_simps]:
  "k \<le> i \<Longrightarrow> i + length v \<le> length b \<Longrightarrow> slice (put_at b i v) j k = slice b j k"
  by (rule nth_equalityI) (auto simp: nth_slice nth_put_at)

lemma slice_put_at_after [slice_simps]:
  "i + length v \<le> j \<Longrightarrow> i + length v \<le> length b \<Longrightarrow> slice (put_at b i v) j k = slice b j k"
  by (rule nth_equalityI) (auto simp: nth_slice nth_put_at)

lemma slice_put_at_inside:
  "i \<le> j \<Longrightarrow> k \<le> i + length v \<Longrightarrow> i + length v \<le> length b \<Longrightarrow>
   slice (put_at b i v) j k = slice v (j - i) (k - i)"
  by (rule nth_equalityI) (auto simp: nth_slice nth_put_at)

lemma put_at_put_at:
  "length v = length w \<Longrightarrow> i + length v \<le> length b \<Longrightarrow> put_at (put_at b i v) i w = put_at b i w"
  by (rule nth_equalityI) (auto simp: nth_put_at)

lemma slice_append_left: "j \<le> length xs \<Longrightarrow> slice (xs @ ys) i j = slice xs i j"
  by (cases "i \<le> j") (auto simp: slice_def)

lemma slice_append_right: "length xs \<le> i \<Longrightarrow> slice (xs @ ys) i j = slice ys (i - length xs) (j - length xs)"
  by (simp add: slice_def)

lemma slice_whole: "length b \<le> j \<Longrightarrow> slice b 0 j = b"
  by (simp add: slice_def)

lemma slice_empty [simp]: "j \<le> i \<Longrightarrow> slice b i j = []"
  by (simp add: slice_def)

lemma slice_split:
  "i \<le> j \<Longrightarrow> j \<le> k \<Longrightarrow> slice b i k = slice b i j @ slice b j k"
proof -
  assume "i \<le> j" "j \<le> k"
  then have e: "k - i = (j - i) + (k - j)" "drop (j - i) (drop i b) = drop j b" by auto
  show ?thesis by (simp only: slice_def e(1) take_add e(2))
qed

lemma slice_slice:
  "k \<le> j - i \<Longrightarrow> slice (slice b i j) h k = slice b (i + h) (i + k)"
  by (simp add: slice_def drop_take take_take min_def add.commute)

lemma slice_drop: "slice (drop n b) i j = slice b (n + i) (n + j)"
  by (simp add: slice_def add.commute)

lemma slice_take: "j \<le> n \<Longrightarrow> slice (take n b) i j = slice b i j"
  by (simp add: slice_def drop_take min_def)

section \<open>The NUL escape\<close>

text \<open>
  Two key encodings end a variable-length byte string with \<open>00 00\<close> and write an embedded zero as
  \<open>00 ff\<close>, so that a string sorts before every longer string it prefixes.
\<close>

fun nul_escape :: "bytes \<Rightarrow> bytes" where
  "nul_escape [] = [0, 0]"
| "nul_escape (b # bs) = (if b = 0 then 0 # 255 # nul_escape bs else b # nul_escape bs)"

lemma nul_escape_less:
  "nul_escape xs @ u < nul_escape ys @ v \<longleftrightarrow> xs < ys \<or> xs = ys \<and> u < v"
proof (induction xs arbitrary: ys)
  case Nil
  then show ?case by (cases ys) (auto simp: word_gt_0)
next
  case (Cons x xs)
  show ?case
    by (cases ys) (auto simp: Cons word_gt_0)
qed

lemma nul_escape_eq: "nul_escape xs @ u = nul_escape ys @ v \<longleftrightarrow> xs = ys \<and> u = v"
proof (induction xs arbitrary: ys)
  case Nil
  then show ?case by (cases ys) auto
next
  case (Cons x xs)
  show ?case by (cases ys) (auto simp: Cons)
qed

end
