(* ===== verification/Kernel_Error.thy ===== *)
theory Kernel_Error
  imports Prelude
begin

text \<open>
  The error type of the storage kernel (core/kernel/src/lib.rs, \<open>enum Error\<close>), with the
  constructors of the source. An operating-system error carries no detail here; the static
  reason strings are kept, because \<open>meta.rs\<close> and \<open>wal.rs\<close> branch on them.
\<close>

datatype kerror =
    Io
  | Corrupt u32 string
  | TooLarge
  | ReadOnly
  | WriterLocked
  | CorruptWal nat string
  | StorePoisoned
  | OutOfBudget
  | ResourceLimit string
  | DuplicateKey
  | RangeNotEmpty
  | UnsupportedFormat u16

type_synonym 'a kresult = "(kerror, 'a) outcome"

text \<open>
  The \<open>crc32c\<close> crate is a dependency, not part of the repository: the checksum is a parameter of
  every definition that uses it. \<open>crc c data\<close> stands for \<open>crc32c::crc32c_append(c, data)\<close>;
  \<open>crc32c::crc32c(data)\<close> is documented as \<open>crc32c_append(0, data)\<close>. The locale states the one
  documented law the code relies on: a checksum can be computed in pieces.
\<close>

type_synonym crc_fn = "u32 \<Rightarrow> bytes \<Rightarrow> u32"

locale crc32c_crate =
  fixes crc :: crc_fn
  assumes crc_nil: "crc c [] = c"
    and crc_pieces: "crc (crc c xs) ys = crc c (xs @ ys)"

text \<open>
  The instance the witnesses use: CRC-32C (Castagnoli, reflected polynomial \<open>0x82F63B78\<close>), bit by
  bit, with the initial and final inversion.
\<close>

unbundle bit_operations_syntax

definition crc32c_bit :: "u32 \<Rightarrow> u32" where
  "crc32c_bit s = (if s AND 1 = 1 then drop_bit 1 s XOR 0x82F63B78 else drop_bit 1 s)"

definition crc32c_byte :: "u32 \<Rightarrow> byte \<Rightarrow> u32" where
  "crc32c_byte s b = (crc32c_bit ^^ 8) (s XOR ucast b)"

definition crc32c_append :: crc_fn where
  "crc32c_append c bs = NOT (foldl crc32c_byte (NOT c) bs)"

interpretation castagnoli: crc32c_crate crc32c_append
  by unfold_locales (simp_all add: crc32c_append_def)

lemmas castagnoli_crate = castagnoli.crc32c_crate_axioms

end
