(* ===== verification/Ieee754.thy ===== *)
theory Ieee754
  imports Prelude
begin

text \<open>
  Rust's \<open>f64\<close> as its bit pattern (\<open>to_bits\<close>): sign bit 63, eleven exponent bits, 52 fraction bits.
  \<open>f64_scaled\<close> is the numeric value of a finite pattern times \<open>2 ^ 1074\<close>, an integer, so numeric
  order of finite doubles is integer order of \<open>f64_scaled\<close>. The theory shows that the magnitude
  bits order as the magnitudes do, which the order-preserving key encodings rest on.
\<close>

type_synonym f64 = u64

definition f64_sign :: "f64 \<Rightarrow> bool" where
  "f64_sign w = (unat w \<ge> 2 ^ 63)"

definition f64_magnitude_bits :: "f64 \<Rightarrow> nat" where
  "f64_magnitude_bits w = unat w mod 2 ^ 63"

definition f64_is_finite :: "f64 \<Rightarrow> bool" where
  "f64_is_finite w = (f64_magnitude_bits w < 2047 * 2 ^ 52)"

definition scaled_magnitude :: "nat \<Rightarrow> nat" where
  "scaled_magnitude x =
     (if x < 2 ^ 52 then x else (2 ^ 52 + x mod 2 ^ 52) * 2 ^ (x div 2 ^ 52 - 1))"

definition f64_scaled :: "f64 \<Rightarrow> int" where
  "f64_scaled w =
     (if f64_sign w then - int (scaled_magnitude (f64_magnitude_bits w))
      else int (scaled_magnitude (f64_magnitude_bits w)))"

lemma scaled_magnitude_Suc: "scaled_magnitude x < scaled_magnitude (Suc x)"
proof -
  consider (sub) "Suc x < 2 ^ 52" | (edge) "Suc x = 2 ^ 52" | (norm) "2 ^ 52 \<le> x" by linarith
  then show ?thesis
  proof cases
    case sub
    then show ?thesis by (simp add: scaled_magnitude_def)
  next
    case edge
    then have "x = 2 ^ 52 - 1" by simp
    then show ?thesis by (simp add: scaled_magnitude_def)
  next
    case norm
    define e m where "e = x div 2 ^ 52" and "m = x mod 2 ^ 52"
    have x: "x = e * 2 ^ 52 + m" and m: "m < 2 ^ 52" by (simp_all add: e_def m_def)
    have e: "1 \<le> e" using norm unfolding e_def by (simp add: div_greater_zero_iff Suc_le_eq)
    show ?thesis
    proof (cases "Suc m < 2 ^ 52")
      case True
      have "Suc x div 2 ^ 52 = e" "Suc x mod 2 ^ 52 = Suc m"
        using True x by (simp_all flip: add_Suc_right)
      with norm show ?thesis by (simp add: scaled_magnitude_def e_def m_def)
    next
      case False
      with m have sm: "Suc m = 2 ^ 52" by simp
      have "Suc x = Suc e * 2 ^ 52" using x sm by simp
      then have d: "Suc x div 2 ^ 52 = Suc e" "Suc x mod 2 ^ 52 = 0" by simp_all
      have "(2 ^ 52 + m) * 2 ^ (e - 1) < (2 ^ 52 + 2 ^ 52) * (2::nat) ^ (e - 1)"
        using m by simp
      also have "\<dots> = 2 ^ 52 * 2 ^ Suc (e - 1)" by simp
      also have "\<dots> = 2 ^ 52 * 2 ^ e" using e by simp
      finally show ?thesis using norm d
        by (simp only: scaled_magnitude_def e_def [symmetric] m_def [symmetric]) simp
    qed
  qed
qed

lemma scaled_magnitude_less_iff: "scaled_magnitude x < scaled_magnitude y \<longleftrightarrow> x < y"
  by (rule strict_mono_less) (simp add: strict_mono_Suc_iff scaled_magnitude_Suc)

lemma scaled_magnitude_eq_iff: "scaled_magnitude x = scaled_magnitude y \<longleftrightarrow> x = y"
  by (metis scaled_magnitude_less_iff linorder_neq_iff)

lemma scaled_magnitude_0_iff: "scaled_magnitude x = 0 \<longleftrightarrow> x = 0"
  using scaled_magnitude_eq_iff [of x 0] by (simp add: scaled_magnitude_def)

lemma f64_scaled_less_iff:
  "f64_scaled v < f64_scaled w \<longleftrightarrow>
     (if f64_sign v then
        (if f64_sign w then f64_magnitude_bits w < f64_magnitude_bits v
         else f64_magnitude_bits v \<noteq> 0 \<or> f64_magnitude_bits w \<noteq> 0)
      else \<not> f64_sign w \<and> f64_magnitude_bits v < f64_magnitude_bits w)"
  using scaled_magnitude_0_iff [of "f64_magnitude_bits v"] scaled_magnitude_0_iff [of "f64_magnitude_bits w"]
  by (auto simp: f64_scaled_def scaled_magnitude_less_iff)

lemma f64_scaled_eq_iff:
  "f64_scaled v = f64_scaled w \<longleftrightarrow>
     f64_magnitude_bits v = f64_magnitude_bits w \<and>
     (f64_sign v = f64_sign w \<or> f64_magnitude_bits v = 0)"
  using scaled_magnitude_0_iff [of "f64_magnitude_bits v"] scaled_magnitude_0_iff [of "f64_magnitude_bits w"]
  by (auto simp: f64_scaled_def scaled_magnitude_eq_iff)

section \<open>The order-preserving bit pattern\<close>

unbundle bit_operations_syntax

text \<open>\<open>1 << 63\<close>.\<close>

definition SIGN :: u64 where
  "SIGN = push_bit 63 1"

lemma SIGN_exp: "SIGN = 2 ^ 63"
  by (simp add: SIGN_def push_bit_eq_mult)

lemma unat_SIGN: "unat SIGN = 2 ^ 63"
  by (simp add: SIGN_exp)

lemma bit_SIGN [simp]: "bit SIGN n \<longleftrightarrow> n = 63"
  by (simp only: SIGN_exp bit_exp_iff possible_bit_word) auto

lemma unat_u64_less: "unat (w :: u64) < 2 ^ 64"
  using unat_less_len [of w] by simp

lemma unat_NOT_u64: "unat (NOT w :: u64) = u64_max - unat w"
proof -
  have n: "NOT w = (- 1 - w)" using minus_eq_not_minus_1 [of w] by (simp add: not_eq_complement)
  have "w \<le> - 1" by (rule word_n1_ge)
  then have "unat (- 1 - w) = unat (- 1 :: u64) - unat w" by (rule unat_sub)
  moreover have "unat (- 1 :: u64) = u64_max" by (simp add: unsigned_minus_1_eq_mask mask_eq_exp_minus_1)
  ultimately show ?thesis by (simp only: n)
qed

lemma bit_63_iff: "bit (w :: u64) 63 \<longleftrightarrow> 2 ^ 63 \<le> unat w"
proof -
  have "bit w 63 = bit (unat w) 63" by (simp add: bit_unsigned_iff)
  also have "\<dots> = odd (unat w div 2 ^ 63)" by (rule bit_iff_odd)
  also have "unat w div 2 ^ 63 = (if 2 ^ 63 \<le> unat w then 1 else 0)"
    using unat_u64_less [of w] by (auto intro!: div_nat_eqI)
  finally show ?thesis by simp
qed

lemma plus_SIGN: "\<not> bit v 63 \<Longrightarrow> v + SIGN = v XOR SIGN"
  by (rule disjunctive_add_eq_xor, rule bit_eqI) (auto simp: bit_and_iff)

lemma xor_SIGN: "w XOR SIGN = w + SIGN"
proof (cases "bit w 63")
  case True
  then have "\<not> bit (w XOR SIGN) 63" by (simp add: bit_xor_iff)
  then have "(w XOR SIGN) + SIGN = (w XOR SIGN) XOR SIGN" by (rule plus_SIGN)
  also have "\<dots> = w" by (simp add: xor.assoc)
  finally have "w + SIGN = (w XOR SIGN) + (SIGN + SIGN)" by (metis add.assoc)
  also have "SIGN + SIGN = 0" by (simp add: SIGN_exp)
  finally show ?thesis by simp
next
  case False
  then show ?thesis by (simp add: plus_SIGN)
qed

lemma unat_xor_SIGN:
  "unat (w XOR SIGN) = (if unat w < 2 ^ 63 then unat w + 2 ^ 63 else unat w - 2 ^ 63)"
  using unat_u64_less [of w] unfolding xor_SIGN
  by (auto simp: unat_word_ariths unat_SIGN le_mod_geq)

lemma and_SIGN: "w AND SIGN \<noteq> 0 \<longleftrightarrow> f64_sign w"
proof -
  have "w AND SIGN = 0 \<longleftrightarrow> \<not> bit w 63"
  proof
    assume "w AND SIGN = 0"
    then have "\<not> bit (w AND SIGN) 63" by simp
    then show "\<not> bit w 63" by (simp add: bit_and_iff)
  next
    assume "\<not> bit w 63"
    then show "w AND SIGN = 0" by (intro bit_eqI) (auto simp: bit_and_iff)
  qed
  then show ?thesis by (simp add: bit_63_iff f64_sign_def)
qed

lemma drop_bit_63: "drop_bit 63 w = 1 \<longleftrightarrow> f64_sign w"
proof -
  have "unat (drop_bit 63 w) = unat w div 2 ^ 63" by (simp only: unat_drop_bit_eq) (simp only: drop_bit_eq_div)
  also have "\<dots> = (if 2 ^ 63 \<le> unat w then 1 else 0)"
    using unat_u64_less [of w] by (auto intro!: div_nat_eqI)
  finally show ?thesis by (auto simp: f64_sign_def word_unat_eq_iff)
qed

text \<open>The encoding both key modules apply: flip every bit of a negative, only the sign otherwise.\<close>

definition f64_ordered :: "f64 \<Rightarrow> u64" where
  "f64_ordered b = (if f64_sign b then NOT b else b XOR SIGN)"

lemma unat_f64:
  "unat w = (if f64_sign w then 2 ^ 63 + f64_magnitude_bits w else f64_magnitude_bits w)"
  using unat_u64_less [of w] by (auto simp: f64_sign_def f64_magnitude_bits_def le_mod_geq)

lemma magnitude_bits_less: "f64_magnitude_bits w < 2 ^ 63"
  by (simp add: f64_magnitude_bits_def)

lemma unat_f64_ordered:
  "unat (f64_ordered w) =
     (if f64_sign w then 2 ^ 63 - 1 - f64_magnitude_bits w else 2 ^ 63 + f64_magnitude_bits w)"
  using magnitude_bits_less [of w]
  by (auto simp: f64_ordered_def unat_NOT_u64 unat_xor_SIGN unat_f64 [of w])

lemma f64_ordered_mono: "f64_scaled v < f64_scaled w \<Longrightarrow> f64_ordered v < f64_ordered w"
  using magnitude_bits_less [of v] magnitude_bits_less [of w]
  by (auto simp: word_less_nat_alt unat_f64_ordered f64_scaled_less_iff split: if_splits)

lemma f64_ordered_less_iff:
  "f64_ordered v < f64_ordered w \<longleftrightarrow>
     f64_scaled v < f64_scaled w \<or> f64_scaled v = f64_scaled w \<and> f64_sign v \<and> \<not> f64_sign w"
  using magnitude_bits_less [of v] magnitude_bits_less [of w]
  by (auto simp: word_less_nat_alt unat_f64_ordered f64_scaled_less_iff f64_scaled_eq_iff split: if_splits)

lemma f64_ordered_inject: "f64_ordered v = f64_ordered w \<longleftrightarrow> v = w"
proof
  assume "f64_ordered v = f64_ordered w"
  then have "unat (f64_ordered v) = unat (f64_ordered w)" by simp
  then have "unat v = unat w"
    using magnitude_bits_less [of v] magnitude_bits_less [of w]
    by (auto simp: unat_f64_ordered unat_f64 [of v] unat_f64 [of w] split: if_splits)
  then show "v = w" by (simp add: word_unat_eq_iff)
qed simp

end
