(* ===== verification/Keys.thy ===== *)
theory Keys
  imports Kernel_Error Ieee754 "HOL-Library.Sublist"
begin

text \<open>
  The keyspaces of the kernel's one tree (core/kernel/src/keys.rs): a tag byte, then big-endian
  integers, so that byte order is numeric order and "everything of X" is one prefix. One definition
  per key constructor, in the order of the file, then the laws: keys of one shape order and compare
  as their components do, keyspaces do not interleave, a prefix selects exactly the rows it names.
\<close>

unbundle bit_operations_syntax

section \<open>Tags\<close>

definition TAG_CATALOG :: byte where "TAG_CATALOG = 0x00"
definition TAG_NODE :: byte where "TAG_NODE = 0x01"
definition TAG_LABEL :: byte where "TAG_LABEL = 0x02"
definition TAG_EDGE :: byte where "TAG_EDGE = 0x03"
definition TAG_REDGE :: byte where "TAG_REDGE = 0x04"
definition TAG_VEC :: byte where "TAG_VEC = 0x05"
definition TAG_EXT :: byte where "TAG_EXT = 0x06"
definition TAG_CEDGE :: byte where "TAG_CEDGE = 0x08"
definition TAG_CREDGE :: byte where "TAG_CREDGE = 0x09"
definition TAG_PROP :: byte where "TAG_PROP = 0x0A"
definition TAG_VCODE :: byte where "TAG_VCODE = 0x0B"
definition TAG_TEXT :: byte where "TAG_TEXT = 0x0C"
definition TAG_TEXTNORM :: byte where "TAG_TEXTNORM = 0x0D"
definition TAG_TEXTMETA :: byte where "TAG_TEXTMETA = 0x0E"
definition TAG_SPAT :: byte where "TAG_SPAT = 0x0F"
definition TAG_GEOM :: byte where "TAG_GEOM = 0x10"
definition TAG_NAV :: byte where "TAG_NAV = 0x11"
definition TAG_SQLMETA :: byte where "TAG_SQLMETA = 0x12"
definition TAG_FIELDIDX :: byte where "TAG_FIELDIDX = 0x13"
definition TAG_SEARCHSLOT :: byte where "TAG_SEARCHSLOT = 0x14"
definition CAT_KEY_ORDER :: u64 where "CAT_KEY_ORDER = 4"
definition CAT_FIELD_AGGREGATE :: u64 where "CAT_FIELD_AGGREGATE = 5"

lemmas tag_defs =
  TAG_CATALOG_def TAG_NODE_def TAG_LABEL_def TAG_EDGE_def TAG_REDGE_def TAG_VEC_def TAG_EXT_def
  TAG_CEDGE_def TAG_CREDGE_def TAG_PROP_def TAG_VCODE_def TAG_TEXT_def TAG_TEXTNORM_def
  TAG_TEXTMETA_def TAG_SPAT_def TAG_GEOM_def TAG_NAV_def TAG_SQLMETA_def TAG_FIELDIDX_def
  TAG_SEARCHSLOT_def

section \<open>Key constructors\<close>

definition tagged :: "byte \<Rightarrow> u64 list \<Rightarrow> bytes" where
  "tagged tag parts = tag # concat (map to_be parts)"

definition field_aggregate_key :: "u64 \<Rightarrow> u64 \<Rightarrow> bytes" where
  "field_aggregate_key coll field = tagged TAG_CATALOG [CAT_FIELD_AGGREGATE, coll, field]"

definition is_field_aggregate_key :: "bytes \<Rightarrow> bool" where
  "is_field_aggregate_key key \<longleftrightarrow>
     length key = 25 \<and> key ! 0 = TAG_CATALOG \<and> slice key 1 9 = to_be CAT_FIELD_AGGREGATE"

definition node_key :: "u64 \<Rightarrow> bytes" where
  "node_key i = tagged TAG_NODE [i]"

definition edge_key :: "u64 \<Rightarrow> u64 \<Rightarrow> u64 \<Rightarrow> u64 \<Rightarrow> bytes" where
  "edge_key ctx src ty dst =
     (if ctx = 0 then tagged TAG_EDGE [src, ty, dst] else tagged TAG_CEDGE [ctx, src, ty, dst])"

definition redge_key :: "u64 \<Rightarrow> u64 \<Rightarrow> u64 \<Rightarrow> u64 \<Rightarrow> bytes" where
  "redge_key ctx dst ty src =
     (if ctx = 0 then tagged TAG_REDGE [dst, ty, src] else tagged TAG_CREDGE [ctx, dst, ty, src])"

definition edge_prefix :: "u64 \<Rightarrow> u64 \<Rightarrow> bytes" where
  "edge_prefix ctx src = (if ctx = 0 then tagged TAG_EDGE [src] else tagged TAG_CEDGE [ctx, src])"

definition ctx_prefix :: "u64 \<Rightarrow> bytes" where
  "ctx_prefix ctx = (if ctx = 0 then [TAG_EDGE] else tagged TAG_CEDGE [ctx])"

definition vec_key :: "u64 \<Rightarrow> u64 \<Rightarrow> bytes" where
  "vec_key field i = tagged TAG_VEC [field, i]"

definition vec_prefix :: "u64 \<Rightarrow> bytes" where
  "vec_prefix field = tagged TAG_VEC [field]"

definition vcode_key :: "u64 \<Rightarrow> u64 \<Rightarrow> bytes" where
  "vcode_key field i = tagged TAG_VCODE [field, i]"

definition vcode_prefix :: "u64 \<Rightarrow> bytes" where
  "vcode_prefix field = tagged TAG_VCODE [field]"

definition nav_prefix :: "u64 \<Rightarrow> bytes" where
  "nav_prefix field = tagged TAG_NAV [field]"

definition text_head_key :: "u64 \<Rightarrow> bytes \<Rightarrow> u64 \<Rightarrow> bytes" where
  "text_head_key field term docid =
     [TAG_TEXT] @ to_be field @ to_be (0 :: u32) @ term @ [0x00] @ to_be docid"

definition text_head_doc_key :: "u64 \<Rightarrow> u64 \<Rightarrow> bytes" where
  "text_head_doc_key field docid = text_head_key field [] docid"

definition text_seg_key :: "u64 \<Rightarrow> u32 \<Rightarrow> bytes \<Rightarrow> bytes" where
  "text_seg_key field seg term = [TAG_TEXT] @ to_be field @ to_be seg @ term"

definition text_seg_block_prefix :: "u64 \<Rightarrow> u32 \<Rightarrow> bytes \<Rightarrow> bytes" where
  "text_seg_block_prefix field seg term = text_seg_key field seg term @ [0]"

definition text_seg_block_key :: "u64 \<Rightarrow> u32 \<Rightarrow> bytes \<Rightarrow> u64 \<Rightarrow> bytes" where
  "text_seg_block_key field seg term first_doc =
     text_seg_block_prefix field seg term @ to_be first_doc"

definition text_meta_key :: "u64 \<Rightarrow> u32 \<Rightarrow> bytes" where
  "text_meta_key field seg = [TAG_TEXTMETA] @ to_be field @ to_be seg"

definition text_seg_doc_prefix :: "u64 \<Rightarrow> u32 \<Rightarrow> bytes" where
  "text_seg_doc_prefix field seg = text_meta_key field seg @ [0]"

definition text_seg_doc_key :: "u64 \<Rightarrow> u32 \<Rightarrow> u64 \<Rightarrow> bytes" where
  "text_seg_doc_key field seg docid = text_seg_doc_prefix field seg @ to_be docid"

definition text_norm_key :: "u64 \<Rightarrow> u64 \<Rightarrow> bytes" where
  "text_norm_key field docid = tagged TAG_TEXTNORM [field, docid]"

definition text_prefix :: "u64 \<Rightarrow> bytes" where
  "text_prefix field = tagged TAG_TEXT [field]"

definition text_norm_prefix :: "u64 \<Rightarrow> bytes" where
  "text_norm_prefix field = tagged TAG_TEXTNORM [field]"

definition text_meta_prefix :: "u64 \<Rightarrow> bytes" where
  "text_meta_prefix field = tagged TAG_TEXTMETA [field]"

definition spat_key :: "u64 \<Rightarrow> byte \<Rightarrow> u64 \<Rightarrow> u64 \<Rightarrow> bytes" where
  "spat_key field level cell i = [TAG_SPAT] @ to_be field @ [level] @ to_be cell @ to_be i"

definition geom_key :: "u64 \<Rightarrow> u64 \<Rightarrow> bytes" where
  "geom_key field i = tagged TAG_GEOM [field, i]"

definition geom_prefix :: "u64 \<Rightarrow> bytes" where
  "geom_prefix field = tagged TAG_GEOM [field]"

definition nav_key :: "u64 \<Rightarrow> u64 \<Rightarrow> bytes" where
  "nav_key field i = tagged TAG_NAV [field, i]"

definition fieldidx_key :: "u64 \<Rightarrow> u64 \<Rightarrow> bytes \<Rightarrow> u64 \<Rightarrow> bytes" where
  "fieldidx_key coll field val i = [TAG_FIELDIDX] @ to_be coll @ to_be field @ val @ to_be i"

definition fieldidx_prefix :: "u64 \<Rightarrow> u64 \<Rightarrow> bytes" where
  "fieldidx_prefix coll field = [TAG_FIELDIDX] @ to_be coll @ to_be field"

definition searchslot_key :: "u64 \<Rightarrow> byte \<Rightarrow> u64 \<Rightarrow> bytes" where
  "searchslot_key idx kind i = [TAG_SEARCHSLOT] @ to_be idx @ [kind] @ to_be i"

definition searchslot_prefix :: "u64 \<Rightarrow> bytes" where
  "searchslot_prefix idx = [TAG_SEARCHSLOT] @ to_be idx"

definition sqlmeta_key :: "byte \<Rightarrow> u64 \<Rightarrow> bytes" where
  "sqlmeta_key kind hash = [TAG_SQLMETA] @ [kind] @ to_be hash"

definition spat_prefix :: "u64 \<Rightarrow> byte \<Rightarrow> bytes" where
  "spat_prefix field level = [TAG_SPAT] @ to_be field @ [level]"

definition TEXT_TERM_STATS_SEG :: u32 where "TEXT_TERM_STATS_SEG = 0xFFFFFFFE"
definition TEXT_FIELD_META_SEG :: u32 where "TEXT_FIELD_META_SEG = 0xFFFFFFFF"

definition text_field_meta_key :: "u64 \<Rightarrow> bytes" where
  "text_field_meta_key field = text_meta_key field TEXT_FIELD_META_SEG"

definition text_term_id_key :: "u64 \<Rightarrow> u64 \<Rightarrow> bytes" where
  "text_term_id_key field term_id = text_meta_key field TEXT_TERM_STATS_SEG @ [0] @ to_be term_id"

definition text_term_lex_prefix :: "u64 \<Rightarrow> bytes" where
  "text_term_lex_prefix field = text_meta_key field TEXT_TERM_STATS_SEG @ [1]"

definition text_term_lex_key :: "u64 \<Rightarrow> bytes \<Rightarrow> bytes" where
  "text_term_lex_key field term = text_term_lex_prefix field @ term"

definition label_key :: "u64 \<Rightarrow> u64 \<Rightarrow> bytes" where
  "label_key l i = tagged TAG_LABEL [l, i]"

definition label_prefix :: "u64 \<Rightarrow> bytes" where
  "label_prefix l = tagged TAG_LABEL [l]"

definition edge_type_prefix :: "u64 \<Rightarrow> u64 \<Rightarrow> u64 \<Rightarrow> bytes" where
  "edge_type_prefix ctx src ty =
     (if ctx = 0 then tagged TAG_EDGE [src, ty] else tagged TAG_CEDGE [ctx, src, ty])"

definition redge_prefix :: "u64 \<Rightarrow> u64 \<Rightarrow> bytes" where
  "redge_prefix ctx dst = (if ctx = 0 then tagged TAG_REDGE [dst] else tagged TAG_CREDGE [ctx, dst])"

definition redge_type_prefix :: "u64 \<Rightarrow> u64 \<Rightarrow> u64 \<Rightarrow> bytes" where
  "redge_type_prefix ctx dst ty =
     (if ctx = 0 then tagged TAG_REDGE [dst, ty] else tagged TAG_CREDGE [ctx, dst, ty])"

definition extkey :: "u64 \<Rightarrow> bytes" where
  "extkey h = tagged TAG_EXT [h]"

definition catalog_key :: "u64 \<Rightarrow> bytes" where
  "catalog_key field = tagged TAG_CATALOG [field]"

definition catalog_field :: "u64 \<Rightarrow> u64 \<Rightarrow> bytes" where
  "catalog_field slot field = tagged TAG_CATALOG [slot, field]"

definition catalog_field_prefix :: "u64 \<Rightarrow> bytes" where
  "catalog_field_prefix slot = tagged TAG_CATALOG [slot]"

definition catalog_field_item :: "u64 \<Rightarrow> u64 \<Rightarrow> u64 \<Rightarrow> bytes" where
  "catalog_field_item slot field item = tagged TAG_CATALOG [slot, field, item]"

definition key_order_prefix :: "u64 \<Rightarrow> u64 \<Rightarrow> bytes" where
  "key_order_prefix collection field = tagged TAG_CATALOG [CAT_KEY_ORDER, collection, field]"

definition key_order_key :: "u64 \<Rightarrow> u64 \<Rightarrow> bytes \<Rightarrow> u64 \<Rightarrow> bytes" where
  "key_order_key collection field key i =
     key_order_prefix collection field @
     concat (map (\<lambda>b. if b = 0 then [0, 255] else [b]) key) @ [0, 0] @ to_be i"

fun fnv1a :: "u64 \<Rightarrow> bytes \<Rightarrow> u64" where
  "fnv1a h [] = h"
| "fnv1a h (x # b) = fnv1a ((h XOR ucast x) * 0x100000001b3) b"

definition ext_hash :: "bytes \<Rightarrow> u64" where
  "ext_hash b = fnv1a 0xcbf29ce484222325 b"

definition prop_key :: "u64 \<Rightarrow> u64 \<Rightarrow> u64 \<Rightarrow> bytes" where
  "prop_key prop_id val i = tagged TAG_PROP [prop_id, val, i]"

definition prop_prefix :: "u64 \<Rightarrow> bytes" where
  "prop_prefix prop_id = tagged TAG_PROP [prop_id]"

definition prop_value_prefix :: "u64 \<Rightarrow> u64 \<Rightarrow> bytes" where
  "prop_value_prefix prop_id val = tagged TAG_PROP [prop_id, val]"

text \<open>An \<open>i64\<close> is its two's complement word; \<open>v as u64\<close> keeps the bits.\<close>

definition enc_i64 :: "u64 \<Rightarrow> u64" where
  "enc_i64 v = v XOR SIGN"

definition enc_f64 :: "f64 \<Rightarrow> u64" where
  "enc_f64 v = (if drop_bit 63 v = 1 then NOT v else v XOR SIGN)"

definition enc_f64_desc :: "f64 \<Rightarrow> u64" where
  "enc_f64_desc v = NOT (enc_f64 v)"

definition enc_i64_desc :: "u64 \<Rightarrow> u64" where
  "enc_i64_desc v = NOT (enc_i64 v)"

definition u64_at :: "bytes \<Rightarrow> nat \<Rightarrow> ('e, u64) outcome" where
  "u64_at b off = (if off + 8 \<le> length b then Ok (from_be (slice b off (off + 8))) else Panic)"

section \<open>Order and prefixes of tagged keys\<close>

lemma Nil_less_iff: "([] :: bytes) < xs \<longleftrightarrow> xs \<noteq> []"
  by (cases xs) auto

lemma to_be_u64_neq_Nil [simp]: "to_be (w :: u64) \<noteq> []"
  by (simp flip: length_greater_0_conv)

lemma concat_be_less: "concat (map to_be ps) < concat (map to_be qs) \<longleftrightarrow> (ps :: u64 list) < qs"
proof (induction ps arbitrary: qs)
  case Nil
  then show ?case by (cases qs) (auto simp: Nil_less_iff)
next
  case (Cons p ps)
  show ?case
    by (cases qs) (auto simp: Cons append_less_append to_be_inject)
qed

lemma prefix_append_same_length:
  "length xs = length ys \<Longrightarrow> prefix (xs @ us) (ys @ vs) \<longleftrightarrow> xs = ys \<and> prefix us vs"
  by (induction xs ys rule: list_induct2) auto

lemma concat_be_prefix:
  "prefix (concat (map to_be ps)) (concat (map to_be qs)) \<longleftrightarrow> prefix ps (qs :: u64 list)"
proof (induction ps arbitrary: qs)
  case Nil
  then show ?case by simp
next
  case (Cons p ps)
  show ?case
    by (cases qs) (auto simp: Cons prefix_append_same_length to_be_inject)
qed

lemma tagged_less: "tagged t ps < tagged u qs \<longleftrightarrow> t < u \<or> t = u \<and> ps < qs"
  by (simp add: tagged_def concat_be_less)

lemma tagged_prefix: "prefix (tagged t ps) (tagged u qs) \<longleftrightarrow> t = u \<and> prefix ps qs"
  by (simp add: tagged_def concat_be_prefix)

lemma tagged_eq: "tagged t ps = tagged u qs \<longleftrightarrow> t = u \<and> ps = qs"
  using tagged_prefix [of t ps u qs] tagged_prefix [of u qs t ps]
  by (auto simp: prefix_order.eq_iff)

lemma tagged_single: "[t] = tagged t []"
  by (simp add: tagged_def)

lemmas tagged_laws = tagged_less tagged_prefix tagged_eq

text \<open>
  C37: The graph keyspaces. The byte order of edge keys is the lexicographic order of (context,
  source, type, target), the base graph (context 0) first, and every edge key sorts after every node
  key. A scan over an adjacency prefix meets exactly the edges of that context and source (and type),
  a context prefix exactly the edges of that context, and no reverse edge ever.
\<close>

theorem graph_key_space:
  "(edge_key c s t d < edge_key c' s' t' d' \<longleftrightarrow> [c, s, t, d] < [c', s', t', d']) \<and>
   node_key n < edge_key c s t d \<and>
   (edge_key c s t d = edge_key c' s' t' d' \<longleftrightarrow> c = c' \<and> s = s' \<and> t = t' \<and> d = d') \<and>
   (prefix (edge_prefix c s) (edge_key c' s' t d) \<longleftrightarrow> c' = c \<and> s' = s) \<and>
   (prefix (edge_type_prefix c s t) (edge_key c' s' t' d) \<longleftrightarrow> c' = c \<and> s' = s \<and> t' = t) \<and>
   (prefix (ctx_prefix c) (edge_key c' s' t d) \<longleftrightarrow> c' = c) \<and>
   (prefix (redge_prefix c d) (redge_key c' d' t s) \<longleftrightarrow> c' = c \<and> d' = d) \<and>
   (prefix (redge_type_prefix c d t) (redge_key c' d' t' s) \<longleftrightarrow> c' = c \<and> d' = d \<and> t' = t) \<and>
   \<not> prefix (edge_prefix c s) (redge_key c' d t s')"
proof -
  have cp: "prefix (ctx_prefix c) (edge_key c' s' t d) \<longleftrightarrow> c' = c"
    by (auto simp: ctx_prefix_def edge_key_def tagged_single tagged_laws tag_defs
          simp del: tagged_def)
  show ?thesis
    by (intro conjI cp)
      (auto simp: edge_prefix_def edge_type_prefix_def redge_prefix_def redge_type_prefix_def
        edge_key_def redge_key_def node_key_def tagged_laws tag_defs word_gt_0)
qed

section \<open>Variable-length components\<close>

lemma nul_escape_concat:
  "concat (map (\<lambda>b. if b = 0 then [0, 255] else [b]) ks) @ [0, 0] @ u = nul_escape ks @ u"
  by (induction ks) simp_all

lemma key_order_key_escape:
  "key_order_key c f ks i = key_order_prefix c f @ nul_escape ks @ to_be i"
  unfolding key_order_key_def nul_escape_concat ..

lemma nul_free_less:
  assumes "0 \<notin> set xs" "0 \<notin> set ys"
  shows "xs @ 0 # u < ys @ 0 # v \<longleftrightarrow> xs < ys \<or> xs = ys \<and> u < (v :: bytes)"
  using assms
proof (induction xs arbitrary: ys)
  case Nil
  then show ?case by (cases ys) (auto simp: word_gt_0)
next
  case (Cons x xs)
  then show ?case by (cases ys) (auto simp: word_gt_0 not_less word_le_0_iff)
qed

text \<open>
  Index keys with a byte string inside. The covering key-order index enumerates the rows of one
  (collection, field) in the byte order of their logical keys, embedded zeros included, rows with
  equal keys in id order, and distinct rows have distinct keys. Posting rows of the mutable text head
  sort by term first (a term before every longer term it prefixes) and by document within a term,
  because tokenizer terms hold no zero byte.
\<close>

theorem index_key_order:
  assumes "0 \<notin> set t1" "0 \<notin> set t2"
  shows "(key_order_key c f k1 i1 < key_order_key c f k2 i2 \<longleftrightarrow> k1 < k2 \<or> k1 = k2 \<and> i1 < i2) \<and>
   (key_order_key c f k1 i1 = key_order_key c f k2 i2 \<longleftrightarrow> k1 = k2 \<and> i1 = i2) \<and>
   prefix (key_order_prefix c f) (key_order_key c f k1 i1) \<and>
   (text_head_key f t1 d1 < text_head_key f t2 d2 \<longleftrightarrow> t1 < t2 \<or> t1 = t2 \<and> d1 < d2)"
  using nul_free_less [OF assms, of "to_be d1" "to_be d2"]
  by (simp add: text_head_key_def key_order_key_escape nul_escape_less nul_escape_eq to_be_inject)

theorem index_key_order_witness:
  "text_head_key 7 (ascii ''hand'') 9 < text_head_key 7 (ascii ''handle'') 1 \<and>
   key_order_key 1 7 [0] 5 < key_order_key 1 7 [0, 0] 2"
proof -
  have z: "0 \<notin> set (ascii ''hand'')" "0 \<notin> set (ascii ''handle'')"
    by (simp_all add: ascii_def)
  have "ascii ''hand'' < ascii ''handle''" by (simp add: ascii_def)
  then show ?thesis using index_key_order [OF z, of 1 7 "[0]" 5 "[0, 0]" 2 9 1] by simp
qed

section \<open>Order-preserving values\<close>

lemma enc_f64_eq: "enc_f64 v = f64_ordered v"
  by (simp add: enc_f64_def f64_ordered_def drop_bit_63)

lemma sint_u64: "sint (w :: u64) = (if unat w < 2 ^ 63 then int (unat w) else int (unat w) - 2 ^ 64)"
proof -
  have "sint w = take_bit 64 (uint w) - 2 ^ 64 * of_bool (bit (uint w) 63)"
    by (simp add: sint_uint signed_take_bit_eq_take_bit_minus)
  also have "bit (uint w) 63 \<longleftrightarrow> 2 ^ 63 \<le> unat w"
    by (simp add: bit_unsigned_iff bit_63_iff)
  also have "take_bit 64 (uint w) = int (unat w)"
    using unsigned_take_bit_eq [of 64 w, where ?'a = int] by (simp add: take_bit_word_eq_self)
  finally show ?thesis by auto
qed

lemma enc_i64_less: "enc_i64 v < enc_i64 w \<longleftrightarrow> sint v < sint w"
proof -
  obtain m n where mn: "unat v = m" "unat w = n" by simp
  have "m < 2 ^ 64" "n < 2 ^ 64" using unat_u64_less [of v] unat_u64_less [of w] mn by auto
  then show ?thesis
    unfolding enc_i64_def word_less_nat_alt unat_xor_SIGN sint_u64 mn by auto
qed

lemma NOT_less_NOT: "NOT v < (NOT w :: u64) \<longleftrightarrow> w < v"
  using unat_u64_less [of v] unat_u64_less [of w]
  by (auto simp: word_less_nat_alt unat_NOT_u64)


end
