(* ===== verification/Limits.thy ===== *)
theory Limits
  imports Kernel_Error
begin

text \<open>
  The resource policy of a constrained store (core/kernel/src/limits.rs): the six-field record, its
  validation, its 56-byte encoding. The encoding is canonical: decoding accepts exactly the bytes
  that encoding a valid policy produces.
\<close>

record resource_limits =
  data_bytes :: u64
  wal_bytes :: u64
  tracked_pages :: u32
  readers :: u32
  record_bytes :: u32
  recovery_bytes :: u64

definition freelist_bytes :: "resource_limits \<Rightarrow> nat" where
  "freelist_bytes l = 28 + 24 * unat (tracked_pages l)"

definition total_bytes :: "resource_limits \<Rightarrow> nat kresult" where
  "total_bytes l =
     of_option (ResourceLimit ''total byte limit overflow'')
       (Option.bind (checked_add_u64 (unat (data_bytes l)) (unat (wal_bytes l))) (\<lambda>n.
        Option.bind (checked_add_u64 n (2 * freelist_bytes l)) (\<lambda>n.
        Option.bind (checked_add_u64 n (48 * unat (readers l))) (\<lambda>n.
        checked_add_u64 n (unat (recovery_bytes l))))))"

definition limits_validate :: "resource_limits \<Rightarrow> resource_limits kresult" where
  "limits_validate l =
     (if unat (data_bytes l) < 3 * 4096
        \<or> unat (data_bytes l) mod 4096 \<noteq> 0
        \<or> unat (data_bytes l) div 4096 > u32_max
        \<or> unat (wal_bytes l) < 4096
        \<or> tracked_pages l = 0
        \<or> readers l = 0
        \<or> unat (readers l) > 4096
        \<or> record_bytes l = 0
        \<or> unat (record_bytes l) + 4096 > unat (wal_bytes l)
      then Err (ResourceLimit ''invalid resource limits'')
      else obind (total_bytes l) (\<lambda>_. Ok l))"

definition limits_magic :: bytes where
  "limits_magic = ascii ''E4LIMIT1''"

definition limits_encode :: "resource_limits \<Rightarrow> bytes" where
  "limits_encode l =
     limits_magic @ to_le (data_bytes l) @ to_le (wal_bytes l)
       @ to_le (ucast (tracked_pages l) :: u64) @ to_le (ucast (readers l) :: u64)
       @ to_le (ucast (record_bytes l) :: u64) @ to_le (recovery_bytes l)"

definition u64_le_at :: "bytes \<Rightarrow> nat \<Rightarrow> u64" where
  "u64_le_at b i = from_le (slice b i (i + 8))"

text \<open>\<open>u32::try_from\<close> of a stored \<open>u64\<close>.\<close>

definition small_at :: "bytes \<Rightarrow> nat \<Rightarrow> u32 kresult" where
  "small_at b i =
     (if unat (u64_le_at b i) \<le> u32_max then Ok (ucast (u64_le_at b i))
      else Err (ResourceLimit ''resource policy overflow''))"

definition limits_decode :: "bytes \<Rightarrow> resource_limits kresult" where
  "limits_decode b =
     (if length b \<noteq> 56 \<or> slice b 0 8 \<noteq> limits_magic
      then Err (ResourceLimit ''damaged resource policy; use source-preserving recovery'')
      else obind (small_at b 24) (\<lambda>tp.
           obind (small_at b 32) (\<lambda>rd.
           obind (small_at b 40) (\<lambda>rc.
           limits_validate
             \<lparr>data_bytes = u64_le_at b 8, wal_bytes = u64_le_at b 16, tracked_pages = tp,
              readers = rd, record_bytes = rc, recovery_bytes = u64_le_at b 48\<rparr>))))"

section \<open>Laws\<close>

lemma limits_validate_cases:
  "limits_validate l = Ok l' \<Longrightarrow> l' = l \<and> (\<exists>n. total_bytes l = Ok n)"
  by (auto simp: limits_validate_def obind_iffs split: if_splits)

lemma limits_validate_not_Panic: "limits_validate l \<noteq> Panic"
  by (simp add: limits_validate_def obind_iffs total_bytes_def)

lemma total_bytes_value:
  "total_bytes l = Ok n \<Longrightarrow>
   n = unat (data_bytes l) + unat (wal_bytes l) + 2 * freelist_bytes l + 48 * unat (readers l)
       + unat (recovery_bytes l) \<and> n \<le> u64_max"
  by (auto simp: total_bytes_def Option.bind_eq_Some_conv checked_add_u64_Some)

lemma length_limits_encode [simp]: "length (limits_encode l) = 56"
  by (simp add: limits_encode_def limits_magic_def)

lemma slice_limits_encode:
  "slice (limits_encode l) 0 8 = limits_magic"
  "slice (limits_encode l) 8 16 = to_le (data_bytes l)"
  "slice (limits_encode l) 16 24 = to_le (wal_bytes l)"
  "slice (limits_encode l) 24 32 = to_le (ucast (tracked_pages l) :: u64)"
  "slice (limits_encode l) 32 40 = to_le (ucast (readers l) :: u64)"
  "slice (limits_encode l) 40 48 = to_le (ucast (record_bytes l) :: u64)"
  "slice (limits_encode l) 48 56 = to_le (recovery_bytes l)"
  by (simp_all add: limits_encode_def limits_magic_def slice_def)

lemma unat_ucast_u32_u64: "unat (ucast (w :: u32) :: u64) = unat w"
proof -
  have "unat w < 2 ^ 64" using unat_less_len [of w] by simp
  then show ?thesis by (simp add: unsigned_ucast_eq take_bit_nat_eq_self)
qed

lemma ucast_u32_u64: "ucast (ucast (w :: u32) :: u64) = w"
  by (simp add: word_unat_eq_iff unsigned_ucast_eq take_bit_word_eq_self)

lemma small_at_encode:
  assumes "slice b i (i + 8) = to_le (ucast (w :: u32) :: u64)"
  shows "small_at b i = Ok w"
proof -
  have "unat w \<le> u32_max" using unat_less_len [of w] by simp
  then show ?thesis
    using assms by (simp add: small_at_def u64_le_at_def unat_ucast_u32_u64 ucast_u32_u64)
qed

lemma limits_decode_encode:
  "limits_validate l = Ok l \<Longrightarrow> limits_decode (limits_encode l) = Ok l"
  by (cases l)
    (simp add: limits_decode_def slice_limits_encode small_at_encode u64_le_at_def)

lemma small_at_bytes:
  assumes "small_at b i = Ok w" "i + 8 \<le> length b"
  shows "to_le (ucast w :: u64) = slice b i (i + 8)"
proof -
  define v where "v = u64_le_at b i"
  have v: "unat v \<le> u32_max" "w = ucast v"
    using assms(1) by (auto simp: small_at_def v_def split: if_splits)
  then have "unat w = unat v" by (simp add: unsigned_ucast_eq take_bit_nat_eq_self)
  then have "(ucast w :: u64) = v" by (simp add: word_unat_eq_iff unat_ucast_u32_u64)
  then show ?thesis using assms(2) by (simp add: v_def u64_le_at_def)
qed

lemma bytes_56_split:
  "length b = 56 \<Longrightarrow>
   b = slice b 0 8 @ slice b 8 16 @ slice b 16 24 @ slice b 24 32 @ slice b 32 40 @ slice b 40 48 @ slice b 48 56"
  by (simp add: slice_whole flip: slice_split)

lemma limits_decode_canonical:
  assumes "limits_decode b = Ok l"
  shows "b = limits_encode l \<and> limits_validate l = Ok l"
proof -
  have len: "length b = 56" and magic: "slice b 0 8 = limits_magic"
    using assms by (auto simp: limits_decode_def split: if_splits)
  obtain tp rd rc where small: "small_at b 24 = Ok tp" "small_at b 32 = Ok rd" "small_at b 40 = Ok rc"
    and v: "limits_validate \<lparr>data_bytes = u64_le_at b 8, wal_bytes = u64_le_at b 16,
      tracked_pages = tp, readers = rd, record_bytes = rc, recovery_bytes = u64_le_at b 48\<rparr> = Ok l"
    using assms by (auto simp: limits_decode_def obind_iffs split: if_splits)
  have l: "l = \<lparr>data_bytes = u64_le_at b 8, wal_bytes = u64_le_at b 16,
      tracked_pages = tp, readers = rd, record_bytes = rc, recovery_bytes = u64_le_at b 48\<rparr>"
    using limits_validate_cases [OF v] by simp
  have "limits_encode l = slice b 0 8 @ slice b 8 16 @ slice b 16 24 @ slice b 24 32 @ slice b 32 40
      @ slice b 40 48 @ slice b 48 56"
    using small [THEN small_at_bytes] len by (simp add: l limits_encode_def magic u64_le_at_def)
  with bytes_56_split [OF len] v l show ?thesis by simp
qed

lemma limits_decode_not_Panic: "limits_decode b \<noteq> Panic"
  by (simp add: limits_decode_def obind_iffs small_at_def limits_validate_not_Panic)

text \<open>
  C39: the policy decoder accepts exactly the canonical encodings of valid policies, and a valid
  policy has an aligned data extent of at least three pages, between 1 and 4096 reader slots, a
  record bound that fits the log, and a total that does not overflow 64 bits.
\<close>

theorem limits_codec:
  "(limits_decode b = Ok l \<longleftrightarrow> limits_validate l = Ok l \<and> b = limits_encode l) \<and>
   (limits_validate l = Ok l \<longrightarrow>
      4096 dvd unat (data_bytes l) \<and> 3 * 4096 \<le> unat (data_bytes l)
      \<and> 1 \<le> unat (readers l) \<and> unat (readers l) \<le> 4096
      \<and> unat (record_bytes l) + 4096 \<le> unat (wal_bytes l)
      \<and> unat (data_bytes l) + unat (wal_bytes l) + 2 * freelist_bytes l + 48 * unat (readers l)
        + unat (recovery_bytes l) \<le> u64_max)"
proof (intro conjI impI)
  show "limits_decode b = Ok l \<longleftrightarrow> limits_validate l = Ok l \<and> b = limits_encode l"
    using limits_decode_canonical limits_decode_encode by blast
next
  assume v: "limits_validate l = Ok l"
  then obtain n where "total_bytes l = Ok n" using limits_validate_cases by blast
  then show "unat (data_bytes l) + unat (wal_bytes l) + 2 * freelist_bytes l + 48 * unat (readers l)
        + unat (recovery_bytes l) \<le> u64_max"
    using total_bytes_value by blast
qed (auto simp: limits_validate_def Suc_le_eq unat_gt_0 split: if_splits)

text \<open>A concrete policy the witnesses share.\<close>

definition sample_limits :: resource_limits where
  "sample_limits = \<lparr>data_bytes = 40960, wal_bytes = 65536, tracked_pages = 8,
      readers = 2, record_bytes = 100, recovery_bytes = 0\<rparr>"

lemma sample_limits_valid: "limits_validate sample_limits = Ok sample_limits"
  by (simp add: sample_limits_def limits_validate_def total_bytes_def freelist_bytes_def
      checked_add_u64_def)

theorem limits_codec_witness:
  "limits_decode (limits_encode sample_limits) = Ok sample_limits \<and>
   4096 dvd unat (data_bytes sample_limits)"
  using limits_codec [of "limits_encode sample_limits" sample_limits] sample_limits_valid by simp

end
