(* ===== verification/Budget.thy ===== *)
theory Budget
  imports Kernel_Error "HOL-Library.Multiset"
begin

text \<open>
  The shared memory budget (core/kernel/src/budget.rs). \<open>reserve\<close> is a lock-free loop: load the
  counter, compute the next value with overflow and ceiling checks, compare-and-exchange (which may
  also fail spuriously), retry with the value found. Threads interleave at each atomic access, so
  the component is a step relation; dropping a reservation subtracts its bytes.
\<close>

text \<open>What one pass of the loop computes from the counter value \<open>cur\<close> it last saw.\<close>

definition reserve_next :: "nat \<Rightarrow> nat \<Rightarrow> nat \<Rightarrow> nat kresult" where
  "reserve_next ceiling_bytes cur bytes =
     of_option OutOfBudget
       (case checked_add_u64 cur bytes of
          None \<Rightarrow> None
        | Some n \<Rightarrow> if n \<le> ceiling_bytes then Some n else None)"

datatype reserver = Idle | Looping nat nat  \<comment> \<open>bytes wanted, last value of the counter seen\<close>

record memory_budget =
  budget_total :: nat
  budget_used :: nat
  reserving :: "nat \<Rightarrow> reserver"        \<comment> \<open>one entry per thread\<close>
  reservations :: "nat multiset"       \<comment> \<open>bytes of every live \<open>Reservation\<close>\<close>

definition budget_new :: "nat \<Rightarrow> memory_budget" where
  "budget_new ceiling_bytes =
     \<lparr>budget_total = ceiling_bytes, budget_used = 0, reserving = (\<lambda>_. Idle), reservations = {#}\<rparr>"

inductive budget_step :: "memory_budget \<Rightarrow> memory_budget \<Rightarrow> bool" where
  load:
    "reserving s i = Idle \<Longrightarrow>
     budget_step s (s\<lparr>reserving := (reserving s)(i := Looping bytes (budget_used s))\<rparr>)"
| exchanged:
    "reserving s i = Looping bytes cur \<Longrightarrow> reserve_next (budget_total s) cur bytes = Ok nxt \<Longrightarrow>
     budget_used s = cur \<Longrightarrow>
     budget_step s (s\<lparr>budget_used := nxt, reserving := (reserving s)(i := Idle),
       reservations := add_mset bytes (reservations s)\<rparr>)"
| retried:
    "reserving s i = Looping bytes cur \<Longrightarrow> reserve_next (budget_total s) cur bytes = Ok nxt \<Longrightarrow>
     budget_step s (s\<lparr>reserving := (reserving s)(i := Looping bytes (budget_used s))\<rparr>)"
| refused:
    "reserving s i = Looping bytes cur \<Longrightarrow> reserve_next (budget_total s) cur bytes = Err e \<Longrightarrow>
     budget_step s (s\<lparr>reserving := (reserving s)(i := Idle)\<rparr>)"
| dropped:
    "bytes \<in># reservations s \<Longrightarrow>
     budget_step s (s\<lparr>budget_used := (budget_used s + (2 ^ 64 - bytes)) mod 2 ^ 64,
       reservations := reservations s - {#bytes#}\<rparr>)"

inductive budget_reachable :: "nat \<Rightarrow> memory_budget \<Rightarrow> bool" for ceiling_bytes where
  start: "budget_reachable ceiling_bytes (budget_new ceiling_bytes)"
| step: "budget_reachable ceiling_bytes s \<Longrightarrow> budget_step s t \<Longrightarrow> budget_reachable ceiling_bytes t"

definition budget_inv :: "nat \<Rightarrow> memory_budget \<Rightarrow> bool" where
  "budget_inv ceiling_bytes s \<longleftrightarrow>
     budget_total s = ceiling_bytes \<and> budget_used s = sum_mset (reservations s) \<and>
     budget_used s \<le> ceiling_bytes \<and> budget_used s \<le> u64_max"

lemma reserve_next_Ok:
  "reserve_next ceiling_bytes cur bytes = Ok n \<longleftrightarrow> n = cur + bytes \<and> n \<le> ceiling_bytes \<and> n \<le> u64_max"
  by (auto simp: reserve_next_def checked_add_u64_def)

lemma fetch_sub_exact:
  fixes m b :: nat
  assumes "b \<le> m" "m \<le> u64_max"
  shows "(m + (2 ^ 64 - b)) mod 2 ^ 64 = m - b"
proof -
  have "m + (2 ^ 64 - b) = (m - b) + 2 ^ 64" using assms by simp
  then have "(m + (2 ^ 64 - b)) mod 2 ^ 64 = (m - b) mod 2 ^ 64" by (simp only: mod_add_self2)
  then show ?thesis using assms by simp
qed

lemma budget_step_inv: "budget_step s t \<Longrightarrow> budget_inv ceiling_bytes s \<Longrightarrow> budget_inv ceiling_bytes t"
proof (induction rule: budget_step.induct)
  case (dropped bytes s)
  then obtain M where M: "reservations s = add_mset bytes M" by (auto dest: multi_member_split)
  with dropped.prems have "bytes \<le> budget_used s" "budget_used s \<le> u64_max"
    by (auto simp: budget_inv_def)
  with M dropped.prems show ?case by (simp add: budget_inv_def fetch_sub_exact)
qed (auto simp: budget_inv_def reserve_next_Ok)

text \<open>
  C40: under every interleaving of reserving threads and dropped reservations, the counter is exactly
  the sum of the live reservations and never exceeds the budget.
\<close>

theorem budget_never_exceeded:
  assumes "budget_reachable ceiling_bytes s" and "ceiling_bytes \<le> u64_max"
  shows "budget_used s = sum_mset (reservations s) \<and> budget_used s \<le> ceiling_bytes"
proof -
  have "budget_inv ceiling_bytes s"
    using assms(1)
    by induction (auto simp: budget_inv_def budget_new_def dest: budget_step_inv)
  then show ?thesis by (simp add: budget_inv_def)
qed

definition budget_after_one :: memory_budget where
  "budget_after_one =
     \<lparr>budget_total = 1000, budget_used = 800, reserving = (\<lambda>_. Idle), reservations = {#800#}\<rparr>"

lemma budget_after_one_reachable: "budget_reachable 1000 budget_after_one"
proof -
  let ?a = "budget_new 1000"
  let ?b = "?a\<lparr>reserving := (reserving ?a)(0 := Looping 800 (budget_used ?a))\<rparr>"
  have "budget_step ?a ?b" by (rule budget_step.load) (simp add: budget_new_def)
  then have b: "budget_reachable 1000 ?b" by (rule budget_reachable.step [OF budget_reachable.start])
  have "budget_step ?b (?b\<lparr>budget_used := 800, reserving := (reserving ?b)(0 := Idle),
       reservations := add_mset 800 (reservations ?b)\<rparr>)"
    by (rule budget_step.exchanged [where cur = 0])
      (simp_all add: budget_new_def reserve_next_Ok)
  moreover have "?b\<lparr>budget_used := 800, reserving := (reserving ?b)(0 := Idle),
       reservations := add_mset 800 (reservations ?b)\<rparr> = budget_after_one"
    by (simp add: budget_new_def budget_after_one_def fun_eq_iff)
  ultimately show ?thesis using budget_reachable.step [OF b] by simp
qed

theorem budget_never_exceeded_witness:
  "budget_used budget_after_one = sum_mset (reservations budget_after_one)
   \<and> budget_used budget_after_one \<le> 1000"
  using budget_never_exceeded [OF budget_after_one_reachable] by simp

end
