(* ===== verification/Page.thy ===== *)
theory Page
  imports Kernel_Error
begin

text \<open>
  The slotted page (core/kernel/src/page.rs): a 4096-byte image with a 40-byte header, a slot
  directory growing forward and payloads growing backward. A page is its byte string; the
  operations of \<open>PageMut\<close> return the changed image, those of \<open>PageRef\<close> read it. An index or a
  subtraction that Rust would refuse at run time is \<open>Panic\<close>. The laws relate every operation to the
  list of records the page holds (\<open>page_slots\<close>) under the structural invariant \<open>page_wf\<close>.
\<close>

section \<open>Layout\<close>

definition PAGE_SIZE :: nat where "PAGE_SIZE = 4096"
definition HEADER_LEN :: nat where "HEADER_LEN = 40"
definition PAGE_MAGIC :: u32 where "PAGE_MAGIC = 0x53454B32"
definition PAGE_VERSION :: u16 where "PAGE_VERSION = 1"
definition SLOT_LEN :: nat where "SLOT_LEN = 4"
definition FORMAT_VERSION :: u16 where "FORMAT_VERSION = 2"
definition FORMAT_AT :: nat where "FORMAT_AT = 18"
definition MAX_RECORD_LEN :: nat where "MAX_RECORD_LEN = PAGE_SIZE - HEADER_LEN - SLOT_LEN"

lemmas layout_defs = PAGE_SIZE_def HEADER_LEN_def SLOT_LEN_def FORMAT_AT_def

datatype page_kind = PageFree | PageMeta | PageLeaf | PageInterior | PageOverflow

fun page_kind_u16 :: "page_kind \<Rightarrow> u16" where
  "page_kind_u16 PageFree = 0"
| "page_kind_u16 PageMeta = 1"
| "page_kind_u16 PageLeaf = 2"
| "page_kind_u16 PageInterior = 3"
| "page_kind_u16 PageOverflow = 4"

definition page_kind_from_u16 :: "u16 \<Rightarrow> page_kind option" where
  "page_kind_from_u16 v =
     (if v = 0 then Some PageFree else if v = 1 then Some PageMeta else if v = 2 then Some PageLeaf
      else if v = 3 then Some PageInterior else if v = 4 then Some PageOverflow else None)"

lemma page_kind_roundtrip [simp]: "page_kind_from_u16 (page_kind_u16 k) = Some k"
  by (cases k) (simp_all add: page_kind_from_u16_def)

definition rd_u16 :: "bytes \<Rightarrow> nat \<Rightarrow> u16" where
  "rd_u16 b at = from_le (slice b at (at + 2))"

definition rd_u32 :: "bytes \<Rightarrow> nat \<Rightarrow> u32" where
  "rd_u32 b at = from_le (slice b at (at + 4))"

definition rd_u64 :: "bytes \<Rightarrow> nat \<Rightarrow> u64" where
  "rd_u64 b at = from_le (slice b at (at + 8))"

definition format_version :: "bytes \<Rightarrow> u16" where
  "format_version b = rd_u16 b FORMAT_AT"

definition checksum :: "crc_fn \<Rightarrow> bytes \<Rightarrow> u32" where
  "checksum crc b = crc (crc 0 (slice b 0 36)) (slice b 40 PAGE_SIZE)"

section \<open>PageMut\<close>

definition page_init :: "bytes \<Rightarrow> page_kind \<Rightarrow> u16 \<Rightarrow> u32 \<Rightarrow> bytes kresult" where
  "page_init b kind tree_id page_no =
     (if length b \<noteq> PAGE_SIZE then Panic
      else let b = replicate (length b) 0;
               b = put_at b 0 (to_le PAGE_MAGIC);
               b = put_at b 4 (to_le PAGE_VERSION);
               b = put_at b 6 (to_le (page_kind_u16 kind));
               b = put_at b 8 (to_le tree_id);
               b = put_at b 12 (to_le page_no);
               b = put_at b 16 (to_le (of_nat PAGE_SIZE :: u16));
               b = put_at b FORMAT_AT (to_le FORMAT_VERSION)
           in Ok b)"

definition nentries :: "bytes \<Rightarrow> nat" where
  "nentries b = unat (rd_u16 b 10)"

definition free_ptr :: "bytes \<Rightarrow> nat" where
  "free_ptr b = unat (rd_u16 b 16)"

definition free_space :: "bytes \<Rightarrow> nat" where
  "free_space b = free_ptr b - (HEADER_LEN + nentries b * SLOT_LEN)"

definition set_next_leaf :: "bytes \<Rightarrow> u32 \<Rightarrow> bytes" where
  "set_next_leaf b p = put_at b 20 (to_le p)"

definition insert_slot :: "bytes \<Rightarrow> nat \<Rightarrow> bytes \<Rightarrow> bytes kresult" where
  "insert_slot b at rec =
     (let n = nentries b in
      if at > n then Err TooLarge
      else if length rec + SLOT_LEN > free_space b then Err TooLarge
      else
        let new_ptr = free_ptr b - length rec;
            dir = HEADER_LEN;
            from = dir + at * SLOT_LEN;
            to = dir + n * SLOT_LEN
        in if new_ptr + length rec > length b \<or> to + SLOT_LEN > length b then Panic
           else let b = put_at b new_ptr rec;
                    b = put_at b 16 (to_le (of_nat new_ptr :: u16));
                    b = put_at b (from + SLOT_LEN) (slice b from to);
                    b = put_at b from (to_le (of_nat new_ptr :: u16));
                    b = put_at b (from + 2) (to_le (of_nat (length rec) :: u16));
                    b = put_at b 10 (to_le (of_nat (n + 1) :: u16))
                in Ok b)"

definition remove_slot :: "bytes \<Rightarrow> nat \<Rightarrow> bytes kresult" where
  "remove_slot b at =
     (let n = nentries b in
      if \<not> at < n then Panic
      else let from = HEADER_LEN + (at + 1) * SLOT_LEN;
               to = HEADER_LEN + n * SLOT_LEN
           in if to > length b then Panic
              else let b = put_at b (from - SLOT_LEN) (slice b from to);
                       b = put_at b 10 (to_le (of_nat (n - 1) :: u16))
                   in Ok b)"

definition slot_off :: "bytes \<Rightarrow> nat \<Rightarrow> nat" where
  "slot_off b i = unat (rd_u16 b (HEADER_LEN + i * SLOT_LEN))"

definition slot_len :: "bytes \<Rightarrow> nat \<Rightarrow> nat" where
  "slot_len b i = unat (rd_u16 b (HEADER_LEN + i * SLOT_LEN + 2))"

text \<open>\<open>&self.b[off..off + len]\<close> of entry \<open>i\<close>.\<close>

definition page_slot :: "bytes \<Rightarrow> nat \<Rightarrow> bytes kresult" where
  "page_slot b i =
     (if HEADER_LEN + i * SLOT_LEN + 4 > length b then Panic
      else if slot_off b i + slot_len b i > length b then Panic
      else Ok (slice b (slot_off b i) (slot_off b i + slot_len b i)))"

fun all_slots :: "bytes \<Rightarrow> nat list \<Rightarrow> bytes list kresult" where
  "all_slots b [] = Ok []"
| "all_slots b (i # is) = obind (page_slot b i) (\<lambda>p. obind (all_slots b is) (\<lambda>ps. Ok (p # ps)))"

fun compact_loop :: "bytes \<Rightarrow> nat \<Rightarrow> nat \<Rightarrow> bytes list \<Rightarrow> (bytes \<times> nat) kresult" where
  "compact_loop b ptr i [] = Ok (b, ptr)"
| "compact_loop b ptr i (payload # ps) =
     (if length payload > ptr then Panic
      else let ptr = ptr - length payload;
               b = put_at b ptr payload;
               b = put_at b (HEADER_LEN + i * SLOT_LEN) (to_le (of_nat ptr :: u16))
           in compact_loop b ptr (i + 1) ps)"

definition compact :: "bytes \<Rightarrow> bytes kresult" where
  "compact b =
     obind (all_slots b [0..<nentries b]) (\<lambda>payloads.
     obind (compact_loop b PAGE_SIZE 0 payloads) (\<lambda>(b, ptr).
     Ok (put_at b 16 (to_le (of_nat ptr :: u16)))))"

definition finalise :: "bytes \<Rightarrow> u64 \<Rightarrow> bytes" where
  "finalise b lsn = put_at b 24 (to_le lsn)"

definition seal :: "crc_fn \<Rightarrow> bytes \<Rightarrow> u64 \<Rightarrow> bytes" where
  "seal crc b gen =
     (let b = put_at b 24 (to_le gen);
          b = put_at b FORMAT_AT (to_le FORMAT_VERSION);
          c = checksum crc b
      in put_at b 36 (to_le c))"

section \<open>PageRef\<close>

definition slots_in_bounds :: "bytes \<Rightarrow> nat \<Rightarrow> bool" where
  "slots_in_bounds b n \<longleftrightarrow>
     list_all (\<lambda>i. free_ptr b \<le> slot_off b i \<and> slot_off b i + slot_len b i \<le> PAGE_SIZE) [0..<n]"

definition open_inner :: "crc_fn \<Rightarrow> bytes \<Rightarrow> u32 \<Rightarrow> bool \<Rightarrow> bytes kresult" where
  "open_inner crc b want verify_crc =
     (let bad = (\<lambda>why. Err (Corrupt want why)) in
      if length b \<noteq> PAGE_SIZE then bad ''wrong buffer length''
      else if rd_u32 b 0 \<noteq> PAGE_MAGIC then bad ''bad magic''
      else if rd_u16 b 4 \<noteq> PAGE_VERSION then bad ''unknown format version''
      else if verify_crc \<and> rd_u32 b 36 \<noteq> checksum crc b then bad ''checksum mismatch''
      else let stamp = rd_u16 b FORMAT_AT in
      if stamp \<noteq> FORMAT_VERSION then Err (UnsupportedFormat stamp)
      else if rd_u32 b 12 \<noteq> want then bad ''page_no mismatch''
      else if page_kind_from_u16 (rd_u16 b 6) = None then bad ''unknown page kind''
      else let n = nentries b; dir_end = HEADER_LEN + n * SLOT_LEN in
      if dir_end > PAGE_SIZE then bad ''nentries exceeds page''
      else if free_ptr b < dir_end \<or> free_ptr b > PAGE_SIZE
        then bad ''free pointer is outside the page payload area''
      else if \<not> slots_in_bounds b n then bad ''slot out of bounds''
      else Ok b)"

definition page_open :: "crc_fn \<Rightarrow> bytes \<Rightarrow> u32 \<Rightarrow> bytes kresult" where
  "page_open crc b want = open_inner crc b want True"

definition open_resident :: "crc_fn \<Rightarrow> bytes \<Rightarrow> u32 \<Rightarrow> bytes kresult" where
  "open_resident crc b want = open_inner crc b want False"

definition open_resident_validated :: "bytes \<Rightarrow> u32 \<Rightarrow> bytes kresult" where
  "open_resident_validated b want =
     (let bad = (\<lambda>why. Err (Corrupt want why)) in
      if length b \<noteq> PAGE_SIZE then bad ''wrong buffer length''
      else if rd_u32 b 0 \<noteq> PAGE_MAGIC then bad ''bad magic''
      else if rd_u16 b 4 \<noteq> PAGE_VERSION then bad ''unknown format version''
      else let stamp = rd_u16 b FORMAT_AT in
      if stamp \<noteq> FORMAT_VERSION then Err (UnsupportedFormat stamp)
      else if rd_u32 b 12 \<noteq> want then bad ''page_no mismatch''
      else if page_kind_from_u16 (rd_u16 b 6) = None then bad ''unknown page kind''
      else Ok b)"

definition page_kind_of :: "bytes \<Rightarrow> page_kind kresult" where
  "page_kind_of b = (case page_kind_from_u16 (rd_u16 b 6) of None \<Rightarrow> Panic | Some k \<Rightarrow> Ok k)"

definition page_tree_id :: "bytes \<Rightarrow> u16" where
  "page_tree_id b = rd_u16 b 8"

definition page_page_no :: "bytes \<Rightarrow> u32" where
  "page_page_no b = rd_u32 b 12"

definition page_next_leaf :: "bytes \<Rightarrow> u32" where
  "page_next_leaf b = rd_u32 b 20"

definition page_lsn :: "bytes \<Rightarrow> u64" where
  "page_lsn b = rd_u64 b 24"

definition slot_bounds :: "bytes \<Rightarrow> nat \<Rightarrow> u16 \<times> u16" where
  "slot_bounds b i =
     (rd_u16 b (HEADER_LEN + i * SLOT_LEN), rd_u16 b (HEADER_LEN + i * SLOT_LEN + 2))"

section \<open>The abstraction\<close>

definition page_slots :: "bytes \<Rightarrow> bytes list" where
  "page_slots b = map (\<lambda>i. slice b (slot_off b i) (slot_off b i + slot_len b i)) [0..<nentries b]"

definition page_wf :: "bytes \<Rightarrow> bool" where
  "page_wf b \<longleftrightarrow>
     length b = PAGE_SIZE \<and> HEADER_LEN + nentries b * SLOT_LEN \<le> free_ptr b \<and>
     free_ptr b \<le> PAGE_SIZE \<and> slots_in_bounds b (nentries b) \<and>
     sum_list (map length (page_slots b)) \<le> PAGE_SIZE - free_ptr b"

section \<open>Reading a field after a write\<close>

lemma rd_u16_same: "at + 2 \<le> length b \<Longrightarrow> rd_u16 (put_at b at (to_le w)) at = w"
  by (simp add: rd_u16_def slice_put_at_same)

lemma rd_u32_same: "at + 4 \<le> length b \<Longrightarrow> rd_u32 (put_at b at (to_le w)) at = w"
  by (simp add: rd_u32_def slice_put_at_same)

lemma rd_u64_same: "at + 8 \<le> length b \<Longrightarrow> rd_u64 (put_at b at (to_le w)) at = w"
  by (simp add: rd_u64_def slice_put_at_same)

lemma slice_put_at_other:
  "i + length v \<le> length b \<Longrightarrow> k \<le> i \<or> i + length v \<le> j \<Longrightarrow> slice (put_at b i v) j k = slice b j k"
  by (auto simp: slice_put_at_before slice_put_at_after)

lemma rd_u16_other:
  "i + length v \<le> length b \<Longrightarrow> at + 2 \<le> i \<or> i + length v \<le> at \<Longrightarrow>
   rd_u16 (put_at b i v) at = rd_u16 b at"
  by (simp add: rd_u16_def slice_put_at_other)

lemma rd_u32_other:
  "i + length v \<le> length b \<Longrightarrow> at + 4 \<le> i \<or> i + length v \<le> at \<Longrightarrow>
   rd_u32 (put_at b i v) at = rd_u32 b at"
  by (simp add: rd_u32_def slice_put_at_other)

lemma rd_u64_other:
  "i + length v \<le> length b \<Longrightarrow> at + 8 \<le> i \<or> i + length v \<le> at \<Longrightarrow>
   rd_u64 (put_at b i v) at = rd_u64 b at"
  by (simp add: rd_u64_def slice_put_at_other)

lemmas rd_simps = rd_u16_same rd_u32_same rd_u64_same rd_u16_other rd_u32_other rd_u64_other

lemma unat_u16_of_nat: "x < 65536 \<Longrightarrow> unat (of_nat x :: u16) = x"
  by (simp add: unat_of_nat)

lemma slots_in_bounds_iff:
  "slots_in_bounds b n \<longleftrightarrow>
     (\<forall>i < n. free_ptr b \<le> slot_off b i \<and> slot_off b i + slot_len b i \<le> PAGE_SIZE)"
  by (auto simp: slots_in_bounds_def list_all_iff)

lemma length_page_slots [simp]: "length (page_slots b) = nentries b"
  by (simp add: page_slots_def)

lemma nth_page_slots:
  "i < nentries b \<Longrightarrow> page_slots b ! i = slice b (slot_off b i) (slot_off b i + slot_len b i)"
  by (simp add: page_slots_def)

lemma page_wf_bounds:
  assumes "page_wf b"
  shows "length b = 4096" "40 + nentries b * 4 \<le> free_ptr b" "free_ptr b \<le> 4096"
    and "i < nentries b \<Longrightarrow> free_ptr b \<le> slot_off b i"
    and "i < nentries b \<Longrightarrow> slot_off b i + slot_len b i \<le> 4096"
    and "sum_list (map length (page_slots b)) \<le> 4096 - free_ptr b"
  using assms by (auto simp: page_wf_def slots_in_bounds_iff layout_defs)

lemma page_wfI:
  assumes "length b = 4096" "40 + nentries b * 4 \<le> free_ptr b" "free_ptr b \<le> 4096"
    and "\<And>i. i < nentries b \<Longrightarrow> free_ptr b \<le> slot_off b i \<and> slot_off b i + slot_len b i \<le> 4096"
    and "sum_list (map length (page_slots b)) \<le> 4096 - free_ptr b"
  shows "page_wf b"
  using assms by (auto simp: page_wf_def slots_in_bounds_iff layout_defs)

section \<open>Insertion\<close>

text \<open>The image \<open>insert_slot\<close> builds, and what each field of it reads as.\<close>

definition inserted :: "bytes \<Rightarrow> nat \<Rightarrow> bytes \<Rightarrow> bytes" where
  "inserted b at rec =
     (let n = nentries b; np = free_ptr b - length rec; from = 40 + at * 4; to = 40 + n * 4;
          b = put_at b np rec;
          b = put_at b 16 (to_le (of_nat np :: u16));
          b = put_at b (from + 4) (slice b from to);
          b = put_at b from (to_le (of_nat np :: u16));
          b = put_at b (from + 2) (to_le (of_nat (length rec) :: u16))
      in put_at b 10 (to_le (of_nat (n + 1) :: u16)))"

lemma insert_slot_eq:
  assumes "page_wf b"
  shows "insert_slot b at rec =
    (if at > nentries b \<or> length rec + 4 > free_space b then Err TooLarge else Ok (inserted b at rec))"
  using page_wf_bounds(1-3) [OF assms]
  by (auto simp: insert_slot_def inserted_def Let_def layout_defs free_space_def)

definition can_insert :: "bytes \<Rightarrow> nat \<Rightarrow> bytes \<Rightarrow> bool" where
  "can_insert b at rec \<longleftrightarrow> page_wf b \<and> at \<le> nentries b \<and> length rec + 4 \<le> free_space b"

lemma can_insert_bounds:
  assumes "can_insert b at rec"
  shows "length b = 4096" "at \<le> nentries b" "free_ptr b \<le> 4096"
    "44 + nentries b * 4 + length rec \<le> free_ptr b"
  using assms page_wf_bounds(1-3) [of b] by (auto simp: can_insert_def free_space_def layout_defs)

lemma inserted_header:
  assumes "can_insert b at rec"
  shows "length (inserted b at rec) = 4096"
    and "nentries (inserted b at rec) = nentries b + 1"
    and "free_ptr (inserted b at rec) = free_ptr b - length rec"
    and "k \<le> 10 \<Longrightarrow> slice (inserted b at rec) j k = slice b j k"
    and "12 \<le> j \<Longrightarrow> k \<le> 16 \<Longrightarrow> slice (inserted b at rec) j k = slice b j k"
    and "18 \<le> j \<Longrightarrow> k \<le> 40 \<Longrightarrow> slice (inserted b at rec) j k = slice b j k"
proof -
  note h = can_insert_bounds [OF assms]
  show "length (inserted b at rec) = 4096"
    using h by (simp add: inserted_def Let_def)
  show "nentries (inserted b at rec) = nentries b + 1"
  proof -
    have "nentries (inserted b at rec) = unat (of_nat (nentries b + 1) :: u16)"
      unfolding inserted_def Let_def using h
      by (subst nentries_def) (simp add: rd_u16_same del: of_nat_add of_nat_Suc)
    then show ?thesis using h by (simp add: unat_u16_of_nat del: of_nat_add of_nat_Suc)
  qed
  show "free_ptr (inserted b at rec) = free_ptr b - length rec"
  proof -
    have "free_ptr (inserted b at rec) = unat (of_nat (free_ptr b - length rec) :: u16)"
      unfolding inserted_def Let_def using h
      by (subst free_ptr_def) (simp add: rd_u16_same rd_u16_other del: of_nat_diff)
    then show ?thesis using h by (simp add: unat_u16_of_nat del: of_nat_diff)
  qed
  show "k \<le> 10 \<Longrightarrow> slice (inserted b at rec) j k = slice b j k"
    using h by (simp add: inserted_def Let_def slice_put_at_before)
  show "12 \<le> j \<Longrightarrow> k \<le> 16 \<Longrightarrow> slice (inserted b at rec) j k = slice b j k"
    using h by (simp add: inserted_def Let_def slice_put_at_before slice_put_at_after)
  show "18 \<le> j \<Longrightarrow> k \<le> 40 \<Longrightarrow> slice (inserted b at rec) j k = slice b j k"
    using h by (simp add: inserted_def Let_def slice_put_at_before slice_put_at_after)
qed

lemma inserted_payload:
  assumes "can_insert b at rec"
  shows "free_ptr b \<le> j \<Longrightarrow> slice (inserted b at rec) j k = slice b j k"
    and "slice (inserted b at rec) (free_ptr b - length rec) (free_ptr b) = rec"
  using can_insert_bounds [OF assms]
  by (simp_all add: inserted_def Let_def slice_put_at_after slice_put_at_same)

lemma inserted_dir_before:
  assumes "can_insert b at rec" "i < at" "d \<le> 2"
  shows "rd_u16 (inserted b at rec) (40 + i * 4 + d) = rd_u16 b (40 + i * 4 + d)"
  using can_insert_bounds [OF assms(1)] assms(2,3)
  by (simp add: inserted_def Let_def rd_u16_other)

lemma inserted_dir_at:
  assumes "can_insert b at rec"
  shows "rd_u16 (inserted b at rec) (40 + at * 4) = of_nat (free_ptr b - length rec)"
    and "rd_u16 (inserted b at rec) (40 + at * 4 + 2) = of_nat (length rec)"
  using can_insert_bounds [OF assms]
  by (simp_all add: inserted_def Let_def rd_u16_other rd_u16_same del: of_nat_diff)

lemma inserted_dir_after:
  assumes "can_insert b at rec" "at \<le> i" "i < nentries b" "d \<le> 2"
  shows "rd_u16 (inserted b at rec) (40 + Suc i * 4 + d) = rd_u16 b (40 + i * 4 + d)"
proof -
  let ?c = "put_at (put_at b (free_ptr b - length rec) rec) 16 (to_le (of_nat (free_ptr b - length rec) :: u16))"
  note h = can_insert_bounds [OF assms(1)] assms(2-4)
  have len: "length ?c = 4096" using h by simp
  have "rd_u16 (inserted b at rec) (40 + Suc i * 4 + d) =
      rd_u16 (put_at ?c (40 + at * 4 + 4) (slice ?c (40 + at * 4) (40 + nentries b * 4))) (40 + Suc i * 4 + d)"
    using h by (simp add: inserted_def Let_def rd_u16_other)
  also have "\<dots> = rd_u16 ?c (40 + i * 4 + d)"
    using h len by (simp add: rd_u16_def slice_put_at_inside slice_slice algebra_simps)
  also have "\<dots> = rd_u16 b (40 + i * 4 + d)"
    using h by (simp add: rd_u16_other)
  finally show ?thesis .
qed

lemma inserted_slot_fields:
  assumes "can_insert b at rec" "i \<le> nentries b"
  shows "slot_off (inserted b at rec) i =
      (if i < at then slot_off b i else if i = at then free_ptr b - length rec else slot_off b (i - 1))"
    and "slot_len (inserted b at rec) i =
      (if i < at then slot_len b i else if i = at then length rec else slot_len b (i - 1))"
proof -
  note h = can_insert_bounds [OF assms(1)] assms(2)
  have after: "rd_u16 (inserted b at rec) (40 + i * 4 + d) = rd_u16 b (40 + (i - 1) * 4 + d)"
    if "at < i" "d \<le> 2" for d
    using inserted_dir_after [OF assms(1), of "i - 1" d] that h by simp
  show "slot_off (inserted b at rec) i =
      (if i < at then slot_off b i else if i = at then free_ptr b - length rec else slot_off b (i - 1))"
    using h inserted_dir_before [OF assms(1), of i 0] inserted_dir_at(1) [OF assms(1)] after [of 0]
    by (auto simp: slot_off_def layout_defs unat_u16_of_nat simp del: of_nat_diff)
  show "slot_len (inserted b at rec) i =
      (if i < at then slot_len b i else if i = at then length rec else slot_len b (i - 1))"
    using h inserted_dir_before [OF assms(1), of i 2] inserted_dir_at(2) [OF assms(1)] after [of 2]
    by (auto simp: slot_len_def layout_defs unat_u16_of_nat)
qed

lemma page_slots_inserted:
  assumes "can_insert b at rec"
  shows "page_slots (inserted b at rec) = take at (page_slots b) @ rec # drop at (page_slots b)"
proof (rule nth_equalityI)
  note h = can_insert_bounds [OF assms]
  have wf: "page_wf b" using assms by (simp add: can_insert_def)
  show "length (page_slots (inserted b at rec)) = length (take at (page_slots b) @ rec # drop at (page_slots b))"
    using h by (simp add: inserted_header [OF assms])
  fix i assume "i < length (page_slots (inserted b at rec))"
  then have i: "i \<le> nentries b" by (simp add: inserted_header [OF assms])
  have *: "page_slots (inserted b at rec) ! i =
      slice (inserted b at rec) (slot_off (inserted b at rec) i)
        (slot_off (inserted b at rec) i + slot_len (inserted b at rec) i)"
    using i by (simp add: nth_page_slots inserted_header [OF assms])
  consider "i < at" | "i = at" | "at < i" by linarith
  then show "page_slots (inserted b at rec) ! i = (take at (page_slots b) @ rec # drop at (page_slots b)) ! i"
  proof cases
    case 1
    then show ?thesis using h i page_wf_bounds(4) [OF wf, of i]
      by (simp add: * inserted_slot_fields [OF assms i] inserted_payload [OF assms] nth_append nth_page_slots)
  next
    case 2
    have "page_slots (inserted b at rec) ! i = rec"
      unfolding * inserted_slot_fields [OF assms i] using 2 h inserted_payload(2) [OF assms] by simp
    then show ?thesis using 2 h by (simp add: nth_append)
  next
    case 3
    then show ?thesis using h i page_wf_bounds(4) [OF wf, of "i - 1"]
      by (simp add: * inserted_slot_fields [OF assms i] inserted_payload [OF assms] nth_append
          nth_page_slots nth_Cons')
  qed
qed

lemma page_wf_inserted:
  assumes "can_insert b at rec"
  shows "page_wf (inserted b at rec)"
proof (rule page_wfI)
  note h = can_insert_bounds [OF assms]
  have wf: "page_wf b" using assms by (simp add: can_insert_def)
  note w = page_wf_bounds [OF wf]
  show "length (inserted b at rec) = 4096" by (rule inserted_header [OF assms])
  show "40 + nentries (inserted b at rec) * 4 \<le> free_ptr (inserted b at rec)"
    "free_ptr (inserted b at rec) \<le> 4096"
    using h by (simp_all add: inserted_header [OF assms])
  show "free_ptr (inserted b at rec) \<le> slot_off (inserted b at rec) i \<and>
      slot_off (inserted b at rec) i + slot_len (inserted b at rec) i \<le> 4096"
    if "i < nentries (inserted b at rec)" for i
  proof -
    have i: "i \<le> nentries b" using that by (simp add: inserted_header [OF assms])
    have "at < i \<Longrightarrow> i - 1 < nentries b" using i by simp
    then show ?thesis using h i w(4,5) [of i] w(4,5) [of "i - 1"]
      by (force simp: inserted_slot_fields [OF assms i] inserted_header [OF assms])
  qed
  have "sum_list (map length (page_slots (inserted b at rec))) =
      sum_list (map length (take at (page_slots b) @ drop at (page_slots b))) + length rec"
    by (simp add: page_slots_inserted [OF assms] del: append_take_drop_id)
  then show "sum_list (map length (page_slots (inserted b at rec))) \<le> 4096 - free_ptr (inserted b at rec)"
    using w(6) h by (simp add: inserted_header [OF assms])
qed

lemma free_space_inserted:
  "can_insert b at rec \<Longrightarrow> free_space (inserted b at rec) = free_space b - (length rec + 4)"
  by (simp add: free_space_def inserted_header layout_defs)

section \<open>Removal\<close>

lemma remove_slot_eq:
  assumes "page_wf b"
  shows "remove_slot b at =
    (if at < nentries b
     then Ok (put_at (put_at b (40 + at * 4) (slice b (40 + Suc at * 4) (40 + nentries b * 4))) 10
        (to_le (of_nat (nentries b - 1) :: u16)))
     else Panic)"
  using page_wf_bounds(1-3) [OF assms]
  by (auto simp: remove_slot_def Let_def layout_defs)

lemma remove_slot_fields:
  assumes "page_wf b" "remove_slot b at = Ok b'"
  shows "at < nentries b" "length b' = 4096" "nentries b' = nentries b - 1" "free_ptr b' = free_ptr b"
    and "free_ptr b \<le> j \<Longrightarrow> slice b' j k = slice b j k"
    and "i < nentries b - 1 \<Longrightarrow> slot_off b' i = slot_off b (if i < at then i else Suc i)"
    and "i < nentries b - 1 \<Longrightarrow> slot_len b' i = slot_len b (if i < at then i else Suc i)"
proof -
  note h = page_wf_bounds(1-3) [OF assms(1)]
  let ?n = "nentries b"
  let ?c = "put_at b (40 + at * 4) (slice b (40 + Suc at * 4) (40 + ?n * 4))"
  show at: "at < ?n" using assms by (auto simp: remove_slot_eq split: if_splits)
  have b': "b' = put_at ?c 10 (to_le (of_nat (?n - 1) :: u16))"
    using assms at by (simp add: remove_slot_eq)
  show "length b' = 4096" using h at by (simp add: b')
  have "nentries b' = unat (of_nat (?n - 1) :: u16)"
    unfolding b' using h at by (subst nentries_def) (simp add: rd_u16_same del: of_nat_diff)
  then show "nentries b' = ?n - 1" using h by (simp add: unat_u16_of_nat del: of_nat_diff)
  show "free_ptr b' = free_ptr b" using h at by (simp add: b' free_ptr_def rd_u16_other)
  show "free_ptr b \<le> j \<Longrightarrow> slice b' j k = slice b j k"
    using h at by (simp add: b' slice_put_at_after)
  have dir: "rd_u16 b' (40 + i * 4 + d) = rd_u16 b (40 + (if i < at then i else Suc i) * 4 + d)"
    if "i < ?n - 1" "d \<le> 2" for d
  proof (cases "i < at")
    case True
    then show ?thesis using that h at by (simp add: b' rd_u16_other)
  next
    case False
    have "rd_u16 b' (40 + i * 4 + d) = rd_u16 ?c (40 + i * 4 + d)"
      using that h at by (simp add: b' rd_u16_other)
    also have "\<dots> = rd_u16 b (40 + Suc i * 4 + d)"
      using that h at False by (simp add: rd_u16_def slice_put_at_inside slice_slice algebra_simps)
    finally show ?thesis using False by simp
  qed
  show "i < ?n - 1 \<Longrightarrow> slot_off b' i = slot_off b (if i < at then i else Suc i)"
    using dir [of 0] by (simp add: slot_off_def layout_defs)
  show "i < ?n - 1 \<Longrightarrow> slot_len b' i = slot_len b (if i < at then i else Suc i)"
    using dir [of 2] by (simp add: slot_len_def layout_defs)
qed

lemma page_slots_removed:
  assumes "page_wf b" "remove_slot b at = Ok b'"
  shows "page_slots b' = take at (page_slots b) @ drop (Suc at) (page_slots b)"
proof (rule nth_equalityI)
  note f = remove_slot_fields [OF assms]
  show "length (page_slots b') = length (take at (page_slots b) @ drop (Suc at) (page_slots b))"
    using f(1,3) by simp
  fix i assume "i < length (page_slots b')"
  then have i: "i < nentries b - 1" using f(3) by simp
  let ?j = "if i < at then i else Suc i"
  have j: "?j < nentries b" using i by auto
  have "page_slots b' ! i = page_slots b ! ?j"
    using i f(3) f(5) page_wf_bounds(4) [OF assms(1) j]
    by (simp only: nth_page_slots [OF j] nth_page_slots [of i b'] f(6) [OF i] f(7) [OF i])
  also have "\<dots> = (take at (page_slots b) @ drop (Suc at) (page_slots b)) ! i"
    using i f(1) by (simp add: nth_append)
  finally show "page_slots b' ! i = (take at (page_slots b) @ drop (Suc at) (page_slots b)) ! i" .
qed

lemma sum_lengths_without: "sum_list (map length (take i xs @ drop (Suc i) xs)) \<le> sum_list (map length xs)"
proof (cases "i < length xs")
  case True
  then have "sum_list (map length xs) = sum_list (map length (take i xs @ xs ! i # drop (Suc i) xs))"
    by (simp only: id_take_nth_drop [symmetric])
  then show ?thesis by simp
qed simp

lemma page_wf_removed:
  assumes "page_wf b" "remove_slot b at = Ok b'"
  shows "page_wf b'"
proof (rule page_wfI)
  note f = remove_slot_fields [OF assms] and w = page_wf_bounds [OF assms(1)]
  show "length b' = 4096" "40 + nentries b' * 4 \<le> free_ptr b'" "free_ptr b' \<le> 4096"
    using f(1-4) w(2,3) by auto
  show "free_ptr b' \<le> slot_off b' i \<and> slot_off b' i + slot_len b' i \<le> 4096" if "i < nentries b'" for i
    using that f(1,3,4,6,7) w(4,5) [of i] w(4,5) [of "Suc i"] by auto
  show "sum_list (map length (page_slots b')) \<le> 4096 - free_ptr b'"
    using sum_lengths_without [of at "page_slots b"] w(6) f(4)
    by (simp add: page_slots_removed [OF assms])
qed

section \<open>Compaction\<close>

lemma all_slots_eq:
  assumes "page_wf b" "set is \<subseteq> {..<nentries b}"
  shows "all_slots b is = Ok (map (\<lambda>i. page_slots b ! i) is)"
  using assms(2)
proof (induction "is")
  case (Cons i "is")
  have i: "i < nentries b" using Cons.prems by simp
  have "40 + i * 4 + 4 \<le> 4096" using page_wf_bounds(2,3) [OF assms(1)] i by simp
  then have "page_slot b i = Ok (page_slots b ! i)"
    using page_wf_bounds(1) [OF assms(1)] page_wf_bounds(4,5) [OF assms(1) i] i
    by (simp add: page_slot_def layout_defs nth_page_slots)
  then show ?case using Cons by simp
qed simp

lemma all_slots_page_slots: "page_wf b \<Longrightarrow> all_slots b [0..<nentries b] = Ok (page_slots b)"
  using all_slots_eq [of b "[0..<nentries b]"] map_nth [of "page_slots b"]
  by (simp add: lessThan_atLeast0)

lemma dir_write_fields:
  assumes "length b = 4096" "44 + i * 4 \<le> p" "p + length rec \<le> 4096"
  defines "c \<equiv> put_at (put_at b p rec) (40 + i * 4) (to_le (of_nat p :: u16))"
  shows "length c = 4096" "slot_off c i = p" "slot_len c i = slot_len b i"
    and "k \<le> 40 \<Longrightarrow> slice c j k = slice b j k"
    and "p + length rec \<le> j \<Longrightarrow> slice c j k = slice b j k"
    and "slice c p (p + length rec) = rec"
    and "m \<noteq> i \<Longrightarrow> 44 + m * 4 \<le> p \<Longrightarrow> slot_off c m = slot_off b m"
    and "m \<noteq> i \<Longrightarrow> 44 + m * 4 \<le> p \<Longrightarrow> slot_len c m = slot_len b m"
proof -
  note h = assms(1-3)
  have apart: "m * 4 + 4 \<le> i * 4 \<or> i * 4 + 4 \<le> m * 4" if "m \<noteq> i" for m using that by auto
  show "length c = 4096" "slot_off c i = p" "slot_len c i = slot_len b i"
    using h by (simp_all add: c_def slot_off_def slot_len_def layout_defs rd_u16_same rd_u16_other unat_u16_of_nat)
  show "k \<le> 40 \<Longrightarrow> slice c j k = slice b j k" "p + length rec \<le> j \<Longrightarrow> slice c j k = slice b j k"
    using h by (simp_all add: c_def slice_put_at_before slice_put_at_after)
  show "slice c p (p + length rec) = rec"
    using h by (simp add: c_def slice_put_at_after slice_put_at_same)
  show "m \<noteq> i \<Longrightarrow> 44 + m * 4 \<le> p \<Longrightarrow> slot_off c m = slot_off b m"
    using h apart [of m] by (auto simp: c_def slot_off_def layout_defs rd_u16_other)
  show "m \<noteq> i \<Longrightarrow> 44 + m * 4 \<le> p \<Longrightarrow> slot_len c m = slot_len b m"
    using h apart [of m] by (auto simp: c_def slot_len_def layout_defs rd_u16_other)
qed

text \<open>
  What the relocation loop guarantees: the header, the payloads already placed and every slot
  length are kept, and each remaining record is found at its new offset.
\<close>

definition relocated :: "bytes \<Rightarrow> nat \<Rightarrow> nat \<Rightarrow> bytes list \<Rightarrow> bytes \<Rightarrow> bool" where
  "relocated b ptr i ps c \<longleftrightarrow>
     length c = 4096 \<and>
     (\<forall>j k. k \<le> 40 \<or> ptr \<le> j \<longrightarrow> slice c j k = slice b j k) \<and>
     (\<forall>m < i. slot_off c m = slot_off b m) \<and>
     (\<forall>m < i + length ps. slot_len c m = slot_len b m) \<and>
     (\<forall>m < length ps. ptr - sum_list (map length ps) \<le> slot_off c (i + m) \<and>
        slot_off c (i + m) + length (ps ! m) \<le> ptr \<and>
        slice c (slot_off c (i + m)) (slot_off c (i + m) + length (ps ! m)) = ps ! m)"

lemma compact_loop_relocates:
  assumes "length b = 4096" "ptr \<le> 4096"
    and "40 + (i + length ps) * 4 + sum_list (map length ps) \<le> ptr"
  shows "\<exists>c. compact_loop b ptr i ps = Ok (c, ptr - sum_list (map length ps)) \<and> relocated b ptr i ps c"
  using assms
proof (induction ps arbitrary: b ptr i)
  case Nil
  then show ?case by (simp add: relocated_def)
next
  case (Cons r ps)
  let ?p = "ptr - length r"
  let ?c = "put_at (put_at b ?p r) (40 + i * 4) (to_le (of_nat ?p :: u16))"
  have p: "44 + i * 4 \<le> ?p" "?p + length r = ptr" using Cons.prems by auto
  have pr: "?p + length r \<le> 4096" using p Cons.prems by simp
  have p': "?p \<le> 4096" "40 + (i + 1 + length ps) * 4 + sum_list (map length ps) \<le> ?p"
    using Cons.prems by auto
  note d = dir_write_fields [OF Cons.prems(1) p(1) pr]
  obtain c where c: "compact_loop ?c ?p (i + 1) ps = Ok (c, ?p - sum_list (map length ps))"
      "relocated ?c ?p (i + 1) ps c"
    using Cons.IH [OF d(1) p'] by blast
  have m44: "44 + m * 4 \<le> ?p" if "m < i + length (r # ps)" for m
    using that Cons.prems p by auto
  have "relocated b ptr i (r # ps) c"
    unfolding relocated_def
  proof (intro conjI allI impI)
    show "length c = 4096" using c(2) by (simp add: relocated_def)
    show "slice c j k = slice b j k" if "k \<le> 40 \<or> ptr \<le> j" for j k
      using that c(2) d(4) [of k j] d(5) [of j k] p(2) by (auto simp: relocated_def)
    show "slot_off c m = slot_off b m" if "m < i" for m
      using that c(2) d(7) [of m] m44 [of m] by (simp add: relocated_def)
    show "slot_len c m = slot_len b m" if "m < i + length (r # ps)" for m
      using that c(2) d(8) [of m] d(3) m44 [of m] by (cases "m = i") (auto simp: relocated_def)
    fix m assume m: "m < length (r # ps)"
    show "ptr - sum_list (map length (r # ps)) \<le> slot_off c (i + m)"
      using m c(2) d(2) by (cases m) (auto simp: relocated_def)
    show "slot_off c (i + m) + length ((r # ps) ! m) \<le> ptr"
      using m c(2) d(2) p(2) by (cases m) (force simp: relocated_def)+
    show "slice c (slot_off c (i + m)) (slot_off c (i + m) + length ((r # ps) ! m)) = (r # ps) ! m"
      using m c(2) d(2,6) by (cases m) (auto simp: relocated_def)
  qed
  then show ?case using c(1) Cons.prems(3) by (auto simp: Let_def layout_defs simp del: of_nat_diff)
qed

text \<open>\<open>compact\<close> on a well-formed page: it returns, keeps every record and frees all other space.\<close>

lemma compact_law:
  assumes "page_wf b"
  shows "\<exists>c. compact b = Ok c \<and> page_wf c \<and> page_slots c = page_slots b \<and>
    free_ptr c = 4096 - sum_list (map length (page_slots b)) \<and>
    (\<forall>j k. k \<le> 16 \<or> 18 \<le> j \<and> k \<le> 40 \<longrightarrow> slice c j k = slice b j k)"
proof -
  let ?ps = "page_slots b" and ?sum = "sum_list (map length (page_slots b))"
  note w = page_wf_bounds [OF assms]
  have fits: "40 + (0 + length ?ps) * 4 + ?sum \<le> 4096" using w(2,3,6) by simp
  obtain c where c: "compact_loop b 4096 0 ?ps = Ok (c, 4096 - ?sum)" "relocated b 4096 0 ?ps c"
    using compact_loop_relocates [OF w(1) _ fits] by auto
  define e where "e = put_at c 16 (to_le (of_nat (4096 - ?sum) :: u16))"
  have len: "length c = 4096" using c(2) by (simp add: relocated_def)
  have elen: "length e = 4096" using len by (simp add: e_def)
  have keep: "slice e j k = slice b j k" if "k \<le> 16 \<or> 18 \<le> j \<and> k \<le> 40" for j k
    using that c(2) len by (auto simp: e_def relocated_def slice_put_at_other)
  have n: "nentries e = nentries b"
    unfolding nentries_def rd_u16_def by (simp add: keep)
  have fp: "free_ptr e = 4096 - ?sum"
    by (subst free_ptr_def) (simp add: e_def rd_u16_same len unat_u16_of_nat del: of_nat_diff)
  have off: "slot_off e i = slot_off c i" for i
    by (simp add: e_def slot_off_def rd_u16_other len layout_defs)
  have sl: "slot_len e i = length (?ps ! i)" if "i < nentries b" for i
    using that c(2) w(1) w(5) [OF that]
    by (simp add: e_def slot_len_def rd_u16_other len layout_defs relocated_def nth_page_slots)
  have sb: "4096 - ?sum \<le> slot_off e i \<and> slot_off e i + slot_len e i \<le> 4096" if "i < nentries b" for i
    using that c(2) by (auto simp: off sl relocated_def)
  have slots: "page_slots e = ?ps"
  proof (rule nth_equalityI)
    show "length (page_slots e) = length ?ps" by (simp add: n)
    fix i assume "i < length (page_slots e)"
    then have i: "i < nentries b" by (simp add: n)
    have "40 \<le> slot_off c i" using sb [OF i] fits by (auto simp: off)
    then have "slice e (slot_off c i) (slot_off c i + length (?ps ! i)) = ?ps ! i"
      using c(2) i len by (simp add: e_def slice_put_at_after relocated_def)
    then show "page_slots e ! i = ?ps ! i"
      using i n by (simp only: nth_page_slots [of i e] off sl)
  qed
  have "page_wf e"
    using sb by (intro page_wfI) (use fits len elen in \<open>auto simp: n fp slots\<close>)
  moreover have "compact b = Ok e"
    using c(1) by (simp add: compact_def all_slots_page_slots [OF assms] layout_defs e_def del: of_nat_diff)
  ultimately show ?thesis using slots fp keep by blast
qed

section \<open>Initialisation, sealing and opening\<close>

text \<open>The header fields that identify a page, which no slot operation touches.\<close>

definition page_header :: "bytes \<Rightarrow> page_kind \<Rightarrow> u16 \<Rightarrow> u32 \<Rightarrow> bool" where
  "page_header b kind tree_id page_no \<longleftrightarrow>
     rd_u32 b 0 = PAGE_MAGIC \<and> rd_u16 b 4 = PAGE_VERSION \<and>
     rd_u16 b 6 = page_kind_u16 kind \<and> rd_u16 b 8 = tree_id \<and> rd_u32 b 12 = page_no"

lemma page_header_cong:
  assumes "page_header b kind t no" "\<And>j k. k \<le> 10 \<or> 12 \<le> j \<and> k \<le> 16 \<Longrightarrow> slice c j k = slice b j k"
  shows "page_header c kind t no"
  using assms by (simp add: page_header_def rd_u16_def rd_u32_def)

lemma le_nat_zeros: "le_nat (replicate n 0) = 0"
  by (induction n) auto

lemma rd_zeros: "rd_u16 (replicate n 0) at = 0" "rd_u32 (replicate n 0) at = 0"
  by (simp_all add: rd_u16_def rd_u32_def slice_def from_le_def le_nat_zeros)

lemma page_init_law:
  assumes "length b = PAGE_SIZE"
  obtains c where "page_init b kind t no = Ok c" "page_wf c" "page_slots c = []"
    "page_header c kind t no" "free_ptr c = 4096" "page_next_leaf c = 0"
proof -
  obtain c where c: "page_init b kind t no = Ok c" using assms by (simp add: page_init_def Let_def)
  have len: "length c = 4096" using c assms by (auto simp: page_init_def Let_def layout_defs)
  have c': "c = put_at (put_at (put_at (put_at (put_at (put_at (put_at (replicate 4096 0)
      0 (to_le PAGE_MAGIC)) 4 (to_le PAGE_VERSION)) 6 (to_le (page_kind_u16 kind))) 8 (to_le t))
      12 (to_le no)) 16 (to_le (4096 :: u16))) 18 (to_le FORMAT_VERSION)"
    using c assms by (simp add: page_init_def Let_def layout_defs)
  have z: "nentries c = 0" "page_next_leaf c = 0"
    by (simp_all add: c' nentries_def page_next_leaf_def rd_u16_other rd_u32_other rd_zeros)
  have fp: "free_ptr c = 4096"
    by (simp add: c' free_ptr_def rd_u16_same rd_u16_other)
  have hd: "page_header c kind t no"
    by (simp add: c' page_header_def rd_simps)
  have sl: "page_slots c = []" by (simp add: page_slots_def z)
  have "page_wf c" by (rule page_wfI) (simp_all add: len z fp sl)
  then show thesis using that c sl hd fp z by blast
qed

lemma open_inner_Ok:
  assumes "open_inner crc b want v = Ok c"
  shows "c = b" "length b = PAGE_SIZE" "rd_u32 b 12 = want" "v \<Longrightarrow> rd_u32 b 36 = checksum crc b"
    "HEADER_LEN + nentries b * SLOT_LEN \<le> free_ptr b" "free_ptr b \<le> PAGE_SIZE"
    "slots_in_bounds b (nentries b)" "page_kind_from_u16 (rd_u16 b 6) \<noteq> None"
    "format_version b = FORMAT_VERSION"
  using assms by (auto simp: open_inner_def Let_def format_version_def split: if_splits)

lemma open_inner_accepts:
  assumes "page_wf b" "page_header b kind t no" "format_version b = FORMAT_VERSION"
    and "v \<Longrightarrow> rd_u32 b 36 = checksum crc b"
  shows "open_inner crc b no v = Ok b"
  using assms by (auto simp: open_inner_def Let_def page_header_def page_wf_def format_version_def)

text \<open>Sealing changes the generation, the format stamp and the checksum, and nothing else.\<close>

lemma seal_fields:
  assumes "length b = 4096"
  shows "length (seal crc b g) = 4096" "page_lsn (seal crc b g) = g"
    "format_version (seal crc b g) = FORMAT_VERSION"
    "rd_u32 (seal crc b g) 36 = checksum crc (seal crc b g)"
    "k \<le> 18 \<or> 20 \<le> j \<and> k \<le> 24 \<or> 40 \<le> j \<Longrightarrow> slice (seal crc b g) j k = slice b j k"
  using assms
  by (auto simp: seal_def Let_def layout_defs page_lsn_def format_version_def rd_simps checksum_def
      slice_put_at_other)

lemma nentries_cong: "(\<And>j k. k \<le> 18 \<Longrightarrow> slice c j k = slice b j k) \<Longrightarrow> nentries c = nentries b"
  by (simp add: nentries_def rd_u16_def)

lemma sealed_slots:
  assumes "page_wf b"
  shows "page_slots (seal crc b g) = page_slots b" "page_wf (seal crc b g)"
proof -
  note w = page_wf_bounds [OF assms]
  note s = seal_fields [OF w(1), where crc = crc and g = g]
  let ?s = "seal crc b g"
  have n: "nentries ?s = nentries b" using s(5) by (intro nentries_cong) auto
  have fp: "free_ptr ?s = free_ptr b" by (simp add: free_ptr_def rd_u16_def s(5))
  have so: "slot_off ?s i = slot_off b i" "slot_len ?s i = slot_len b i" for i
    by (simp_all add: slot_off_def slot_len_def rd_u16_def layout_defs s(5))
  have "40 \<le> slot_off b i" if "i < nentries b" for i
    using w(2) w(4) [OF that] by simp
  then show sl: "page_slots ?s = page_slots b"
    by (intro nth_equalityI) (simp_all add: n nth_page_slots so s(5))
  show "page_wf ?s"
    using w by (intro page_wfI) (simp_all add: n fp so sl s(1))
qed

lemma sealed_header: "page_wf b \<Longrightarrow> page_header b kind t no \<Longrightarrow> page_header (seal crc b g) kind t no"
  by (erule page_header_cong) (auto simp: seal_fields(5) page_wf_bounds(1))

lemma page_wf_length: "page_wf b \<Longrightarrow> length b = PAGE_SIZE"
  by (simp add: page_wf_def)

section \<open>The interface\<close>

text \<open>
  What the users of a page rely on (\<open>meta.rs\<close>, \<open>btree.rs\<close>, \<open>bulk.rs\<close>): an ordered sequence of records
  in a fixed space, each record paying its length and one directory entry.
\<close>

locale slotted_page =
  fixes invar :: "'p \<Rightarrow> bool"
    and entries :: "'p \<Rightarrow> bytes list"
    and room :: "'p \<Rightarrow> nat"
    and ins :: "'p \<Rightarrow> nat \<Rightarrow> bytes \<Rightarrow> 'p kresult"
    and rem :: "'p \<Rightarrow> nat \<Rightarrow> 'p kresult"
    and pack :: "'p \<Rightarrow> 'p kresult"
  assumes ins_ok: "invar p \<Longrightarrow> at \<le> length (entries p) \<Longrightarrow> length r + SLOT_LEN \<le> room p \<Longrightarrow>
      \<exists>q. ins p at r = Ok q \<and> invar q \<and> entries q = take at (entries p) @ r # drop at (entries p) \<and>
          room q = room p - (length r + SLOT_LEN)"
    and ins_full: "invar p \<Longrightarrow> room p < length r + SLOT_LEN \<Longrightarrow> ins p at r = Err TooLarge"
    and rem_ok: "invar p \<Longrightarrow> at < length (entries p) \<Longrightarrow>
      \<exists>q. rem p at = Ok q \<and> invar q \<and> entries q = take at (entries p) @ drop (Suc at) (entries p)"
    and pack_ok: "invar p \<Longrightarrow>
      \<exists>q. pack p = Ok q \<and> invar q \<and> entries q = entries p \<and>
          room q + sum_list (map (\<lambda>r. length r + SLOT_LEN) (entries p)) = PAGE_SIZE - HEADER_LEN"

text \<open>Append a run of records, one after the other (the inner loop of \<open>build_page_into\<close>).\<close>

fun push_records :: "('p \<Rightarrow> nat) \<Rightarrow> ('p \<Rightarrow> nat \<Rightarrow> bytes \<Rightarrow> 'p kresult) \<Rightarrow> 'p \<Rightarrow> bytes list \<Rightarrow> 'p kresult" where
  "push_records count ins p [] = Ok p"
| "push_records count ins p (r # rs) = obind (ins p (count p) r) (\<lambda>p. push_records count ins p rs)"

context slotted_page
begin

lemma push_records_fits:
  assumes "invar p" "sum_list (map (\<lambda>r. length r + SLOT_LEN) rs) \<le> room p"
    and "\<And>q. count q = length (entries q)"
  shows "\<exists>q. push_records count ins p rs = Ok q \<and> invar q \<and> entries q = entries p @ rs \<and>
    room q = room p - sum_list (map (\<lambda>r. length r + SLOT_LEN) rs)"
  using assms(1,2)
proof (induction rs arbitrary: p)
  case (Cons r rs)
  obtain q where q: "ins p (length (entries p)) r = Ok q" "invar q" "entries q = entries p @ [r]"
      "room q = room p - (length r + SLOT_LEN)"
    using ins_ok [of p "length (entries p)" r] Cons.prems by auto
  have "sum_list (map (\<lambda>r. length r + SLOT_LEN) rs) \<le> room q" using Cons.prems(2) q(4) by simp
  then obtain s where "push_records count ins q rs = Ok s" "invar s" "entries s = entries q @ rs"
      "room s = room q - sum_list (map (\<lambda>r. length r + SLOT_LEN) rs)"
    using Cons.IH [OF q(2)] by blast
  then show ?case using q by (simp add: assms(3) [of p])
qed simp

lemma push_records_full:
  assumes "invar p" "room p < sum_list (map (\<lambda>r. length r + SLOT_LEN) rs)"
    and "\<And>q. count q = length (entries q)"
  shows "push_records count ins p rs = Err TooLarge"
  using assms(1,2)
proof (induction rs arbitrary: p)
  case (Cons r rs)
  show ?case
  proof (cases "room p < length r + SLOT_LEN")
    case True
    then show ?thesis using ins_full Cons.prems by simp
  next
    case False
    then obtain q where q: "ins p (length (entries p)) r = Ok q" "invar q"
        "room q = room p - (length r + SLOT_LEN)"
      using ins_ok [of p "length (entries p)" r] Cons.prems by auto
    then show ?thesis using Cons.IH [of q] Cons.prems False by (simp add: assms(3) [of p])
  qed
qed simp

text \<open>Remove an entry and compact: the space of its record and of its directory entry comes back.\<close>

lemma rem_pack:
  assumes "invar p" "at < length (entries p)"
  shows "\<exists>q. obind (rem p at) pack = Ok q \<and> invar q \<and>
    entries q = take at (entries p) @ drop (Suc at) (entries p) \<and>
    room q + sum_list (map (\<lambda>r. length r + SLOT_LEN) (entries q)) = PAGE_SIZE - HEADER_LEN"
proof -
  obtain c where c: "rem p at = Ok c" "invar c" "entries c = take at (entries p) @ drop (Suc at) (entries p)"
    using rem_ok [OF assms] by auto
  obtain d where "pack c = Ok d" "invar d" "entries d = entries c"
      "room d + sum_list (map (\<lambda>r. length r + SLOT_LEN) (entries c)) = PAGE_SIZE - HEADER_LEN"
    using pack_ok [OF c(2)] by auto
  then show ?thesis using c by simp
qed

end

lemma insert_slot_ok:
  assumes "page_wf b" "at \<le> nentries b" "length rec + SLOT_LEN \<le> free_space b"
  shows "\<exists>c. insert_slot b at rec = Ok c \<and> page_wf c \<and>
    page_slots c = take at (page_slots b) @ rec # drop at (page_slots b) \<and>
    free_space c = free_space b - (length rec + SLOT_LEN) \<and>
    (\<forall>kind t no. page_header b kind t no \<longrightarrow> page_header c kind t no)"
proof -
  have can: "can_insert b at rec" using assms by (simp add: can_insert_def layout_defs)
  have "page_header (inserted b at rec) kind t no" if "page_header b kind t no" for kind t no
    using page_header_cong [OF that] inserted_header(4,5) [OF can] by blast
  then show ?thesis
    using assms can by (auto simp: insert_slot_eq page_wf_inserted page_slots_inserted free_space_inserted
        layout_defs)
qed

interpretation page: slotted_page page_wf page_slots free_space insert_slot remove_slot compact
proof
  fix b r and at :: nat
  assume wf: "page_wf b"
  show "\<exists>c. insert_slot b at r = Ok c \<and> page_wf c \<and>
      page_slots c = take at (page_slots b) @ r # drop at (page_slots b) \<and>
      free_space c = free_space b - (length r + SLOT_LEN)"
    if "at \<le> length (page_slots b)" "length r + SLOT_LEN \<le> free_space b"
    using insert_slot_ok [OF wf, of at r] that by auto
  show "insert_slot b at r = Err TooLarge" if "free_space b < length r + SLOT_LEN"
    using that by (simp add: insert_slot_eq [OF wf] layout_defs)
  show "\<exists>c. remove_slot b at = Ok c \<and> page_wf c \<and>
      page_slots c = take at (page_slots b) @ drop (Suc at) (page_slots b)"
    if "at < length (page_slots b)"
    using that page_wf_removed [OF wf, of at] page_slots_removed [OF wf, of at]
    by (auto simp: remove_slot_eq [OF wf])
  obtain c where c: "compact b = Ok c" "page_wf c" "page_slots c = page_slots b"
      "free_ptr c = 4096 - sum_list (map length (page_slots b))"
    using compact_law [OF wf] by (elim exE conjE)
  have sum: "sum_list (map (\<lambda>r. length r + SLOT_LEN) xs) = sum_list (map length xs) + length xs * 4"
    for xs :: "bytes list"
    by (induction xs) (simp_all add: layout_defs)
  have "nentries c = nentries b" using arg_cong [OF c(3), of length] by simp
  then have "free_space c + sum_list (map (\<lambda>r. length r + SLOT_LEN) (page_slots b)) = PAGE_SIZE - HEADER_LEN"
    unfolding sum using page_wf_bounds(2,3,6) [OF wf] c(4) by (simp add: free_space_def layout_defs)
  then show "\<exists>c. compact b = Ok c \<and> page_wf c \<and> page_slots c = page_slots b \<and>
      free_space c + sum_list (map (\<lambda>r. length r + SLOT_LEN) (page_slots b)) = PAGE_SIZE - HEADER_LEN"
    using c by blast
qed

section \<open>Properties\<close>

text \<open>
  C14: Inserting a record at position \<open>at\<close> of a well-formed page succeeds exactly when the position
  exists and the record and its directory entry fit in the free space; the page then holds the old
  records with the new one at that position, is well-formed again and has exactly that much less
  free space. Otherwise the call answers \<open>TooLarge\<close>. It never panics.
\<close>

theorem insert_slot_correct:
  assumes "page_wf b"
  shows "if at \<le> nentries b \<and> length rec + SLOT_LEN \<le> free_space b
    then \<exists>c. insert_slot b at rec = Ok c \<and> page_wf c \<and>
      page_slots c = take at (page_slots b) @ rec # drop at (page_slots b) \<and>
      free_space c = free_space b - (length rec + SLOT_LEN)
    else insert_slot b at rec = Err TooLarge"
proof (cases "at \<le> nentries b \<and> length rec + SLOT_LEN \<le> free_space b")
  case True
  then show ?thesis using page.ins_ok [OF assms, of at rec] by simp
next
  case False
  then have "insert_slot b at rec = Err TooLarge" by (auto simp: insert_slot_eq [OF assms] layout_defs)
  then show ?thesis unfolding if_not_P [OF False] .
qed

text \<open>A fresh leaf, the concrete page of the witnesses.\<close>

definition fresh_leaf :: bytes where
  "fresh_leaf = (case page_init (replicate PAGE_SIZE 0) PageLeaf 7 3 of Ok b \<Rightarrow> b | _ \<Rightarrow> [])"

lemma fresh_leaf_facts:
  "page_init (replicate PAGE_SIZE 0) PageLeaf 7 3 = Ok fresh_leaf"
  "page_wf fresh_leaf" "page_slots fresh_leaf = []" "nentries fresh_leaf = 0"
  "free_space fresh_leaf = 4056" "page_header fresh_leaf PageLeaf 7 3"
proof -
  obtain c where c: "page_init (replicate PAGE_SIZE 0) PageLeaf 7 3 = Ok c" "page_wf c" "page_slots c = []"
      "page_header c PageLeaf 7 3" "free_ptr c = 4096"
    using page_init_law [of "replicate PAGE_SIZE 0" PageLeaf 7 3] by auto
  have [simp]: "fresh_leaf = c" by (simp add: fresh_leaf_def c(1))
  have "nentries c = 0" using arg_cong [OF c(3), of length] by simp
  then show "page_init (replicate PAGE_SIZE 0) PageLeaf 7 3 = Ok fresh_leaf"
    "page_wf fresh_leaf" "page_slots fresh_leaf = []" "nentries fresh_leaf = 0"
    "free_space fresh_leaf = 4056" "page_header fresh_leaf PageLeaf 7 3"
    using c by (simp_all add: free_space_def layout_defs)
qed

theorem insert_slot_correct_witness:
  "page_wf fresh_leaf \<and>
   (\<exists>c. insert_slot fresh_leaf 0 [1, 2] = Ok c \<and> page_wf c \<and> page_slots c = [[1, 2]] \<and> free_space c = 4050)"
  using insert_slot_correct [OF fresh_leaf_facts(2), of 0 "[1, 2]"]
  by (auto simp: fresh_leaf_facts layout_defs)

text \<open>
  C25: Removing entry \<open>at\<close> of a well-formed page and compacting it: neither step panics, the other
  records keep their order and contents, and afterwards the free space is everything the remaining
  records and their directory entries do not use.
\<close>

theorem remove_and_compact_correct:
  assumes "page_wf b" "at < nentries b"
  shows "\<exists>c d. remove_slot b at = Ok c \<and> compact c = Ok d \<and> page_wf c \<and> page_wf d \<and>
    page_slots c = take at (page_slots b) @ drop (Suc at) (page_slots b) \<and> page_slots d = page_slots c \<and>
    free_space d + sum_list (map (\<lambda>r. length r + SLOT_LEN) (page_slots d)) = PAGE_SIZE - HEADER_LEN"
proof -
  obtain c where c: "remove_slot b at = Ok c" "page_wf c"
      "page_slots c = take at (page_slots b) @ drop (Suc at) (page_slots b)"
    using page.rem_ok [OF assms(1), of at] assms(2) by auto
  obtain d where "compact c = Ok d" "page_wf d" "page_slots d = page_slots c"
      "free_space d + sum_list (map (\<lambda>r. length r + SLOT_LEN) (page_slots c)) = PAGE_SIZE - HEADER_LEN"
    using page.pack_ok [OF c(2)] by auto
  then show ?thesis using c by simp
qed

theorem remove_and_compact_correct_witness:
  "\<exists>b c d. insert_slot fresh_leaf 0 [1, 2] = Ok b \<and> page_wf b \<and> 0 < nentries b \<and> remove_slot b 0 = Ok c \<and>
     compact c = Ok d \<and> page_slots d = [] \<and> free_space d = 4056"
proof -
  obtain b where b: "insert_slot fresh_leaf 0 [1, 2] = Ok b" "page_wf b" "page_slots b = [[1, 2]]"
    using page.ins_ok [OF fresh_leaf_facts(2), of 0 "[1, 2]"] by (auto simp: fresh_leaf_facts layout_defs)
  have n: "0 < nentries b" using arg_cong [OF b(3), of length] by simp
  show ?thesis using remove_and_compact_correct [OF b(2) n] b n by (fastforce simp: layout_defs)
qed

text \<open>
  C23: A sealed page reopens under its own number with the same records and the generation it was
  sealed with, and is refused under every other number.
\<close>

theorem seal_open_roundtrip:
  assumes "page_wf b" "page_header b kind t no"
  shows "page_open crc (seal crc b g) want =
      (if want = no then Ok (seal crc b g) else Err (Corrupt want ''page_no mismatch'')) \<and>
    page_slots (seal crc b g) = page_slots b \<and> page_lsn (seal crc b g) = g \<and>
    page_kind_of (seal crc b g) = Ok kind"
proof -
  let ?s = "seal crc b g"
  note s = seal_fields [OF page_wf_bounds(1) [OF assms(1)], where crc = crc and g = g]
  have hd: "page_header ?s kind t no" by (rule sealed_header [OF assms])
  have "page_open crc ?s want = Err (Corrupt want ''page_no mismatch'')" if "want \<noteq> no"
    using hd that s(1,3,4) by (auto simp: page_open_def open_inner_def Let_def page_header_def format_version_def PAGE_SIZE_def)
  moreover have "page_open crc ?s no = Ok ?s"
    unfolding page_open_def by (rule open_inner_accepts [OF sealed_slots(2) [OF assms(1)] hd s(3) s(4)])
  moreover have "page_kind_of ?s = Ok kind"
    using hd by (simp add: page_kind_of_def page_header_def)
  ultimately show ?thesis using s(2) sealed_slots(1) [OF assms(1)] by auto
qed

theorem seal_open_roundtrip_witness:
  "page_wf fresh_leaf \<and> page_header fresh_leaf PageLeaf 7 3 \<and>
   page_open crc32c_append (seal crc32c_append fresh_leaf 9) 3 = Ok (seal crc32c_append fresh_leaf 9) \<and>
   page_open crc32c_append (seal crc32c_append fresh_leaf 9) 4 = Err (Corrupt 4 ''page_no mismatch'')"
  using seal_open_roundtrip [OF fresh_leaf_facts(2,6), where crc = crc32c_append and g = 9 and want = 3]
    seal_open_roundtrip [OF fresh_leaf_facts(2,6), where crc = crc32c_append and g = 9 and want = 4]
    fresh_leaf_facts(2,6) by simp



end
