(* ===== verification/Tree_Record.thy ===== *)
theory Tree_Record
  imports Page
begin

text \<open>
  The records stored in the slots of tree pages: the encoders and the unchecked readers of
  core/kernel/src/btree.rs and the one checked decoder of core/kernel/src/verify.rs. A leaf cell
  has three encodings, told apart by its first two bytes; a value that does not fit is replaced by
  a twelve-byte overflow marker.
\<close>

unbundle bit_operations_syntax

section \<open>Encoders\<close>

definition OVERFLOW_VLEN :: u16 where "OVERFLOW_VLEN = 0xFFFF"

definition enc_marker :: "u32 \<Rightarrow> u32 \<Rightarrow> u32 \<Rightarrow> bytes" where
  "enc_marker total_len head crc = to_le total_len @ to_le head @ to_le crc"

definition enc_leaf_marker :: "bytes \<Rightarrow> bytes \<Rightarrow> bytes" where
  "enc_leaf_marker key marker =
     to_le (of_nat (length key) :: u16) @ key @ to_le OVERFLOW_VLEN @ marker"

definition enc_leaf :: "bytes \<Rightarrow> bytes \<Rightarrow> bool \<Rightarrow> bytes" where
  "enc_leaf key val compact_cells =
     (if compact_cells \<and> key \<noteq> [] \<and> 0x81 \<le> hd key \<and> hd key \<le> 0x88 \<and> length key = 1 + unat (hd key - 0x80)
      then 0xff # key @ val
      else if compact_cells \<and> length key \<le> 0x0fff
      then to_le (0x4000 OR of_nat (length key) :: u16) @ key @ val
      else to_le (of_nat (length key) :: u16) @ key @ to_le (of_nat (length val) :: u16) @ val)"

definition enc_interior :: "bytes \<Rightarrow> u32 \<Rightarrow> bytes" where
  "enc_interior key child = to_le (of_nat (length key) :: u16) @ key @ to_le child"

section \<open>The checked decoder\<close>

datatype decoded_record =
    LeafRecord bytes bytes bool
  | InteriorRecord bytes u32

definition int_cell :: "byte \<Rightarrow> byte \<Rightarrow> bool" where
  "int_cell b0 b1 \<longleftrightarrow> b0 = 0xff \<and> 0x81 \<le> b1 \<and> b1 \<le> 0x88"

definition short_cell :: "byte \<Rightarrow> bool" where
  "short_cell b1 \<longleftrightarrow> b1 AND 0xf0 = 0x40"

definition le16 :: "byte \<Rightarrow> byte \<Rightarrow> u16" where
  "le16 b0 b1 = from_le [b0, b1]"

definition decode_record :: "bytes \<Rightarrow> u32 \<Rightarrow> page_kind \<Rightarrow> decoded_record kresult" where
  "decode_record rec page_no kind =
     (let bad = (\<lambda>why. Corrupt page_no why) in
      if kind = PageLeaf \<and> get_at rec 0 = Some 0xff \<and>
         (case get_at rec 1 of Some b \<Rightarrow> 0x81 \<le> b \<and> b \<le> 0x88 | None \<Rightarrow> False)
      then let end = 2 + unat (rec ! 1 - 0x80) in
        obind (of_option (bad ''compact integer key crosses its slot'') (get_range rec 1 end)) (\<lambda>key.
        Ok (LeafRecord key (drop end rec) False))
      else if kind = PageLeaf \<and> (case get_at rec 1 of Some b \<Rightarrow> b AND 0xf0 = 0x40 | None \<Rightarrow> False)
      then let end = 2 + unat (le16 (rec ! 0) (rec ! 1) AND 0x0fff) in
        obind (of_option (bad ''compact key crosses its slot'') (get_range rec 2 end)) (\<lambda>key.
        Ok (LeafRecord key (drop end rec) False))
      else
        obind (of_option (bad ''record has no key length'') (get_range rec 0 2)) (\<lambda>klen_bytes.
        let klen = unat (from_le klen_bytes :: u16) in
        obind (of_option (bad ''record key boundary overflow'') (checked_add_u64 2 klen)) (\<lambda>key_end.
        obind (of_option (bad ''record key crosses its slot'') (get_range rec 2 key_end)) (\<lambda>key.
        if kind = PageInterior then
          obind (of_option (bad ''interior child boundary overflow'') (checked_add_u64 key_end 4)) (\<lambda>end.
          if end \<noteq> length rec then Err (bad ''interior record length does not match its slot'')
          else obind (index_range rec key_end end) (\<lambda>c. Ok (InteriorRecord key (from_le c))))
        else if kind \<noteq> PageLeaf then Err (bad ''non-tree page contains a tree record'')
        else
          obind (of_option (bad ''leaf value boundary overflow'') (checked_add_u64 key_end 2)) (\<lambda>vlen_end.
          obind (of_option (bad ''leaf record has no value length'') (get_range rec key_end vlen_end)) (\<lambda>vlen_bytes.
          let vlen = (from_le vlen_bytes :: u16) in
          if vlen = OVERFLOW_VLEN then
            obind (of_option (bad ''overflow marker boundary overflow'') (checked_add_u64 vlen_end 12)) (\<lambda>end.
            obind (of_option (bad ''overflow marker crosses its slot'') (get_range rec vlen_end end)) (\<lambda>marker.
            if end \<noteq> length rec then Err (bad ''overflow marker has trailing bytes'')
            else Ok (LeafRecord key marker True)))
          else
            obind (of_option (bad ''leaf value boundary overflow'') (checked_add_u64 vlen_end (unat vlen))) (\<lambda>end.
            if end \<noteq> length rec then Err (bad ''leaf value length does not match its slot'')
            else obind (index_range rec vlen_end end) (\<lambda>v. Ok (LeafRecord key v False)))))))))"

section \<open>The unchecked readers\<close>

definition validated_key :: "bytes \<Rightarrow> bytes kresult" where
  "validated_key rec =
     (if length rec < 2 then Panic
      else if int_cell (rec ! 0) (rec ! 1) then index_range rec 1 (2 + unat (rec ! 1 - 0x80))
      else if short_cell (rec ! 1) then index_range rec 2 (2 + unat (le16 (rec ! 0) (rec ! 1) AND 0x0fff))
      else index_range rec 2 (2 + unat (le16 (rec ! 0) (rec ! 1))))"

definition validated_leaf :: "bytes \<Rightarrow> (bytes \<times> bytes \<times> bool) kresult" where
  "validated_leaf rec =
     (if length rec < 2 then Panic
      else if int_cell (rec ! 0) (rec ! 1) then
        let end = 2 + unat (rec ! 1 - 0x80) in
        obind (index_range rec 1 end) (\<lambda>key. Ok (key, drop end rec, False))
      else if short_cell (rec ! 1) then
        let end = 2 + unat (le16 (rec ! 0) (rec ! 1) AND 0x0fff) in
        obind (index_range rec 2 end) (\<lambda>key. Ok (key, drop end rec, False))
      else let k = unat (le16 (rec ! 0) (rec ! 1)) in
        if 3 + k \<ge> length rec then Panic
        else let v = le16 (rec ! (2 + k)) (rec ! (3 + k));
                 value_len = (if v = OVERFLOW_VLEN then 12 else unat v)
             in obind (index_range rec 2 (2 + k)) (\<lambda>key.
                obind (index_range rec (4 + k) (4 + k + value_len)) (\<lambda>value.
                Ok (key, value, v = OVERFLOW_VLEN))))"

definition validated_child :: "bytes \<Rightarrow> u32 kresult" where
  "validated_child rec =
     (if length rec < 2 then Panic
      else let k = unat (le16 (rec ! 0) (rec ! 1)) in
        obind (index_range rec (2 + k) (6 + k)) (\<lambda>c. Ok (from_le c)))"

text \<open>\<open>validate_records\<close>: every record of a tree page through the checked decoder.\<close>

fun validate_slots :: "bytes \<Rightarrow> u32 \<Rightarrow> page_kind \<Rightarrow> nat list \<Rightarrow> unit kresult" where
  "validate_slots b page_no kind [] = Ok ()"
| "validate_slots b page_no kind (i # is) =
     obind (page_slot b i) (\<lambda>rec.
     obind (decode_record rec page_no kind) (\<lambda>_. validate_slots b page_no kind is))"

definition validate_records :: "bytes \<Rightarrow> unit kresult" where
  "validate_records b =
     obind (page_kind_of b) (\<lambda>kind.
     if kind \<noteq> PageLeaf \<and> kind \<noteq> PageInterior then Ok ()
     else validate_slots b (page_page_no b) kind [0..<nentries b])"

section \<open>Two-byte lengths\<close>

lemma le16_nat: "unat (le16 a b) = unat a + 256 * unat b"
  by (simp add: le16_def unat_from_le)

lemma to_le_u16: "to_le (w :: u16) = [of_nat (unat w), of_nat (unat w div 256)]"
  by (simp add: to_le_def numeral_2_eq_2)

lemma or_4000: "n \<le> 0x0fff \<Longrightarrow> unat (0x4000 OR of_nat n :: u16) = 0x4000 + n"
proof -
  assume n: "n \<le> 0x0fff"
  have "0x4000 AND of_nat n = (0 :: u16)"
  proof (rule bit_word_eqI)
    fix m assume "m < LENGTH(16)"
    have "\<not> bit n 14" using n by (simp add: bit_iff_odd)
    moreover have "bit (0x4000 :: u16) m \<longleftrightarrow> m = 14"
      using bit_exp_iff [where ?'a = u16, of 14 m] by auto
    ultimately show "bit (0x4000 AND of_nat n :: u16) m \<longleftrightarrow> bit (0 :: u16) m"
      by (auto simp: bit_and_iff bit_of_nat_iff)
  qed
  then have "0x4000 OR of_nat n = (0x4000 + of_nat n :: u16)"
    by (simp add: disjunctive_add_eq_or)
  also have "\<dots> = of_nat (0x4000 + n)" by simp
  finally show ?thesis using n by (simp add: unat_u16_of_nat del: of_nat_add)
qed

lemma and_0fff: "unat (w AND 0x0fff :: u16) = unat w mod 4096"
proof -
  have "(0x0fff :: u16) = mask 12" by (simp add: mask_eq_exp_minus_1)
  then have *: "w AND 0x0fff = take_bit 12 w" by (simp add: take_bit_eq_mask)
  show ?thesis unfolding * unsigned_take_bit_eq by (simp add: take_bit_eq_mod)
qed

lemma short_cell_iff: "short_cell b \<longleftrightarrow> 64 \<le> unat b \<and> unat b < 80"
proof -
  have "b AND 0xf0 = push_bit 4 (drop_bit 4 b)"
  proof (rule bit_word_eqI)
    fix n assume n: "n < LENGTH(8)"
    have "bit (0xf0 :: byte) n \<longleftrightarrow> 4 \<le> n"
    proof -
      have "n \<in> {0, 1, 2, 3, 4, 5, 6, 7}" using n by auto
      then show ?thesis by auto
    qed
    then show "bit (b AND 0xf0) n \<longleftrightarrow> bit (push_bit 4 (drop_bit 4 b)) n"
      using n by (auto simp: bit_and_iff bit_push_bit_iff bit_drop_bit_eq)
  qed
  moreover have "unat (push_bit 4 (drop_bit 4 b)) = unat b div 16 * 16"
    using unat_byte_less [of b]
    unfolding unsigned_push_bit_eq unsigned_drop_bit_eq
    by (simp add: push_bit_eq_mult drop_bit_eq_div take_bit_eq_mod)
  ultimately have "short_cell b \<longleftrightarrow> unat b div 16 * 16 = 64"
    unfolding short_cell_def word_unat_eq_iff by simp
  moreover have "unat b = unat b div 16 * 16 + unat b mod 16" "unat b mod 16 < 16" by simp_all
  moreover have "unat b div 16 = 4" if "64 \<le> unat b" "unat b < 80"
    using that by (intro div_nat_eqI) auto
  ultimately have "unat b div 16 * 16 = 64 \<longleftrightarrow> 64 \<le> unat b \<and> unat b < 80" by fastforce
  then show ?thesis using \<open>short_cell b \<longleftrightarrow> unat b div 16 * 16 = 64\<close> by simp
qed

lemma int_cell_iff: "int_cell a b \<longleftrightarrow> unat a = 255 \<and> 129 \<le> unat b \<and> unat b \<le> 136"
  by (simp add: int_cell_def word_le_nat_alt word_unat_eq_iff)

section \<open>Round trips\<close>

lemma plain_head:
  fixes t :: bytes
  assumes "n \<le> 4095"
  defines "rec \<equiv> to_le (of_nat n :: u16) @ t"
  shows "2 \<le> length rec" "unat (rec ! 1) < 16" "unat (le16 (rec ! 0) (rec ! 1)) = n"
    "slice rec 0 2 = to_le (of_nat n :: u16)"
proof -
  have w: "to_le (of_nat n :: u16) = [of_nat n, of_nat (n div 256)]"
    using assms(1) by (simp add: to_le_u16 unat_u16_of_nat)
  show "2 \<le> length rec" by (simp add: rec_def)
  show "slice rec 0 2 = to_le (of_nat n :: u16)" by (simp add: rec_def slice_def)
  show "unat (rec ! 1) < 16" "unat (le16 (rec ! 0) (rec ! 1)) = n"
    using assms(1) by (simp_all add: rec_def w le16_nat)
qed

lemma plain_kind:
  assumes "unat (b1 :: byte) < 16"
  shows "\<not> (0x81 \<le> b1 \<and> b1 \<le> 0x88)" "b1 AND 0xf0 \<noteq> 0x40"
  using assms short_cell_iff [of b1] by (auto simp: word_le_nat_alt short_cell_def)

text \<open>What the decoder does with a cell of the general encoding, up to the key.\<close>

lemma decode_plain:
  assumes "length key \<le> 4095"
  defines "r t \<equiv> to_le (of_nat (length key) :: u16) @ key @ t"
  shows "decode_record (r t) page_no PageLeaf =
      (if length t < 2 then Err (Corrupt page_no ''leaf record has no value length'')
       else if from_le (take 2 t) = OVERFLOW_VLEN then
         if length t < 14 then Err (Corrupt page_no ''overflow marker crosses its slot'')
         else if length t \<noteq> 14 then Err (Corrupt page_no ''overflow marker has trailing bytes'')
         else Ok (LeafRecord key (drop 2 t) True)
       else if length t \<noteq> 2 + unat (from_le (take 2 t) :: u16)
         then Err (Corrupt page_no ''leaf value length does not match its slot'')
       else Ok (LeafRecord key (drop 2 t) False))"
proof -
  note h = plain_head [OF assms(1), of "key @ t", folded r_def]
  have lr: "length (r t) = 2 + length key + length t" by (simp add: r_def)
  have g1: "get_at (r t) 1 = Some (r t ! 1)" using lr by (simp add: get_at_def)
  have u: "unat (v :: u16) < 65536" for v using unat_less_len [of v] by simp
  have len: "unat (from_le (to_le (of_nat (length key) :: u16)) :: u16) = length key"
    using assms(1) by (simp add: unat_u16_of_nat)
  have add: "checked_add_u64 2 (length key) = Some (2 + length key)"
    "checked_add_u64 (2 + length key) 2 = Some (4 + length key)"
    "checked_add_u64 (4 + length key) 12 = Some (16 + length key)"
    "checked_add_u64 (4 + length key) (unat v) = Some (4 + length key + unat v)" for v :: u16
    using assms(1) u [of v] by (simp_all add: checked_add_u64_def)
  have range: "get_range (r t) 0 2 = Some (to_le (of_nat (length key) :: u16))"
    "get_range (r t) 2 (2 + length key) = Some key"
    "get_range (r t) (2 + length key) (4 + length key) = (if 2 \<le> length t then Some (take 2 t) else None)"
    "get_range (r t) (4 + length key) (16 + length key) =
      (if 14 \<le> length t then Some (take 12 (drop 2 t)) else None)"
    using lr by (simp_all add: get_range_def h(4)) (simp_all add: r_def slice_def)
  have whole: "index_range (r t) (4 + length key) (4 + length key + m) = (Ok (drop 2 t) :: bytes kresult)"
    if "length t = 2 + m" for m
    using that lr by (simp add: index_range_def r_def slice_def)
  have skip: "\<not> (case get_at (r t) 1 of Some b \<Rightarrow> 0x81 \<le> b \<and> b \<le> 0x88 | None \<Rightarrow> False)"
    "\<not> (case get_at (r t) 1 of Some b \<Rightarrow> b AND 0xf0 = 0x40 | None \<Rightarrow> False)"
    unfolding g1 using plain_kind [OF h(2)] by simp_all
  show ?thesis
  proof -
    have "decode_record (r t) page_no PageLeaf =
      (if length t < 2 then Err (Corrupt page_no ''leaf record has no value length'')
       else if from_le (take 2 t) = OVERFLOW_VLEN then
         obind (of_option (Corrupt page_no ''overflow marker crosses its slot'')
           (if 14 \<le> length t then Some (take 12 (drop 2 t)) else None)) (\<lambda>marker.
         if 16 + length key \<noteq> length (r t) then Err (Corrupt page_no ''overflow marker has trailing bytes'')
         else Ok (LeafRecord key marker True))
       else if 4 + length key + unat (from_le (take 2 t) :: u16) \<noteq> length (r t)
         then Err (Corrupt page_no ''leaf value length does not match its slot'')
       else obind (index_range (r t) (4 + length key) (4 + length key + unat (from_le (take 2 t) :: u16)))
         (\<lambda>v. Ok (LeafRecord key v False)))"
      unfolding decode_record_def Let_def
      by (simp only: skip range add len simp_thms if_False if_True obind.simps of_option.simps
          page_kind.distinct split: if_split) auto
    then show ?thesis
      using whole [of "unat (from_le (take 2 t) :: u16)"] lr by auto
  qed
qed

lemma decode_short:
  assumes "length key \<le> 4095"
  shows "decode_record (to_le (0x4000 OR of_nat (length key) :: u16) @ key @ val) page_no PageLeaf =
      Ok (LeafRecord key val False)"
proof -
  let ?n = "length key"
  let ?r = "to_le (0x4000 OR of_nat ?n :: u16) @ key @ val"
  have w: "to_le (0x4000 OR of_nat ?n :: u16) = [of_nat (0x4000 + ?n), of_nat ((0x4000 + ?n) div 256)]"
    using or_4000 [of ?n] assms by (simp add: to_le_u16)
  have r1: "unat (?r ! 1) = 64 + ?n div 256"
    using assms by (simp add: w)
  have "short_cell (?r ! 1)" "\<not> int_cell (?r ! 0) (?r ! 1)"
    using assms r1 by (auto simp: short_cell_iff int_cell_iff)
  moreover have "unat (le16 (?r ! 0) (?r ! 1) AND 0x0fff) = ?n"
  proof -
    have "unat (le16 (?r ! 0) (?r ! 1)) = 0x4000 + ?n"
      using assms by (simp add: le16_nat w del: of_nat_add)
    then have "unat (le16 (?r ! 0) (?r ! 1) AND 0x0fff) = (0x4000 + ?n) mod 4096"
      by (simp add: and_0fff)
    also have "\<dots> = (?n + 4096 * 4) mod 4096" by (simp add: add.commute)
    also have "\<dots> = ?n" using assms by (simp only: mod_mult_self2) simp
    finally show ?thesis .
  qed
  ultimately show ?thesis
    by (auto simp: decode_record_def Let_def get_at_def int_cell_def short_cell_def get_range_def slice_def)
qed

lemma decode_int:
  assumes "key \<noteq> []" "0x81 \<le> hd key" "hd key \<le> 0x88" "length key = 1 + unat (hd key - 0x80)"
  shows "decode_record (0xff # key @ val) page_no PageLeaf = Ok (LeafRecord key val False)"
proof -
  obtain k ks where key: "key = k # ks" using assms(1) by (cases key) auto
  have "unat (k - 0x80) = length ks" using assms(4) key by simp
  then show ?thesis
    using assms by (simp add: key decode_record_def Let_def get_at_def get_range_def slice_def)
qed

lemma decode_enc_leaf:
  assumes "4 + length key + length val \<le> MAX_RECORD_LEN"
  shows "decode_record (enc_leaf key val c) page_no PageLeaf = Ok (LeafRecord key val False)"
proof -
  have len: "length key \<le> 4095" "length val < 65535"
    using assms by (simp_all add: MAX_RECORD_LEN_def layout_defs)
  have "of_nat (length val) \<noteq> OVERFLOW_VLEN"
    using len(2) by (simp add: OVERFLOW_VLEN_def word_unat_eq_iff unat_u16_of_nat)
  then have "decode_record (to_le (of_nat (length key) :: u16) @ key @ to_le (of_nat (length val) :: u16) @ val)
      page_no PageLeaf = Ok (LeafRecord key val False)"
    using len by (simp add: decode_plain unat_u16_of_nat)
  then show ?thesis
    using decode_short [OF len(1)] decode_int by (simp add: enc_leaf_def)
qed

lemma decode_enc_leaf_marker:
  assumes "16 + length key \<le> MAX_RECORD_LEN" "length marker = 12"
  shows "decode_record (enc_leaf_marker key marker) page_no PageLeaf = Ok (LeafRecord key marker True)"
  using assms by (simp add: enc_leaf_marker_def decode_plain MAX_RECORD_LEN_def layout_defs)

lemma decode_enc_interior:
  assumes "6 + length key \<le> MAX_RECORD_LEN"
  shows "decode_record (enc_interior key child) page_no PageInterior = Ok (InteriorRecord key child)"
  using assms
  by (simp add: enc_interior_def decode_record_def Let_def get_range_def index_range_def slice_def
      MAX_RECORD_LEN_def layout_defs unat_u16_of_nat checked_add_u64_def)

section \<open>The unchecked readers agree with the decoder\<close>

lemma decode_record_length: "decode_record rec no kind = Ok d \<Longrightarrow> 2 \<le> length rec"
  by (cases rec; cases "tl rec") (auto simp: decode_record_def Let_def get_at_def get_range_def split: if_splits)

lemma slice_two: "i + 2 \<le> length b \<Longrightarrow> slice b i (i + 2) = [b ! i, b ! Suc i]"
  by (rule nth_equalityI) (auto simp: nth_slice dest!: less_2_cases)

lemma decode_leaf_readers:
  assumes "decode_record rec no PageLeaf = Ok (LeafRecord k v ov)"
  shows "validated_key rec = Ok k" "validated_leaf rec = Ok (k, v, ov)"
proof -
  have len: "2 \<le> length rec" by (rule decode_record_length [OF assms])
  then have g: "get_at rec 0 = Some (rec ! 0)" "get_at rec (Suc 0) = Some (rec ! Suc 0)"
    by (auto simp: get_at_def)
  have s0: "slice rec 0 2 = [rec ! 0, rec ! Suc 0]" using slice_two [of 0 rec] len by (simp add: numeral_2_eq_2)
  have sk: "slice rec (Suc (Suc m)) (4 + m) = [rec ! (2 + m), rec ! (3 + m)]"
    if "4 + m \<le> length rec" for m
    using slice_two [of "2 + m" rec] that by (simp add: eval_nat_numeral)
  show "validated_key rec = Ok k"
    using assms len
    by (auto simp: decode_record_def validated_key_def Let_def g int_cell_def short_cell_def get_range_Some
        index_range_def obind_iffs checked_add_u64_Some le16_def s0 split: if_splits)
  have suc4: "Suc (Suc (Suc (Suc m))) = 4 + m" for m by simp
  show "validated_leaf rec = Ok (k, v, ov)"
    using assms len
    by (auto simp: decode_record_def validated_leaf_def Let_def g int_cell_def short_cell_def get_range_Some
        index_range_def obind_iffs checked_add_u64_Some le16_def s0 sk suc4 add_ac split: if_splits)
qed

lemma decode_interior_readers:
  assumes "decode_record rec no PageInterior = Ok (InteriorRecord k c)" "length rec \<le> PAGE_SIZE"
  shows "validated_key rec = Ok k" "validated_child rec = Ok c"
proof -
  let ?n = "unat (le16 (rec ! 0) (rec ! 1))"
  have len: "2 \<le> length rec" by (rule decode_record_length [OF assms(1)])
  have s0: "slice rec 0 2 = [rec ! 0, rec ! Suc 0]" using slice_two [of 0 rec] len by (simp add: numeral_2_eq_2)
  have d: "?n + 6 = length rec" "k = slice rec 2 (2 + ?n)" "c = from_le (slice rec (2 + ?n) (6 + ?n))"
    using assms(1)
    by (auto simp: decode_record_def Let_def s0 le16_def get_range_Some index_range_def obind_iffs
        checked_add_u64_Some add_ac split: if_splits)
  have "unat (rec ! 1) < 16" using d(1) assms(2) le16_nat [of "rec ! 0" "rec ! 1"] by (simp add: layout_defs)
  then show "validated_key rec = Ok k"
    using len d by (simp add: validated_key_def int_cell_iff short_cell_iff index_range_def)
  show "validated_child rec = Ok c"
    using len d by (simp add: validated_child_def index_range_def Let_def)
qed

lemma validate_slots_Ok:
  "validate_slots b no kind is = Ok () \<Longrightarrow> i \<in> set is \<Longrightarrow>
   \<exists>rec d. page_slot b i = Ok rec \<and> decode_record rec no kind = Ok d"
  by (induction "is") (auto simp: obind_iffs)

lemma decode_record_leaf: "decode_record rec no PageLeaf = Ok d \<Longrightarrow> \<exists>k v ov. d = LeafRecord k v ov"
  by (auto simp: decode_record_def Let_def obind_iffs split: if_splits)

lemma decode_record_interior: "decode_record rec no PageInterior = Ok d \<Longrightarrow> \<exists>k c. d = InteriorRecord k c"
  by (auto simp: decode_record_def Let_def obind_iffs split: if_splits)

lemma decode_record_not_Panic: "decode_record rec no kind \<noteq> Panic"
  by (auto simp: decode_record_def Let_def obind_iffs get_range_Some index_range_def checked_add_u64_Some
      split: if_splits option.splits)

section \<open>Properties\<close>

text \<open>
  C33: Every record the writer builds within the record limit decodes to exactly what was encoded:
  a leaf cell in each of its three encodings, an overflow marker, and an interior separator.
\<close>

theorem record_roundtrip:
  "(4 + length key + length val \<le> MAX_RECORD_LEN \<longrightarrow>
      decode_record (enc_leaf key val compact_cells) no PageLeaf = Ok (LeafRecord key val False)) \<and>
   (16 + length key \<le> MAX_RECORD_LEN \<longrightarrow>
      decode_record (enc_leaf_marker key (enc_marker total_len head crc)) no PageLeaf =
        Ok (LeafRecord key (enc_marker total_len head crc) True)) \<and>
   (6 + length key \<le> MAX_RECORD_LEN \<longrightarrow>
      decode_record (enc_interior key child) no PageInterior = Ok (InteriorRecord key child))"
  using decode_enc_leaf decode_enc_leaf_marker [of key "enc_marker total_len head crc"] decode_enc_interior
  by (auto simp: enc_marker_def)

theorem record_roundtrip_witness:
  "decode_record (enc_leaf [0x82, 1, 2] [9] True) 5 PageLeaf = Ok (LeafRecord [0x82, 1, 2] [9] False) \<and>
   decode_record (enc_interior [7] 11) 5 PageInterior = Ok (InteriorRecord [7] 11)"
  using record_roundtrip [of "[0x82, 1, 2]" "[9]" True 5] record_roundtrip [of "[7]" "[]" False 5 0 0 0 11]
  by (simp add: MAX_RECORD_LEN_def layout_defs)

text \<open>
  C34: The boundary the unchecked readers rely on: on a page that was opened and whose records were
  validated, they never panic, and they return what the checked decoder returns for every entry.
\<close>

theorem validated_readers_agree:
  assumes "open_inner crc b no v = Ok b" "validate_records b = Ok ()" "page_kind_of b = Ok kind"
    and "i < nentries b" "page_slot b i = Ok rec"
  shows "(kind = PageLeaf \<longrightarrow> (\<exists>key val ov. decode_record rec no kind = Ok (LeafRecord key val ov) \<and>
            validated_key rec = Ok key \<and> validated_leaf rec = Ok (key, val, ov))) \<and>
         (kind = PageInterior \<longrightarrow> (\<exists>key child. decode_record rec no kind = Ok (InteriorRecord key child) \<and>
            validated_key rec = Ok key \<and> validated_child rec = Ok child))"
proof -
  note o = open_inner_Ok [OF assms(1)]
  have len: "length rec \<le> PAGE_SIZE"
    using assms(5) o(2) by (auto simp: page_slot_def split: if_splits)
  have no: "page_page_no b = no" using o(3) by (simp add: page_page_no_def)
  have dec: "\<exists>d. decode_record rec no kind = Ok d" if "kind = PageLeaf \<or> kind = PageInterior"
  proof -
    have "validate_slots b no kind [0..<nentries b] = Ok ()"
      using assms(2,3) no that by (auto simp: validate_records_def)
    then show ?thesis using validate_slots_Ok [of b no kind _ i] assms(4,5) by fastforce
  qed
  show ?thesis
  proof (intro conjI impI)
    assume k: "kind = PageLeaf"
    then obtain key val ov where "decode_record rec no PageLeaf = Ok (LeafRecord key val ov)"
      using dec decode_record_leaf [of rec no] by auto
    then show "\<exists>key val ov. decode_record rec no kind = Ok (LeafRecord key val ov) \<and>
        validated_key rec = Ok key \<and> validated_leaf rec = Ok (key, val, ov)"
      using decode_leaf_readers k by blast
  next
    assume k: "kind = PageInterior"
    then obtain key child where "decode_record rec no PageInterior = Ok (InteriorRecord key child)"
      using dec decode_record_interior [of rec no] by auto
    then show "\<exists>key child. decode_record rec no kind = Ok (InteriorRecord key child) \<and>
        validated_key rec = Ok key \<and> validated_child rec = Ok child"
      using decode_interior_readers len k by blast
  qed
qed

text \<open>A leaf with one record, the concrete page of the witness.\<close>

definition one_row_leaf :: bytes where
  "one_row_leaf =
     seal crc32c_append (case insert_slot fresh_leaf 0 (enc_leaf [7] [9] False) of Ok b \<Rightarrow> b | _ \<Rightarrow> []) 1"

lemma one_row_leaf_facts:
  "open_inner crc32c_append one_row_leaf 3 True = Ok one_row_leaf"
  "page_kind_of one_row_leaf = Ok PageLeaf" "page_slots one_row_leaf = [enc_leaf [7] [9] False]"
  "nentries one_row_leaf = 1" "validate_records one_row_leaf = Ok ()"
proof -
  obtain b where b: "insert_slot fresh_leaf 0 (enc_leaf [7] [9] False) = Ok b" "page_wf b"
      "page_slots b = [enc_leaf [7] [9] False]" "page_header b PageLeaf 7 3"
    using insert_slot_ok [OF fresh_leaf_facts(2), of 0 "enc_leaf [7] [9] False"]
    by (auto simp: fresh_leaf_facts layout_defs enc_leaf_def)
  let ?s = "seal crc32c_append b 1"
  have s: "one_row_leaf = ?s" by (simp add: one_row_leaf_def b(1))
  note f = seal_fields [OF page_wf_bounds(1) [OF b(2)], where crc = crc32c_append and g = 1]
  have hd: "page_header ?s PageLeaf 7 3" by (rule sealed_header [OF b(2,4)])
  show o: "open_inner crc32c_append one_row_leaf 3 True = Ok one_row_leaf"
    unfolding s by (rule open_inner_accepts [OF sealed_slots(2) [OF b(2)] hd f(3) f(4)])
  show k: "page_kind_of one_row_leaf = Ok PageLeaf"
    using hd by (simp add: s page_kind_of_def page_header_def page_kind_from_u16_def)
  show sl: "page_slots one_row_leaf = [enc_leaf [7] [9] False]"
    by (simp add: s sealed_slots [OF b(2)] b(3))
  show n: "nentries one_row_leaf = 1" using arg_cong [OF sl, of length] by simp
  have "page_slot one_row_leaf 0 = Ok (enc_leaf [7] [9] False)"
    using open_inner_Ok(2,5,6,7) [OF o] n nth_page_slots [of 0 one_row_leaf] sl
    by (auto simp: page_slot_def slots_in_bounds_iff layout_defs)
  then show "validate_records one_row_leaf = Ok ()"
    using k n hd by (simp add: validate_records_def s page_page_no_def page_header_def decode_enc_leaf
        MAX_RECORD_LEN_def layout_defs)
qed

lemma one_row_leaf_tree: "page_tree_id one_row_leaf = 7"
proof -
  obtain b where b: "insert_slot fresh_leaf 0 (enc_leaf [7] [9] False) = Ok b" "page_wf b" "page_header b PageLeaf 7 3"
    using insert_slot_ok [OF fresh_leaf_facts(2), of 0 "enc_leaf [7] [9] False"]
    by (auto simp: fresh_leaf_facts layout_defs enc_leaf_def)
  show ?thesis using sealed_header [OF b(2,3)] by (simp add: one_row_leaf_def b(1) page_tree_id_def page_header_def)
qed

theorem validated_readers_agree_witness:
  "\<exists>rec. page_slot one_row_leaf 0 = Ok rec \<and> validated_key rec = Ok [7] \<and>
     validated_leaf rec = Ok ([7], [9], False)"
proof -
  have s: "page_slot one_row_leaf 0 = Ok (enc_leaf [7] [9] False)"
    using open_inner_Ok(2,5,6,7) [OF one_row_leaf_facts(1)] one_row_leaf_facts(3,4)
      nth_page_slots [of 0 one_row_leaf]
    by (auto simp: page_slot_def slots_in_bounds_iff layout_defs)
  have "decode_record (enc_leaf [7] [9] False) 3 PageLeaf = Ok (LeafRecord [7] [9] False)"
    by (rule decode_enc_leaf) (simp add: MAX_RECORD_LEN_def layout_defs)
  then show ?thesis
    using validated_readers_agree [OF one_row_leaf_facts(1,5,2) _ s] one_row_leaf_facts(4) s by auto
qed

end
