(* ===== verification/Btree_Split.thy ===== *)
theory Btree_Split
  imports Tree_Record
begin

text \<open>
  How the B-tree divides records over pages (core/kernel/src/btree.rs): building a page from a run of
  records, the two-way split, and the planner that redistributes the cells of neighbouring leaves.
  A cell costs its length plus one directory entry. The planner is related to the existence of a
  contiguous partition, the specification its test uses as an oracle.
\<close>

section \<open>Building a page\<close>

definition build_page_into :: "bytes \<Rightarrow> page_kind \<Rightarrow> u16 \<Rightarrow> u32 \<Rightarrow> bytes list \<Rightarrow> u32 \<Rightarrow> bytes kresult" where
  "build_page_into dst kind tree_id page_no recs child0_or_next =
     obind (page_init dst kind tree_id page_no) (\<lambda>p.
     obind (push_records nentries insert_slot p recs) (\<lambda>p.
     Ok (finalise (set_next_leaf p child0_or_next) 0)))"

definition build_page :: "page_kind \<Rightarrow> u16 \<Rightarrow> u32 \<Rightarrow> bytes list \<Rightarrow> u32 \<Rightarrow> bytes kresult" where
  "build_page kind tree_id page_no recs child0_or_next =
     build_page_into (replicate PAGE_SIZE 0) kind tree_id page_no recs child0_or_next"

section \<open>The two-way split\<close>

text \<open>Rust's \<open>abs_diff\<close>.\<close>

definition abs_diff :: "nat \<Rightarrow> nat \<Rightarrow> nat" where
  "abs_diff a b = (a - b) + (b - a)"

fun split_loop :: "nat \<Rightarrow> nat \<Rightarrow> nat list \<Rightarrow> nat \<Rightarrow> nat \<Rightarrow> (nat \<times> nat) option \<Rightarrow> (nat \<times> nat) option" where
  "split_loop total_size usable [] j acc best = best"
| "split_loop total_size usable (cell # sizes) j acc best =
     (let acc = acc + cell; left = acc; right = total_size - acc;
          best = (if left \<le> usable \<and> right \<le> usable
                  then let imbalance = abs_diff left right in
                    if (case best of None \<Rightarrow> True | Some (b, _) \<Rightarrow> imbalance < b)
                    then Some (imbalance, j + 1) else best
                  else best)
      in split_loop total_size usable sizes (j + 1) acc best)"

definition split_sizes :: "nat list \<Rightarrow> nat \<Rightarrow> nat option" where
  "split_sizes sizes usable =
     map_option snd (split_loop (sum_list sizes) usable (take (length sizes - 1) sizes) 0 0 None)"

definition split_point :: "bytes list \<Rightarrow> nat \<Rightarrow> nat option" where
  "split_point recs usable = split_sizes (map (\<lambda>r. length r + 4) recs) usable"

record slot_ref =
  page_idx :: byte
  ref_off :: u16
  ref_len :: u16

definition split_point_ref :: "slot_ref list \<Rightarrow> nat \<Rightarrow> nat option" where
  "split_point_ref slots usable = split_sizes (map (\<lambda>s. unat (ref_len s) + 4) slots) usable"

section \<open>The neighbour planner\<close>

text \<open>\<open>Option\<close> with \<open>?\<close> is an outcome whose only error is \<open>None\<close>; an index out of range is \<open>Panic\<close>.\<close>

type_synonym 'a choice = "(unit, 'a) outcome"

fun prefix_sums :: "nat \<Rightarrow> nat list \<Rightarrow> nat list choice" where
  "prefix_sums acc [] = Ok [acc]"
| "prefix_sums acc (cell # sizes) =
     obind (of_option () (checked_add_u64 acc cell)) (\<lambda>next.
     obind (prefix_sums next sizes) (\<lambda>rest. Ok (acc # rest)))"

function extend_end :: "nat list \<Rightarrow> nat \<Rightarrow> nat \<Rightarrow> nat \<Rightarrow> nat \<Rightarrow> nat" where
  "extend_end prefix n usable i end =
     (if end < n \<and> prefix ! (end + 1) - prefix ! i \<le> usable
      then extend_end prefix n usable i (end + 1) else end)"
  by auto
termination by (relation "measure (\<lambda>(prefix, n, usable, i, end). n - end)") auto

declare extend_end.simps [simp del]

fun ends_loop :: "nat list \<Rightarrow> nat \<Rightarrow> nat \<Rightarrow> nat \<Rightarrow> nat list \<Rightarrow> nat list" where
  "ends_loop prefix n usable end [] = []"
| "ends_loop prefix n usable end (i # is) =
     (let end = extend_end prefix n usable i end in end # ends_loop prefix n usable end is)"

fun needed_loop :: "nat list \<Rightarrow> nat list \<Rightarrow> nat list \<Rightarrow> nat list" where
  "needed_loop ends [] needed = needed"
| "needed_loop ends (i # is) needed = needed_loop ends is (needed[i := 1 + needed ! (ends ! i)])"

fun best_end :: "nat list \<Rightarrow> nat list \<Rightarrow> nat \<Rightarrow> nat \<Rightarrow> nat \<Rightarrow> nat list \<Rightarrow> (nat \<times> nat) option \<Rightarrow> (nat \<times> nat) option" where
  "best_end prefix needed left target begin [] best = best"
| "best_end prefix needed left target begin (end # es) best =
     (if needed ! end > left then best_end prefix needed left target begin es best
      else let delta = abs_diff (prefix ! end - prefix ! begin) target in
        best_end prefix needed left target begin es
          (if (case best of None \<Rightarrow> True | Some (_, old) \<Rightarrow> delta < old) then Some (end, delta) else best))"

fun cuts_loop :: "nat list \<Rightarrow> nat list \<Rightarrow> nat list \<Rightarrow> nat \<Rightarrow> nat \<Rightarrow> nat list \<Rightarrow> nat list \<Rightarrow> nat list choice" where
  "cuts_loop prefix ends needed n groups [] cuts = Ok cuts"
| "cuts_loop prefix ends needed n groups (grp # gs) cuts =
     (let begin = last cuts; left = groups - grp - 1 in
      if begin \<ge> length ends then Panic
      else let target = (prefix ! n - prefix ! begin) div (left + 1);
               best = best_end prefix needed left target begin
                        [begin + 1 ..< Suc (min (ends ! begin) (n - left))] None
           in obind (of_option () best) (\<lambda>(end, _).
              cuts_loop prefix ends needed n groups gs (cuts @ [end])))"

definition neighbor_cell_cuts :: "nat list \<Rightarrow> nat \<Rightarrow> nat \<Rightarrow> nat list choice" where
  "neighbor_cell_cuts sizes usable existing =
     (if sizes = [] \<or> list_ex (\<lambda>v. v = 0 \<or> v > usable) sizes then Err ()
      else let n = length sizes in
        obind (prefix_sums 0 sizes) (\<lambda>prefix.
        let ends = ends_loop prefix n usable 0 [0..<n];
            needed = needed_loop ends (rev [0..<n]) (replicate (n + 1) 0);
            groups = max existing (needed ! 0)
        in if groups > existing + 1 \<or> n < groups then Err ()
           else obind (cuts_loop prefix ends needed n groups [0..<groups - 1] [0]) (\<lambda>cuts.
                Ok (cuts @ [n]))))"

definition neighbor_cell_cuts_into :: "nat list \<Rightarrow> nat \<Rightarrow> nat \<Rightarrow> (unit, bool \<times> nat list) outcome" where
  "neighbor_cell_cuts_into sizes usable existing =
     (case neighbor_cell_cuts sizes usable existing of
        Ok cuts \<Rightarrow> Ok (True, cuts) | Err _ \<Rightarrow> Ok (False, []) | Panic \<Rightarrow> Panic)"

section \<open>The split picks the most balanced fitting cut\<close>

definition cut_fits :: "nat list \<Rightarrow> nat \<Rightarrow> nat \<Rightarrow> bool" where
  "cut_fits sizes usable m \<longleftrightarrow>
     0 < m \<and> m < length sizes \<and> sum_list (take m sizes) \<le> usable \<and> sum_list (drop m sizes) \<le> usable"

definition imbalance_at :: "nat list \<Rightarrow> nat \<Rightarrow> nat" where
  "imbalance_at sizes m = abs_diff (sum_list (take m sizes)) (sum_list (drop m sizes))"

definition cell_sizes :: "bytes list \<Rightarrow> nat list" where
  "cell_sizes recs = map (\<lambda>r. length r + SLOT_LEN) recs"

text \<open>\<open>best\<close> is the least imbalance among the fitting cuts up to \<open>j\<close>.\<close>

definition best_upto :: "nat list \<Rightarrow> nat \<Rightarrow> nat \<Rightarrow> (nat \<times> nat) option \<Rightarrow> bool" where
  "best_upto sizes usable j best \<longleftrightarrow>
     (case best of
        None \<Rightarrow> \<forall>m \<le> j. \<not> cut_fits sizes usable m
      | Some (b, m) \<Rightarrow> m \<le> j \<and> cut_fits sizes usable m \<and> b = imbalance_at sizes m \<and>
          (\<forall>k \<le> j. cut_fits sizes usable k \<longrightarrow> b \<le> imbalance_at sizes k))"

lemma sum_take_drop: "sum_list (take m xs) + sum_list (drop m xs) = sum_list (xs :: nat list)"
  by (metis append_take_drop_id sum_list_append)

lemma split_loop_best:
  assumes "best_upto sizes usable j best" "rest = slice sizes j (length sizes - 1)" "j < length sizes"
  shows "best_upto sizes usable (length sizes - 1)
    (split_loop (sum_list sizes) usable rest j (sum_list (take j sizes)) best)"
  using assms
proof (induction rest arbitrary: j best)
  case Nil
  then have "j = length sizes - 1" by (simp add: slice_def)
  then show ?case using Nil by simp
next
  case (Cons cell rest)
  have j: "Suc j < length sizes" using Cons.prems(2,3)
    by (cases "Suc j < length sizes") (auto simp: slice_def)
  have "drop j sizes = sizes ! j # drop (Suc j) sizes" using j by (simp add: Cons_nth_drop_Suc)
  moreover have "length sizes - 1 - j = Suc (length sizes - 1 - Suc j)" using j by simp
  ultimately have rest: "cell = sizes ! j" "rest = slice sizes (Suc j) (length sizes - 1)"
    using Cons.prems(2) by (simp_all add: slice_def)
  have acc: "sum_list (take j sizes) + cell = sum_list (take (Suc j) sizes)"
    using j by (simp add: take_Suc_conv_app_nth rest)
  have right: "sum_list sizes - sum_list (take (Suc j) sizes) = sum_list (drop (Suc j) sizes)"
    using sum_take_drop [of "Suc j" sizes] by simp
  let ?best = "if cut_fits sizes usable (Suc j)
      then if (case best of None \<Rightarrow> True | Some (b, _) \<Rightarrow> imbalance_at sizes (Suc j) < b)
        then Some (imbalance_at sizes (Suc j), Suc j) else best else best"
  have "best_upto sizes usable (Suc j) ?best"
    using Cons.prems(1) by (auto simp: best_upto_def le_Suc_eq split: option.splits prod.splits)
  moreover have "split_loop (sum_list sizes) usable (cell # rest) j (sum_list (take j sizes)) best =
      split_loop (sum_list sizes) usable rest (Suc j) (sum_list (take (Suc j) sizes)) ?best"
    using j by (cases best) (auto simp: Let_def acc right cut_fits_def imbalance_at_def)
  ultimately show ?case using Cons.IH [OF _ rest(2) j] by simp
qed

lemma split_sizes_spec:
  "case split_sizes sizes usable of
     None \<Rightarrow> \<forall>m. \<not> cut_fits sizes usable m
   | Some m \<Rightarrow> cut_fits sizes usable m \<and>
       (\<forall>k. cut_fits sizes usable k \<longrightarrow> imbalance_at sizes m \<le> imbalance_at sizes k)"
proof (cases "sizes = []")
  case True
  then show ?thesis by (simp add: split_sizes_def cut_fits_def)
next
  case False
  have "best_upto sizes usable (length sizes - 1)
      (split_loop (sum_list sizes) usable (take (length sizes - 1) sizes) 0 0 None)"
    using split_loop_best [of sizes usable 0 None "take (length sizes - 1) sizes"] False
    by (simp add: best_upto_def cut_fits_def slice_def)
  moreover have "k \<le> length sizes - 1" if "cut_fits sizes usable k" for k
    using that by (auto simp: cut_fits_def)
  ultimately show ?thesis
    by (auto simp: split_sizes_def best_upto_def split: option.splits)
qed

section \<open>The planner finds a partition whenever there is one\<close>

text \<open>
  The specification: \<open>es\<close> lists the ends of consecutive non-empty groups of cells, from cell \<open>i\<close> to
  the last one, each group fitting in \<open>usable\<close> bytes.
\<close>

fun partition_from :: "nat list \<Rightarrow> nat \<Rightarrow> nat \<Rightarrow> nat list \<Rightarrow> bool" where
  "partition_from sizes usable i [] \<longleftrightarrow> i = length sizes"
| "partition_from sizes usable i (e # es) \<longleftrightarrow>
     i < e \<and> e \<le> length sizes \<and> sum_list (slice sizes i e) \<le> usable \<and> partition_from sizes usable e es"

abbreviation psum :: "nat list \<Rightarrow> nat \<Rightarrow> nat" where
  "psum sizes i \<equiv> sum_list (take i sizes)"

lemma psum_mono: "i \<le> j \<Longrightarrow> psum sizes i \<le> psum sizes j"
  using sum_take_drop [of i "take j sizes"] by (simp add: min_def)

lemma sum_slice: "i \<le> j \<Longrightarrow> sum_list (slice sizes i j) = psum sizes j - psum sizes i"
proof -
  assume "i \<le> j"
  then have "take j sizes = take i sizes @ slice sizes i j"
    using slice_split [of 0 i j sizes] by (simp add: slice_def)
  then show ?thesis by simp
qed

lemma psum_Suc: "i < length sizes \<Longrightarrow> psum sizes (Suc i) = psum sizes i + sizes ! i"
  by (simp add: take_Suc_conv_app_nth)

lemma prefix_sums_eq:
  "prefix_sums acc sizes =
     (if acc + sum_list sizes \<le> u64_max \<or> sizes = []
      then Ok (map (\<lambda>i. acc + psum sizes i) [0..<Suc (length sizes)]) else Err ())"
proof (induction sizes arbitrary: acc)
  case (Cons cell sizes)
  have "map (\<lambda>i. acc + psum (cell # sizes) i) [0..<Suc (length (cell # sizes))] =
      acc # map (\<lambda>i. acc + cell + psum sizes i) [0..<Suc (length sizes)]"
    by (simp only: upt_rec [of 0 "Suc (length (cell # sizes))"]) (simp add: map_Suc_upt [symmetric] del: upt_Suc)
  then show ?case
    by (auto simp: Cons.IH checked_add_u64_def simp del: upt_Suc)
qed simp

text \<open>\<open>furthest\<close>: the longest group starting at \<open>i\<close> ends at \<open>e\<close>.\<close>

definition furthest :: "nat list \<Rightarrow> nat \<Rightarrow> nat \<Rightarrow> nat \<Rightarrow> bool" where
  "furthest sizes usable i e \<longleftrightarrow>
     i < e \<and> e \<le> length sizes \<and> psum sizes e - psum sizes i \<le> usable \<and>
     (e < length sizes \<longrightarrow> usable < psum sizes (Suc e) - psum sizes i)"

lemma extend_end_furthest:
  assumes "\<And>k. k \<le> length sizes \<Longrightarrow> pre ! k = psum sizes k" "i \<le> e" "e \<le> length sizes"
    and "psum sizes e - psum sizes i \<le> usable" "i < length sizes" "sizes ! i \<le> usable"
  shows "furthest sizes usable i (extend_end pre (length sizes) usable i e)"
  using assms(2-4)
proof (induction "length sizes - e" arbitrary: e rule: less_induct)
  case less
  show ?case
  proof (cases "e < length sizes \<and> psum sizes (Suc e) - psum sizes i \<le> usable")
    case True
    then have "length sizes - Suc e < length sizes - e" by linarith
    with True show ?thesis
      using less.hyps [of "Suc e"] less.prems assms(1,5) by (simp add: extend_end.simps [of _ _ _ _ e])
  next
    case False
    then have "e \<noteq> i" using assms(5,6) psum_Suc [of i sizes] by auto
    then show ?thesis
      using False less.prems assms(1,5)
      by (auto simp: extend_end.simps [of _ _ _ _ e] furthest_def)
  qed
qed

lemma ends_loop_furthest:
  assumes "\<And>k. k \<le> length sizes \<Longrightarrow> pre ! k = psum sizes k" "\<forall>v \<in> set sizes. v \<le> usable"
    and "i \<le> e" "e \<le> length sizes" "psum sizes e - psum sizes i \<le> usable" "k < length sizes - i"
  shows "furthest sizes usable (i + k) (ends_loop pre (length sizes) usable e [i..<length sizes] ! k)"
  using assms(3-)
proof (induction "length sizes - i" arbitrary: i e k)
  case (Suc m)
  let ?e = "extend_end pre (length sizes) usable i e"
  have i: "i < length sizes" using Suc by simp
  have f: "furthest sizes usable i ?e"
    using extend_end_furthest [of sizes pre, OF assms(1)] Suc.prems i assms(2) by simp
  have le: "psum sizes i \<le> psum sizes (Suc i)" by (rule psum_mono) simp
  show ?case
  proof (cases k)
    case 0
    then show ?thesis using f i by (simp add: upt_conv_Cons Let_def)
  next
    case (Suc k')
    have "m = length sizes - Suc i" "k' < length sizes - Suc i" using Suc.hyps(2) Suc.prems(4) Suc by auto
    moreover have "Suc i \<le> ?e" "?e \<le> length sizes" "psum sizes ?e - psum sizes (Suc i) \<le> usable"
      using f le by (auto simp: furthest_def)
    ultimately have "furthest sizes usable (Suc i + k')
        (ends_loop pre (length sizes) usable ?e [Suc i..<length sizes] ! k')"
      using Suc.hyps(1) by blast
    then show ?thesis using Suc i by (simp add: upt_conv_Cons Let_def)
  qed
qed simp

lemma length_ends_loop [simp]: "length (ends_loop pre n usable e is) = length is"
  by (induction "is" arbitrary: e) (auto simp: Let_def)

text \<open>\<open>need\<close>: the recursion the \<open>needed\<close> table satisfies.\<close>

definition need :: "nat \<Rightarrow> nat list \<Rightarrow> nat list \<Rightarrow> nat \<Rightarrow> bool" where
  "need n ends needed m \<longleftrightarrow>
     length needed = Suc n \<and> needed ! n = 0 \<and> (\<forall>i. m \<le> i \<and> i < n \<longrightarrow> needed ! i = 1 + needed ! (ends ! i))"

lemma needed_loop_need:
  assumes "\<And>i. i < n \<Longrightarrow> i < ends ! i \<and> ends ! i \<le> n" "need n ends needed m" "m \<le> n"
  shows "need n ends (needed_loop ends (rev [0..<m]) needed) 0"
  using assms(2,3)
proof (induction m arbitrary: needed)
  case (Suc m)
  have "needed[m := 1 + needed ! (ends ! m)] ! i = 1 + needed[m := 1 + needed ! (ends ! m)] ! (ends ! i)"
    if "m \<le> i" "i < n" for i
    using that Suc.prems assms(1) [of i] by (cases "i = m") (auto simp: need_def)
  then have "need n ends (needed[m := 1 + needed ! (ends ! m)]) m"
    using Suc.prems by (auto simp: need_def)
  then show ?case using Suc by simp
qed simp

text \<open>What the tables say together, for the proofs below.\<close>

definition planned :: "nat list \<Rightarrow> nat \<Rightarrow> nat list \<Rightarrow> nat list \<Rightarrow> bool" where
  "planned sizes usable ends needed \<longleftrightarrow>
     length ends = length sizes \<and> (\<forall>i < length sizes. furthest sizes usable i (ends ! i)) \<and>
     need (length sizes) ends needed 0"

lemma planned_step:
  assumes "planned sizes usable ends needed" "i < length sizes"
  shows "furthest sizes usable i (ends ! i)" "needed ! i = 1 + needed ! (ends ! i)"
    "i < ends ! i" "ends ! i \<le> length sizes"
  using assms by (auto simp: planned_def need_def furthest_def)

lemma planned_end: "planned sizes usable ends needed \<Longrightarrow> needed ! length sizes = 0"
  by (simp add: planned_def need_def)

lemma furthest_max:
  assumes "furthest sizes usable i e" "i \<le> j" "j \<le> length sizes" "psum sizes j - psum sizes i \<le> usable"
  shows "j \<le> e"
proof (rule ccontr)
  assume "\<not> j \<le> e"
  then have "usable < psum sizes (Suc e) - psum sizes i" "psum sizes (Suc e) \<le> psum sizes j"
    using assms(1,3) psum_mono [of "Suc e" j sizes] by (auto simp: furthest_def)
  then show False using assms(4) by simp
qed

lemma needed_antimono:
  assumes "planned sizes usable ends needed"
  shows "i \<le> j \<Longrightarrow> j \<le> length sizes \<Longrightarrow> needed ! j \<le> needed ! i"
proof (induction "length sizes - i" arbitrary: i j rule: less_induct)
  case less
  show ?case
  proof (cases "j = length sizes")
    case True
    then show ?thesis using planned_end [OF assms] by simp
  next
    case False
    then have lt: "i < length sizes" "j < length sizes" using less.prems by auto
    note fi = planned_step [OF assms lt(1)] and fj = planned_step [OF assms lt(2)]
    have "ends ! i \<le> ends ! j"
    proof (cases "ends ! i \<le> j")
      case False
      have "psum sizes i \<le> psum sizes j" by (rule psum_mono [OF less.prems(1)])
      then have "psum sizes (ends ! i) - psum sizes j \<le> usable"
        using fi(1) by (auto simp: furthest_def)
      then show ?thesis using furthest_max [OF fj(1)] False fi(4) by simp
    qed (use fj(3) in simp)
    then have "needed ! (ends ! j) \<le> needed ! (ends ! i)"
      using less.hyps [of "ends ! i" "ends ! j"] fi(3) fj(4) lt(1) by simp
    then show ?thesis using fi(2) fj(2) by simp
  qed
qed

lemma needed_upper:
  assumes "planned sizes usable ends needed"
  shows "i \<le> length sizes \<Longrightarrow> needed ! i \<le> length sizes - i"
proof (induction "length sizes - i" arbitrary: i rule: less_induct)
  case less
  show ?case
  proof (cases "i = length sizes")
    case True
    then show ?thesis using planned_end [OF assms] by simp
  next
    case False
    then have "i < length sizes" using less.prems by simp
    note f = planned_step [OF assms this]
    have "length sizes - ends ! i < length sizes - i" using f(3,4) by linarith
    then show ?thesis using less.hyps [of "ends ! i"] f(2-4) by simp
  qed
qed

lemma partition_needs:
  assumes "planned sizes usable ends needed"
  shows "partition_from sizes usable i es \<Longrightarrow> needed ! i \<le> length es \<and> length es \<le> length sizes - i"
proof (induction es arbitrary: i)
  case Nil
  then show ?case using planned_end [OF assms] by simp
next
  case (Cons e es)
  then have i: "i < length sizes" "i < e" "e \<le> length sizes" by auto
  note f = planned_step [OF assms i(1)]
  have "psum sizes e - psum sizes i \<le> usable" using Cons.prems i(2) by (simp add: sum_slice)
  then have "e \<le> ends ! i" using furthest_max [OF f(1)] i by simp
  then have "needed ! (ends ! i) \<le> needed ! e" using needed_antimono [OF assms] f(4) by blast
  then show ?case using Cons.IH [of e] Cons.prems f(2) i by auto
qed

lemma partition_cells:
  "partition_from sizes usable i es \<Longrightarrow> i \<le> k \<Longrightarrow> k < length sizes \<Longrightarrow> sizes ! k \<le> usable"
proof (induction es arbitrary: i)
  case (Cons e es)
  show ?case
  proof (cases "k < e")
    case True
    have "sizes ! k = slice sizes i e ! (k - i)" "k - i < length (slice sizes i e)"
      using True Cons.prems by (auto simp: nth_slice)
    then have "sizes ! k \<le> sum_list (slice sizes i e)" by (simp add: elem_le_sum_list)
    then show ?thesis using Cons.prems by simp
  qed (use Cons in auto)
qed simp

lemma best_end_None:
  "best_end pre needed left target begin es best = None \<Longrightarrow>
   best = None \<and> (\<forall>e \<in> set es. left < needed ! e)"
proof (induction es arbitrary: best)
  case (Cons a es)
  show ?case
  proof (cases "left < needed ! a")
    case True
    then show ?thesis using Cons by simp
  next
    case False
    let ?d = "abs_diff (pre ! a - pre ! begin) target"
    let ?best = "if (case best of None \<Rightarrow> True | Some (_, old) \<Rightarrow> ?d < old) then Some (a, ?d) else best"
    have "best_end pre needed left target begin es ?best = None"
      using Cons.prems False by (simp only: best_end.simps if_False Let_def)
    then have "?best = None" using Cons.IH by blast
    then show ?thesis by (cases best) (auto split: if_splits)
  qed
qed simp

lemma best_end_Some:
  "best_end pre needed left target begin es best = Some (e, d) \<Longrightarrow>
   best = Some (e, d) \<or> e \<in> set es \<and> needed ! e \<le> left"
proof (induction es arbitrary: best)
  case (Cons a es)
  then show ?case
    using Cons.IH [of best] Cons.IH [of "Some (a, abs_diff (pre ! a - pre ! begin) target)"]
    by (auto simp: Let_def split: if_splits)
qed simp

lemma cuts_loop_partition:
  assumes "planned sizes usable ends needed"
    and "g < groups" "cuts \<noteq> []" "last cuts < length sizes"
    and "needed ! last cuts \<le> groups - g" "groups - g \<le> length sizes - last cuts"
  shows "\<exists>es. cuts_loop pre ends needed (length sizes) groups [g..<groups - 1] cuts = Ok (cuts @ es) \<and>
    length es = groups - 1 - g \<and> partition_from sizes usable (last cuts) (es @ [length sizes])"
  using assms(2-)
proof (induction "groups - 1 - g" arbitrary: g cuts)
  case 0
  let ?b = "last cuts"
  note f = planned_step [OF assms(1) 0(4)]
  have "groups - g = 1" using 0 by simp
  then have "needed ! (ends ! ?b) = 0" using 0(5) f(2) by simp
  then have "ends ! ?b = length sizes"
    using planned_step(2) [OF assms(1), of "ends ! ?b"] f(4) by (cases "ends ! ?b < length sizes") auto
  then show ?case using f(1) 0 by (simp add: furthest_def sum_slice)
next
  case (Suc m)
  let ?n = "length sizes" and ?b = "last cuts" and ?left = "groups - g - 1"
  note f = planned_step [OF assms(1) Suc(5)]
  let ?es = "[?b + 1 ..< Suc (min (ends ! ?b) (?n - ?left))]"
  let ?best = "best_end pre needed ?left ((pre ! ?n - pre ! ?b) div (?left + 1)) ?b ?es None"
  have left: "?left = Suc m" using Suc(2) by simp
  have room: "?b + 1 \<le> ?n - ?left" using Suc(7) left by simp
  let ?e = "min (ends ! ?b) (?n - ?left)"
  have "needed ! ?e \<le> ?left"
  proof (cases "ends ! ?b \<le> ?n - ?left")
    case True
    then show ?thesis using f(2) Suc(6) by simp
  next
    case False
    then show ?thesis using needed_upper [OF assms(1), of "?n - ?left"] room by simp
  qed
  moreover have "?e \<in> set ?es" using f(3) room by auto
  ultimately have "?best \<noteq> None" using best_end_None [of pre needed ?left _ ?b ?es None] by fastforce
  then obtain e d where best: "?best = Some (e, d)" by auto
  then have e: "?b < e" "e \<le> ends ! ?b" "e \<le> ?n - ?left" "needed ! e \<le> ?left"
    using best_end_Some [OF best] by auto
  have fit: "psum sizes e - psum sizes ?b \<le> usable"
    using f(1) psum_mono [OF e(2), of sizes] by (auto simp: furthest_def)
  have "\<exists>es. cuts_loop pre ends needed ?n groups [Suc g..<groups - 1] (cuts @ [e]) = Ok ((cuts @ [e]) @ es) \<and>
      length es = groups - 1 - Suc g \<and> partition_from sizes usable (last (cuts @ [e])) (es @ [?n])"
    using Suc(1) [of "Suc g" "cuts @ [e]"] Suc(2,3) e left room by simp
  then obtain es where es: "cuts_loop pre ends needed ?n groups [Suc g..<groups - 1] (cuts @ [e]) = Ok (cuts @ e # es)"
      "length es = groups - 1 - Suc g" "partition_from sizes usable e (es @ [?n])"
    by auto
  have "cuts_loop pre ends needed ?n groups [g..<groups - 1] cuts = Ok (cuts @ e # es)"
    using Suc(2,5) assms(1) best es(1)
    by (simp add: upt_conv_Cons Let_def planned_def del: upt_Suc)
  moreover have "partition_from sizes usable ?b ((e # es) @ [?n])"
    using e es(3) fit room by (simp add: sum_slice)
  ultimately show ?case using es(2) left by (intro exI [of _ "e # es"]) auto
qed

lemma planned_tables:
  assumes "\<forall>v \<in> set sizes. v \<le> usable" "sum_list sizes \<le> u64_max" "sizes \<noteq> []"
  defines "pre \<equiv> map (\<lambda>i. psum sizes i) [0..<Suc (length sizes)]"
  defines "ends \<equiv> ends_loop pre (length sizes) usable 0 [0..<length sizes]"
  shows "prefix_sums 0 sizes = Ok pre"
    and "planned sizes usable ends (needed_loop ends (rev [0..<length sizes]) (replicate (length sizes + 1) 0))"
proof -
  let ?n = "length sizes"
  show "prefix_sums 0 sizes = Ok pre" using assms(2) by (simp add: prefix_sums_eq pre_def)
  have pre: "pre ! k = psum sizes k" if "k \<le> ?n" for k
    unfolding pre_def using that by (simp del: upt_Suc)
  have f: "furthest sizes usable k (ends ! k)" if "k < ?n" for k
    using ends_loop_furthest [of sizes pre usable 0 0 k, OF pre assms(1)] that by (simp add: ends_def)
  then have "k < ends ! k \<and> ends ! k \<le> ?n" if "k < ?n" for k
    using that by (auto simp: furthest_def)
  then have "need ?n ends (needed_loop ends (rev [0..<?n]) (replicate (?n + 1) 0)) 0"
    by (rule needed_loop_need) (auto simp: need_def simp del: replicate_Suc)
  then show "planned sizes usable ends (needed_loop ends (rev [0..<?n]) (replicate (?n + 1) 0))"
    using f by (simp add: planned_def ends_def)
qed

lemma planner_refuses_big_cell:
  assumes "v \<in> set sizes" "usable < v"
  shows "neighbor_cell_cuts sizes usable existing = Err ()" "\<not> partition_from sizes usable 0 es"
proof -
  show "neighbor_cell_cuts sizes usable existing = Err ()"
    using assms by (auto simp: neighbor_cell_cuts_def list_ex_iff)
  obtain k where "k < length sizes" "sizes ! k = v" using assms(1) by (auto simp: in_set_conv_nth)
  then show "\<not> partition_from sizes usable 0 es"
    using partition_cells [of sizes usable 0 es k] assms(2) by auto
qed

lemma planner_cuts:
  assumes "\<forall>v \<in> set sizes. 0 < v \<and> v \<le> usable" "sum_list sizes \<le> u64_max" "sizes \<noteq> []"
  shows "(\<exists>es. neighbor_cell_cuts sizes usable existing = Ok (0 # es) \<and>
            partition_from sizes usable 0 es \<and> (length es = existing \<or> length es = existing + 1)) \<or>
         neighbor_cell_cuts sizes usable existing = Err () \<and>
            \<not> (\<exists>es. partition_from sizes usable 0 es \<and> (length es = existing \<or> length es = existing + 1))"
proof -
  let ?n = "length sizes"
  define pre where "pre = map (\<lambda>i. psum sizes i) [0..<Suc ?n]"
  define ends where "ends = ends_loop pre ?n usable 0 [0..<?n]"
  define needed where "needed = needed_loop ends (rev [0..<?n]) (replicate (?n + 1) 0)"
  define groups where "groups = max existing (needed ! 0)"
  have fits: "\<forall>v \<in> set sizes. v \<le> usable" using assms(1) by auto
  note t = planned_tables [OF fits assms(2,3), folded pre_def, folded ends_def, folded needed_def]
  have ok: "\<not> (sizes = [] \<or> list_ex (\<lambda>v. v = 0 \<or> v > usable) sizes)"
    using assms(1,3) by (auto simp: list_ex_iff)
  have n: "0 < ?n" using assms(3) by simp
  have eq: "neighbor_cell_cuts sizes usable existing =
      (if groups > existing + 1 \<or> ?n < groups then Err ()
       else obind (cuts_loop pre ends needed ?n groups [0..<groups - 1] [0]) (\<lambda>cuts. Ok (cuts @ [?n])))"
    by (simp only: neighbor_cell_cuts_def ok if_False Let_def t(1) obind.simps ends_def needed_def groups_def)
  show ?thesis
  proof (cases "groups > existing + 1 \<or> ?n < groups")
    case True
    have "existing < length es \<or> length es < existing" "length es \<noteq> existing + 1"
      if "partition_from sizes usable 0 es" for es
      using partition_needs [OF t(2) that] True needed_upper [OF t(2), of 0] by (auto simp: groups_def max_def split: if_splits)
    then show ?thesis using True eq by auto
  next
    case False
    have "0 < groups" using planned_step(2) [OF t(2) n] by (simp add: groups_def)
    moreover have g: "groups \<le> ?n" "needed ! 0 \<le> groups" using False by (auto simp: groups_def)
    ultimately obtain es where es: "cuts_loop pre ends needed ?n groups [0..<groups - 1] [0] = Ok ([0] @ es)"
        "length es = groups - 1 - 0" "partition_from sizes usable 0 (es @ [?n])"
      using cuts_loop_partition [OF t(2), of 0 groups "[0]" pre] n by auto
    have "neighbor_cell_cuts sizes usable existing = Ok (0 # es @ [?n])"
      using False es(1) eq by simp
    moreover have "length (es @ [?n]) = groups" using es(2) \<open>0 < groups\<close> by simp
    moreover have "groups = existing \<or> groups = existing + 1" using False by (auto simp: groups_def)
    ultimately show ?thesis using es(3) by (intro disjI1 exI [of _ "es @ [?n]"]) auto
  qed
qed

section \<open>A page built from records\<close>

lemma set_next_leaf_keeps:
  assumes "length b = 4096"
  shows "k \<le> 20 \<or> 24 \<le> j \<Longrightarrow> slice (set_next_leaf b p) j k = slice b j k"
    and "page_next_leaf (set_next_leaf b p) = p" "length (set_next_leaf b p) = 4096"
  using assms by (auto simp: set_next_leaf_def slice_put_at_other page_next_leaf_def rd_u32_same)

lemma finalise_keeps:
  assumes "length b = 4096"
  shows "k \<le> 24 \<or> 32 \<le> j \<Longrightarrow> slice (finalise b g) j k = slice b j k" "length (finalise b g) = 4096"
  using assms by (auto simp: finalise_def slice_put_at_other)

text \<open>A change confined to bytes 20 to 31 of the header keeps the records.\<close>

lemma page_wf_header_cong:
  assumes "page_wf b" "length c = 4096" "\<And>j k. k \<le> 20 \<or> 32 \<le> j \<Longrightarrow> slice c j k = slice b j k"
  shows "page_wf c" "page_slots c = page_slots b" "free_space c = free_space b"
proof -
  note w = page_wf_bounds [OF assms(1)]
  have f: "nentries c = nentries b" "free_ptr c = free_ptr b"
    by (simp_all add: nentries_def free_ptr_def rd_u16_def assms(3))
  have so: "slot_off c i = slot_off b i" "slot_len c i = slot_len b i" for i
    by (simp_all add: slot_off_def slot_len_def rd_u16_def layout_defs assms(3))
  have "32 \<le> slot_off b i" if "i < nentries b" for i using w(2) w(4) [OF that] by simp
  then show sl: "page_slots c = page_slots b"
    by (intro nth_equalityI) (simp_all add: f nth_page_slots so assms(3))
  show "page_wf c" using w by (intro page_wfI) (simp_all add: f so sl assms(2))
  show "free_space c = free_space b" by (simp add: free_space_def f)
qed

lemma finalised_page:
  fixes p :: u32
  assumes "page_wf b"
  defines "c \<equiv> finalise (set_next_leaf b p) 0"
  shows "page_wf c" "page_slots c = page_slots b" "page_next_leaf c = p"
    and "page_header b kind t no \<Longrightarrow> page_header c kind t no"
proof -
  note l = page_wf_bounds(1) [OF assms(1)]
  note s = set_next_leaf_keeps [OF l, where p = p]
  note f = finalise_keeps [OF s(3), where g = 0]
  have keep: "slice c j k = slice b j k" if "k \<le> 20 \<or> 32 \<le> j" for j k
    using that f(1) [of k j] s(1) [of k j] by (auto simp: c_def)
  show "page_wf c" "page_slots c = page_slots b"
    using page_wf_header_cong [OF assms(1) _ keep] f(2) by (simp_all add: c_def)
  show "page_next_leaf c = p" using s(2) f(1) by (simp add: c_def page_next_leaf_def rd_u32_def)
  show "page_header b kind t no \<Longrightarrow> page_header c kind t no"
    by (erule page_header_cong) (auto intro: keep)
qed

lemma push_records_header:
  "page_wf p \<Longrightarrow> push_records nentries insert_slot p rs = Ok q \<Longrightarrow> page_header p kind t no \<Longrightarrow>
   page_header q kind t no"
proof (induction rs arbitrary: p)
  case (Cons r rs)
  from Cons.prems(2) obtain c where c: "insert_slot p (nentries p) r = Ok c"
      "push_records nentries insert_slot c rs = Ok q"
    by (auto simp: obind_Ok_iff)
  then have "page_wf c" "page_header c kind t no"
    using insert_slot_ok [OF Cons.prems(1), of "nentries p" r] Cons.prems(1,3)
    by (auto simp: insert_slot_eq layout_defs split: if_splits)
  then show ?case using Cons.IH c(2) by blast
qed simp

lemma build_page_fits:
  assumes "sum_list (map (\<lambda>r. length r + SLOT_LEN) recs) \<le> PAGE_SIZE - HEADER_LEN"
  shows "\<exists>b. build_page kind t no recs nxt = Ok b \<and> page_wf b \<and> page_slots b = recs \<and>
    page_header b kind t no \<and> page_next_leaf b = nxt"
proof -
  obtain p where p: "page_init (replicate PAGE_SIZE 0) kind t no = Ok p" "page_wf p" "page_slots p = []"
      "page_header p kind t no" "free_ptr p = 4096"
    using page_init_law [of "replicate PAGE_SIZE 0" kind t no] by auto
  have "nentries p = 0" using arg_cong [OF p(3), of length] by simp
  then have "free_space p = PAGE_SIZE - HEADER_LEN" using p(5) by (simp add: free_space_def layout_defs)
  then obtain q where q: "push_records nentries insert_slot p recs = Ok q" "page_wf q" "page_slots q = recs"
    using page.push_records_fits [OF p(2), of recs nentries] assms p(3) by auto
  show ?thesis
    using p(1) q finalised_page [OF q(2), where p = nxt] push_records_header [OF p(2) q(1) p(4)]
    by (simp add: build_page_def build_page_into_def)
qed

section \<open>Properties\<close>

text \<open>
  C17: The split point of a leaf: when some cut leaves both sides within the usable space, one is
  returned, and no other such cut is better balanced; when there is none, the answer is \<open>None\<close>. The
  two pages built from the sides never overflow: their construction succeeds and yields exactly the
  records of that side, whatever the keys and values are.
\<close>

theorem split_point_correct:
  "case split_point recs (PAGE_SIZE - HEADER_LEN) of
      None \<Rightarrow> \<forall>m. \<not> cut_fits (cell_sizes recs) (PAGE_SIZE - HEADER_LEN) m
    | Some m \<Rightarrow> cut_fits (cell_sizes recs) (PAGE_SIZE - HEADER_LEN) m \<and>
        (\<forall>k. cut_fits (cell_sizes recs) (PAGE_SIZE - HEADER_LEN) k \<longrightarrow> imbalance_at (cell_sizes recs) m \<le> imbalance_at (cell_sizes recs) k) \<and>
        (\<exists>l r. build_page PageLeaf t no (take m recs) right = Ok l \<and> page_slots l = take m recs \<and>
               build_page PageLeaf t right (drop m recs) nxt = Ok r \<and> page_slots r = drop m recs \<and>
               page_next_leaf l = right \<and> page_next_leaf r = nxt)"
proof -
  let ?u = "PAGE_SIZE - HEADER_LEN" and ?sizes = "cell_sizes recs"
  have sizes: "?sizes = map (\<lambda>r. length r + 4) recs" by (simp add: cell_sizes_def SLOT_LEN_def)
  have spec: "case split_point recs ?u of None \<Rightarrow> \<forall>m. \<not> cut_fits ?sizes ?u m
    | Some m \<Rightarrow> cut_fits ?sizes ?u m \<and> (\<forall>k. cut_fits ?sizes ?u k \<longrightarrow> imbalance_at ?sizes m \<le> imbalance_at ?sizes k)"
    using split_sizes_spec [of ?sizes ?u] by (simp add: split_point_def sizes)
  have "\<exists>l r. build_page PageLeaf t no (take m recs) right = Ok l \<and> page_slots l = take m recs \<and>
      build_page PageLeaf t right (drop m recs) nxt = Ok r \<and> page_slots r = drop m recs \<and>
      page_next_leaf l = right \<and> page_next_leaf r = nxt" if "cut_fits ?sizes ?u m" for m
    using that build_page_fits [of "take m recs" PageLeaf t no right]
      build_page_fits [of "drop m recs" PageLeaf t right nxt]
    by (auto simp: cut_fits_def cell_sizes_def take_map drop_map)
  then show ?thesis using spec by (auto split: option.splits)
qed

text \<open>\<open>split_point_ref\<close> over borrowed records agrees with \<open>split_point\<close> on the records they denote.\<close>

lemma split_point_ref_eq:
  "map (\<lambda>s. unat (ref_len s)) slots = map length recs \<Longrightarrow> split_point_ref slots usable = split_point recs usable"
proof -
  assume "map (\<lambda>s. unat (ref_len s)) slots = map length recs"
  then have "map (\<lambda>x. x + 4) (map (\<lambda>s. unat (ref_len s)) slots) = map (\<lambda>x. x + 4) (map length recs)"
    by simp
  then show ?thesis by (simp add: split_point_ref_def split_point_def comp_def)
qed

theorem split_point_correct_witness:
  "cut_fits [12, 4] (PAGE_SIZE - HEADER_LEN) 1 \<and>
   split_point [replicate 8 0, []] (PAGE_SIZE - HEADER_LEN) = Some 1"
proof -
  have "split_point [replicate 8 0, []] (PAGE_SIZE - HEADER_LEN) = Some 1"
    by (simp add: split_point_def split_sizes_def layout_defs abs_diff_def)
  then show ?thesis
    using split_point_correct [of "[replicate 8 0, []]" 7 3 4 0] by (simp add: cell_sizes_def SLOT_LEN_def)
qed

text \<open>
  C35: The neighbour planner is complete: for non-empty cells whose total fits a 64-bit word it never
  panics, and it answers \<open>None\<close> exactly when the cells cannot be cut into \<open>existing\<close> or
  \<open>existing + 1\<close> consecutive non-empty groups that each fit a page; otherwise its answer is such a
  partition.
\<close>

theorem neighbor_planner_complete:
  assumes "sizes \<noteq> []" "0 \<notin> set sizes" "sum_list sizes \<le> u64_max"
  shows "case neighbor_cell_cuts sizes usable existing of
      Panic \<Rightarrow> False
    | Err _ \<Rightarrow> \<not> (\<exists>es. partition_from sizes usable 0 es \<and> length es \<in> {existing, existing + 1})
    | Ok cuts \<Rightarrow> hd cuts = 0 \<and> partition_from sizes usable 0 (tl cuts) \<and>
        length (tl cuts) \<in> {existing, existing + 1}"
proof (cases "\<exists>v \<in> set sizes. usable < v")
  case True
  then show ?thesis using planner_refuses_big_cell by (auto split: outcome.splits)
next
  case False
  then have "\<forall>v \<in> set sizes. 0 < v \<and> v \<le> usable" using assms(2) by (auto intro: gr0I)
  from planner_cuts [OF this assms(3,1), of existing] show ?thesis by auto
qed

theorem neighbor_planner_complete_witness:
  "neighbor_cell_cuts [3, 2, 4, 1] 7 1 = Ok [0, 2, 4] \<and> partition_from [3, 2, 4, 1] 7 0 [2, 4]"
proof -
  have p: "prefix_sums 0 [3, 2, 4, 1] = Ok [0, 3, 5, 9, 10]" by (simp add: checked_add_u64_def)
  have n: "length [3, 2, 4, 1 :: nat] = 4" "\<not> ([3, 2, 4, 1 :: nat] = [] \<or> list_ex (\<lambda>v. v = 0 \<or> v > 7) [3, 2, 4, 1 :: nat])"
    by simp_all
  have e: "ends_loop [0, 3, 5, 9, 10] 4 7 0 [0..<4] = [2, 4, 4, 4]" by code_simp
  have d: "needed_loop [2, 4, 4, 4] (rev [0..<4]) (replicate (4 + 1) 0) = [2, 1, 1, 1, 0]" by code_simp
  have g: "max 1 ([2, 1, 1, 1, 0] ! 0) = (2 :: nat)" "\<not> ((2 :: nat) > 1 + 1 \<or> (4 :: nat) < 2)" by simp_all
  have c: "cuts_loop [0, 3, 5, 9, 10] [2, 4, 4, 4] [2, 1, 1, 1, 0] 4 2 [0..<2 - 1] [0] = Ok [0, 2]"
    by code_simp
  have "neighbor_cell_cuts [3, 2, 4, 1] 7 1 = Ok [0, 2, 4]"
    unfolding neighbor_cell_cuts_def n(1) Let_def p obind.simps e d g(1) c if_not_P [OF n(2)] if_not_P [OF g(2)]
    by simp
  then show ?thesis using neighbor_planner_complete [of "[3, 2, 4, 1]" 7 1] by simp
qed

end
