(* ===== verification/File_Io.thy ===== *)
theory File_Io
  imports Kernel_Error
begin

text \<open>
  The file interface of core/kernel/src/io.rs (\<open>trait FileIo\<close>, implemented by \<open>PosixFile\<close>): exact
  positional reads, positional writes, truncation and barriers. The operating system may refuse any
  call; which calls it refuses is part of the file's state, so every statement about a component on
  top holds for every pattern of failures. A refused write may have transferred a prefix.
\<close>

record posix_file =
  contents :: bytes
  read_ok :: "nat \<Rightarrow> nat \<Rightarrow> bool"       \<comment> \<open>offset, length\<close>
  write_ok :: "nat \<Rightarrow> nat \<Rightarrow> bool"      \<comment> \<open>offset, length\<close>
  torn :: "nat \<Rightarrow> nat \<Rightarrow> nat"           \<comment> \<open>bytes transferred by a refused write\<close>
  len_ok :: bool
  set_len_ok :: "nat \<Rightarrow> bool"
  sync_ok :: bool
  sync_dir_ok :: bool

text \<open>\<open>len\<close>, \<open>read_exact_at\<close>, \<open>write_all_at\<close>, \<open>set_len\<close>, the barriers. A write past the end leaves a gap of zeros.\<close>

definition file_len :: "posix_file \<Rightarrow> nat kresult" where
  "file_len f = (if len_ok f then Ok (length (contents f)) else Err Io)"

definition read_at :: "posix_file \<Rightarrow> nat \<Rightarrow> nat \<Rightarrow> bytes kresult" where
  "read_at f off n =
     (if read_ok f off n \<and> off + n \<le> length (contents f) then Ok (slice (contents f) off (off + n))
      else Err Io)"

definition resize_to :: "nat \<Rightarrow> bytes \<Rightarrow> bytes" where
  "resize_to n b = take n b @ replicate (n - length b) 0"

definition overwrite :: "bytes \<Rightarrow> nat \<Rightarrow> bytes \<Rightarrow> bytes" where
  "overwrite b off data = put_at (resize_to (max (length b) (off + length data)) b) off data"

definition write_at :: "posix_file \<Rightarrow> bytes \<Rightarrow> nat \<Rightarrow> posix_file \<times> unit kresult" where
  "write_at f data off =
     (if write_ok f off (length data) then (f\<lparr>contents := overwrite (contents f) off data\<rparr>, Ok ())
      else (f\<lparr>contents := overwrite (contents f) off (take (torn f off (length data)) data)\<rparr>, Err Io))"

definition set_len :: "posix_file \<Rightarrow> nat \<Rightarrow> posix_file \<times> unit kresult" where
  "set_len f n = (if set_len_ok f n then (f\<lparr>contents := resize_to n (contents f)\<rparr>, Ok ()) else (f, Err Io))"

definition sync_data :: "posix_file \<Rightarrow> unit kresult" where
  "sync_data f = (if sync_ok f then Ok () else Err Io)"

definition sync_dir :: "posix_file \<Rightarrow> unit kresult" where
  "sync_dir f = (if sync_dir_ok f then Ok () else Err Io)"

text \<open>Sequencing of steps that change the file and may fail.\<close>

definition then_do :: "'s \<times> 'a kresult \<Rightarrow> ('s \<Rightarrow> 'a \<Rightarrow> 's \<times> 'b kresult) \<Rightarrow> 's \<times> 'b kresult" where
  "then_do m k = (case m of (s, Ok x) \<Rightarrow> k s x | (s, Err e) \<Rightarrow> (s, Err e) | (s, Panic) \<Rightarrow> (s, Panic))"

lemma then_do_simps [simp]:
  "then_do (s, Ok x) k = k s x" "then_do (s, Err e) k = (s, Err e)" "then_do (s, Panic) k = (s, Panic)"
  by (simp_all add: then_do_def)

section \<open>Laws\<close>

lemma length_resize_to [simp]: "length (resize_to n b) = n"
  by (simp add: resize_to_def)

lemma resize_to_shrink: "n \<le> length b \<Longrightarrow> resize_to n b = take n b"
  by (simp add: resize_to_def)

lemma length_overwrite: "length (overwrite b off data) = max (length b) (off + length data)"
  by (simp add: overwrite_def)

lemma take_overwrite: "n \<le> off \<Longrightarrow> n \<le> length b \<Longrightarrow> take n (overwrite b off data) = take n b"
  by (simp add: overwrite_def put_at_def resize_to_def min_def)

lemma slice_overwrite: "slice (overwrite b off data) off (off + length data) = data"
  by (simp add: overwrite_def slice_put_at_same)

lemma overwrite_at_end: "take (off + length data) (overwrite b off data) = take off b @ data" if "off \<le> length b"
proof -
  have "take (off + length data) (overwrite b off data) =
      take off (overwrite b off data) @ slice (overwrite b off data) off (off + length data)"
    by (simp add: slice_def take_add)
  then show ?thesis using that by (simp add: take_overwrite slice_overwrite)
qed

lemma read_at_Ok: "read_at f off n = Ok b \<Longrightarrow> b = slice (contents f) off (off + n) \<and> off + n \<le> length (contents f)"
  by (auto simp: read_at_def split: if_splits)

lemma read_at_not_Panic [simp]: "read_at f off n \<noteq> Panic"
  by (simp add: read_at_def)

lemma read_at_Err: "read_at f off n = Err e \<Longrightarrow> e = Io"
  by (auto simp: read_at_def split: if_splits)

text \<open>A file on which no call fails, for the witnesses and the statements about a healthy disk.\<close>

definition healthy :: "posix_file \<Rightarrow> bool" where
  "healthy f \<longleftrightarrow> read_ok f = (\<lambda>_ _. True) \<and> write_ok f = (\<lambda>_ _. True) \<and> len_ok f \<and>
     set_len_ok f = (\<lambda>_. True) \<and> sync_ok f \<and> sync_dir_ok f"

definition good_file :: "bytes \<Rightarrow> posix_file" where
  "good_file b = \<lparr>contents = b, read_ok = (\<lambda>_ _. True), write_ok = (\<lambda>_ _. True), torn = (\<lambda>_ _. 0),
     len_ok = True, set_len_ok = (\<lambda>_. True), sync_ok = True, sync_dir_ok = True\<rparr>"

lemma good_file_simps [simp]: "healthy (good_file b)" "contents (good_file b) = b"
  by (simp_all add: healthy_def good_file_def)

lemma healthy_read: "healthy f \<Longrightarrow> off + n \<le> length (contents f) \<Longrightarrow>
    read_at f off n = Ok (slice (contents f) off (off + n))"
  by (simp add: healthy_def read_at_def)

end
