(* ===== verification/Wal.thy ===== *)
theory Wal
  imports File_Io
begin

text \<open>
  The write-ahead log (core/kernel/src/wal.rs): appending checksummed frames through a buffer, the
  scan that classifies why the log stops, the two recovery passes, and the salvage of a damaged
  log. Offsets are \<open>u64\<close> values held as \<open>nat\<close> with Rust's checked additions written out.
\<close>

section \<open>Records\<close>

definition HDR :: nat where "HDR = 20"
definition MAX_FRAME_BYTES :: nat where "MAX_FRAME_BYTES = u32_max"
definition MAX_PAYLOAD_BYTES :: nat where "MAX_PAYLOAD_BYTES = MAX_FRAME_BYTES - HDR"
definition CRC_CHUNK :: nat where "CRC_CHUNK = 65536"
definition WAL_BUF :: nat where "WAL_BUF = 262144"

lemmas wal_consts = HDR_def MAX_FRAME_BYTES_def MAX_PAYLOAD_BYTES_def CRC_CHUNK_def WAL_BUF_def

datatype stop = End string | Damaged nat string

record scan_result =
  scan_end :: nat
  scan_next_lsn :: nat
  scan_stop :: stop

datatype rec_kind = Commit | PageImage | Put | Delete | DeletePrefix | PutEmptyBatch

fun rec_kind_u8 :: "rec_kind \<Rightarrow> byte" where
  "rec_kind_u8 Commit = 1"
| "rec_kind_u8 PageImage = 2"
| "rec_kind_u8 Put = 3"
| "rec_kind_u8 Delete = 4"
| "rec_kind_u8 DeletePrefix = 5"
| "rec_kind_u8 PutEmptyBatch = 6"

definition rec_kind_from_u8 :: "byte \<Rightarrow> rec_kind option" where
  "rec_kind_from_u8 v =
     (if v = 1 then Some Commit else if v = 2 then Some PageImage else if v = 3 then Some Put
      else if v = 4 then Some Delete else if v = 5 then Some DeletePrefix
      else if v = 6 then Some PutEmptyBatch else None)"

record wal =
  wal_file :: posix_file
  wal_end :: nat
  next_lsn :: nat
  buf :: bytes
  flushed :: nat
  limit :: "nat option"

datatype candidate = Valid nat rec_kind | Invalid

text \<open>Header fields: payload length, sequence number, kind, checksum.\<close>

definition hdr_plen :: "bytes \<Rightarrow> nat" where
  "hdr_plen hdr = unat (from_le (slice hdr 0 4) :: u32)"

definition hdr_lsn :: "bytes \<Rightarrow> nat" where
  "hdr_lsn hdr = unat (from_le (slice hdr 4 12) :: u64)"

definition hdr_crc :: "bytes \<Rightarrow> u32" where
  "hdr_crc hdr = from_le (slice hdr 16 20)"

section \<open>Checksums\<close>

definition frame_crc :: "crc_fn \<Rightarrow> bytes \<Rightarrow> bytes \<Rightarrow> u32" where
  "frame_crc crc hdr payload = crc (crc 0 (put_at hdr 16 [0, 0, 0, 0])) payload"

function crc_chunks :: "crc_fn \<Rightarrow> posix_file \<Rightarrow> nat \<Rightarrow> nat \<Rightarrow> u32 \<Rightarrow> u32 kresult" where
  "crc_chunks crc f at end c =
     (if at < end then
        let n = min CRC_CHUNK (end - at) in
        obind (read_at f at n) (\<lambda>chunk. crc_chunks crc f (at + n) end (crc c chunk))
      else Ok c)"
  by auto
termination by (relation "measure (\<lambda>(crc, f, at, end, c). end - at)") (auto simp: wal_consts)

declare crc_chunks.simps [simp del]

definition frame_crc_from_file :: "crc_fn \<Rightarrow> posix_file \<Rightarrow> bytes \<Rightarrow> nat \<Rightarrow> nat \<Rightarrow> u32 kresult" where
  "frame_crc_from_file crc f hdr payload_at payload_len =
     (let c = crc 0 (put_at hdr 16 [0, 0, 0, 0]) in
      obind (of_option (CorruptWal payload_at ''payload boundary overflows the WAL address space'')
        (checked_add_u64 payload_at payload_len)) (\<lambda>end.
      crc_chunks crc f payload_at end c))"

function is_all_zeros :: "posix_file \<Rightarrow> nat \<Rightarrow> nat \<Rightarrow> bool kresult" where
  "is_all_zeros f at len =
     (if at < len then
        let n = min CRC_CHUNK (len - at) in
        obind (read_at f at n) (\<lambda>chunk.
        if list_ex (\<lambda>b. b \<noteq> 0) chunk then Ok False else is_all_zeros f (at + n) len)
      else Ok True)"
  by auto
termination by (relation "measure (\<lambda>(f, at, len). len - at)") (auto simp: wal_consts)

declare is_all_zeros.simps [simp del]

section \<open>Candidates\<close>

definition has_writer_header_shape :: "bytes \<Rightarrow> bool" where
  "has_writer_header_shape hdr \<longleftrightarrow>
     slice hdr 13 16 = [0, 0, 0] \<and> rec_kind_from_u8 (hdr ! 12) \<noteq> None \<and>
     checked_add_u64 (hdr_lsn hdr) 1 \<noteq> None"

definition candidate_at :: "crc_fn \<Rightarrow> posix_file \<Rightarrow> nat \<Rightarrow> nat \<Rightarrow> candidate kresult" where
  "candidate_at crc f off len =
     (case checked_add_u64 off HDR of
        None \<Rightarrow> Ok Invalid
      | Some header_end \<Rightarrow>
          if header_end > len then Ok Invalid
          else obind (read_at f off HDR) (\<lambda>hdr.
          if \<not> has_writer_header_shape hdr then Ok Invalid
          else let plen = hdr_plen hdr in
          if plen > MAX_PAYLOAD_BYTES then Ok Invalid
          else case checked_add_u64 header_end plen of
            None \<Rightarrow> Ok Invalid
          | Some next \<Rightarrow>
              if next > len then Ok Invalid
              else obind (frame_crc_from_file crc f hdr header_end plen) (\<lambda>c.
              if c \<noteq> hdr_crc hdr then Ok Invalid
              else case rec_kind_from_u8 (hdr ! 12) of
                None \<Rightarrow> Panic
              | Some kind \<Rightarrow>
                  if checked_add_u64 (hdr_lsn hdr) 1 = None then Ok Invalid else Ok (Valid next kind))))"

function has_verified_frame_after :: "crc_fn \<Rightarrow> posix_file \<Rightarrow> nat \<Rightarrow> nat \<Rightarrow> bool kresult" where
  "has_verified_frame_after crc f off len =
     (if off < len then
        obind (candidate_at crc f off len) (\<lambda>c.
        case c of
          Valid _ _ \<Rightarrow> Ok True
        | Invalid \<Rightarrow>
            (case checked_add_u64 off 1 of
               None \<Rightarrow> Err (CorruptWal off ''WAL resynchronisation offset overflow'')
             | Some off' \<Rightarrow> has_verified_frame_after crc f off' len))
      else Ok False)"
  by auto
termination
  by (relation "measure (\<lambda>(crc, f, off, len). len - off)") (auto simp: checked_add_u64_Some)

declare has_verified_frame_after.simps [simp del]

section \<open>The scan\<close>

datatype scan_step = Stopped stop | Accepted nat nat  \<comment> \<open>next offset, next sequence number\<close>

text \<open>One turn of the loop of \<open>scan\<close> at \<open>off\<close>.\<close>

definition scan_at :: "crc_fn \<Rightarrow> posix_file \<Rightarrow> nat \<Rightarrow> nat \<Rightarrow> scan_step kresult" where
  "scan_at crc f len off =
     obind (of_option (CorruptWal off ''header boundary overflows the WAL address space'')
       (checked_add_u64 off HDR)) (\<lambda>header_end.
     if header_end > len then
       if off = len then Ok (Stopped (End ''the last verified frame reaches physical EOF''))
       else obind (is_all_zeros f off len) (\<lambda>z.
         if z then Ok (Stopped (End ''nothing past the last good frame but zeros''))
         else Ok (Stopped (Damaged off ''non-zero bytes remain but there is not a complete frame header'')))
     else
       obind (read_at f off HDR) (\<lambda>hdr.
       let plen = hdr_plen hdr; lsn = hdr_lsn hdr in
       if plen > MAX_PAYLOAD_BYTES
       then Ok (Stopped (Damaged off ''frame payload length exceeds the writer maximum''))
       else obind (of_option (CorruptWal off ''frame boundary overflows the WAL address space'')
         (checked_add_u64 header_end plen)) (\<lambda>frame_end.
       if frame_end > len then
         if \<not> has_writer_header_shape hdr
         then Ok (Stopped (Damaged off ''incomplete-looking frame header was not emitted by this writer''))
         else obind (of_option (CorruptWal off ''WAL resynchronisation offset overflow'')
             (checked_add_u64 off 1)) (\<lambda>from.
           obind (has_verified_frame_after crc f from len) (\<lambda>later.
           if later
           then Ok (Stopped (Damaged off ''incomplete-looking frame has verified log frames behind it''))
           else Ok (Stopped (End ''a bounded frame header crosses physical EOF''))))
       else obind (frame_crc_from_file crc f hdr header_end plen) (\<lambda>c.
         if c \<noteq> hdr_crc hdr then
           obind (is_all_zeros f off len) (\<lambda>z.
           if z then Ok (Stopped (End ''nothing past the last good frame but zeros''))
           else Ok (Stopped (Damaged off ''complete frame fails its checksum'')))
         else if rec_kind_from_u8 (hdr ! 12) = None
         then Ok (Stopped (Damaged off ''frame verifies but names a record kind this build does not know''))
         else obind (of_option (CorruptWal off ''verified frame exhausts the log sequence number space'')
             (checked_add_u64 lsn 1)) (\<lambda>next_lsn.
           Ok (Accepted frame_end next_lsn))))))"

text \<open>An accepted frame lies inside the file and is at least a header long, so the scan ends.\<close>

lemma scan_at_Accepted:
  "scan_at crc f len off = Ok (Accepted off' n) \<Longrightarrow> off + HDR \<le> off' \<and> off' \<le> len"
  by (auto simp: scan_at_def Let_def obind_iffs checked_add_u64_Some split: if_splits)

function scan_loop :: "crc_fn \<Rightarrow> posix_file \<Rightarrow> nat \<Rightarrow> nat \<Rightarrow> nat \<Rightarrow> scan_result kresult" where
  "scan_loop crc f len off lsn =
     obind (scan_at crc f len off) (\<lambda>step.
     case step of
       Stopped s \<Rightarrow> Ok \<lparr>scan_end = off, scan_next_lsn = lsn, scan_stop = s\<rparr>
     | Accepted off' lsn' \<Rightarrow> scan_loop crc f len off' lsn')"
  by auto
termination
  by (relation "measure (\<lambda>(crc, f, len, off, lsn). len - off)")
    (fastforce dest: scan_at_Accepted simp: HDR_def)+

declare scan_loop.simps [simp del]

definition scan :: "crc_fn \<Rightarrow> posix_file \<Rightarrow> scan_result kresult" where
  "scan crc f = obind (file_len f) (\<lambda>len. scan_loop crc f len 0 1)"

section \<open>Opening, appending and cutting\<close>

definition open_on :: "crc_fn \<Rightarrow> posix_file \<Rightarrow> posix_file \<times> wal kresult" where
  "open_on crc f =
     (case scan crc f of
        Err e \<Rightarrow> (f, Err e)
      | Panic \<Rightarrow> (f, Panic)
      | Ok s \<Rightarrow>
          (case scan_stop s of
             Damaged off why \<Rightarrow> (f, Err (CorruptWal off why))
           | End _ \<Rightarrow>
               then_do (set_len f (scan_end s)) (\<lambda>f _.
               then_do (f, sync_data f) (\<lambda>f _.
               (f, Ok \<lparr>wal_file = f, wal_end = scan_end s, next_lsn = scan_next_lsn s, buf = [],
                       flushed = scan_end s, limit = None\<rparr>)))))"

definition open_limited :: "crc_fn \<Rightarrow> posix_file \<Rightarrow> nat option \<Rightarrow> posix_file \<times> wal kresult" where
  "open_limited crc f cap =
     (let oversized = (case cap of
          Some c \<Rightarrow> obind (file_len f) (\<lambda>n.
            if n > c then Err (ResourceLimit ''existing WAL exceeds allowance'') else Ok ())
        | None \<Rightarrow> Ok ()) in
      then_do (f, oversized) (\<lambda>f _.
      then_do (open_on crc f) (\<lambda>f w. (f, Ok (w\<lparr>limit := cap\<rparr>)))))"

definition cut_to_committed :: "wal \<Rightarrow> nat \<Rightarrow> wal \<times> unit kresult" where
  "cut_to_committed w end =
     (if end < wal_end w then
        let w = w\<lparr>buf := []\<rparr>; (f, r) = set_len (wal_file w) end; w = w\<lparr>wal_file := f\<rparr> in
        then_do (w, r) (\<lambda>w _.
        then_do (w, sync_data (wal_file w)) (\<lambda>w _.
        (w\<lparr>wal_end := end, flushed := end\<rparr>, Ok ())))
      else (w, Ok ()))"

definition flush :: "wal \<Rightarrow> wal \<times> unit kresult" where
  "flush w =
     (if buf w = [] then (w, Ok ())
      else let (f, r) = write_at (wal_file w) (buf w) (flushed w); w = w\<lparr>wal_file := f\<rparr> in
        then_do (w, r) (\<lambda>w _. (w\<lparr>flushed := flushed w + length (buf w), buf := []\<rparr>, Ok ())))"

text \<open>\<open>sync_data\<close> and \<open>sync_full\<close> differ only in the primitive they issue.\<close>

definition wal_sync :: "wal \<Rightarrow> wal \<times> unit kresult" where
  "wal_sync w = then_do (flush w) (\<lambda>w _. (w, sync_data (wal_file w)))"

definition frame_header :: "crc_fn \<Rightarrow> nat \<Rightarrow> rec_kind \<Rightarrow> bytes \<Rightarrow> bytes" where
  "frame_header crc lsn kind payload =
     (let hdr = replicate HDR 0;
          hdr = put_at hdr 0 (to_le (of_nat (length payload) :: u32));
          hdr = put_at hdr 4 (to_le (of_nat lsn :: u64));
          hdr = hdr[12 := rec_kind_u8 kind]
      in put_at hdr 16 (to_le (frame_crc crc hdr payload)))"

definition append :: "crc_fn \<Rightarrow> wal \<Rightarrow> rec_kind \<Rightarrow> bytes \<Rightarrow> wal \<times> nat kresult" where
  "append crc w kind payload =
     (if length payload > MAX_PAYLOAD_BYTES then (w, Err TooLarge)
      else let lsn = next_lsn w in
        case checked_add_u64 (next_lsn w) 1 of
          None \<Rightarrow> (w, Err (CorruptWal (wal_end w) ''log sequence number space is exhausted''))
        | Some next \<Rightarrow>
        (case checked_add_u64 HDR (length payload) of
          None \<Rightarrow> (w, Err TooLarge)
        | Some frame_len \<Rightarrow>
          if frame_len > MAX_FRAME_BYTES then (w, Err TooLarge)
          else case checked_add_u64 (wal_end w) frame_len of
            None \<Rightarrow> (w, Err TooLarge)
          | Some new_end \<Rightarrow>
              if (case limit w of Some cap \<Rightarrow> new_end > cap | None \<Rightarrow> False)
              then (w, Err (ResourceLimit ''WAL allowance full; reduce transaction size''))
              else let w = w\<lparr>buf := buf w @ frame_header crc lsn kind payload @ payload,
                            next_lsn := next, wal_end := new_end\<rparr> in
                if length (buf w) \<ge> WAL_BUF then then_do (flush w) (\<lambda>w _. (w, Ok lsn))
                else (w, Ok lsn)))"

definition set_lsn_floor :: "wal \<Rightarrow> nat \<Rightarrow> wal" where
  "set_lsn_floor w floor = (if floor > next_lsn w then w\<lparr>next_lsn := floor\<rparr> else w)"

definition rotate_published :: "wal \<Rightarrow> wal \<times> unit kresult" where
  "rotate_published w =
     (let w = w\<lparr>buf := [], flushed := 0\<rparr>; (f, r) = set_len (wal_file w) 0; w = w\<lparr>wal_file := f\<rparr> in
      then_do (w, r) (\<lambda>w _.
      then_do (w, sync_data (wal_file w)) (\<lambda>w _. (w\<lparr>wal_end := 0\<rparr>, Ok ()))))"

definition rotate :: "wal \<Rightarrow> wal \<times> unit kresult" where
  "rotate w =
     (let w = w\<lparr>buf := [], flushed := 0\<rparr>; (f, r) = set_len (wal_file w) 0; w = w\<lparr>wal_file := f\<rparr> in
      then_do (w, r) (\<lambda>w _.
      then_do (w, sync_data (wal_file w)) (\<lambda>w _.
      then_do (w, sync_dir (wal_file w)) (\<lambda>w _. (w\<lparr>wal_end := 0\<rparr>, Ok ())))))"

section \<open>The two recovery passes\<close>

function committed_loop :: "posix_file \<Rightarrow> nat \<Rightarrow> nat \<Rightarrow> nat \<Rightarrow> nat kresult" where
  "committed_loop f end off committed =
     (if off < end then
        obind (read_at f off HDR) (\<lambda>hdr.
        let plen = hdr_plen hdr in
        if plen > MAX_PAYLOAD_BYTES
        then Err (CorruptWal off ''recovery payload exceeds the writer maximum'')
        else case Option.bind (checked_add_u64 off HDR) (\<lambda>n. checked_add_u64 n plen) of
          None \<Rightarrow> Err (CorruptWal off ''frame boundary overflow during recovery'')
        | Some next \<Rightarrow>
            if next > end
            then Err (CorruptWal off ''frame crosses verified WAL boundary during recovery'')
            else case rec_kind_from_u8 (hdr ! 12) of
              None \<Rightarrow> Err (CorruptWal off ''unknown record kind inside verified WAL'')
            | Some kind \<Rightarrow> committed_loop f end next (if kind = Commit then next else committed))
      else Ok committed)"
  by auto
termination
  by (relation "measure (\<lambda>(f, end, off, committed). end - off)")
    (auto simp: checked_add_u64_Some bind_eq_Some_conv HDR_def)

declare committed_loop.simps [simp del]

definition committed_end :: "wal \<Rightarrow> nat kresult" where
  "committed_end w = (if buf w \<noteq> [] then Panic else committed_loop (wal_file w) (wal_end w) 0 0)"

definition record_at :: "crc_fn \<Rightarrow> wal \<Rightarrow> nat \<Rightarrow> nat \<Rightarrow> (nat \<times> rec_kind \<times> bytes \<times> nat) option kresult" where
  "record_at crc w off committed =
     (if off = committed then Ok None
      else if off > committed \<or> committed > wal_end w
      then Err (CorruptWal off ''recovery cursor outside committed WAL boundary'')
      else obind (of_option (CorruptWal off ''header boundary overflow during recovery'')
        (checked_add_u64 off HDR)) (\<lambda>header_end.
      if header_end > committed
      then Err (CorruptWal off ''truncated header inside committed WAL boundary'')
      else obind (read_at (wal_file w) off HDR) (\<lambda>hdr.
      let plen = hdr_plen hdr in
      if plen > MAX_PAYLOAD_BYTES
      then Err (CorruptWal off ''recovery payload exceeds the writer maximum'')
      else obind (of_option (CorruptWal off ''payload boundary overflow during recovery'')
        (checked_add_u64 header_end plen)) (\<lambda>next.
      if next > committed then Err (CorruptWal off ''frame crosses committed WAL boundary'')
      else obind (read_at (wal_file w) header_end plen) (\<lambda>payload.
      if frame_crc crc hdr payload \<noteq> hdr_crc hdr
      then Err (CorruptWal off ''recovery frame changed after the opening CRC walk'')
      else obind (of_option (CorruptWal off ''unknown record kind inside committed WAL'')
        (rec_kind_from_u8 (hdr ! 12))) (\<lambda>kind.
      Ok (Some (hdr_lsn hdr, kind, payload, next))))))))"

section \<open>Salvage\<close>

function copy_range :: "posix_file \<Rightarrow> posix_file \<Rightarrow> nat \<Rightarrow> nat \<Rightarrow> nat \<Rightarrow> posix_file \<times> unit kresult" where
  "copy_range src dst pos at n =
     (if n > 0 then
        let m = min n CRC_CHUNK in
        then_do (dst, read_at src at m) (\<lambda>dst chunk.
        then_do (write_at dst chunk pos) (\<lambda>dst _.
        copy_range src dst (pos + m) (at + m) (n - m)))
      else (dst, Ok ()))"
  by auto
termination
  by (relation "measure (\<lambda>(src, dst, pos, at, n). n)")
    (auto simp: wal_consts min_def split: prod.splits outcome.splits)

declare copy_range.simps [simp del]

lemma candidate_at_Valid:
  "candidate_at crc f off len = Ok (Valid nxt kind) \<Longrightarrow> off + HDR \<le> nxt \<and> nxt \<le> len"
  by (auto simp: candidate_at_def Let_def obind_iffs checked_add_u64_Some split: if_splits option.splits)

function salvage_loop :: "crc_fn \<Rightarrow> posix_file \<Rightarrow> nat \<Rightarrow> nat \<Rightarrow> posix_file \<Rightarrow> nat \<Rightarrow> nat \<Rightarrow> bool
    \<Rightarrow> posix_file \<times> nat kresult" where
  "salvage_loop crc f len src_off out out_end last_commit resynchronising =
     (if src_off < len then
        case candidate_at crc f src_off len of
          Err e \<Rightarrow> (out, Err e)
        | Panic \<Rightarrow> (out, Panic)
        | Ok (Valid next kind) \<Rightarrow>
            if resynchronising
            then salvage_loop crc f len next out out_end last_commit (kind \<noteq> Commit)
            else then_do (copy_range f out out_end src_off (next - src_off)) (\<lambda>out _.
              case checked_add_u64 out_end (next - src_off) of
                None \<Rightarrow> (out, Err (CorruptWal src_off ''salvaged WAL output length overflow''))
              | Some out_end \<Rightarrow>
                  salvage_loop crc f len next out out_end
                    (if kind = Commit then out_end else last_commit) False)
        | Ok Invalid \<Rightarrow>
            then_do (set_len out last_commit) (\<lambda>out _.
            case checked_add_u64 src_off 1 of
              None \<Rightarrow> (out, Err (CorruptWal src_off ''WAL resynchronisation offset overflow''))
            | Some src_off \<Rightarrow> salvage_loop crc f len src_off out last_commit last_commit True)
      else (out, Ok last_commit))"
  by pat_completeness auto
termination
  by (relation "measure (\<lambda>(crc, f, len, src_off, out, out_end, last_commit, resynchronising). len - src_off)")
    (auto dest!: candidate_at_Valid simp: HDR_def checked_add_u64_Some)

declare salvage_loop.simps [simp del]

function hash_chunks :: "crc_fn \<Rightarrow> posix_file \<Rightarrow> nat \<Rightarrow> nat \<Rightarrow> u32 \<Rightarrow> bool \<Rightarrow> u32 kresult" where
  "hash_chunks crc f at left hash first =
     (if left > 0 then
        let want = min left CRC_CHUNK in
        obind (read_at f at want) (\<lambda>chunk.
        hash_chunks crc f (at + want) (left - want) (if first then crc 0 chunk else crc hash chunk) False)
      else Ok hash)"
  by auto
termination
  by (relation "measure (\<lambda>(crc, f, at, left, hash, first). left)") (auto simp: wal_consts min_def)

declare hash_chunks.simps [simp del]

definition hash_prefix :: "crc_fn \<Rightarrow> posix_file \<Rightarrow> nat \<Rightarrow> u32 kresult" where
  "hash_prefix crc f n = hash_chunks crc f 0 n 0 True"

record salvaged_wal =
  salvaged_bytes :: nat
  salvaged_hash :: u32

definition salvage_committed :: "crc_fn \<Rightarrow> posix_file \<Rightarrow> posix_file \<Rightarrow> posix_file \<times> salvaged_wal kresult" where
  "salvage_committed crc src dst =
     then_do (dst, file_len src) (\<lambda>dst len.
     let out = dst\<lparr>contents := []\<rparr> in
     then_do (salvage_loop crc src len 0 out 0 0 False) (\<lambda>out last_commit.
     then_do (set_len out last_commit) (\<lambda>out _.
     then_do (out, sync_data out) (\<lambda>out _.
     then_do (out, hash_prefix crc out last_commit) (\<lambda>out hash.
     (out, Ok \<lparr>salvaged_bytes = last_commit, salvaged_hash = hash\<rparr>))))))"

section \<open>Frames\<close>

type_synonym log_record = "nat \<times> rec_kind \<times> bytes"

definition frame :: "crc_fn \<Rightarrow> log_record \<Rightarrow> bytes" where
  "frame crc r = (case r of (lsn, kind, payload) \<Rightarrow> frame_header crc lsn kind payload @ payload)"

definition encode_log :: "crc_fn \<Rightarrow> log_record list \<Rightarrow> bytes" where
  "encode_log crc rs = concat (map (frame crc) rs)"

text \<open>What \<open>append\<close> admits: a bounded payload and a sequence number with a successor.\<close>

definition record_fits :: "log_record \<Rightarrow> bool" where
  "record_fits r \<longleftrightarrow> (case r of (lsn, kind, payload) \<Rightarrow> length payload \<le> MAX_PAYLOAD_BYTES \<and> lsn < u64_max)"

lemma encode_log_simps [simp]:
  "encode_log crc [] = []" "encode_log crc (r # rs) = frame crc r @ encode_log crc rs"
  "encode_log crc (rs @ qs) = encode_log crc rs @ encode_log crc qs"
  by (simp_all add: encode_log_def)

lemma rec_kind_roundtrip [simp]: "rec_kind_from_u8 (rec_kind_u8 k) = Some k"
  by (cases k) (simp_all add: rec_kind_from_u8_def)

lemma unat_of_nat_u64: "n \<le> u64_max \<Longrightarrow> unat (of_nat n :: u64) = n"
  by (simp add: unat_of_nat)

lemma unat_of_nat_u32: "n \<le> u32_max \<Longrightarrow> unat (of_nat n :: u32) = n"
  by (simp add: unat_of_nat)

lemma frame_header_fields:
  fixes crc :: crc_fn and kind :: rec_kind
  assumes "length payload \<le> MAX_PAYLOAD_BYTES" "lsn < u64_max"
  defines "h \<equiv> frame_header crc lsn kind payload"
  shows "length h = HDR" "hdr_plen h = length payload" "hdr_lsn h = lsn" "h ! 12 = rec_kind_u8 kind"
    "slice h 13 16 = [0, 0, 0]" "hdr_crc h = frame_crc crc h payload"
proof -
  let ?h0 = "put_at (put_at (replicate 20 0) 0 (to_le (of_nat (length payload) :: u32))) 4 (to_le (of_nat lsn :: u64))"
  let ?h1 = "?h0[12 := rec_kind_u8 kind]"
  let ?c = "frame_crc crc ?h1 payload"
  have h: "h = put_at ?h1 16 (to_le ?c)"
    by (simp add: h_def frame_header_def Let_def HDR_def)
  have l: "length ?h0 = 20" "length ?h1 = 20" by simp_all
  show len: "length h = HDR" by (simp add: h HDR_def)
  have upd: "slice ?h1 i j = slice ?h0 i j" if "j \<le> 12" for i j
    using that l by (intro nth_equalityI) (auto simp: nth_slice)
  show "hdr_plen h = length payload"
    using assms(1) by (simp add: hdr_plen_def h slice_put_at_before upd slice_put_at_same
        unat_of_nat_u32 wal_consts)
  show "hdr_lsn h = lsn"
    using assms(2) by (simp add: hdr_lsn_def h slice_put_at_before upd slice_put_at_same unat_of_nat_u64)
  show "h ! 12 = rec_kind_u8 kind" using l by (simp add: h nth_put_at)
  have z: "?h1 ! i = 0" if "12 < i" "i < 20" for i
    using that by (simp add: nth_put_at)
  show "slice h 13 16 = [0, 0, 0]"
    using z l by (intro nth_equalityI)
      (auto simp: h slice_put_at_before nth_slice nth_Cons numeral_3_eq_3 less_Suc_eq split: nat.splits)
  have "put_at h 16 [0, 0, 0, 0] = put_at ?h1 16 [0, 0, 0, 0]"
    unfolding h by (rule put_at_put_at) (simp_all add: l)
  then show "hdr_crc h = frame_crc crc h payload"
    using l by (simp add: hdr_crc_def h slice_put_at_same frame_crc_def)
qed

lemma length_frame:
  "record_fits (lsn, kind, payload) \<Longrightarrow> length (frame crc (lsn, kind, payload)) = HDR + length payload"
  by (simp add: frame_def record_fits_def frame_header_fields(1))

section \<open>Chunked reads\<close>

lemmas crc_facts = crc32c_crate.crc_nil crc32c_crate.crc_pieces

lemma crc_chunks_Ok:
  "crc_chunks crc f at end c = Ok x \<Longrightarrow> crc32c_crate crc \<Longrightarrow> at \<le> end \<Longrightarrow> at \<le> length (contents f) \<Longrightarrow>
   end \<le> length (contents f) \<and> x = crc c (slice (contents f) at end)"
proof (induction crc f at "end" c rule: crc_chunks.induct)
  case (1 crc f at "end" c)
  let ?n = "min CRC_CHUNK (end - at)"
  show ?case
  proof (cases "at < end")
    case True
    then obtain chunk where r: "read_at f at ?n = Ok chunk" "crc_chunks crc f (at + ?n) end (crc c chunk) = Ok x"
      using "1.prems"(1) by (subst (asm) crc_chunks.simps) (auto simp: Let_def obind_Ok_iff)
    note c = read_at_Ok [OF r(1)]
    have "end \<le> length (contents f) \<and> x = crc (crc c chunk) (slice (contents f) (at + ?n) end)"
      using "1.IH" [OF True refl r(1,2) "1.prems"(2)] True c by simp
    moreover have "slice (contents f) at end = chunk @ slice (contents f) (at + ?n) end"
      using True c slice_split [of at "at + ?n" "end" "contents f"] by simp
    ultimately show ?thesis using crc_facts(2) [OF "1.prems"(2)] by simp
  next
    case False
    then have "crc_chunks crc f at end c = Ok c" by (subst crc_chunks.simps) simp
    then show ?thesis using "1.prems" False crc_facts(1) [OF "1.prems"(2)] by auto
  qed
qed

lemma crc_chunks_reads:
  "read_ok f = (\<lambda>_ _. True) \<Longrightarrow> end \<le> length (contents f) \<Longrightarrow> \<exists>x. crc_chunks crc f at end c = Ok x"
proof (induction crc f at "end" c rule: crc_chunks.induct)
  case (1 crc f at "end" c)
  then show ?case
    by (subst crc_chunks.simps) (auto simp: Let_def read_at_def)
qed

lemma crc_chunks_not_Panic: "crc_chunks crc f at end c \<noteq> Panic"
proof (induction crc f at "end" c rule: crc_chunks.induct)
  case (1 crc f at "end" c)
  then show ?case by (subst crc_chunks.simps) (auto simp: Let_def obind_Panic_iff)
qed

text \<open>The checksum of a frame read in pieces is the checksum of its bytes.\<close>

lemma frame_crc_from_file_Ok:
  assumes "crc32c_crate crc" "frame_crc_from_file crc f hdr at n = Ok c" "at \<le> length (contents f)"
  shows "at + n \<le> length (contents f)" "c = frame_crc crc hdr (slice (contents f) at (at + n))"
  using assms crc_chunks_Ok [of crc f at "at + n"]
  by (auto simp: frame_crc_from_file_def frame_crc_def Let_def obind_Ok_iff checked_add_u64_Some)

lemma frame_crc_from_file_reads:
  assumes "crc32c_crate crc" "read_ok f = (\<lambda>_ _. True)" "at + n \<le> length (contents f)" "at + n \<le> u64_max"
  shows "frame_crc_from_file crc f hdr at n = Ok (frame_crc crc hdr (slice (contents f) at (at + n)))"
proof -
  obtain x where "crc_chunks crc f at (at + n) (crc 0 (put_at hdr 16 [0, 0, 0, 0])) = Ok x"
    using crc_chunks_reads [OF assms(2,3)] by blast
  then have "frame_crc_from_file crc f hdr at n = Ok x"
    using assms(4) by (simp add: frame_crc_from_file_def Let_def checked_add_u64_def)
  then show ?thesis using frame_crc_from_file_Ok(2) [OF assms(1)] assms(3) by simp
qed

lemma frame_crc_from_file_not_Panic: "frame_crc_from_file crc f hdr at n \<noteq> Panic"
  by (auto simp: frame_crc_from_file_def Let_def obind_Panic_iff crc_chunks_not_Panic)

lemma is_all_zeros_Ok:
  "is_all_zeros f at len = Ok z \<Longrightarrow> at \<le> len \<Longrightarrow> len \<le> length (contents f) \<Longrightarrow>
   z \<longleftrightarrow> (\<forall>b \<in> set (slice (contents f) at len). b = 0)"
proof (induction f at len rule: is_all_zeros.induct)
  case (1 f at len)
  let ?n = "min CRC_CHUNK (len - at)"
  show ?case
  proof (cases "at < len")
    case True
    then obtain chunk where r: "read_at f at ?n = Ok chunk"
        "(if list_ex (\<lambda>b. b \<noteq> 0) chunk then Ok False else is_all_zeros f (at + ?n) len) = Ok z"
      using "1.prems"(1) by (subst (asm) is_all_zeros.simps) (auto simp: Let_def obind_Ok_iff)
    note c = read_at_Ok [OF r(1)]
    have sp: "slice (contents f) at len = chunk @ slice (contents f) (at + ?n) len"
      using True c slice_split [of at "at + ?n" len "contents f"] by simp
    show ?thesis
    proof (cases "list_ex (\<lambda>b. b \<noteq> 0) chunk")
      case True
      then show ?thesis using r(2) sp by (auto simp: list_ex_iff)
    next
      case False
      then show ?thesis
        using "1.IH" [OF True refl r(1) False] r(2) sp True "1.prems"(3) by (auto simp: list_ex_iff)
    qed
  next
    case False
    then have "is_all_zeros f at len = Ok True" by (subst is_all_zeros.simps) simp
    then show ?thesis using "1.prems" False by auto
  qed
qed

lemma is_all_zeros_not_Panic: "is_all_zeros f at len \<noteq> Panic"
proof (induction f at len rule: is_all_zeros.induct)
  case (1 f at len)
  then show ?case by (subst is_all_zeros.simps) (auto simp: Let_def obind_Panic_iff split: if_splits)
qed

lemma is_all_zeros_reads:
  "read_ok f = (\<lambda>_ _. True) \<Longrightarrow> len \<le> length (contents f) \<Longrightarrow> \<exists>z. is_all_zeros f at len = Ok z"
proof (induction f at len rule: is_all_zeros.induct)
  case (1 f at len)
  then show ?case by (subst is_all_zeros.simps) (auto simp: Let_def read_at_def)
qed

section \<open>Scanning a well-formed log\<close>

text \<open>Reads succeed, and the file is shorter than any file system allows (offsets are signed 64-bit there).\<close>

definition readable :: "posix_file \<Rightarrow> bool" where
  "readable f \<longleftrightarrow> read_ok f = (\<lambda>_ _. True) \<and> len_ok f \<and> length (contents f) + HDR \<le> u64_max"

lemma scan_at_frame:
  assumes "crc32c_crate crc" "readable f" "contents f = pre @ frame crc (lsn, kind, payload) @ post"
    and "record_fits (lsn, kind, payload)"
  shows "scan_at crc f (length (contents f)) (length pre) =
    Ok (Accepted (length pre + HDR + length payload) (lsn + 1))"
proof -
  let ?h = "frame_header crc lsn kind payload" and ?off = "length pre" and ?len = "length (contents f)"
  have fits: "length payload \<le> MAX_PAYLOAD_BYTES" "lsn < u64_max" using assms(4) by (auto simp: record_fits_def)
  note h = frame_header_fields [OF fits, where crc = crc and kind = kind]
  have len: "?len = ?off + HDR + length payload + length post"
    using assms(3) h(1) by (simp add: frame_def)
  have bound: "?len \<le> u64_max" using assms(2) by (simp add: readable_def HDR_def)
  have hd: "read_at f ?off HDR = Ok ?h"
    using assms(2,3) h(1) len by (simp add: read_at_def readable_def frame_def slice_def)
  have pl: "slice (contents f) (?off + HDR) (?off + HDR + length payload) = payload"
    using assms(3) h(1) by (simp add: frame_def slice_def)
  have "frame_crc_from_file crc f ?h (?off + HDR) (length payload) = Ok (hdr_crc ?h)"
    using frame_crc_from_file_reads [OF assms(1), of f "?off + HDR" "length payload" ?h] assms(2) len bound pl h(6)
    by (simp add: readable_def)
  moreover have "checked_add_u64 ?off HDR = Some (?off + HDR)"
    "checked_add_u64 (?off + HDR) (length payload) = Some (?off + HDR + length payload)"
    "checked_add_u64 lsn 1 = Some (lsn + 1)"
    using fits bound len by (simp_all add: checked_add_u64_def)
  moreover have "\<not> ?off + HDR > ?len" "\<not> ?off + HDR + length payload > ?len"
    "\<not> length payload > MAX_PAYLOAD_BYTES" "rec_kind_from_u8 (?h ! 12) \<noteq> None"
    using fits len h(4) by simp_all
  ultimately show ?thesis
    unfolding scan_at_def Let_def
    by (simp only: of_option.simps obind.simps hd h(2) h(3) if_False not_True_eq_False simp_thms)
qed

lemma scan_loop_frames:
  assumes "crc32c_crate crc" "readable f"
  shows "contents f = pre @ encode_log crc rs @ post \<Longrightarrow> list_all record_fits rs \<Longrightarrow>
    scan_loop crc f (length (contents f)) (length pre) l =
    scan_loop crc f (length (contents f)) (length (pre @ encode_log crc rs))
      (if rs = [] then l else fst (last rs) + 1)"
proof (induction rs arbitrary: pre l)
  case (Cons r rs)
  obtain lsn kind payload where r: "r = (lsn, kind, payload)" by (cases r)
  have fits: "record_fits (lsn, kind, payload)" using Cons.prems(2) r by simp
  have c: "contents f = (pre @ frame crc r) @ encode_log crc rs @ post" using Cons.prems(1) by simp
  have "scan_at crc f (length (contents f)) (length pre) =
      Ok (Accepted (length (pre @ frame crc r)) (lsn + 1))"
    using scan_at_frame [OF assms, of pre lsn kind payload "encode_log crc rs @ post"] Cons.prems(1) fits
      length_frame [OF fits, of crc] by (simp add: r add.assoc)
  then have "scan_loop crc f (length (contents f)) (length pre) l =
      scan_loop crc f (length (contents f)) (length (pre @ frame crc r)) (lsn + 1)"
    by (subst scan_loop.simps) simp
  also have "\<dots> = scan_loop crc f (length (contents f)) (length ((pre @ frame crc r) @ encode_log crc rs))
      (if rs = [] then lsn + 1 else fst (last rs) + 1)"
    using Cons.prems(2) by (intro Cons.IH [OF c]) simp
  finally show ?case by (simp add: r)
qed simp

lemma scan_log:
  assumes "crc32c_crate crc" "readable f" "contents f = encode_log crc rs" "list_all record_fits rs"
  shows "scan crc f = Ok \<lparr>scan_end = length (contents f),
    scan_next_lsn = (if rs = [] then 1 else fst (last rs) + 1),
    scan_stop = End ''the last verified frame reaches physical EOF''\<rparr>"
proof -
  have "scan_at crc f (length (contents f)) (length (contents f)) =
      Ok (Stopped (End ''the last verified frame reaches physical EOF''))"
    using assms(2) by (simp add: scan_at_def checked_add_u64_def readable_def HDR_def)
  then have "scan_loop crc f (length (contents f)) (length (contents f)) l =
      Ok \<lparr>scan_end = length (contents f), scan_next_lsn = l,
        scan_stop = End ''the last verified frame reaches physical EOF''\<rparr>" for l
    by (subst scan_loop.simps) simp
  then show ?thesis
    using scan_loop_frames [OF assms(1,2), of "[]" rs "[]" 1] assms(2-4)
    by (simp add: scan_def file_len_def readable_def)
qed

section \<open>What lies past the end of a scan\<close>

lemma candidate_at_past_end: "len \<le> off \<Longrightarrow> candidate_at crc f off len = Ok Invalid"
  by (auto simp: candidate_at_def HDR_def checked_add_u64_def)

lemma has_verified_frame_after_False:
  "has_verified_frame_after crc f off len = Ok False \<Longrightarrow> off \<le> at \<Longrightarrow> candidate_at crc f at len = Ok Invalid"
proof (induction crc f off len rule: has_verified_frame_after.induct)
  case (1 crc f off len)
  show ?case
  proof (cases "off < len")
    case True
    then obtain d where d: "candidate_at crc f off len = Ok d"
        "(case d of Valid _ _ \<Rightarrow> Ok True
          | Invalid \<Rightarrow>
              (case checked_add_u64 off 1 of
                 None \<Rightarrow> Err (CorruptWal off ''WAL resynchronisation offset overflow'')
               | Some off' \<Rightarrow> has_verified_frame_after crc f off' len)) = Ok False"
      using "1.prems"(1) unfolding has_verified_frame_after.simps [of crc f off len] if_P [OF True] obind_Ok_iff
      by blast
    have inv: "d = Invalid" using d(2) by (cases d) simp_all
    then obtain off' where "checked_add_u64 off 1 = Some off'" using d(2) by (cases "checked_add_u64 off 1") simp_all
    then have c: "checked_add_u64 off 1 = Some (Suc off)" by (simp add: checked_add_u64_Some)
    have c': "candidate_at crc f off len = Ok Invalid" "has_verified_frame_after crc f (Suc off) len = Ok False"
      using d inv c by simp_all
    show ?thesis
    proof (cases "at = off")
      case False
      then show ?thesis using "1.IH" [OF True c'(1) _ c c'(2)] "1.prems"(2) by simp
    qed (use c' in simp)
  next
    case False
    then show ?thesis using "1.prems"(2) by (intro candidate_at_past_end) simp
  qed
qed

lemma zero_header_shape: "(\<forall>b \<in> set hdr. b = 0) \<Longrightarrow> length hdr = HDR \<Longrightarrow> \<not> has_writer_header_shape hdr"
proof -
  assume z: "\<forall>b \<in> set hdr. b = 0" "length hdr = HDR"
  have "hdr ! 12 \<in> set hdr" using z(2) by (intro nth_mem) (simp add: HDR_def)
  then have "hdr ! 12 = 0" using z(1) by blast
  then show ?thesis by (simp add: has_writer_header_shape_def rec_kind_from_u8_def)
qed

lemma candidate_in_zeros:
  assumes "\<forall>b \<in> set (slice (contents f) off len). b = 0" "off \<le> at" "len \<le> length (contents f)"
  shows "candidate_at crc f at len \<noteq> Ok (Valid nxt kind)"
proof
  assume v: "candidate_at crc f at len = Ok (Valid nxt kind)"
  then obtain hdr where h: "at + HDR \<le> len" "read_at f at HDR = Ok hdr" "has_writer_header_shape hdr"
    by (auto simp: candidate_at_def Let_def obind_iffs checked_add_u64_Some split: if_splits option.splits)
  note r = read_at_Ok [OF h(2)]
  have "hdr = slice (slice (contents f) off len) (at - off) (at + HDR - off)"
    using r h(1) assms(2) by (simp add: slice_slice)
  then have "set hdr \<subseteq> set (slice (contents f) off len)"
    by (auto simp: slice_def dest: in_set_takeD in_set_dropD)
  then have "\<forall>b \<in> set hdr. b = 0" using assms(1) by blast
  moreover have "length hdr = HDR" using r by auto
  ultimately show False using zero_header_shape h(3) by blast
qed

lemma scan_at_End:
  assumes "scan_at crc f len off = Ok (Stopped (End why))" "len = length (contents f)" "off \<le> len" "off \<le> at"
  shows "candidate_at crc f at len \<noteq> Ok (Valid nxt kind)"
proof -
  have zeros: "candidate_at crc f at len \<noteq> Ok (Valid nxt kind)" if "is_all_zeros f off len = Ok True"
    using candidate_in_zeros [of f off len at] is_all_zeros_Ok [OF that] assms(2-4) by simp
  have crosses: "candidate_at crc f at len \<noteq> Ok (Valid nxt kind)"
    if "read_at f off HDR = Ok hdr" "off + HDR + hdr_plen hdr > len"
      "has_verified_frame_after crc f (Suc off) len = Ok False" for hdr
  proof (cases "at = off")
    case True
    then show ?thesis using that(1,2)
      by (auto simp: candidate_at_def Let_def obind_iffs checked_add_u64_Some split: if_splits option.splits)
  next
    case False
    then show ?thesis using has_verified_frame_after_False [OF that(3), of at] assms(4) by simp
  qed
  show ?thesis
    using assms(1) zeros crosses candidate_at_past_end [of len at crc f] assms(4)
    by (auto simp: scan_at_def Let_def obind_iffs checked_add_u64_Some split: if_splits)
qed

lemma scan_loop_Ok:
  "scan_loop crc f len off l = Ok s \<Longrightarrow> off \<le> len \<Longrightarrow>
   scan_at crc f len (scan_end s) = Ok (Stopped (scan_stop s)) \<and> off \<le> scan_end s \<and> scan_end s \<le> len"
proof (induction crc f len off l rule: scan_loop.induct)
  case (1 crc f len off l)
  then obtain step where st: "scan_at crc f len off = Ok step"
      "(case step of Stopped t \<Rightarrow> Ok \<lparr>scan_end = off, scan_next_lsn = l, scan_stop = t\<rparr>
        | Accepted off' lsn' \<Rightarrow> scan_loop crc f len off' lsn') = Ok s"
    by (subst (asm) scan_loop.simps) (auto simp: obind_Ok_iff)
  show ?case
  proof (cases step)
    case (Stopped t)
    then show ?thesis using st "1.prems"(2) by auto
  next
    case (Accepted off' lsn')
    then have "scan_at crc f len off = Ok (Accepted off' lsn')" using st(1) by simp
    then show ?thesis using "1.IH" [OF st(1) Accepted] st(2) Accepted scan_at_Accepted by fastforce
  qed
qed

lemma scan_Ok:
  assumes "scan crc f = Ok s"
  shows "scan_at crc f (length (contents f)) (scan_end s) = Ok (Stopped (scan_stop s))"
    and "scan_end s \<le> length (contents f)"
  using assms scan_loop_Ok [of crc f "length (contents f)" 0 1 s]
  by (auto simp: scan_def file_len_def obind_iffs split: if_splits)

lemma scan_End:
  assumes "scan crc f = Ok s" "scan_stop s = End why" "scan_end s \<le> at"
  shows "candidate_at crc f at (length (contents f)) \<noteq> Ok (Valid nxt kind)"
  using scan_Ok [OF assms(1)] scan_at_End [of crc f "length (contents f)" "scan_end s" why at] assms(2,3)
  by simp

text \<open>A frame of which only a strict prefix reached the file is never accepted.\<close>

lemma scan_at_torn:
  assumes "crc32c_crate crc" "readable f" "contents f = pre @ take k (frame crc (lsn, kind, payload))"
    and "record_fits (lsn, kind, payload)" "k < length (frame crc (lsn, kind, payload))"
    and "scan_at crc f (length (contents f)) (length pre) = Ok step"
  shows "\<exists>t. step = Stopped t"
proof -
  let ?h = "frame_header crc lsn kind payload" and ?off = "length pre" and ?len = "length (contents f)"
  have fits: "length payload \<le> MAX_PAYLOAD_BYTES" "lsn < u64_max" using assms(4) by (auto simp: record_fits_def)
  note h = frame_header_fields [OF fits, where crc = crc and kind = kind]
  have len: "?len = ?off + k" "k < HDR + length payload"
    using assms(3,5) length_frame [OF assms(4), of crc] by simp_all
  show ?thesis
  proof (cases "k < HDR")
    case True
    then show ?thesis using assms(6) len
      by (auto simp: scan_at_def Let_def obind_iffs checked_add_u64_Some split: if_splits)
  next
    case False
    then have "read_at f ?off HDR = Ok ?h"
      using assms(2,3) h(1) len by (simp add: read_at_def readable_def frame_def slice_def)
    then show ?thesis using assms(6) len h(2)
      by (auto simp: scan_at_def Let_def obind_iffs checked_add_u64_Some split: if_splits)
  qed
qed

section \<open>Properties of the scan\<close>


text \<open>A log holding two frames, for the witnesses.\<close>

definition sample_log :: "log_record list" where
  "sample_log = [(1, Put, [7]), (2, Commit, [])]"

lemma sample_log_fits: "list_all record_fits sample_log"
  by (simp add: sample_log_def record_fits_def wal_consts)

lemma sample_log_length: "length (encode_log crc sample_log) = 41"
  using length_frame [of 1 Put "[7]" crc] length_frame [of 2 Commit "[]" crc] sample_log_fits
  by (simp add: sample_log_def HDR_def)

lemma sample_file_readable: "readable (good_file (encode_log crc sample_log))"
  by (simp add: readable_def good_file_def sample_log_length HDR_def)



lemma torn_header_scan_Ok:
  assumes "crc32c_crate crc" "readable f" "list_all record_fits rs" "contents f = encode_log crc rs @ t" "length t < HDR"
  shows "\<exists>s. scan crc f = Ok s"
proof -
  let ?len = "length (contents f)" and ?off = "length (encode_log crc rs)"
  obtain z where "is_all_zeros f ?off ?len = Ok z" using is_all_zeros_reads [of f ?len ?off] assms(2) by (auto simp: readable_def)
  then have "\<exists>st. scan_at crc f ?len ?off = Ok (Stopped st)"
    using assms(2,4,5) by (cases "t = []"; cases z) (simp_all add: scan_at_def checked_add_u64_def readable_def)
  then obtain st where "scan_at crc f ?len ?off = Ok (Stopped st)" ..
  then have "\<exists>s. scan_loop crc f ?len ?off l = Ok s" for l by (subst scan_loop.simps) simp
  then show ?thesis
    using scan_loop_frames [OF assms(1,2), of "[]" rs t 1] assms(2-4) by (simp add: scan_def file_len_def readable_def)
qed


end
