(* ===== verification/Wal_Log.thy ===== *)
theory Wal_Log
  imports Wal
begin

text \<open>
  The log as a sequence of records: what \<open>append\<close>, \<open>flush\<close>, \<open>open_on\<close> and the recovery passes of
  core/kernel/src/wal.rs do to it. \<open>wal_inv\<close> relates the bytes of the file and of the buffer to the
  list of records they encode.
\<close>

section \<open>The invariant\<close>

definition wal_inv :: "crc_fn \<Rightarrow> wal \<Rightarrow> log_record list \<Rightarrow> bool" where
  "wal_inv crc w rs \<longleftrightarrow>
     flushed w + length (buf w) = wal_end w \<and>
     flushed w \<le> length (contents (wal_file w)) \<and> length (contents (wal_file w)) \<le> wal_end w \<and>
     take (flushed w) (contents (wal_file w)) @ buf w = encode_log crc rs \<and>
     wal_end w \<le> u64_max \<and> next_lsn w \<le> u64_max \<and>
     list_all record_fits rs \<and> list_all (\<lambda>(lsn, _, _). lsn < next_lsn w) rs \<and> sorted_wrt (<) (map fst rs)"

text \<open>The state \<open>append\<close> leaves before it decides whether to flush.\<close>

definition buffered :: "crc_fn \<Rightarrow> wal \<Rightarrow> rec_kind \<Rightarrow> bytes \<Rightarrow> wal" where
  "buffered crc w kind payload =
     w\<lparr>buf := buf w @ frame crc (next_lsn w, kind, payload), next_lsn := next_lsn w + 1,
       wal_end := wal_end w + HDR + length payload\<rparr>"

lemma wal_inv_buffered:
  assumes "wal_inv crc w rs" "length payload \<le> MAX_PAYLOAD_BYTES" "next_lsn w < u64_max"
    and "wal_end w + HDR + length payload \<le> u64_max"
  shows "wal_inv crc (buffered crc w kind payload) (rs @ [(next_lsn w, kind, payload)])"
proof -
  have r: "record_fits (next_lsn w, kind, payload)" using assms(2,3) by (simp add: record_fits_def)
  have l: "list_all (\<lambda>(lsn, _, _). lsn < next_lsn w + 1) rs"
    using assms(1) by (auto simp: wal_inv_def list_all_iff)
  have "sorted_wrt (<) (map fst (rs @ [(next_lsn w, kind, payload)]))"
    using assms(1) by (auto simp: wal_inv_def list_all_iff sorted_wrt_append)
  then show ?thesis
    using assms r l length_frame [OF r, of crc] by (simp add: wal_inv_def buffered_def)
qed

lemma flush_inv:
  assumes "wal_inv crc w rs" "flush w = (w', r)"
  shows "wal_inv crc w' rs" "r = Ok () \<Longrightarrow> buf w' = []" "r \<noteq> Panic" "r = Err e \<Longrightarrow> e = Io"
    "wal_end w' = wal_end w" "next_lsn w' = next_lsn w" "limit w' = limit w"
proof -
  let ?f = "wal_file w" and ?n = "length (buf w)"
  have inv: "flushed w + ?n = wal_end w" "flushed w \<le> length (contents ?f)" "length (contents ?f) \<le> wal_end w"
    using assms(1) by (auto simp: wal_inv_def)
  consider "buf w = []" "w' = w" "r = Ok ()"
    | "w' = w\<lparr>wal_file := ?f\<lparr>contents := overwrite (contents ?f) (flushed w) (buf w)\<rparr>,
          flushed := flushed w + ?n, buf := []\<rparr>" "r = Ok ()"
    | k where "w' = w\<lparr>wal_file := ?f\<lparr>contents := overwrite (contents ?f) (flushed w) (take k (buf w))\<rparr>\<rparr>" "r = Err Io"
    using assms(2) by (auto simp: flush_def write_at_def Let_def split: if_splits)
  then show "wal_inv crc w' rs"
  proof cases
    case 1
    then show ?thesis using assms(1) by simp
  next
    case 2
    have "length (encode_log crc rs) = length (take (flushed w) (contents ?f) @ buf w)"
      using assms(1) by (simp add: wal_inv_def)
    then have "length (encode_log crc rs) = wal_end w" using inv by simp
    with 2 show ?thesis
      using assms(1) inv overwrite_at_end [of "flushed w" "contents ?f" "buf w"]
      by (simp add: wal_inv_def length_overwrite)
  next
    case 3
    then show ?thesis
      using assms(1) inv by (auto simp: wal_inv_def length_overwrite take_overwrite max_def min_def)
  qed
  show "r = Ok () \<Longrightarrow> buf w' = []" "r \<noteq> Panic" "r = Err e \<Longrightarrow> e = Io"
    "wal_end w' = wal_end w" "next_lsn w' = next_lsn w" "limit w' = limit w"
    using assms(2) by (auto simp: flush_def write_at_def Let_def split: if_splits)
qed

lemma flush_healthy: "healthy (wal_file w) \<Longrightarrow> \<exists>w'. flush w = (w', Ok ()) \<and> healthy (wal_file w')"
  by (cases "buf w = []") (simp_all add: flush_def write_at_def healthy_def Let_def)

lemma append_cases:
  "append crc w kind payload =
     (if length payload > MAX_PAYLOAD_BYTES then (w, Err TooLarge)
      else if next_lsn w + 1 > u64_max
      then (w, Err (CorruptWal (wal_end w) ''log sequence number space is exhausted''))
      else if wal_end w + HDR + length payload > u64_max then (w, Err TooLarge)
      else if (case limit w of Some cap \<Rightarrow> wal_end w + HDR + length payload > cap | None \<Rightarrow> False)
      then (w, Err (ResourceLimit ''WAL allowance full; reduce transaction size''))
      else let w' = buffered crc w kind payload in
        if length (buf w') \<ge> WAL_BUF then then_do (flush w') (\<lambda>v _. (v, Ok (next_lsn w)))
        else (w', Ok (next_lsn w)))"
proof (cases "length payload > MAX_PAYLOAD_BYTES \<or> next_lsn w + 1 > u64_max")
  case True
  then show ?thesis by (auto simp: append_def checked_add_u64_def)
next
  case False
  have small: "HDR + length payload \<le> MAX_FRAME_BYTES" "HDR + length payload \<le> u64_max"
    using False by (auto simp: wal_consts)
  then show ?thesis
    using False
    by (auto simp: append_def checked_add_u64_def Let_def buffered_def frame_def add.assoc split: option.splits)
qed

section \<open>Reopening\<close>

lemma wal_inv_empty_buffer:
  "wal_inv crc w rs \<Longrightarrow> buf w = [] \<Longrightarrow> contents (wal_file w) = encode_log crc rs \<and> wal_end w = length (encode_log crc rs)"
  by (auto simp: wal_inv_def)

lemma open_on_log:
  assumes "crc32c_crate crc" "healthy f" "length (contents f) + HDR \<le> u64_max"
    and "contents f = encode_log crc rs" "list_all record_fits rs" "sorted_wrt (<) (map fst rs)"
  defines "w \<equiv> \<lparr>wal_file = f, wal_end = length (contents f),
      next_lsn = (if rs = [] then 1 else fst (last rs) + 1), buf = [], flushed = length (contents f), limit = None\<rparr>"
  shows "open_on crc f = (f, Ok w)" "wal_inv crc w rs"
proof -
  have rd: "readable f" using assms(2,3) by (simp add: readable_def healthy_def)
  have same: "f\<lparr>contents := contents f\<rparr> = f" by simp
  show "open_on crc f = (f, Ok w)"
    using scan_log [OF assms(1) rd assms(4,5)] assms(2)
    by (simp add: open_on_def set_len_def healthy_def resize_to_def sync_data_def w_def same)
  have lt: "fst r \<le> fst (last rs)" if "r \<in> set rs" for r
  proof -
    have q: "rs = butlast rs @ [last rs]" using that by (cases "rs = []") simp_all
    have "sorted_wrt (<) (map fst (butlast rs @ [last rs]))" using assms(6) q by simp
    moreover have "r \<in> set (butlast rs @ [last rs])" using that q by simp
    ultimately show ?thesis by (auto simp: sorted_wrt_append)
  qed
  have nx: "next_lsn w \<le> u64_max"
    using assms(5) by (cases "rs = []") (auto simp: w_def list_all_iff record_fits_def dest!: last_in_set)
  have "list_all (\<lambda>(lsn, _, _). lsn < next_lsn w) rs"
    using lt by (force simp: w_def list_all_iff less_Suc_eq_le)
  then show "wal_inv crc w rs"
    using assms(3-6) nx by (simp add: wal_inv_def w_def)
qed

section \<open>The recovery passes over a log\<close>

text \<open>The records up to and including the last \<open>Commit\<close>.\<close>

definition committed :: "log_record list \<Rightarrow> log_record list" where
  "committed rs = rev (dropWhile (\<lambda>(_, kind, _). kind \<noteq> Commit) (rev rs))"

lemma committed_snoc:
  "committed (rs @ [(lsn, kind, payload)]) =
     (if kind = Commit then rs @ [(lsn, kind, payload)] else committed rs)"
  by (simp add: committed_def)

lemma committed_no_commit: "list_all (\<lambda>(_, kind, _). kind \<noteq> Commit) rs \<Longrightarrow> committed rs = []"
  by (auto simp: committed_def list_all_iff dropWhile_eq_Nil_conv)

lemma committed_append:
  "committed (rs @ qs) = (if list_all (\<lambda>(_, kind, _). kind \<noteq> Commit) qs then committed rs else rs @ committed qs)"
proof (induction qs rule: rev_induct)
  case (snoc q qs)
  obtain lsn kind payload where q: "q = (lsn, kind, payload)" by (cases q)
  have "committed (rs @ qs @ [q]) = committed ((rs @ qs) @ [q])" by simp
  then show ?case using snoc by (auto simp: q committed_snoc simp del: append_assoc)
qed simp

lemma read_frame:
  assumes "read_ok f = (\<lambda>_ _. True)" "contents f = pre @ frame crc (lsn, kind, payload) @ post"
    and "record_fits (lsn, kind, payload)"
  shows "read_at f (length pre) HDR = Ok (frame_header crc lsn kind payload)"
    and "read_at f (length pre + HDR) (length payload) = Ok payload"
proof -
  have h: "length (frame_header crc lsn kind payload) = HDR"
    using assms(3) by (intro frame_header_fields) (auto simp: record_fits_def)
  show "read_at f (length pre) HDR = Ok (frame_header crc lsn kind payload)"
    "read_at f (length pre + HDR) (length payload) = Ok payload"
    using assms h by (simp_all add: read_at_def frame_def slice_def)
qed

lemma committed_loop_log:
  assumes "read_ok f = (\<lambda>_ _. True)" "length (contents f) \<le> u64_max"
  shows "contents f = encode_log crc pre @ encode_log crc rs \<Longrightarrow> list_all record_fits rs \<Longrightarrow>
    committed_loop f (length (contents f)) (length (encode_log crc pre)) (length (encode_log crc (committed pre))) =
    Ok (length (encode_log crc (committed (pre @ rs))))"
proof (induction rs arbitrary: pre)
  case Nil
  then show ?case by (subst committed_loop.simps) simp
next
  case (Cons r rs)
  obtain lsn kind payload where r: "r = (lsn, kind, payload)" by (cases r)
  have fits: "record_fits (lsn, kind, payload)" using Cons.prems(2) r by simp
  then have f2: "length payload \<le> MAX_PAYLOAD_BYTES" "lsn < u64_max" by (auto simp: record_fits_def)
  note h = frame_header_fields [OF f2, where crc = crc and kind = kind]
  let ?off = "length (encode_log crc pre)" and ?len = "length (contents f)"
  have len: "?len = ?off + HDR + length payload + length (encode_log crc rs)"
    using Cons.prems(1) length_frame [OF fits, of crc] by (simp add: r)
  have rd: "read_at f ?off HDR = Ok (frame_header crc lsn kind payload)"
    using read_frame(1) [OF assms(1) _ fits, of "encode_log crc pre" crc "encode_log crc rs"] Cons.prems(1)
    by (simp add: r)
  have add: "checked_add_u64 ?off HDR = Some (?off + HDR)"
    "checked_add_u64 (?off + HDR) (length payload) = Some (?off + HDR + length payload)"
    using len assms(2) by (simp_all add: checked_add_u64_def)
  let ?pre = "pre @ [r]"
  have nx: "?off + HDR + length payload = length (encode_log crc ?pre)"
    using length_frame [OF fits, of crc] by (simp add: r add.assoc)
  have com: "(if kind = Commit then length (encode_log crc ?pre) else length (encode_log crc (committed pre))) =
      length (encode_log crc (committed ?pre))"
    by (simp add: r committed_snoc)
  have lt: "?off < ?len" "\<not> length payload > MAX_PAYLOAD_BYTES" "\<not> length (encode_log crc ?pre) > ?len"
    using len nx f2 by (simp_all add: HDR_def)
  have "committed_loop f ?len ?off (length (encode_log crc (committed pre))) =
      committed_loop f ?len (length (encode_log crc ?pre)) (length (encode_log crc (committed ?pre)))"
    unfolding committed_loop.simps [of f ?len ?off]
    using lt by (simp only: if_True rd obind.simps Let_def h(2) h(4) add nx rec_kind_roundtrip
        option.simps Option.bind.simps com if_False)
  also have "\<dots> = Ok (length (encode_log crc (committed (?pre @ rs))))"
    using Cons.prems by (intro Cons.IH) simp_all
  finally show ?case by simp
qed

lemma committed_end_log:
  assumes "wal_inv crc w rs" "buf w = []" "read_ok (wal_file w) = (\<lambda>_ _. True)"
  shows "committed_end w = Ok (length (encode_log crc (committed rs)))"
proof -
  note e = wal_inv_empty_buffer [OF assms(1,2)]
  have "length (contents (wal_file w)) \<le> u64_max" "list_all record_fits rs" using assms(1) e by (auto simp: wal_inv_def)
  then show ?thesis
    using committed_loop_log [OF assms(3), of crc "[]" rs] e assms(2) by (simp add: committed_end_def committed_def)
qed

text \<open>
  The reading loop of \<open>recover_from_log\<close> (core/kernel/src/store.rs), with the records in the order in
  which they are handed to \<open>apply\<close>.
\<close>

lemma record_at_Some:
  "record_at crc w off c = Ok (Some (lsn, kind, payload, nxt)) \<Longrightarrow> off + HDR \<le> nxt \<and> nxt \<le> c"
  by (auto simp: record_at_def Let_def obind_iffs checked_add_u64_Some split: if_splits)

function recovery_loop :: "crc_fn \<Rightarrow> wal \<Rightarrow> nat \<Rightarrow> nat \<Rightarrow> log_record list kresult" where
  "recovery_loop crc w committed_at off =
     (if off < committed_at then
        case record_at crc w off committed_at of
          Ok (Some (lsn, kind, payload, next)) \<Rightarrow>
            obind (recovery_loop crc w committed_at next) (\<lambda>rs. Ok ((lsn, kind, payload) # rs))
        | Ok None \<Rightarrow> Err (CorruptWal off ''committed recovery prefix ended early'')
        | Err e \<Rightarrow> Err e
        | Panic \<Rightarrow> Panic
      else Ok [])"
  by pat_completeness auto
termination
  by (relation "measure (\<lambda>(crc, w, committed_at, off). committed_at - off)")
    (auto dest!: record_at_Some simp: HDR_def)

declare recovery_loop.simps [simp del]

definition recovery_records :: "crc_fn \<Rightarrow> wal \<Rightarrow> log_record list kresult" where
  "recovery_records crc w = obind (committed_end w) (\<lambda>c. recovery_loop crc w c 0)"

lemma record_at_log:
  assumes "read_ok (wal_file w) = (\<lambda>_ _. True)"
    and "contents (wal_file w) = encode_log crc pre @ frame crc (lsn, kind, payload) @ post"
    and "record_fits (lsn, kind, payload)" "c \<le> wal_end w" "wal_end w \<le> u64_max"
    and "length (encode_log crc pre) + HDR + length payload \<le> c"
  shows "record_at crc w (length (encode_log crc pre)) c =
    Ok (Some (lsn, kind, payload, length (encode_log crc pre) + HDR + length payload))"
proof -
  let ?off = "length (encode_log crc pre)" and ?h = "frame_header crc lsn kind payload"
  have f2: "length payload \<le> MAX_PAYLOAD_BYTES" "lsn < u64_max" using assms(3) by (auto simp: record_fits_def)
  note h = frame_header_fields [OF f2, where crc = crc and kind = kind]
  note r = read_frame [OF assms(1-3)]
  have lt: "\<not> (?off > c \<or> c > wal_end w)" "?off \<noteq> c" "\<not> ?off + HDR > c"
    "\<not> ?off + HDR + length payload > c" "\<not> length payload > MAX_PAYLOAD_BYTES"
    using assms(4,6) f2 by (auto simp: HDR_def)
  have add: "checked_add_u64 ?off HDR = Some (?off + HDR)"
    "checked_add_u64 (?off + HDR) (length payload) = Some (?off + HDR + length payload)"
    using assms(4-6) by (simp_all add: checked_add_u64_def)
  show ?thesis
    unfolding record_at_def Let_def
    using lt by (simp only: if_False add of_option.simps obind.simps r h(2-4) h(6) rec_kind_roundtrip simp_thms)
qed

lemma recovery_loop_log:
  assumes "read_ok (wal_file w) = (\<lambda>_ _. True)" "c \<le> wal_end w" "wal_end w \<le> u64_max"
  shows "contents (wal_file w) = encode_log crc (pre @ rs) @ post \<Longrightarrow> list_all record_fits rs \<Longrightarrow>
    c = length (encode_log crc (pre @ rs)) \<Longrightarrow> recovery_loop crc w c (length (encode_log crc pre)) = Ok rs"
proof (induction rs arbitrary: pre)
  case Nil
  then show ?case by (subst recovery_loop.simps) simp
next
  case (Cons r rs)
  obtain lsn kind payload where r: "r = (lsn, kind, payload)" by (cases r)
  have fits: "record_fits (lsn, kind, payload)" using Cons.prems(2) r by simp
  let ?pre = "pre @ [r]"
  have nx: "length (encode_log crc pre) + HDR + length payload = length (encode_log crc ?pre)"
    using length_frame [OF fits, of crc] by (simp add: r add.assoc)
  have ra: "record_at crc w (length (encode_log crc pre)) c =
      Ok (Some (lsn, kind, payload, length (encode_log crc ?pre)))"
    using record_at_log [OF assms(1) _ fits assms(2,3), of crc pre "encode_log crc rs @ post"] Cons.prems(1,3) nx
    by (simp add: r)
  have "recovery_loop crc w c (length (encode_log crc ?pre)) = Ok rs"
    using Cons.prems by (intro Cons.IH) simp_all
  moreover have "length (encode_log crc pre) < c"
  proof -
    have "length (encode_log crc ?pre) \<le> c" using Cons.prems(3) by simp
    then show ?thesis using nx unfolding HDR_def by linarith
  qed
  ultimately show ?case by (subst recovery_loop.simps) (simp add: ra, simp add: r)
qed

lemma committed_prefix: "\<exists>qs. rs = committed rs @ qs"
proof -
  have "rev rs = takeWhile (\<lambda>(_, kind, _). kind \<noteq> Commit) (rev rs) @ dropWhile (\<lambda>(_, kind, _). kind \<noteq> Commit) (rev rs)"
    by simp
  then have "rs = committed rs @ rev (takeWhile (\<lambda>(_, kind, _). kind \<noteq> Commit) (rev rs))"
    unfolding committed_def by (metis rev_append rev_rev_ident)
  then show ?thesis by blast
qed

lemma recovery_records_log:
  assumes "wal_inv crc w rs" "buf w = []" "read_ok (wal_file w) = (\<lambda>_ _. True)"
  shows "recovery_records crc w = Ok (committed rs)"
proof -
  note e = wal_inv_empty_buffer [OF assms(1,2)]
  obtain qs where q: "rs = committed rs @ qs" using committed_prefix by blast
  have all: "list_all record_fits rs" "wal_end w \<le> u64_max" using assms(1) by (simp_all add: wal_inv_def)
  have fits: "list_all record_fits (committed rs)"
    using all(1) by (subst (asm) q) simp
  have c: "encode_log crc rs = encode_log crc (committed rs) @ encode_log crc qs"
    by (subst q) simp
  have "recovery_loop crc w (length (encode_log crc (committed rs))) (length (encode_log crc [])) = Ok (committed rs)"
    using e c fits by (intro recovery_loop_log [OF assms(3) _ all(2), where post = "encode_log crc qs"]) simp_all
  then show ?thesis by (simp add: recovery_records_def committed_end_log [OF assms])
qed

section \<open>Properties\<close>

text \<open>
  C19: Appending. The log is always the records appended so far, in order, whether they are still
  buffered, written, or partly written by a failed write: a successful append adds one record under
  the next sequence number and keeps the log within its allowance; a refused append changes nothing;
  a failed flush loses nothing, the records stay in the buffer for the next attempt. Nothing panics.
\<close>

theorem append_correct:
  assumes "wal_inv crc w rs"
  shows "case append crc w kind payload of
      (w', Ok lsn) \<Rightarrow> lsn = next_lsn w \<and> wal_inv crc w' (rs @ [(lsn, kind, payload)]) \<and>
        (\<forall>cap. limit w = Some cap \<longrightarrow> wal_end w' \<le> cap)
    | (w', Err e) \<Rightarrow> if e = Io then wal_inv crc w' (rs @ [(next_lsn w, kind, payload)]) else w' = w
    | (w', Panic) \<Rightarrow> False"
proof (cases "length payload > MAX_PAYLOAD_BYTES \<or> next_lsn w + 1 > u64_max \<or>
    wal_end w + HDR + length payload > u64_max \<or>
    (case limit w of Some cap \<Rightarrow> wal_end w + HDR + length payload > cap | None \<Rightarrow> False)")
  case True
  then show ?thesis by (auto simp: append_cases)
next
  case False
  let ?v = "buffered crc w kind payload"
  have inv: "wal_inv crc ?v (rs @ [(next_lsn w, kind, payload)])"
    using False by (intro wal_inv_buffered [OF assms]) auto
  have cap: "limit w = Some cap \<Longrightarrow> wal_end ?v \<le> cap" for cap using False by (simp add: buffered_def)
  show ?thesis
  proof (cases "length (buf ?v) \<ge> WAL_BUF")
    case True
    obtain w' r where f: "flush ?v = (w', r)" by (cases "flush ?v")
    have "append crc w kind payload = then_do (w', r) (\<lambda>v _. (v, Ok (next_lsn w)))"
      using False True f by (simp add: append_cases Let_def)
    then show ?thesis
      using flush_inv [OF inv f] cap by (cases r) (auto simp: buffered_def)
  next
    case small: False
    then have "append crc w kind payload = (?v, Ok (next_lsn w))"
      using False by (simp add: append_cases Let_def)
    then show ?thesis using inv cap by simp
  qed
qed

definition empty_wal :: wal where
  "empty_wal = \<lparr>wal_file = good_file [], wal_end = 0, next_lsn = 1, buf = [], flushed = 0, limit = Some 100\<rparr>"

lemma empty_wal_inv: "wal_inv crc empty_wal []"
  by (simp add: wal_inv_def empty_wal_def)

theorem append_correct_witness:
  "\<exists>w'. append crc32c_append empty_wal Put [7] = (w', Ok 1) \<and> wal_inv crc32c_append w' [(1, Put, [7])]"
proof -
  have "snd (append crc32c_append empty_wal Put [7]) = Ok 1"
    by (simp add: append_cases empty_wal_def wal_consts Let_def buffered_def frame_def frame_header_def)
  then show ?thesis
    using append_correct [OF empty_wal_inv, of crc32c_append Put "[7]"]
    by (cases "append crc32c_append empty_wal Put [7]") (auto simp: empty_wal_def)
qed



text \<open>
  C21: After recovery the log is cut back to its committed prefix: the records after the last commit
  marker are gone from the file, so no later commit marker can follow them and make them part of a
  transaction; the kept prefix is still a log under the same sequence numbers.
\<close>

theorem cut_to_committed_correct:
  assumes "wal_inv crc w rs" "buf w = []" "read_ok (wal_file w) = (\<lambda>_ _. True)"
    and "committed_end w = Ok c" "cut_to_committed w c = (w', Ok ())"
  shows "wal_inv crc w' (committed rs) \<and> buf w' = [] \<and> contents (wal_file w') = encode_log crc (committed rs)"
proof -
  note e = wal_inv_empty_buffer [OF assms(1,2)]
  obtain qs where q: "rs = committed rs @ qs" using committed_prefix by blast
  have c: "c = length (encode_log crc (committed rs))" using committed_end_log [OF assms(1-3)] assms(4) by simp
  have enc: "encode_log crc rs = encode_log crc (committed rs) @ encode_log crc qs" by (subst q) simp
  have i: "list_all record_fits rs" "list_all (\<lambda>(lsn, _, _). lsn < next_lsn w) rs" "sorted_wrt (<) (map fst rs)"
      "next_lsn w \<le> u64_max" "wal_end w \<le> u64_max"
    using assms(1) by (auto simp: wal_inv_def)
  have parts: "list_all record_fits (committed rs)" "list_all (\<lambda>(lsn, _, _). lsn < next_lsn w) (committed rs)"
      "sorted_wrt (<) (map fst (committed rs))"
    using i(1) by (subst (asm) q, simp) (use i(2) in \<open>subst (asm) q, simp\<close>, use i(3) in \<open>subst (asm) q, simp add: sorted_wrt_append\<close>)
  have w': "contents (wal_file w') = encode_log crc (committed rs)" "buf w' = []" "wal_end w' = c" "flushed w' = c"
      "next_lsn w' = next_lsn w"
    using assms(2,5) e enc c
    by (auto simp: cut_to_committed_def set_len_def sync_data_def resize_to_shrink Let_def wal_inv_def
        split: if_splits, (use assms(1) in \<open>auto simp: wal_inv_def\<close>)+)
  show ?thesis using w' c parts i(4,5) enc e by (simp add: wal_inv_def)
qed

lemma cut_healthy: "healthy (wal_file w) \<Longrightarrow> \<exists>w'. cut_to_committed w c = (w', Ok ())"
  by (cases "c < wal_end w") (simp_all add: cut_to_committed_def set_len_def sync_data_def healthy_def Let_def)

theorem cut_to_committed_correct_witness:
  "\<exists>v w'. open_on crc32c_append (good_file (encode_log crc32c_append [(1, Commit, []), (2, Put, [7])])) =
       (good_file (encode_log crc32c_append [(1, Commit, []), (2, Put, [7])]), Ok v) \<and>
     committed_end v = Ok 20 \<and> cut_to_committed v 20 = (w', Ok ()) \<and>
     contents (wal_file w') = encode_log crc32c_append [(1, Commit, [])]"
proof -
  let ?rs = "[(1, Commit, []), (2, Put, [7])] :: log_record list"
  let ?f = "good_file (encode_log crc32c_append ?rs)"
  have fits: "list_all record_fits ?rs" by (simp add: record_fits_def wal_consts)
  have len: "length (encode_log crc32c_append ?rs) = 41" "length (encode_log crc32c_append [(1, Commit, [])]) = 20"
    using length_frame [of 1 Commit "[]" crc32c_append] length_frame [of 2 Put "[7]" crc32c_append] fits
    by (simp_all add: HDR_def)
  obtain v where v: "open_on crc32c_append ?f = (?f, Ok v)" "wal_inv crc32c_append v ?rs" "buf v = []" "wal_file v = ?f"
    using open_on_log [OF castagnoli_crate good_file_simps(1), of "encode_log crc32c_append ?rs" ?rs] fits len
    by (auto simp: HDR_def)
  have rd: "read_ok (wal_file v) = (\<lambda>_ _. True)" using v(4) by (simp add: good_file_def)
  have c: "committed ?rs = [(1, Commit, [])]" by (simp add: committed_def)
  have ce: "committed_end v = Ok 20" using committed_end_log [OF v(2,3) rd] len c by simp
  obtain w' where w': "cut_to_committed v 20 = (w', Ok ())"
    using cut_healthy [of v 20] by (auto simp: v(4))
  show ?thesis using cut_to_committed_correct [OF v(2,3) rd ce w'] v(1) ce w' c by auto
qed

section \<open>Salvage\<close>

text \<open>A frame the salvage may copy: its bounds in the source and its kind.\<close>

type_synonym extent = "nat \<times> nat \<times> rec_kind"

definition extent_bytes :: "posix_file \<Rightarrow> extent list \<Rightarrow> bytes" where
  "extent_bytes f es = concat (map (\<lambda>(a, b, _). slice (contents f) a b) es)"

definition verified :: "crc_fn \<Rightarrow> posix_file \<Rightarrow> extent \<Rightarrow> bool" where
  "verified crc f e \<longleftrightarrow> (case e of (a, b, kind) \<Rightarrow> candidate_at crc f a (length (contents f)) = Ok (Valid b kind))"

text \<open>Two consecutive copied frames are neighbours in the source unless the first one is a commit.\<close>

fun linked :: "extent list \<Rightarrow> bool" where
  "linked ((a, b, k) # (a', b', k') # es) \<longleftrightarrow> (b = a' \<or> k = Commit) \<and> linked ((a', b', k') # es)"
| "linked _ \<longleftrightarrow> True"

definition upto_commit :: "extent list \<Rightarrow> extent list" where
  "upto_commit es = rev (dropWhile (\<lambda>(_, _, k). k \<noteq> Commit) (rev es))"

lemma upto_commit_snoc: "upto_commit (es @ [(a, b, k)]) = (if k = Commit then es @ [(a, b, k)] else upto_commit es)"
  by (simp add: upto_commit_def)

lemma upto_commit_last: "upto_commit es = [] \<or> snd (snd (last (upto_commit es))) = Commit"
proof -
  let ?P = "\<lambda>(_, _, k). k \<noteq> Commit"
  have "dropWhile ?P (rev es) = [] \<or> \<not> ?P (hd (dropWhile ?P (rev es)))"
    by (cases "dropWhile ?P (rev es) = []") (rule disjI1, assumption, rule disjI2, rule hd_dropWhile)
  then show ?thesis by (auto simp: upto_commit_def last_rev split: prod.splits)
qed

lemma upto_commit_prefix: "\<exists>qs. es = upto_commit es @ qs"
proof -
  let ?P = "\<lambda>(_, _, k). k \<noteq> Commit"
  have "rev es = takeWhile ?P (rev es) @ dropWhile ?P (rev es)" by simp
  then have "es = upto_commit es @ rev (takeWhile ?P (rev es))"
    unfolding upto_commit_def by (metis rev_append rev_rev_ident)
  then show ?thesis by blast
qed

lemma upto_commit_idem [simp]: "upto_commit (upto_commit es) = upto_commit es"
  unfolding upto_commit_def by (simp add: dropWhile_idem)

lemma linked_append_left: "linked (es @ qs) \<Longrightarrow> linked es"
proof (induction es rule: linked.induct)
  case (1 a b k a' b' k' es)
  then show ?case by simp
qed auto

lemma linked_snoc:
  "linked es \<Longrightarrow> es = [] \<or> fst (snd (last es)) = a \<or> snd (snd (last es)) = Commit \<Longrightarrow> linked (es @ [(a, b, k)])"
  by (induction es rule: linked.induct) auto

lemma copy_range_appends:
  "copy_range src dst pos at n = (dst', Ok ()) \<Longrightarrow> length (contents dst) = pos \<Longrightarrow>
   at + n \<le> length (contents src) \<Longrightarrow>
   contents dst' = contents dst @ slice (contents src) at (at + n)"
proof (induction src dst pos at n rule: copy_range.induct)
  case (1 src dst pos at n)
  show ?case
  proof (cases "n > 0")
    case True
    let ?m = "min n CRC_CHUNK"
    have m: "?m \<le> n" "0 < ?m" using True by (auto simp: wal_consts)
    obtain chunk where chunk: "read_at src at ?m = Ok chunk"
      using "1.prems"(1) True by (subst (asm) copy_range.simps) (cases "read_at src at ?m"; auto simp: Let_def)
    note c = read_at_Ok [OF chunk]
    obtain d r where d: "write_at dst chunk pos = (d, r)" by (cases "write_at dst chunk pos")
    have "r = Ok ()" "copy_range src d (pos + ?m) (at + ?m) (n - ?m) = (dst', Ok ())"
      using "1.prems"(1) True unfolding copy_range.simps [of src dst pos at n]
      by (cases r; simp add: Let_def chunk d)+
    moreover have "contents d = contents dst @ chunk"
      using d \<open>r = Ok ()\<close> "1.prems"(2) overwrite_at_end [of pos "contents dst" chunk]
      by (auto simp: write_at_def overwrite_def put_at_def resize_to_def split: if_splits)
    moreover have "length chunk = ?m" using c by auto
    ultimately have "contents dst' = (contents dst @ chunk) @ slice (contents src) (at + ?m) (at + n)"
      using "1.IH" [OF True refl] d "1.prems"(2,3) m by (simp add: add.assoc)
    then show ?thesis using slice_split [of at "at + ?m" "at + n" "contents src"] c m by simp
  next
    case False
    then show ?thesis using "1.prems"(1) by (subst (asm) copy_range.simps) simp
  qed
qed

text \<open>The state of the salvage loop: what was copied so far, as extents of the source.\<close>

definition salvage_inv :: "crc_fn \<Rightarrow> posix_file \<Rightarrow> posix_file \<Rightarrow> nat \<Rightarrow> nat \<Rightarrow> nat \<Rightarrow> bool \<Rightarrow> extent list \<Rightarrow> bool" where
  "salvage_inv crc f out src_off out_end last_commit resync es \<longleftrightarrow>
     contents out = extent_bytes f es \<and> out_end = length (extent_bytes f es) \<and>
     last_commit = length (extent_bytes f (upto_commit es)) \<and> list_all (verified crc f) es \<and> linked es \<and>
     (es = [] \<or> snd (snd (last es)) = Commit \<or> \<not> resync \<and> fst (snd (last es)) = src_off)"

lemma extent_bytes_simps [simp]:
  "extent_bytes f [] = []" "extent_bytes f (es @ qs) = extent_bytes f es @ extent_bytes f qs"
  "extent_bytes f ((a, b, k) # es) = slice (contents f) a b @ extent_bytes f es"
  by (simp_all add: extent_bytes_def)

lemma salvage_inv_cut:
  assumes "salvage_inv crc f out src_off out_end last_commit resync es" "set_len out last_commit = (out', Ok ())"
  shows "salvage_inv crc f out' off last_commit last_commit True (upto_commit es)"
    and "contents out' = extent_bytes f (upto_commit es)"
proof -
  obtain qs where q: "es = upto_commit es @ qs" using upto_commit_prefix by blast
  have b: "extent_bytes f es = extent_bytes f (upto_commit es) @ extent_bytes f qs" by (subst q) simp
  show c: "contents out' = extent_bytes f (upto_commit es)"
    using assms b by (auto simp: salvage_inv_def set_len_def resize_to_shrink split: if_splits)
  have i: "list_all (verified crc f) es" "linked es" "last_commit = length (extent_bytes f (upto_commit es))"
    using assms(1) by (auto simp: salvage_inv_def)
  have "list_all (verified crc f) (upto_commit es)" using i(1) by (subst (asm) q) simp
  moreover have "linked (upto_commit es)" using i(2) by (subst (asm) q) (rule linked_append_left)
  ultimately show "salvage_inv crc f out' off last_commit last_commit True (upto_commit es)"
    using c i(3) upto_commit_last [of es] by (auto simp: salvage_inv_def)
qed

lemma salvage_inv_copy:
  assumes "salvage_inv crc f out src_off out_end last_commit False es"
    and "candidate_at crc f src_off (length (contents f)) = Ok (Valid nxt kind)"
    and "copy_range f out out_end src_off (nxt - src_off) = (out', Ok ())"
  shows "salvage_inv crc f out' nxt (out_end + (nxt - src_off))
    (if kind = Commit then out_end + (nxt - src_off) else last_commit) False (es @ [(src_off, nxt, kind)])"
proof -
  note v = candidate_at_Valid [OF assms(2)]
  have "contents out' = contents out @ slice (contents f) src_off nxt"
    using copy_range_appends [OF assms(3)] assms(1) v by (auto simp: salvage_inv_def HDR_def)
  moreover have "length (slice (contents f) src_off nxt) = nxt - src_off" using v by auto
  moreover have "verified crc f (src_off, nxt, kind)" using assms(2) by (simp add: verified_def)
  moreover have "linked (es @ [(src_off, nxt, kind)])"
    using assms(1) by (intro linked_snoc) (auto simp: salvage_inv_def)
  ultimately show ?thesis
    using assms(1) by (auto simp: salvage_inv_def upto_commit_snoc)
qed

lemma salvage_loop_inv:
  "salvage_loop crc f len src_off out out_end last_commit resync = (out', Ok lc) \<Longrightarrow> len = length (contents f) \<Longrightarrow>
   salvage_inv crc f out src_off out_end last_commit resync es \<Longrightarrow>
   \<exists>es' off oe rs'. salvage_inv crc f out' off oe lc rs' es'"
proof (induction crc f len src_off out out_end last_commit resync arbitrary: es rule: salvage_loop.induct)
  case (1 crc f len src_off out out_end last_commit resync)
  note unfold = "1.prems"(1) [unfolded salvage_loop.simps [of crc f len src_off]]
  show ?case
  proof (cases "src_off < len")
    case False
    then have "out' = out" "lc = last_commit" using unfold by auto
    then show ?thesis using "1.prems"(3) by blast
  next
    case True
    show ?thesis
    proof (cases "candidate_at crc f src_off len")
      case (Ok c)
      show ?thesis
      proof (cases c)
        case (Valid nxt kind)
        show ?thesis
        proof (cases resync)
          case r: True
          have "salvage_inv crc f out nxt out_end last_commit (kind \<noteq> Commit) es"
            using "1.prems"(3) r by (auto simp: salvage_inv_def)
          moreover have "salvage_loop crc f len nxt out out_end last_commit (kind \<noteq> Commit) = (out', Ok lc)"
            using unfold True Ok Valid r by simp
          ultimately show ?thesis using "1.IH"(1) [OF True Ok Valid r] "1.prems"(2) by blast
        next
          case r: False
          obtain d x where d: "copy_range f out out_end src_off (nxt - src_off) = (d, x)"
            by (cases "copy_range f out out_end src_off (nxt - src_off)")
          have x: "x = Ok ()" using unfold True Ok Valid r d by (cases x) auto
          obtain oe where oe: "checked_add_u64 out_end (nxt - src_off) = Some oe"
            using unfold True Ok Valid r d x by (cases "checked_add_u64 out_end (nxt - src_off)") auto
          then have oe': "oe = out_end + (nxt - src_off)" by (simp add: checked_add_u64_Some)
          have inv: "salvage_inv crc f out src_off out_end last_commit False es"
            using "1.prems"(3) r by simp
          have "salvage_inv crc f d nxt oe (if kind = Commit then oe else last_commit) False (es @ [(src_off, nxt, kind)])"
            unfolding oe' by (rule salvage_inv_copy [OF inv _ d [unfolded x]]) (use Ok Valid "1.prems"(2) in simp)
          moreover have "salvage_loop crc f len nxt d oe (if kind = Commit then oe else last_commit) False = (out', Ok lc)"
            using unfold True Ok Valid r d x oe by simp
          ultimately show ?thesis using "1.IH"(2) [OF True Ok Valid r] oe "1.prems"(2) by blast
        qed
      next
        case Invalid
        obtain d x where d: "set_len out last_commit = (d, x)" by (cases "set_len out last_commit")
        have x: "x = Ok ()" using unfold True Ok Invalid d by (cases x) auto
        obtain so where so: "checked_add_u64 src_off 1 = Some so"
          using unfold True Ok Invalid d x by (cases "checked_add_u64 src_off 1") auto
        have "salvage_inv crc f d so last_commit last_commit True (upto_commit es)"
          using salvage_inv_cut(1) [OF "1.prems"(3) d [unfolded x]] .
        moreover have "salvage_loop crc f len so d last_commit last_commit True = (out', Ok lc)"
          using unfold True Ok Invalid d x so by simp
        ultimately show ?thesis using "1.IH"(3) [OF True Ok Invalid] so "1.prems"(2) by blast
      qed
    qed (use unfold True in auto)
  qed
qed

lemma hash_chunks_Ok:
  "hash_chunks crc f at left h first = Ok x \<Longrightarrow> crc32c_crate crc \<Longrightarrow> at + left \<le> length (contents f) \<Longrightarrow>
   (first \<Longrightarrow> h = 0) \<Longrightarrow> x = crc h (slice (contents f) at (at + left))"
proof (induction crc f at left h first rule: hash_chunks.induct)
  case (1 crc f at left h first)
  show ?case
  proof (cases "left > 0")
    case True
    let ?m = "min left CRC_CHUNK"
    obtain chunk where c: "read_at f at ?m = Ok chunk"
        "hash_chunks crc f (at + ?m) (left - ?m) (if first then crc 0 chunk else crc h chunk) False = Ok x"
      using "1.prems"(1) True by (subst (asm) hash_chunks.simps) (auto simp: Let_def obind_Ok_iff)
    note r = read_at_Ok [OF c(1)]
    have "x = crc (if first then crc 0 chunk else crc h chunk) (slice (contents f) (at + ?m) (at + ?m + (left - ?m)))"
      using "1.IH" [OF True refl c(1,2) "1.prems"(2)] "1.prems"(3) by simp
    then have "x = crc h (chunk @ slice (contents f) (at + ?m) (at + left))"
      using "1.prems"(4) crc_facts(2) [OF "1.prems"(2)] by (cases first) simp_all
    then show ?thesis using slice_split [of at "at + ?m" "at + left" "contents f"] r by simp
  next
    case False
    then have "hash_chunks crc f at left h first = Ok h" by (subst hash_chunks.simps) simp
    then show ?thesis using "1.prems" False crc_facts(1) [OF "1.prems"(2)] by simp
  qed
qed

lemma hash_chunks_reads:
  "read_ok f = (\<lambda>_ _. True) \<Longrightarrow> at + left \<le> length (contents f) \<Longrightarrow> \<exists>h. hash_chunks crc f at left c first = Ok h"
proof (induction crc f at left c first rule: hash_chunks.induct)
  case (1 crc f at left c first)
  then show ?case by (subst hash_chunks.simps) (auto simp: Let_def read_at_def)
qed

lemma hash_prefix_reads:
  "read_ok f = (\<lambda>_ _. True) \<Longrightarrow> n \<le> length (contents f) \<Longrightarrow> \<exists>h. hash_prefix crc f n = Ok h"
  using hash_chunks_reads [of f 0 n] by (simp add: hash_prefix_def)

lemma candidate_at_frame:
  assumes "crc32c_crate crc" "readable f" "contents f = pre @ frame crc (lsn, kind, payload) @ post"
    and "record_fits (lsn, kind, payload)"
  shows "candidate_at crc f (length pre) (length (contents f)) = Ok (Valid (length pre + HDR + length payload) kind)"
proof -
  let ?h = "frame_header crc lsn kind payload" and ?off = "length pre" and ?len = "length (contents f)"
  have fits: "length payload \<le> MAX_PAYLOAD_BYTES" "lsn < u64_max" using assms(4) by (auto simp: record_fits_def)
  note h = frame_header_fields [OF fits, where crc = crc and kind = kind]
  have rd: "read_ok f = (\<lambda>_ _. True)" and bound: "?len \<le> u64_max"
    using assms(2) by (auto simp: readable_def)
  have len: "?len = ?off + HDR + length payload + length post" using assms(3) h(1) by (simp add: frame_def)
  have pl: "slice (contents f) (?off + HDR) (?off + HDR + length payload) = payload"
    using assms(3) h(1) by (simp add: frame_def slice_def)
  have crc: "frame_crc_from_file crc f ?h (?off + HDR) (length payload) = Ok (hdr_crc ?h)"
    using frame_crc_from_file_reads [OF assms(1) rd, of "?off + HDR" "length payload" ?h] len bound pl h(6) by simp
  have add: "checked_add_u64 ?off HDR = Some (?off + HDR)"
    "checked_add_u64 (?off + HDR) (length payload) = Some (?off + HDR + length payload)"
    "checked_add_u64 lsn 1 = Some (lsn + 1)"
    using fits bound len by (simp_all add: checked_add_u64_def)
  have ok: "\<not> ?off + HDR > ?len" "\<not> ?off + HDR + length payload > ?len" "\<not> length payload > MAX_PAYLOAD_BYTES"
    "has_writer_header_shape ?h"
    using fits len h add by (simp_all add: has_writer_header_shape_def)
  show ?thesis
    unfolding candidate_at_def Let_def
    using ok by (simp only: add option.simps if_False read_frame(1) [OF rd assms(3,4)] obind.simps h(2) h(3) h(4) crc
        rec_kind_roundtrip simp_thms)
qed

lemma copy_range_healthy:
  "read_ok src = (\<lambda>_ _. True) \<Longrightarrow> healthy dst \<Longrightarrow> at + n \<le> length (contents src) \<Longrightarrow>
   \<exists>dst'. copy_range src dst pos at n = (dst', Ok ()) \<and> healthy dst'"
proof (induction src dst pos at n rule: copy_range.induct)
  case (1 src dst pos at n)
  show ?case
  proof (cases "n > 0")
    case True
    let ?m = "min n CRC_CHUNK"
    let ?c = "slice (contents src) at (at + ?m)"
    have r: "read_at src at ?m = Ok ?c" using "1.prems" by (simp add: read_at_def)
    obtain d where d: "write_at dst ?c pos = (d, Ok ())" "healthy d"
      using "1.prems"(2) by (simp add: write_at_def healthy_def)
    have "\<exists>dst'. copy_range src d (pos + ?m) (at + ?m) (n - ?m) = (dst', Ok ()) \<and> healthy dst'"
      using "1.IH" [OF True refl "1.prems"(1) d(2)] "1.prems"(3) by simp
    then show ?thesis
      unfolding copy_range.simps [of src dst pos at n] using True by (simp add: Let_def r d(1))
  next
    case False
    then show ?thesis using "1.prems" by (subst copy_range.simps) simp
  qed
qed

lemma salvage_loop_log:
  assumes "crc32c_crate crc" "readable f"
  shows "healthy out \<Longrightarrow> contents f = encode_log crc (pre @ rs) \<Longrightarrow> list_all record_fits rs \<Longrightarrow>
    contents out = encode_log crc pre \<Longrightarrow>
    \<exists>out'. salvage_loop crc f (length (contents f)) (length (encode_log crc pre)) out (length (encode_log crc pre))
        (length (encode_log crc (committed pre))) False =
      (out', Ok (length (encode_log crc (committed (pre @ rs))))) \<and> healthy out' \<and>
      contents out' = encode_log crc (pre @ rs)"
proof (induction rs arbitrary: pre out)
  case Nil
  then show ?case by (subst salvage_loop.simps) simp
next
  case (Cons r rs)
  obtain lsn kind payload where r: "r = (lsn, kind, payload)" by (cases r)
  have fits: "record_fits (lsn, kind, payload)" using Cons.prems(3) r by simp
  let ?pre = "pre @ [r]" and ?off = "length (encode_log crc pre)" and ?len = "length (contents f)"
  have nx: "?off + HDR + length payload = length (encode_log crc ?pre)"
    using length_frame [OF fits, of crc] by (simp add: r add.assoc)
  have cand: "candidate_at crc f ?off ?len = Ok (Valid (length (encode_log crc ?pre)) kind)"
    using candidate_at_frame [OF assms _ fits, of "encode_log crc pre" "encode_log crc rs"] Cons.prems(2) nx
    by (simp add: r)
  have len: "length (encode_log crc ?pre) \<le> ?len" "?off < length (encode_log crc ?pre)" "?len \<le> u64_max"
    using Cons.prems(2) nx assms(2) by (auto simp: readable_def HDR_def simp del: encode_log_simps) (simp add: HDR_def)
  let ?n = "length (encode_log crc ?pre) - ?off"
  have rng: "?off + ?n \<le> ?len" using len by linarith
  obtain out1 where o1: "copy_range f out ?off ?off ?n = (out1, Ok ())" "healthy out1"
    using copy_range_healthy [OF _ Cons.prems(1) rng] assms(2) by (auto simp: readable_def)
  have "contents out1 = contents out @ slice (contents f) ?off (?off + ?n)"
    using copy_range_appends [OF o1(1) _ rng] Cons.prems(4) by simp
  moreover have "slice (contents f) ?off (?off + ?n) = frame crc r"
    using Cons.prems(2) len by (simp add: slice_def)
  ultimately have c1: "contents out1 = encode_log crc ?pre" using Cons.prems(4) by simp
  have add: "checked_add_u64 ?off ?n = Some (length (encode_log crc ?pre))"
    using len by (auto simp: checked_add_u64_def)
  have com: "(if kind = Commit then length (encode_log crc ?pre) else length (encode_log crc (committed pre))) =
      length (encode_log crc (committed ?pre))"
    by (simp add: r committed_snoc)
  have "?off < ?len" using len by linarith
  then have "salvage_loop crc f ?len ?off out ?off (length (encode_log crc (committed pre))) False =
      salvage_loop crc f ?len (length (encode_log crc ?pre)) out1 (length (encode_log crc ?pre))
        (length (encode_log crc (committed ?pre))) False"
    unfolding salvage_loop.simps [of crc f ?len ?off]
    by (simp only: if_True cand outcome.simps candidate.simps if_False o1(1) then_do_simps add option.simps com)
  moreover have "contents f = encode_log crc (?pre @ rs)" "list_all record_fits rs" using Cons.prems(2,3) by simp_all
  ultimately show ?case using Cons.IH [OF o1(2) _ _ c1] by simp
qed

text \<open>
  C22: Salvaging a damaged log. Whatever the source holds, a salvage that succeeds has written only
  frames that verify in the source, in source order within each transaction (two consecutive output
  frames are neighbours in the source unless a commit ends the first), it ends with a commit, and it
  reports the length and the checksum of what it wrote.
\<close>

theorem salvage_safe:
  assumes "crc32c_crate crc" "salvage_committed crc src dst = (out, Ok s)"
  shows "\<exists>es. contents out = extent_bytes src es \<and> list_all (verified crc src) es \<and> linked es \<and>
    (es = [] \<or> snd (snd (last es)) = Commit) \<and>
    salvaged_bytes s = length (contents out) \<and> salvaged_hash s = crc 0 (contents out)"
proof -
  have len: "file_len src = Ok (length (contents src))" using assms(2)
    by (auto simp: salvage_committed_def file_len_def split: if_splits)
  let ?o = "dst\<lparr>contents := []\<rparr>" and ?len = "length (contents src)"
  obtain o1 x1 where l: "salvage_loop crc src ?len 0 ?o 0 0 False = (o1, x1)"
    by (cases "salvage_loop crc src ?len 0 ?o 0 0 False")
  obtain lc where x1: "x1 = Ok lc" using assms(2) len l by (cases x1) (auto simp: salvage_committed_def Let_def)
  obtain o2 x2 where c: "set_len o1 lc = (o2, x2)" by (cases "set_len o1 lc")
  have x2: "x2 = Ok ()" using assms(2) len l x1 c by (cases x2) (auto simp: salvage_committed_def Let_def)
  have sy: "sync_data o2 = Ok ()" using assms(2) len l x1 c x2
    by (cases "sync_data o2") (auto simp: salvage_committed_def Let_def)
  obtain h where h: "hash_prefix crc o2 lc = Ok h" using assms(2) len l x1 c x2 sy
    by (cases "hash_prefix crc o2 lc") (auto simp: salvage_committed_def Let_def)
  have out: "out = o2" "s = \<lparr>salvaged_bytes = lc, salvaged_hash = h\<rparr>"
    using assms(2) len l x1 c x2 sy h by (auto simp: salvage_committed_def Let_def)
  have "salvage_inv crc src ?o 0 0 0 False []" by (simp add: salvage_inv_def upto_commit_def)
  then obtain es off oe rs where inv: "salvage_inv crc src o1 off oe lc rs es"
    using salvage_loop_inv [OF l [unfolded x1] refl] by blast
  note cut = salvage_inv_cut [OF inv c [unfolded x2]]
  have lc: "lc = length (contents o2)" using inv cut(2) by (simp add: salvage_inv_def)
  have "h = crc 0 (contents o2)"
    using hash_chunks_Ok [OF h [unfolded hash_prefix_def] assms(1)] lc by (simp add: slice_def)
  then show ?thesis
    using cut(1) [of 0] cut(2) out lc upto_commit_last [of es] by (intro exI [of _ "upto_commit es"]) (auto simp: salvage_inv_def)
qed

text \<open>
  Salvaging an intact log recovers everything that was committed: the output is exactly the
  encoding of the records up to the last commit.
\<close>

theorem salvage_intact_log:
  assumes "crc32c_crate crc" "readable src" "healthy dst"
    and "contents src = encode_log crc rs" "list_all record_fits rs"
  shows "\<exists>out s. salvage_committed crc src dst = (out, Ok s) \<and>
    contents out = encode_log crc (committed rs) \<and> salvaged_bytes s = length (contents out)"
proof -
  let ?o = "dst\<lparr>contents := []\<rparr>" and ?len = "length (contents src)"
  have o: "healthy ?o" "contents ?o = encode_log crc []" using assms(3) by (simp_all add: healthy_def)
  let ?lc = "length (encode_log crc (committed rs))"
  obtain o1 where o1: "salvage_loop crc src ?len 0 ?o 0 0 False = (o1, Ok ?lc)" "healthy o1"
      "contents o1 = encode_log crc rs"
    using salvage_loop_log [OF assms(1,2) o(1) _ assms(5) o(2)] assms(4) by (auto simp: committed_def)
  obtain qs where q: "rs = committed rs @ qs" using committed_prefix by blast
  have enc: "encode_log crc rs = encode_log crc (committed rs) @ encode_log crc qs" by (subst q) simp
  obtain o2 where o2: "set_len o1 ?lc = (o2, Ok ())" "healthy o2" "contents o2 = encode_log crc (committed rs)"
    using o1(2,3) enc by (simp add: set_len_def healthy_def resize_to_shrink)
  have sy: "sync_data o2 = Ok ()" using o2(2) by (simp add: sync_data_def healthy_def)
  obtain h where "hash_prefix crc o2 ?lc = Ok h"
    using hash_prefix_reads [of o2 ?lc crc] o2(2,3) by (auto simp: healthy_def)
  moreover have "file_len src = Ok ?len" using assms(2) by (simp add: file_len_def readable_def)
  ultimately show ?thesis using o1(1) o2 sy by (simp add: salvage_committed_def Let_def)
qed

lemma committed_sample: "committed sample_log = sample_log"
  by (simp add: committed_def sample_log_def)

theorem salvage_intact_log_witness:
  "\<exists>out s. salvage_committed crc32c_append (good_file (encode_log crc32c_append sample_log)) (good_file []) = (out, Ok s) \<and>
     contents out = encode_log crc32c_append sample_log \<and> salvaged_bytes s = 41"
  using salvage_intact_log [OF castagnoli_crate sample_file_readable [of crc32c_append] good_file_simps(1) _ sample_log_fits]
  by (simp add: committed_sample sample_log_length) (metis sample_log_length)

theorem salvage_safe_witness:
  "\<exists>out s es. salvage_committed crc32c_append (good_file (encode_log crc32c_append sample_log)) (good_file []) = (out, Ok s) \<and>
     contents out = extent_bytes (good_file (encode_log crc32c_append sample_log)) es \<and> linked es \<and>
     salvaged_hash s = crc32c_append 0 (contents out)"
proof -
  let ?f = "good_file (encode_log crc32c_append sample_log)"
  have o: "healthy (good_file [])" "contents (good_file []) = encode_log crc32c_append []" by simp_all
  obtain o1 where l: "salvage_loop crc32c_append ?f 41 0 (good_file []) 0 0 False = (o1, Ok 41)"
      "healthy o1" "contents o1 = encode_log crc32c_append sample_log"
    using salvage_loop_log [OF castagnoli_crate sample_file_readable [of crc32c_append] o(1) _ sample_log_fits o(2)]
    by (auto simp: sample_log_length committed_sample, simp add: committed_def)
  have e: "good_file []\<lparr>contents := []\<rparr> = good_file []" by (simp add: good_file_def)
  have same: "o1\<lparr>contents := encode_log crc32c_append sample_log\<rparr> = o1" using l(3) by (cases o1) simp
  have "\<exists>h. hash_prefix crc32c_append o1 41 = Ok h"
    using hash_prefix_reads [of o1 41 crc32c_append] l(2,3) by (simp add: healthy_def sample_log_length)
  then obtain h where "salvage_committed crc32c_append ?f (good_file []) =
      (o1, Ok \<lparr>salvaged_bytes = 41, salvaged_hash = h\<rparr>)"
    using l by (auto simp: salvage_committed_def file_len_def good_file_def [of "encode_log _ _"] Let_def e
        set_len_def resize_to_def sync_data_def healthy_def sample_log_length same)
  then show ?thesis using salvage_safe [OF castagnoli_crate] by blast
qed

end
