(* ===== verification/Freelist.thy ===== *)
theory Freelist
  imports Limits Page
begin

text \<open>
  Page recycling in the buffer pool (core/kernel/src/pool.rs): which page numbers were superseded,
  in which epoch, when they may be handed out again, and the sidecar file that keeps the list
  across a restart. The \<open>BTreeMap<u64, Vec<u32>>\<close> is an association list sorted by its keys, the
  \<open>HashMap\<close> of birth generations a map. Page numbers and generations are held as \<open>nat\<close>. The file
  under the pool is the kernel's own \<open>PosixFile\<close>, for which \<open>manages_free_pages\<close> is false (the
  default of the trait in io.rs); the branches for a file that keeps its own free list are not taken.
\<close>

section \<open>State\<close>

type_synonym buckets = "(nat \<times> nat list) list"

record reuse =
  next_page :: nat
  limits :: "resource_limits option"
  free_count :: nat
  epoch_allocated_pages :: nat
  stamp_gen :: nat
  free :: buckets
  reuse_limit :: nat
  free_birth :: "nat \<rightharpoonup> nat"
  promotion_readers :: "nat list"
  promotion_checked_through :: nat
  thawed :: "nat list"
  frozen_boundary :: nat

text \<open>\<open>map.entry(g).or_default().extend(ps)\<close>\<close>

fun bucket_extend :: "nat \<Rightarrow> nat list \<Rightarrow> buckets \<Rightarrow> buckets" where
  "bucket_extend g ps [] = [(g, ps)]"
| "bucket_extend g ps ((h, qs) # bs) =
     (if g = h then (h, qs @ ps) # bs else if g < h then (g, ps) # (h, qs) # bs
      else (h, qs) # bucket_extend g ps bs)"

definition set_stamp_gen :: "'a reuse_scheme \<Rightarrow> nat \<Rightarrow> 'a reuse_scheme" where
  "set_stamp_gen s gen = s\<lparr>stamp_gen := gen\<rparr>"

definition set_resource_limits :: "'a reuse_scheme \<Rightarrow> resource_limits \<Rightarrow> 'a reuse_scheme kresult" where
  "set_resource_limits s l =
     obind (limits_validate l) (\<lambda>l.
     if next_page s * PAGE_SIZE > unat (data_bytes l)
     then Err (ResourceLimit ''existing data exceeds data allowance'')
     else Ok (s\<lparr>limits := Some l\<rparr>))"

section \<open>Retiring pages\<close>

definition free_page :: "'a reuse_scheme \<Rightarrow> nat \<Rightarrow> 'a reuse_scheme kresult" where
  "free_page s page_no =
     (if page_no < 2 then Ok s
      else if (case limits s of Some l \<Rightarrow> free_count s \<ge> unat (tracked_pages l) | None \<Rightarrow> False)
      then Err (ResourceLimit ''retired-page bookkeeping full'')
      else Ok (s\<lparr>free := bucket_extend (stamp_gen s) [page_no] (free s), free_count := free_count s + 1\<rparr>))"

definition free_shadow_page :: "'a reuse_scheme \<Rightarrow> nat \<Rightarrow> nat \<Rightarrow> 'a reuse_scheme kresult" where
  "free_shadow_page s page_no birth =
     obind (free_page s page_no) (\<lambda>s.
     Ok (if birth > 0 \<and> birth \<le> stamp_gen s then s\<lparr>free_birth := (free_birth s)(page_no \<mapsto> birth)\<rparr> else s))"

section \<open>Advancing the horizon\<close>

text \<open>\<open>readers.partition_point(|g| *g < born)\<close> on the sorted list of reader generations.\<close>

definition partition_point :: "nat \<Rightarrow> nat list \<Rightarrow> nat" where
  "partition_point born rds = length (takeWhile (\<lambda>g. g < born) rds)"

definition reader_pins :: "nat list \<Rightarrow> nat \<Rightarrow> nat \<Rightarrow> bool" where
  "reader_pins rds born retired =
     (case get_at rds (partition_point born rds) of Some g \<Rightarrow> g < retired | None \<Rightarrow> False)"

text \<open>\<open>pages.retain\<close> of one bucket: the pages kept, the pages promoted, the birth map left.\<close>

fun retain_pages :: "nat list \<Rightarrow> nat \<Rightarrow> nat list \<Rightarrow> (nat \<rightharpoonup> nat) \<Rightarrow> nat list \<times> nat list \<times> (nat \<rightharpoonup> nat)" where
  "retain_pages rds retired [] birth = ([], [], birth)"
| "retain_pages rds retired (p # ps) birth =
     (case birth p of
        None \<Rightarrow> (let (kept, promoted, birth) = retain_pages rds retired ps birth in (p # kept, promoted, birth))
      | Some born \<Rightarrow>
          if reader_pins rds born retired
          then (let (kept, promoted, birth) = retain_pages rds retired ps birth in (p # kept, promoted, birth))
          else (let (kept, promoted, birth) = retain_pages rds retired ps (birth(p := None))
                in (kept, p # promoted, birth)))"

fun promote_buckets :: "nat list \<Rightarrow> nat \<Rightarrow> nat \<Rightarrow> buckets \<Rightarrow> (nat \<rightharpoonup> nat) \<Rightarrow> buckets \<times> nat list \<times> (nat \<rightharpoonup> nat)" where
  "promote_buckets rds lower upper [] birth = ([], [], birth)"
| "promote_buckets rds lower upper ((g, ps) # bs) birth =
     (if lower < g \<and> g \<le> upper
      then (let (kept, promoted, birth) = retain_pages rds g ps birth;
                (bs, promoted', birth) = promote_buckets rds lower upper bs birth
            in ((g, kept) # bs, promoted @ promoted', birth))
      else (let (bs, promoted, birth) = promote_buckets rds lower upper bs birth
            in ((g, ps) # bs, promoted, birth)))"

definition refresh_reuse :: "'a reuse_scheme \<Rightarrow> nat \<Rightarrow> nat list option \<Rightarrow> 'a reuse_scheme" where
  "refresh_reuse s published rds =
     (case rds of
        None \<Rightarrow> s\<lparr>reuse_limit := 0\<rparr>
      | Some rds \<Rightarrow>
          let oldest = (case rds of g # _ \<Rightarrow> g | [] \<Rightarrow> u64_max);
              fallback_limit = published - 1;
              s = s\<lparr>reuse_limit := min fallback_limit oldest\<rparr>;
              lower = (if promotion_readers s = rds then max oldest (promotion_checked_through s) else oldest);
              s = s\<lparr>promotion_readers := rds, promotion_checked_through := fallback_limit\<rparr>
          in if lower \<ge> fallback_limit then s
             else let (bs, promoted, birth) = promote_buckets rds lower fallback_limit (free s) (free_birth s);
                      bs = filter (\<lambda>(_, ps). ps \<noteq> []) bs;
                      bs = (if promoted \<noteq> [] then bucket_extend 1 promoted bs else bs)
                  in s\<lparr>free := bs, free_birth := birth\<rparr>)"

definition set_reuse_limit :: "'a reuse_scheme \<Rightarrow> nat \<Rightarrow> 'a reuse_scheme" where
  "set_reuse_limit s lim = s\<lparr>reuse_limit := lim\<rparr>"

section \<open>Allocation\<close>

definition pop_free :: "'a reuse_scheme \<Rightarrow> 'a reuse_scheme \<times> nat option" where
  "pop_free s =
     (case free s of
        [] \<Rightarrow> (s, None)
      | (g, ps) # bs \<Rightarrow>
          if g > reuse_limit s \<or> ps = [] then (s, None)
          else (s\<lparr>free_birth := (free_birth s)(last ps := None), free_count := free_count s - 1,
                 free := (if butlast ps = [] then bs else (g, butlast ps) # bs)\<rparr>, Some (last ps)))"

definition admit_allocation :: "'a reuse_scheme \<Rightarrow> unit kresult" where
  "admit_allocation s =
     (case limits s of
        None \<Rightarrow> Ok ()
      | Some l \<Rightarrow>
          let reuse = (case free s of (g, _) # _ \<Rightarrow> g \<le> reuse_limit s | [] \<Rightarrow> False) in
          if reuse \<and> length (thawed s) \<ge> unat (tracked_pages l)
          then Err (ResourceLimit ''recycled-page bookkeeping full'')
          else if \<not> reuse \<and> next_page s \<ge> unat (data_bytes l) div PAGE_SIZE
          then Err (ResourceLimit ''data extent full; snapshots or fallback roots may pin pages'')
          else Ok ())"

text \<open>
  The choice of a page number in \<open>allocate\<close> and \<open>allocate_unpooled\<close>: a recycled number, which is
  thawed for this epoch, or the next number of the file. The flag tells the two apart.
\<close>

definition choose_page :: "'a reuse_scheme \<Rightarrow> 'a reuse_scheme \<times> (nat \<times> bool) kresult" where
  "choose_page s =
     (case admit_allocation s of
        Err e \<Rightarrow> (s, Err e)
      | Panic \<Rightarrow> (s, Panic)
      | Ok _ \<Rightarrow>
          let s = s\<lparr>epoch_allocated_pages := epoch_allocated_pages s + 1\<rparr> in
          case pop_free s of
            (s, Some p) \<Rightarrow> (s\<lparr>thawed := List.insert p (thawed s)\<rparr>, Ok (p, True))
          | (s, None) \<Rightarrow>
              if next_page s + 1 > u32_max then (s, Err TooLarge)
              else (s\<lparr>next_page := next_page s + 1\<rparr>, Ok (next_page s, False)))"

definition set_frozen_boundary :: "'a reuse_scheme \<Rightarrow> 'a reuse_scheme" where
  "set_frozen_boundary s = s\<lparr>frozen_boundary := next_page s, thawed := [], epoch_allocated_pages := 0\<rparr>"

definition is_frozen :: "'a reuse_scheme \<Rightarrow> nat \<Rightarrow> bool" where
  "is_frozen s page_no \<longleftrightarrow> page_no \<ge> 2 \<and> page_no < frozen_boundary s \<and> page_no \<notin> set (thawed s)"

definition free_pages_split :: "'a reuse_scheme \<Rightarrow> nat \<times> nat" where
  "free_pages_split s =
     (let el = sum_list (map (\<lambda>(_, ps). length ps) (filter (\<lambda>(g, _). g \<le> reuse_limit s) (free s)));
          tot = sum_list (map (\<lambda>(_, ps). length ps) (free s))
      in (el, tot - el))"

section \<open>The sidecar file\<close>

definition FREE_MAGIC :: bytes where "FREE_MAGIC = ascii ''SEKFREE'' @ [0]"
definition FREE_VERSION :: u16 where "FREE_VERSION = 2"
definition FREE_HEADER_LEN :: nat where "FREE_HEADER_LEN = 24"

definition free_header :: "nat \<Rightarrow> bytes" where
  "free_header published = FREE_MAGIC @ to_le FREE_VERSION @ replicate 6 0 @ to_le (of_nat published :: u64)"

definition empty_free :: "crc_fn \<Rightarrow> nat \<Rightarrow> bytes" where
  "empty_free crc published = free_header published @ to_le (crc 0 (free_header published))"

definition export_page :: "(nat \<rightharpoonup> nat) \<Rightarrow> nat \<Rightarrow> bytes" where
  "export_page births p =
     to_le (of_nat p :: u32) @ to_le (of_nat (case births p of Some b \<Rightarrow> b | None \<Rightarrow> 0) :: u64)"

definition export_bucket :: "(nat \<rightharpoonup> nat) \<Rightarrow> nat \<times> nat list \<Rightarrow> bytes" where
  "export_bucket births b = (case b of (g, ps) \<Rightarrow>
     to_le (of_nat g :: u64) @ to_le (of_nat (length ps) :: u32) @ concat (map (export_page births) ps))"

definition export_free :: "crc_fn \<Rightarrow> 'a reuse_scheme \<Rightarrow> nat \<Rightarrow> bytes kresult" where
  "export_free crc s published =
     (if list_ex (\<lambda>(_, ps). length ps > u32_max) (free s) then Panic
      else let v = take FREE_HEADER_LEN (empty_free crc published) @
                   concat (map (export_bucket (free_birth s)) (free s))
           in Ok (v @ to_le (crc 0 v)))"

text \<open>What \<open>walk_free\<close> hands to its visitor, in order: bucket, page, birth.\<close>

type_synonym visit = "nat \<times> nat \<times> nat"

fun walk_pages :: "bytes \<Rightarrow> nat \<Rightarrow> nat \<Rightarrow> nat list \<Rightarrow> nat \<Rightarrow> nat set \<Rightarrow> (visit list \<times> nat set) option" where
  "walk_pages body g pos [] page_count seen = Some ([], seen)"
| "walk_pages body g pos (i # is) page_count seen =
     (let at = pos + i * 12;
          p = unat (from_le (slice body at (at + 4)) :: u32);
          birth = unat (from_le (slice body (at + 4) (at + 12)) :: u64)
      in if p < 2 \<or> p \<ge> page_count \<or> birth > g \<or> p \<in> seen then None
         else case walk_pages body g pos is page_count (Set.insert p seen) of
           None \<Rightarrow> None
         | Some (vs, seen) \<Rightarrow> Some ((g, p, birth) # vs, seen))"

function walk_buckets :: "bytes \<Rightarrow> nat \<Rightarrow> nat \<Rightarrow> nat \<Rightarrow> nat option \<Rightarrow> nat set \<Rightarrow> visit list option" where
  "walk_buckets body expected page_count pos previous seen =
     (if pos < length body then
        Option.bind (checked_add_u64 pos 12) (\<lambda>header_end.
        if header_end > length body then None
        else let g = unat (from_le (slice body pos (pos + 8)) :: u64);
                 n = unat (from_le (slice body (pos + 8) (pos + 12)) :: u32)
             in if g = 0 \<or> g > expected \<or> n = 0 \<or> (case previous of Some q \<Rightarrow> g \<le> q | None \<Rightarrow> False)
                then None
                else let pos = header_end in
                  Option.bind (checked_add_u64 pos (n * 12)) (\<lambda>pages_end.
                  if pages_end > length body then None
                  else case walk_pages body g pos [0..<n] page_count seen of
                    None \<Rightarrow> None
                  | Some (vs, seen) \<Rightarrow>
                      Option.bind (walk_buckets body expected page_count pages_end (Some g) seen) (\<lambda>rest.
                      Some (vs @ rest))))
      else Some [])"
  by auto
termination
  by (relation "measure (\<lambda>(body, expected, page_count, pos, previous, seen). length body - pos)")
    (auto simp: checked_add_u64_Some)

declare walk_buckets.simps [simp del]

definition walk_free :: "crc_fn \<Rightarrow> bytes \<Rightarrow> nat \<Rightarrow> nat \<Rightarrow> visit list option" where
  "walk_free crc b expected page_count =
     (if length b < FREE_HEADER_LEN + 4 then None
      else let body = take (length b - 4) b; tail = drop (length b - 4) b in
        if crc 0 body \<noteq> from_le tail \<or> slice body 0 8 \<noteq> FREE_MAGIC \<or>
           from_le (slice body 8 10) \<noteq> FREE_VERSION \<or> slice body 10 16 \<noteq> replicate 6 0 \<or>
           unat (from_le (slice body 16 24) :: u64) \<noteq> expected
        then None
        else walk_buckets body expected page_count FREE_HEADER_LEN None {})"

definition verify_free :: "crc_fn \<Rightarrow> bytes \<Rightarrow> nat \<Rightarrow> nat \<Rightarrow> bool" where
  "verify_free crc b expected page_count \<longleftrightarrow> walk_free crc b expected page_count \<noteq> None"

definition visit_free :: "buckets \<times> (nat \<rightharpoonup> nat) \<Rightarrow> visit \<Rightarrow> buckets \<times> (nat \<rightharpoonup> nat)" where
  "visit_free acc v = (case (acc, v) of ((bs, births), (g, p, birth)) \<Rightarrow>
     (bucket_extend g [p] bs, if birth \<noteq> 0 then births(p \<mapsto> birth) else births))"

definition import_free :: "crc_fn \<Rightarrow> 'a reuse_scheme \<Rightarrow> bytes \<Rightarrow> nat \<Rightarrow> 'a reuse_scheme \<times> bool" where
  "import_free crc s b expected =
     (if (case limits s of Some l \<Rightarrow> length b > freelist_bytes l | None \<Rightarrow> False) then (s, False)
      else case walk_free crc b expected (next_page s) of
        None \<Rightarrow> (s, False)
      | Some vs \<Rightarrow>
          if (case limits s of Some l \<Rightarrow> length vs > unat (tracked_pages l) | None \<Rightarrow> False) then (s, False)
          else let (bs, births) = foldl visit_free ([], Map.empty) vs in
            (s\<lparr>free := bs, free_count := length vs, free_birth := births,
               promotion_checked_through := 0, promotion_readers := []\<rparr>, True))"

section \<open>Recycling never takes a page a reader needs\<close>

text \<open>
  A page that entered the tree at generation \<open>born\<close> and was superseded while generation \<open>retired\<close> was
  being built is part of exactly the trees of the generations in between.
\<close>

definition needed_by :: "(nat \<Rightarrow> nat) \<Rightarrow> (nat \<Rightarrow> nat) \<Rightarrow> nat \<Rightarrow> nat \<Rightarrow> bool" where
  "needed_by born retired x p \<longleftrightarrow> born p \<le> x \<and> x < retired p"

lemma reader_pins_iff:
  assumes "sorted rds"
  shows "reader_pins rds b g \<longleftrightarrow> (\<exists>x \<in> set rds. b \<le> x \<and> x < g)"
  using assms
proof (induction rds)
  case (Cons r rds)
  show ?case
  proof (cases "r < b")
    case True
    then have "reader_pins (r # rds) b g = reader_pins rds b g"
      by (simp add: reader_pins_def partition_point_def get_at_def)
    then show ?thesis using Cons True by auto
  next
    case False
    then have "reader_pins (r # rds) b g = (r < g)"
      by (simp add: reader_pins_def partition_point_def get_at_def)
    then show ?thesis using Cons.prems False by (auto intro: le_less_trans)
  qed
qed (simp add: reader_pins_def partition_point_def get_at_def)

lemma retain_pages_Cons:
  "retain_pages rds g (p # ps) birth =
     (if \<exists>b. birth p = Some b \<and> \<not> reader_pins rds b g
      then (case retain_pages rds g ps (birth(p := None)) of (kept, promoted, birth) \<Rightarrow> (kept, p # promoted, birth))
      else (case retain_pages rds g ps birth of (kept, promoted, birth) \<Rightarrow> (p # kept, promoted, birth)))"
  by (auto split: option.splits)

lemma retain_pages_spec:
  "retain_pages rds g ps birth = (kept, promoted, birth') \<Longrightarrow>
   set kept \<subseteq> set ps \<and> (\<forall>p \<in> set promoted. p \<in> set ps \<and> (\<exists>b. birth p = Some b \<and> \<not> reader_pins rds b g)) \<and>
   (\<forall>p. birth' p = None \<or> birth' p = birth p)"
proof (induction ps arbitrary: birth kept promoted birth')
  case (Cons q ps)
  show ?case
  proof (cases "\<exists>b. birth q = Some b \<and> \<not> reader_pins rds b g")
    case True
    obtain k pr b' where r: "retain_pages rds g ps (birth(q := None)) = (k, pr, b')" by (metis prod_cases3)
    have e: "kept = k \<and> promoted = q # pr \<and> birth' = b'"
      using Cons.prems r True by (simp only: retain_pages_Cons if_True) simp
    have ih: "set k \<subseteq> set ps" "\<And>x. x \<in> set pr \<Longrightarrow> x \<in> set ps \<and> (\<exists>b. (birth(q := None)) x = Some b \<and> \<not> reader_pins rds b g)"
      "\<And>x. b' x = None \<or> b' x = (birth(q := None)) x" using Cons.IH [OF r] by blast+
    have "b' x = None \<or> b' x = birth x" for x using ih(3) [of x] by (simp split: if_splits)
    moreover have "x \<in> set (q # ps) \<and> (\<exists>b. birth x = Some b \<and> \<not> reader_pins rds b g)" if "x \<in> set (q # pr)" for x
      using that True ih(2) [of x] by (cases "x = q") auto
    ultimately show ?thesis using e ih(1) by auto
  next
    case False
    obtain k pr b' where r: "retain_pages rds g ps birth = (k, pr, b')" by (metis prod_cases3)
    have e: "kept = q # k \<and> promoted = pr \<and> birth' = b'"
      using Cons.prems r False by (simp only: retain_pages_Cons if_False) simp
    show ?thesis using Cons.IH [OF r] e by auto
  qed
qed simp

lemma promote_buckets_Cons:
  "promote_buckets rds lower upper ((g, ps) # bs) birth =
     (if lower < g \<and> g \<le> upper
      then case retain_pages rds g ps birth of (kept, promoted, birth) \<Rightarrow>
        (case promote_buckets rds lower upper bs birth of (bs, promoted', birth) \<Rightarrow>
           ((g, kept) # bs, promoted @ promoted', birth))
      else case promote_buckets rds lower upper bs birth of (bs, promoted, birth) \<Rightarrow> ((g, ps) # bs, promoted, birth))"
  by (auto split: prod.splits)

text \<open>What promotion may take: a page of a bucket under the horizon whose life no reader meets.\<close>

definition promotable :: "nat list \<Rightarrow> nat \<Rightarrow> buckets \<Rightarrow> (nat \<rightharpoonup> nat) \<Rightarrow> nat \<Rightarrow> bool" where
  "promotable rds upper bs birth p \<longleftrightarrow>
     (\<exists>(g, ps) \<in> set bs. p \<in> set ps \<and> g \<le> upper \<and> (\<exists>b. birth p = Some b \<and> \<not> reader_pins rds b g))"

lemma promotable_mono:
  assumes "promotable rds upper bs birth p" "set bs \<subseteq> set bs'" "birth p = None \<or> birth p = birth' p"
  shows "promotable rds upper bs' birth' p"
  using assms unfolding promotable_def by fastforce

lemma promote_buckets_spec:
  "promote_buckets rds lower upper bs birth = (bs', promoted, birth') \<Longrightarrow>
   (\<forall>(g, ks) \<in> set bs'. \<exists>ps. (g, ps) \<in> set bs \<and> set ks \<subseteq> set ps) \<and>
   (\<forall>p \<in> set promoted. promotable rds upper bs birth p)"
proof (induction bs arbitrary: birth bs' promoted birth')
  case (Cons bk bs)
  obtain g ps where bk: "bk = (g, ps)" by (cases bk)
  show ?case
  proof (cases "lower < g \<and> g \<le> upper")
    case True
    obtain kept pr0 birth0 where r: "retain_pages rds g ps birth = (kept, pr0, birth0)" by (metis prod_cases3)
    obtain bs1 pr1 birth1 where q: "promote_buckets rds lower upper bs birth0 = (bs1, pr1, birth1)" by (metis prod_cases3)
    have e: "bs' = (g, kept) # bs1 \<and> promoted = pr0 @ pr1"
      using Cons.prems r q True by (simp add: bk promote_buckets_Cons)
    have rs: "set kept \<subseteq> set ps" "\<And>x. x \<in> set pr0 \<Longrightarrow> x \<in> set ps \<and> (\<exists>b. birth x = Some b \<and> \<not> reader_pins rds b g)"
      "\<And>x. birth0 x = None \<or> birth0 x = birth x" using retain_pages_spec [OF r] by blast+
    have ih: "\<forall>(h, ks) \<in> set bs1. \<exists>qs. (h, qs) \<in> set bs \<and> set ks \<subseteq> set qs"
      "\<And>x. x \<in> set pr1 \<Longrightarrow> promotable rds upper bs birth0 x" using Cons.IH [OF q] by blast+
    have "promotable rds upper (bk # bs) birth x" if "x \<in> set pr1" for x
      using ih(2) [OF that] rs(3) [of x] by (intro promotable_mono [of rds upper bs birth0 x "bk # bs" birth]) auto
    moreover have "promotable rds upper (bk # bs) birth x" if "x \<in> set pr0" for x
      using rs(2) [OF that] True unfolding promotable_def bk by (simp add: bex_simps)
    ultimately have "\<forall>x \<in> set promoted. promotable rds upper (bk # bs) birth x" using e by auto
    moreover have "\<forall>(h, ks) \<in> set bs'. \<exists>qs. (h, qs) \<in> set (bk # bs) \<and> set ks \<subseteq> set qs"
      using ih(1) rs(1) unfolding bk conjunct1 [OF e] by fastforce
    ultimately show ?thesis by blast
  next
    case False
    obtain bs1 pr1 birth1 where q: "promote_buckets rds lower upper bs birth = (bs1, pr1, birth1)" by (metis prod_cases3)
    have e: "bs' = (g, ps) # bs1 \<and> promoted = pr1"
      using Cons.prems q False by (simp only: bk promote_buckets_Cons if_False) simp
    have ih: "\<forall>(h, ks) \<in> set bs1. \<exists>qs. (h, qs) \<in> set bs \<and> set ks \<subseteq> set qs"
      "\<And>x. x \<in> set pr1 \<Longrightarrow> promotable rds upper bs birth x" using Cons.IH [OF q] by blast+
    have "promotable rds upper (bk # bs) birth x" if "x \<in> set promoted" for x
      by (rule promotable_mono [OF ih(2)]) (use e that in auto)
    moreover have "\<forall>(h, ks) \<in> set bs'. \<exists>qs. (h, qs) \<in> set (bk # bs) \<and> set ks \<subseteq> set qs"
      using ih(1) unfolding bk conjunct1 [OF e] by fastforce
    ultimately show ?thesis by blast
  qed
qed simp

lemma bucket_extend_mem:
  "(h, ks) \<in> set (bucket_extend g qs bs) \<Longrightarrow> p \<in> set ks \<Longrightarrow>
   h = g \<and> p \<in> set qs \<or> (\<exists>ps. (h, ps) \<in> set bs \<and> p \<in> set ps)"
  by (induction bs rule: bucket_extend.induct [of _ g qs]) (auto split: if_splits)

text \<open>The certificate a listed page carries: its bucket is its retirement, or nobody can need it.\<close>

definition listed_ok :: "(nat \<Rightarrow> nat) \<Rightarrow> (nat \<Rightarrow> nat) \<Rightarrow> nat set \<Rightarrow> buckets \<Rightarrow> bool" where
  "listed_ok born retired live bs \<longleftrightarrow>
     (\<forall>(g, ps) \<in> set bs. \<forall>p \<in> set ps. retired p = g \<or> (\<forall>x \<in> live. \<not> needed_by born retired x p))"

lemma refresh_reuse_listed_ok:
  fixes s :: "'a reuse_scheme"
  assumes "sorted rds" "listed_ok born retired (set rds \<union> {published, published - 1}) (free s)"
    and "\<forall>p b. free_birth s p = Some b \<longrightarrow> b \<le> born p"
  shows "listed_ok born retired (set rds \<union> {published, published - 1}) (free (refresh_reuse s published (Some rds)))"
proof -
  let ?live = "set rds \<union> {published, published - 1}" and ?up = "published - 1"
  let ?old = "case rds of g # _ \<Rightarrow> g | [] \<Rightarrow> u64_max"
  define low where "low = (if promotion_readers s = rds then max ?old (promotion_checked_through s) else ?old)"
  obtain bs pr birth where pb: "promote_buckets rds low ?up (free s) (free_birth s) = (bs, pr, birth)"
    by (cases "promote_buckets rds low ?up (free s) (free_birth s)")
  note spec = conjunct1 [OF promote_buckets_spec [OF pb]] conjunct2 [OF promote_buckets_spec [OF pb]]
  let ?bs = "filter (\<lambda>(_, ps). ps \<noteq> []) bs"
  have kept: "retired p = g \<or> (\<forall>x \<in> ?live. \<not> needed_by born retired x p)"
    if "(g, ks) \<in> set bs" "p \<in> set ks" for g ks p
    using spec(1) that assms(2) unfolding listed_ok_def by fastforce
  have promoted: "\<forall>x \<in> ?live. \<not> needed_by born retired x p" if pr: "p \<in> set pr" for p
  proof -
    obtain g ps b where g: "(g, ps) \<in> set (free s)" "p \<in> set ps" "g \<le> ?up" "free_birth s p = Some b" "\<not> reader_pins rds b g"
      using spec(2) pr unfolding promotable_def by blast
    have b: "b \<le> born p" using assms(3) g(4) by blast
    have "\<not> needed_by born retired x p" if "x \<in> ?live" "retired p = g" for x
      using that g(3,5) b reader_pins_iff [OF assms(1), of b g] by (auto simp: needed_by_def)
    then show ?thesis using assms(2) g(1,2) unfolding listed_ok_def by fastforce
  qed
  have "listed_ok born retired ?live (if pr \<noteq> [] then bucket_extend 1 pr ?bs else ?bs)"
    unfolding listed_ok_def using kept promoted bucket_extend_mem [of _ _ 1 pr ?bs]
    by (auto split: if_splits) blast+
  moreover have "free (refresh_reuse s published (Some rds)) =
      (if ?up \<le> low then free s else if pr \<noteq> [] then bucket_extend 1 pr ?bs else ?bs)"
    using pb unfolding refresh_reuse_def Let_def low_def [symmetric]
    by (cases "promotion_readers s = rds") (simp_all add: low_def)
  ultimately show ?thesis using assms(2) by (simp split: if_splits)
qed

lemma refresh_reuse_limit:
  "reuse_limit (refresh_reuse s published (Some rds)) = min (published - 1) (case rds of g # _ \<Rightarrow> g | [] \<Rightarrow> u64_max)"
  by (simp add: refresh_reuse_def Let_def split: prod.splits)

text \<open>
  C11: Recycling safety. After the store publishes a generation and refreshes the horizon with the
  sorted generations of all live snapshot readers, the page number the allocator takes from the free
  list belongs to no tree anyone can still read: not the published one, not the fallback one the
  other metadata slot names, not that of any live reader.
\<close>

theorem recycled_page_unneeded:
  assumes "sorted rds" "listed_ok born retired (set rds \<union> {published, published - 1}) (free s)"
    and "\<forall>p b. free_birth s p = Some b \<longrightarrow> b \<le> born p"
    and "pop_free (refresh_reuse s published (Some rds)) = (s', Some p)"
  shows "\<forall>x \<in> set rds \<union> {published, published - 1}. \<not> needed_by born retired x p"
proof
  fix x assume x: "x \<in> set rds \<union> {published, published - 1}"
  let ?t = "refresh_reuse s published (Some rds)"
  obtain g ps bs where f: "free ?t = (g, ps) # bs" "g \<le> reuse_limit ?t" "ps \<noteq> []" "p = last ps"
    using assms(4) by (auto simp: pop_free_def split: list.splits prod.splits if_splits)
  then have "(g, ps) \<in> set (free ?t)" "p \<in> set ps" by simp_all
  then have "retired p = g \<or> \<not> needed_by born retired x p"
    using refresh_reuse_listed_ok [OF assms(1-3)] x unfolding listed_ok_def by fastforce
  moreover have "g \<le> x" if "x \<in> set rds"
    using f(2) that assms(1) refresh_reuse_limit [of s published rds] by (cases rds) auto
  moreover have "g \<le> published - 1" using f(2) refresh_reuse_limit [of s published rds] by simp
  ultimately show "\<not> needed_by born retired x p" using x by (auto simp: needed_by_def)
qed

definition sample_reuse :: reuse where
  "sample_reuse = \<lparr>next_page = 10, limits = None, free_count = 2, epoch_allocated_pages = 0, stamp_gen = 6,
     free = [(3, [7]), (4, [8])], reuse_limit = 0, free_birth = [7 \<mapsto> 2], promotion_readers = [],
     promotion_checked_through = 0, thawed = [], frozen_boundary = 10\<rparr>"

theorem recycled_page_unneeded_witness:
  "\<exists>s'. pop_free (refresh_reuse sample_reuse 5 (Some [3])) = (s', Some 7) \<and>
     \<not> needed_by (\<lambda>_. 2) (\<lambda>p. if p = 7 then 3 else 4) 3 7"
proof -
  have l: "listed_ok (\<lambda>_. 2) (\<lambda>p. if p = 7 then 3 else 4) (set [3] \<union> {5, 5 - 1}) (free sample_reuse)"
    by (simp add: listed_ok_def sample_reuse_def)
  have p: "\<exists>s'. pop_free (refresh_reuse sample_reuse 5 (Some [3])) = (s', Some 7)"
    by (simp add: sample_reuse_def refresh_reuse_def pop_free_def Let_def reader_pins_def partition_point_def get_at_def)
  then obtain s' where s': "pop_free (refresh_reuse sample_reuse 5 (Some [3])) = (s', Some 7)" ..
  have b: "\<forall>p b. free_birth sample_reuse p = Some b \<longrightarrow> b \<le> 2" by (simp add: sample_reuse_def)
  show ?thesis using recycled_page_unneeded [OF _ l b s'] s' by auto
qed

section \<open>The sidecar round trip\<close>

text \<open>
  The certificate of a free list as of generation \<open>published\<close>: buckets in strictly ascending
  generations, none empty, every page inside the file and listed once, every birth no later than its
  bucket.
\<close>

definition bucket_ok :: "nat \<Rightarrow> nat \<Rightarrow> (nat \<rightharpoonup> nat) \<Rightarrow> nat \<times> nat list \<Rightarrow> bool" where
  "bucket_ok published page_count births b \<longleftrightarrow> (case b of (g, ps) \<Rightarrow>
     0 < g \<and> g \<le> published \<and> ps \<noteq> [] \<and>
     (\<forall>p \<in> set ps. 2 \<le> p \<and> p < page_count \<and> (\<forall>x. births p = Some x \<longrightarrow> 0 < x \<and> x \<le> g)))"

abbreviation listed :: "buckets \<Rightarrow> nat list" where
  "listed bs \<equiv> concat (map snd bs)"

definition free_ok :: "nat \<Rightarrow> nat \<Rightarrow> buckets \<Rightarrow> (nat \<rightharpoonup> nat) \<Rightarrow> bool" where
  "free_ok published page_count bs births \<longleftrightarrow>
     sorted_wrt (<) (map fst bs) \<and> list_all (bucket_ok published page_count births) bs \<and>
     distinct (listed bs) \<and> dom births \<subseteq> set (listed bs)"

abbreviation birth_of :: "(nat \<rightharpoonup> nat) \<Rightarrow> nat \<Rightarrow> nat" where
  "birth_of births p \<equiv> (case births p of Some b \<Rightarrow> b | None \<Rightarrow> 0)"

definition visits :: "(nat \<rightharpoonup> nat) \<Rightarrow> nat \<times> nat list \<Rightarrow> visit list" where
  "visits births b = map (\<lambda>p. (fst b, p, birth_of births p)) (snd b)"

lemma length_export_page [simp]: "length (export_page births p) = 12"
  by (simp add: export_page_def)

lemma length_export_pages [simp]: "length (concat (map (export_page births) ps)) = 12 * length ps"
  by (induction ps) simp_all

lemma length_export_bucket [simp]: "length (export_bucket births b) = 12 + 12 * length (snd b)"
  by (simp add: export_bucket_def split: prod.splits)

lemma unat_page_no: "n \<le> u32_max \<Longrightarrow> unat (of_nat n :: u32) = n"
  by (simp add: unat_of_nat)

lemma unat_generation: "n \<le> u64_max \<Longrightarrow> unat (of_nat n :: u64) = n"
  by (simp add: unat_of_nat)

lemma walk_pages_export:
  assumes "length pre = pos" "g \<le> u64_max" "page_count \<le> u32_max"
    and "bucket_ok g page_count births (g, qs @ ps)" "distinct ps" "set ps \<inter> seen = {}"
  shows "walk_pages (pre @ concat (map (export_page births) (qs @ ps)) @ post) g pos
      [length qs..<length qs + length ps] page_count seen = Some (visits births (g, ps), seen \<union> set ps)"
  using assms(4-6)
proof (induction ps arbitrary: qs seen)
  case (Cons p ps)
  let ?body = "pre @ concat (map (export_page births) (qs @ p # ps)) @ post" and ?at = "pos + length qs * 12"
  have p: "2 \<le> p" "p < page_count" "birth_of births p \<le> g"
    using Cons.prems(1) by (auto simp: bucket_ok_def split: option.split)
  have body: "?body = (pre @ concat (map (export_page births) qs)) @
      to_le (of_nat p :: u32) @ to_le (of_nat (birth_of births p) :: u64) @ concat (map (export_page births) ps) @ post"
    by (simp add: export_page_def)
  have at: "length (pre @ concat (map (export_page births) qs)) = ?at" using assms(1) by simp
  have s1: "slice ?body ?at (?at + 4) = to_le (of_nat p :: u32)"
    unfolding body using at by (simp add: slice_append_right slice_append_left slice_whole)
  have s2: "slice ?body (?at + 4) (?at + 12) = to_le (of_nat (birth_of births p) :: u64)"
    unfolding body using at by (simp add: slice_append_right slice_append_left slice_whole)
  have ih: "walk_pages ?body g pos [Suc (length qs)..<Suc (length qs) + length ps] page_count (Set.insert p seen) =
      Some (visits births (g, ps), Set.insert p seen \<union> set ps)"
    using Cons.IH [of "qs @ [p]" "Set.insert p seen"] Cons.prems by auto
  have up: "unat (of_nat p :: u32) = p" "unat (of_nat (birth_of births p) :: u64) = birth_of births p"
    using p assms(2,3) by (simp_all only: unat_page_no unat_generation)
  have ups: "[length qs..<length qs + length (p # ps)] = length qs # [Suc (length qs)..<Suc (length qs) + length ps]"
    using upt_conv_Cons [of "length qs" "length qs + length (p # ps)"] by simp
  have lets: "unat (from_le (slice ?body ?at (?at + 4)) :: u32) = p"
      "unat (from_le (slice ?body (?at + 4) (?at + 12)) :: u64) = birth_of births p"
    unfolding s1 s2 using up by simp_all
  have "\<not> (p < 2 \<or> page_count \<le> p \<or> g < birth_of births p \<or> p \<in> seen)" using p Cons.prems(3) by auto
  then show ?case
    by (simp only: ups walk_pages.simps(2) Let_def lets ih if_False option.case prod.case) (simp add: visits_def)
qed (simp add: visits_def)

lemma listed_bound:
  assumes "list_all (bucket_ok published page_count births) bs" "distinct (listed bs)"
  shows "length (listed bs) \<le> page_count" "(g, ps) \<in> set bs \<Longrightarrow> length ps \<le> page_count"
proof -
  have "set (listed bs) \<subseteq> {..<page_count}"
    using assms(1) by (auto simp: list_all_iff bucket_ok_def)
  then have "card (set (listed bs)) \<le> page_count" using card_mono [of "{..<page_count}"] by fastforce
  then show l: "length (listed bs) \<le> page_count" using distinct_card [OF assms(2)] by simp
  show "length ps \<le> page_count" if "(g, ps) \<in> set bs"
  proof -
    have "length ps \<le> sum_list (map length (map snd bs))" using that by (intro member_le_sum_list) force+
    then show ?thesis using l by (simp add: length_concat)
  qed
qed

lemma export_length:
  assumes "list_all (bucket_ok published page_count births) bs"
  shows "length (concat (map (export_bucket births) bs)) \<le> 24 * length (listed bs)"
  using assms
proof (induction bs)
  case (Cons b bs)
  then have "1 \<le> length (snd b)" by (auto simp: bucket_ok_def Suc_le_eq split: prod.splits)
  then show ?case using Cons by simp
qed simp

lemma walk_buckets_export:
  assumes "published \<le> u64_max" "page_count \<le> u32_max" "length pre + length (concat (map (export_bucket births) bs)) \<le> u64_max"
    and "list_all (bucket_ok published page_count births) bs" "distinct (listed bs)" "set (listed bs) \<inter> seen = {}"
    and "sorted_wrt (<) (map fst bs)" "\<forall>q. previous = Some q \<longrightarrow> (\<forall>g \<in> fst ` set bs. q < g)"
  shows "walk_buckets (pre @ concat (map (export_bucket births) bs)) published page_count (length pre) previous seen =
     Some (concat (map (visits births) bs))"
  using assms(3-8)
proof (induction bs arbitrary: pre previous seen)
  case Nil
  then show ?case by (simp add: walk_buckets.simps)
next
  case (Cons b bs)
  obtain g ps where b: "b = (g, ps)" by (cases b)
  let ?tail = "concat (map (export_bucket births) bs)" and ?n = "length ps"
  let ?hdr = "to_le (of_nat g :: u64) @ to_le (of_nat ?n :: u32)"
  let ?body = "pre @ concat (map (export_bucket births) (b # bs))"
  have body: "?body = pre @ ?hdr @ concat (map (export_page births) ps) @ ?tail" by (simp add: b export_bucket_def)
  have ok: "0 < g" "g \<le> published" "0 < ?n" "bucket_ok g page_count births (g, ps)"
    using Cons.prems(2) by (auto simp: b bucket_ok_def)
  have n: "?n \<le> u32_max" using listed_bound(2) [OF Cons.prems(2,3), of g ps] assms(2) by (simp add: b)
  have len: "length ?body = length pre + 12 + 12 * ?n + length ?tail" by (simp add: b)
  have s1: "slice ?body (length pre) (length pre + 8) = to_le (of_nat g :: u64)"
    unfolding body by (simp add: slice_append_right slice_append_left slice_whole)
  have s2: "slice ?body (length pre + 8) (length pre + 12) = to_le (of_nat ?n :: u32)"
    unfolding body by (simp add: slice_append_right slice_append_left slice_whole)
  have u: "unat (of_nat g :: u64) = g" "unat (of_nat ?n :: u32) = ?n"
    using ok(2) n assms(1) by (simp_all only: unat_page_no unat_generation)
  have ps: "set ps \<inter> seen = {}" "distinct ps" using Cons.prems(3,4) by (auto simp: b)
  have "g \<le> u64_max" using ok(2) assms(1) by simp
  from walk_pages_export [of "pre @ ?hdr" "length pre + 12" g page_count births "[]" ps seen ?tail, OF _ this assms(2) _ ps(2,1)]
  have wp: "walk_pages ?body g (length pre + 12) [0..<?n] page_count seen = Some (visits births (g, ps), seen \<union> set ps)"
    unfolding body using ok(4) by simp
  have wb: "walk_buckets ?body published page_count (length pre + 12 + ?n * 12) (Some g) (seen \<union> set ps) =
      Some (concat (map (visits births) bs))"
  proof -
    have "set (listed bs) \<inter> (seen \<union> set ps) = {}" using Cons.prems(3,4) by (auto simp: b)
    then show ?thesis
      using Cons.IH [of "pre @ export_bucket births b" "seen \<union> set ps" "Some g"] Cons.prems
      by (auto simp: b add.assoc mult.commute)
  qed
  have prev: "\<not> (case previous of Some q \<Rightarrow> g \<le> q | None \<Rightarrow> False)"
    using Cons.prems(6) by (auto simp: b split: option.split)
  have ca: "checked_add_u64 (length pre) 12 = Some (length pre + 12)"
      "checked_add_u64 (length pre + 12) (?n * 12) = Some (length pre + 12 + ?n * 12)"
    using Cons.prems(1) by (simp_all add: checked_add_u64_Some b)
  have c: "length pre < length ?body" "\<not> length pre + 12 > length ?body" "\<not> length pre + 12 + ?n * 12 > length ?body"
    unfolding len by simp_all
  have lets: "unat (from_le (slice ?body (length pre) (length pre + 8)) :: u64) = g"
      "unat (from_le (slice ?body (length pre + 8) (length pre + 12)) :: u32) = ?n"
    unfolding s1 s2 using u by simp_all
  have conds: "\<not> (g = 0 \<or> g > published \<or> ?n = 0 \<or> (case previous of Some q \<Rightarrow> g \<le> q | None \<Rightarrow> False))"
    using ok prev by simp
  show ?case
    by (subst walk_buckets.simps, simp only: Let_def ca lets c if_True if_False Option.bind.simps conds wp
        option.case prod.case wb) (simp add: b)
qed

lemma bucket_extend_new: "\<forall>h \<in> fst ` set bs. h < g \<Longrightarrow> bucket_extend g ps bs = bs @ [(g, ps)]"
  by (induction bs rule: bucket_extend.induct [of _ g ps]) auto

lemma bucket_extend_last: "\<forall>h \<in> fst ` set bs. h < g \<Longrightarrow> bucket_extend g ps (bs @ [(g, qs)]) = bs @ [(g, qs @ ps)]"
  by (induction bs) auto

lemma visit_bucket:
  assumes "\<forall>h \<in> fst ` set acc. h < g" "\<forall>p \<in> set ps. births p \<noteq> Some 0"
  shows "foldl visit_free (acc @ [(g, qs)], m) (visits births (g, ps)) = (acc @ [(g, qs @ ps)], m ++ births |` set ps)"
  using assms(2)
proof (induction ps arbitrary: qs m)
  case (Cons p ps)
  have "visit_free (acc @ [(g, qs)], m) (g, p, birth_of births p) = (acc @ [(g, qs @ [p])], m ++ births |` {p})"
    using Cons.prems bucket_extend_last [OF assms(1)]
    by (auto simp: visit_free_def map_add_def restrict_map_def fun_eq_iff split: option.split)
  moreover have "m ++ births |` {p} ++ births |` set ps = m ++ births |` set (p # ps)"
    by (auto simp: map_add_def restrict_map_def fun_eq_iff split: option.split)
  ultimately show ?case using Cons by (simp add: visits_def)
qed (simp add: visits_def map_add_def restrict_map_def)

lemma visit_buckets:
  assumes "sorted_wrt (<) (map fst bs)" "\<forall>h \<in> fst ` set acc. \<forall>g \<in> fst ` set bs. h < g"
    and "list_all (bucket_ok published page_count births) bs"
  shows "foldl visit_free (acc, m) (concat (map (visits births) bs)) = (acc @ bs, m ++ births |` set (listed bs))"
  using assms
proof (induction bs arbitrary: acc m)
  case (Cons b bs)
  obtain g p ps where b: "b = (g, p # ps)" using Cons.prems(3) by (cases b; cases "snd b") (auto simp: bucket_ok_def)
  have acc: "\<forall>h \<in> fst ` set acc. h < g" using Cons.prems(2) by (simp add: b)
  have nz: "\<forall>q \<in> set (p # ps). births q \<noteq> Some 0" using Cons.prems(3) by (auto simp: b bucket_ok_def)
  have one: "visit_free (acc, m) (g, p, birth_of births p) = (acc @ [(g, [p])], m ++ births |` {p})"
    using nz bucket_extend_new [OF acc]
    by (auto simp: visit_free_def map_add_def restrict_map_def fun_eq_iff split: option.split)
  have m: "m ++ births |` {p} ++ births |` set ps ++ births |` set (listed bs) = m ++ births |` set (listed (b # bs))"
    by (auto simp: b map_add_def restrict_map_def fun_eq_iff split: option.split)
  have "foldl visit_free (acc, m) (visits births b) = (acc @ [b], m ++ births |` {p} ++ births |` set ps)"
    using visit_bucket [OF acc, of ps births "[p]"] nz one by (simp add: b visits_def)
  moreover have "foldl visit_free (acc @ [b], m') (concat (map (visits births) bs)) =
      (acc @ b # bs, m' ++ births |` set (listed bs))" for m'
    using Cons.IH [of "acc @ [b]" m'] Cons.prems by auto
  ultimately show ?case using m by simp
qed (simp add: map_add_def restrict_map_def)

lemma visits_free_ok:
  assumes "free_ok published page_count bs births"
  shows "foldl visit_free ([], Map.empty) (concat (map (visits births) bs)) = (bs, births)"
proof -
  have "births |` set (listed bs) = births"
  proof
    fix x
    have "dom births \<subseteq> set (listed bs)" using assms by (simp add: free_ok_def)
    then show "(births |` set (listed bs)) x = births x" by (cases "births x") (auto simp: restrict_map_def)
  qed
  then show ?thesis using visit_buckets [of bs "[]" published page_count births Map.empty] assms
    by (simp add: free_ok_def)
qed

lemma length_visits: "length (concat (map (visits births) bs)) = length (listed bs)"
  by (induction bs) (simp_all add: visits_def)

lemma length_FREE_MAGIC [simp]: "length FREE_MAGIC = 8"
  by (simp add: FREE_MAGIC_def)

lemma length_free_header [simp]: "length (free_header published) = 24"
  by (simp add: free_header_def)

lemma walk_free_export:
  assumes "free_ok published page_count bs births" "published \<le> u64_max" "page_count \<le> u32_max"
    and "v = free_header published @ concat (map (export_bucket births) bs)"
  shows "walk_free crc (v @ to_le (crc 0 v)) published page_count = Some (concat (map (visits births) bs))"
    and "expected \<noteq> published \<Longrightarrow> walk_free crc (v @ to_le (crc 0 v)) expected page_count = None"
proof -
  note ok = assms(1) [unfolded free_ok_def]
  have "length (listed bs) \<le> u32_max" using listed_bound(1) [of published page_count births bs] ok assms(3) by simp
  then have len: "length (free_header published) + length (concat (map (export_bucket births) bs)) \<le> u64_max"
    using export_length [of published page_count births bs] ok by simp
  have h: "slice v 0 8 = FREE_MAGIC" "from_le (slice v 8 10) = FREE_VERSION" "slice v 10 16 = replicate 6 0"
      "unat (from_le (slice v 16 24) :: u64) = published"
    unfolding assms(4) free_header_def using unat_generation [OF assms(2)]
    by (simp_all add: slice_append_right slice_append_left slice_whole)
  have "walk_buckets v published page_count FREE_HEADER_LEN None {} = Some (concat (map (visits births) bs))"
    using walk_buckets_export [OF assms(2,3) len, of "{}" None] ok by (simp add: assms(4) FREE_HEADER_LEN_def)
  then show "walk_free crc (v @ to_le (crc 0 v)) published page_count = Some (concat (map (visits births) bs))"
    using h by (simp add: walk_free_def FREE_HEADER_LEN_def assms(4))
  show "walk_free crc (v @ to_le (crc 0 v)) expected page_count = None" if "expected \<noteq> published"
    using h(4) that by (simp add: walk_free_def Let_def)
qed

text \<open>
  C28: The sidecar round trip. A pool whose free list is well formed exports it as of the generation it
  has just published; a pool that reopens the same file at that generation (with no resource policy,
  or one whose bookkeeping allowance covers the listed pages) imports exactly that list, with every
  birth generation and the right page count. Opened at any other generation the file is refused and
  the pool stays as it was.
\<close>

theorem sidecar_roundtrip:
  assumes "free_ok published (next_page s) (free s) (free_birth s)" "published \<le> u64_max" "next_page s \<le> u32_max"
    and "next_page t = next_page s" "\<forall>l. limits t = Some l \<longrightarrow> length (listed (free s)) \<le> unat (tracked_pages l)"
  shows "\<exists>b. export_free crc s published = Ok b \<and>
     import_free crc t b published =
       (t\<lparr>free := free s, free_count := length (listed (free s)), free_birth := free_birth s,
          promotion_checked_through := 0, promotion_readers := []\<rparr>, True) \<and>
     (\<forall>expected. expected \<noteq> published \<longrightarrow> import_free crc t b expected = (t, False))"
proof -
  define v where "v = free_header published @ concat (map (export_bucket (free_birth s)) (free s))"
  let ?b = "v @ to_le (crc 0 v)"
  note ok = assms(1) [unfolded free_ok_def]
  have "\<not> list_ex (\<lambda>(_, ps). length ps > u32_max) (free s)"
    using listed_bound(2) [of published "next_page s" "free_birth s" "free s"] ok assms(3)
    by (fastforce simp: list_ex_iff)
  then have ex: "export_free crc s published = Ok ?b"
    by (simp add: export_free_def empty_free_def FREE_HEADER_LEN_def v_def)
  have "length ?b \<le> 28 + 24 * length (listed (free s))"
    using export_length [of published "next_page s" "free_birth s" "free s"] ok by (simp add: v_def)
  then have lim: "\<not> (case limits t of Some l \<Rightarrow> length ?b > freelist_bytes l | None \<Rightarrow> False)"
      "\<not> (case limits t of Some l \<Rightarrow> length (listed (free s)) > unat (tracked_pages l) | None \<Rightarrow> False)"
    using assms(5) by (cases "limits t"; fastforce simp: freelist_bytes_def)+
  note w = walk_free_export [OF assms(1-3) v_def, where crc = crc]
  have "import_free crc t ?b published =
       (t\<lparr>free := free s, free_count := length (listed (free s)), free_birth := free_birth s,
          promotion_checked_through := 0, promotion_readers := []\<rparr>, True)"
    unfolding import_free_def assms(4) w(1)
    by (simp only: lim if_False option.case length_visits visits_free_ok [OF assms(1)] Let_def prod.case)
  moreover have "import_free crc t ?b expected = (t, False)" if "expected \<noteq> published" for expected
    unfolding import_free_def assms(4) w(2) [OF that] by (simp split: option.split)
  ultimately show ?thesis using ex by blast
qed

theorem sidecar_roundtrip_witness:
  "\<exists>b. export_free crc32c_append sample_reuse 6 = Ok b \<and>
     free_birth (fst (import_free crc32c_append (sample_reuse\<lparr>free := [], free_birth := Map.empty\<rparr>) b 6)) 7 = Some 2"
  using sidecar_roundtrip [of 6 sample_reuse "sample_reuse\<lparr>free := [], free_birth := Map.empty\<rparr>" crc32c_append]
  by (force simp: sample_reuse_def free_ok_def bucket_ok_def)

section \<open>What import accepts\<close>

lemma walk_pages_sound:
  assumes "walk_pages body g pos is page_count seen = Some (vs, seen')"
  shows "\<exists>ps births'. vs = visits births' (g, ps) \<and> length ps = length is \<and> distinct ps \<and> set ps \<inter> seen = {} \<and>
     seen' = seen \<union> set ps \<and> dom births' \<subseteq> dom births \<union> set ps \<and> (\<forall>p. p \<notin> set ps \<longrightarrow> births' p = births p) \<and>
     (\<forall>p \<in> set ps. 2 \<le> p \<and> p < page_count \<and> (\<forall>x. births' p = Some x \<longrightarrow> 0 < x \<and> x \<le> g))"
  using assms(1)
proof (induction "is" arbitrary: seen vs)
  case (Cons i js)
  let ?p = "unat (from_le (slice body (pos + i * 12) (pos + i * 12 + 4)) :: u32)"
  let ?x = "unat (from_le (slice body (pos + i * 12 + 4) (pos + i * 12 + 12)) :: u64)"
  obtain ws where w: "walk_pages body g pos js page_count (Set.insert ?p seen) = Some (ws, seen')" "vs = (g, ?p, ?x) # ws"
      "2 \<le> ?p" "?p < page_count" "?x \<le> g" "?p \<notin> seen"
    using Cons.prems by (auto simp: Let_def split: if_splits option.splits)
  obtain ps bm where ih: "ws = visits bm (g, ps)" "length ps = length js" "distinct ps" "set ps \<inter> Set.insert ?p seen = {}"
      "seen' = Set.insert ?p seen \<union> set ps" "dom bm \<subseteq> dom births \<union> set ps" "\<forall>p. p \<notin> set ps \<longrightarrow> bm p = births p"
      "\<forall>p \<in> set ps. 2 \<le> p \<and> p < page_count \<and> (\<forall>x. bm p = Some x \<longrightarrow> 0 < x \<and> x \<le> g)"
    using Cons.IH [OF w(1)] by blast
  define bm' where "bm' = bm(?p := if ?x = 0 then None else Some ?x)"
  have "visits bm' (g, ?p # ps) = vs"
    using ih(4) unfolding w(2) ih(1) by (auto simp: visits_def bm'_def)
  moreover have "dom bm' \<subseteq> dom births \<union> set (?p # ps)" using ih(6) by (auto simp: bm'_def split: if_splits)
  moreover have "\<forall>q \<in> set (?p # ps). 2 \<le> q \<and> q < page_count \<and> (\<forall>x. bm' q = Some x \<longrightarrow> 0 < x \<and> x \<le> g)"
    using ih(8) w(3-5) by (auto simp: bm'_def)
  moreover have "\<forall>q. q \<notin> set (?p # ps) \<longrightarrow> bm' q = births q" using ih(7) by (auto simp: bm'_def)
  ultimately show ?case using ih(2-5) w(6) by (intro exI [of _ "?p # ps"] exI [of _ bm']) auto
qed (auto simp: visits_def)

lemma visits_cong: "(\<And>p. p \<in> set (snd b) \<Longrightarrow> births p = births' p) \<Longrightarrow> visits births b = visits births' b"
  by (simp add: visits_def)

lemma bucket_ok_cong:
  "(\<And>p. p \<in> set (snd b) \<Longrightarrow> births p = births' p) \<Longrightarrow> bucket_ok e pc births b = bucket_ok e pc births' b"
  by (auto simp: bucket_ok_def split: prod.splits)

lemma free_ok_Cons:
  assumes "free_ok e pc bs births0" "0 < g" "g \<le> e" "ps \<noteq> []" "\<forall>h \<in> fst ` set bs. g < h"
    and "distinct ps" "set ps \<inter> set (listed bs) = {}" "dom births \<subseteq> dom births0 \<union> set ps"
    and "\<forall>p. p \<notin> set ps \<longrightarrow> births p = births0 p"
    and "\<forall>p \<in> set ps. 2 \<le> p \<and> p < pc \<and> (\<forall>x. births p = Some x \<longrightarrow> 0 < x \<and> x \<le> g)"
  shows "free_ok e pc ((g, ps) # bs) births"
    and "concat (map (visits births) bs) = concat (map (visits births0) bs)"
proof -
  have eq: "births p = births0 p" if "b \<in> set bs" "p \<in> set (snd b)" for b p
    using assms(7,9) that by fastforce
  then have "list_all (bucket_ok e pc births) bs"
    using assms(1) bucket_ok_cong [of _ births births0 e pc] by (simp add: free_ok_def list_all_iff)
  moreover have "bucket_ok e pc births (g, ps)" using assms(2-4,10) by (simp add: bucket_ok_def)
  moreover have "dom births \<subseteq> set (listed ((g, ps) # bs))" using assms(1,8) by (auto simp: free_ok_def)
  ultimately show "free_ok e pc ((g, ps) # bs) births"
    using assms(1,5-7) by (auto simp: free_ok_def)
  have "map (visits births) bs = map (visits births0) bs"
    using eq visits_cong by (intro map_cong refl) blast
  then show "concat (map (visits births) bs) = concat (map (visits births0) bs)" by (rule arg_cong)
qed

lemma walk_buckets_step:
  assumes "walk_buckets body e pc pos previous seen = Some vs" "pos < length body"
  obtains g n ws seen' rest where "0 < g" "g \<le> e" "0 < n" "\<forall>q. previous = Some q \<longrightarrow> q < g"
    "walk_pages body g (pos + 12) [0..<n] pc seen = Some (ws, seen')"
    "walk_buckets body e pc (pos + 12 + n * 12) (Some g) seen' = Some rest" "vs = ws @ rest"
proof -
  define g where "g = unat (from_le (slice body pos (pos + 8)) :: u64)"
  define n where "n = unat (from_le (slice body (pos + 8) (pos + 12)) :: u32)"
  have c: "\<not> (g = 0 \<or> g > e \<or> n = 0 \<or> (case previous of Some q \<Rightarrow> g \<le> q | None \<Rightarrow> False))" and
    r: "\<exists>ws seen' rest. walk_pages body g (pos + 12) [0..<n] pc seen = Some (ws, seen') \<and>
      walk_buckets body e pc (pos + 12 + n * 12) (Some g) seen' = Some rest \<and> vs = ws @ rest"
    using assms(1) [unfolded walk_buckets.simps [of body e pc pos]] assms(2)
    unfolding Let_def g_def [symmetric] n_def [symmetric]
    by (auto simp: Option.bind_eq_Some_conv checked_add_u64_Some split: if_splits option.splits)
  then show ?thesis using that [of g n] by (auto simp: not_le split: option.splits)
qed

lemma walk_buckets_sound:
  "walk_buckets body e pc pos previous seen = Some vs \<Longrightarrow>
   \<exists>bs births. free_ok e pc bs births \<and> vs = concat (map (visits births) bs) \<and>
     (\<forall>q. previous = Some q \<longrightarrow> (\<forall>g \<in> fst ` set bs. q < g)) \<and> set (listed bs) \<inter> seen = {}"
proof (induction "length body - pos" arbitrary: pos previous seen vs rule: less_induct)
  case less
  show ?case
  proof (cases "pos < length body")
    case True
    obtain g n ws seen' rest where w: "0 < g" "g \<le> e" "0 < n" "\<forall>q. previous = Some q \<longrightarrow> q < g"
      "walk_pages body g (pos + 12) [0..<n] pc seen = Some (ws, seen')"
      "walk_buckets body e pc (pos + 12 + n * 12) (Some g) seen' = Some rest" "vs = ws @ rest"
      by (rule walk_buckets_step [OF less.prems True])
    have "length body - (pos + 12 + n * 12) < length body - pos" using True by simp
    from less.hyps [OF this w(6)] obtain bs births0 where
      ih': "free_ok e pc bs births0" "rest = concat (map (visits births0) bs)"
        "\<forall>q. Some g = Some q \<longrightarrow> (\<forall>g \<in> fst ` set bs. q < g)" "set (listed bs) \<inter> seen' = {}" by blast
    have gt: "\<forall>h \<in> fst ` set bs. g < h" using ih'(3) by simp
    note ih = ih'(1,2) gt ih'(4)
    obtain ps births where p: "ws = visits births (g, ps)" "length ps = n" "distinct ps" "set ps \<inter> seen = {}"
        "seen' = seen \<union> set ps" "dom births \<subseteq> dom births0 \<union> set ps" "\<forall>p. p \<notin> set ps \<longrightarrow> births p = births0 p"
        "\<forall>p \<in> set ps. 2 \<le> p \<and> p < pc \<and> (\<forall>x. births p = Some x \<longrightarrow> 0 < x \<and> x \<le> g)"
      using walk_pages_sound [OF w(5), of births0] by (simp only: length_upt diff_zero) blast
    have ne: "ps \<noteq> []" and dj: "set ps \<inter> set (listed bs) = {}" using p(2) w(3) ih(4) unfolding p(5) by auto
    note ok = free_ok_Cons [OF ih(1) w(1,2) ne ih(3) p(3) dj p(6,7,8)]
    have "vs = concat (map (visits births) ((g, ps) # bs))" using ok(2) w(7) p(1) ih(2) by simp
    moreover have "\<forall>q. previous = Some q \<longrightarrow> (\<forall>h \<in> fst ` set ((g, ps) # bs). q < h)"
    proof (intro allI impI)
      fix q assume "previous = Some q"
      then have "q < g" using w(4) by simp
      then show "\<forall>h \<in> fst ` set ((g, ps) # bs). q < h" using gt by auto
    qed
    moreover have "set (listed ((g, ps) # bs)) \<inter> seen = {}" using p(4) ih(4) unfolding p(5) by auto
    ultimately show ?thesis using ok(1) by blast
  next
    case False
    then have "vs = []" using less.prems walk_buckets.simps [of body e pc pos previous seen] by simp
    then show ?thesis by (intro exI [of _ "[]"] exI [of _ Map.empty]) (simp add: free_ok_def)
  qed
qed

text \<open>
  C29: Import accepts only a certified list. Whatever bytes the sidecar holds, an accepted import
  leaves a free list of pages inside the file (never a metadata slot), each listed once, under
  generations between one and the published generation, with the page count that matches; nothing
  else of the pool changes but the promotion bookkeeping, which restarts. A refused import changes
  nothing.
\<close>

theorem import_free_safe:
  "import_free crc s b expected = (s', r) \<Longrightarrow>
   (if r then free_ok expected (next_page s) (free s') (free_birth s') \<and> free_count s' = length (listed (free s')) \<and>
         (\<forall>l. limits s = Some l \<longrightarrow> free_count s' \<le> unat (tracked_pages l)) \<and>
         s' = s\<lparr>free := free s', free_count := free_count s', free_birth := free_birth s',
                promotion_checked_through := 0, promotion_readers := []\<rparr>
    else s' = s)"
proof (cases r)
  case True
  assume im: "import_free crc s b expected = (s', r)"
  then obtain vs where w: "walk_free crc b expected (next_page s) = Some vs"
    using True by (auto simp: import_free_def split: if_splits option.splits)
  then have "walk_buckets (take (length b - 4) b) expected (next_page s) FREE_HEADER_LEN None {} = Some vs"
    by (auto simp: walk_free_def Let_def split: if_splits)
  from walk_buckets_sound [OF this] obtain bs births where
    ok: "free_ok expected (next_page s) bs births" "vs = concat (map (visits births) bs)" by blast
  have l: "\<forall>l. limits s = Some l \<longrightarrow> length vs \<le> unat (tracked_pages l)" and
    s': "s' = s\<lparr>free := bs, free_count := length vs, free_birth := births, promotion_checked_through := 0, promotion_readers := []\<rparr>"
    using im True w visits_free_ok [OF ok(1)] by (auto simp: import_free_def ok(2) not_less split: if_splits option.splits)
  show ?thesis using True ok(1) l by (simp add: s' ok(2) length_visits)
next
  case False
  assume "import_free crc s b expected = (s', r)"
  then show ?thesis using False by (auto simp: import_free_def split: if_splits option.splits prod.splits)
qed

theorem import_free_safe_witness:
  "\<exists>s'. import_free crc32c_append sample_reuse [] 6 = (s', False) \<and> s' = sample_reuse"
proof -
  have "import_free crc32c_append sample_reuse [] 6 = (sample_reuse, False)"
    by (simp add: import_free_def walk_free_def sample_reuse_def)
  from import_free_safe [OF this] this show ?thesis by simp
qed

end
