(* ===== verification/Pool.thy ===== *)
theory Pool
  imports Freelist File_Io Budget
begin

text \<open>
  The buffer pool (core/kernel/src/pool.rs): a fixed set of frames over the data file, pinned by
  guards, evicted by a CLOCK sweep, written back sealed. The pool extends the recycling state of
  \<open>Freelist\<close> with the frames, their bytes and the file. A failed \<open>assert!\<close> is \<open>Panic\<close>; a
  \<open>debug_assert!\<close> is one only where the build checks it. The \<open>u64\<close> statistics and the \<open>u32\<close> pin
  counts are held as \<open>nat\<close>; the process-wide counters of write_stats.rs are not part of the state.
\<close>

section \<open>State\<close>

record frame =
  frame_page :: nat
  present :: bool
  dirty :: bool
  referenced :: bool
  pins :: nat
  frame_writer :: bool
  validated :: bool

record pool_stats =
  hits :: nat
  misses :: nat
  evictions :: nat
  frames_total :: nat
  peak_pins :: nat
  sync_data_calls :: nat
  sync_full_calls :: nat
  dirty_pages_flushed :: nat

record pool = reuse +
  frames :: "frame list"
  region :: "bytes list"
  table :: "nat \<rightharpoonup> nat"
  hand :: nat
  live_pins :: nat
  sweep_steps :: nat
  stats :: pool_stats
  pool_file :: posix_file
  compact_cells :: bool

definition empty_frame :: frame where
  "empty_frame = \<lparr>frame_page = 0, present = False, dirty = False, referenced = False, pins = 0,
     frame_writer = False, validated = False\<rparr>"

text \<open>\<open>BufferPool::new\<close>; \<open>ceiling\<close> and \<open>used\<close> are the memory budget at the call, \<open>compact_default\<close> the cargo feature.\<close>

definition pool_new :: "posix_file \<Rightarrow> nat \<Rightarrow> nat \<Rightarrow> nat \<Rightarrow> bool \<Rightarrow> pool kresult" where
  "pool_new f ceiling used n compact_default =
     obind (file_len f) (\<lambda>file_len.
     if file_len mod PAGE_SIZE \<noteq> 0 then Err (Corrupt 0 ''data file is not page aligned'')
     else let pages = file_len div PAGE_SIZE in
     if pages > u32_max then Err (Corrupt 0 ''data file has too many pages'')
     else if n * PAGE_SIZE > u64_max then Err OutOfBudget
     else obind (reserve_next ceiling used (n * PAGE_SIZE)) (\<lambda>_.
     Ok \<lparr>next_page = pages, limits = None, free_count = 0, epoch_allocated_pages = 0, stamp_gen = 1, free = [],
         reuse_limit = 0, free_birth = Map.empty, promotion_readers = [], promotion_checked_through = 0,
         thawed = [], frozen_boundary = 0,
         frames = replicate n empty_frame, region = replicate n (replicate PAGE_SIZE 0), table = Map.empty,
         hand = 0, live_pins = 0, sweep_steps = 0,
         stats = \<lparr>hits = 0, misses = 0, evictions = 0, frames_total = n, peak_pins = 0, sync_data_calls = 0,
           sync_full_calls = 0, dirty_pages_flushed = 0\<rparr>,
         pool_file = f, compact_cells = compact_default\<rparr>))"

definition set_frame :: "pool \<Rightarrow> nat \<Rightarrow> frame \<Rightarrow> pool" where
  "set_frame s i f = s\<lparr>frames := (frames s)[i := f]\<rparr>"

definition page_at :: "nat \<Rightarrow> nat" where
  "page_at no = no * PAGE_SIZE"

section \<open>Eviction\<close>

text \<open>Seal the frame's page with the generation being built and write it at its place.\<close>

definition write_back :: "crc_fn \<Rightarrow> pool \<Rightarrow> nat \<Rightarrow> pool \<times> unit kresult" where
  "write_back crc s i =
     (let f = frames s ! i;
          b = seal crc (region s ! i) (of_nat (stamp_gen s));
          s = s\<lparr>region := (region s)[i := b]\<rparr>;
          (file', r) = write_at (pool_file s) b (page_at (frame_page f))
      in then_do (s\<lparr>pool_file := file'\<rparr>, r) (\<lambda>s _. (set_frame s i (f\<lparr>dirty := False\<rparr>), Ok ())))"

definition evict :: "pool \<Rightarrow> nat \<Rightarrow> pool" where
  "evict s i =
     (let f = frames s ! i in
      (set_frame s i (f\<lparr>present := False\<rparr>))
        \<lparr>table := (table s)(frame_page f := None), stats := (stats s)\<lparr>evictions := evictions (stats s) + 1\<rparr>\<rparr>)"

fun victim_loop :: "crc_fn \<Rightarrow> nat \<Rightarrow> pool \<Rightarrow> pool \<times> nat kresult" where
  "victim_loop crc 0 s = (s, Err OutOfBudget)"
| "victim_loop crc (Suc k) s =
     (let i = hand s;
          s = s\<lparr>sweep_steps := sweep_steps s + 1, hand := (hand s + 1) mod length (frames s)\<rparr>
      in if \<not> i < length (frames s) then (s, Panic)
         else let f = frames s ! i in
           if pins f > 0 then victim_loop crc k s
           else if \<not> present f then (s, Ok i)
           else if referenced f then victim_loop crc k (set_frame s i (f\<lparr>referenced := False\<rparr>))
           else then_do (if dirty f then write_back crc s i else (s, Ok ())) (\<lambda>s _. (evict s i, Ok i)))"

definition victim :: "crc_fn \<Rightarrow> pool \<Rightarrow> pool \<times> nat kresult" where
  "victim crc s = victim_loop crc (length (frames s) * 4) s"

section \<open>Pinning\<close>

definition note_pin :: "pool \<Rightarrow> pool" where
  "note_pin s =
     (let s = s\<lparr>live_pins := live_pins s + 1\<rparr> in
      if live_pins s > peak_pins (stats s) then s\<lparr>stats := (stats s)\<lparr>peak_pins := live_pins s\<rparr>\<rparr> else s)"

definition install :: "pool \<Rightarrow> nat \<Rightarrow> nat \<Rightarrow> bool \<Rightarrow> bool \<Rightarrow> pool" where
  "install s i no is_dirty write =
     note_pin ((set_frame s i \<lparr>frame_page = no, present = True, dirty = is_dirty, referenced = True, pins = 1,
                  frame_writer = write, validated = False\<rparr>)\<lparr>table := (table s)(no \<mapsto> i)\<rparr>)"

definition load :: "crc_fn \<Rightarrow> pool \<Rightarrow> nat \<Rightarrow> bool \<Rightarrow> pool \<times> nat kresult" where
  "load crc s no write =
     (case table s no of
        Some i \<Rightarrow>
          if \<not> i < length (frames s) then (s, Panic)
          else let f = frames s ! i in
            if write \<and> pins f > 0 then (s, Panic)
            else if \<not> (write \<or> \<not> frame_writer f) then (s, Panic)
            else let s = s\<lparr>stats := (stats s)\<lparr>hits := hits (stats s) + 1\<rparr>\<rparr>;
                     s = set_frame s i (f\<lparr>referenced := True, pins := pins f + 1,
                           frame_writer := (if write then True else frame_writer f)\<rparr>)
                 in (note_pin s, Ok i)
      | None \<Rightarrow>
          then_do (victim crc (s\<lparr>stats := (stats s)\<lparr>misses := misses (stats s) + 1\<rparr>\<rparr>)) (\<lambda>s i.
            case read_at (pool_file s) (page_at no) PAGE_SIZE of
              Err e \<Rightarrow> (s, Err e)
            | Panic \<Rightarrow> (s, Panic)
            | Ok b \<Rightarrow>
                let s = s\<lparr>region := (region s)[i := b]\<rparr> in
                case page_open crc b (of_nat no) of
                  Err e \<Rightarrow> (s, Err e)
                | Panic \<Rightarrow> (s, Panic)
                | Ok _ \<Rightarrow> (install s i no False write, Ok i)))"

definition pool_get :: "crc_fn \<Rightarrow> pool \<Rightarrow> nat \<Rightarrow> pool \<times> nat kresult" where
  "pool_get crc s no = load crc s no False"

definition get_mut :: "crc_fn \<Rightarrow> pool \<Rightarrow> nat \<Rightarrow> pool \<times> nat kresult" where
  "get_mut crc s no =
     (if is_frozen s no then (s, Panic)
      else then_do (load crc s no True) (\<lambda>s i. (set_frame s i ((frames s ! i)\<lparr>dirty := True\<rparr>), Ok i)))"

text \<open>What a \<open>PinnedWrite\<close> does to its frame, and the end of a guard (\<open>pins -= 1\<close> is checked).\<close>

definition bytes_mut :: "pool \<Rightarrow> nat \<Rightarrow> bytes \<Rightarrow> pool" where
  "bytes_mut s i b = s\<lparr>region := (region s)[i := b]\<rparr>"

definition unpin :: "pool \<Rightarrow> nat \<Rightarrow> bool \<Rightarrow> pool kresult" where
  "unpin s i writer =
     (if \<not> i < length (frames s) \<or> pins (frames s ! i) = 0 \<or> live_pins s = 0 then Panic
      else let f = frames s ! i in
        Ok ((set_frame s i (f\<lparr>pins := pins f - 1, frame_writer := (if writer then False else frame_writer f)\<rparr>))
              \<lparr>live_pins := live_pins s - 1\<rparr>))"

definition set_validated :: "pool \<Rightarrow> nat \<Rightarrow> pool" where
  "set_validated s i = set_frame s i ((frames s ! i)\<lparr>validated := True\<rparr>)"

section \<open>Allocation and whole-run transfers\<close>

text \<open>A recycled number may still have a stale frame; it is dropped unwritten.\<close>

definition drop_stale :: "bool \<Rightarrow> pool \<Rightarrow> nat \<Rightarrow> pool \<times> unit kresult" where
  "drop_stale checked s p =
     (case table s p of
        None \<Rightarrow> (s, Ok ())
      | Some i \<Rightarrow>
          if \<not> i < length (frames s) \<or> checked \<and> pins (frames s ! i) \<noteq> 0 then (s, Panic)
          else ((set_frame s i ((frames s ! i)\<lparr>present := False, dirty := False\<rparr>))\<lparr>table := (table s)(p := None)\<rparr>, Ok ()))"

definition allocate :: "crc_fn \<Rightarrow> bool \<Rightarrow> pool \<Rightarrow> pool \<times> (nat \<times> nat) kresult" where
  "allocate crc debug s =
     then_do (choose_page s) (\<lambda>s (no, recycled).
     then_do (if recycled then drop_stale debug s no else (s, Ok ())) (\<lambda>s _.
     then_do (victim crc s) (\<lambda>s i.
     case page_init (replicate PAGE_SIZE 0) PageFree 0 (of_nat no) of
       Ok b \<Rightarrow> (install (s\<lparr>region := (region s)[i := finalise b 0]\<rparr>) i no True True, Ok (i, no))
     | Err e \<Rightarrow> (s, Err e)
     | Panic \<Rightarrow> (s, Panic))))"

definition allocate_unpooled :: "pool \<Rightarrow> pool \<times> nat kresult" where
  "allocate_unpooled s =
     then_do (choose_page s) (\<lambda>s (no, recycled).
     then_do (if recycled then drop_stale True s no else (s, Ok ())) (\<lambda>s _. (s, Ok no)))"

fun open_run :: "crc_fn \<Rightarrow> bytes \<Rightarrow> nat \<Rightarrow> nat list \<Rightarrow> unit kresult" where
  "open_run crc buf start [] = Ok ()"
| "open_run crc buf start (i # is) =
     obind (page_open crc (slice buf (i * PAGE_SIZE) ((i + 1) * PAGE_SIZE)) (of_nat (start + i)))
       (\<lambda>_. open_run crc buf start is)"

text \<open>The flag is the result of the call, the bytes what it leaves in \<open>buf\<close>.\<close>

definition read_run_uncached :: "crc_fn \<Rightarrow> pool \<Rightarrow> nat \<Rightarrow> nat \<Rightarrow> bytes \<Rightarrow> (bool \<times> bytes) kresult" where
  "read_run_uncached crc s start n buf =
     (if n = 0 \<or> start + n > u32_max \<or> start + n > next_page s
      then Err (Corrupt (of_nat start) ''overflow run out of bounds'')
      else if list_ex (\<lambda>p. table s p \<noteq> None) [start..<start + n] then Ok (False, buf)
      else obind (read_at (pool_file s) (page_at start) (n * PAGE_SIZE)) (\<lambda>buf.
           obind (open_run crc buf start [0..<n]) (\<lambda>_. Ok (True, buf))))"

definition write_unpooled_run :: "pool \<Rightarrow> nat \<Rightarrow> bytes \<Rightarrow> pool \<times> unit kresult" where
  "write_unpooled_run s first_page data =
     (if data = [] \<or> length data mod PAGE_SIZE \<noteq> 0
      then (s, Err (Corrupt (of_nat first_page) ''bulk page run is not aligned''))
      else let pages = length data div PAGE_SIZE in
      if pages > u32_max then (s, Err TooLarge)
      else if first_page + pages > u32_max \<or> first_page + pages > next_page s
      then (s, Err (Corrupt (of_nat first_page) ''bulk page run exceeds allocation''))
      else let (file', r) = write_at (pool_file s) data (page_at first_page) in (s\<lparr>pool_file := file'\<rparr>, r))"

section \<open>The checkpoint flush\<close>

datatype barrier = BarrierNone | BarrierData | BarrierFull

definition flush_one :: "crc_fn \<Rightarrow> pool \<Rightarrow> nat \<Rightarrow> pool \<times> unit kresult" where
  "flush_one crc s i =
     (let f = frames s ! i in
      if present f \<and> dirty f then
        if pins f \<noteq> 0 then (s, Panic)
        else then_do (write_back crc s i) (\<lambda>s _.
          (s\<lparr>stats := (stats s)\<lparr>dirty_pages_flushed := dirty_pages_flushed (stats s) + 1\<rparr>\<rparr>, Ok ()))
      else (s, Ok ()))"

fun flush_loop :: "crc_fn \<Rightarrow> pool \<Rightarrow> nat list \<Rightarrow> pool \<times> unit kresult" where
  "flush_loop crc s [] = (s, Ok ())"
| "flush_loop crc s (i # is) = then_do (flush_one crc s i) (\<lambda>s _. flush_loop crc s is)"

definition flush_all :: "crc_fn \<Rightarrow> pool \<Rightarrow> barrier \<Rightarrow> pool \<times> unit kresult" where
  "flush_all crc s barrier =
     then_do (flush_loop crc s [0..<length (frames s)]) (\<lambda>s _.
     case barrier of
       BarrierFull \<Rightarrow>
         (let s = s\<lparr>stats := (stats s)\<lparr>sync_full_calls := sync_full_calls (stats s) + 1\<rparr>\<rparr> in (s, sync_data (pool_file s)))
     | BarrierData \<Rightarrow>
         (let s = s\<lparr>stats := (stats s)\<lparr>sync_data_calls := sync_data_calls (stats s) + 1\<rparr>\<rparr> in (s, sync_data (pool_file s)))
     | BarrierNone \<Rightarrow> (s, Ok ()))"

section \<open>Page images\<close>

text \<open>A page without what sealing rewrites: the generation, the format stamp, the checksum.\<close>

definition page_body :: "bytes \<Rightarrow> bytes" where
  "page_body b = slice b 0 18 @ slice b 20 24 @ slice b 32 36 @ slice b 40 PAGE_SIZE"

definition page_ok :: "crc_fn \<Rightarrow> nat \<Rightarrow> bytes \<Rightarrow> bool" where
  "page_ok crc no b \<longleftrightarrow> open_resident crc b (of_nat no) = Ok b"

definition sealed_ok :: "crc_fn \<Rightarrow> nat \<Rightarrow> bytes \<Rightarrow> bool" where
  "sealed_ok crc no b \<longleftrightarrow> page_open crc b (of_nat no) = Ok b"

lemma page_ok_length: "page_ok crc no b \<Longrightarrow> length b = PAGE_SIZE"
  unfolding page_ok_def open_resident_def by (rule open_inner_Ok(2))

lemma sealed_ok_length: "sealed_ok crc no b \<Longrightarrow> length b = PAGE_SIZE"
  unfolding sealed_ok_def page_open_def by (rule open_inner_Ok(2))

lemma sealed_ok_page_ok: "sealed_ok crc no b \<Longrightarrow> page_ok crc no b"
  by (auto simp: sealed_ok_def page_ok_def page_open_def open_resident_def open_inner_def Let_def split: if_splits)

lemma page_open_Ok: "page_open crc b (of_nat no) = Ok c \<Longrightarrow> sealed_ok crc no b"
  using open_inner_Ok(1) [of crc b "of_nat no" True c] by (simp add: sealed_ok_def page_open_def)

lemma seal_body:
  assumes "length b = PAGE_SIZE"
  shows "page_body (seal crc b g) = page_body b"
proof -
  have l: "length b = 4096" using assms by (simp add: PAGE_SIZE_def)
  have "slice (seal crc b g) 32 36 = slice b 32 36"
    using l by (simp add: seal_def Let_def layout_defs slice_put_at_other)
  then show ?thesis by (simp add: page_body_def seal_fields(5) [OF l])
qed

lemma seal_ok:
  assumes "page_ok crc no b"
  shows "sealed_ok crc no (seal crc b g)"
proof -
  note o = open_inner_Ok [OF assms [unfolded page_ok_def open_resident_def]]
  have l: "length b = 4096" using o(2) by (simp add: PAGE_SIZE_def)
  note s = seal_fields [OF l, where crc = crc and g = g]
  have rd: "rd_u32 (seal crc b g) 0 = rd_u32 b 0" "rd_u16 (seal crc b g) 4 = rd_u16 b 4" "rd_u32 (seal crc b g) 12 = rd_u32 b 12"
      "rd_u16 (seal crc b g) 6 = rd_u16 b 6" "nentries (seal crc b g) = nentries b" "free_ptr (seal crc b g) = free_ptr b"
    by (simp_all add: rd_u32_def rd_u16_def nentries_def free_ptr_def s(5))
  have "slot_off (seal crc b g) i = slot_off b i" "slot_len (seal crc b g) i = slot_len b i" for i
    by (simp_all add: slot_off_def slot_len_def rd_u16_def layout_defs s(5))
  then have sb: "slots_in_bounds (seal crc b g) n = slots_in_bounds b n" for n
    by (simp add: slots_in_bounds_def rd)
  have "rd_u32 b 0 = PAGE_MAGIC" "rd_u16 b 4 = PAGE_VERSION"
    using assms by (auto simp: page_ok_def open_resident_def open_inner_def Let_def split: if_splits)
  then show ?thesis
    using o s(1,3,4) by (simp add: sealed_ok_def page_open_def open_inner_def Let_def rd sb PAGE_SIZE_def format_version_def)
qed

lemma fresh_page_ok:
  assumes "page_init (replicate PAGE_SIZE 0) kind t (of_nat no) = Ok b"
  shows "page_ok crc no (finalise b 0)"
proof -
  obtain c where c: "page_init (replicate PAGE_SIZE 0) kind t (of_nat no) = Ok c" "page_wf c" "page_header c kind t (of_nat no)"
    using page_init_law [of "replicate PAGE_SIZE 0" kind t "of_nat no"] by auto
  have bc: "b = c" using assms c(1) by simp
  have l: "length c = 4096" using page_wf_bounds(1) [OF c(2)] .
  have sl: "k \<le> 24 \<or> 32 \<le> j \<Longrightarrow> slice (finalise c 0) j k = slice c j k" for j k
    using l by (auto simp: finalise_def slice_put_at_other)
  have f: "length (finalise c 0) = PAGE_SIZE" using l by (simp add: finalise_def PAGE_SIZE_def)
  have rd: "rd_u32 (finalise c 0) 0 = rd_u32 c 0" "rd_u16 (finalise c 0) 4 = rd_u16 c 4" "rd_u32 (finalise c 0) 12 = rd_u32 c 12"
      "rd_u16 (finalise c 0) 6 = rd_u16 c 6" "nentries (finalise c 0) = nentries c" "free_ptr (finalise c 0) = free_ptr c"
      "format_version (finalise c 0) = format_version c"
    by (simp_all add: rd_u32_def rd_u16_def nentries_def free_ptr_def format_version_def FORMAT_AT_def sl)
  have "slot_off (finalise c 0) i = slot_off c i" "slot_len (finalise c 0) i = slot_len c i" for i
    by (simp_all add: slot_off_def slot_len_def rd_u16_def layout_defs sl)
  then have sb: "slots_in_bounds (finalise c 0) n = slots_in_bounds c n" for n
    by (simp add: slots_in_bounds_def rd)
  have fv: "format_version c = FORMAT_VERSION"
    using c(1) by (auto simp: page_init_def Let_def format_version_def FORMAT_AT_def PAGE_SIZE_def rd_u16_same)
  have "open_inner crc c (of_nat no) False = Ok c" by (rule open_inner_accepts [OF c(2,3) fv]) simp
  then show ?thesis
    using f unfolding bc page_ok_def open_resident_def
    by (auto simp: open_inner_def Let_def rd sb rd [unfolded format_version_def] split: if_splits)
qed

section \<open>The disk under the pool\<close>

definition disk_page :: "posix_file \<Rightarrow> nat \<Rightarrow> bytes" where
  "disk_page f no = slice (contents f) (page_at no) (page_at no + PAGE_SIZE)"

lemma slice_overwrite_other:
  assumes "k \<le> length b" "k \<le> off \<or> off + length data \<le> j"
  shows "slice (overwrite b off data) j k = slice b j k"
proof -
  let ?r = "resize_to (max (length b) (off + length data)) b"
  have "slice (put_at ?r off data) j k = slice ?r j k"
    using assms(2) by (intro slice_put_at_other) auto
  also have "\<dots> = slice b j k"
    using assms(1) by (simp add: resize_to_def slice_append_left)
  finally show ?thesis by (simp add: overwrite_def)
qed

lemma disk_page_full: "length (disk_page f no) = PAGE_SIZE \<longleftrightarrow> page_at no + PAGE_SIZE \<le> length (contents f)"
  by (auto simp: disk_page_def PAGE_SIZE_def)

lemma page_at_apart: "m \<noteq> n \<Longrightarrow> page_at m + PAGE_SIZE \<le> page_at n \<or> page_at n + PAGE_SIZE \<le> page_at m"
  unfolding page_at_def PAGE_SIZE_def by linarith

lemma write_at_cases:
  assumes "write_at f data off = (f', r)"
  obtains n where "contents f' = overwrite (contents f) off (take n data)" "r = Ok () \<longrightarrow> take n data = data" "r \<noteq> Panic"
    "r = Ok () \<longleftrightarrow> write_ok f off (length data)" "f' = f\<lparr>contents := contents f'\<rparr>"
proof (cases "write_ok f off (length data)")
  case True
  then show ?thesis using assms that [of "length data"] by (auto simp: write_at_def)
next
  case False
  then show ?thesis using assms that [of "torn f off (length data)"] by (auto simp: write_at_def)
qed

lemma write_page_disk:
  assumes "write_at f data (page_at no) = (f', r)" "length data = PAGE_SIZE"
  shows "no' \<noteq> no \<Longrightarrow> length (disk_page f no') = PAGE_SIZE \<Longrightarrow> disk_page f' no' = disk_page f no'"
    and "r = Ok () \<Longrightarrow> disk_page f' no = data"
proof -
  obtain n where n: "contents f' = overwrite (contents f) (page_at no) (take n data)" "r = Ok () \<longrightarrow> take n data = data"
    using write_at_cases [OF assms(1)] by metis
  show "disk_page f' no' = disk_page f no'" if "no' \<noteq> no" "length (disk_page f no') = PAGE_SIZE"
    unfolding disk_page_def n(1) using that(2) page_at_apart [OF that(1)] assms(2)
    by (intro slice_overwrite_other) (auto simp: disk_page_full min_def)
  show "disk_page f' no = data" if "r = Ok ()"
    using n that slice_overwrite [of "contents f" "page_at no" data] assms(2) by (simp add: disk_page_def)
qed

section \<open>Invariant and transparency\<close>

text \<open>
  One frame, relative to the frozen pages and the disk: a resident page that no writer holds is a
  readable page; a clean one is what the disk has; a dirty one is not part of the published tree.
\<close>

definition frame_inv :: "crc_fn \<Rightarrow> (nat \<Rightarrow> bool) \<Rightarrow> (nat \<Rightarrow> bytes) \<Rightarrow> frame \<Rightarrow> bytes \<Rightarrow> bool" where
  "frame_inv crc frozen disk f b \<longleftrightarrow>
     (present f \<longrightarrow>
        (\<not> frame_writer f \<longrightarrow> page_ok crc (frame_page f) b) \<and>
        (dirty f \<longrightarrow> \<not> frozen (frame_page f)) \<and>
        (\<not> dirty f \<longrightarrow> b = disk (frame_page f) \<and> sealed_ok crc (frame_page f) b)) \<and>
     (\<not> present f \<longrightarrow> pins f = 0) \<and> (frame_writer f \<longrightarrow> pins f = 1)"

definition table_ok :: "(nat \<rightharpoonup> nat) \<Rightarrow> frame list \<Rightarrow> bool" where
  "table_ok t fs \<longleftrightarrow> (\<forall>no i. t no = Some i \<longleftrightarrow> i < length fs \<and> present (fs ! i) \<and> frame_page (fs ! i) = no)"

definition pool_inv :: "crc_fn \<Rightarrow> pool \<Rightarrow> bool" where
  "pool_inv crc s \<longleftrightarrow>
     length (region s) = length (frames s) \<and> (frames s \<noteq> [] \<longrightarrow> hand s < length (frames s)) \<and>
     table_ok (table s) (frames s) \<and> live_pins s = sum_list (map pins (frames s)) \<and>
     (\<forall>i < length (frames s). frame_inv crc (is_frozen s) (disk_page (pool_file s)) (frames s ! i) (region s ! i))"

text \<open>What reading page \<open>no\<close> through the pool finds.\<close>

definition disk_view :: "crc_fn \<Rightarrow> posix_file \<Rightarrow> nat \<Rightarrow> bytes option" where
  "disk_view crc f no = (if sealed_ok crc no (disk_page f no) then Some (page_body (disk_page f no)) else None)"

definition pool_view :: "crc_fn \<Rightarrow> pool \<Rightarrow> nat \<Rightarrow> bytes option" where
  "pool_view crc s no =
     (case table s no of Some i \<Rightarrow> Some (page_body (region s ! i)) | None \<Rightarrow> disk_view crc (pool_file s) no)"

text \<open>Neither the file nor the table reaches past page number \<open>n\<close>.\<close>

definition extent_within :: "nat \<Rightarrow> pool \<Rightarrow> bool" where
  "extent_within n s \<longleftrightarrow> length (contents (pool_file s)) \<le> page_at n \<and> (\<forall>no \<in> dom (table s). no < n)"

text \<open>Which calls the device accepts is not the pool's doing.\<close>

definition same_device :: "posix_file \<Rightarrow> posix_file \<Rightarrow> bool" where
  "same_device f g \<longleftrightarrow> read_ok g = read_ok f \<and> write_ok g = write_ok f \<and> torn g = torn f \<and> len_ok g = len_ok f \<and>
     set_len_ok g = set_len_ok f \<and> sync_ok g = sync_ok f \<and> sync_dir_ok g = sync_dir_ok f"

lemma same_device_refl [simp]: "same_device f f"
  by (simp add: same_device_def)

lemma same_device_trans: "same_device f g \<Longrightarrow> same_device g h \<Longrightarrow> same_device f h"
  by (simp add: same_device_def)

lemma same_device_healthy: "same_device f g \<Longrightarrow> healthy f \<Longrightarrow> healthy g"
  by (simp add: same_device_def healthy_def)

lemma write_at_device: "write_at f data off = (g, r) \<Longrightarrow> same_device f g"
  by (auto simp: write_at_def same_device_def split: if_splits)

text \<open>
  A step nobody can notice: pages keep their contents, guarded frames are untouched, the allocator
  state is the same, and the published pages on disk stay as they are.
\<close>

definition keeps :: "crc_fn \<Rightarrow> pool \<Rightarrow> pool \<Rightarrow> bool" where
  "keeps crc s s' \<longleftrightarrow>
     pool_inv crc s' \<and> length (frames s') = length (frames s) \<and> reuse.truncate s' = reuse.truncate s \<and>
     (\<forall>i < length (frames s). pins (frames s ! i) > 0 \<longrightarrow> frames s' ! i = frames s ! i \<and> region s' ! i = region s ! i) \<and>
     (\<forall>no b. pool_view crc s no = Some b \<longrightarrow> pool_view crc s' no = Some b) \<and>
     (\<forall>no. is_frozen s no \<and> length (disk_page (pool_file s) no) = PAGE_SIZE \<longrightarrow>
        disk_page (pool_file s') no = disk_page (pool_file s) no) \<and>
     same_device (pool_file s) (pool_file s') \<and> map_le (table s') (table s) \<and>
     live_pins s' = live_pins s \<and>
     (\<forall>n. extent_within n s \<longrightarrow> extent_within n s')"

text \<open>The allocator state does not depend on the fields of the pool proper.\<close>

lemma truncate_pool [simp]:
  "reuse.truncate (s\<lparr>frames := x0\<rparr> :: pool) = reuse.truncate s"
  "reuse.truncate (s\<lparr>region := x1\<rparr> :: pool) = reuse.truncate s"
  "reuse.truncate (s\<lparr>table := x2\<rparr> :: pool) = reuse.truncate s"
  "reuse.truncate (s\<lparr>hand := x3\<rparr> :: pool) = reuse.truncate s"
  "reuse.truncate (s\<lparr>live_pins := x4\<rparr> :: pool) = reuse.truncate s"
  "reuse.truncate (s\<lparr>sweep_steps := x5\<rparr> :: pool) = reuse.truncate s"
  "reuse.truncate (s\<lparr>stats := x6\<rparr> :: pool) = reuse.truncate s"
  "reuse.truncate (s\<lparr>pool_file := x7\<rparr> :: pool) = reuse.truncate s"
  "reuse.truncate (s\<lparr>compact_cells := x8\<rparr> :: pool) = reuse.truncate s"
  by (simp_all add: reuse.defs)

lemma map_le_None: "map_le m n \<Longrightarrow> n x = None \<Longrightarrow> m x = None"
  by (cases "m x") (auto simp: map_le_def dom_def)

lemma keeps_refl: "pool_inv crc s \<Longrightarrow> keeps crc s s"
  by (simp add: keeps_def)

lemma truncate_frozen: "reuse.truncate s' = reuse.truncate s \<Longrightarrow> is_frozen s' = is_frozen s"
  by (auto simp: is_frozen_def reuse.defs fun_eq_iff)

lemma keeps_trans: "keeps crc s t \<Longrightarrow> keeps crc t u \<Longrightarrow> keeps crc s u"
  unfolding keeps_def using truncate_frozen [of t s] map_le_trans same_device_trans by auto

lemma keeps_inv: "keeps crc s s' \<Longrightarrow> pool_inv crc s'"
  by (simp add: keeps_def)

lemma pool_view_cong:
  "table s' = table s \<Longrightarrow> region s' = region s \<Longrightarrow> pool_file s' = pool_file s \<Longrightarrow> pool_view crc s' no = pool_view crc s no"
  by (simp add: pool_view_def cong: option.case_cong)

text \<open>Bookkeeping that touches no frame.\<close>

lemma keeps_bookkeeping:
  assumes "pool_inv crc s" "frames s' = frames s" "region s' = region s" "table s' = table s" "live_pins s' = live_pins s"
    and "pool_file s' = pool_file s" "reuse.truncate s' = reuse.truncate s" "frames s \<noteq> [] \<longrightarrow> hand s' < length (frames s)"
  shows "keeps crc s s'"
  using assms truncate_frozen [OF assms(7)] pool_view_cong [OF assms(4,3,6)]
  by (simp add: keeps_def pool_inv_def extent_within_def)

lemma sum_list_update:
  "i < length xs \<Longrightarrow> sum_list (map h (xs[i := x])) + h (xs ! i) = sum_list (map h xs) + (h x :: nat)"
  by (induction xs arbitrary: i) (auto split: nat.split)

lemma table_ok_inj:
  assumes "table_ok t fs" "i < length fs" "present (fs ! i)" "j < length fs" "present (fs ! j)"
    and "frame_page (fs ! i) = frame_page (fs ! j)"
  shows "i = j"
proof -
  have "t (frame_page (fs ! i)) = Some i" "t (frame_page (fs ! j)) = Some j"
    using assms(1-5) unfolding table_ok_def by blast+
  then show ?thesis unfolding assms(6) by simp
qed

lemma table_ok_update:
  assumes "table_ok t fs" "i < length fs" "present f = present (fs ! i)" "frame_page f = frame_page (fs ! i)"
  shows "table_ok t (fs[i := f])"
  using assms by (auto simp: table_ok_def nth_list_update)

lemma table_ok_remove:
  assumes "table_ok t fs" "i < length fs" "present (fs ! i)" "\<not> present f"
  shows "table_ok (t(frame_page (fs ! i) := None)) (fs[i := f])"
  using assms(1-4) table_ok_inj [OF assms(1-3)] unfolding table_ok_def
  by (auto simp: nth_list_update)

lemma table_ok_add:
  assumes "table_ok t fs" "i < length fs" "\<not> present (fs ! i)" "present f" "t (frame_page f) = None"
  shows "table_ok (t(frame_page f \<mapsto> i)) (fs[i := f])"
proof -
  have "frame_page (fs ! j) \<noteq> frame_page f" if "j < length fs" "present (fs ! j)" for j
    using assms(1,5) that unfolding table_ok_def by (metis option.distinct(1))
  then show ?thesis using assms unfolding table_ok_def by (auto simp: nth_list_update)
qed

lemma frame_inv_disk:
  assumes "frame_inv crc frozen disk f b"
    and "present f \<Longrightarrow> length (disk (frame_page f)) = PAGE_SIZE \<Longrightarrow> disk' (frame_page f) = disk (frame_page f)"
  shows "frame_inv crc frozen disk' f b"
  using assms sealed_ok_length unfolding frame_inv_def by metis

lemma pool_inv_resident:
  assumes "pool_inv crc s" "i < length (frames s)" "present (frames s ! i)"
  shows "table s (frame_page (frames s ! i)) = Some i"
  using assms by (simp add: pool_inv_def table_ok_def)

lemma inv_frame:
  assumes "pool_inv crc s" "i < length (frames s)"
  shows "frame_inv crc (is_frozen s) (disk_page (pool_file s)) (frames s ! i) (region s ! i)"
  using assms by (simp add: pool_inv_def)

text \<open>Clearing the reference bit.\<close>

lemma keeps_unreference:
  assumes "pool_inv crc s" "i < length (frames s)" "pins (frames s ! i) = 0"
  shows "keeps crc s (set_frame s i ((frames s ! i)\<lparr>referenced := False\<rparr>))"
proof -
  let ?f = "(frames s ! i)\<lparr>referenced := False\<rparr>"
  let ?s = "set_frame s i ?f"
  have fi: "frame_inv crc frz disk ?f b = frame_inv crc frz disk (frames s ! i) b" for frz disk b
    by (simp add: frame_inv_def)
  have l: "sum_list (map pins ((frames s)[i := ?f])) = sum_list (map pins (frames s))"
    using sum_list_update [OF assms(2), of pins ?f] by simp
  have fz: "is_frozen ?s = is_frozen s" by (rule truncate_frozen) (simp add: set_frame_def)
  have "pool_inv crc ?s"
    using assms(1,2) fi l table_ok_update [of "table s" "frames s" i ?f] fz
    by (auto simp: pool_inv_def set_frame_def nth_list_update)
  then show ?thesis
    using assms pool_view_cong [of ?s s] by (auto simp: keeps_def set_frame_def nth_list_update extent_within_def)
qed

text \<open>Writing a dirty page back, whether the disk accepts it or not.\<close>

lemma write_back_eq:
  assumes "write_at (pool_file s) (seal crc (region s ! i) (of_nat (stamp_gen s))) (page_at (frame_page (frames s ! i))) = (file', r)"
    "r \<noteq> Panic"
  shows "write_back crc s i =
     (s\<lparr>region := (region s)[i := seal crc (region s ! i) (of_nat (stamp_gen s))], pool_file := file',
        frames := (if r = Ok () then (frames s)[i := (frames s ! i)\<lparr>dirty := False\<rparr>] else frames s)\<rparr>, r)"
  using assms by (cases r) (simp_all add: write_back_def Let_def set_frame_def)

lemma disk_view_stable:
  assumes "disk_view crc f no = Some b" "length (disk_page f no) = PAGE_SIZE \<Longrightarrow> disk_page f' no = disk_page f no"
  shows "disk_view crc f' no = Some b"
  using assms sealed_ok_length unfolding disk_view_def by (metis option.distinct(1))

lemma keeps_write_back:
  assumes "pool_inv crc s" "i < length (frames s)" "present (frames s ! i)" "dirty (frames s ! i)" "pins (frames s ! i) = 0"
    and "write_back crc s i = (s', r)"
  shows "keeps crc s s'" "r = Ok () \<or> (\<exists>e. r = Err e \<and> e \<noteq> OutOfBudget)"
    "r = Ok () \<Longrightarrow> frames s' = (frames s)[i := (frames s ! i)\<lparr>dirty := False\<rparr>]"
    "hand s' = hand s" "table s' = table s"
    "write_ok (pool_file s) = (\<lambda>_ _. True) \<Longrightarrow> r = Ok ()"
proof -
  let ?f = "frames s ! i" and ?b = "seal crc (region s ! i) (of_nat (stamp_gen s))"
  let ?no = "frame_page ?f"
  note inv = assms(1) [unfolded pool_inv_def]
  note fi = inv_frame [OF assms(1,2)]
  have nw: "\<not> frame_writer ?f" using fi assms(5) by (auto simp: frame_inv_def)
  have ok: "page_ok crc ?no (region s ! i)" using fi nw assms(3) by (simp add: frame_inv_def)
  have nf: "\<not> is_frozen s ?no" using fi assms(3,4) by (simp add: frame_inv_def)
  note so = seal_ok [OF ok, of "of_nat (stamp_gen s)"]
  have len: "length ?b = PAGE_SIZE" by (rule sealed_ok_length [OF so])
  obtain file' r' where w: "write_at (pool_file s) ?b (page_at ?no) = (file', r')" by fastforce
  have r': "r' = Ok () \<or> r' = Err Io" "same_device (pool_file s) file'"
      "write_ok (pool_file s) = (\<lambda>_ _. True) \<longrightarrow> r' = Ok ()"
    using w by (auto simp: write_at_def same_device_def split: if_splits)
  have wb: "s' = s\<lparr>region := (region s)[i := ?b], pool_file := file',
        frames := (if r' = Ok () then (frames s)[i := ?f\<lparr>dirty := False\<rparr>] else frames s)\<rparr>" "r = r'"
    using write_back_eq [OF w] r'(1) assms(6) by auto
  then show "r = Ok () \<or> (\<exists>e. r = Err e \<and> e \<noteq> OutOfBudget)" "hand s' = hand s" "table s' = table s"
      "r = Ok () \<Longrightarrow> frames s' = (frames s)[i := ?f\<lparr>dirty := False\<rparr>]"
      "write_ok (pool_file s) = (\<lambda>_ _. True) \<Longrightarrow> r = Ok ()"
    using r' by auto
  note disk = write_page_disk [OF w len]
  have fz: "is_frozen s' = is_frozen s" and tr: "reuse.truncate s' = reuse.truncate s"
    using truncate_frozen [of s' s] by (simp_all add: wb)
  have fl: "length (frames s') = length (frames s)" by (simp add: wb)
  have other: "frames s' ! j = frames s ! j" "region s' ! j = region s ! j" if "j \<noteq> i" for j
    using that by (simp_all add: wb)
  have tab: "table_ok (table s') (frames s')"
    using inv assms(2) table_ok_update [of "table s" "frames s" i "?f\<lparr>dirty := False\<rparr>"] by (simp add: wb)
  have "frame_inv crc (is_frozen s') (disk_page (pool_file s')) (frames s' ! j) (region s' ! j)" if j: "j < length (frames s)" for j
  proof (cases "j = i")
    case True
    have "region s' ! i = ?b" "frames s' ! i = ?f\<lparr>dirty := (r' \<noteq> Ok ())\<rparr>" "pool_file s' = file'"
      using assms(2,4) inv by (simp_all add: wb)
    then show ?thesis
      using True assms(3,5) so sealed_ok_page_ok [OF so] disk(2) nf nw
      by (simp add: frame_inv_def fz)
  next
    case False
    have "present (frames s ! j) \<Longrightarrow> frame_page (frames s ! j) \<noteq> ?no"
      using table_ok_inj [of "table s" "frames s" i j] inv assms(2,3) j False by auto
    then have "frame_inv crc (is_frozen s) (disk_page file') (frames s ! j) (region s ! j)"
      using frame_inv_disk [OF inv_frame [OF assms(1) j], of "disk_page file'"] disk(1) by auto
    then show ?thesis by (simp add: other [OF False] fz) (simp add: wb)
  qed
  moreover have "sum_list (map pins (frames s')) = sum_list (map pins (frames s))"
    using sum_list_update [OF assms(2), of pins "?f\<lparr>dirty := False\<rparr>"] by (simp add: wb)
  ultimately have inv': "pool_inv crc s'" using inv tab fl by (simp add: pool_inv_def) (simp add: wb)
  have view: "pool_view crc s' no = Some b" if v: "pool_view crc s no = Some b" for no b
  proof (cases "table s no")
    case None
    have "no \<noteq> ?no" using None pool_inv_resident [OF assms(1-3)] by auto
    then show ?thesis
      using v None disk_view_stable [of crc "pool_file s" no b file'] disk(1) by (simp add: pool_view_def wb)
  next
    case (Some j)
    show ?thesis
    proof (cases "j = i")
      case True
      have "page_body ?b = page_body (region s ! i)" by (rule seal_body [OF page_ok_length [OF ok]])
      then show ?thesis using v Some True inv assms(2) by (simp add: pool_view_def wb)
    next
      case False
      then show ?thesis using v Some by (simp add: pool_view_def wb)
    qed
  qed
  have frz: "disk_page (pool_file s') no = disk_page (pool_file s) no"
    if "is_frozen s no" "length (disk_page (pool_file s) no) = PAGE_SIZE" for no
    using disk(1) [of no] that nf by (auto simp: wb)
  have pin: "frames s' ! j = frames s ! j \<and> region s' ! j = region s ! j" if "pins (frames s ! j) > 0" for j
    using that assms(5) other [of j] by (cases "j = i") auto
  have "same_device (pool_file s) (pool_file s')" using r'(2) by (simp add: wb)
  moreover have "extent_within n s'" if n: "extent_within n s" for n
  proof -
    have "?no < n" using n pool_inv_resident [OF assms(1-3)] by (auto simp: extent_within_def)
    then have "page_at ?no + PAGE_SIZE \<le> page_at n" unfolding page_at_def PAGE_SIZE_def by linarith
    moreover have "length (contents file') \<le> max (length (contents (pool_file s))) (page_at ?no + PAGE_SIZE)"
      using w len by (auto simp: write_at_def length_overwrite split: if_splits)
    ultimately show ?thesis using n unfolding extent_within_def wb by (auto intro: order_trans)
  qed
  ultimately show "keeps crc s s'" using inv' fl tr view frz pin unfolding keeps_def by (auto simp: wb)
qed

lemma keeps_evict:
  assumes "pool_inv crc s" "i < length (frames s)" "present (frames s ! i)" "\<not> dirty (frames s ! i)" "pins (frames s ! i) = 0"
  shows "keeps crc s (evict s i)" "\<not> present (frames (evict s i) ! i)" "pins (frames (evict s i) ! i) = 0"
proof -
  let ?f = "(frames s ! i)\<lparr>present := False\<rparr>" and ?no = "frame_page (frames s ! i)"
  note inv = assms(1) [unfolded pool_inv_def]
  note fi = inv_frame [OF assms(1,2)]
  have e: "evict s i = s\<lparr>frames := (frames s)[i := ?f], table := (table s)(?no := None),
      stats := (stats s)\<lparr>evictions := evictions (stats s) + 1\<rparr>\<rparr>"
    by (simp add: evict_def set_frame_def Let_def)
  show "\<not> present (frames (evict s i) ! i)" "pins (frames (evict s i) ! i) = 0" using assms(2,5) by (simp_all add: e)
  have fz: "is_frozen (evict s i) = is_frozen s" and tr: "reuse.truncate (evict s i) = reuse.truncate s"
    using truncate_frozen [of "evict s i" s] by (simp_all add: e)
  have "frame_inv crc (is_frozen s) (disk_page (pool_file s)) ((frames s)[i := ?f] ! j) (region s ! j)"
    if "j < length (frames s)" for j
  proof (cases "j = i")
    case True
    then show ?thesis using fi assms(2,5) by (simp add: frame_inv_def)
  next
    case False
    then show ?thesis using inv_frame [OF assms(1) that] by simp
  qed
  moreover have "table_ok ((table s)(?no := None)) ((frames s)[i := ?f])"
    using inv assms(2,3) by (intro table_ok_remove) simp_all
  moreover have "sum_list (map pins ((frames s)[i := ?f])) = sum_list (map pins (frames s))"
    using sum_list_update [OF assms(2), of pins ?f] by simp
  ultimately have inv': "pool_inv crc (evict s i)"
    using inv by (simp add: pool_inv_def fz) (simp add: e)
  have view: "pool_view crc (evict s i) no = Some b" if v: "pool_view crc s no = Some b" for no b
  proof (cases "no = ?no")
    case True
    have "table s no = Some i" using pool_inv_resident [OF assms(1-3)] True by simp
    then have "page_body (region s ! i) = b" using v by (simp add: pool_view_def)
    moreover have "region s ! i = disk_page (pool_file s) ?no" "sealed_ok crc ?no (region s ! i)"
      using fi assms(3,4) by (auto simp: frame_inv_def)
    ultimately show ?thesis using True by (simp add: pool_view_def disk_view_def e)
  next
    case False
    then show ?thesis using v by (simp add: pool_view_def e cong: option.case_cong)
  qed
  have pin: "frames (evict s i) ! j = frames s ! j" if "pins (frames s ! j) > 0" for j
    using that assms(5) by (cases "j = i") (auto simp: e)
  show "keeps crc s (evict s i)"
    using inv' tr view pin unfolding keeps_def by (auto simp: e map_le_def extent_within_def)
qed

text \<open>Filling the buffer of a frame that holds no page.\<close>

lemma keeps_fill:
  assumes "pool_inv crc s" "i < length (frames s)" "\<not> present (frames s ! i)"
  shows "keeps crc s (s\<lparr>region := (region s)[i := b]\<rparr>)"
proof -
  let ?s = "s\<lparr>region := (region s)[i := b]\<rparr>"
  note inv = assms(1) [unfolded pool_inv_def]
  have fz: "is_frozen ?s = is_frozen s" by (rule truncate_frozen) simp
  have fi: "frame_inv crc frz disk (frames s ! i) b' = frame_inv crc frz disk (frames s ! i) b" for frz disk b b'
    using assms(3) by (simp add: frame_inv_def)
  have "frame_inv crc (is_frozen s) (disk_page (pool_file s)) (frames s ! j) ((region s)[i := b] ! j)"
    if "j < length (frames s)" for j
    using inv_frame [OF assms(1) that] fi [of _ _ "region s ! i" b] conjunct1 [OF inv] that by (cases "j = i") simp_all
  then have "pool_inv crc ?s" using inv by (simp add: pool_inv_def fz)
  moreover have "pins (frames s ! i) = 0" using inv_frame [OF assms(1,2)] assms(3) by (simp add: frame_inv_def)
  moreover have "pool_view crc ?s no = pool_view crc s no" for no
  proof (cases "table s no")
    case (Some j)
    then have "j \<noteq> i" using inv assms(3) by (auto simp: table_ok_def)
    then show ?thesis using Some by (simp add: pool_view_def)
  qed (simp add: pool_view_def)
  moreover have "(region s)[i := b] ! j = region s ! j" if "pins (frames s ! j) > 0" for j
    using that calculation(2) by (cases "j = i") simp_all
  ultimately show ?thesis by (simp add: keeps_def extent_within_def)
qed

text \<open>A pool just opened.\<close>

lemma pool_new_facts:
  assumes "pool_new f ceiling used n c = Ok s"
  shows "pool_inv crc s" "pool_view crc s = disk_view crc f" "frames s = replicate n empty_frame"
    "pool_file s = f" "\<not> is_frozen s no" "table s = Map.empty" "next_page s = length (contents f) div PAGE_SIZE"
    "live_pins s = 0"
proof -
  have s: "frames s = replicate n empty_frame" "region s = replicate n (replicate PAGE_SIZE 0)" "table s = Map.empty"
      "hand s = 0" "live_pins s = 0" "pool_file s = f" "frozen_boundary s = 0" "next_page s = length (contents f) div PAGE_SIZE"
    using assms by (auto simp: pool_new_def Let_def obind_iffs file_len_def split: if_splits)
  show "pool_inv crc s"
    by (auto simp: pool_inv_def s table_ok_def frame_inv_def empty_frame_def sum_list_replicate)
  show "pool_view crc s = disk_view crc f" by (rule ext) (simp add: pool_view_def s)
  show "\<not> is_frozen s no" by (simp add: is_frozen_def s)
qed (use assms in \<open>auto simp: pool_new_def Let_def obind_iffs file_len_def split: if_splits\<close>)

lemma sample_pool: "\<exists>s. pool_new (good_file []) 8192 0 1 False = Ok s"
  by (simp add: pool_new_def file_len_def good_file_def PAGE_SIZE_def reserve_next_def checked_add_u64_def Let_def)

lemma sample_victim:
  assumes "pool_new (good_file []) 8192 0 1 False = Ok s"
  shows "victim crc (s\<lparr>stats := st\<rparr>) = (s\<lparr>stats := st, sweep_steps := sweep_steps s + 1, hand := 0\<rparr>, Ok 0)"
    "victim crc s = (s\<lparr>sweep_steps := sweep_steps s + 1, hand := 0\<rparr>, Ok 0)"
proof -
  have s: "frames s = [empty_frame]" "hand s = 0"
    using assms by (auto simp: pool_new_def Let_def obind_iffs file_len_def split: if_splits)
  have four: "(4::nat) = Suc 3" by simp
  show "victim crc (s\<lparr>stats := st\<rparr>) = (s\<lparr>stats := st, sweep_steps := sweep_steps s + 1, hand := 0\<rparr>, Ok 0)"
    "victim crc s = (s\<lparr>sweep_steps := sweep_steps s + 1, hand := 0\<rparr>, Ok 0)"
    by (simp_all add: victim_def s) (simp_all only: four victim_loop.simps, simp_all add: s empty_frame_def Let_def)
qed

section \<open>The CLOCK sweep\<close>

lemma victim_step:
  assumes "victim_loop crc (Suc k) s = (s', r)" "pool_inv crc s" "frames s \<noteq> []"
  obtains (advance) t where "keeps crc s t" "victim_loop crc k t = (s', r)" "hand t = (hand s + 1) mod length (frames s)"
      "\<And>j. j \<noteq> hand s \<Longrightarrow> frames t ! j = frames s ! j"
      "pins (frames s ! hand s) > 0 \<or> referenced (frames s ! hand s)"
      "frames t ! hand s = frames s ! hand s \<or> frames t ! hand s = (frames s ! hand s)\<lparr>referenced := False\<rparr>"
      "pins (frames s ! hand s) = 0 \<longrightarrow> frames t ! hand s = (frames s ! hand s)\<lparr>referenced := False\<rparr>"
  | (found) "keeps crc s s'" "r = Ok (hand s)" "hand s < length (frames s)" "pins (frames s' ! hand s) = 0"
      "\<not> present (frames s' ! hand s)" "pins (frames s ! hand s) = 0"
  | (refused) e where "keeps crc s s'" "r = Err e" "e \<noteq> OutOfBudget" "pins (frames s ! hand s) = 0"
      "write_ok (pool_file s) \<noteq> (\<lambda>_ _. True)"
proof -
  define t where "t = s\<lparr>sweep_steps := sweep_steps s + 1, hand := (hand s + 1) mod length (frames s)\<rparr>"
  let ?i = "hand s" and ?f = "frames s ! hand s"
  have i: "?i < length (frames s)" using assms(2,3) by (simp add: pool_inv_def)
  have st: "keeps crc s t"
    using assms(2,3) by (intro keeps_bookkeeping) (simp_all add: t_def)
  have [simp]: "frames t = frames s" "hand t = (?i + 1) mod length (frames s)" by (simp_all add: t_def)
  note inv = keeps_inv [OF st]
  have e: "victim_loop crc (Suc k) s =
     (if pins ?f > 0 then victim_loop crc k t
      else if \<not> present ?f then (t, Ok ?i)
      else if referenced ?f then victim_loop crc k (set_frame t ?i (?f\<lparr>referenced := False\<rparr>))
      else then_do (if dirty ?f then write_back crc t ?i else (t, Ok ())) (\<lambda>s _. (evict s ?i, Ok ?i)))"
    using i by (simp add: Let_def t_def)
  consider (pinned) "pins ?f > 0" | (absent) "pins ?f = 0" "\<not> present ?f" | (ref) "pins ?f = 0" "present ?f" "referenced ?f"
    | (clean) "pins ?f = 0" "present ?f" "\<not> referenced ?f" "\<not> dirty ?f" | (drt) "pins ?f = 0" "present ?f" "\<not> referenced ?f" "dirty ?f"
    by blast
  then show thesis
  proof cases
    case pinned
    then show ?thesis using assms(1) st e by (intro advance [of t]) auto
  next
    case absent
    then show ?thesis using assms(1) st e i by (intro found) auto
  next
    case ref
    let ?t = "set_frame t ?i (?f\<lparr>referenced := False\<rparr>)"
    have "keeps crc t ?t" using keeps_unreference [OF inv, of ?i] i ref(1) by simp
    then show ?thesis
      using assms(1) keeps_trans [OF st] e ref i by (intro advance [of ?t]) (auto simp: set_frame_def)
  next
    case clean
    have "keeps crc t (evict t ?i)" "\<not> present (frames (evict t ?i) ! ?i)" "pins (frames (evict t ?i) ! ?i) = 0"
      using keeps_evict [OF inv, of ?i] i clean by auto
    then show ?thesis using assms(1) keeps_trans [OF st] e clean i by (intro found) auto
  next
    case drt
    obtain u q where w: "write_back crc t ?i = (u, q)" by fastforce
    note kw = keeps_write_back [OF inv _ _ _ _ w]
    have ku: "keeps crc t u" "q = Ok () \<or> (\<exists>e. q = Err e \<and> e \<noteq> OutOfBudget)"
        "q = Ok () \<Longrightarrow> frames u = (frames s)[?i := ?f\<lparr>dirty := False\<rparr>]"
        "write_ok (pool_file s) = (\<lambda>_ _. True) \<Longrightarrow> q = Ok ()"
      using kw i drt by (auto simp: t_def)
    from ku(2) show ?thesis
    proof
      assume q: "q = Ok ()"
      have fu: "frames u ! ?i = ?f\<lparr>dirty := False\<rparr>" "?i < length (frames u)" using ku(3) [OF q] i by simp_all
      have "keeps crc u (evict u ?i)" "\<not> present (frames (evict u ?i) ! ?i)" "pins (frames (evict u ?i) ! ?i) = 0"
        using keeps_evict [OF keeps_inv [OF ku(1)] fu(2)] fu(1) drt by simp_all
      then show ?thesis
        using assms(1) e drt w q i keeps_trans [OF keeps_trans [OF st ku(1)]] by (intro found) auto
    next
      assume "\<exists>e. q = Err e \<and> e \<noteq> OutOfBudget"
      then obtain err where q: "q = Err err" "err \<noteq> OutOfBudget" by blast
      then show ?thesis
        using assms(1) e drt w keeps_trans [OF st ku(1)] ku(4) by (intro refused [of err]) auto
    qed
  qed
qed

lemma victim_loop_keeps:
  assumes "victim_loop crc k s = (s', r)" "pool_inv crc s" "k = 0 \<or> frames s \<noteq> []"
  shows "keeps crc s s'" "r \<noteq> Panic"
    "r = Ok i \<Longrightarrow> i < length (frames s') \<and> \<not> present (frames s' ! i) \<and> pins (frames s' ! i) = 0 \<and> pins (frames s ! i) = 0"
proof -
  have "keeps crc s s' \<and> r \<noteq> Panic \<and>
      (\<forall>i. r = Ok i \<longrightarrow> i < length (frames s') \<and> \<not> present (frames s' ! i) \<and> pins (frames s' ! i) = 0 \<and> pins (frames s ! i) = 0)"
    using assms
  proof (induction k arbitrary: s)
    case (Suc k)
    have ne: "frames s \<noteq> []" using Suc.prems(3) by simp
    show ?case
    proof (rule victim_step [OF Suc.prems(1,2) ne], goal_cases)
      case (1 t)
      have "frames t \<noteq> []" using 1(1) ne by (auto simp: keeps_def)
      then have ih: "keeps crc t s'" "r \<noteq> Panic" "\<And>i. r = Ok i \<Longrightarrow>
          i < length (frames s') \<and> \<not> present (frames s' ! i) \<and> pins (frames s' ! i) = 0 \<and> pins (frames t ! i) = 0"
        using Suc.IH [OF 1(2) keeps_inv [OF 1(1)]] by blast+
      have "pins (frames t ! i) = pins (frames s ! i)" for i
        using 1(4) [of i] 1(6) by (cases "i = hand s") auto
      then show ?case using ih keeps_trans [OF 1(1)] by simp
    qed (auto simp: keeps_def)
  qed (auto simp: keeps_refl)
  then show "keeps crc s s'" "r \<noteq> Panic"
    "r = Ok i \<Longrightarrow> i < length (frames s') \<and> \<not> present (frames s' ! i) \<and> pins (frames s' ! i) = 0 \<and> pins (frames s ! i) = 0"
    by auto
qed

text \<open>How far the hand is from frame \<open>j\<close>.\<close>

definition distance :: "nat \<Rightarrow> nat \<Rightarrow> nat \<Rightarrow> nat" where
  "distance n h j = (if h \<le> j then j - h else j + n - h)"

lemma distance_next:
  "h < n \<Longrightarrow> j < n \<Longrightarrow> h \<noteq> j \<Longrightarrow> distance n h j = Suc (distance n ((h + 1) mod n) j)"
  by (cases "h + 1 = n") (auto simp: distance_def)

lemma distance_after: "j < n \<Longrightarrow> distance n ((j + 1) mod n) j < n"
  by (cases "j + 1 = n") (auto simp: distance_def)

lemma sweep_reaches_unreferenced:
  assumes "victim_loop crc k s = (s', r)" "pool_inv crc s" "j < length (frames s)" "pins (frames s ! j) = 0"
    "\<not> referenced (frames s ! j)" "distance (length (frames s)) (hand s) j < k"
  shows "r \<noteq> Err OutOfBudget"
  using assms
proof (induction k arbitrary: s)
  case (Suc k)
  have ne: "frames s \<noteq> []" using Suc.prems(3) by auto
  have h: "hand s < length (frames s)" using Suc.prems(2) ne by (simp add: pool_inv_def)
  show ?case
  proof (rule victim_step [OF Suc.prems(1,2) ne], goal_cases)
    case (1 t)
    have nj: "hand s \<noteq> j" using 1(5) Suc.prems(4,5) by auto
    have l: "length (frames t) = length (frames s)" using 1(1) by (simp add: keeps_def)
    show ?case
    proof (rule Suc.IH [OF 1(2) keeps_inv [OF 1(1)]])
      show "distance (length (frames t)) (hand t) j < k"
        using distance_next [OF h Suc.prems(3) nj] Suc.prems(6) by (simp add: l 1(3))
    qed (use 1(4) [of j] nj Suc.prems(3-5) l in auto)
  qed auto
qed simp

lemma sweep_reaches:
  assumes "victim_loop crc k s = (s', r)" "pool_inv crc s" "j < length (frames s)" "pins (frames s ! j) = 0"
    "distance (length (frames s)) (hand s) j + length (frames s) < k"
  shows "r \<noteq> Err OutOfBudget"
  using assms
proof (induction k arbitrary: s)
  case (Suc k)
  have ne: "frames s \<noteq> []" using Suc.prems(3) by auto
  have h: "hand s < length (frames s)" using Suc.prems(2) ne by (simp add: pool_inv_def)
  show ?case
  proof (rule victim_step [OF Suc.prems(1,2) ne], goal_cases)
    case (1 t)
    have l: "length (frames t) = length (frames s)" using 1(1) by (simp add: keeps_def)
    show ?case
    proof (cases "hand s = j")
      case True
      show ?thesis
      proof (rule sweep_reaches_unreferenced [OF 1(2) keeps_inv [OF 1(1)]])
        show "distance (length (frames t)) (hand t) j < k"
          using distance_after [OF Suc.prems(3)] Suc.prems(5) True by (simp add: l 1(3))
      qed (use 1(7) True Suc.prems(3,4) l in auto)
    next
      case False
      show ?thesis
      proof (rule Suc.IH [OF 1(2) keeps_inv [OF 1(1)]])
        show "distance (length (frames t)) (hand t) j + length (frames t) < k"
          using distance_next [OF h Suc.prems(3) False] Suc.prems(5) by (simp add: l 1(3))
      qed (use 1(4) [of j] False Suc.prems(3,4) l in auto)
    qed
  qed auto
qed simp

lemma sweep_all_pinned:
  assumes "victim_loop crc k s = (s', r)" "pool_inv crc s" "\<forall>j < length (frames s). pins (frames s ! j) > 0"
    "k = 0 \<or> frames s \<noteq> []"
  shows "r = Err OutOfBudget"
  using assms
proof (induction k arbitrary: s)
  case (Suc k)
  have ne: "frames s \<noteq> []" using Suc.prems(4) by simp
  have h: "hand s < length (frames s)" using Suc.prems(2) ne by (simp add: pool_inv_def)
  show ?case
  proof (rule victim_step [OF Suc.prems(1,2) ne], goal_cases)
    case (1 t)
    have l: "length (frames t) = length (frames s)" using 1(1) by (simp add: keeps_def)
    have "pins (frames t ! j) = pins (frames s ! j)" for j
      using 1(4) [of j] 1(6) by (cases "j = hand s") auto
    then show ?case
      using Suc.IH [OF 1(2) keeps_inv [OF 1(1)]] Suc.prems(3) l ne by fastforce
  qed (use Suc.prems(3) h in auto)
qed simp

lemma victim_keeps:
  assumes "victim crc s = (s', r)" "pool_inv crc s"
  shows "keeps crc s s'" "r \<noteq> Panic"
    "r = Ok i \<Longrightarrow> i < length (frames s') \<and> \<not> present (frames s' ! i) \<and> pins (frames s' ! i) = 0 \<and> pins (frames s ! i) = 0"
  using victim_loop_keeps [OF assms(1) [unfolded victim_def] assms(2)] by auto

text \<open>
  C26: Eviction. On a consistent pool \<open>victim\<close> never panics; whatever it returns, every page a client
  could read keeps its contents, guarded frames are untouched and published pages stay as they are
  on disk. It reports an exhausted budget exactly when every frame is pinned: the sweep of four
  rounds is long enough to find an unpinned frame past any state of the reference bits. A frame it
  returns is unpinned and holds no page.
\<close>

theorem victim_correct:
  assumes "pool_inv crc s" "victim crc s = (s', r)"
  shows "keeps crc s s' \<and> r \<noteq> Panic \<and>
    (r = Err OutOfBudget \<longleftrightarrow> (\<forall>j < length (frames s). pins (frames s ! j) > 0)) \<and>
    (\<forall>i. r = Ok i \<longrightarrow> i < length (frames s') \<and> \<not> present (frames s' ! i) \<and> pins (frames s ! i) = 0)"
proof -
  note v = victim_keeps [OF assms(2,1)]
  have "r \<noteq> Err OutOfBudget" if "j < length (frames s)" "pins (frames s ! j) = 0" for j
  proof -
    have "hand s < length (frames s)" using assms(1) that(1) by (auto simp: pool_inv_def)
    then have "distance (length (frames s)) (hand s) j + length (frames s) < length (frames s) * 4"
      using that(1) by (auto simp: distance_def)
    then show ?thesis using sweep_reaches [OF assms(2) [unfolded victim_def] assms(1) that] by simp
  qed
  moreover have "r = Err OutOfBudget" if "\<forall>j < length (frames s). pins (frames s ! j) > 0"
    using sweep_all_pinned [OF assms(2) [unfolded victim_def] assms(1) that] by auto
  ultimately show ?thesis using v by auto
qed

theorem victim_correct_witness:
  "\<exists>s s' i. pool_new (good_file []) 8192 0 1 False = Ok s \<and> victim crc32c_append s = (s', Ok i) \<and> i = 0"
proof -
  obtain s where s: "pool_new (good_file []) 8192 0 1 False = Ok s" using sample_pool ..
  note f = pool_new_facts [OF s]
  obtain s' r where v: "victim crc32c_append s = (s', r)" by fastforce
  note c = victim_correct [OF f(1) v]
  then show ?thesis using s v sample_victim [OF s] by auto
qed

section \<open>Guards\<close>

lemma note_pin_fields [simp]:
  "frames (note_pin s) = frames s" "region (note_pin s) = region s" "table (note_pin s) = table s"
  "hand (note_pin s) = hand s" "pool_file (note_pin s) = pool_file s" "live_pins (note_pin s) = live_pins s + 1"
  "reuse.truncate (note_pin s) = reuse.truncate s" "is_frozen (note_pin s) = is_frozen s"
  by (auto simp: note_pin_def Let_def is_frozen_def)

lemma pool_view_fields:
  "pool_view crc s no =
     (case table s no of Some i \<Rightarrow> Some (page_body (region s ! i)) | None \<Rightarrow> disk_view crc (pool_file s) no)"
  by (rule pool_view_def)

definition new_frame :: "nat \<Rightarrow> bool \<Rightarrow> bool \<Rightarrow> frame" where
  "new_frame no is_dirty write =
     \<lparr>frame_page = no, present = True, dirty = is_dirty, referenced = True, pins = 1, frame_writer = write, validated = False\<rparr>"

lemma install_facts:
  assumes "pool_inv crc s" "i < length (frames s)" "\<not> present (frames s ! i)" "table s no = None"
    and "\<not> write \<longrightarrow> page_ok crc no b" "is_dirty \<longrightarrow> \<not> is_frozen s no"
    and "\<not> is_dirty \<longrightarrow> b = disk_page (pool_file s) no \<and> sealed_ok crc no b"
    and "s' = install (s\<lparr>region := (region s)[i := b]\<rparr>) i no is_dirty write"
  shows "pool_inv crc s'" "table s' no = Some i" "region s' ! i = b" "frames s' = (frames s)[i := new_frame no is_dirty write]"
    "j \<noteq> i \<Longrightarrow> region s' ! j = region s ! j" "pool_file s' = pool_file s" "live_pins s' = live_pins s + 1"
    "reuse.truncate s' = reuse.truncate s"
    "no' \<noteq> no \<Longrightarrow> pool_view crc s' no' = pool_view crc s no'" "pool_view crc s' no = Some (page_body b)"
    "table s' = (table s)(no \<mapsto> i)"
proof -
  note inv = assms(1) [unfolded pool_inv_def]
  have fr: "frames s' = (frames s)[i := new_frame no is_dirty write]"
    and rg: "region s' = (region s)[i := b]" and tb: "table s' = (table s)(no \<mapsto> i)"
    and fl: "pool_file s' = pool_file s" and lp: "live_pins s' = live_pins s + 1" and hd: "hand s' = hand s"
    and tr: "reuse.truncate s' = reuse.truncate s"
    by (simp_all add: assms(8) install_def set_frame_def new_frame_def)
  have fz: "is_frozen s' = is_frozen s" by (rule truncate_frozen [OF tr])
  have p0: "pins (frames s ! i) = 0" using inv_frame [OF assms(1,2)] assms(3) by (simp add: frame_inv_def)
  have "frame_inv crc (is_frozen s) (disk_page (pool_file s)) (frames s' ! j) (region s' ! j)" if j: "j < length (frames s)" for j
  proof (cases "j = i")
    case True
    then have "frames s' ! j = new_frame no is_dirty write" "region s' ! j = b" using j conjunct1 [OF inv] by (simp_all add: fr rg)
    then show ?thesis using assms(5-7) sealed_ok_page_ok [of crc no b] by (auto simp: frame_inv_def new_frame_def)
  next
    case False
    then show ?thesis using inv_frame [OF assms(1) j] by (simp add: fr rg)
  qed
  moreover have "table_ok (table s') (frames s')"
    using table_ok_add [of "table s" "frames s" i "new_frame no is_dirty write"] inv assms(2-4)
    by (simp add: fr tb new_frame_def)
  moreover have "live_pins s' = sum_list (map pins (frames s'))"
    using sum_list_update [OF assms(2), of pins "new_frame no is_dirty write"] inv p0 by (simp add: fr lp new_frame_def)
  ultimately show "pool_inv crc s'" using inv by (simp add: pool_inv_def fz fl hd fr rg)
  show "pool_view crc s' no = Some (page_body b)" using inv assms(2) by (simp add: pool_view_def tb rg)
  show "pool_view crc s' no' = pool_view crc s no'" if "no' \<noteq> no"
  proof (cases "table s no'")
    case None
    then show ?thesis using that by (simp add: pool_view_def tb fl)
  next
    case (Some j)
    then have "j \<noteq> i" using inv assms(3) by (auto simp: table_ok_def)
    then show ?thesis using that Some by (simp add: pool_view_def tb rg)
  qed
qed (use assms in \<open>auto simp: install_def set_frame_def new_frame_def pool_inv_def\<close>)

text \<open>What pinning a page leaves of the pool: as \<open>keeps\<close>, except for the frame that gets the pin.\<close>

definition pinned_from :: "crc_fn \<Rightarrow> pool \<Rightarrow> pool \<Rightarrow> nat option \<Rightarrow> bool" where
  "pinned_from crc s s' i \<longleftrightarrow>
     pool_inv crc s' \<and> length (frames s') = length (frames s) \<and> reuse.truncate s' = reuse.truncate s \<and>
     (\<forall>j < length (frames s). pins (frames s ! j) > 0 \<longrightarrow>
        region s' ! j = region s ! j \<and> (Some j \<noteq> i \<longrightarrow> frames s' ! j = frames s ! j)) \<and>
     (\<forall>no b. pool_view crc s no = Some b \<longrightarrow> pool_view crc s' no = Some b) \<and>
     (\<forall>no. is_frozen s no \<and> length (disk_page (pool_file s) no) = PAGE_SIZE \<longrightarrow>
        disk_page (pool_file s') no = disk_page (pool_file s) no) \<and>
     (\<forall>n. extent_within n s \<longrightarrow> extent_within n s') \<and> same_device (pool_file s) (pool_file s') \<and>
     (\<forall>no. table s no = None \<longrightarrow> table s' no = None \<or> table s' no = i)"

lemma keeps_pinned_from: "keeps crc s s' \<Longrightarrow> pinned_from crc s s' i"
  by (auto simp: keeps_def pinned_from_def dest: map_le_None)

lemma pinned_from_trans:
  assumes "keeps crc s t" "pinned_from crc t u i"
  shows "pinned_from crc s u i"
proof -
  have "table u no = None \<or> table u no = i" if "table s no = None" for no
    using assms map_le_None [of "table t" "table s" no] that by (simp add: keeps_def pinned_from_def)
  then show ?thesis
    using assms truncate_frozen [of t s] same_device_trans unfolding keeps_def pinned_from_def by auto
qed

lemma repin_facts:
  assumes "pool_inv crc s" "table s no = Some i" "write \<longrightarrow> pins (frames s ! i) = 0" "\<not> frame_writer (frames s ! i)"
    and "s' = note_pin (set_frame (s\<lparr>stats := st\<rparr>) i ((frames s ! i)\<lparr>referenced := True, pins := pins (frames s ! i) + 1,
           frame_writer := (if write then True else frame_writer (frames s ! i))\<rparr>))"
  shows "pinned_from crc s s' (Some i)" "region s' = region s" "table s' = table s" "pool_file s' = pool_file s"
    "frames s' = (frames s)[i := (frames s ! i)\<lparr>referenced := True, pins := pins (frames s ! i) + 1, frame_writer := write\<rparr>]"
    "live_pins s' = live_pins s + 1"
proof -
  let ?f = "(frames s ! i)\<lparr>referenced := True, pins := pins (frames s ! i) + 1, frame_writer := write\<rparr>"
  note inv = assms(1) [unfolded pool_inv_def]
  have i: "i < length (frames s)" "present (frames s ! i)" using inv assms(2) by (auto simp: table_ok_def)
  have fr: "frames s' = (frames s)[i := ?f]" and rg: "region s' = region s" and tb: "table s' = table s"
    and fl: "pool_file s' = pool_file s" and lp: "live_pins s' = live_pins s + 1" and hd: "hand s' = hand s"
    and tr: "reuse.truncate s' = reuse.truncate s"
    using assms(4) by (simp_all add: assms(5) set_frame_def)
  have fz: "is_frozen s' = is_frozen s" by (rule truncate_frozen [OF tr])
  have "frame_inv crc (is_frozen s) (disk_page (pool_file s)) (frames s' ! j) (region s ! j)" if j: "j < length (frames s)" for j
    using inv_frame [OF assms(1) j] inv_frame [OF assms(1) i(1)] assms(3,4) i
    by (cases "j = i") (auto simp: fr frame_inv_def)
  moreover have "table_ok (table s) (frames s')"
    using table_ok_update [of "table s" "frames s" i ?f] inv i by (simp add: fr)
  moreover have "live_pins s' = sum_list (map pins (frames s'))"
    using sum_list_update [OF i(1), of pins ?f] inv by (simp add: fr lp)
  ultimately have "pool_inv crc s'" using inv by (simp add: pool_inv_def fz fl hd rg tb) (simp add: fr)
  then show "pinned_from crc s s' (Some i)"
    using pool_view_cong [OF tb rg fl] by (auto simp: pinned_from_def fr tr rg fl tb extent_within_def)
  show "region s' = region s" "table s' = table s" "pool_file s' = pool_file s" "frames s' = (frames s)[i := ?f]"
    "live_pins s' = live_pins s + 1" by (fact rg tb fl fr lp)+
qed

lemma load_facts:
  assumes "pool_inv crc s" "load crc s no write = (s', r)"
  shows "r = Ok i \<Longrightarrow> pinned_from crc s s' (Some i) \<and> table s' no = Some i \<and> live_pins s' = live_pins s + 1 \<and>
      pool_view crc s' no = Some (page_body (region s' ! i)) \<and> i < length (frames s') \<and> pins (frames s' ! i) > 0 \<and>
      (frame_writer (frames s' ! i) \<longleftrightarrow> write) \<and> page_ok crc no (region s' ! i) \<and> (write \<longrightarrow> pins (frames s' ! i) = 1) \<and>
      (table s no = Some i \<or> pins (frames s ! i) = 0)"
    "\<not> is_ok r \<Longrightarrow> keeps crc s s'"
    "r = Panic \<longleftrightarrow> (\<exists>i. table s no = Some i \<and> (if write then pins (frames s ! i) > 0 else frame_writer (frames s ! i)))"
proof -
  note inv = assms(1) [unfolded pool_inv_def]
  let ?ok = "\<lambda>i. pinned_from crc s s' (Some i) \<and> table s' no = Some i \<and> live_pins s' = live_pins s + 1 \<and>
      pool_view crc s' no = Some (page_body (region s' ! i)) \<and> i < length (frames s') \<and> pins (frames s' ! i) > 0 \<and>
      (frame_writer (frames s' ! i) \<longleftrightarrow> write) \<and> page_ok crc no (region s' ! i) \<and> (write \<longrightarrow> pins (frames s' ! i) = 1) \<and>
      (table s no = Some i \<or> pins (frames s ! i) = 0)"
  let ?conflict = "\<lambda>i. if write then pins (frames s ! i) > 0 else frame_writer (frames s ! i)"
  have "(\<forall>i. r = Ok i \<longrightarrow> ?ok i) \<and> (\<not> is_ok r \<longrightarrow> keeps crc s s') \<and> (r = Panic \<longleftrightarrow> (\<exists>i. table s no = Some i \<and> ?conflict i))"
  proof (cases "table s no")
    case (Some i)
    then have i: "i < length (frames s)" "present (frames s ! i)" "frame_page (frames s ! i) = no"
      using inv by (auto simp: table_ok_def)
    show ?thesis
    proof (cases "?conflict i")
      case True
      then have "load crc s no write = (s, Panic)"
        using i by (auto simp: load_def Some Let_def split: if_splits)
      then show ?thesis using assms Some True keeps_refl by auto
    next
      case False
      have nw: "\<not> frame_writer (frames s ! i)" "write \<longrightarrow> pins (frames s ! i) = 0"
        using False inv_frame [OF assms(1) i(1)] by (auto simp: frame_inv_def split: if_splits)
      have r: "r = Ok i" and s': "s' = note_pin (set_frame (s\<lparr>stats := (stats s)\<lparr>hits := hits (stats s) + 1\<rparr>\<rparr>) i
          ((frames s ! i)\<lparr>referenced := True, pins := pins (frames s ! i) + 1,
            frame_writer := (if write then True else frame_writer (frames s ! i))\<rparr>))"
        using assms(2) False i nw by (auto simp: load_def Some Let_def split: if_splits)
      note rp = repin_facts [OF assms(1) Some nw(2,1) s']
      have "page_ok crc no (region s ! i)" using inv_frame [OF assms(1) i(1)] i nw(1) by (simp add: frame_inv_def)
      then have "?ok i" using rp i nw Some by (simp add: pool_view_def)
      then show ?thesis using r Some False by simp
    qed
  next
    case None
    let ?s = "s\<lparr>stats := (stats s)\<lparr>misses := misses (stats s) + 1\<rparr>\<rparr>"
    have k0: "keeps crc s ?s" using assms(1) inv by (intro keeps_bookkeeping) simp_all
    obtain t q where v: "victim crc ?s = (t, q)" by fastforce
    note vk = victim_keeps [OF v keeps_inv [OF k0]]
    note kt = keeps_trans [OF k0 vk(1)]
    show ?thesis
    proof (cases q)
      case (Err e)
      then show ?thesis using assms(2) kt v by (auto simp: load_def None)
    next
      case (Ok i)
      have i: "i < length (frames t)" "\<not> present (frames t ! i)" "pins (frames s ! i) = 0" using vk(3) [OF Ok] by auto
      note ti = keeps_inv [OF kt, unfolded pool_inv_def]
      show ?thesis
      proof (cases "read_at (pool_file t) (page_at no) PAGE_SIZE")
        case (Ok b)
        have bd: "b = disk_page (pool_file t) no" using read_at_Ok [OF Ok] by (simp add: disk_page_def)
        show ?thesis
        proof (cases "page_open crc b (of_nat no)")
          case (Ok c)
          note so = page_open_Ok [OF Ok]
          have s': "s' = install (t\<lparr>region := (region t)[i := b]\<rparr>) i no False write" and r: "r = Ok i"
            using assms(2) v \<open>q = Ok i\<close> \<open>read_at _ _ _ = Ok b\<close> Ok by (simp_all add: load_def None Let_def)
          have tn: "table t no = None" using kt None by (auto simp: keeps_def map_le_def dom_def)
          have po: "\<not> write \<longrightarrow> page_ok crc no b" using sealed_ok_page_ok [OF so] by simp
          have bd': "\<not> False \<longrightarrow> b = disk_page (pool_file t) no \<and> sealed_ok crc no b" using bd so by simp
          note f = install_facts [OF keeps_inv [OF kt] i(1,2) tn po _ bd' s']
          have "pool_view crc t no = Some (page_body b)" using tn so bd by (simp add: pool_view_def disk_view_def)
          then have view: "pool_view crc s' m = Some c" if "pool_view crc t m = Some c" for m c
            using that f(9) [of m] f(10) by (cases "m = no") simp_all
          have pi: "pins (frames t ! i) = 0" using inv_frame [OF keeps_inv [OF kt] i(1)] i(2) by (simp add: frame_inv_def)
          have pn: "frames s' ! j = frames t ! j \<and> region s' ! j = region t ! j" if "pins (frames t ! j) > 0" for j
            using that pi f(5) [of j] by (cases "j = i") (simp_all add: f(4))
          have "page_at no + PAGE_SIZE \<le> length (contents (pool_file t))"
            using read_at_Ok [OF \<open>read_at _ _ _ = Ok b\<close>] by simp
          moreover have "no < n" if "page_at no + PAGE_SIZE \<le> page_at n" for n
            using that unfolding page_at_def PAGE_SIZE_def by linarith
          ultimately have ext: "extent_within n s'" if "extent_within n t" for n
            using that f(6,11) order_trans unfolding extent_within_def by auto
          have "pinned_from crc t s' (Some i)"
            using f(1,6,8,11) view pn ext unfolding pinned_from_def by (simp add: f(4))
          then have "pinned_from crc s s' (Some i)" by (rule pinned_from_trans [OF kt])
          moreover have "live_pins t = live_pins s" using kt by (simp add: keeps_def)
          ultimately have "?ok i"
            using f(2,3,4,7,10) i(1,3) sealed_ok_page_ok [OF so] by (simp add: new_frame_def)
          then show ?thesis using r None by simp
        qed (use assms(2) v \<open>q = Ok i\<close> Ok keeps_trans [OF kt keeps_fill [OF keeps_inv [OF kt] i(1,2)]] in
            \<open>auto simp: load_def None Let_def page_open_def open_inner_def split: if_splits\<close>)
      qed (use assms(2) kt v Ok in \<open>auto simp: load_def None\<close>)
    qed (use vk in auto)
  qed
  note all = this
  show "r = Ok i \<Longrightarrow> ?ok i" by (rule all [THEN conjunct1, rule_format])
  show "\<not> is_ok r \<Longrightarrow> keeps crc s s'" by (rule all [THEN conjunct2, THEN conjunct1, rule_format])
  show "r = Panic \<longleftrightarrow> (\<exists>i. table s no = Some i \<and> ?conflict i)" by (rule all [THEN conjunct2, THEN conjunct2])
qed


text \<open>On a healthy device a readable page can be pinned whenever a frame is free for it.\<close>

lemma victim_healthy:
  assumes "victim crc s = (s', r)" "pool_inv crc s" "healthy (pool_file s)" "j < length (frames s)" "pins (frames s ! j) = 0"
  shows "\<exists>i. r = Ok i"
proof -
  have no_err: "r = Err e \<Longrightarrow> e = OutOfBudget"
    if "victim_loop crc k s = (s', r)" "pool_inv crc s" "healthy (pool_file s)" "k = 0 \<or> frames s \<noteq> []" for k s e
    using that
  proof (induction k arbitrary: s)
    case (Suc k)
    have ne: "frames s \<noteq> []" using Suc.prems(5) by simp
    show ?case
    proof (rule victim_step [OF Suc.prems(2,3) ne], goal_cases)
      case (1 t)
      have "healthy (pool_file t)" using 1(1) Suc.prems(4) by (auto simp: keeps_def intro: same_device_healthy)
      moreover have "frames t \<noteq> []" using 1(1) ne by (auto simp: keeps_def)
      ultimately show ?case using Suc.IH [OF Suc.prems(1) 1(2) keeps_inv [OF 1(1)]] by simp
    qed (use Suc.prems in \<open>auto simp: healthy_def\<close>)
  qed simp
  have "r \<noteq> Err OutOfBudget"
  proof (rule sweep_reaches [OF assms(1) [unfolded victim_def] assms(2,4,5)])
    have "hand s < length (frames s)" using assms(2,4) by (auto simp: pool_inv_def)
    then show "distance (length (frames s)) (hand s) j + length (frames s) < length (frames s) * 4"
      using assms(4) by (auto simp: distance_def)
  qed
  moreover have "r \<noteq> Panic" by (rule victim_keeps(2) [OF assms(1,2)])
  ultimately show ?thesis using no_err [OF assms(1) [unfolded victim_def] assms(2,3)] assms(4) by (cases r) auto
qed

lemma load_succeeds:
  assumes "pool_inv crc s" "healthy (pool_file s)" "pool_view crc s no = Some body" "load crc s no write = (s', r)"
    and "\<exists>j < length (frames s). pins (frames s ! j) = 0" "\<forall>i. table s no = Some i \<longrightarrow> pins (frames s ! i) = 0"
  shows "\<exists>i. r = Ok i"
proof (cases "table s no")
  case (Some i)
  then have i: "i < length (frames s)" using assms(1) by (auto simp: pool_inv_def table_ok_def)
  moreover have "\<not> frame_writer (frames s ! i)"
    using inv_frame [OF assms(1) i] assms(6) Some by (auto simp: frame_inv_def)
  ultimately show ?thesis using assms(4,6) Some by (auto simp: load_def Let_def)
next
  case None
  let ?s = "s\<lparr>stats := (stats s)\<lparr>misses := misses (stats s) + 1\<rparr>\<rparr>"
  have k0: "keeps crc s ?s" using assms(1) by (intro keeps_bookkeeping) (auto simp: pool_inv_def)
  obtain t q where v: "victim crc ?s = (t, q)" by fastforce
  obtain i where i: "q = Ok i" using victim_healthy [OF v keeps_inv [OF k0]] assms(2,5) by auto
  note kt = keeps_trans [OF k0 victim_keeps(1) [OF v keeps_inv [OF k0]]]
  have "table t no = None" using kt None by (auto simp: keeps_def dest: map_le_None)
  moreover have "pool_view crc t no = Some body" using kt assms(3) by (simp add: keeps_def)
  ultimately have so: "sealed_ok crc no (disk_page (pool_file t) no)" by (auto simp: pool_view_def disk_view_def split: if_splits)
  have "healthy (pool_file t)" using kt assms(2) by (auto simp: keeps_def intro: same_device_healthy)
  then have "read_at (pool_file t) (page_at no) PAGE_SIZE = Ok (disk_page (pool_file t) no)"
    using sealed_ok_length [OF so] disk_page_full healthy_read by (simp add: disk_page_def)
  then show ?thesis using assms(4) None v i so by (auto simp: load_def Let_def sealed_ok_def)
qed

text \<open>
  Reading through the pool. \<open>get\<close> on a consistent pool panics exactly when a writer holds the
  page. A frame it returns holds the page as it was last written, from memory or from disk with its
  checksum verified; bringing it in changes no page anyone can read, no guarded frame and no
  published page on disk. When it fails, nothing of that has changed either.
\<close>

theorem pool_get_correct:
  assumes "pool_inv crc s" "pool_get crc s no = (s', r)"
  shows "(r = Panic \<longleftrightarrow> (\<exists>i. table s no = Some i \<and> frame_writer (frames s ! i))) \<and>
    (\<forall>i. r = Ok i \<longrightarrow> pinned_from crc s s' (Some i) \<and> table s' no = Some i \<and> pins (frames s' ! i) > 0 \<and>
       live_pins s' = live_pins s + 1 \<and> pool_view crc s' no = Some (page_body (region s' ! i)) \<and>
       (\<forall>b. pool_view crc s no = Some b \<longrightarrow> page_body (region s' ! i) = b)) \<and>
    (\<not> is_ok r \<longrightarrow> keeps crc s s')"
proof -
  note l = load_facts [OF assms(1) assms(2) [unfolded pool_get_def]]
  have "page_body (region s' ! i) = b" if "r = Ok i" "pool_view crc s no = Some b" for i b
    using l(1) [OF that(1)] that(2) by (auto simp: pinned_from_def)
  then show ?thesis using l by auto
qed

text \<open>
  C27: Exclusive access. \<open>get_mut\<close> panics exactly when the page belongs to the published tree or any
  guard is live on it; the frame it returns is dirty, carries the only pin and its writer flag, and
  holds the page as it was last written.
\<close>

theorem get_mut_exclusive:
  assumes "pool_inv crc s" "get_mut crc s no = (s', r)"
  shows "(r = Panic \<longleftrightarrow> is_frozen s no \<or> (\<exists>i. table s no = Some i \<and> pins (frames s ! i) > 0)) \<and>
    (\<forall>i. r = Ok i \<longrightarrow> pinned_from crc s s' (Some i) \<and> table s' no = Some i \<and>
       pins (frames s' ! i) = 1 \<and> frame_writer (frames s' ! i) \<and> dirty (frames s' ! i) \<and>
       (\<forall>b. pool_view crc s no = Some b \<longrightarrow> page_body (region s' ! i) = b)) \<and>
    (\<not> is_ok r \<longrightarrow> keeps crc s s')"
proof (cases "is_frozen s no")
  case True
  then show ?thesis using assms keeps_refl by (auto simp: get_mut_def)
next
  case False
  obtain t q where l: "load crc s no True = (t, q)" by fastforce
  note lf = load_facts [OF assms(1) l]
  show ?thesis
  proof (cases q)
    case (Ok i)
    note li = lf(1) [OF Ok]
    let ?f = "(frames t ! i)\<lparr>dirty := True\<rparr>"
    have s': "s' = set_frame t i ?f" "r = Ok i" using assms(2) False l Ok by (simp_all add: get_mut_def)
    have ti: "pool_inv crc t" and i: "i < length (frames t)" using li by (simp_all add: pinned_from_def)
    have pg: "frame_page (frames t ! i) = no" using li ti by (auto simp: pool_inv_def table_ok_def)
    note inv = ti [unfolded pool_inv_def]
    have fz: "is_frozen s' = is_frozen t" "is_frozen t = is_frozen s"
      using truncate_frozen [of s' t] truncate_frozen [of t s] li by (simp_all add: s' set_frame_def pinned_from_def)
    have "frame_inv crc (is_frozen t) (disk_page (pool_file t)) ((frames t)[i := ?f] ! j) (region t ! j)"
      if j: "j < length (frames t)" for j
      using inv_frame [OF ti j] False fz pg i by (cases "j = i") (auto simp: frame_inv_def)
    moreover have "table_ok (table t) ((frames t)[i := ?f])" using inv i by (intro table_ok_update) simp_all
    moreover have "sum_list (map pins ((frames t)[i := ?f])) = sum_list (map pins (frames t))"
      using sum_list_update [OF i, of pins ?f] by simp
    ultimately have "pool_inv crc s'" using inv by (simp add: pool_inv_def fz(1)) (simp add: s' set_frame_def)
    then have "pinned_from crc s s' (Some i)"
      using li pool_view_cong [of s' t crc]
      by (auto simp: pinned_from_def s' set_frame_def nth_list_update extent_within_def)
    moreover have "page_body (region t ! i) = b" if "pool_view crc s no = Some b" for b
      using li that by (auto simp: pinned_from_def)
    moreover have "\<not> (\<exists>i. table s no = Some i \<and> pins (frames s ! i) > 0)" using lf(3) Ok by simp
    ultimately show ?thesis using li i False by (simp add: s' set_frame_def)
  next
    case (Err e)
    then have "s' = t" "r = Err e" using assms(2) False l by (simp_all add: get_mut_def)
    then show ?thesis using lf Err False by auto
  next
    case Panic
    then have "s' = t" "r = Panic" using assms(2) False l by (simp_all add: get_mut_def)
    then show ?thesis using lf Panic False by auto
  qed
qed

theorem get_mut_exclusive_witness:
  "\<exists>s s' r. pool_new (good_file []) 8192 0 1 False = Ok s \<and> get_mut crc32c_append s 3 = (s', r) \<and> r \<noteq> Panic"
proof -
  obtain s where s: "pool_new (good_file []) 8192 0 1 False = Ok s" using sample_pool ..
  note f = pool_new_facts [OF s]
  obtain s' r where g: "get_mut crc32c_append s 3 = (s', r)" by fastforce
  show ?thesis using get_mut_exclusive [OF f(1) g] f(5,6) s g by auto
qed

end
