(* ===== verification/Pool_Checkpoint.thy ===== *)
theory Pool_Checkpoint
  imports Pool
begin

text \<open>
  What the checkpoint and the allocator do with the buffer pool: after \<open>flush_all\<close> the file alone
  holds everything the pool shows, so that a pool opened on it shows the same pages; \<open>allocate\<close>
  hands out an exclusive, well-formed empty page and disturbs no other.
\<close>

section \<open>Flushing\<close>

definition clean :: "frame \<Rightarrow> bool" where
  "clean f \<longleftrightarrow> \<not> (present f \<and> dirty f)"

lemma flush_one_facts:
  assumes "pool_inv crc s" "i < length (frames s)" "flush_one crc s i = (s', r)"
  shows "keeps crc s s'"
    "r = Ok () \<Longrightarrow> clean (frames s' ! i) \<and> (\<forall>j. clean (frames s ! j) \<longrightarrow> clean (frames s' ! j))"
    "r = Panic \<longleftrightarrow> present (frames s ! i) \<and> dirty (frames s ! i) \<and> pins (frames s ! i) \<noteq> 0"
    "r = Ok () \<Longrightarrow> map pins (frames s') = map pins (frames s)"
    "r \<noteq> Panic \<Longrightarrow> write_ok (pool_file s) = (\<lambda>_ _. True) \<Longrightarrow> r = Ok ()"
    "sync_ok (pool_file s') = sync_ok (pool_file s)"
proof -
  let ?f = "frames s ! i"
  let ?st = "\<lambda>t. t\<lparr>stats := (stats t)\<lparr>dirty_pages_flushed := dirty_pages_flushed (stats t) + 1\<rparr>\<rparr>"
  consider (idle) "clean ?f" | (pinned) "\<not> clean ?f" "pins ?f \<noteq> 0" | (written) "\<not> clean ?f" "pins ?f = 0" by blast
  then have "keeps crc s s' \<and> (r = Ok () \<longrightarrow> clean (frames s' ! i) \<and> (\<forall>j. clean (frames s ! j) \<longrightarrow> clean (frames s' ! j))) \<and>
    (r = Panic \<longleftrightarrow> present ?f \<and> dirty ?f \<and> pins ?f \<noteq> 0) \<and> (r = Ok () \<longrightarrow> map pins (frames s') = map pins (frames s)) \<and>
    (r \<noteq> Panic \<and> write_ok (pool_file s) = (\<lambda>_ _. True) \<longrightarrow> r = Ok ()) \<and> sync_ok (pool_file s') = sync_ok (pool_file s)"
  proof cases
    case idle
    then have "flush_one crc s i = (s, Ok ())" by (auto simp: flush_one_def clean_def Let_def)
    then show ?thesis using assms idle keeps_refl by (auto simp: clean_def)
  next
    case pinned
    then have "flush_one crc s i = (s, Panic)" by (auto simp: flush_one_def clean_def Let_def)
    then show ?thesis using assms pinned keeps_refl by (auto simp: clean_def)
  next
    case written
    then have f: "present ?f" "dirty ?f" by (auto simp: clean_def)
    obtain t q where w: "write_back crc s i = (t, q)" by fastforce
    note k = keeps_write_back [OF assms(1,2) f written(2) w]
    have sk: "sync_ok (pool_file t) = sync_ok (pool_file s)"
      using w by (auto simp: write_back_def Let_def write_at_def then_do_def set_frame_def split: if_splits)
    from k(2) show ?thesis
    proof
      assume q: "q = Ok ()"
      have e: "s' = ?st t" "r = Ok ()" using assms(3) f written(2) w q by (simp_all add: flush_one_def Let_def)
      have "keeps crc t (?st t)" using keeps_inv [OF k(1)] by (intro keeps_bookkeeping) (auto simp: pool_inv_def)
      moreover have "map pins ((frames s)[i := ?f\<lparr>dirty := False\<rparr>]) = map pins (frames s)"
        using assms(2) by (intro nth_equalityI) (auto simp: nth_list_update)
      ultimately show ?thesis
        using keeps_trans [OF k(1)] k(3) [OF q] e sk assms(2) written(2) by (auto simp: clean_def nth_list_update)
    next
      assume "\<exists>e. q = Err e \<and> e \<noteq> OutOfBudget"
      then obtain e where q: "q = Err e" by blast
      have "s' = t" "r = Err e" using assms(3) f written(2) w q by (simp_all add: flush_one_def Let_def)
      then show ?thesis using k q sk written(2) by auto
    qed
  qed
  then show "keeps crc s s'"
    "r = Ok () \<Longrightarrow> clean (frames s' ! i) \<and> (\<forall>j. clean (frames s ! j) \<longrightarrow> clean (frames s' ! j))"
    "r = Panic \<longleftrightarrow> present ?f \<and> dirty ?f \<and> pins ?f \<noteq> 0"
    "r = Ok () \<Longrightarrow> map pins (frames s') = map pins (frames s)"
    "r \<noteq> Panic \<Longrightarrow> write_ok (pool_file s) = (\<lambda>_ _. True) \<Longrightarrow> r = Ok ()"
    "sync_ok (pool_file s') = sync_ok (pool_file s)"
    by blast+
qed

definition flushable :: "pool \<Rightarrow> bool" where
  "flushable s \<longleftrightarrow> (\<forall>i < length (frames s). clean (frames s ! i) \<or> pins (frames s ! i) = 0)"

lemma flushable_step:
  assumes "flushable s" "map pins (frames s') = map pins (frames s)" "\<forall>j. clean (frames s ! j) \<longrightarrow> clean (frames s' ! j)"
  shows "flushable s'"
  unfolding flushable_def
proof (intro allI impI)
  fix i assume i: "i < length (frames s')"
  have l: "length (frames s') = length (frames s)" using arg_cong [OF assms(2), of length] by simp
  have "pins (frames s' ! i) = pins (frames s ! i)" using arg_cong [OF assms(2), of "\<lambda>xs. xs ! i"] i l by simp
  then show "clean (frames s' ! i) \<or> pins (frames s' ! i) = 0" using assms(1,3) i l by (auto simp: flushable_def)
qed

lemma flush_loop_facts:
  assumes "pool_inv crc s" "\<forall>i \<in> set is. i < length (frames s)" "flush_loop crc s is = (s', r)" "flushable s"
  shows "keeps crc s s' \<and> r \<noteq> Panic \<and> sync_ok (pool_file s') = sync_ok (pool_file s) \<and>
    (write_ok (pool_file s) = (\<lambda>_ _. True) \<longrightarrow> r = Ok ()) \<and>
    (r = Ok () \<longrightarrow> (\<forall>i \<in> set is. clean (frames s' ! i)) \<and> (\<forall>j. clean (frames s ! j) \<longrightarrow> clean (frames s' ! j)))"
  using assms
proof (induction "is" arbitrary: s)
  case (Cons i js)
  have i: "i < length (frames s)" using Cons.prems(2) by simp
  obtain t q where one: "flush_one crc s i = (t, q)" by fastforce
  note o = flush_one_facts [OF Cons.prems(1) i one]
  have np: "q \<noteq> Panic" using o(3) Cons.prems(4) i by (auto simp: flushable_def clean_def)
  show ?case
  proof (cases q)
    case (Ok u)
    have lt: "length (frames t) = length (frames s)" using o(1) by (simp add: keeps_def)
    have lp: "flush_loop crc t js = (s', r)" using Cons.prems(3) one Ok by simp
    have ih: "keeps crc t s'" "r \<noteq> Panic" "sync_ok (pool_file s') = sync_ok (pool_file t)"
        "write_ok (pool_file t) = (\<lambda>_ _. True) \<longrightarrow> r = Ok ()"
        "r = Ok () \<longrightarrow> (\<forall>i \<in> set js. clean (frames s' ! i)) \<and> (\<forall>j. clean (frames t ! j) \<longrightarrow> clean (frames s' ! j))"
      using Cons.IH [OF keeps_inv [OF o(1)] _ lp flushable_step [OF Cons.prems(4) o(4)]] Cons.prems(2) lt o(2) Ok by simp_all
    have "write_ok (pool_file t) = write_ok (pool_file s)" using o(1) by (simp add: keeps_def same_device_def)
    then show ?thesis using ih keeps_trans [OF o(1) ih(1)] o(2,6) Ok by auto
  next
    case (Err e)
    then have "s' = t" "r = Err e" using Cons.prems(3) one by simp_all
    then show ?thesis using o Err by auto
  qed (use np in simp)
qed (auto simp: keeps_refl)

text \<open>With every frame clean the pool shows what the disk holds.\<close>

lemma clean_view:
  assumes "pool_inv crc s" "\<forall>i < length (frames s). clean (frames s ! i)"
  shows "pool_view crc s no = disk_view crc (pool_file s) no"
proof (cases "table s no")
  case (Some i)
  then have i: "i < length (frames s)" "present (frames s ! i)" "frame_page (frames s ! i) = no"
    using assms(1) by (auto simp: pool_inv_def table_ok_def)
  then show ?thesis
    using inv_frame [OF assms(1) i(1)] assms(2) Some by (auto simp: frame_inv_def clean_def pool_view_def disk_view_def)
qed (simp add: pool_view_def)

lemma flush_all_keeps:
  assumes "pool_inv crc s" "flushable s" "flush_all crc s barrier = (s', r)"
  shows "keeps crc s s'"
proof -
  obtain t q where lp: "flush_loop crc s [0..<length (frames s)] = (t, q)" by fastforce
  have kt: "keeps crc s t" using flush_loop_facts [OF assms(1) _ lp assms(2)] by auto
  have "keeps crc t s'" if "q = Ok ()"
  proof -
    define st where "st = stats s'"
    have "s' = t\<lparr>stats := st\<rparr>" using assms(3) lp that by (cases barrier) (auto simp: flush_all_def Let_def st_def)
    then show ?thesis using keeps_inv [OF kt] by (intro keeps_bookkeeping) (auto simp: pool_inv_def)
  qed
  moreover have "q \<noteq> Ok () \<Longrightarrow> s' = t" using assms(3) lp by (cases q) (auto simp: flush_all_def)
  ultimately show ?thesis using keeps_trans [OF kt] kt by blast
qed

lemma flush_all_facts:
  assumes "pool_inv crc s" "flushable s" "flush_all crc s barrier = (s', r)"
  shows "r \<noteq> Panic \<and> pool_inv crc s' \<and> (healthy (pool_file s) \<longrightarrow> r = Ok ()) \<and>
    (r = Ok () \<longrightarrow>
       (\<forall>i < length (frames s'). clean (frames s' ! i)) \<and>
       (\<forall>no b. pool_view crc s no = Some b \<longrightarrow> pool_view crc s' no = Some b) \<and>
       (\<forall>ceiling used n c t. pool_new (pool_file s') ceiling used n c = Ok t \<longrightarrow> pool_view crc t = pool_view crc s'))"
proof -
  obtain t q where lp: "flush_loop crc s [0..<length (frames s)] = (t, q)" by fastforce
  have f: "keeps crc s t" "q \<noteq> Panic" "sync_ok (pool_file t) = sync_ok (pool_file s)"
      "write_ok (pool_file s) = (\<lambda>_ _. True) \<longrightarrow> q = Ok ()" "q = Ok () \<longrightarrow> (\<forall>i < length (frames s). clean (frames t ! i))"
    using flush_loop_facts [OF assms(1) _ lp assms(2)] by auto
  show ?thesis
  proof (cases q)
    case (Ok u)
    define st where "st = stats s'"
    have s': "s' = t\<lparr>stats := st\<rparr>" and r: "r = (if barrier = BarrierNone then Ok () else sync_data (pool_file t))"
      using assms(3) lp Ok by (cases barrier; auto simp: flush_all_def Let_def st_def)+
    have k: "keeps crc t s'" using keeps_inv [OF f(1)] by (intro keeps_bookkeeping) (auto simp: s' pool_inv_def)
    note ks = keeps_trans [OF f(1) k]
    have cl: "\<forall>i < length (frames s'). clean (frames s' ! i)" using f(1,5) Ok by (simp add: s' keeps_def)
    have "pool_view crc s' = disk_view crc (pool_file s')" by (rule ext) (rule clean_view [OF keeps_inv [OF ks] cl])
    then have "\<forall>ceiling used n c t. pool_new (pool_file s') ceiling used n c = Ok t \<longrightarrow> pool_view crc t = pool_view crc s'"
      using pool_new_facts(2) by simp
    moreover have "r \<noteq> Panic" "healthy (pool_file s) \<longrightarrow> r = Ok ()"
      using f(3) by (auto simp: r sync_data_def healthy_def)
    moreover have "\<forall>no b. pool_view crc s no = Some b \<longrightarrow> pool_view crc s' no = Some b" using ks by (simp add: keeps_def)
    ultimately show ?thesis using cl keeps_inv [OF ks] by blast
  next
    case (Err e)
    then have "s' = t" "r = Err e" using assms(3) lp by (simp_all add: flush_all_def)
    moreover have "\<not> healthy (pool_file s)" using f(4) Err by (auto simp: healthy_def)
    ultimately show ?thesis using keeps_inv [OF f(1)] by simp
  qed (use f in simp)
qed

text \<open>
  C10: A checkpoint flush is complete. On a consistent pool none of whose dirty frames is guarded,
  \<open>flush_all\<close> does not panic and, on a disk that accepts its writes and the barrier, succeeds. When it
  succeeds every frame is clean, no page a client can read has changed, and a pool of any size
  opened on the resulting file shows exactly the same pages.
\<close>

theorem flush_all_durable:
  assumes "pool_inv crc s" "flushable s" "flush_all crc s barrier = (s', r)"
  shows "r \<noteq> Panic \<and> pool_inv crc s' \<and> (healthy (pool_file s) \<longrightarrow> r = Ok ()) \<and>
    (r = Ok () \<longrightarrow>
       (\<forall>i < length (frames s'). clean (frames s' ! i)) \<and>
       (\<forall>no b. pool_view crc s no = Some b \<longrightarrow> pool_view crc s' no = Some b) \<and>
       (\<forall>ceiling used n c t. pool_new (pool_file s') ceiling used n c = Ok t \<longrightarrow> pool_view crc t = pool_view crc s'))"
  by (rule flush_all_facts [OF assms])

theorem flush_all_durable_witness:
  "\<exists>s s'. pool_new (good_file []) 8192 0 1 False = Ok s \<and> flush_all crc32c_append s BarrierFull = (s', Ok ()) \<and>
     pool_inv crc32c_append s'"
proof -
  obtain s where s: "pool_new (good_file []) 8192 0 1 False = Ok s" using sample_pool ..
  note f = pool_new_facts [OF s]
  have fl: "flushable s" by (simp add: flushable_def f(3) clean_def empty_frame_def)
  obtain s' r where g: "flush_all crc32c_append s BarrierFull = (s', r)" by fastforce
  show ?thesis using flush_all_durable [OF f(1) fl g] f(4) s g by auto
qed

section \<open>Allocation\<close>

text \<open>The allocator side of the invariant: page numbers in use are below \<open>next_page\<close>, the published ones too.\<close>

definition alloc_inv :: "pool \<Rightarrow> bool" where
  "alloc_inv s \<longleftrightarrow>
     extent_within (next_page s) s \<and> frozen_boundary s \<le> next_page s \<and> (\<forall>p \<in> set (listed (free s)). p < next_page s)"

text \<open>No guard is live on a page that may be recycled.\<close>

definition unguarded_free :: "pool \<Rightarrow> bool" where
  "unguarded_free s \<longleftrightarrow>
     (\<forall>i < length (frames s). present (frames s ! i) \<and> pins (frames s ! i) > 0 \<longrightarrow>
        frame_page (frames s ! i) \<notin> set (listed (free s)))"

lemma pop_free_facts:
  fixes s :: "'a reuse_scheme"
  assumes "pop_free s = (s', r)"
  shows "set (listed (free s')) \<subseteq> set (listed (free s))" "r = Some p \<Longrightarrow> p \<in> set (listed (free s))"
    "reuse.more s' = reuse.more s" "next_page s' = next_page s" "frozen_boundary s' = frozen_boundary s" "thawed s' = thawed s"
proof -
  have "set (listed (free s')) \<subseteq> set (listed (free s)) \<and> (r = Some p \<longrightarrow> p \<in> set (listed (free s))) \<and>
     reuse.more s' = reuse.more s \<and> next_page s' = next_page s \<and> frozen_boundary s' = frozen_boundary s \<and> thawed s' = thawed s"
  proof (cases "free s")
    case Nil
    then show ?thesis using assms by (auto simp: pop_free_def)
  next
    case (Cons b bs)
    obtain g ps where b: "b = (g, ps)" by (cases b)
    show ?thesis
    proof (cases "g > reuse_limit s \<or> ps = []")
      case True
      then show ?thesis using assms Cons b by (auto simp: pop_free_def)
    next
      case False
      let ?bs = "if butlast ps = [] then bs else (g, butlast ps) # bs"
      have "set (butlast ps) \<subseteq> set ps" by (auto dest: in_set_butlastD)
      then have "set (listed ?bs) \<subseteq> set ps \<union> set (listed bs)" by (cases "butlast ps = []") (simp_all, blast)
      moreover have "free s' = ?bs" "r = Some (last ps)" "reuse.more s' = reuse.more s" "next_page s' = next_page s"
          "frozen_boundary s' = frozen_boundary s" "thawed s' = thawed s"
        using assms Cons b False by (auto simp: pop_free_def)
      ultimately show ?thesis using Cons b False by auto
    qed
  qed
  then show "set (listed (free s')) \<subseteq> set (listed (free s))" "r = Some p \<Longrightarrow> p \<in> set (listed (free s))"
    "reuse.more s' = reuse.more s" "next_page s' = next_page s" "frozen_boundary s' = frozen_boundary s" "thawed s' = thawed s"
    by blast+
qed

lemma pop_free_more: "reuse.more (s' :: pool) = reuse.more s \<Longrightarrow>
    frames s' = frames s \<and> region s' = region s \<and> table s' = table s \<and> hand s' = hand s \<and> live_pins s' = live_pins s \<and>
    pool_file s' = pool_file s"
  by (cases s; cases s') simp

lemma choose_page_facts:
  fixes s :: pool
  assumes "choose_page s = (s', r)"
  shows "frames s' = frames s" "region s' = region s" "table s' = table s" "hand s' = hand s" "live_pins s' = live_pins s"
    "pool_file s' = pool_file s" "r \<noteq> Panic" "frozen_boundary s' = frozen_boundary s" "next_page s \<le> next_page s'"
    "set (thawed s) \<subseteq> set (thawed s')" "set (listed (free s')) \<subseteq> set (listed (free s))"
    "r = Ok (no, True) \<Longrightarrow> no \<in> set (listed (free s)) \<and> no \<in> set (thawed s')"
    "r = Ok (no, False) \<Longrightarrow> no = next_page s \<and> next_page s' = no + 1 \<and> no < u32_max"
proof -
  let ?s = "s\<lparr>epoch_allocated_pages := epoch_allocated_pages s + 1\<rparr>"
  let ?all = "frames s' = frames s \<and> region s' = region s \<and> table s' = table s \<and> hand s' = hand s \<and> live_pins s' = live_pins s \<and>
    pool_file s' = pool_file s \<and> r \<noteq> Panic \<and> frozen_boundary s' = frozen_boundary s \<and> next_page s \<le> next_page s' \<and>
    set (thawed s) \<subseteq> set (thawed s') \<and> set (listed (free s')) \<subseteq> set (listed (free s)) \<and>
    (\<forall>no. r = Ok (no, True) \<longrightarrow> no \<in> set (listed (free s)) \<and> no \<in> set (thawed s')) \<and>
    (\<forall>no. r = Ok (no, False) \<longrightarrow> no = next_page s \<and> next_page s' = no + 1 \<and> no < u32_max)"
  have ?all
  proof (cases "admit_allocation s")
    case (Ok u)
    obtain t q where pf: "pop_free ?s = (t, q)" by fastforce
    note p = pop_free_facts [OF pf]
    have m: "frames t = frames s \<and> region t = region s \<and> table t = table s \<and> hand t = hand s \<and> live_pins t = live_pins s \<and>
        pool_file t = pool_file s"
      using pop_free_more [OF p(3)] by simp
    show ?thesis
    proof (cases q)
      case None
      then have "(s', r) = (if next_page t + 1 > u32_max then (t, Err TooLarge)
          else (t\<lparr>next_page := next_page t + 1\<rparr>, Ok (next_page t, False)))"
        using assms Ok pf by (simp add: choose_page_def Let_def)
      then show ?thesis using m p(1,4,5,6) by (auto split: if_splits)
    next
      case (Some no)
      then have "s' = t\<lparr>thawed := List.insert no (thawed t)\<rparr>" "r = Ok (no, True)"
        using assms Ok pf by (simp_all add: choose_page_def Let_def)
      then show ?thesis using m p(1,4,5,6) p(2) [OF Some] by auto
    qed
  next
    case (Err e)
    then have "s' = s" "r = Err e" using assms by (simp_all add: choose_page_def)
    then show ?thesis by simp
  next
    case Panic
    then show ?thesis by (auto simp: admit_allocation_def Let_def split: option.splits if_splits)
  qed
  then show "frames s' = frames s" "region s' = region s" "table s' = table s" "hand s' = hand s" "live_pins s' = live_pins s"
    "pool_file s' = pool_file s" "r \<noteq> Panic" "frozen_boundary s' = frozen_boundary s" "next_page s \<le> next_page s'"
    "set (thawed s) \<subseteq> set (thawed s')" "set (listed (free s')) \<subseteq> set (listed (free s))"
    "r = Ok (no, True) \<Longrightarrow> no \<in> set (listed (free s)) \<and> no \<in> set (thawed s')"
    "r = Ok (no, False) \<Longrightarrow> no = next_page s \<and> next_page s' = no + 1 \<and> no < u32_max"
    by blast+
qed

text \<open>Less is frozen: consistency carries over.\<close>

lemma pool_inv_thaw:
  assumes "pool_inv crc s" "frames s' = frames s" "region s' = region s" "table s' = table s" "hand s' = hand s"
    "live_pins s' = live_pins s" "pool_file s' = pool_file s" "\<And>no. is_frozen s' no \<Longrightarrow> is_frozen s no"
  shows "pool_inv crc s'"
proof -
  have "frame_inv crc (is_frozen s') disk f b" if "frame_inv crc (is_frozen s) disk f b" for disk f b
    using that assms(8) by (auto simp: frame_inv_def)
  then show ?thesis using assms(1-7) by (simp add: pool_inv_def)
qed

lemma drop_stale_facts:
  assumes "pool_inv crc s" "drop_stale checked s p = (s', r)"
    and "\<forall>i. table s p = Some i \<longrightarrow> pins (frames s ! i) = 0"
  shows "r = Ok ()" "pool_inv crc s'" "table s' = (table s)(p := None)" "length (frames s') = length (frames s)"
    "region s' = region s" "pool_file s' = pool_file s" "reuse.truncate s' = reuse.truncate s" "live_pins s' = live_pins s"
    "pins (frames s ! j) > 0 \<Longrightarrow> j < length (frames s) \<Longrightarrow> frames s' ! j = frames s ! j"
    "no \<noteq> p \<Longrightarrow> pool_view crc s' no = pool_view crc s no"
proof -
  note inv = assms(1) [unfolded pool_inv_def]
  let ?all = "r = Ok () \<and> pool_inv crc s' \<and> table s' = (table s)(p := None) \<and> length (frames s') = length (frames s) \<and>
    region s' = region s \<and> pool_file s' = pool_file s \<and> reuse.truncate s' = reuse.truncate s \<and> live_pins s' = live_pins s \<and>
    (\<forall>j < length (frames s). pins (frames s ! j) > 0 \<longrightarrow> frames s' ! j = frames s ! j)"
  have all: ?all
  proof (cases "table s p")
    case None
    then have "(s', r) = (s, Ok ())" using assms(2) by (simp add: drop_stale_def)
    then show ?thesis using assms(1) None by (simp add: fun_upd_idem)
  next
    case (Some i)
    have i: "i < length (frames s)" "present (frames s ! i)" "frame_page (frames s ! i) = p" "pins (frames s ! i) = 0"
      using inv Some assms(3) by (auto simp: table_ok_def)
    let ?f = "(frames s ! i)\<lparr>present := False, dirty := False\<rparr>"
    have s': "s' = s\<lparr>frames := (frames s)[i := ?f], table := (table s)(p := None)\<rparr>" "r = Ok ()"
      using assms(2) Some i by (simp_all add: drop_stale_def set_frame_def)
    have fz: "is_frozen s' = is_frozen s" by (rule truncate_frozen) (simp add: s')
    have "frame_inv crc (is_frozen s) (disk_page (pool_file s)) ((frames s)[i := ?f] ! j) (region s ! j)" if j: "j < length (frames s)" for j
      using inv_frame [OF assms(1) j] i(1,4) by (cases "j = i") (auto simp: frame_inv_def)
    moreover have "table_ok ((table s)(p := None)) ((frames s)[i := ?f])"
      using table_ok_remove [of "table s" "frames s" i ?f] inv i by simp
    moreover have "sum_list (map pins ((frames s)[i := ?f])) = sum_list (map pins (frames s))"
      using sum_list_update [OF i(1), of pins ?f] by simp
    ultimately have "pool_inv crc s'" using inv by (simp add: pool_inv_def fz) (simp add: s')
    moreover have "(frames s)[i := ?f] ! j = frames s ! j" if "pins (frames s ! j) > 0" for j
      using that i(4) by (cases "j = i") simp_all
    ultimately show ?thesis using s' by simp
  qed
  then show "r = Ok ()" "pool_inv crc s'" "table s' = (table s)(p := None)" "length (frames s') = length (frames s)"
    "region s' = region s" "pool_file s' = pool_file s" "reuse.truncate s' = reuse.truncate s" "live_pins s' = live_pins s"
    "pins (frames s ! j) > 0 \<Longrightarrow> j < length (frames s) \<Longrightarrow> frames s' ! j = frames s ! j"
    by blast+
  show "pool_view crc s' no = pool_view crc s no" if "no \<noteq> p"
    using all that by (simp add: pool_view_def cong: option.case_cong)
qed

lemma extent_within_mono:
  assumes "extent_within n s" "n \<le> m"
  shows "extent_within m s"
proof -
  have "page_at n \<le> page_at m" using assms(2) unfolding page_at_def by (rule mult_le_mono1)
  then show ?thesis using assms unfolding extent_within_def by (auto intro: order_trans less_le_trans)
qed

lemma alloc_inv_truncate:
  assumes "reuse.truncate s' = reuse.truncate s"
  shows "next_page s' = next_page s" "frozen_boundary s' = frozen_boundary s" "free s' = free s" "thawed s' = thawed s"
  using assms by (simp_all add: reuse.defs)

text \<open>Taking a page number, with its stale frame dropped: the common part of both allocations.\<close>

definition take_number :: "bool \<Rightarrow> pool \<Rightarrow> pool \<times> nat kresult" where
  "take_number checked s =
     then_do (choose_page s) (\<lambda>s (no, recycled).
     then_do (if recycled then drop_stale checked s no else (s, Ok ())) (\<lambda>s _. (s, Ok no)))"

lemma allocate_unpooled_eq: "allocate_unpooled s = take_number True s"
  by (simp add: allocate_unpooled_def take_number_def)

lemma allocate_eq:
  "allocate crc debug s =
     then_do (take_number debug s) (\<lambda>s no. then_do (victim crc s) (\<lambda>s i.
     case page_init (replicate PAGE_SIZE 0) PageFree 0 (of_nat no) of
       Ok b \<Rightarrow> (install (s\<lparr>region := (region s)[i := finalise b 0]\<rparr>) i no True True, Ok (i, no))
     | Err e \<Rightarrow> (s, Err e)
     | Panic \<Rightarrow> (s, Panic)))"
  by (simp add: allocate_def take_number_def then_do_def split: prod.splits outcome.splits)

definition taken_from :: "crc_fn \<Rightarrow> pool \<Rightarrow> pool \<Rightarrow> nat option \<Rightarrow> bool" where
  "taken_from crc s s' no \<longleftrightarrow>
     pool_inv crc s' \<and> alloc_inv s' \<and> length (frames s') = length (frames s) \<and> (\<forall>no. is_frozen s' no \<longrightarrow> is_frozen s no) \<and>
     pool_file s' = pool_file s \<and> region s' = region s \<and> live_pins s' = live_pins s \<and>
     (\<forall>j < length (frames s). pins (frames s ! j) > 0 \<longrightarrow> frames s' ! j = frames s ! j) \<and>
     (\<forall>p. Some p \<noteq> no \<longrightarrow> pool_view crc s' p = pool_view crc s p)"

lemma take_number_facts:
  assumes "pool_inv crc s" "alloc_inv s" "unguarded_free s" "take_number checked s = (s', r)"
  shows "r \<noteq> Panic" "taken_from crc s s' (case r of Ok no \<Rightarrow> Some no | _ \<Rightarrow> None)"
    "r = Ok no \<Longrightarrow> table s' no = None \<and> \<not> is_frozen s' no \<and> no < next_page s' \<and>
       (no = next_page s \<or> no \<in> set (listed (free s)))"
proof -
  obtain t q where ch: "choose_page s = (t, q)" by fastforce
  note c = choose_page_facts [OF ch]
  have fzt: "is_frozen t no \<Longrightarrow> is_frozen s no" for no using c(8,10) by (auto simp: is_frozen_def)
  note ti = pool_inv_thaw [OF assms(1) c(1-6) fzt]
  have ext: "extent_within (next_page t) t"
  proof -
    have "extent_within (next_page t) s" using extent_within_mono [OF _ c(9)] assms(2) by (simp add: alloc_inv_def)
    then show ?thesis by (simp add: extent_within_def c(3,6))
  qed
  have at: "alloc_inv t" using ext assms(2) c(8,9,11) unfolding alloc_inv_def by (auto dest: less_le_trans)
  have vt: "pool_view crc t p = pool_view crc s p" for p by (rule pool_view_cong) (fact c(3,2,6))+
  have tt: "taken_from crc s t x" for x using ti at fzt c(1,2,5,6) vt by (simp add: taken_from_def)
  let ?all = "r \<noteq> Panic \<and> taken_from crc s s' (case r of Ok no \<Rightarrow> Some no | _ \<Rightarrow> None) \<and>
     (\<forall>no. r = Ok no \<longrightarrow> table s' no = None \<and> \<not> is_frozen s' no \<and> no < next_page s' \<and>
       (no = next_page s \<or> no \<in> set (listed (free s))))"
  have ?all
  proof (cases q)
    case (Ok nr)
    obtain no recycled where nr: "nr = (no, recycled)" by (cases nr)
    show ?thesis
    proof (cases recycled)
      case True
      have no: "no \<in> set (listed (free s))" "no \<in> set (thawed t)" using c(12) Ok nr True by auto
      have unp: "\<forall>i. table t no = Some i \<longrightarrow> pins (frames t ! i) = 0"
        using assms(1,3) no(1) c(1,3) by (auto simp: unguarded_free_def pool_inv_def table_ok_def)
      obtain u q2 where ds: "drop_stale checked t no = (u, q2)" by fastforce
      note d = drop_stale_facts [OF ti ds unp]
      have "s' = u" "r = Ok no" using assms(4) ch Ok nr True ds d(1) by (simp_all add: take_number_def)
      note tr = alloc_inv_truncate [OF d(7)]
      have fz: "is_frozen u = is_frozen t" by (rule truncate_frozen [OF d(7)])
      have "alloc_inv u" using at d(3,6) by (auto simp: alloc_inv_def extent_within_def tr)
      then have "taken_from crc s u (Some no)"
        using d c(1,2,5,6) fzt vt by (auto simp: taken_from_def fz)
      moreover have "no < next_page s" using no(1) assms(2) unfolding alloc_inv_def by blast
      then have "no < next_page u" using c(9) by (simp add: tr)
      moreover have "\<not> is_frozen u no" using no(2) by (simp add: fz is_frozen_def)
      ultimately show ?thesis using \<open>s' = u\<close> \<open>r = Ok no\<close> d(3) no(1) by simp
    next
      case False
      have no: "no = next_page s" "next_page t = no + 1" using c(13) Ok nr False by auto
      have "s' = t" "r = Ok no" using assms(4) ch Ok nr False by (simp_all add: take_number_def)
      moreover have "table t no = None" using assms(2) no(1) c(3) by (auto simp: alloc_inv_def extent_within_def dom_def)
      moreover have "\<not> is_frozen t no" using assms(2) no(1) c(8) by (auto simp: is_frozen_def alloc_inv_def)
      ultimately show ?thesis using tt no by simp
    qed
  next
    case (Err e)
    then have "s' = t" "r = Err e" using assms(4) ch by (simp_all add: take_number_def)
    then show ?thesis using tt by simp
  qed (use c(7) in simp)
  then show "r \<noteq> Panic" "taken_from crc s s' (case r of Ok no \<Rightarrow> Some no | _ \<Rightarrow> None)"
    "r = Ok no \<Longrightarrow> table s' no = None \<and> \<not> is_frozen s' no \<and> no < next_page s' \<and>
       (no = next_page s \<or> no \<in> set (listed (free s)))"
    by blast+
qed

text \<open>What any operation may change, apart from one page number \<open>no\<close> that is being given out.\<close>

definition disturbs_only :: "crc_fn \<Rightarrow> pool \<Rightarrow> pool \<Rightarrow> nat option \<Rightarrow> bool" where
  "disturbs_only crc s s' no \<longleftrightarrow>
     pool_inv crc s' \<and> alloc_inv s' \<and>
     (\<forall>j < length (frames s). pins (frames s ! j) > 0 \<longrightarrow> frames s' ! j = frames s ! j \<and> region s' ! j = region s ! j) \<and>
     (\<forall>p b. Some p \<noteq> no \<and> pool_view crc s p = Some b \<longrightarrow> pool_view crc s' p = Some b) \<and>
     (\<forall>p. is_frozen s' p \<longrightarrow> is_frozen s p \<and>
        (length (disk_page (pool_file s) p) = PAGE_SIZE \<longrightarrow> disk_page (pool_file s') p = disk_page (pool_file s) p))"

lemma alloc_inv_keeps: "alloc_inv s \<Longrightarrow> keeps crc s s' \<Longrightarrow> alloc_inv s'"
  using alloc_inv_truncate [of s' s] by (auto simp: alloc_inv_def keeps_def)

lemma taken_then_keeps:
  assumes "taken_from crc s t no" "keeps crc t u"
  shows "disturbs_only crc s u no"
proof -
  have fz: "is_frozen u = is_frozen t" using assms(2) by (intro truncate_frozen) (simp add: keeps_def)
  have al: "alloc_inv u" using alloc_inv_keeps [OF _ assms(2)] assms(1) by (simp add: taken_from_def)
  show ?thesis
    using assms al unfolding disturbs_only_def taken_from_def keeps_def fz by auto
qed

lemma allocate_facts:
  assumes "pool_inv crc s" "alloc_inv s" "unguarded_free s" "allocate crc debug s = (s', r)"
  shows "r \<noteq> Panic \<and>
    (\<forall>i no. r = Ok (i, no) \<longrightarrow>
       disturbs_only crc s s' (Some no) \<and> (no = next_page s \<or> no \<in> set (listed (free s))) \<and> \<not> is_frozen s' no \<and>
       table s' no = Some i \<and> pins (frames s' ! i) = 1 \<and> frame_writer (frames s' ! i) \<and> dirty (frames s' ! i) \<and>
       page_ok crc no (region s' ! i) \<and> page_slots (region s' ! i) = []) \<and>
    (\<not> is_ok r \<longrightarrow> (\<exists>no. disturbs_only crc s s' no))"
proof -
  obtain t q where tk: "take_number debug s = (t, q)" by fastforce
  note n = take_number_facts [OF assms(1-3) tk]
  show ?thesis
  proof (cases q)
    case (Ok no)
    have tf: "taken_from crc s t (Some no)" using n(2) Ok by simp
    then have ti: "pool_inv crc t" by (simp add: taken_from_def)
    obtain u w where v: "victim crc t = (u, w)" by fastforce
    note vk = victim_keeps [OF v ti]
    note du = taken_then_keeps [OF tf vk(1)]
    show ?thesis
    proof (cases w)
      case (Ok i)
      have i: "i < length (frames u)" "\<not> present (frames u ! i)" "pins (frames u ! i) = 0" using vk(3) [OF Ok] by auto
      obtain b where b: "page_init (replicate PAGE_SIZE 0) PageFree 0 (of_nat no) = Ok b" "page_wf b" "page_slots b = []"
        using page_init_law [of "replicate PAGE_SIZE 0" PageFree 0 "of_nat no"] by auto
      have s': "s' = install (u\<lparr>region := (region u)[i := finalise b 0]\<rparr>) i no True True" and r: "r = Ok (i, no)"
        using assms(4) tk \<open>q = Ok no\<close> v Ok b(1) by (simp_all add: allocate_eq)
      have tno: "table t no = None" "\<not> is_frozen t no" "no < next_page t" "no = next_page s \<or> no \<in> set (listed (free s))"
        using n(3) [OF \<open>q = Ok no\<close>] by auto
      have uno: "table u no = None" using vk(1) tno(1) by (auto simp: keeps_def map_le_def dom_def)
      have fzu: "is_frozen u = is_frozen t" using vk(1) by (intro truncate_frozen) (simp add: keeps_def)
      have pok: "page_ok crc no (finalise b 0)" by (rule fresh_page_ok [OF b(1)])
      note f = install_facts [OF keeps_inv [OF vk(1)] i(1,2) uno _ _ _ s']
      have f': "pool_inv crc s'" "table s' no = Some i" "region s' ! i = finalise b 0" "frames s' = (frames u)[i := new_frame no True True]"
          "\<And>j. j \<noteq> i \<Longrightarrow> region s' ! j = region u ! j" "pool_file s' = pool_file u" "reuse.truncate s' = reuse.truncate u"
          "\<And>m. m \<noteq> no \<Longrightarrow> pool_view crc s' m = pool_view crc u m" "table s' = (table u)(no \<mapsto> i)"
        using f pok tno(2) by (simp_all add: fzu)
      have fz: "is_frozen s' = is_frozen u" by (rule truncate_frozen [OF f'(7)])
      have nu: "next_page u = next_page t" using vk(1) alloc_inv_truncate [of u t] by (simp add: keeps_def)
      have al: "alloc_inv s'"
        using du tno(3) nu f'(6) alloc_inv_truncate [OF f'(7)]
        by (auto simp: disturbs_only_def alloc_inv_def extent_within_def f'(9))
      have g: "frames s' ! j = frames u ! j \<and> region s' ! j = region u ! j" if "pins (frames u ! j) > 0" for j
        using that i(3) f'(4) f'(5) [of j] by (cases "j = i") simp_all
      have lu: "length (frames u) = length (frames s)" using vk(1) tf by (simp add: keeps_def taken_from_def)
      have "frames s' ! j = frames s ! j \<and> region s' ! j = region s ! j" if "j < length (frames s)" "pins (frames s ! j) > 0" for j
        using du g [of j] that by (auto simp: disturbs_only_def)
      then have "disturbs_only crc s s' (Some no)"
        using du f'(1,6,8) al unfolding disturbs_only_def fz by auto
      moreover have "page_slots (finalise b 0) = []"
        using b(3) page_wf_bounds(1) [OF b(2)] by (simp add: page_slots_def nentries_def finalise_def rd_u16_other)
      ultimately show ?thesis
        using r tno(2,4) fz fzu f'(2,3,4) pok i(1) by (simp add: new_frame_def)
    next
      case (Err e)
      then have "s' = u" "r = Err e" using assms(4) tk \<open>q = Ok no\<close> v by (simp_all add: allocate_eq)
      then show ?thesis using du by auto
    qed (use vk in simp)
  next
    case (Err e)
    then have "s' = t" "r = Err e" using assms(4) tk by (simp_all add: allocate_eq)
    then show ?thesis using taken_then_keeps [OF n(2) keeps_refl] n(2) by (auto simp: taken_from_def)
  qed (use n in simp)
qed

lemma allocate_disturbs:
  assumes "pool_inv crc s" "alloc_inv s" "unguarded_free s" "allocate crc debug s = (s', r)"
  shows "\<exists>no. disturbs_only crc s s' no"
  using allocate_facts [OF assms] by (cases r) auto

section \<open>Client runs\<close>

text \<open>
  Everything a client does between two publications, in any order: take guards, write through a
  write guard, end a guard (a writer leaves a readable page), allocate, flush. Only calls that
  return are steps.
\<close>

inductive pool_step :: "crc_fn \<Rightarrow> pool \<Rightarrow> pool \<Rightarrow> bool" for crc where
  read: "pool_get crc s no = (s', r) \<Longrightarrow> r \<noteq> Panic \<Longrightarrow> pool_step crc s s'"
| lock: "get_mut crc s no = (s', r) \<Longrightarrow> r \<noteq> Panic \<Longrightarrow> pool_step crc s s'"
| edit: "i < length (frames s) \<Longrightarrow> frame_writer (frames s ! i) \<Longrightarrow> dirty (frames s ! i) \<Longrightarrow>
    pool_step crc s (bytes_mut s i b)"
| release: "unpin s i w = Ok s' \<Longrightarrow> frame_writer (frames s ! i) = w \<Longrightarrow>
    w \<longrightarrow> page_ok crc (frame_page (frames s ! i)) (region s ! i) \<Longrightarrow> pool_step crc s s'"
| alloc: "allocate crc debug s = (s', r) \<Longrightarrow> unguarded_free s \<Longrightarrow> pool_step crc s s'"
| flush: "flush_all crc s barrier = (s', r) \<Longrightarrow> flushable s \<Longrightarrow> pool_step crc s s'"

definition run_ok :: "crc_fn \<Rightarrow> pool \<Rightarrow> pool \<Rightarrow> bool" where
  "run_ok crc s s' \<longleftrightarrow>
     pool_inv crc s' \<and> alloc_inv s' \<and>
     (\<forall>p. is_frozen s' p \<longrightarrow> is_frozen s p \<and>
        (length (disk_page (pool_file s) p) = PAGE_SIZE \<longrightarrow> disk_page (pool_file s') p = disk_page (pool_file s) p))"

lemma run_ok_same_reuse:
  assumes "pool_inv crc s'" "reuse.truncate s' = reuse.truncate s" "alloc_inv s"
    "\<forall>n. extent_within n s \<longrightarrow> extent_within n s'"
    "\<forall>p. is_frozen s p \<and> length (disk_page (pool_file s) p) = PAGE_SIZE \<longrightarrow> disk_page (pool_file s') p = disk_page (pool_file s) p"
  shows "run_ok crc s s'"
  using assms truncate_frozen [OF assms(2)] alloc_inv_truncate [OF assms(2)] by (simp add: run_ok_def alloc_inv_def)

lemma run_ok_pinned: "alloc_inv s \<Longrightarrow> pinned_from crc s s' i \<Longrightarrow> run_ok crc s s'"
  by (intro run_ok_same_reuse) (simp_all add: pinned_from_def)

lemma run_ok_keeps: "alloc_inv s \<Longrightarrow> keeps crc s s' \<Longrightarrow> run_ok crc s s'"
  by (intro run_ok_pinned keeps_pinned_from)

lemma pool_inv_frame:
  assumes "pool_inv crc s" "i < length (frames s)" "present f = present (frames s ! i)" "frame_page f = frame_page (frames s ! i)"
    and "frame_inv crc (is_frozen s) (disk_page (pool_file s)) f b"
    and "s' = s\<lparr>frames := (frames s)[i := f], region := (region s)[i := b], live_pins := lp\<rparr>"
    and "lp + pins (frames s ! i) = live_pins s + pins f"
  shows "pool_inv crc s'"
proof -
  note inv = assms(1) [unfolded pool_inv_def]
  have fz: "is_frozen s' = is_frozen s" by (rule truncate_frozen) (simp add: assms(6))
  have "frame_inv crc (is_frozen s) (disk_page (pool_file s)) ((frames s)[i := f] ! j) ((region s)[i := b] ! j)"
    if j: "j < length (frames s)" for j
    using inv_frame [OF assms(1) j] assms(2,5) inv by (cases "j = i") simp_all
  moreover have "table_ok (table s) ((frames s)[i := f])" using inv assms(2-4) by (intro table_ok_update) simp_all
  moreover have "lp = sum_list (map pins ((frames s)[i := f]))"
    using sum_list_update [OF assms(2), of pins f] inv assms(7) by simp
  ultimately show ?thesis using inv by (simp add: pool_inv_def fz) (simp add: assms(6))
qed

lemma run_ok_frame:
  assumes "pool_inv crc s" "alloc_inv s" "i < length (frames s)" "present f = present (frames s ! i)" "frame_page f = frame_page (frames s ! i)"
    and "frame_inv crc (is_frozen s) (disk_page (pool_file s)) f b"
    and "s' = s\<lparr>frames := (frames s)[i := f], region := (region s)[i := b], live_pins := lp\<rparr>"
    and "lp + pins (frames s ! i) = live_pins s + pins f"
  shows "run_ok crc s s'"
  using pool_inv_frame [OF assms(1,3-8)] assms(2)
  by (intro run_ok_same_reuse) (simp_all add: assms(7) extent_within_def)

lemma pool_step_ok:
  assumes "pool_step crc s s'" "pool_inv crc s" "alloc_inv s"
  shows "run_ok crc s s'"
  using assms
proof (cases rule: pool_step.cases)
  case (read no r)
  note l = load_facts [OF assms(2) read(1) [unfolded pool_get_def]]
  show ?thesis
  proof (cases r)
    case (Ok i)
    then show ?thesis using l(1) run_ok_pinned [OF assms(3)] by blast
  qed (use l(2) read(2) run_ok_keeps [OF assms(3)] in auto)
next
  case (lock no r)
  then have nf: "\<not> is_frozen s no" by (auto simp: get_mut_def)
  obtain t q where l: "load crc s no True = (t, q)" by fastforce
  note lf = load_facts [OF assms(2) l]
  show ?thesis
  proof (cases q)
    case (Ok i)
    note li = lf(1) [OF Ok]
    have pf: "pinned_from crc s t (Some i)" and i: "i < length (frames t)" using li by auto
    have ti: "pool_inv crc t" using pf by (simp add: pinned_from_def)
    have at: "alloc_inv t" using run_ok_pinned [OF assms(3) pf] by (simp add: run_ok_def)
    have fz: "is_frozen t = is_frozen s" using pf by (intro truncate_frozen) (simp add: pinned_from_def)
    have pg: "frame_page (frames t ! i) = no" using li ti by (auto simp: pool_inv_def table_ok_def)
    let ?f = "(frames t ! i)\<lparr>dirty := True\<rparr>"
    have "s' = t\<lparr>frames := (frames t)[i := ?f]\<rparr>" using lock(1) nf l Ok by (simp add: get_mut_def set_frame_def)
    then have s': "s' = t\<lparr>frames := (frames t)[i := ?f], region := (region t)[i := region t ! i], live_pins := live_pins t\<rparr>"
      by simp
    have "frame_inv crc (is_frozen t) (disk_page (pool_file t)) ?f (region t ! i)"
      using inv_frame [OF ti i] nf fz pg by (auto simp: frame_inv_def)
    then have "run_ok crc t s'" using run_ok_frame [OF ti at i _ _ _ s'] by simp
    moreover have "run_ok crc s t" by (rule run_ok_pinned [OF assms(3) pf])
    ultimately show ?thesis by (auto simp: run_ok_def)
  next
    case (Err e)
    then have "s' = t" using lock nf l by (simp add: get_mut_def)
    then show ?thesis using lf(2) Err run_ok_keeps [OF assms(3)] by simp
  next
    case Panic
    then show ?thesis using lock nf l by (simp add: get_mut_def)
  qed
next
  case (edit i b)
  have "s' = s\<lparr>frames := (frames s)[i := frames s ! i], region := (region s)[i := b], live_pins := live_pins s\<rparr>"
    by (simp add: edit bytes_mut_def)
  moreover have "frame_inv crc (is_frozen s) (disk_page (pool_file s)) (frames s ! i) b"
    using inv_frame [OF assms(2) edit(2)] edit(3,4) by (auto simp: frame_inv_def)
  ultimately show ?thesis by (intro run_ok_frame [OF assms(2,3) edit(2)]) simp_all
next
  case (release i w)
  let ?f = "(frames s ! i)\<lparr>pins := pins (frames s ! i) - 1, frame_writer := False\<rparr>"
  have i: "i < length (frames s)" "pins (frames s ! i) > 0" "live_pins s > 0"
    using release(1) by (auto simp: unpin_def split: if_splits)
  have s': "s' = s\<lparr>frames := (frames s)[i := ?f], region := (region s)[i := region s ! i], live_pins := live_pins s - 1\<rparr>"
    using release(1,2) i by (auto simp: unpin_def set_frame_def Let_def split: if_splits)
  have "frame_inv crc (is_frozen s) (disk_page (pool_file s)) ?f (region s ! i)"
    using inv_frame [OF assms(2) i(1)] release(2,3) i(2) by (auto simp: frame_inv_def)
  moreover have "live_pins s - 1 + pins (frames s ! i) = live_pins s + pins ?f" using i(2,3) by simp
  ultimately show ?thesis by (intro run_ok_frame [OF assms(2,3) i(1) _ _ _ s']) simp_all
next
  case (alloc debug r)
  obtain no where "disturbs_only crc s s' no"
    using allocate_disturbs [OF assms(2,3) alloc(2,1)] by blast
  then show ?thesis by (simp add: disturbs_only_def run_ok_def)
next
  case (flush barrier r)
  show ?thesis using flush_all_keeps [OF assms(2) flush(2,1)] run_ok_keeps [OF assms(3)] by blast
qed



end
