(* ===== verification/Guards.thy ===== *)
theory Guards
  imports Pool_Checkpoint
begin

text \<open>
  Guards with a lexical scope: the pattern of every client that pins a page, reads or edits it, and
  drops the guard at the end of the block (\<open>PinnedRead\<close>, \<open>PinnedWrite\<close> and their \<open>Drop\<close> in
  core/kernel/src/pool.rs). On an idle pool over a healthy device such a block always runs, sees the
  page as last written, and leaves the pool idle again.
\<close>

text \<open>A read guard held over a pure use of the page, and a write guard over an edit of it.\<close>

definition with_read :: "crc_fn \<Rightarrow> pool \<Rightarrow> nat \<Rightarrow> (bytes \<Rightarrow> 'a kresult) \<Rightarrow> pool \<times> 'a kresult" where
  "with_read crc s no k =
     then_do (pool_get crc s no) (\<lambda>s i.
     case unpin s i False of Ok s' \<Rightarrow> (s', k (region s ! i)) | _ \<Rightarrow> (s, Panic))"

definition with_write :: "crc_fn \<Rightarrow> pool \<Rightarrow> nat \<Rightarrow> (bytes \<Rightarrow> bytes \<times> 'a kresult) \<Rightarrow> pool \<times> 'a kresult" where
  "with_write crc s no k =
     then_do (get_mut crc s no) (\<lambda>s i.
     let (b, r) = k (region s ! i); s = bytes_mut s i b in
     case unpin s i True of Ok s' \<Rightarrow> (s', r) | _ \<Rightarrow> (s, Panic))"

section \<open>Idle pools\<close>

definition idle :: "crc_fn \<Rightarrow> pool \<Rightarrow> bool" where
  "idle crc s \<longleftrightarrow> pool_inv crc s \<and> healthy (pool_file s) \<and> frames s \<noteq> [] \<and> live_pins s = 0"

lemma idle_pins: "idle crc s \<Longrightarrow> i < length (frames s) \<Longrightarrow> pins (frames s ! i) = 0"
  by (auto simp: idle_def pool_inv_def)

text \<open>Page \<open>no\<close> of the pool is the page image \<open>b\<close>, up to what sealing rewrites.\<close>

definition holds :: "crc_fn \<Rightarrow> pool \<Rightarrow> nat \<Rightarrow> bytes \<Rightarrow> bool" where
  "holds crc s no b \<longleftrightarrow> page_ok crc no b \<and> pool_view crc s no = Some (page_body b)"

text \<open>A reading operation leaves the pool idle, its allocator as it was and every page as it reads.\<close>

definition reads_only :: "crc_fn \<Rightarrow> pool \<Rightarrow> pool \<Rightarrow> bool" where
  "reads_only crc s s' \<longleftrightarrow>
     idle crc s' \<and> reuse.truncate s' = reuse.truncate s \<and> (\<forall>no c. holds crc s no c \<longrightarrow> holds crc s' no c) \<and>
     length (frames s') = length (frames s) \<and> (\<forall>n. extent_within n s \<longrightarrow> extent_within n s')"

lemma reads_only_refl: "idle crc s \<Longrightarrow> reads_only crc s s"
  by (simp add: reads_only_def)

lemma reads_only_trans: "reads_only crc s t \<Longrightarrow> reads_only crc t u \<Longrightarrow> reads_only crc s u"
  by (simp add: reads_only_def)

lemma reads_only_idle: "reads_only crc s t \<Longrightarrow> idle crc t"
  by (simp add: reads_only_def)

lemma reads_only_holds: "reads_only crc s t \<Longrightarrow> holds crc s no c \<Longrightarrow> holds crc t no c"
  by (simp add: reads_only_def)

lemma reads_only_allocator:
  "reads_only crc s t \<Longrightarrow> next_page t = next_page s" "reads_only crc s t \<Longrightarrow> limits t = limits s"
  "reads_only crc s t \<Longrightarrow> is_frozen t = is_frozen s"
  by (auto simp: reads_only_def reuse.defs is_frozen_def fun_eq_iff)

lemma unpin_facts:
  assumes "pool_inv crc s" "i < length (frames s)" "pins (frames s ! i) > 0" "frame_writer (frames s ! i) = w"
    and "w \<longrightarrow> page_ok crc (frame_page (frames s ! i)) (region s ! i)"
  obtains s' where "unpin s i w = Ok s'" "pool_inv crc s'" "live_pins s' = live_pins s - 1" "table s' = table s" "region s' = region s"
    "pool_file s' = pool_file s" "length (frames s') = length (frames s)" "reuse.truncate s' = reuse.truncate s"
    "\<And>no. pool_view crc s' no = pool_view crc s no"
    "frames s' = (frames s)[i := (frames s ! i)\<lparr>pins := pins (frames s ! i) - 1, frame_writer := False\<rparr>]"
proof -
  let ?f = "(frames s ! i)\<lparr>pins := pins (frames s ! i) - 1, frame_writer := False\<rparr>"
  let ?s = "s\<lparr>frames := (frames s)[i := ?f], region := (region s)[i := region s ! i], live_pins := live_pins s - 1\<rparr>"
  have "pins (frames s ! i) \<le> sum_list (map pins (frames s))" using assms(2) by (intro member_le_sum_list) auto
  then have lp: "live_pins s > 0" using assms(1,3) by (auto simp: pool_inv_def)
  have u: "unpin s i w = Ok ?s" using assms(2-4) lp by (auto simp: unpin_def set_frame_def Let_def)
  have "frame_inv crc (is_frozen s) (disk_page (pool_file s)) ?f (region s ! i)"
    using inv_frame [OF assms(1,2)] assms(3-5) by (auto simp: frame_inv_def)
  moreover have "live_pins s - 1 + pins (frames s ! i) = live_pins s + pins ?f" using assms(3) lp by simp
  ultimately have "pool_inv crc ?s" by (intro pool_inv_frame [OF assms(1,2) _ _ _ refl]) simp_all
  then show thesis using u by (intro that [of ?s]) (auto intro: pool_view_cong)
qed

section \<open>Write guards held across other work\<close>

text \<open>
  A write guard is a frame index, the page it holds and its image at this moment; the pages under
  guards may be edited while other pages are read, pinned and allocated. Between two edits the image
  is always a readable page.
\<close>

type_synonym guard = "nat \<times> nat \<times> bytes"

fun guard_ok :: "crc_fn \<Rightarrow> pool \<Rightarrow> guard \<Rightarrow> bool" where
  "guard_ok crc s (i, no, b) \<longleftrightarrow>
     i < length (frames s) \<and> table s no = Some i \<and> pins (frames s ! i) = 1 \<and> frame_writer (frames s ! i) \<and>
     dirty (frames s ! i) \<and> region s ! i = b \<and> page_ok crc no b"

definition guarded :: "crc_fn \<Rightarrow> pool \<Rightarrow> guard list \<Rightarrow> bool" where
  "guarded crc s gs \<longleftrightarrow>
     pool_inv crc s \<and> healthy (pool_file s) \<and> live_pins s = length gs \<and> distinct (map fst gs) \<and> list_all (guard_ok crc s) gs"

abbreviation guard_pages :: "guard list \<Rightarrow> nat list" where
  "guard_pages gs \<equiv> map (\<lambda>(i, no, b). no) gs"

lemma idle_guarded: "idle crc s \<longleftrightarrow> guarded crc s [] \<and> frames s \<noteq> []"
  by (auto simp: idle_def guarded_def)

lemma guarded_perm: "guarded crc s gs \<Longrightarrow> mset gs' = mset gs \<Longrightarrow> guarded crc s gs'"
  unfolding guarded_def list_all_iff by (metis distinct_map mset_eq_imp_distinct_iff mset_eq_length set_mset_mset)

lemma guard_ok_holds: "guard_ok crc s (i, no, b) \<Longrightarrow> holds crc s no b"
  by (simp add: holds_def pool_view_def)

lemma pins_beside_guards:
  assumes "pool_inv crc s" "distinct (map fst gs)" "list_all (guard_ok crc s) gs" "j < length (frames s)" "j \<notin> fst ` set gs"
  shows "pins (frames s ! j) + length gs \<le> live_pins s"
proof -
  let ?I = "fst ` set gs" and ?p = "\<lambda>j. pins (frames s ! j)"
  have g: "i < length (frames s) \<and> ?p i = 1" if "i \<in> ?I" for i using that assms(3) by (auto simp: list_all_iff)
  have c: "card ?I = length gs" using assms(2) by (metis distinct_card length_map list.set_map)
  have "sum_list (map pins (frames s)) = sum ?p {..<length (frames s)}"
    by (simp add: sum_list_sum_nth atLeast0LessThan)
  moreover have "insert j ?I \<subseteq> {..<length (frames s)}" using g assms(4) by auto
  then have "sum ?p (insert j ?I) \<le> sum ?p {..<length (frames s)}" by (intro sum_mono2) auto
  moreover have "sum ?p (insert j ?I) = ?p j + length gs" using assms(5) g c by simp
  ultimately show ?thesis using assms(1) by (simp add: pool_inv_def)
qed

lemma guarded_unpinned:
  "guarded crc s gs \<Longrightarrow> j < length (frames s) \<Longrightarrow> j \<notin> fst ` set gs \<Longrightarrow> pins (frames s ! j) = 0"
  using pins_beside_guards [of crc s gs j] by (simp add: guarded_def)

lemma guarded_room:
  assumes "guarded crc s gs" "length gs < length (frames s)"
  shows "\<exists>j < length (frames s). pins (frames s ! j) = 0"
proof -
  have "card (fst ` set gs) \<le> length gs" using card_length [of "map fst gs"] by simp
  then have "card (fst ` set gs) < card {..<length (frames s)}" using assms(2) by simp
  then obtain j where "j < length (frames s)" "j \<notin> fst ` set gs" by (metis card_mono finite_imageI finite_set leD lessThan_iff subsetI)
  then show ?thesis using guarded_unpinned [OF assms(1)] by blast
qed

text \<open>A page under no guard is in no guarded frame.\<close>

lemma guarded_apart:
  assumes "guarded crc s gs" "no \<notin> set (guard_pages gs)" "table s no = Some i"
  shows "i \<notin> fst ` set gs" "i < length (frames s)"
proof -
  have t: "table_ok (table s) (frames s)" using assms(1) by (simp add: guarded_def pool_inv_def)
  show "i < length (frames s)" using t assms(3) by (simp add: table_ok_def)
  show "i \<notin> fst ` set gs"
  proof
    assume "i \<in> fst ` set gs"
    then obtain m b where g: "(i, m, b) \<in> set gs" by auto
    then have "table s m = Some i" using assms(1) by (auto simp: guarded_def list_all_iff)
    then have "m = no" using t assms(3) unfolding table_ok_def by metis
    then show False using g assms(2) by force
  qed
qed

text \<open>Steps that leave the guarded frames alone keep the guards.\<close>

lemma guard_ok_frame:
  assumes "guard_ok crc s (i, no, b)" "pool_inv crc t" "length (frames t) = length (frames s)"
    and "frames t ! i = frames s ! i" "region t ! i = region s ! i" "pool_inv crc s"
  shows "guard_ok crc t (i, no, b)"
proof -
  have "present (frames s ! i)" "frame_page (frames s ! i) = no" using assms(1,6) by (auto simp: pool_inv_def table_ok_def)
  then have "table t no = Some i" using assms(1-4) by (auto simp: pool_inv_def table_ok_def)
  then show ?thesis using assms(1,3-5) by simp
qed

lemma guards_beside:
  assumes "list_all (guard_ok crc s) gs" "i \<notin> fst ` set gs" "table t = table s" "frames t = (frames s)[i := f]"
    and "\<And>j. j \<noteq> i \<Longrightarrow> region t ! j = region s ! j"
  shows "list_all (guard_ok crc t) gs"
  unfolding list_all_iff
proof
  fix g assume g: "g \<in> set gs"
  obtain j m c where f: "g = (j, m, c)" by (cases g)
  have "j \<noteq> i" using assms(2) g f by force
  moreover have "guard_ok crc s (j, m, c)" using assms(1) g f unfolding list_all_iff by blast
  ultimately show "guard_ok crc t g" using assms(3-5) by (simp add: f)
qed

text \<open>Pinning a page beside the guards.\<close>

lemma load_guarded:
  assumes "guarded crc s gs" "length gs < length (frames s)" "no \<notin> set (guard_pages gs)" "holds crc s no b" "load crc s no write = (t, r)"
  obtains i where "r = Ok i" "i < length (frames t)" "i \<notin> fst ` set gs" "table t no = Some i" "page_ok crc no (region t ! i)"
    "page_body (region t ! i) = page_body b" "pool_inv crc t" "healthy (pool_file t)" "live_pins t = Suc (length gs)" "pins (frames t ! i) = 1"
    "frame_writer (frames t ! i) = write" "list_all (guard_ok crc t) gs" "reuse.truncate t = reuse.truncate s"
    "length (frames t) = length (frames s)" "\<And>m c. holds crc s m c \<Longrightarrow> holds crc t m c" "\<And>n. extent_within n s \<Longrightarrow> extent_within n t"
proof -
  have inv: "pool_inv crc s" "healthy (pool_file s)" "live_pins s = length gs" using assms(1) by (simp_all add: guarded_def)
  have pv: "pool_view crc s no = Some (page_body b)" using assms(4) by (simp add: holds_def)
  have unp: "\<forall>i. table s no = Some i \<longrightarrow> pins (frames s ! i) = 0"
    using guarded_apart [OF assms(1,3)] guarded_unpinned [OF assms(1)] by blast
  obtain i where i: "r = Ok i" using load_succeeds [OF inv(1,2) pv assms(5) guarded_room [OF assms(1,2)] unp] by blast
  note lf = load_facts(1) [OF inv(1) assms(5) i]
  have pf: "pinned_from crc s t (Some i)" using lf by simp
  have z: "pins (frames s ! i) = 0" using lf unp by auto
  have out: "i \<notin> fst ` set gs"
  proof
    assume "i \<in> fst ` set gs"
    then have "pins (frames s ! i) = 1" using assms(1) by (auto simp: guarded_def list_all_iff)
    then show False using z by simp
  qed
  have len: "length (frames t) = length (frames s)" and ti: "pool_inv crc t" using pf by (simp_all add: pinned_from_def)
  have keep: "guard_ok crc t g" if "g \<in> set gs" for g
  proof (cases g)
    case (fields j m c)
    have gj: "guard_ok crc s (j, m, c)" using assms(1) that fields by (auto simp: guarded_def list_all_iff)
    have "j \<noteq> i" using out that fields by force
    then have "frames t ! j = frames s ! j" "region t ! j = region s ! j" using pf gj by (auto simp: pinned_from_def)
    then show ?thesis unfolding fields by (intro guard_ok_frame [OF gj ti len _ _ inv(1)])
  qed
  have gs: "list_all (guard_ok crc t) gs" using keep by (simp add: list_all_iff)
  have "pins (frames t ! i) + length gs \<le> live_pins t"
    by (rule pins_beside_guards [OF ti _ gs _ out]) (use assms(1) lf in \<open>simp_all add: guarded_def\<close>)
  then have "pins (frames t ! i) = 1" using lf inv(3) by linarith
  moreover have "healthy (pool_file t)" using pf inv(2) by (auto simp: pinned_from_def intro: same_device_healthy)
  moreover have "page_body (region t ! i) = page_body b" using lf pv by (auto simp: pinned_from_def)
  moreover have "holds crc t m c" if "holds crc s m c" for m c using pf that by (simp add: holds_def pinned_from_def)
  moreover have "extent_within n t" if "extent_within n s" for n using pf that by (simp add: pinned_from_def)
  moreover have "reuse.truncate t = reuse.truncate s" using pf by (simp add: pinned_from_def)
  ultimately show thesis using that [OF i] lf out gs len ti inv(3) by simp
qed

lemma with_read_guarded:
  assumes "guarded crc s gs" "length gs < length (frames s)" "no \<notin> set (guard_pages gs)" "holds crc s no b" "with_read crc s no k = (s', r)"
  obtains b' where "r = k b'" "page_ok crc no b'" "page_body b' = page_body b" "guarded crc s' gs" "length (frames s') = length (frames s)"
    "\<And>m c. holds crc s m c \<Longrightarrow> holds crc s' m c" "reuse.truncate s' = reuse.truncate s" "\<And>n. extent_within n s \<Longrightarrow> extent_within n s'"
proof -
  obtain t q where l: "load crc s no False = (t, q)" by fastforce
  obtain i where i: "q = Ok i" "i < length (frames t)" "i \<notin> fst ` set gs" "page_ok crc no (region t ! i)"
      "page_body (region t ! i) = page_body b" "pool_inv crc t" "healthy (pool_file t)" "live_pins t = Suc (length gs)"
      "pins (frames t ! i) = 1" "frame_writer (frames t ! i) = False" "list_all (guard_ok crc t) gs" "reuse.truncate t = reuse.truncate s"
      "length (frames t) = length (frames s)" "\<And>m c. holds crc s m c \<Longrightarrow> holds crc t m c" "\<And>n. extent_within n s \<Longrightarrow> extent_within n t"
    by (rule load_guarded [OF assms(1-4) l]) blast
  obtain u where u: "unpin t i False = Ok u" "pool_inv crc u" "live_pins u = live_pins t - 1" "table u = table t" "region u = region t"
      "pool_file u = pool_file t" "frames u = (frames t)[i := (frames t ! i)\<lparr>pins := pins (frames t ! i) - 1, frame_writer := False\<rparr>]"
      "reuse.truncate u = reuse.truncate t" "\<And>no. pool_view crc u no = pool_view crc t no"
    using unpin_facts [OF i(6,2), of False] i(9,10) by auto
  have "list_all (guard_ok crc u) gs" by (rule guards_beside [OF i(11,3) u(4,7)]) (simp add: u(5))
  then have "guarded crc u gs" using i(7,8) u(2,3,6) assms(1) by (simp add: guarded_def)
  moreover have "s' = u" "r = k (region t ! i)" using assms(5) l i(1) u(1) by (simp_all add: with_read_def pool_get_def)
  ultimately show thesis
    using that [of "region t ! i"] i(4,5,12-15) u(4,6-9) by (simp add: holds_def extent_within_def)
qed

lemma get_mut_guarded:
  assumes "guarded crc s gs" "length gs < length (frames s)" "no \<notin> set (guard_pages gs)" "holds crc s no b" "\<not> is_frozen s no"
  obtains i b' t where "get_mut crc s no = (t, Ok i)" "guarded crc t ((i, no, b') # gs)" "page_body b' = page_body b"
    "length (frames t) = length (frames s)" "reuse.truncate t = reuse.truncate s"
    "\<And>m c. holds crc s m c \<Longrightarrow> holds crc t m c" "\<And>n. extent_within n s \<Longrightarrow> extent_within n t"
proof -
  obtain t q where l: "load crc s no True = (t, q)" by fastforce
  obtain i where i: "q = Ok i" "i < length (frames t)" "i \<notin> fst ` set gs" "table t no = Some i" "page_ok crc no (region t ! i)"
      "page_body (region t ! i) = page_body b" "pool_inv crc t" "healthy (pool_file t)" "live_pins t = Suc (length gs)"
      "pins (frames t ! i) = 1" "frame_writer (frames t ! i) = True" "list_all (guard_ok crc t) gs" "reuse.truncate t = reuse.truncate s"
      "length (frames t) = length (frames s)" "\<And>m c. holds crc s m c \<Longrightarrow> holds crc t m c" "\<And>n. extent_within n s \<Longrightarrow> extent_within n t"
    by (rule load_guarded [OF assms(1-4) l]) blast
  let ?f = "(frames t ! i)\<lparr>dirty := True\<rparr>"
  define u where "u = t\<lparr>frames := (frames t)[i := ?f], region := (region t)[i := region t ! i], live_pins := live_pins t\<rparr>"
  have pg: "frame_page (frames t ! i) = no" using i(4,7) by (simp add: pool_inv_def table_ok_def)
  have nf: "\<not> is_frozen t no" using assms(5) truncate_frozen [OF i(13)] by simp
  have "frame_inv crc (is_frozen t) (disk_page (pool_file t)) ?f (region t ! i)"
    using inv_frame [OF i(7,2)] pg nf i(10) by (auto simp: frame_inv_def)
  then have ui: "pool_inv crc u" by (intro pool_inv_frame [OF i(7,2) _ _ _ u_def]) simp_all
  have rg: "region u = region t" "table u = table t" "pool_file u = pool_file t" "frames u = (frames t)[i := ?f]"
      "live_pins u = live_pins t" "reuse.truncate u = reuse.truncate t"
    by (simp_all add: u_def)
  have eq: "get_mut crc s no = (u, Ok i)" using assms(5) l i(1) by (simp add: get_mut_def set_frame_def u_def)
  have "list_all (guard_ok crc u) gs" by (rule guards_beside [OF i(12,3) rg(2,4)]) (simp add: rg)
  moreover have "guard_ok crc u (i, no, region t ! i)" using i by (simp add: rg)
  ultimately have "guarded crc u ((i, no, region t ! i) # gs)"
    using ui i(3,8,9) assms(1) by (auto simp: guarded_def rg)
  moreover have "pool_view crc u = pool_view crc t" by (rule ext, rule pool_view_cong) (fact rg)+
  ultimately show thesis using that [OF eq] i(6,13-16) rg by (simp add: holds_def extent_within_def)
qed

lemma edit_guarded:
  assumes "guarded crc s ((i, no, b) # gs)" "page_ok crc no c"
  shows "guarded crc (bytes_mut s i c) ((i, no, c) # gs)" "holds crc (bytes_mut s i c) no c"
    "m \<noteq> no \<Longrightarrow> holds crc s m d \<Longrightarrow> holds crc (bytes_mut s i c) m d" "length (frames (bytes_mut s i c)) = length (frames s)"
    "reuse.truncate (bytes_mut s i c) = reuse.truncate s" "extent_within n s \<Longrightarrow> extent_within n (bytes_mut s i c)"
proof -
  have g: "guard_ok crc s (i, no, b)" "pool_inv crc s" using assms(1) by (simp_all add: guarded_def)
  have il: "i < length (frames s)" "i < length (region s)" using g by (simp_all add: pool_inv_def)
  have pg: "frame_page (frames s ! i) = no" using g by (simp add: pool_inv_def table_ok_def)
  let ?u = "bytes_mut s i c"
  have e: "?u = s\<lparr>frames := (frames s)[i := frames s ! i], region := (region s)[i := c], live_pins := live_pins s\<rparr>"
    by (simp add: bytes_mut_def)
  have f: "frames ?u = frames s" "table ?u = table s" "region ?u = (region s)[i := c]" "live_pins ?u = live_pins s" "pool_file ?u = pool_file s"
    by (simp_all add: bytes_mut_def)
  have "frame_inv crc (is_frozen s) (disk_page (pool_file s)) (frames s ! i) c"
    using inv_frame [OF g(2) il(1)] g(1) pg assms(2) by (auto simp: frame_inv_def)
  then have ui: "pool_inv crc ?u" by (intro pool_inv_frame [OF g(2) il(1) _ _ _ e]) simp_all
  have "list_all (guard_ok crc ?u) gs"
    using assms(1) by (intro guards_beside [of crc s gs i ?u "frames s ! i"]) (auto simp: guarded_def f)
  moreover have gc: "guard_ok crc ?u (i, no, c)" using g il assms(2) by (simp add: f)
  ultimately show "guarded crc (bytes_mut s i c) ((i, no, c) # gs)"
    using ui assms(1) by (simp add: guarded_def f)
  show "holds crc (bytes_mut s i c) no c" by (rule guard_ok_holds [OF gc])
  show "holds crc (bytes_mut s i c) m d" if "m \<noteq> no" "holds crc s m d"
  proof (cases "table s m")
    case (Some j)
    then have "j \<noteq> i" using g(2) pg that(1) by (auto simp: pool_inv_def table_ok_def)
    then show ?thesis using that(2) Some by (simp add: f holds_def pool_view_def)
  qed (use that(2) in \<open>simp add: f holds_def pool_view_def\<close>)
  show "length (frames (bytes_mut s i c)) = length (frames s)" "reuse.truncate (bytes_mut s i c) = reuse.truncate s"
    "extent_within n s \<Longrightarrow> extent_within n (bytes_mut s i c)"
    by (simp_all add: bytes_mut_def extent_within_def)
qed

lemma unpin_guarded:
  assumes "guarded crc s ((i, no, b) # gs)"
  obtains s' where "unpin s i True = Ok s'" "guarded crc s' gs" "length (frames s') = length (frames s)" "reuse.truncate s' = reuse.truncate s"
    "\<And>m c. holds crc s m c \<longleftrightarrow> holds crc s' m c" "\<And>n. extent_within n s \<Longrightarrow> extent_within n s'"
proof -
  have g: "guard_ok crc s (i, no, b)" "pool_inv crc s" using assms by (simp_all add: guarded_def)
  have il: "i < length (frames s)" "pins (frames s ! i) > 0" "frame_writer (frames s ! i)" "frame_page (frames s ! i) = no"
    using g by (auto simp: pool_inv_def table_ok_def)
  obtain u where u: "unpin s i True = Ok u" "pool_inv crc u" "live_pins u = live_pins s - 1" "table u = table s" "region u = region s"
      "pool_file u = pool_file s" "frames u = (frames s)[i := (frames s ! i)\<lparr>pins := pins (frames s ! i) - 1, frame_writer := False\<rparr>]"
      "reuse.truncate u = reuse.truncate s" "\<And>no. pool_view crc u no = pool_view crc s no"
    using unpin_facts [OF g(2) il(1,2), of True] g(1) il by auto
  have "list_all (guard_ok crc u) gs"
    using assms by (intro guards_beside [OF _ _ u(4,7)]) (auto simp: guarded_def u(5))
  then have "guarded crc u gs" using assms u(2,3,6) by (simp add: guarded_def)
  then show thesis using that [OF u(1)] u(4,6-9) by (simp add: holds_def extent_within_def)
qed

text \<open>A guard from its acquisition to its end.\<close>

lemma with_write_guarded:
  assumes "guarded crc s gs" "length gs < length (frames s)" "no \<notin> set (guard_pages gs)" "holds crc s no b" "\<not> is_frozen s no"
    and "\<And>b'. page_ok crc no b' \<Longrightarrow> page_body b' = page_body b \<Longrightarrow> \<exists>c. k b' = (c, q b') \<and> page_ok crc no c \<and> P b' c"
  obtains b' c s' where "with_write crc s no k = (s', q b')" "page_ok crc no b'" "page_body b' = page_body b" "P b' c" "guarded crc s' gs"
    "holds crc s' no c" "\<And>m d. m \<noteq> no \<Longrightarrow> holds crc s m d \<Longrightarrow> holds crc s' m d" "length (frames s') = length (frames s)"
    "reuse.truncate s' = reuse.truncate s" "\<And>n. extent_within n s \<Longrightarrow> extent_within n s'"
proof -
  obtain i b' t where t: "get_mut crc s no = (t, Ok i)" "guarded crc t ((i, no, b') # gs)" "page_body b' = page_body b"
      "length (frames t) = length (frames s)" "reuse.truncate t = reuse.truncate s"
      "\<And>m c. holds crc s m c \<Longrightarrow> holds crc t m c" "\<And>n. extent_within n s \<Longrightarrow> extent_within n t"
    by (rule get_mut_guarded [OF assms(1-5)]) blast
  have b': "page_ok crc no b'" "region t ! i = b'" using t(2) by (simp_all add: guarded_def)
  obtain c where c: "k b' = (c, q b')" "page_ok crc no c" "P b' c" using assms(6) [OF b'(1) t(3)] by blast
  note e = edit_guarded [OF t(2) c(2)]
  obtain v where v: "unpin (bytes_mut t i c) i True = Ok v" "guarded crc v gs" "length (frames v) = length (frames (bytes_mut t i c))"
      "reuse.truncate v = reuse.truncate (bytes_mut t i c)" "\<And>m d. holds crc (bytes_mut t i c) m d \<longleftrightarrow> holds crc v m d"
      "\<And>n. extent_within n (bytes_mut t i c) \<Longrightarrow> extent_within n v"
    by (rule unpin_guarded [OF e(1)]) blast
  have "with_write crc s no k = (v, q b')" using t(1) b'(2) c(1) v(1) by (simp add: with_write_def)
  then show thesis using that [of v b' c] b'(1) t(3-7) c(3) v(2-6) e(2-6) by simp
qed

section \<open>Blocks on an idle pool\<close>

lemma with_read_idle:
  assumes "idle crc s" "holds crc s no b" "with_read crc s no k = (s', r)"
  obtains b' where "r = k b'" "page_ok crc no b'" "page_body b' = page_body b" "reads_only crc s s'"
proof -
  have g: "guarded crc s []" "length [] < length (frames s)" using assms(1) by (simp_all add: idle_guarded)
  obtain b' where b': "r = k b'" "page_ok crc no b'" "page_body b' = page_body b" "guarded crc s' []" "length (frames s') = length (frames s)"
      "\<And>m c. holds crc s m c \<Longrightarrow> holds crc s' m c" "reuse.truncate s' = reuse.truncate s" "\<And>n. extent_within n s \<Longrightarrow> extent_within n s'"
    by (rule with_read_guarded [OF g _ assms(2,3)]) auto
  have "idle crc s'" using b'(4,5) g(2) by (auto simp: idle_guarded)
  then show thesis using that b' by (simp add: reads_only_def)
qed

lemma with_write_idle:
  assumes "idle crc s" "holds crc s no b" "\<not> is_frozen s no" "with_write crc s no k = (s', r)"
    and "\<And>b'. page_ok crc no b' \<Longrightarrow> page_body b' = page_body b \<Longrightarrow> k b' = (c, q) \<and> page_ok crc no c"
  shows "r = q" "idle crc s'" "holds crc s' no c" "m \<noteq> no \<Longrightarrow> holds crc s m d \<Longrightarrow> holds crc s' m d"
    "reuse.truncate s' = reuse.truncate s" "extent_within n s \<Longrightarrow> extent_within n s'" "length (frames s') = length (frames s)"
proof -
  have g: "guarded crc s []" "length [] < length (frames s)" using assms(1) by (simp_all add: idle_guarded)
  obtain b' e s'' where w: "with_write crc s no k = (s'', q)" "e = c" "guarded crc s'' []" "holds crc s'' no e"
      "\<And>m d. m \<noteq> no \<Longrightarrow> holds crc s m d \<Longrightarrow> holds crc s'' m d" "length (frames s'') = length (frames s)"
      "reuse.truncate s'' = reuse.truncate s" "\<And>n. extent_within n s \<Longrightarrow> extent_within n s''"
    by (rule with_write_guarded [OF g _ assms(2,3), of k "\<lambda>_. q" "\<lambda>_ d. d = c"]) (use assms(5) in auto)
  have eq: "s' = s''" "r = q" using w(1) assms(4) by simp_all
  show "r = q" by (rule eq(2))
  show "idle crc s'" using w(3,6) g(2) by (auto simp: idle_guarded eq)
  show "holds crc s' no c" "m \<noteq> no \<Longrightarrow> holds crc s m d \<Longrightarrow> holds crc s' m d" "reuse.truncate s' = reuse.truncate s"
    "extent_within n s \<Longrightarrow> extent_within n s'" "length (frames s') = length (frames s)"
    using w by (simp_all add: eq)
qed

text \<open>The checkpoint on an idle pool, and the pool opened on the file it leaves.\<close>

lemma flush_idle:
  assumes "idle crc s" "flush_all crc s barrier = (s', r)"
  shows "r = Ok ()" "idle crc s'" "holds crc s no b \<Longrightarrow> disk_view crc (pool_file s') no = Some (page_body b)"
    "extent_within n s \<Longrightarrow> extent_within n s'"
proof -
  have inv: "pool_inv crc s" "healthy (pool_file s)" "frames s \<noteq> []" "live_pins s = 0" using assms(1) by (auto simp: idle_def)
  have fl: "flushable s" using idle_pins [OF assms(1)] by (simp add: flushable_def)
  note k = flush_all_keeps [OF inv(1) fl assms(2)]
  have c: "r = Ok ()" "\<forall>i < length (frames s'). clean (frames s' ! i)" using flush_all_facts [OF inv(1) fl assms(2)] inv(2) by auto
  show "r = Ok ()" by (rule c(1))
  have "frames s' \<noteq> []" using k inv(3) by (auto simp: keeps_def)
  then show "idle crc s'" using k inv(2,4) keeps_inv [OF k] by (auto simp: idle_def keeps_def intro: same_device_healthy)
  show "disk_view crc (pool_file s') no = Some (page_body b)" if "holds crc s no b"
    using that k clean_view [OF keeps_inv [OF k] c(2), of no] by (simp add: holds_def keeps_def)
  show "extent_within n s \<Longrightarrow> extent_within n s'" using k by (simp add: keeps_def)
qed

lemma pool_new_idle:
  assumes "pool_new f ceiling used n c = Ok s" "healthy f" "n > 0"
  shows "idle crc s" "page_ok crc no b \<Longrightarrow> disk_view crc f no = Some (page_body b) \<Longrightarrow> holds crc s no b"
proof -
  note p = pool_new_facts [OF assms(1)]
  show "idle crc s" using p(1,3,4,8) assms(2,3) by (simp add: idle_def)
  show "page_ok crc no b \<Longrightarrow> disk_view crc f no = Some (page_body b) \<Longrightarrow> holds crc s no b"
    using p(2) by (simp add: holds_def)
qed

end
