(* ===== verification/Page_Image.thy ===== *)
theory Page_Image
  imports Guards Btree_Split
begin

text \<open>
  Page images as the clients of the pool see them: the records and header fields of an opened page,
  what sealing leaves of them, and the images that initialising and finalising a page produce.
\<close>

section \<open>Pages as lists of records\<close>

lemma open_slot:
  assumes "page_ok crc no b" "i < nentries b"
  shows "page_slot b i = Ok (page_slots b ! i)"
proof -
  note o = open_inner_Ok [OF assms(1) [unfolded page_ok_def open_resident_def]]
  have "slot_off b i + slot_len b i \<le> PAGE_SIZE" using o(7) assms(2) by (simp add: slots_in_bounds_iff)
  moreover have "HEADER_LEN + i * SLOT_LEN + 4 \<le> length b" using o(2,5,6) assms(2) by (simp add: layout_defs)
  ultimately show ?thesis using o(2) assms(2) by (simp add: page_slot_def nth_page_slots)
qed

text \<open>What sealing does not rewrite determines the records and the header.\<close>

lemma body_slices:
  assumes "length b = PAGE_SIZE" "length c = PAGE_SIZE" "page_body b = page_body c"
  shows "k \<le> 18 \<Longrightarrow> slice b j k = slice c j k" "40 \<le> j \<Longrightarrow> k \<le> PAGE_SIZE \<Longrightarrow> slice b j k = slice c j k"
    "20 \<le> j \<Longrightarrow> k \<le> 24 \<Longrightarrow> slice b j k = slice c j k"
proof -
  have e: "slice b 0 18 = slice c 0 18" "slice b 20 24 = slice c 20 24" "slice b 40 PAGE_SIZE = slice c 40 PAGE_SIZE"
    using assms by (auto simp: page_body_def PAGE_SIZE_def)
  show "slice b j k = slice c j k" if "k \<le> 18"
    using arg_cong [OF e(1), of "\<lambda>x. slice x j k"] that by (simp add: slice_slice)
  show "slice b j k = slice c j k" if "20 \<le> j" "k \<le> 24"
    using arg_cong [OF e(2), of "\<lambda>x. slice x (j - 20) (k - 20)"] that by (cases "j \<le> k") (simp_all add: slice_slice)
  show "slice b j k = slice c j k" if "40 \<le> j" "k \<le> PAGE_SIZE"
    using arg_cong [OF e(3), of "\<lambda>x. slice x (j - 40) (k - 40)"] that
    by (cases "j \<le> k") (simp_all add: slice_slice PAGE_SIZE_def)
qed

lemma body_slots:
  assumes "page_ok crc no b" "page_ok crc no c" "page_body b = page_body c"
  shows "page_slots b = page_slots c" "page_kind_of b = page_kind_of c" "page_next_leaf b = page_next_leaf c"
proof -
  note ob = open_inner_Ok [OF assms(1) [unfolded page_ok_def open_resident_def]]
  note oc = open_inner_Ok [OF assms(2) [unfolded page_ok_def open_resident_def]]
  note sl = body_slices [OF ob(2) oc(2) assms(3)]
  have n: "nentries b = nentries c" by (simp add: nentries_def rd_u16_def sl(1))
  have so: "slot_off b i = slot_off c i" "slot_len b i = slot_len c i" if "i < nentries b" for i
  proof -
    have "HEADER_LEN + i * SLOT_LEN + 4 \<le> PAGE_SIZE" using ob(5,6) that by (simp add: layout_defs)
    then show "slot_off b i = slot_off c i" "slot_len b i = slot_len c i"
      unfolding slot_off_def slot_len_def rd_u16_def using sl(2) by (simp_all add: layout_defs)
  qed
  show "page_slots b = page_slots c"
  proof (rule nth_equalityI)
    fix i assume "i < length (page_slots b)"
    then have i: "i < nentries b" by simp
    have "40 \<le> slot_off b i" "slot_off b i + slot_len b i \<le> PAGE_SIZE"
      using ob(5,7) i by (auto simp: slots_in_bounds_iff layout_defs)
    then show "page_slots b ! i = page_slots c ! i" using i n so sl(2) by (simp add: nth_page_slots)
  qed (simp add: n)
  show "page_kind_of b = page_kind_of c" "page_next_leaf b = page_next_leaf c"
    by (simp_all add: page_kind_of_def page_next_leaf_def rd_u16_def rd_u32_def sl(1,3))
qed

section \<open>Built pages\<close>

lemma insert_slot_format:
  assumes "page_wf b" "insert_slot b at rec = Ok c"
  shows "format_version c = format_version b"
proof -
  have "can_insert b at rec" "c = inserted b at rec"
    using assms by (auto simp: insert_slot_eq can_insert_def layout_defs split: if_splits)
  then show ?thesis using inserted_header(6) [of b at rec 18 20] by (simp add: format_version_def rd_u16_def FORMAT_AT_def)
qed

lemma page_init_format:
  assumes "page_init b kind t no = Ok c"
  shows "format_version c = FORMAT_VERSION"
  using assms
  by (auto simp: page_init_def Let_def format_version_def FORMAT_AT_def PAGE_SIZE_def rd_u16_same split: if_splits)

lemma finalised_ok:
  assumes "page_wf c" "page_header c kind t (of_nat no)" "format_version c = FORMAT_VERSION"
  shows "page_ok crc no (finalise c 0)" "page_slots (finalise c 0) = page_slots c" "page_kind_of (finalise c 0) = Ok kind"
proof -
  have l: "length c = 4096" by (rule page_wf_bounds(1) [OF assms(1)])
  note f = finalise_keeps [OF l, where g = 0]
  have keep: "slice (finalise c 0) j k = slice c j k" if "k \<le> 20 \<or> 32 \<le> j" for j k using f(1) that by auto
  note w = page_wf_header_cong(1,2) [OF assms(1) f(2) keep]
  have h: "page_header (finalise c 0) kind t (of_nat no)" using f(1) by (intro page_header_cong [OF assms(2)]) auto
  have v: "format_version (finalise c 0) = FORMAT_VERSION"
    using assms(3) f(1) by (simp add: format_version_def rd_u16_def FORMAT_AT_def)
  show "page_ok crc no (finalise c 0)"
    unfolding page_ok_def open_resident_def by (rule open_inner_accepts [OF w(1) h v]) simp_all
  show "page_slots (finalise c 0) = page_slots c" by (rule w(2))
  show "page_kind_of (finalise c 0) = Ok kind" using h by (simp add: page_header_def page_kind_of_def)
qed

lemma page_init_any: "length b = PAGE_SIZE \<Longrightarrow> page_init b k t n = page_init (replicate PAGE_SIZE 0) k t n"
  by (simp add: page_init_def)

end
