(* ===== verification/Meta.thy ===== *)
theory Meta
  imports Page_Image
begin

text \<open>
  The superblock (core/kernel/src/meta.rs): tree roots, log high-water mark and publication counter,
  kept twice. Generation \<open>g\<close> lives in page \<open>g mod 2\<close>, so publishing never touches the newest
  published root; on open the newest intact copy wins, and an intact copy of a format this engine
  does not know refuses the store. The operations run on the buffer pool, guards included.
\<close>

unbundle bit_operations_syntax

section \<open>Data\<close>

definition META_PAGE :: nat where "META_PAGE = 0"
definition META_PAGE_B :: nat where "META_PAGE_B = 1"
definition MAX_TREES :: nat where "MAX_TREES = 8"
definition SUPPORTED_FORMAT_VERSION :: u16 where "SUPPORTED_FORMAT_VERSION = 2"
definition FUTURE_FORMAT :: string where
  "FUTURE_FORMAT = ''database format version 3+ is newer than this engine reads; open it with the engine version that created it''"
definition ZERO_FORMAT :: string where
  "ZERO_FORMAT = ''database format version 0 is not one this engine writes''"
definition LIMITED :: u16 where "LIMITED = 0x8000"
definition SALVAGED :: bytes where "SALVAGED = ascii ''sekejap-salvaged-v1''"

record meta =
  meta_version :: u16
  roots :: "u32 list"
  meta_next_lsn :: u64
  generation :: u64

text \<open>The record \<open>write\<close> and \<open>write_slot\<close> build.\<close>

definition meta_record :: "meta \<Rightarrow> bool \<Rightarrow> bytes" where
  "meta_record m limited =
     to_le (meta_version m OR (if limited then LIMITED else 0)) @ concat (map to_le (roots m)) @
     to_le (meta_next_lsn m) @ to_le (generation m)"

section \<open>Decoding\<close>

text \<open>\<open>from_page\<close> on a page that was opened; \<open>slot\<close> never leaves the buffer of such a page.\<close>

definition from_page :: "bytes \<Rightarrow> meta kresult" where
  "from_page b =
     (let bad = Corrupt (page_page_no b) in
      if nentries b = 0 then Err (bad ''meta page has no slots'')
      else obind (page_slot b 0) (\<lambda>rec.
      if length rec < 2 then Err (bad ''meta record too short for format_version'')
      else let fv = from_le (take 2 rec) :: u16;
               base_version = fv AND NOT LIMITED
      in if base_version = 0 \<or> base_version > SUPPORTED_FORMAT_VERSION
         then Err (bad (if base_version = 0 then ZERO_FORMAT else FUTURE_FORMAT))
      else obind (if nentries b > 1
                  then if nentries b \<noteq> 2 then Ok True
                       else obind (page_slot b 1) (\<lambda>ext. Ok (ext \<noteq> SALVAGED \<and> \<not> is_ok (limits_decode ext)))
                  else Ok False) (\<lambda>invalid.
      if invalid then Err (bad ''invalid meta extension'')
      else let base = 2 + MAX_TREES * 4 in
      if length rec < base then Err (bad ''meta record too short for format_version and roots'')
      else let rs = map (\<lambda>i. from_le (slice rec (2 + i * 4) (6 + i * 4)) :: u32) [0..<MAX_TREES];
               lsn = (if length rec \<ge> base + 8 then from_le (slice rec base (base + 8)) else 0) :: u64;
               gen = (if length rec \<ge> base + 16 then from_le (slice rec (base + 8) (base + 16)) else 0) :: u64
      in obind (if fv AND LIMITED \<noteq> 0
                then if nentries b \<noteq> 2 then Err (bad ''missing resource policy'')
                     else obind (page_slot b 1) (\<lambda>ext. obind (limits_decode ext) (\<lambda>_. Ok ()))
                else if nentries b = 2
                then obind (page_slot b 1) (\<lambda>ext. if ext \<noteq> SALVAGED then Err (bad ''resource policy without required format flag'') else Ok ())
                else Ok ()) (\<lambda>_.
         Ok \<lparr>meta_version = fv, roots = rs, meta_next_lsn = lsn, generation = gen\<rparr>))))"

section \<open>Operations on the pool\<close>

definition write_record :: "crc_fn \<Rightarrow> pool \<Rightarrow> bytes \<Rightarrow> nat \<Rightarrow> pool \<times> unit kresult" where
  "write_record crc s rec slot =
     with_write crc s slot (\<lambda>b.
       case page_init b PageMeta 0 (of_nat slot) of
         Ok p \<Rightarrow>
           (case insert_slot p 0 rec of
              Ok p1 \<Rightarrow>
                (case limits s of
                   None \<Rightarrow> (finalise p1 0, Ok ())
                 | Some l \<Rightarrow>
                     (case insert_slot p1 1 (limits_encode l) of
                        Ok p2 \<Rightarrow> (finalise p2 0, Ok ())
                      | Err e \<Rightarrow> (finalise p1 0, Err e)
                      | Panic \<Rightarrow> (p1, Panic)))
            | Err e \<Rightarrow> (finalise p 0, Err e)
            | Panic \<Rightarrow> (p, Panic))
       | Err e \<Rightarrow> (b, Err e)
       | Panic \<Rightarrow> (b, Panic))"

definition meta_write :: "crc_fn \<Rightarrow> pool \<Rightarrow> meta \<Rightarrow> pool \<times> unit kresult" where
  "meta_write crc s m = write_record crc s (meta_record m (limits s \<noteq> None)) META_PAGE"

definition write_slot :: "crc_fn \<Rightarrow> pool \<Rightarrow> meta \<Rightarrow> pool \<times> unit kresult" where
  "write_slot crc s m =
     write_record crc s (meta_record m (limits s \<noteq> None)) (if unat (generation m) mod 2 = 0 then META_PAGE else META_PAGE_B)"

definition init_slot_b :: "crc_fn \<Rightarrow> pool \<Rightarrow> pool \<times> unit kresult" where
  "init_slot_b crc s =
     with_write crc s META_PAGE_B (\<lambda>b.
       case page_init b PageMeta 0 (of_nat META_PAGE_B) of
         Ok p \<Rightarrow> (finalise p 0, Ok ()) | Err e \<Rightarrow> (b, Err e) | Panic \<Rightarrow> (b, Panic))"

definition mark_salvaged :: "crc_fn \<Rightarrow> pool \<Rightarrow> pool \<times> unit kresult" where
  "mark_salvaged crc s =
     with_write crc s META_PAGE (\<lambda>b.
       case insert_slot b 1 SALVAGED of
         Ok p \<Rightarrow> (finalise p 0, Ok ()) | Err e \<Rightarrow> (b, Err e) | Panic \<Rightarrow> (b, Panic))"

definition is_salvaged :: "crc_fn \<Rightarrow> pool \<Rightarrow> pool \<times> bool kresult" where
  "is_salvaged crc s =
     with_read crc s META_PAGE (\<lambda>b.
       obind (open_resident crc b (of_nat META_PAGE)) (\<lambda>p.
       obind (from_page p) (\<lambda>m.
       if generation m = 0 \<and> nentries p = 2 then obind (page_slot p 1) (\<lambda>ext. Ok (ext = SALVAGED)) else Ok False)))"

definition meta_read :: "crc_fn \<Rightarrow> pool \<Rightarrow> pool \<times> meta kresult" where
  "meta_read crc s = with_read crc s META_PAGE (\<lambda>b. obind (open_resident crc b (of_nat META_PAGE)) from_page)"

definition read_opened :: "crc_fn \<Rightarrow> nat \<Rightarrow> bytes \<Rightarrow> meta kresult" where
  "read_opened crc no b =
     obind (open_resident crc b (of_nat no)) (\<lambda>p.
     obind (page_kind_of p) (\<lambda>kind.
     if kind \<noteq> PageMeta then Err (Corrupt (of_nat no) ''slot is not a meta page'') else from_page p))"

definition read_slot :: "crc_fn \<Rightarrow> pool \<Rightarrow> nat \<Rightarrow> pool \<times> meta kresult" where
  "read_slot crc s no =
     (case pool_get crc s no of
        (s', Err (Corrupt n why)) \<Rightarrow>
          if why = ''unknown format version'' then
            (case read_at (pool_file s') (page_at no) PAGE_SIZE of
               Ok bytes \<Rightarrow> (s', Err (Corrupt (of_nat no)
                 (if checksum crc bytes = rd_u32 bytes 36 then ''unknown format version'' else ''checksum mismatch'')))
             | Err e \<Rightarrow> (s', Err e) | Panic \<Rightarrow> (s', Panic))
          else (s', Err (Corrupt n why))
      | (s', Err e) \<Rightarrow> (s', Err e)
      | (s', Panic) \<Rightarrow> (s', Panic)
      | (s', Ok i) \<Rightarrow>
          (case unpin s' i False of Ok u \<Rightarrow> (u, read_opened crc no (region s' ! i)) | _ \<Rightarrow> (s', Panic)))"

text \<open>An intact copy of an unknown format refuses for both; the damaged copies lose.\<close>

definition refuses :: "meta kresult \<Rightarrow> kerror option" where
  "refuses r =
     (case r of
        Err (UnsupportedFormat found) \<Rightarrow> Some (UnsupportedFormat found)
      | Err (Corrupt no why) \<Rightarrow>
          if why = FUTURE_FORMAT \<or> why = ZERO_FORMAT \<or> why = ''unknown format version'' then Some (Corrupt no why) else None
      | _ \<Rightarrow> None)"

definition pick_meta :: "meta kresult \<Rightarrow> meta kresult \<Rightarrow> meta kresult" where
  "pick_meta a b =
     (case (refuses a, refuses b) of
        (Some e, _) \<Rightarrow> Err e
      | (None, Some e) \<Rightarrow> Err e
      | (None, None) \<Rightarrow>
          if (case b of Err (Corrupt _ why) \<Rightarrow> why = ''slot is not a meta page'' | _ \<Rightarrow> False)
          then Err (Corrupt (of_nat META_PAGE_B) ''page 1 is not a meta slot: pre-2f file layout, rebuild via bulk load'')
          else (case (a, b) of
             (Panic, _) \<Rightarrow> Panic
           | (_, Panic) \<Rightarrow> Panic
           | (Ok a, Ok b) \<Rightarrow> Ok (if generation a \<ge> generation b then a else b)
           | (Ok a, Err _) \<Rightarrow> Ok a
           | (Err _, Ok b) \<Rightarrow> Ok b
           | (Err e, Err _) \<Rightarrow> Err e))"

definition read_latest :: "crc_fn \<Rightarrow> pool \<Rightarrow> pool \<times> meta kresult" where
  "read_latest crc s =
     (case read_slot crc s META_PAGE of (s, a) \<Rightarrow>
      case read_slot crc s META_PAGE_B of (s, b) \<Rightarrow>
        (s, if a = Panic \<or> b = Panic then Panic else pick_meta a b))"

definition read_limits :: "crc_fn \<Rightarrow> pool \<Rightarrow> pool \<times> resource_limits option kresult" where
  "read_limits crc s =
     then_do (read_latest crc s) (\<lambda>s m.
     if meta_version m AND LIMITED = 0 then (s, Ok None)
     else let no = unat (generation m) mod 2 in
       with_read crc s no (\<lambda>b.
         obind (open_resident crc b (of_nat no)) (\<lambda>p.
         obind (page_slot p 1) (\<lambda>ext. obind (limits_decode ext) (\<lambda>l. Ok (Some l))))))"

section \<open>A slot as a list of records\<close>

definition slots_meta :: "u32 \<Rightarrow> bytes list \<Rightarrow> meta kresult" where
  "slots_meta no slots =
     (let bad = Corrupt no in
      if slots = [] then Err (bad ''meta page has no slots'')
      else let rec = slots ! 0; ext = slots ! 1; two = (length slots = 2) in
      if length rec < 2 then Err (bad ''meta record too short for format_version'')
      else let fv = from_le (take 2 rec) :: u16; base_version = fv AND NOT LIMITED in
      if base_version = 0 \<or> base_version > SUPPORTED_FORMAT_VERSION
      then Err (bad (if base_version = 0 then ZERO_FORMAT else FUTURE_FORMAT))
      else if length slots > 1 \<and> (\<not> two \<or> ext \<noteq> SALVAGED \<and> \<not> is_ok (limits_decode ext))
      then Err (bad ''invalid meta extension'')
      else if length rec < 34 then Err (bad ''meta record too short for format_version and roots'')
      else if fv AND LIMITED \<noteq> 0 \<and> \<not> two then Err (bad ''missing resource policy'')
      else obind (if fv AND LIMITED \<noteq> 0 then obind (limits_decode ext) (\<lambda>_. Ok ())
                  else if two \<and> ext \<noteq> SALVAGED then Err (bad ''resource policy without required format flag'') else Ok ()) (\<lambda>_.
      Ok \<lparr>meta_version = fv, roots = map (\<lambda>i. from_le (slice rec (2 + i * 4) (6 + i * 4))) [0..<8],
          meta_next_lsn = (if length rec \<ge> 42 then from_le (slice rec 34 42) else 0),
          generation = (if length rec \<ge> 50 then from_le (slice rec 42 50) else 0)\<rparr>))"

lemma from_page_slots:
  assumes "page_ok crc no b"
  shows "from_page b = slots_meta (of_nat no) (page_slots b)"
proof (cases "nentries b = 0")
  case True
  note o = open_inner_Ok [OF assms [unfolded page_ok_def open_resident_def]]
  have "page_slots b = []" using True by (metis length_0_conv length_page_slots)
  then show ?thesis using True o(3) by (simp add: from_page_def slots_meta_def page_page_no_def Let_def)
next
  case False
  note o = open_inner_Ok [OF assms [unfolded page_ok_def open_resident_def]]
  have s0: "page_slot b 0 = Ok (page_slots b ! 0)" using open_slot [OF assms] False by simp
  have ne: "page_slots b \<noteq> []" using False by (metis length_0_conv length_page_slots)
  have l: "length (page_slots b) = nentries b" by simp
  show ?thesis
  proof (cases "nentries b = 2")
    case True
    then have "page_slot b 1 = Ok (page_slots b ! 1)" using open_slot [OF assms, of 1] by simp
    then show ?thesis
      using True s0 ne o(3) by (simp add: from_page_def slots_meta_def page_page_no_def Let_def MAX_TREES_def)
  next
    case n2: False
    show ?thesis
      using n2 False s0 ne o(3) by (simp add: from_page_def slots_meta_def page_page_no_def Let_def MAX_TREES_def)
  qed
qed

section \<open>The record round trip\<close>

definition meta_ok :: "meta \<Rightarrow> bool" where
  "meta_ok m \<longleftrightarrow> (meta_version m = 1 \<or> meta_version m = 2) \<and> length (roots m) = 8"

lemma slice_concat_u32:
  "i < length xs \<Longrightarrow> slice (concat (map (to_le :: u32 \<Rightarrow> bytes) xs)) (i * 4) (i * 4 + 4) = to_le (xs ! i)"
proof (induction xs arbitrary: i)
  case (Cons x xs)
  show ?case
  proof (cases i)
    case 0
    then show ?thesis by (simp add: slice_append_left slice_whole)
  next
    case (Suc j)
    have "slice (to_le x @ concat (map to_le xs)) (i * 4) (i * 4 + 4) =
        slice (concat (map (to_le :: u32 \<Rightarrow> bytes) xs)) (j * 4) (j * 4 + 4)"
      using slice_append_right [of "to_le x" "i * 4" "concat (map to_le xs)" "i * 4 + 4"] Suc by (simp add: add.commute)
    then show ?thesis using Cons Suc by simp
  qed
qed simp

lemma length_concat_u32 [simp]: "length (concat (map (to_le :: u32 \<Rightarrow> bytes) xs)) = 4 * length xs"
  by (induction xs) simp_all

definition stamped :: "meta \<Rightarrow> resource_limits option \<Rightarrow> meta" where
  "stamped m lim = m\<lparr>meta_version := meta_version m OR (if lim \<noteq> None then LIMITED else 0)\<rparr>"

definition meta_slots :: "meta \<Rightarrow> resource_limits option \<Rightarrow> bytes list" where
  "meta_slots m lim = meta_record m (lim \<noteq> None) # (case lim of None \<Rightarrow> [] | Some l \<Rightarrow> [limits_encode l])"

lemma meta_record_fields:
  assumes "length (roots m) = 8"
  shows "length (meta_record m lim) = 50" "from_le (take 2 (meta_record m lim)) = meta_version m OR (if lim then LIMITED else 0)"
    "map (\<lambda>i. from_le (slice (meta_record m lim) (2 + i * 4) (6 + i * 4))) [0..<8] = roots m"
    "from_le (slice (meta_record m lim) 34 42) = meta_next_lsn m" "from_le (slice (meta_record m lim) 42 50) = generation m"
proof -
  let ?v = "to_le (meta_version m OR (if lim then LIMITED else 0)) :: bytes" and ?rs = "concat (map to_le (roots m))"
  let ?t = "to_le (meta_next_lsn m) @ to_le (generation m)"
  have r: "meta_record m lim = ?v @ ?rs @ ?t" by (simp add: meta_record_def)
  show "length (meta_record m lim) = 50" using assms by (simp add: r)
  show "from_le (take 2 (meta_record m lim)) = meta_version m OR (if lim then LIMITED else 0)" by (simp add: r)
  show "from_le (slice (meta_record m lim) 34 42) = meta_next_lsn m" "from_le (slice (meta_record m lim) 42 50) = generation m"
    using assms by (simp_all add: r slice_append_right slice_append_left slice_whole)
  have "slice (meta_record m lim) (2 + i * 4) (6 + i * 4) = to_le (roots m ! i)" if "i < 8" for i
  proof -
    have "slice (meta_record m lim) (2 + i * 4) (6 + i * 4) = slice (?rs @ ?t) (i * 4) (i * 4 + 4)"
      using slice_append_right [of ?v "2 + i * 4" "?rs @ ?t" "6 + i * 4"] by (simp add: r add.commute)
    also have "\<dots> = slice ?rs (i * 4) (i * 4 + 4)" using that assms by (intro slice_append_left) simp
    finally show ?thesis using slice_concat_u32 [of i "roots m"] that assms by simp
  qed
  then show "map (\<lambda>i. from_le (slice (meta_record m lim) (2 + i * 4) (6 + i * 4))) [0..<8] = roots m"
    using assms by (intro nth_equalityI) simp_all
qed

lemma slots_meta_roundtrip:
  assumes "meta_ok m" "\<forall>l. lim = Some l \<longrightarrow> limits_validate l = Ok l"
  shows "slots_meta no (meta_slots m lim) = Ok (stamped m lim)"
proof -
  note f = meta_record_fields [of m "lim \<noteq> None"]
  have rt: "length (roots m) = 8" and v: "meta_version m = 1 \<or> meta_version m = 2" using assms(1) by (auto simp: meta_ok_def)
  have base: "(meta_version m OR (if lim \<noteq> None then LIMITED else 0)) AND NOT LIMITED = meta_version m"
    using v by (auto simp: LIMITED_def)
  have flag: "((meta_version m OR (if lim \<noteq> None then LIMITED else 0)) AND LIMITED \<noteq> 0) = (lim \<noteq> None)"
    using v by (auto simp: LIMITED_def)
  have small: "\<not> (meta_version m = 0 \<or> meta_version m > SUPPORTED_FORMAT_VERSION)" using v by (auto simp: SUPPORTED_FORMAT_VERSION_def)
  have m: "stamped m lim = \<lparr>meta_version = meta_version m OR (if lim \<noteq> None then LIMITED else 0), roots = roots m,
      meta_next_lsn = meta_next_lsn m, generation = generation m\<rparr>"
    by (cases m) (simp add: stamped_def)
  show ?thesis
  proof (cases lim)
    case None
    then show ?thesis
      using f(1-5) [OF rt] base flag small m by (simp add: slots_meta_def meta_slots_def Let_def)
  next
    case (Some l)
    have "limits_decode (limits_encode l) = Ok l" using limits_decode_encode assms(2) Some by simp
    then show ?thesis
      using Some f(1-5) [OF rt] base flag small m by (simp add: slots_meta_def meta_slots_def Let_def)
  qed
qed

section \<open>Writing a slot\<close>

text \<open>The image \<open>write_record\<close> leaves, from any page of the right size.\<close>

lemma meta_page_built:
  assumes "length b = PAGE_SIZE" "meta_ok m"
  obtains p p1 c where "page_init b PageMeta 0 (of_nat no) = Ok p" "insert_slot p 0 (meta_record m (lim \<noteq> None)) = Ok p1"
    "case lim of None \<Rightarrow> c = p1 | Some l \<Rightarrow> insert_slot p1 1 (limits_encode l) = Ok c"
    "page_ok crc no (finalise c 0)" "page_slots (finalise c 0) = meta_slots m lim" "page_kind_of (finalise c 0) = Ok PageMeta"
proof -
  let ?r = "meta_record m (lim \<noteq> None)"
  have lr: "length ?r = 50" using assms(2) by (simp add: meta_record_fields(1) meta_ok_def)
  obtain p where p: "page_init b PageMeta 0 (of_nat no) = Ok p" "page_wf p" "page_slots p = []"
      "page_header p PageMeta 0 (of_nat no)" "free_ptr p = 4096"
    using page_init_law [OF assms(1), of PageMeta 0 "of_nat no"] by auto
  have n0: "nentries p = 0" using arg_cong [OF p(3), of length] by simp
  have fs: "free_space p = 4056" by (simp add: free_space_def p(5) n0 layout_defs)
  obtain p1 where p1: "insert_slot p 0 ?r = Ok p1" "page_wf p1" "page_slots p1 = [?r]" "free_space p1 = 4002"
      "page_header p1 PageMeta 0 (of_nat no)"
    using insert_slot_ok [OF p(2), of 0 ?r] p(3,4) fs lr by (auto simp: layout_defs)
  have v1: "format_version p1 = FORMAT_VERSION" using insert_slot_format [OF p(2) p1(1)] page_init_format [OF p(1)] by simp
  show thesis
  proof (cases lim)
    case None
    note f = finalised_ok [OF p1(2,5) v1]
    show ?thesis using that [OF p(1) p1(1), of p1] f p1(3) None by (simp add: meta_slots_def)
  next
    case (Some l)
    have n1: "nentries p1 = 1" using arg_cong [OF p1(3), of length] by simp
    obtain p2 where p2: "insert_slot p1 1 (limits_encode l) = Ok p2" "page_wf p2" "page_slots p2 = [?r, limits_encode l]"
        "page_header p2 PageMeta 0 (of_nat no)"
      using insert_slot_ok [OF p1(2), of 1 "limits_encode l"] p1(3,4,5) n1 by (auto simp: layout_defs)
    have "format_version p2 = FORMAT_VERSION" using insert_slot_format [OF p1(2) p2(1)] v1 by simp
    note f = finalised_ok [OF p2(2,4) this]
    show ?thesis using that [OF p(1) p1(1), of p2] f p2(1,3) Some by (simp add: meta_slots_def)
  qed
qed

definition meta_image :: "crc_fn \<Rightarrow> meta \<Rightarrow> resource_limits option \<Rightarrow> nat \<Rightarrow> bytes \<Rightarrow> bool" where
  "meta_image crc m lim no c \<longleftrightarrow>
     page_ok crc no c \<and> page_kind_of c = Ok PageMeta \<and> page_slots c = meta_slots m lim"

lemma write_record_idle:
  assumes "idle crc s" "holds crc s no b" "no < 2" "meta_ok m"
    and "write_record crc s (meta_record m (limits s \<noteq> None)) no = (s', r)"
  shows "r = Ok () \<and> idle crc s' \<and> (\<exists>c. holds crc s' no c \<and> meta_image crc m (limits s) no c) \<and>
    (\<forall>k d. k \<noteq> no \<and> holds crc s k d \<longrightarrow> holds crc s' k d) \<and> (\<forall>n. extent_within n s \<longrightarrow> extent_within n s')"
proof -
  obtain p p1 c where p: "page_init (replicate PAGE_SIZE 0) PageMeta 0 (of_nat no) = Ok p"
      "insert_slot p 0 (meta_record m (limits s \<noteq> None)) = Ok p1"
      "case limits s of None \<Rightarrow> c = p1 | Some l \<Rightarrow> insert_slot p1 1 (limits_encode l) = Ok c"
      "page_ok crc no (finalise c 0)" "page_slots (finalise c 0) = meta_slots m (limits s)" "page_kind_of (finalise c 0) = Ok PageMeta"
    using meta_page_built [OF _ assms(4), of "replicate PAGE_SIZE 0" no "limits s" crc] by auto
  have nf: "\<not> is_frozen s no" using assms(3) by (simp add: is_frozen_def)
  note w = with_write_idle [OF assms(1,2) nf assms(5) [unfolded write_record_def], of "finalise c 0" "Ok ()"]
  have k: "(case page_init b' PageMeta 0 (of_nat no) of
         Ok p \<Rightarrow> (case insert_slot p 0 (meta_record m (limits s \<noteq> None)) of
              Ok p1 \<Rightarrow> (case limits s of None \<Rightarrow> (finalise p1 0, Ok ())
                 | Some l \<Rightarrow> (case insert_slot p1 1 (limits_encode l) of
                        Ok p2 \<Rightarrow> (finalise p2 0, Ok ()) | Err e \<Rightarrow> (finalise p1 0, Err e) | Panic \<Rightarrow> (p1, Panic)))
            | Err e \<Rightarrow> (finalise p 0, Err e) | Panic \<Rightarrow> (p, Panic))
       | Err e \<Rightarrow> (b', Err e) | Panic \<Rightarrow> (b', Panic)) = (finalise c 0, Ok ())" if "page_ok crc no b'" for b'
    using page_init_any [OF page_ok_length [OF that]] p(1-3) by (cases "limits s") auto
  show ?thesis using w [OF conjI [OF k p(4)]] p(4-6) by (auto simp: meta_image_def)
qed

section \<open>Reading the slots\<close>

lemma read_opened_image:
  assumes "page_ok crc no b"
  shows "read_opened crc no b =
     (if page_kind_of b = Ok PageMeta then slots_meta (of_nat no) (page_slots b)
      else Err (Corrupt (of_nat no) ''slot is not a meta page''))"
proof -
  note o = open_inner_Ok [OF assms [unfolded page_ok_def open_resident_def]]
  obtain k where k: "page_kind_of b = Ok k" using o(8) by (auto simp: page_kind_of_def)
  show ?thesis
    using assms k by (simp add: read_opened_def page_ok_def from_page_slots [OF assms])
qed

lemma read_slot_with_read:
  assumes "with_read crc s no (read_opened crc no) = (t, q)"
  shows "(\<exists>u i. pool_get crc s no = (u, Ok i)) \<Longrightarrow> read_slot crc s no = (t, q)"
    and "(\<And>n. q \<noteq> Err (Corrupt n ''unknown format version'')) \<Longrightarrow> read_slot crc s no = (t, q)"
    and "pool_get crc s no = (u, Err e) \<Longrightarrow> t = u \<and> q = Err e"
proof -
  obtain v x where g: "pool_get crc s no = (v, x)" by fastforce
  show "read_slot crc s no = (t, q)" if "\<exists>u i. pool_get crc s no = (u, Ok i)"
    using that assms by (auto simp: read_slot_def with_read_def split: outcome.splits)
  show "pool_get crc s no = (u, Err e) \<Longrightarrow> t = u \<and> q = Err e"
    using assms by (simp add: with_read_def)
  show "read_slot crc s no = (t, q)" if n: "\<And>n. q \<noteq> Err (Corrupt n ''unknown format version'')"
  proof (cases x)
    case (Ok i)
    then show ?thesis using assms g by (auto simp: read_slot_def with_read_def split: outcome.splits)
  next
    case (Err e)
    then have "t = v" "q = Err e" using assms g by (simp_all add: with_read_def)
    then show ?thesis using n g Err by (cases e) (simp_all add: read_slot_def)
  next
    case Panic
    then show ?thesis using assms g by (simp add: read_slot_def with_read_def)
  qed
qed

lemma read_slot_idle:
  assumes "idle crc s" "holds crc s no b" "read_slot crc s no = (s', r)"
    and "\<And>n why. read_opened crc no b = Err (Corrupt n why) \<Longrightarrow> why \<noteq> ''unknown format version''"
  shows "r = read_opened crc no b" "idle crc s'" "holds crc s k c \<Longrightarrow> holds crc s' k c"
proof -
  obtain t q where w: "with_read crc s no (read_opened crc no) = (t, q)" by fastforce
  obtain b' where b': "q = read_opened crc no b'" "page_ok crc no b'" "page_body b' = page_body b" "reads_only crc s t"
    by (rule with_read_idle [OF assms(1,2) w])
  have pb: "page_ok crc no b" using assms(2) by (simp add: holds_def)
  have q: "q = read_opened crc no b"
    using b'(1) body_slots [OF b'(2) pb b'(3)] by (simp add: read_opened_image b'(2) pb)
  have "(s', r) = (t, q)" using read_slot_with_read(2) [OF w] assms(3,4) q by auto
  then show "r = read_opened crc no b" "idle crc s'" "holds crc s k c \<Longrightarrow> holds crc s' k c"
    using q reads_only_idle [OF b'(4)] reads_only_holds [OF b'(4)] by auto
qed

text \<open>What the other slot may hold when a generation is published: an earlier one, or nothing yet.\<close>

definition older_slot :: "crc_fn \<Rightarrow> nat \<Rightarrow> u64 \<Rightarrow> bytes \<Rightarrow> bool" where
  "older_slot crc no gen b \<longleftrightarrow>
     (\<exists>m. read_opened crc no b = Ok m \<and> generation m < gen) \<or>
     read_opened crc no b = Err (Corrupt (of_nat no) ''meta page has no slots'')"

lemma pick_meta_newest:
  assumes "a = Ok m" "(\<exists>m'. b = Ok m' \<and> generation m' < generation m) \<or> b = Err (Corrupt n ''meta page has no slots'')"
  shows "pick_meta a b = Ok m" "pick_meta b a = Ok m"
  using assms by (auto simp: pick_meta_def refuses_def FUTURE_FORMAT_def ZERO_FORMAT_def)

lemma read_latest_idle:
  assumes "idle crc s" "holds crc s (if g then 0 else 1) b" "holds crc s (if g then 1 else 0) c"
    and "read_opened crc (if g then 0 else 1) b = Ok m" "older_slot crc (if g then 1 else 0) (generation m) c"
    and "read_latest crc s = (s', r)"
  shows "r = Ok m"
proof -
  let ?ra = "read_opened crc 0 (if g then b else c)" and ?rb = "read_opened crc 1 (if g then c else b)"
  have ha: "holds crc s 0 (if g then b else c)" and hb: "holds crc s 1 (if g then c else b)"
    using assms(2,3) by (cases g; simp)+
  have err: "why \<noteq> ''unknown format version''" if "?ra = Err (Corrupt n why) \<or> ?rb = Err (Corrupt n why)" for n why
    using that assms(4,5) by (cases g) (auto simp: older_slot_def)
  obtain t ra where a: "read_slot crc s META_PAGE = (t, ra)" by fastforce
  obtain u rb where b: "read_slot crc t META_PAGE_B = (u, rb)" by fastforce
  note fa = read_slot_idle [OF assms(1) ha a [unfolded META_PAGE_def]]
  have ra: "ra = ?ra" "idle crc t" "holds crc t 1 (if g then c else b)" using fa err hb by blast+
  have rb: "rb = ?rb" using read_slot_idle(1) [OF ra(2,3) b [unfolded META_PAGE_B_def]] err by blast
  have np: "ra \<noteq> Panic" "rb \<noteq> Panic" using ra(1) rb assms(4,5) by (cases g; auto simp: older_slot_def)+
  have "pick_meta ra rb = Ok m"
  proof (cases g)
    case True
    then show ?thesis using pick_meta_newest(1) [of ra m rb 1] ra(1) rb assms(4,5) by (auto simp: older_slot_def)
  next
    case False
    then show ?thesis using pick_meta_newest(2) [of rb m ra 0] ra(1) rb assms(4,5) by (auto simp: older_slot_def)
  qed
  then show ?thesis using assms(6) a b np by (simp add: read_latest_def)
qed

text \<open>
  C8: Publication is durable. On an idle pool over a healthy device, with a well-formed superblock
  \<open>m\<close> and an older or empty other slot, \<open>write_slot\<close> and the flush that follows it succeed, and a pool
  opened on the resulting file reads \<open>m\<close> back as the latest superblock, with the flag of the
  resource policy that was in force.
\<close>

theorem publication_durable:
  assumes "idle crc s" "meta_ok m" "\<forall>l. limits s = Some l \<longrightarrow> limits_validate l = Ok l"
    and "holds crc s (unat (generation m) mod 2) b" "holds crc s (1 - unat (generation m) mod 2) c"
    and "older_slot crc (1 - unat (generation m) mod 2) (generation m) c"
    and "write_slot crc s m = (s1, r1)" "flush_all crc s1 barrier = (s2, r2)"
    and "pool_new (pool_file s2) ceiling used n cells = Ok t" "n > 0" "read_latest crc t = (t', r)"
  shows "r1 = Ok () \<and> r2 = Ok () \<and> r = Ok (stamped m (limits s))"
proof -
  define no where "no = unat (generation m) mod 2"
  have no: "no < 2" "no = 0 \<or> no = 1" by (auto simp: no_def)
  have ws: "write_record crc s (meta_record m (limits s \<noteq> None)) no = (s1, r1)"
    using assms(7) no by (auto simp: write_slot_def no_def META_PAGE_def META_PAGE_B_def split: if_splits)
  obtain d where w: "r1 = Ok ()" "idle crc s1" "holds crc s1 no d" "meta_image crc m (limits s) no d" "holds crc s1 (1 - no) c"
  proof -
    have b: "holds crc s no b" and c: "holds crc s (1 - no) c" "1 - no \<noteq> no" using assms(4,5) no by (auto simp: no_def)
    from write_record_idle [OF assms(1) b no(1) assms(2) ws] c show thesis using that by blast
  qed
  note f = flush_idle [OF w(2) assms(8)]
  have hl: "healthy (pool_file s2)" using f(2) by (simp add: idle_def)
  note pn = pool_new_idle [OF assms(9) hl assms(10), where crc = crc]
  have ht: "holds crc t no d" "holds crc t (1 - no) c"
    using pn(2) f(3) [OF w(3)] f(3) [OF w(5)] w(3,5) by (auto simp: holds_def)
  have ro: "read_opened crc no d = Ok (stamped m (limits s))"
    using w(4) slots_meta_roundtrip [OF assms(2,3)] by (simp add: meta_image_def read_opened_image)
  have "generation (stamped m (limits s)) = generation m" by (simp add: stamped_def)
  then have "r = Ok (stamped m (limits s))"
    using read_latest_idle [OF pn(1), of "no = 0" d c "stamped m (limits s)" t' r] ht ro assms(6,11) no
    by (auto simp: no_def [symmetric])
  then show ?thesis using w(1) f(1) by simp
qed

section \<open>Opening after a crash\<close>

text \<open>A pool that has nothing to write: reading through it leaves the file alone.\<close>

definition quiet :: "crc_fn \<Rightarrow> pool \<Rightarrow> posix_file \<Rightarrow> bool" where
  "quiet crc s f \<longleftrightarrow> idle crc s \<and> pool_file s = f \<and> (\<forall>i < length (frames s). clean (frames s ! i))"

lemma clean_update: "\<forall>i < length fs. clean (fs ! i) \<Longrightarrow> clean f \<Longrightarrow> \<forall>i < length fs. clean (fs[k := f] ! i)"
  by (metis nth_list_update_eq nth_list_update_neq)

lemma victim_loop_clean:
  assumes "victim_loop crc k s = (s', r)" "\<forall>i < length (frames s). clean (frames s ! i)"
  shows "pool_file s' = pool_file s \<and> (\<forall>i < length (frames s'). clean (frames s' ! i))"
  using assms
proof (induction k arbitrary: s)
  case (Suc k)
  define t where "t = s\<lparr>sweep_steps := sweep_steps s + 1, hand := (hand s + 1) mod length (frames s)\<rparr>"
  let ?f = "frames s ! hand s"
  have t: "frames t = frames s" "pool_file t = pool_file s" by (simp_all add: t_def)
  have e: "victim_loop crc (Suc k) s =
     (if \<not> hand s < length (frames s) then (t, Panic)
      else if pins ?f > 0 then victim_loop crc k t
      else if \<not> present ?f then (t, Ok (hand s))
      else if referenced ?f then victim_loop crc k (set_frame t (hand s) (?f\<lparr>referenced := False\<rparr>))
      else then_do (if dirty ?f then write_back crc t (hand s) else (t, Ok ())) (\<lambda>s' _. (evict s' (hand s), Ok (hand s))))"
    by (simp add: Let_def t_def)
  show ?case
  proof (cases "hand s < length (frames s)")
    case True
    then have cl: "clean ?f" using Suc.prems(2) by blast
    have "\<forall>i < length (frames s). clean ((frames s)[hand s := ?f\<lparr>referenced := False\<rparr>] ! i)"
      "\<forall>i < length (frames s). clean ((frames s)[hand s := ?f\<lparr>present := False\<rparr>] ! i)"
    proof -
      have "clean (?f\<lparr>referenced := False\<rparr>)" "clean (?f\<lparr>present := False\<rparr>)" using cl by (auto simp: clean_def)
      from this [THEN clean_update [OF Suc.prems(2)]]
      show "\<forall>i < length (frames s). clean ((frames s)[hand s := ?f\<lparr>referenced := False\<rparr>] ! i)"
        "\<forall>i < length (frames s). clean ((frames s)[hand s := ?f\<lparr>present := False\<rparr>] ! i)" by blast+
    qed
    note cu = this
    let ?r = "set_frame t (hand s) (?f\<lparr>referenced := False\<rparr>)" and ?e = "evict t (hand s)"
    have r: "pool_file ?r = pool_file s" "frames ?r = (frames s)[hand s := ?f\<lparr>referenced := False\<rparr>]"
      by (simp_all add: set_frame_def t)
    have v: "pool_file ?e = pool_file s" "frames ?e = (frames s)[hand s := ?f\<lparr>present := False\<rparr>]"
      by (simp_all add: evict_def set_frame_def Let_def t)
    consider "pins ?f > 0" | "pins ?f = 0" "\<not> present ?f" | "pins ?f = 0" "present ?f" "referenced ?f"
      | "pins ?f = 0" "present ?f" "\<not> referenced ?f" by blast
    then show ?thesis
    proof cases
      case 1
      then show ?thesis using Suc.IH [of t] Suc.prems True e by (simp add: t)
    next
      case 2
      then show ?thesis using Suc.prems True e by (simp add: t)
    next
      case 3
      then show ?thesis using Suc.IH [of ?r] Suc.prems(1) True e cu(1) by (simp add: r)
    next
      case 4
      then have "s' = ?e" using Suc.prems(1) True e cl by (simp add: clean_def)
      then show ?thesis using cu(2) by (simp add: v)
    qed
  qed (use Suc.prems e t in auto)
qed auto

lemma with_read_quiet:
  assumes "quiet crc s f" "table s no = None" "length (disk_page f no) = PAGE_SIZE" "with_read crc s no k = (s', r)"
  shows "quiet crc s' f" "m \<noteq> no \<Longrightarrow> table s m = None \<Longrightarrow> table s' m = None"
    "r = (case page_open crc (disk_page f no) (of_nat no) of Ok _ \<Rightarrow> k (disk_page f no) | Err e \<Rightarrow> Err e | Panic \<Rightarrow> Panic)"
proof -
  let ?s = "s\<lparr>stats := (stats s)\<lparr>misses := misses (stats s) + 1\<rparr>\<rparr>" and ?d = "disk_page f no"
  have id: "idle crc s" "pool_file s = f" "\<forall>i < length (frames s). clean (frames s ! i)" using assms(1) by (auto simp: quiet_def)
  have inv: "pool_inv crc s" "healthy f" "frames s \<noteq> []" "live_pins s = 0" using id(1,2) by (auto simp: idle_def)
  have k0: "keeps crc s ?s" using inv(1) by (intro keeps_bookkeeping) (auto simp: pool_inv_def)
  obtain t q where v: "victim crc ?s = (t, q)" by fastforce
  note kt = keeps_trans [OF k0 victim_keeps(1) [OF v keeps_inv [OF k0]]]
  have ft: "pool_file t = f" "\<forall>i < length (frames t). clean (frames t ! i)"
    using victim_loop_clean [OF v [unfolded victim_def]] id(2,3) by auto
  obtain i where i: "q = Ok i"
    using victim_healthy [OF v keeps_inv [OF k0], of 0] inv(2,3) id(2) idle_pins [OF id(1), of 0] by auto
  have ti: "pool_inv crc t" "length (frames t) = length (frames s)" "live_pins t = 0" using kt inv(4) by (simp_all add: keeps_def)
  have tn: "table s x = None \<Longrightarrow> table t x = None" for x using kt by (auto simp: keeps_def dest: map_le_None)
  have it: "i < length (frames t)" "\<not> present (frames t ! i)" using victim_keeps(3) [OF v keeps_inv [OF k0] i] by auto
  have rd: "read_at (pool_file t) (page_at no) PAGE_SIZE = Ok ?d"
    using assms(3) disk_page_full healthy_read [OF inv(2)] ft(1) by (simp add: disk_page_def)
  let ?u = "t\<lparr>region := (region t)[i := ?d]\<rparr>"
  have ku: "keeps crc t ?u" by (rule keeps_fill [OF ti(1) it])
  let ?all = "quiet crc s' f \<and> (\<forall>m. m \<noteq> no \<and> table s m = None \<longrightarrow> table s' m = None) \<and>
    r = (case page_open crc ?d (of_nat no) of Ok _ \<Rightarrow> k ?d | Err e \<Rightarrow> Err e | Panic \<Rightarrow> Panic)"
  have ?all
  proof (cases "page_open crc ?d (of_nat no)")
    case (Ok c)
    note so = page_open_Ok [OF Ok]
    define w where "w = install ?u i no False False"
    have l: "load crc s no False = (w, Ok i)"
      using v i rd Ok assms(2) by (simp add: load_def Let_def w_def)
    have b: "\<not> False \<longrightarrow> ?d = disk_page (pool_file t) no \<and> sealed_ok crc no ?d" using so ft(1) by simp
    note g = install_facts [OF ti(1) it tn [OF assms(2)] _ _ b w_def]
    have g': "pool_inv crc w" "region w ! i = ?d" "frames w = (frames t)[i := new_frame no False False]" "pool_file w = pool_file t"
        "live_pins w = live_pins t + 1" "table w = (table t)(no \<mapsto> i)"
      using g sealed_ok_page_ok [OF so] by simp_all
    obtain x where x: "unpin w i False = Ok x" "pool_inv crc x" "live_pins x = live_pins w - 1" "table x = table w"
        "pool_file x = pool_file w" "length (frames x) = length (frames w)"
        "frames x = (frames w)[i := (frames w ! i)\<lparr>pins := pins (frames w ! i) - 1, frame_writer := False\<rparr>]"
      by (rule unpin_facts [OF g'(1), of i False]) (use it(1) g'(3) in \<open>simp_all add: new_frame_def\<close>)
    then have "frames x = (frames t)[i := (new_frame no False False)\<lparr>pins := 0\<rparr>]"
      using it(1) by (simp add: g'(3) new_frame_def)
    moreover have "clean ((new_frame no False False)\<lparr>pins := 0\<rparr>)" by (simp add: clean_def new_frame_def)
    ultimately have "\<forall>j < length (frames x). clean (frames x ! j)"
      using clean_update [OF ft(2)] by simp
    moreover have "frames x \<noteq> []" using x(6) g'(3) ti(2) inv(3) by auto
    ultimately have "quiet crc x f" using x(2,3,5) g'(4,5) ft(1) ti(3) inv(2) by (simp add: quiet_def idle_def)
    moreover have "s' = x" "r = k ?d" using assms(4) l x(1) g'(2) by (simp_all add: with_read_def pool_get_def)
    ultimately show ?thesis using Ok x(4) g'(6) tn by simp
  next
    case (Err e)
    have l: "load crc s no False = (?u, Err e)" using v i rd Err assms(2) by (simp add: load_def Let_def)
    then have e: "s' = ?u" "r = Err e" using assms(4) by (simp_all add: with_read_def pool_get_def)
    have "quiet crc ?u f"
      using keeps_inv [OF ku] ft ti(2,3) inv(2,3) by (auto simp: quiet_def idle_def)
    then show ?thesis using e Err tn by simp
  next
    case Panic
    then show ?thesis by (auto simp: page_open_def open_inner_def Let_def split: if_splits)
  qed
  then show "quiet crc s' f" "m \<noteq> no \<Longrightarrow> table s m = None \<Longrightarrow> table s' m = None"
    "r = (case page_open crc ?d (of_nat no) of Ok _ \<Rightarrow> k ?d | Err e \<Rightarrow> Err e | Panic \<Rightarrow> Panic)"
    by blast+
qed

text \<open>What a slot's bytes on disk mean.\<close>

definition disk_slot :: "crc_fn \<Rightarrow> nat \<Rightarrow> bytes \<Rightarrow> meta kresult" where
  "disk_slot crc no d =
     (case page_open crc d (of_nat no) of
        Ok _ \<Rightarrow> read_opened crc no d
      | Err (Corrupt n why) \<Rightarrow>
          if why = ''unknown format version''
          then Err (Corrupt (of_nat no) (if checksum crc d = rd_u32 d 36 then ''unknown format version'' else ''checksum mismatch''))
          else Err (Corrupt n why)
      | Err e \<Rightarrow> Err e
      | Panic \<Rightarrow> Panic)"

lemma read_slot_quiet:
  assumes "quiet crc s f" "table s no = None" "length (disk_page f no) = PAGE_SIZE" "read_slot crc s no = (s', r)"
  shows "quiet crc s' f" "m \<noteq> no \<Longrightarrow> table s m = None \<Longrightarrow> table s' m = None" "r = disk_slot crc no (disk_page f no)"
proof -
  obtain t q where w: "with_read crc s no (read_opened crc no) = (t, q)" by fastforce
  note wr = with_read_quiet [OF assms(1-3) w]
  let ?d = "disk_page f no"
  have ft: "pool_file t = f" "healthy f" using wr(1) by (auto simp: quiet_def idle_def)
  have rd: "read_at f (page_at no) PAGE_SIZE = Ok ?d"
    using assms(3) disk_page_full healthy_read [OF ft(2)] by (simp add: disk_page_def)
  obtain v x where g: "pool_get crc s no = (v, x)" by fastforce
  have "s' = t \<and> r = disk_slot crc no ?d"
  proof (cases "page_open crc ?d (of_nat no)")
    case (Ok c)
    then have "q \<noteq> Err (Corrupt n ''unknown format version'')" for n
      using wr(3) read_opened_image [OF sealed_ok_page_ok [OF page_open_Ok [OF Ok]]]
      by (auto simp: slots_meta_def Let_def obind_iffs FUTURE_FORMAT_def ZERO_FORMAT_def limits_decode_def small_at_def
          limits_validate_def total_bytes_def split: if_splits)
    then show ?thesis using read_slot_with_read(2) [OF w] assms(4) Ok wr(3) by (simp add: disk_slot_def)
  next
    case (Err e)
    have "x = Err e"
    proof -
      obtain y where "with_read crc s no (\<lambda>_. Ok ()) = y" by simp
      then have "snd (with_read crc s no (\<lambda>_. Ok ())) = Err e"
        using with_read_quiet(3) [OF assms(1-3), of "\<lambda>_. Ok ()"] Err by (cases y) simp
      then show ?thesis using g by (cases x) (auto simp: with_read_def split: outcome.splits)
    qed
    then have "t = v" "read_slot crc s no = (case (v, Err e :: nat kresult) of (s', Err (Corrupt n why)) \<Rightarrow>
          if why = ''unknown format version''
          then (s', Err (Corrupt (of_nat no) (if checksum crc ?d = rd_u32 ?d 36 then ''unknown format version'' else ''checksum mismatch'')))
          else (s', Err (Corrupt n why)) | (s', Err e) \<Rightarrow> (s', Err e) | (s', _) \<Rightarrow> (s', Panic))"
      using read_slot_with_read(3) [OF w] g ft(1) rd by (auto simp: read_slot_def split: kerror.splits)
    then show ?thesis using assms(4) Err by (auto simp: disk_slot_def split: kerror.splits)
  next
    case Panic
    then show ?thesis by (auto simp: page_open_def open_inner_def Let_def split: if_splits)
  qed
  then show "quiet crc s' f" "m \<noteq> no \<Longrightarrow> table s m = None \<Longrightarrow> table s' m = None" "r = disk_slot crc no ?d"
    using wr(1,2) by auto
qed

lemma read_latest_disk:
  assumes "pool_new f ceiling used n cells = Ok t" "n > 0" "healthy f"
    and "length (disk_page f 0) = PAGE_SIZE" "length (disk_page f 1) = PAGE_SIZE" "read_latest crc t = (t', r)"
  shows "r = (let a = disk_slot crc 0 (disk_page f 0); b = disk_slot crc 1 (disk_page f 1) in
              if a = Panic \<or> b = Panic then Panic else pick_meta a b)"
proof -
  note p = pool_new_facts [OF assms(1)]
  have q: "quiet crc t f"
    using pool_new_idle(1) [OF assms(1,3,2)] p(3,4) by (auto simp: quiet_def clean_def empty_frame_def)
  obtain u a where a: "read_slot crc t META_PAGE = (u, a)" by fastforce
  obtain v b where b: "read_slot crc u META_PAGE_B = (v, b)" by fastforce
  have t0: "table t k = None" for k by (simp add: p(6))
  note ra = read_slot_quiet [OF q t0 assms(4) a [unfolded META_PAGE_def]]
  have t1: "table u 1 = None" using ra(2) [of 1] t0 by simp
  note rb = read_slot_quiet [OF ra(1) t1 assms(5) b [unfolded META_PAGE_B_def]]
  show ?thesis using assms(6) a b ra(3) rb(3) by (simp add: read_latest_def Let_def)
qed

text \<open>Slots that lose silently, and slots that refuse the store.\<close>

definition damaged_slot :: "crc_fn \<Rightarrow> bytes \<Rightarrow> bool" where
  "damaged_slot crc d \<longleftrightarrow> rd_u32 d 0 \<noteq> PAGE_MAGIC \<or> checksum crc d \<noteq> rd_u32 d 36"

definition future_slot :: "crc_fn \<Rightarrow> nat \<Rightarrow> bytes \<Rightarrow> bool" where
  "future_slot crc no d \<longleftrightarrow>
     rd_u32 d 0 = PAGE_MAGIC \<and> rd_u16 d 4 \<noteq> PAGE_VERSION \<and> checksum crc d = rd_u32 d 36 \<or>
     sealed_ok crc no d \<and> page_kind_of d = Ok PageMeta \<and> page_slots d \<noteq> [] \<and> 2 \<le> length (hd (page_slots d)) \<and>
     SUPPORTED_FORMAT_VERSION < from_le (take 2 (hd (page_slots d))) AND NOT LIMITED"

lemma damaged_slot_loses:
  assumes "damaged_slot crc d" "length d = PAGE_SIZE"
  shows "\<exists>why. disk_slot crc no d = Err (Corrupt (of_nat no) why) \<and> (why = ''bad magic'' \<or> why = ''checksum mismatch'')"
  using assms by (auto simp: damaged_slot_def disk_slot_def page_open_def open_inner_def Let_def)

lemma future_slot_refuses:
  assumes "future_slot crc no d" "length d = PAGE_SIZE"
  shows "\<exists>why. disk_slot crc no d = Err (Corrupt (of_nat no) why) \<and> (why = FUTURE_FORMAT \<or> why = ''unknown format version'')"
proof -
  consider (phys) "rd_u32 d 0 = PAGE_MAGIC" "rd_u16 d 4 \<noteq> PAGE_VERSION" "checksum crc d = rd_u32 d 36"
    | (logical) "sealed_ok crc no d" "page_kind_of d = Ok PageMeta" "page_slots d \<noteq> []" "2 \<le> length (page_slots d ! 0)"
        "SUPPORTED_FORMAT_VERSION < from_le (take 2 (page_slots d ! 0)) AND NOT LIMITED"
    using assms(1) by (auto simp: future_slot_def hd_conv_nth)
  then show ?thesis
  proof cases
    case phys
    then show ?thesis using assms(2) by (simp add: disk_slot_def page_open_def open_inner_def Let_def)
  next
    case logical
    have "slots_meta (of_nat no) (page_slots d) = Err (Corrupt (of_nat no) FUTURE_FORMAT)"
      using logical(3-5) by (auto simp: slots_meta_def Let_def SUPPORTED_FORMAT_VERSION_def)
    then have "read_opened crc no d = Err (Corrupt (of_nat no) FUTURE_FORMAT)"
      using logical(2) by (simp add: read_opened_image [OF sealed_ok_page_ok [OF logical(1)]])
    moreover have "page_open crc d (of_nat no) = Ok d" using logical(1) by (simp add: sealed_ok_def)
    ultimately show ?thesis by (simp add: disk_slot_def FUTURE_FORMAT_def)
  qed
qed

lemma disk_slot_not_Panic: "disk_slot crc no d \<noteq> Panic"
proof (cases "page_open crc d (of_nat no)")
  case (Ok c)
  note so = page_open_Ok [OF Ok]
  have "limits_decode x \<noteq> Panic" for x
    by (auto simp: limits_decode_def small_at_def limits_validate_def total_bytes_def obind_iffs split: if_splits)
  then have "slots_meta (of_nat no) (page_slots d) \<noteq> Panic"
    by (auto simp: slots_meta_def Let_def obind_iffs)
  then have "read_opened crc no d \<noteq> Panic" by (simp add: read_opened_image [OF sealed_ok_page_ok [OF so]])
  then show ?thesis using Ok by (auto simp: disk_slot_def split: outcome.splits kerror.splits)
next
  case (Err e)
  then show ?thesis by (cases e) (auto simp: disk_slot_def)
next
  case Panic
  then show ?thesis by (auto simp: page_open_def open_inner_def Let_def split: if_splits)
qed

text \<open>
  C13: A torn publication loses only itself. When one slot is intact and holds \<open>m\<close>, and the other
  one is damaged (its magic or its checksum is wrong), opening the file reads \<open>m\<close>, whichever slot it is.
\<close>

theorem torn_publication_survives:
  assumes "pool_new f ceiling used n cells = Ok t" "n > 0" "healthy f" "no < 2"
    and "length (disk_page f 0) = PAGE_SIZE" "length (disk_page f 1) = PAGE_SIZE"
    and "disk_slot crc no (disk_page f no) = Ok m" "damaged_slot crc (disk_page f (1 - no))" "read_latest crc t = (t', r)"
  shows "r = Ok m"
proof -
  note rl = read_latest_disk [OF assms(1-3,5,6,9)]
  have no: "no = 0 \<or> no = 1" using assms(4) by auto
  then have "length (disk_page f (1 - no)) = PAGE_SIZE" using assms(5,6) by auto
  then obtain why where w: "disk_slot crc (1 - no) (disk_page f (1 - no)) = Err (Corrupt (of_nat (1 - no)) why)"
      "why = ''bad magic'' \<or> why = ''checksum mismatch''"
    using damaged_slot_loses [OF assms(8)] by blast
  show ?thesis using no w assms(7) rl by (auto simp: pick_meta_def refuses_def FUTURE_FORMAT_def ZERO_FORMAT_def)
qed


section \<open>Sample stores\<close>

definition blank_slot :: "nat \<Rightarrow> bytes" where
  "blank_slot no = (case page_init (replicate PAGE_SIZE 0) PageMeta 0 (of_nat no) of Ok b \<Rightarrow> finalise b 0 | _ \<Rightarrow> [])"

lemma blank_slot_facts:
  "page_ok crc no (blank_slot no)" "read_opened crc no (blank_slot no) = Err (Corrupt (of_nat no) ''meta page has no slots'')"
proof -
  obtain b where b: "page_init (replicate PAGE_SIZE 0) PageMeta 0 (of_nat no) = Ok b" "page_wf b" "page_slots b = []"
      "page_header b PageMeta 0 (of_nat no)"
    using page_init_law [of "replicate PAGE_SIZE 0" PageMeta 0 "of_nat no"] by auto
  note f = finalised_ok [OF b(2,4) page_init_format [OF b(1)]]
  show "page_ok crc no (blank_slot no)" using f(1) by (simp add: blank_slot_def b(1))
  show "read_opened crc no (blank_slot no) = Err (Corrupt (of_nat no) ''meta page has no slots'')"
    using f b(3) by (simp add: blank_slot_def b(1) read_opened_image slots_meta_def Let_def)
qed

definition two_pages :: "bytes \<Rightarrow> bytes \<Rightarrow> posix_file" where
  "two_pages b c = good_file (b @ c)"

lemma two_pages_facts:
  assumes "length b = PAGE_SIZE" "length c = PAGE_SIZE"
  shows "disk_page (two_pages b c) 0 = b" "disk_page (two_pages b c) 1 = c" "healthy (two_pages b c)"
    "length (contents (two_pages b c)) = 2 * PAGE_SIZE"
  using assms by (simp_all add: two_pages_def disk_page_def page_at_def slice_def)

lemma two_page_pool:
  assumes "healthy f" "length (contents f) = 2 * PAGE_SIZE"
  shows "\<exists>s. pool_new f 8192 0 1 False = Ok s"
  using assms
  by (auto simp: pool_new_def file_len_def healthy_def PAGE_SIZE_def reserve_next_def checked_add_u64_def Let_def)

definition sample_meta :: meta where
  "sample_meta = \<lparr>meta_version = 2, roots = replicate 8 0, meta_next_lsn = 1, generation = 1\<rparr>"

theorem publication_durable_witness:
  "\<exists>s s1 s2 t t'. pool_new (two_pages (seal crc32c_append (blank_slot 0) 0) (seal crc32c_append (blank_slot 1) 0)) 8192 0 1 False = Ok s \<and>
     write_slot crc32c_append s sample_meta = (s1, Ok ()) \<and> flush_all crc32c_append s1 BarrierFull = (s2, Ok ()) \<and>
     pool_new (pool_file s2) 8192 0 1 False = Ok t \<and> read_latest crc32c_append t = (t', Ok sample_meta)"
proof -
  let ?c = crc32c_append and ?b = "\<lambda>no. seal crc32c_append (blank_slot no) 0"
  let ?f = "two_pages (?b 0) (?b 1)"
  have so: "sealed_ok ?c no (?b no)" for no by (rule seal_ok [OF blank_slot_facts(1)])
  note f = two_pages_facts [OF sealed_ok_length [OF so] sealed_ok_length [OF so]]
  obtain s where s: "pool_new ?f 8192 0 1 False = Ok s" using two_page_pool [OF f(3,4)] by blast
  have len: "length (blank_slot no) = PAGE_SIZE" for no by (rule page_ok_length [OF blank_slot_facts(1)])
  have dv: "disk_view ?c ?f no = Some (page_body (blank_slot no))" if "no = 0 \<or> no = 1" for no
    using that so f(1,2) seal_body [OF len] by (auto simp: disk_view_def)
  note pn = pool_new_idle [OF s f(3)]
  have h: "idle ?c s" "holds ?c s 1 (blank_slot 1)" "holds ?c s 0 (blank_slot 0)"
    using pn blank_slot_facts(1) dv by simp_all
  have lim: "limits s = None" using s by (auto simp: pool_new_def Let_def obind_iffs split: if_splits)
  obtain s1 r1 where w: "write_slot ?c s sample_meta = (s1, r1)" by fastforce
  obtain s2 r2 where fl: "flush_all ?c s1 BarrierFull = (s2, r2)" by fastforce
  have ok: "meta_ok sample_meta" by (simp add: meta_ok_def sample_meta_def)
  have odd: "unat (generation sample_meta) mod 2 = 1" by (simp add: sample_meta_def)
  have older: "older_slot ?c (1 - unat (generation sample_meta) mod 2) (generation sample_meta) (blank_slot 0)"
    unfolding odd older_slot_def using blank_slot_facts(2) [of ?c 0] by simp
  have wr: "write_record ?c s (meta_record sample_meta (limits s \<noteq> None)) 1 = (s1, r1)"
    using w odd by (simp add: write_slot_def META_PAGE_B_def)
  have e2: "extent_within 2 s" using f(4) pool_new_facts(4,6) [OF s] by (simp add: extent_within_def page_at_def)
  obtain d where d: "idle ?c s1" "holds ?c s1 1 d" "extent_within 2 s1"
    using write_record_idle [OF h(1,2) _ ok wr] e2 by auto
  note fi = flush_idle [OF d(1) fl]
  have "sealed_ok ?c 1 (disk_page (pool_file s2) 1)"
    using fi(3) [OF d(2)] by (auto simp: disk_view_def split: if_splits)
  then have "page_at 1 + PAGE_SIZE \<le> length (contents (pool_file s2))" using sealed_ok_length disk_page_full by metis
  then have "length (contents (pool_file s2)) = 2 * PAGE_SIZE"
    using fi(4) [OF d(3)] by (simp add: extent_within_def page_at_def)
  moreover have "healthy (pool_file s2)" using fi(2) by (simp add: idle_def)
  ultimately obtain t where t: "pool_new (pool_file s2) 8192 0 1 False = Ok t" using two_page_pool by blast
  obtain t' r where rl: "read_latest ?c t = (t', r)" by fastforce
  have "r1 = Ok () \<and> r2 = Ok () \<and> r = Ok (stamped sample_meta (limits s))"
    using publication_durable [OF h(1) ok _ _ _ older w fl t _ rl] h(2,3) lim odd by simp
  moreover have "stamped sample_meta None = sample_meta" by (simp add: stamped_def sample_meta_def)
  ultimately show ?thesis using s w fl t rl lim by metis
qed

theorem torn_publication_survives_witness:
  "\<exists>b t t' m. pool_new (two_pages (replicate PAGE_SIZE 0) b) 8192 0 1 False = Ok t \<and>
     damaged_slot crc32c_append (replicate PAGE_SIZE 0) \<and> read_latest crc32c_append t = (t', Ok m) \<and> generation m = 1"
proof -
  let ?c = crc32c_append
  obtain c where c: "page_ok ?c 1 c" "page_slots c = meta_slots sample_meta None" "page_kind_of c = Ok PageMeta"
    using meta_page_built [of "replicate PAGE_SIZE 0" sample_meta 1 None ?c] by (auto simp: meta_ok_def sample_meta_def)
  let ?b = "seal ?c c 0" and ?f = "two_pages (replicate PAGE_SIZE 0) (seal ?c c 0)"
  have so: "sealed_ok ?c 1 ?b" by (rule seal_ok [OF c(1)])
  note f = two_pages_facts [of "replicate PAGE_SIZE 0" ?b, OF _ sealed_ok_length [OF so], simplified]
  have "page_slots ?b = page_slots c" "page_kind_of ?b = page_kind_of c"
    using body_slots [OF sealed_ok_page_ok [OF so] c(1) seal_body [OF page_ok_length [OF c(1)]]] by auto
  moreover have "slots_meta (of_nat 1) (meta_slots sample_meta None) = Ok (stamped sample_meta None)"
    by (intro slots_meta_roundtrip) (simp_all add: meta_ok_def sample_meta_def)
  ultimately have "read_opened ?c 1 ?b = Ok (stamped sample_meta None)"
    using c(2,3) read_opened_image [OF sealed_ok_page_ok [OF so]] by simp
  then have ds: "disk_slot ?c 1 (disk_page ?f 1) = Ok (stamped sample_meta None)"
    using so by (simp add: f(2) disk_slot_def sealed_ok_def)
  have "le_nat (replicate k 0) = 0" for k by (induction k) simp_all
  then have dm: "damaged_slot ?c (replicate PAGE_SIZE 0)"
    by (simp add: damaged_slot_def rd_u32_def PAGE_MAGIC_def PAGE_SIZE_def slice_def from_le_def)
  obtain t where t: "pool_new ?f 8192 0 1 False = Ok t" using two_page_pool [OF f(3,4)] by blast
  obtain t' r where r: "read_latest ?c t = (t', r)" by fastforce
  have "r = Ok (stamped sample_meta None)"
    using torn_publication_survives [OF t _ f(3) _ _ _ ds _ r] f(1,2) dm sealed_ok_length [OF so] by simp
  then have "read_latest ?c t = (t', Ok (stamped sample_meta None))" "generation (stamped sample_meta None) = 1"
    using r by (simp_all add: stamped_def sample_meta_def)
  then show ?thesis using t dm by blast
qed


end
