(* ===== verification/Allocation.thy ===== *)
theory Allocation
  imports Guards
begin

text \<open>
  The page allocator of the buffer pool while a new version of the tree is being built
  (\<open>allocate\<close>, \<open>free_page\<close> and \<open>free_shadow_page\<close> of core/kernel/src/pool.rs): which page numbers it
  may hand out, and that taking one or retiring one beside live guards changes nothing else.
\<close>

section \<open>The allocator between publications\<close>

text \<open>
  Page numbers the allocator may hand out, and the free list as it hands them out. Pages 0 and 1 are
  the superblocks.
\<close>

definition available :: "pool \<Rightarrow> nat set" where
  "available s = {p. next_page s \<le> p} \<union> set (listed (free s))"

definition alloc_ready :: "pool \<Rightarrow> bool" where
  "alloc_ready s \<longleftrightarrow> alloc_inv s \<and> 1 < next_page s \<and> next_page s \<le> u32_max \<and> distinct (listed (free s)) \<and>
     0 \<notin> set (listed (free s)) \<and> 1 \<notin> set (listed (free s))"

lemma available_past_superblocks: "alloc_ready s \<Longrightarrow> p \<in> available s \<Longrightarrow> 1 < p"
  unfolding alloc_ready_def available_def by (cases p; cases "p - 1") (auto simp del: set_concat)

lemma pop_free_distinct:
  fixes s :: "'a reuse_scheme"
  assumes "pop_free s = (s', r)" "distinct (listed (free s))"
  shows "distinct (listed (free s')) \<and> limits s' = limits s \<and>
    set (listed (free s')) = set (listed (free s)) - set_option r \<and> (\<forall>p. r = Some p \<longrightarrow> p \<in> set (listed (free s)))"
proof (cases "free s")
  case Nil
  then show ?thesis using assms by (auto simp: pop_free_def)
next
  case (Cons b bs)
  obtain g ps where b: "b = (g, ps)" by (cases b)
  show ?thesis
  proof (cases "g > reuse_limit s \<or> ps = []")
    case True
    then show ?thesis using assms Cons b by (auto simp: pop_free_def)
  next
    case False
    define q z where "q = butlast ps" and "z = last ps"
    have ps: "ps = q @ [z]" using False by (simp add: q_def z_def)
    have r: "r = Some z" "free s' = (if q = [] then bs else (g, q) # bs)" "limits s' = limits s"
      using assms(1) Cons b False by (auto simp: pop_free_def q_def z_def)
    have l: "listed (free s') = q @ listed bs" "listed (free s) = q @ z # listed bs" by (simp_all add: r(2) Cons b ps)
    show ?thesis using assms(2) unfolding l r(1,3) by auto
  qed
qed

lemma choose_page_ready:
  fixes s :: pool
  assumes "choose_page s = (s', Ok (no, recycled))" "alloc_ready s"
  shows "distinct (listed (free s')) \<and> set (listed (free s')) = set (listed (free s)) - {no} \<and> no \<in> available s \<and> no \<noteq> 0 \<and>
    no < u32_max \<and> next_page s' = max (next_page s) (no + 1) \<and> next_page s' \<le> u32_max \<and> limits s' = limits s"
proof -
  let ?s = "s\<lparr>epoch_allocated_pages := epoch_allocated_pages s + 1\<rparr>"
  obtain t q where pf: "pop_free ?s = (t, q)" by fastforce
  have d: "distinct (listed (free t))" "limits t = limits s" "set (listed (free t)) = set (listed (free s)) - set_option q"
      "\<And>p. q = Some p \<Longrightarrow> p \<in> set (listed (free s))"
    using pop_free_distinct [OF pf] assms(2) by (auto simp: alloc_ready_def)
  have nt: "next_page t = next_page s" using pop_free_facts(4) [OF pf] by simp
  have below: "p < next_page s" if "p \<in> set (listed (free s))" for p
    using that assms(2) unfolding alloc_ready_def alloc_inv_def by blast
  have ok: "is_ok (admit_allocation s)" using assms(1) by (cases "admit_allocation s") (simp_all add: choose_page_def)
  show ?thesis
  proof (cases q)
    case None
    then have "\<not> next_page s + 1 > u32_max" "s' = t\<lparr>next_page := next_page s + 1\<rparr>" "no = next_page s"
      using assms(1) ok pf nt by (auto simp: choose_page_def is_ok_iff Let_def split: if_splits)
    moreover have "next_page s \<notin> set (listed (free s))" using below by blast
    ultimately show ?thesis using d None assms(2) by (simp add: available_def alloc_ready_def)
  next
    case (Some p)
    then have e: "s' = t\<lparr>thawed := List.insert p (thawed t)\<rparr>" "no = p"
      using assms(1) ok pf by (auto simp: choose_page_def is_ok_iff Let_def)
    have "p \<noteq> 0" using d(4) [OF Some] assms(2) unfolding alloc_ready_def by metis
    moreover have "p < next_page s" "next_page s \<le> u32_max" using below [OF d(4) [OF Some]] assms(2) by (simp_all add: alloc_ready_def)
    ultimately show ?thesis using d Some nt d(4) [OF Some] by (simp add: e available_def max_def)
  qed
qed

lemma choose_page_total:
  fixes s :: pool
  assumes "limits s = None" "next_page s < u32_max"
  shows "\<exists>s' x. choose_page s = (s', Ok x)"
proof -
  let ?s = "s\<lparr>epoch_allocated_pages := epoch_allocated_pages s + 1\<rparr>"
  obtain t q where pf: "pop_free ?s = (t, q)" by fastforce
  have "next_page t = next_page s" using pop_free_facts(4) [OF pf] by simp
  then show ?thesis using assms pf by (cases q) (auto simp: choose_page_def admit_allocation_def Let_def)
qed

text \<open>The pieces of a successful allocation.\<close>

lemma allocate_pieces:
  assumes "pool_inv crc s" "alloc_inv s" "unguarded_free s" "allocate crc debug s = (s', Ok (i, no))"
  obtains t recycled where "choose_page s = (t, Ok (no, recycled))" "reuse.truncate s' = reuse.truncate t"
    "same_device (pool_file s) (pool_file s')" "live_pins s' = live_pins s + 1" "length (frames s') = length (frames s)"
    "i < length (frames s')" "frame_page (frames s' ! i) = no"
proof -
  obtain t q where ch: "choose_page s = (t, q)" by fastforce
  obtain nr where q: "q = Ok nr" using assms(4) ch by (cases q) (simp_all add: allocate_def)
  obtain p recycled where nr: "nr = (p, recycled)" by (cases nr)
  obtain u x where ds: "(if recycled then drop_stale debug t p else (t, Ok ())) = (u, x)" by fastforce
  have x: "x = Ok ()" using assms(4) ch q nr ds by (cases x) (simp_all add: allocate_def)
  have tk: "take_number debug s = (u, Ok p)" using ch q nr ds x by (simp add: take_number_def)
  note n = take_number_facts [OF assms(1-3) tk]
  have tu: "reuse.truncate u = reuse.truncate t"
    using ds by (auto simp: drop_stale_def set_frame_def split: if_splits option.splits)
  obtain v w where v: "victim crc u = (v, w)" by fastforce
  have ui: "pool_inv crc u" "pool_file u = pool_file s" "live_pins u = live_pins s" "length (frames u) = length (frames s)"
    using n(2) by (simp_all add: taken_from_def)
  note vk = victim_keeps [OF v ui(1)]
  obtain j where w: "w = Ok j" using assms(4) tk v by (cases w) (simp_all add: allocate_eq)
  obtain b where b: "page_init (replicate PAGE_SIZE 0) PageFree 0 (of_nat p) = Ok b"
    using page_init_law [of "replicate PAGE_SIZE 0" PageFree 0 "of_nat p"] by auto
  have s': "s' = install (v\<lparr>region := (region v)[j := finalise b 0]\<rparr>) j p True True" "i = j" "no = p"
    using assms(4) tk v w b by (auto simp: allocate_eq)
  have jv: "j < length (frames v)" "\<not> present (frames v ! j)" using vk(3) [OF w] by auto
  have vt: "table v p = None" using n(3) [of p] vk(1) by (auto simp: keeps_def dest: map_le_None)
  have fz: "is_frozen v = is_frozen u" using vk(1) by (intro truncate_frozen) (simp add: keeps_def)
  have fp: "True \<longrightarrow> \<not> is_frozen v p" using n(3) [of p] by (simp add: fz)
  note f = install_facts [OF keeps_inv [OF vk(1)] jv vt _ fp _ s'(1)]
  have g: "frames s' = (frames v)[j := new_frame p True True]" "pool_file s' = pool_file v" "live_pins s' = live_pins v + 1"
      "reuse.truncate s' = reuse.truncate v"
    using f(4,6,7,8) by simp_all
  have kv: "reuse.truncate v = reuse.truncate u" "same_device (pool_file u) (pool_file v)" "live_pins v = live_pins u"
      "length (frames v) = length (frames u)"
    using vk(1) by (simp_all add: keeps_def)
  show thesis
    using that [of t recycled] ch q nr s'(2,3) tu kv g ui jv(1) by (simp add: new_frame_def)
qed

section \<open>Allocating beside live guards\<close>

text \<open>What taking page \<open>no\<close> leaves: a readable page of its own, the other pages, the allocator without it.\<close>

definition allocated_from :: "crc_fn \<Rightarrow> pool \<Rightarrow> pool \<Rightarrow> nat \<Rightarrow> bool" where
  "allocated_from crc s s' no \<longleftrightarrow>
     alloc_ready s' \<and> no \<in> available s \<and> available s' = available s - {no} \<and> no \<noteq> 0 \<and> no < u32_max \<and>
     no \<le> next_page s \<and> next_page s' = max (next_page s) (no + 1) \<and> \<not> is_frozen s' no \<and> (\<exists>e. holds crc s' no e) \<and>
     (\<forall>m c. m \<noteq> no \<and> holds crc s m c \<longrightarrow> holds crc s' m c) \<and> (\<forall>p. is_frozen s' p \<longrightarrow> is_frozen s p) \<and> limits s' = limits s"

lemma available_step:
  assumes "next_page s' = max (next_page s) (no + 1)" "set (listed (free s')) = set (listed (free s)) - {no}" "no \<in> available s"
    "\<forall>p \<in> set (listed (free s)). p < next_page s" "no \<le> next_page s"
  shows "available s' = available s - {no}"
  using assms unfolding available_def by (auto simp del: set_concat)

lemma guarded_free:
  assumes "guarded crc s gs" "set (guard_pages gs) \<inter> available s = {}"
  shows "unguarded_free s"
  unfolding unguarded_free_def
proof (intro allI impI)
  fix i assume i: "i < length (frames s)" "present (frames s ! i) \<and> pins (frames s ! i) > 0"
  then have "i \<in> fst ` set gs" using guarded_unpinned [OF assms(1) i(1)] by auto
  then obtain no b where g: "(i, no, b) \<in> set gs" by auto
  then have "guard_ok crc s (i, no, b)" using assms(1) unfolding guarded_def list_all_iff by blast
  then have "frame_page (frames s ! i) = no" using assms(1) by (auto simp: guarded_def pool_inv_def table_ok_def)
  then show "frame_page (frames s ! i) \<notin> set (listed (free s))" using g assms(2) unfolding available_def by force
qed

lemma allocate_guarded:
  assumes "guarded crc s gs" "alloc_ready s" "set (guard_pages gs) \<inter> available s = {}" "allocate crc debug s = (t, Ok (i, no))"
  obtains e where "guarded crc t ((i, no, e) # gs)" "allocated_from crc s t no" "length (frames t) = length (frames s)"
proof -
  have ai: "alloc_inv s" using assms(2) by (simp add: alloc_ready_def)
  have inv: "pool_inv crc s" using assms(1) by (simp add: guarded_def)
  note uf = guarded_free [OF assms(1,3)]
  note f = allocate_facts [OF inv ai uf assms(4), simplified]
  obtain c recycled where c: "choose_page s = (c, Ok (no, recycled))" "reuse.truncate t = reuse.truncate c"
      "same_device (pool_file s) (pool_file t)" "live_pins t = live_pins s + 1" "length (frames t) = length (frames s)"
      "i < length (frames t)" "frame_page (frames t ! i) = no"
    by (rule allocate_pieces [OF inv ai uf assms(4)])
  have ti: "pool_inv crc t" "alloc_inv t" "pins (frames t ! i) = 1" "frame_writer (frames t ! i)" "page_ok crc no (region t ! i)"
      "table t no = Some i" "\<not> is_frozen t no" "dirty (frames t ! i)"
    using f by (simp_all add: disturbs_only_def)
  note cr = choose_page_ready [OF c(1) assms(2)]
  note at = alloc_inv_truncate [OF c(2)]
  have lim: "limits t = limits c" using c(2) by (simp add: reuse.defs)
  have below: "\<forall>p \<in> set (listed (free s)). p < next_page s" using ai unfolding alloc_inv_def by blast
  have le: "no \<le> next_page s"
    using c(1) choose_page_facts(12,13) [OF c(1)] below by (cases recycled) (auto simp del: set_concat)
  have av: "available t = available s - {no}" using cr below le by (intro available_step) (simp_all add: at del: set_concat)
  have "0 \<notin> set (listed (free t))" "1 \<notin> set (listed (free t))" using cr assms(2) unfolding at alloc_ready_def by blast+
  moreover have "next_page s \<le> u32_max" using assms(2) by (simp add: alloc_ready_def)
  ultimately have rdy: "alloc_ready t" using ti(2) cr by (simp add: alloc_ready_def at less_max_iff_disj del: set_concat)
  have gi: "guard_ok crc t (i, no, region t ! i)" using ti c(6) by simp
  have "holds crc t m d" if "m \<noteq> no" "holds crc s m d" for m d using that f by (auto simp: holds_def disturbs_only_def)
  then have al: "allocated_from crc s t no"
    using rdy av cr guard_ok_holds [OF gi] ti(7) f lim le
    unfolding allocated_from_def by (auto simp: at disturbs_only_def simp del: set_concat)
  have keep: "guard_ok crc t g \<and> fst g \<noteq> i" if g: "g \<in> set gs" for g
  proof -
    obtain j m d where e: "g = (j, m, d)" by (cases g)
    have gs: "guard_ok crc s (j, m, d)" using assms(1) g e unfolding guarded_def list_all_iff by blast
    then have "frames t ! j = frames s ! j \<and> region t ! j = region s ! j" using f by (simp add: disturbs_only_def)
    then have gt: "guard_ok crc t (j, m, d)" using guard_ok_frame [OF gs ti(1) c(5)] inv by simp
    have "m \<noteq> no" using g e cr assms(3) by force
    then have "j \<noteq> i" using gt ti(1,6) by (auto simp: pool_inv_def table_ok_def)
    then show ?thesis using gt by (simp add: e)
  qed
  have "healthy (pool_file t)" using same_device_healthy c(3) assms(1) unfolding guarded_def by blast
  moreover have "list_all (guard_ok crc t) ((i, no, region t ! i) # gs)" using keep gi by (simp only: list_all_iff) simp
  moreover have "i \<notin> fst ` set gs" using keep by blast
  ultimately have "guarded crc t ((i, no, region t ! i) # gs)"
    using assms(1) ti(1) c(4) unfolding guarded_def by simp
  then show thesis using that al c(5) by blast
qed

lemma allocate_total:
  assumes "guarded crc s gs" "alloc_ready s" "set (guard_pages gs) \<inter> available s = {}"
  shows "snd (allocate crc debug s) \<noteq> Panic"
    and "limits s = None \<Longrightarrow> next_page s < u32_max \<Longrightarrow> length gs < length (frames s) \<Longrightarrow> \<exists>t i no. allocate crc debug s = (t, Ok (i, no))"
proof -
  have ai: "alloc_inv s" using assms(2) by (simp add: alloc_ready_def)
  have inv: "pool_inv crc s" and hl: "healthy (pool_file s)" using assms(1) by (simp_all add: guarded_def)
  note uf = guarded_free [OF assms(1,3)]
  obtain t x where a: "allocate crc debug s = (t, x)" by fastforce
  show "snd (allocate crc debug s) \<noteq> Panic" using allocate_facts [OF inv ai uf a] a by simp
  show "\<exists>t i no. allocate crc debug s = (t, Ok (i, no))" if lim: "limits s = None" "next_page s < u32_max" and room: "length gs < length (frames s)"
  proof -
    obtain u q where tk: "take_number debug s = (u, q)" by fastforce
    note n = take_number_facts [OF inv ai uf tk]
    obtain c no recycled where ch: "choose_page s = (c, Ok (no, recycled))" using choose_page_total [OF lim] by auto
    have "snd (drop_stale debug c no) \<noteq> Err e" for e by (auto simp: drop_stale_def split: option.splits if_splits)
    then obtain p where q: "q = Ok p"
      using tk ch n(1) by (cases recycled; cases "snd (drop_stale debug c no)"; cases "drop_stale debug c no")
        (auto simp: take_number_def)
    have ui: "pool_inv crc u" "pool_file u = pool_file s" "live_pins u = live_pins s" "length (frames u) = length (frames s)"
      using n(2) by (simp_all add: taken_from_def)
    have fr: "\<forall>j < length (frames s). pins (frames s ! j) > 0 \<longrightarrow> frames u ! j = frames s ! j" using n(2) by (simp add: taken_from_def)
    have gu: "guarded crc u gs"
    proof -
      have "guard_ok crc u g" if "g \<in> set gs" for g
      proof -
        obtain j m d where e: "g = (j, m, d)" by (cases g)
        have gs: "guard_ok crc s (j, m, d)" using assms(1) that e unfolding guarded_def list_all_iff by blast
        have "region u = region s" using n(2) by (simp add: taken_from_def)
        then show ?thesis unfolding e using guard_ok_frame [OF gs ui(1,4) _ _ inv] fr gs by simp
      qed
      then show ?thesis using assms(1) ui by (simp add: guarded_def list_all_iff)
    qed
    obtain j where j: "j < length (frames u)" "pins (frames u ! j) = 0" using guarded_room [OF gu] room ui(4) by auto
    obtain v w where v: "victim crc u = (v, w)" by fastforce
    obtain i where w: "w = Ok i" using victim_healthy [OF v ui(1) _ j] hl ui(2) by auto
    obtain b where b: "page_init (replicate PAGE_SIZE 0) PageFree 0 (of_nat p) = Ok b"
      using page_init_law [of "replicate PAGE_SIZE 0" PageFree 0 "of_nat p"] by auto
    show ?thesis using tk q v w b by (simp add: allocate_eq)
  qed
qed

text \<open>Dropping a guard or editing the new page keeps the account of an allocation.\<close>

lemma alloc_ready_truncate:
  assumes "alloc_ready s" "reuse.truncate t = reuse.truncate s" "\<And>n. extent_within n s \<Longrightarrow> extent_within n t"
  shows "alloc_ready t" "available t = available s"
  using assms(1,3) alloc_inv_truncate [OF assms(2)] by (simp_all add: alloc_ready_def alloc_inv_def available_def)

lemma allocated_from_truncate:
  assumes "allocated_from crc s t no" "reuse.truncate u = reuse.truncate t" "\<And>m c. holds crc t m c \<longleftrightarrow> holds crc u m c"
    and "\<And>n. extent_within n t \<Longrightarrow> extent_within n u"
  shows "allocated_from crc s u no"
proof -
  have "alloc_ready u" "available u = available t"
    using alloc_ready_truncate [OF _ assms(2,4)] assms(1) by (simp_all add: allocated_from_def)
  moreover have "next_page u = next_page t" "limits u = limits t" "is_frozen u = is_frozen t"
    using assms(2) truncate_frozen [OF assms(2)] by (simp_all add: reuse.defs)
  moreover have "holds crc u = holds crc t" using assms(3) by (simp add: fun_eq_iff)
  ultimately show ?thesis using assms(1) unfolding allocated_from_def by simp
qed

end
