(* ===== verification/Overflow.thy ===== *)
theory Overflow
  imports Allocation Page_Image Tree_Record
begin

text \<open>
  Values too large for a leaf (core/kernel/src/btree.rs, \<open>write_overflow\<close>, \<open>read_overflow\<close>,
  \<open>replaced_overflow_pages\<close>): a value is spilled into a chain of overflow pages named by a marker of
  its length, head page and checksum. The operations run on the buffer pool with its allocator; the
  main result is that a spilled value reads back, on either of the two reading paths.
\<close>

section \<open>Layout\<close>

definition OV_NEXT :: nat where "OV_NEXT = HEADER_LEN"
definition OV_USED :: nat where "OV_USED = OV_NEXT + 4"
definition OV_DATA :: nat where "OV_DATA = OV_USED + 2"
definition OV_CAP :: nat where "OV_CAP = PAGE_SIZE - OV_DATA"

lemmas ov_defs = OV_NEXT_def OV_USED_def OV_DATA_def OV_CAP_def HEADER_LEN_def

lemma ov_values: "OV_NEXT = 40" "OV_USED = 44" "OV_DATA = 46" "OV_CAP = 4050"
  by (simp_all add: ov_defs PAGE_SIZE_def)

text \<open>\<open>val.chunks(n)\<close>; \<open>chunks(0)\<close> panics, \<open>OV_CAP\<close> is not 0.\<close>

function chunks :: "nat \<Rightarrow> 'a list \<Rightarrow> 'a list list" where
  "chunks n xs = (if xs = [] \<or> n = 0 then [] else take n xs # chunks n (drop n xs))"
  by pat_completeness auto
termination by (relation "measure (\<lambda>(n, xs). length xs)") auto

declare chunks.simps [simp del]

section \<open>Writing\<close>

text \<open>\<open>pool.allocate()\<close> with its guard dropped at once.\<close>

definition alloc_page :: "crc_fn \<Rightarrow> bool \<Rightarrow> pool \<Rightarrow> pool \<times> nat kresult" where
  "alloc_page crc debug s =
     then_do (allocate crc debug s) (\<lambda>s (i, no).
     case unpin s i True of Ok s' \<Rightarrow> (s', Ok no) | _ \<Rightarrow> (s, Panic))"

fun alloc_pages :: "crc_fn \<Rightarrow> bool \<Rightarrow> pool \<Rightarrow> nat \<Rightarrow> pool \<times> nat list kresult" where
  "alloc_pages crc debug s 0 = (s, Ok [])"
| "alloc_pages crc debug s (Suc k) =
     then_do (alloc_page crc debug s) (\<lambda>s p. then_do (alloc_pages crc debug s k) (\<lambda>s ps. (s, Ok (p # ps))))"

definition fill_page :: "nat \<Rightarrow> nat \<Rightarrow> bytes \<Rightarrow> bytes \<Rightarrow> bytes \<times> unit kresult" where
  "fill_page no nxt chunk b =
     (case page_init b PageOverflow 0 (of_nat no) of
        Ok b \<Rightarrow>
          let b = finalise b 0;
              b = put_at b OV_NEXT (to_le (of_nat nxt :: u32));
              b = put_at b OV_USED (to_le (of_nat (length chunk) :: u16));
              b = put_at b OV_DATA chunk
          in (b, Ok ())
      | Err e \<Rightarrow> (b, Err e)
      | Panic \<Rightarrow> (b, Panic))"

fun fill_pages :: "crc_fn \<Rightarrow> pool \<Rightarrow> nat list \<Rightarrow> bytes list \<Rightarrow> pool \<times> unit kresult" where
  "fill_pages crc s (p # ps) (c # cs) =
     then_do (with_write crc s p (fill_page p (case ps of [] \<Rightarrow> 0 | q # _ \<Rightarrow> q) c)) (\<lambda>s _. fill_pages crc s ps cs)"
| "fill_pages crc s _ _ = (s, Ok ())"

definition over_record_limit :: "pool \<Rightarrow> nat \<Rightarrow> bool" where
  "over_record_limit s n = (case limits s of Some l \<Rightarrow> n > unat (record_bytes l) | None \<Rightarrow> False)"

definition write_overflow :: "crc_fn \<Rightarrow> bool \<Rightarrow> pool \<Rightarrow> bytes \<Rightarrow> pool \<times> (nat \<times> u32) kresult" where
  "write_overflow crc debug s val =
     (if over_record_limit s (length val) then (s, Err (ResourceLimit ''overflow value exceeds record allowance''))
      else let cs = (case chunks OV_CAP val of [] \<Rightarrow> [[]] | cs \<Rightarrow> cs) in
        then_do (alloc_pages crc debug s (length cs)) (\<lambda>s pages.
        then_do (fill_pages crc s pages cs) (\<lambda>s _. (s, Ok (hd pages, crc 0 val)))))"

section \<open>Reading\<close>

text \<open>The speculative read of consecutive pages; \<open>None\<close> is \<open>contiguous = false\<close>.\<close>

fun run_value :: "crc_fn \<Rightarrow> bytes \<Rightarrow> nat \<Rightarrow> nat \<Rightarrow> nat \<Rightarrow> bytes \<Rightarrow> nat list \<Rightarrow> bytes option" where
  "run_value crc buf head n tot out [] = Some out"
| "run_value crc buf head n tot out (i # is) =
     (let b = slice buf (i * PAGE_SIZE) ((i + 1) * PAGE_SIZE); no = head + i in
      case open_resident crc b (of_nat no) of
        Ok p \<Rightarrow>
          if page_kind_of p \<noteq> Ok PageOverflow then None
          else if unat (rd_u32 b OV_NEXT) \<noteq> (if i + 1 < n then no + 1 else 0) then None
          else let used = unat (rd_u16 b OV_USED) in
            if used > OV_CAP \<or> length out + used > tot then None
            else run_value crc buf head n tot (out @ slice b OV_DATA (OV_DATA + used)) is
      | _ \<Rightarrow> None)"

definition read_run_value :: "crc_fn \<Rightarrow> pool \<Rightarrow> nat \<Rightarrow> nat \<Rightarrow> u32 \<Rightarrow> bytes option" where
  "read_run_value crc s head tot want =
     (let n = max ((tot + OV_CAP - 1) div OV_CAP) 1 in
      if n > u32_max then None
      else case read_run_uncached crc s head n [] of
        Ok (True, buf) \<Rightarrow>
          (case run_value crc buf head n tot [] [0..<n] of
             Some out \<Rightarrow> if length out = tot \<and> crc 0 out = want then Some out else None
           | None \<Rightarrow> None)
      | _ \<Rightarrow> None)"

text \<open>The authoritative walk, one page at a time; \<open>cap\<close> bounds the hops.\<close>

definition chain_link :: "crc_fn \<Rightarrow> nat \<Rightarrow> nat \<Rightarrow> bytes \<Rightarrow> bytes \<Rightarrow> (nat \<times> bytes) kresult" where
  "chain_link crc no tot out b =
     obind (open_resident crc b (of_nat no)) (\<lambda>p.
     obind (page_kind_of p) (\<lambda>k.
     if k \<noteq> PageOverflow then Err (Corrupt (of_nat no) ''chain points at a non-overflow page'')
     else let used = unat (rd_u16 b OV_USED) in
       if used > OV_CAP \<or> length out + used > tot then Err (Corrupt (of_nat no) ''overflow length out of bounds'')
       else Ok (unat (rd_u32 b OV_NEXT), out @ slice b OV_DATA (OV_DATA + used))))"

function chain_walk :: "crc_fn \<Rightarrow> pool \<Rightarrow> nat \<Rightarrow> nat \<Rightarrow> nat \<Rightarrow> nat \<Rightarrow> bytes \<Rightarrow> pool \<times> bytes kresult" where
  "chain_walk crc s cap hops page tot out =
     (if page = 0 then (s, Ok out)
      else if hops + 1 > cap then (s, Err (Corrupt (of_nat page) ''overflow chain cycles''))
      else then_do (with_read crc s page (chain_link crc page tot out)) (\<lambda>s (nxt, out). chain_walk crc s cap (hops + 1) nxt tot out))"
  by pat_completeness auto
termination by (relation "measure (\<lambda>(crc, s, cap, hops, page, tot, out). cap - hops)") auto

declare chain_walk.simps [simp del]

definition read_overflow :: "crc_fn \<Rightarrow> pool \<Rightarrow> bytes \<Rightarrow> pool \<times> bytes kresult" where
  "read_overflow crc s marker =
     (if length marker \<noteq> 12 then (s, Err (Corrupt 0 ''overflow marker wrong size''))
      else let tot = unat (from_le (slice marker 0 4) :: u32) in
        if over_record_limit s tot then (s, Err (ResourceLimit ''stored overflow value exceeds record allowance''))
        else let head = unat (from_le (slice marker 4 8) :: u32); want = from_le (slice marker 8 12) in
          case read_run_value crc s head tot want of
            Some out \<Rightarrow> (s, Ok out)
          | None \<Rightarrow>
              then_do (chain_walk crc s (next_page s) 0 head tot []) (\<lambda>s out.
              if length out \<noteq> tot \<or> crc 0 out \<noteq> want
              then (s, Err (Corrupt 0 ''overflow value fails its checksum'')) else (s, Ok out)))"

section \<open>Retiring\<close>

text \<open>One page of the chain that a changed value leaves behind: its length, checksum, generation and successor.\<close>

definition retire_link :: "crc_fn \<Rightarrow> nat \<Rightarrow> nat \<Rightarrow> nat \<Rightarrow> u32 \<Rightarrow> bytes \<Rightarrow> (nat \<times> u32 \<times> u64 \<times> nat) kresult" where
  "retire_link crc no tot bytes c b =
     obind (open_resident crc b (of_nat no)) (\<lambda>p.
     obind (page_kind_of p) (\<lambda>k.
     if k \<noteq> PageOverflow \<or> page_tree_id p \<noteq> 0 then Err (Corrupt (of_nat no) ''retired overflow page kind'')
     else let used = unat (rd_u16 b OV_USED) in
       if used \<noteq> min (tot - bytes) OV_CAP then Err (Corrupt (of_nat no) ''retired overflow length'')
       else Ok (used, crc c (slice b OV_DATA (OV_DATA + used)), page_lsn p, unat (rd_u32 b OV_NEXT))))"

function retire_walk :: "crc_fn \<Rightarrow> pool \<Rightarrow> nat \<Rightarrow> nat \<Rightarrow> nat \<Rightarrow> (nat \<times> u64) list \<Rightarrow> nat \<Rightarrow> u32 \<Rightarrow>
    pool \<times> ((nat \<times> u64) list \<times> nat \<times> u32) kresult" where
  "retire_walk crc s bound tot no pages bytes c =
     (if no = 0 then (s, Ok (pages, bytes, c))
      else if no < 2 \<or> no \<ge> next_page s \<or> length pages \<ge> bound
      then (s, Err (Corrupt (of_nat no) ''retired overflow chain bounds''))
      else then_do (with_read crc s no (retire_link crc no tot bytes c)) (\<lambda>s (used, c, lsn, nxt).
        let birth = (if is_frozen s no then lsn else of_nat (stamp_gen s)) in
        retire_walk crc s bound tot nxt (pages @ [(no, birth)]) (bytes + used) c))"
  by pat_completeness auto
termination by (relation "measure (\<lambda>(crc, s, bound, tot, no, pages, bytes, c). bound - length pages)") auto

declare retire_walk.simps [simp del]

definition replaced_overflow_pages :: "crc_fn \<Rightarrow> pool \<Rightarrow> bytes \<Rightarrow> pool \<times> (nat \<times> u64) list kresult" where
  "replaced_overflow_pages crc s rec =
     (case validated_leaf rec of
        Err e \<Rightarrow> (s, Err e)
      | Panic \<Rightarrow> (s, Panic)
      | Ok (_, marker, overflow) \<Rightarrow>
        if \<not> overflow then (s, Ok [])
        else let tot = unat (from_le (slice marker 0 4) :: u32) in
          if over_record_limit s tot then (s, Err (ResourceLimit ''stored overflow value exceeds record allowance''))
          else let no = unat (from_le (slice marker 4 8) :: u32); want = from_le (slice marker 8 12);
                   bound = max ((tot + OV_CAP - 1) div OV_CAP) 1 in
            then_do (retire_walk crc s bound tot no [] 0 0) (\<lambda>s (pages, bytes, c).
            if length pages \<noteq> bound \<or> bytes \<noteq> tot \<or> c \<noteq> want
            then (s, Err (Corrupt 0 ''retired overflow whole-value checksum or length'')) else (s, Ok pages)))"

section \<open>Taking pages\<close>

lemma alloc_page_idle:
  assumes "idle crc s" "alloc_ready s" "alloc_page crc debug s = (s', Ok no)"
  shows "idle crc s'" "allocated_from crc s s' no" "length (frames s') = length (frames s)"
proof -
  have g: "guarded crc s []" "frames s \<noteq> []" using assms(1) by (simp_all add: idle_guarded)
  obtain t x where a: "allocate crc debug s = (t, x)" by fastforce
  obtain inr where "x = Ok inr" using assms(3) a by (cases x) (simp_all add: alloc_page_def)
  then obtain i nr where x: "x = Ok (i, nr)" by (cases inr) simp
  obtain e where e: "guarded crc t [(i, nr, e)]" "allocated_from crc s t nr" "length (frames t) = length (frames s)"
    by (rule allocate_guarded [OF g(1) assms(2) _ a [unfolded x]]) auto
  obtain u where u: "unpin t i True = Ok u" "guarded crc u []" "length (frames u) = length (frames t)" "reuse.truncate u = reuse.truncate t"
      "\<And>m c. holds crc t m c \<longleftrightarrow> holds crc u m c" "\<And>n. extent_within n t \<Longrightarrow> extent_within n u"
    by (rule unpin_guarded [OF e(1)]) blast
  have eq: "s' = u" "nr = no" using assms(3) a x u(1) by (simp_all add: alloc_page_def)
  show "idle crc s'" using u(2,3) e(3) g(2) by (auto simp: idle_guarded eq)
  show "allocated_from crc s s' no"
    using allocated_from_truncate [OF e(2) u(4,5,6)] by (simp add: eq)
  show "length (frames s') = length (frames s)" using u(3) e(3) by (simp add: eq)
qed

lemma alloc_page_total:
  assumes "idle crc s" "alloc_ready s"
  shows "snd (alloc_page crc debug s) \<noteq> Panic"
    and "limits s = None \<Longrightarrow> next_page s < u32_max \<Longrightarrow> \<exists>s' no. alloc_page crc debug s = (s', Ok no)"
proof -
  have g: "guarded crc s []" "frames s \<noteq> []" using assms(1) by (simp_all add: idle_guarded)
  note at = allocate_total [OF g(1) assms(2), of debug]
  obtain t x where a: "allocate crc debug s = (t, x)" by fastforce
  have up: "\<exists>u. unpin t i True = Ok u" if ok: "x = Ok (i, no)" for i no
  proof -
    obtain e where e: "guarded crc t [(i, no, e)]" by (rule allocate_guarded [OF g(1) assms(2) _ a [unfolded ok]]) auto
    obtain u where "unpin t i True = Ok u" by (rule unpin_guarded [OF e])
    then show ?thesis ..
  qed
  have ok: "\<exists>u no. alloc_page crc debug s = (u, Ok no)" if "x = Ok inr" for inr
  proof -
    obtain i no where i: "x = Ok (i, no)" using \<open>x = Ok inr\<close> by (cases inr) simp
    obtain u where "unpin t i True = Ok u" using up [OF i] ..
    then show ?thesis using a i by (simp add: alloc_page_def)
  qed
  show "snd (alloc_page crc debug s) \<noteq> Panic"
  proof (cases x)
    case (Ok inr)
    obtain u no where "alloc_page crc debug s = (u, Ok no)" using ok [OF Ok] by blast
    then show ?thesis by simp
  qed (use a at(1) in \<open>simp_all add: alloc_page_def\<close>)
  show "\<exists>s' no. alloc_page crc debug s = (s', Ok no)" if lim: "limits s = None" "next_page s < u32_max"
  proof -
    obtain t' i no where "allocate crc debug s = (t', Ok (i, no))" using at(2) lim g(2) by auto
    then show ?thesis using ok [of "(i, no)"] a by simp
  qed
qed

text \<open>A chain's pages, taken one after the other.\<close>

definition chain_taken :: "crc_fn \<Rightarrow> pool \<Rightarrow> pool \<Rightarrow> nat list \<Rightarrow> bool" where
  "chain_taken crc s s' ps \<longleftrightarrow>
     idle crc s' \<and> alloc_ready s' \<and> distinct ps \<and> set ps \<subseteq> available s \<and> available s' = available s - set ps \<and>
     0 \<notin> set ps \<and> (\<forall>p \<in> set ps. p < u32_max \<and> \<not> is_frozen s' p \<and> (\<exists>e. holds crc s' p e)) \<and>
     (\<forall>m c. m \<notin> set ps \<and> holds crc s m c \<longrightarrow> holds crc s' m c) \<and> (\<forall>p. is_frozen s' p \<longrightarrow> is_frozen s p) \<and> limits s' = limits s \<and>
     next_page s \<le> next_page s' \<and> next_page s' \<le> next_page s + length ps \<and> length (frames s') = length (frames s)"

lemma chain_taken_Cons:
  assumes "allocated_from crc s t p" "chain_taken crc t s' ps" "length (frames t) = length (frames s)"
  shows "chain_taken crc s s' (p # ps)"
proof -
  have p: "p \<notin> set ps" using assms by (auto simp: allocated_from_def chain_taken_def)
  obtain e where "holds crc t p e" using assms(1) by (auto simp: allocated_from_def)
  then have "holds crc s' p e" using assms(2) p by (auto simp: chain_taken_def)
  then show ?thesis
    using assms p unfolding allocated_from_def chain_taken_def by auto
qed

lemma alloc_pages_taken:
  assumes "idle crc s" "alloc_ready s" "alloc_pages crc debug s k = (s', Ok ps)"
  shows "chain_taken crc s s' ps \<and> length ps = k"
  using assms
proof (induction k arbitrary: s ps)
  case 0
  then show ?case by (simp add: chain_taken_def)
next
  case (Suc k)
  obtain t x where a: "alloc_page crc debug s = (t, x)" by fastforce
  obtain p where x: "x = Ok p" using Suc.prems(3) a by (cases x) simp_all
  have al: "idle crc t" "allocated_from crc s t p" "length (frames t) = length (frames s)" using alloc_page_idle [OF Suc.prems(1,2)] a x by simp_all
  obtain u y where r: "alloc_pages crc debug t k = (u, y)" by fastforce
  obtain qs where y: "y = Ok qs" using Suc.prems(3) a x r by (cases y) simp_all
  have e: "s' = u" "ps = p # qs" using Suc.prems(3) a x r y by simp_all
  have "chain_taken crc t u qs \<and> length qs = k"
    using Suc.IH [of t qs] al r y e by (simp add: allocated_from_def)
  then show ?case using chain_taken_Cons [OF al(2) _ al(3)] by (simp add: e)
qed

lemma alloc_pages_total:
  assumes "idle crc s" "alloc_ready s" "limits s = None" "next_page s + k \<le> u32_max"
  shows "\<exists>s' ps. alloc_pages crc debug s k = (s', Ok ps)"
  using assms
proof (induction k arbitrary: s)
  case (Suc k)
  obtain t p where a: "alloc_page crc debug s = (t, Ok p)" using alloc_page_total(2) [OF Suc.prems(1-3)] Suc.prems(4) by fastforce
  have al: "idle crc t" "allocated_from crc s t p" using alloc_page_idle [OF Suc.prems(1,2) a] by blast+
  have "next_page t \<le> next_page s + 1" using al by (simp add: allocated_from_def)
  then obtain u ps where "alloc_pages crc debug t k = (u, Ok ps)"
    using Suc.IH [of t] al Suc.prems(3,4) by (auto simp: allocated_from_def)
  then show ?case using a by simp
qed simp

section \<open>Overflow pages and chains\<close>

definition overflow_image :: "crc_fn \<Rightarrow> nat \<Rightarrow> nat \<Rightarrow> bytes \<Rightarrow> bytes \<Rightarrow> bool" where
  "overflow_image crc no nxt chunk b \<longleftrightarrow>
     page_ok crc no b \<and> page_kind_of b = Ok PageOverflow \<and> page_tree_id b = 0 \<and> unat (rd_u32 b OV_NEXT) = nxt \<and>
     unat (rd_u16 b OV_USED) = length chunk \<and> slice b OV_DATA (OV_DATA + length chunk) = chunk \<and> length chunk \<le> OV_CAP"

lemma overflow_image_body:
  assumes "overflow_image crc no nxt chunk b" "page_ok crc no c" "page_body c = page_body b"
  shows "overflow_image crc no nxt chunk c"
proof -
  have ok: "page_ok crc no b" "length chunk \<le> OV_CAP" using assms(1) by (simp_all add: overflow_image_def)
  note sl = body_slices [OF page_ok_length [OF assms(2)] page_ok_length [OF ok(1)] assms(3)]
  have "slice c OV_DATA (OV_DATA + length chunk) = slice b OV_DATA (OV_DATA + length chunk)"
    using ok(2) by (intro sl(2)) (simp_all add: ov_defs PAGE_SIZE_def)
  moreover have "rd_u32 c OV_NEXT = rd_u32 b OV_NEXT" "rd_u16 c OV_USED = rd_u16 b OV_USED" "page_tree_id c = page_tree_id b"
    by (simp_all add: rd_u32_def rd_u16_def page_tree_id_def sl ov_defs PAGE_SIZE_def)
  ultimately show ?thesis
    using assms(1,2) body_slots(2) [OF assms(2) ok(1) assms(3)] by (simp add: overflow_image_def)
qed

lemma page_ok_payload:
  assumes "page_ok crc no b" "nentries b = 0" "length c = length b" "\<And>j k. k \<le> 40 \<Longrightarrow> slice c j k = slice b j k"
  shows "page_ok crc no c" "page_kind_of c = page_kind_of b" "page_tree_id c = page_tree_id b"
proof -
  have rd: "rd_u32 c 0 = rd_u32 b 0" "rd_u16 c 4 = rd_u16 b 4" "rd_u32 c 12 = rd_u32 b 12" "rd_u16 c 6 = rd_u16 b 6"
      "nentries c = 0" "free_ptr c = free_ptr b" "rd_u16 c FORMAT_AT = rd_u16 b FORMAT_AT" "rd_u16 c 8 = rd_u16 b 8"
    using assms(2) by (simp_all add: rd_u32_def rd_u16_def nentries_def free_ptr_def FORMAT_AT_def assms(4))
  have "open_inner crc c (of_nat no) False = Ok c"
    using assms(1,2,3) unfolding page_ok_def open_resident_def
    by (simp add: open_inner_def Let_def rd slots_in_bounds_def split: if_splits)
  then show "page_ok crc no c" by (simp add: page_ok_def open_resident_def)
  show "page_kind_of c = page_kind_of b" "page_tree_id c = page_tree_id b" by (simp_all add: page_kind_of_def page_tree_id_def rd)
qed

lemma fill_page_image:
  assumes "length chunk \<le> OV_CAP" "nxt \<le> u32_max"
  obtains c where "\<And>b. length b = PAGE_SIZE \<Longrightarrow> fill_page no nxt chunk b = (c, Ok ())" "overflow_image crc no nxt chunk c"
proof -
  obtain p where p: "page_init (replicate PAGE_SIZE 0) PageOverflow 0 (of_nat no) = Ok p" "page_wf p" "page_slots p = []"
      "page_header p PageOverflow 0 (of_nat no)"
    using page_init_law [of "replicate PAGE_SIZE 0" PageOverflow 0 "of_nat no"] by auto
  define f where "f = finalise p 0"
  note fo = finalised_ok(1) [OF p(2,4) page_init_format [OF p(1)], where crc = crc, folded f_def]
    finalised_ok(2,3) [OF p(2,4) page_init_format [OF p(1)], folded f_def]
  have lf: "length f = 4096" using page_ok_length [OF fo(1)] by (simp add: PAGE_SIZE_def)
  have nf: "nentries f = 0" using arg_cong [OF fo(2), of length] p(3) by simp
  define c1 where "c1 = put_at f OV_NEXT (to_le (of_nat nxt :: u32))"
  define c2 where "c2 = put_at c1 OV_USED (to_le (of_nat (length chunk) :: u16))"
  define c where "c = put_at c2 OV_DATA chunk"
  have lc: "length c1 = 4096" "length c2 = 4096" "length c = 4096"
    using lf assms(1) by (simp_all add: c1_def c2_def c_def ov_values)
  have fp: "fill_page no nxt chunk b = (c, Ok ())" if "length b = PAGE_SIZE" for b
    using page_init_any [OF that] p(1) by (simp add: fill_page_def Let_def f_def c1_def c2_def c_def)
  have hd: "slice c j k = slice f j k" if "k \<le> 40" for j k
    using that assms(1) lf lc by (simp add: c_def c2_def c1_def ov_values slice_put_at_other)
  note pk = page_ok_payload [OF fo(1) nf _ hd]
  have "rd_u16 f 8 = 0"
  proof -
    have "rd_u16 p 8 = 0" using p(4) by (simp add: page_header_def)
    then show ?thesis using finalise_keeps(1) [of p 10 8 0] page_wf_bounds(1) [OF p(2)] by (simp add: f_def rd_u16_def)
  qed
  moreover have "slice c 40 44 = to_le (of_nat nxt :: u32)"
    using lf lc assms(1) by (simp add: c_def c2_def c1_def ov_values slice_put_at_other slice_put_at_same)
  moreover have "slice c 44 46 = to_le (of_nat (length chunk) :: u16)"
    using lf lc assms(1) by (simp add: c_def c2_def ov_values slice_put_at_other slice_put_at_same)
  moreover have "slice c 46 (46 + length chunk) = chunk"
    using lc assms(1) unfolding c_def by (intro slice_put_at_same) (simp_all add: ov_values)
  moreover have "unat (of_nat nxt :: u32) = nxt" "unat (of_nat (length chunk) :: u16) = length chunk"
    using assms by (simp_all add: unat_of_nat ov_values)
  ultimately have "overflow_image crc no nxt chunk c"
    using pk lf lc fo(3) assms(1)
    by (simp add: overflow_image_def page_tree_id_def rd_u32_def rd_u16_def ov_values)
  then show thesis using that fp by blast
qed

text \<open>A chain of pages that holds a list of chunks.\<close>

fun chain_holds :: "crc_fn \<Rightarrow> pool \<Rightarrow> nat list \<Rightarrow> bytes list \<Rightarrow> bool" where
  "chain_holds crc s (p # ps) (c # cs) \<longleftrightarrow>
     (\<exists>b. holds crc s p b \<and> overflow_image crc p (case ps of [] \<Rightarrow> 0 | q # _ \<Rightarrow> q) c b) \<and> chain_holds crc s ps cs"
| "chain_holds crc s [] [] \<longleftrightarrow> True"
| "chain_holds crc s _ _ \<longleftrightarrow> False"

lemma chain_holds_mono:
  "chain_holds crc s ps cs \<Longrightarrow> (\<And>p b. p \<in> set ps \<Longrightarrow> holds crc s p b \<Longrightarrow> holds crc s' p b) \<Longrightarrow> chain_holds crc s' ps cs"
  by (induction crc s ps cs rule: chain_holds.induct) auto

lemma fill_pages_chain:
  assumes "idle crc s" "distinct ps" "length cs = length ps" "\<forall>c \<in> set cs. length c \<le> OV_CAP"
    and "\<forall>p \<in> set ps. p \<le> u32_max \<and> \<not> is_frozen s p \<and> (\<exists>e. holds crc s p e)" "fill_pages crc s ps cs = (s', r)"
  shows "r = Ok () \<and> idle crc s' \<and> chain_holds crc s' ps cs \<and> reuse.truncate s' = reuse.truncate s \<and>
    (\<forall>m d. m \<notin> set ps \<and> holds crc s m d \<longrightarrow> holds crc s' m d) \<and> (\<forall>n. extent_within n s \<longrightarrow> extent_within n s') \<and>
    length (frames s') = length (frames s)"
  using assms
proof (induction crc s ps cs rule: fill_pages.induct)
  case (1 crc s p ps c cs)
  let ?n = "case ps of [] \<Rightarrow> 0 | q # _ \<Rightarrow> q"
  have n: "?n \<le> u32_max" using 1(6) by (cases ps) simp_all
  have cc: "length c \<le> OV_CAP" using 1(5) by simp
  obtain e where e: "holds crc s p e" "\<not> is_frozen s p" using 1(6) by auto
  obtain d where d: "\<And>b. length b = PAGE_SIZE \<Longrightarrow> fill_page p ?n c b = (d, Ok ())" "overflow_image crc p ?n c d"
    using fill_page_image [OF cc n] by blast
  obtain t x where w: "with_write crc s p (fill_page p ?n c) = (t, x)" by fastforce
  have dk: "page_ok crc p d" using d(2) by (simp add: overflow_image_def)
  note ww = with_write_idle [OF 1(2) e(1,2) w, of d "Ok ()"]
  have kb: "fill_page p ?n c b' = (d, Ok ()) \<and> page_ok crc p d" if "page_ok crc p b'" for b'
    using d(1) [OF page_ok_length [OF that]] dk by simp
  have t: "x = Ok ()" "idle crc t" "holds crc t p d" "reuse.truncate t = reuse.truncate s"
      "\<And>m b. m \<noteq> p \<Longrightarrow> holds crc s m b \<Longrightarrow> holds crc t m b" "\<And>n. extent_within n s \<Longrightarrow> extent_within n t"
      "length (frames t) = length (frames s)"
    using ww kb by blast+
  have fz: "is_frozen t = is_frozen s" by (rule truncate_frozen [OF t(4)])
  have hp: "\<forall>q \<in> set ps. q \<le> u32_max \<and> \<not> is_frozen t q \<and> (\<exists>e. holds crc t q e)"
    using 1(3,6) t(5) by (auto simp: fz) metis
  have rest: "fill_pages crc t ps cs = (s', r)" using 1(7) w t(1) by simp
  have ih: "r = Ok () \<and> idle crc s' \<and> chain_holds crc s' ps cs \<and> reuse.truncate s' = reuse.truncate t \<and>
    (\<forall>m d. m \<notin> set ps \<and> holds crc t m d \<longrightarrow> holds crc s' m d) \<and> (\<forall>n. extent_within n t \<longrightarrow> extent_within n s') \<and>
    length (frames s') = length (frames t)"
    using 1(1) [of t] t(2) 1(3,4,5) hp rest by simp
  have "holds crc s' p d" using ih t(3) 1(3) by simp
  then show ?case using ih t d(2) by auto
qed simp_all

section \<open>Reading a chain\<close>

definition head_of :: "nat list \<Rightarrow> nat" where
  "head_of ps = (case ps of [] \<Rightarrow> 0 | p # _ \<Rightarrow> p)"

lemma chain_link_image:
  assumes "overflow_image crc no nxt chunk b" "length out + length chunk \<le> tot"
  shows "chain_link crc no tot out b = Ok (nxt, out @ chunk)"
  using assms by (simp add: chain_link_def overflow_image_def page_ok_def Let_def)

lemma chain_walk_reads:
  assumes "idle crc s" "chain_holds crc s ps cs" "0 \<notin> set ps" "hops + length ps \<le> cap" "length out + length (concat cs) \<le> tot"
  shows "\<exists>s'. chain_walk crc s cap hops (head_of ps) tot out = (s', Ok (out @ concat cs)) \<and> reads_only crc s s'"
  using assms
proof (induction ps arbitrary: s cs hops out)
  case Nil
  then have "cs = []" by (cases cs) simp_all
  then show ?case using Nil reads_only_refl by (simp add: chain_walk.simps head_of_def)
next
  case (Cons p ps)
  obtain c cs' where cs: "cs = c # cs'" using Cons.prems(2) by (cases cs) simp_all
  obtain b where b: "holds crc s p b" "overflow_image crc p (head_of ps) c b" and rest: "chain_holds crc s ps cs'"
    using Cons.prems(2) cs by (auto simp: head_of_def)
  obtain t x where w: "with_read crc s p (chain_link crc p tot out) = (t, x)" by fastforce
  obtain b' where b': "x = chain_link crc p tot out b'" "page_ok crc p b'" "page_body b' = page_body b" "reads_only crc s t"
    by (rule with_read_idle [OF Cons.prems(1) b(1) w])
  have x: "x = Ok (head_of ps, out @ c)"
    unfolding b'(1) using chain_link_image [OF overflow_image_body [OF b(2) b'(2,3)], of out tot] Cons.prems(5) cs by simp
  have step: "chain_walk crc s cap hops (head_of (p # ps)) tot out = chain_walk crc t cap (hops + 1) (head_of ps) tot (out @ c)"
    using Cons.prems(3,4) w x by (simp add: chain_walk.simps [of crc s] head_of_def)
  have "chain_holds crc t ps cs'" using chain_holds_mono [OF rest] reads_only_holds [OF b'(4)] by blast
  then obtain u where "chain_walk crc t cap (hops + 1) (head_of ps) tot (out @ c) = (u, Ok ((out @ c) @ concat cs'))" "reads_only crc t u"
    using Cons.IH [of t cs' "hops + 1" "out @ c"] Cons.prems(3-5) reads_only_idle [OF b'(4)] cs by auto
  then show ?case using step reads_only_trans [OF b'(4)] cs by auto
qed

text \<open>A page that is not resident is what the disk holds.\<close>

lemma holds_disk:
  assumes "holds crc s p b" "table s p = None"
  shows "sealed_ok crc p (disk_page (pool_file s) p)" "page_body (disk_page (pool_file s) p) = page_body b"
  using assms by (auto simp: holds_def pool_view_def disk_view_def split: if_splits)

lemma run_value_reads:
  assumes "chain_holds crc s ps cs" "ps \<noteq> []" "0 \<notin> set ps" "hd ps = head + i" "i < n"
    and "\<And>k. k < n \<Longrightarrow> table s (head + k) = None \<and> slice buf (k * PAGE_SIZE) ((k + 1) * PAGE_SIZE) = disk_page (pool_file s) (head + k)"
    and "run_value crc buf head n tot out [i..<n] = Some v"
  shows "v = out @ concat cs"
  using assms(1-5,7)
proof (induction ps arbitrary: cs i out)
  case (Cons p ps)
  obtain c cs' where cs: "cs = c # cs'" using Cons.prems(1) by (cases cs) simp_all
  obtain b where b: "holds crc s p b" "overflow_image crc p (head_of ps) c b" and rest: "chain_holds crc s ps cs'"
    using Cons.prems(1) cs by (auto simp: head_of_def)
  have p: "p = head + i" using Cons.prems(4) by simp
  let ?d = "disk_page (pool_file s) p"
  have d: "table s p = None" "slice buf (i * PAGE_SIZE) ((i + 1) * PAGE_SIZE) = ?d" using assms(6) [OF Cons.prems(5)] p by simp_all
  note hd = holds_disk [OF b(1) d(1)]
  have im: "overflow_image crc p (head_of ps) c ?d"
    by (rule overflow_image_body [OF b(2) sealed_ok_page_ok [OF hd(1)] hd(2)])
  have up: "[i..<n] = i # [Suc i..<n]" using Cons.prems(5) by (simp add: upt_conv_Cons)
  have nx: "head_of ps = (if Suc i < n then Suc (head + i) else 0)" and r: "run_value crc buf head n tot (out @ c) [Suc i..<n] = Some v"
    using Cons.prems(6) im unfolding up
    by (auto simp: Let_def d(2) [simplified] p [symmetric] overflow_image_def page_ok_def split: if_splits)
  show ?case
  proof (cases ps)
    case Nil
    then have "\<not> Suc i < n" using nx by (auto simp: head_of_def split: if_splits)
    moreover have "cs' = []" using rest Nil by (cases cs') simp_all
    ultimately show ?thesis using r cs by simp
  next
    case (Cons q qs)
    then have "q \<noteq> 0" "head_of ps = q" using Cons.prems(3) by (auto simp: head_of_def)
    then have q: "Suc i < n" "q = head + Suc i" using nx by (auto split: if_splits)
    have "v = (out @ c) @ concat cs'"
      using Cons.IH [of cs' "Suc i" "out @ c"] rest Cons Cons.prems(3) q r by simp
    then show ?thesis using cs by simp
  qed
qed simp

lemma read_run_value_chain:
  assumes "chain_holds crc s ps cs" "ps \<noteq> []" "0 \<notin> set ps" "read_run_value crc s (hd ps) tot want = Some v"
  shows "v = concat cs"
proof -
  let ?h = "hd ps"
  define n where "n = max ((tot + OV_CAP - 1) div OV_CAP) 1"
  obtain buf where rr: "read_run_uncached crc s ?h n [] = Ok (True, buf)" and rv: "run_value crc buf ?h n tot [] [0..<n] = Some v"
    using assms(4) unfolding read_run_value_def Let_def n_def [symmetric]
    by (auto split: if_splits outcome.splits prod.splits bool.splits option.splits)
  have n: "0 < n" by (simp add: n_def)
  have tab: "table s p = None" if "p \<in> {?h..<?h + n}" for p
    using rr that by (auto simp: read_run_uncached_def list_ex_iff split: if_splits)
  have "read_at (pool_file s) (page_at ?h) (n * PAGE_SIZE) = Ok buf"
    using rr by (auto simp: read_run_uncached_def obind_iffs split: if_splits)
  then have buf: "buf = slice (contents (pool_file s)) (page_at ?h) (page_at ?h + n * PAGE_SIZE)" using read_at_Ok by blast
  have sl: "slice buf (k * PAGE_SIZE) ((k + 1) * PAGE_SIZE) = disk_page (pool_file s) (?h + k)" if "k < n" for k
  proof -
    have "(k + 1) * PAGE_SIZE \<le> n * PAGE_SIZE" using that by (intro mult_le_mono1) simp
    then show ?thesis unfolding buf disk_page_def page_at_def by (simp add: slice_slice algebra_simps)
  qed
  have "v = [] @ concat cs"
    by (rule run_value_reads [OF assms(1-3) _ n _ rv]) (use tab sl in auto)
  then show ?thesis by simp
qed

lemma chunks_Nil [simp]: "chunks n [] = []"
  by (simp add: chunks.simps)

lemma chunks_concat: "0 < n \<Longrightarrow> concat (chunks n xs) = xs"
proof (induction n xs rule: chunks.induct)
  case (1 n xs)
  then show ?case by (cases "xs = []") (simp_all add: chunks.simps [of n xs])
qed

lemma chunks_length: "c \<in> set (chunks n xs) \<Longrightarrow> length c \<le> n"
proof (induction n xs rule: chunks.induct)
  case (1 n xs)
  then show ?case by (cases "xs = [] \<or> n = 0") (auto simp: chunks.simps [of n xs])
qed

definition spill :: "bytes \<Rightarrow> bytes list" where
  "spill val = (case chunks OV_CAP val of [] \<Rightarrow> [[]] | cs \<Rightarrow> cs)"

lemma spill_facts: "concat (spill val) = val" "\<forall>c \<in> set (spill val). length c \<le> OV_CAP" "spill val \<noteq> []"
  using chunks_concat [of OV_CAP val] chunks_length [of _ OV_CAP val]
  by (auto simp: spill_def ov_values split: list.splits)

lemma distinct_below: "distinct ps \<Longrightarrow> \<forall>p \<in> set ps. p < n \<Longrightarrow> length ps \<le> (n :: nat)"
  using card_mono [of "{..<n}" "set ps"] by (auto simp: distinct_card)

text \<open>Spilling a value: it never panics, and what it leaves is the chain of its chunks on pages of its own.\<close>

lemma write_overflow_chain:
  assumes "idle crc s" "alloc_ready s" "write_overflow crc debug s val = (s', Ok (head, c))"
  obtains ps where "idle crc s'" "alloc_ready s'" "chain_holds crc s' ps (spill val)" "ps \<noteq> []" "0 \<notin> set ps" "head = hd ps" "c = crc 0 val"
    "set ps \<subseteq> available s" "length ps \<le> next_page s'" "limits s' = limits s" "\<not> over_record_limit s (length val)" "\<forall>p \<in> set ps. p < u32_max"
    "\<forall>m d. m \<notin> set ps \<and> holds crc s m d \<longrightarrow> holds crc s' m d" "available s' = available s - set ps"
    "distinct ps" "length ps = length (spill val)" "next_page s \<le> next_page s'" "next_page s' \<le> next_page s + length ps"
    "\<forall>p. is_frozen s' p \<longrightarrow> is_frozen s p" "length (frames s') = length (frames s)"
proof -
  have lim: "\<not> over_record_limit s (length val)"
    using assms(3) by (cases "over_record_limit s (length val)") (simp_all add: write_overflow_def)
  obtain t x where a: "alloc_pages crc debug s (length (spill val)) = (t, x)" by fastforce
  have w: "write_overflow crc debug s val = then_do (t, x) (\<lambda>s pages.
      then_do (fill_pages crc s pages (spill val)) (\<lambda>s _. (s, Ok (hd pages, crc 0 val))))"
    using lim by (simp add: write_overflow_def spill_def [symmetric] Let_def a)
  obtain ps where x: "x = Ok ps" using assms(3) w by (cases x) simp_all
  have ct: "chain_taken crc s t ps" "length ps = length (spill val)" using alloc_pages_taken [OF assms(1,2)] a x by simp_all
  obtain u y where f: "fill_pages crc t ps (spill val) = (u, y)" by fastforce
  have ti: "idle crc t" "alloc_ready t" "distinct ps" "available t = available s - set ps" "0 \<notin> set ps" "set ps \<subseteq> available s"
      "limits t = limits s" "\<forall>p \<in> set ps. p < u32_max" "\<forall>p \<in> set ps. \<not> is_frozen t p \<and> (\<exists>e. holds crc t p e)"
    using ct(1) unfolding chain_taken_def by blast+
  have pp: "\<forall>p \<in> set ps. p \<le> u32_max \<and> \<not> is_frozen t p \<and> (\<exists>e. holds crc t p e)" using ti(8,9) by (meson less_imp_le)
  note fp = fill_pages_chain [OF ti(1,3) ct(2) [symmetric] spill_facts(2) pp f]
  have y: "y = Ok ()" using fp by blast
  have e: "s' = u" "head = hd ps" "c = crc 0 val" using assms(3) by (simp_all add: w x f y)
  have tr: "reuse.truncate u = reuse.truncate t" using fp by blast
  note at = alloc_inv_truncate [OF tr]
  have au: "available u = available t" by (simp add: available_def at)
  have ext: "extent_within (next_page t) t" using ti(2) by (simp add: alloc_ready_def alloc_inv_def)
  then have "extent_within (next_page t) u" using fp by blast
  then have ru: "alloc_ready u" using ti(2) by (simp add: alloc_ready_def alloc_inv_def at)
  have "p < next_page u" if "p \<in> set ps" for p
  proof -
    have "p \<notin> available t" using that ti(4) by blast
    then show ?thesis unfolding available_def at(1) by (simp del: set_concat)
  qed
  then have len: "length ps \<le> next_page u" using distinct_below [OF ti(3)] by blast
  have lu: "limits u = limits s" using tr ti(7) by (simp add: reuse.defs)
  have "ps \<noteq> []" using ct(2) spill_facts(3) [of val] by auto
  moreover have "\<forall>m d. m \<notin> set ps \<and> holds crc s m d \<longrightarrow> holds crc u m d" using fp ct(1) unfolding chain_taken_def by blast
  moreover have "idle crc u" "chain_holds crc u ps (spill val)" using fp by blast+
  moreover have "available u = available s - set ps" using au ti(4) by simp
  moreover have "next_page s \<le> next_page u" "next_page u \<le> next_page s + length ps" "\<forall>p. is_frozen u p \<longrightarrow> is_frozen s p" "length (frames u) = length (frames s)"
    using ct(1) fp at(1) truncate_frozen [OF tr] unfolding chain_taken_def by auto
  ultimately show thesis using that [of ps, unfolded e] ru ti(3,5,6,8) ct(2) len lu lim e by blast
qed

lemma alloc_pages_no_panic:
  assumes "idle crc s" "alloc_ready s"
  shows "snd (alloc_pages crc debug s k) \<noteq> Panic"
  using assms
proof (induction k arbitrary: s)
  case (Suc k)
  obtain t x where a: "alloc_page crc debug s = (t, x)" by fastforce
  show ?case
  proof (cases x)
    case (Ok p)
    then have "idle crc t" "alloc_ready t" using alloc_page_idle [OF Suc.prems] a by (simp_all add: allocated_from_def)
    then have n: "snd (alloc_pages crc debug t k) \<noteq> Panic" by (rule Suc.IH)
    obtain u y where "alloc_pages crc debug t k = (u, y)" by fastforce
    then show ?thesis using n a Ok by (cases y) simp_all
  qed (use a alloc_page_total(1) [OF Suc.prems, of debug] in simp_all)
qed simp

lemma write_overflow_returns:
  assumes "idle crc s" "alloc_ready s" "write_overflow crc debug s val = (s', r)"
  shows "r \<noteq> Panic" "limits s = None \<Longrightarrow> next_page s + length (spill val) \<le> u32_max \<Longrightarrow> is_ok r"
proof -
  obtain t x where a: "alloc_pages crc debug s (length (spill val)) = (t, x)" by fastforce
  have w: "write_overflow crc debug s val = then_do (t, x) (\<lambda>s pages.
      then_do (fill_pages crc s pages (spill val)) (\<lambda>s _. (s, Ok (hd pages, crc 0 val))))" if "\<not> over_record_limit s (length val)"
    using that by (simp add: write_overflow_def spill_def [symmetric] Let_def a)
  have fill: "snd (fill_pages crc t ps (spill val)) = Ok ()" if x: "x = Ok ps" for ps
  proof -
    have ct: "chain_taken crc s t ps" "length ps = length (spill val)" using alloc_pages_taken [OF assms(1,2)] a x by simp_all
    then have ti: "idle crc t" "distinct ps" "\<forall>p \<in> set ps. p < u32_max" "\<forall>p \<in> set ps. \<not> is_frozen t p \<and> (\<exists>e. holds crc t p e)"
      unfolding chain_taken_def by blast+
    then have pp: "\<forall>p \<in> set ps. p \<le> u32_max \<and> \<not> is_frozen t p \<and> (\<exists>e. holds crc t p e)" by (meson less_imp_le)
    obtain u y where f: "fill_pages crc t ps (spill val) = (u, y)" by fastforce
    show ?thesis using fill_pages_chain [OF ti(1,2) ct(2) [symmetric] spill_facts(2) pp f] f by simp
  qed
  have ok: "\<exists>u h. write_overflow crc debug s val = (u, Ok h)" if "\<not> over_record_limit s (length val)" "x = Ok ps" for ps
    using w [OF that(1)] fill [OF that(2)] that(2) by (cases "fill_pages crc t ps (spill val)") simp
  show "r \<noteq> Panic"
  proof (cases "over_record_limit s (length val)")
    case True
    then show ?thesis using assms(3) by (auto simp: write_overflow_def)
  next
    case False
    then show ?thesis using w assms(3) ok alloc_pages_no_panic [OF assms(1,2), of debug "length (spill val)"] a by (cases x) auto
  qed
  show "is_ok r" if "limits s = None" "next_page s + length (spill val) \<le> u32_max"
  proof -
    have "\<not> over_record_limit s (length val)" using that(1) by (simp add: over_record_limit_def)
    moreover have "\<exists>ps. x = Ok ps" using alloc_pages_total [OF assms(1,2) that, of debug] a by auto
    ultimately show ?thesis using ok assms(3) by auto
  qed
qed

text \<open>
  A marker whose chain, on the pages \<open>ps\<close>, holds a value; no page of it can be handed out by the
  allocator. And what reading it returns.
\<close>

definition spilled :: "crc_fn \<Rightarrow> pool \<Rightarrow> bytes \<Rightarrow> bytes \<Rightarrow> nat list \<Rightarrow> bool" where
  "spilled crc s marker val ps \<longleftrightarrow>
     length val \<le> u32_max \<and> \<not> over_record_limit s (length val) \<and>
     marker = enc_marker (of_nat (length val)) (of_nat (hd ps)) (crc 0 val) \<and> chain_holds crc s ps (spill val) \<and>
     ps \<noteq> [] \<and> (\<forall>p \<in> set ps. 1 < p) \<and> length ps \<le> next_page s \<and> hd ps \<le> u32_max \<and> set ps \<inter> available s = {}"

lemma spilled_frame:
  assumes "spilled crc s marker val ps" "\<And>p c. p \<in> set ps \<Longrightarrow> holds crc s p c \<Longrightarrow> holds crc t p c" "set ps \<inter> available t = {}"
    and "next_page s \<le> next_page t" "limits t = limits s"
  shows "spilled crc t marker val ps"
proof -
  have "chain_holds crc s ps cs \<Longrightarrow> chain_holds crc t ps cs" for cs using chain_holds_mono assms(2) by blast
  then show ?thesis using assms(1,3-5) unfolding spilled_def over_record_limit_def by auto
qed

lemma reads_only_available:
  assumes "reads_only crc s t"
  shows "available t = available s"
proof -
  have "reuse.truncate t = reuse.truncate s" using assms by (simp add: reads_only_def)
  from alloc_inv_truncate [OF this] show ?thesis by (simp add: available_def)
qed

lemma spilled_reads_only:
  assumes "reads_only crc s t" "spilled crc s marker val ps"
  shows "spilled crc t marker val ps"
  using assms(2) reads_only_allocator [OF assms(1)] reads_only_available [OF assms(1)] reads_only_holds [OF assms(1)]
  by (intro spilled_frame [OF assms(2)]) (simp_all add: spilled_def)

lemma read_overflow_spilled:
  assumes "idle crc s" "spilled crc s marker val ps"
  shows "\<exists>t. read_overflow crc s marker = (t, Ok val) \<and> reads_only crc s t"
proof -
  have p: "length val \<le> u32_max" "\<not> over_record_limit s (length val)"
      "marker = enc_marker (of_nat (length val)) (of_nat (hd ps)) (crc 0 val)" "chain_holds crc s ps (spill val)"
      "ps \<noteq> []" "0 \<notin> set ps" "length ps \<le> next_page s" "hd ps \<le> u32_max"
    using assms(2) by (force simp: spilled_def)+
  have mk: "length marker = 12" "unat (from_le (slice marker 0 4) :: u32) = length val" "unat (from_le (slice marker 4 8) :: u32) = hd ps"
      "from_le (slice marker 8 12) = crc 0 val"
    using p(1,8) by (simp_all add: p(3) enc_marker_def slice_append_left slice_append_right slice_whole unat_of_nat)
  show ?thesis
  proof (cases "read_run_value crc s (hd ps) (length val) (crc 0 val)")
    case None
    obtain t where t: "chain_walk crc s (next_page s) 0 (head_of ps) (length val) [] = (t, Ok ([] @ concat (spill val)))" "reads_only crc s t"
      using chain_walk_reads [OF assms(1) p(4,6), of 0 "next_page s" "[]" "length val"] p(7) spill_facts(1) by auto
    have h: "head_of ps = hd ps" using p(5) by (cases ps) (simp_all add: head_of_def)
    have "read_overflow crc s marker = (t, Ok val)"
      using mk p(2) None t(1) h spill_facts(1) [of val] by (simp add: read_overflow_def Let_def)
    then show ?thesis using t by blast
  next
    case (Some v)
    have "v = val" using read_run_value_chain [OF p(4,5,6) Some] spill_facts(1) by simp
    then have "read_overflow crc s marker = (s, Ok val)" using mk p(2) Some by (simp add: read_overflow_def Let_def)
    then show ?thesis using reads_only_refl [OF assms(1)] by blast
  qed
qed



end
