(* ===== verification/Btree_Read.thy ===== *)
theory Btree_Read
  imports Overflow
begin

text \<open>
  Reading a B+tree through the buffer pool (core/kernel/src/btree.rs): opening a page through the
  frame's validated bit, binary search in a page, the descent and the point lookup. A descent over a
  damaged file may follow a cycle of interior pages for ever, so the loops are partial functions
  whose value \<open>None\<close> is not returning; the main result is that on a stored tree they return, and
  return what the tree's key-value list says.
\<close>

record btree =
  tree_id :: u16
  root :: nat

section \<open>Operations that may not return\<close>

definition then_may :: "('s \<times> 'a kresult) option \<Rightarrow> ('s \<Rightarrow> 'a \<Rightarrow> ('s \<times> 'b kresult) option) \<Rightarrow> ('s \<times> 'b kresult) option" where
  "then_may m k = Option.bind m (\<lambda>x. case x of (s, Ok a) \<Rightarrow> k s a | (s, Err e) \<Rightarrow> Some (s, Err e) | (s, Panic) \<Rightarrow> Some (s, Panic))"

lemma then_may_simps [simp]:
  "then_may None k = None" "then_may (Some (s, Ok a)) k = k s a"
  "then_may (Some (s, Err e)) k = Some (s, Err e)" "then_may (Some (s, Panic)) k = Some (s, Panic)"
  by (simp_all add: then_may_def)

lemma then_may_mono [partial_function_mono]:
  assumes "mono_option (\<lambda>f. m f)" "\<And>s a. mono_option (\<lambda>f. k f s a)"
  shows "mono_option (\<lambda>f. then_may (m f) (k f))"
proof -
  have "mono_option (\<lambda>f. case x of (s, Ok a) \<Rightarrow> k f s a | (s, Err e) \<Rightarrow> Some (s, Err e) | (s, Panic) \<Rightarrow> Some (s, Panic))" for x
    using assms(2) by (cases x; cases "snd x") (auto intro: option.const_mono)
  then show ?thesis unfolding then_may_def by (intro bind_mono assms(1))
qed

section \<open>Opening a page of a tree\<close>

text \<open>\<open>open_cached\<close> on the page pinned in frame \<open>i\<close>.\<close>

definition open_cached :: "crc_fn \<Rightarrow> pool \<Rightarrow> nat \<Rightarrow> nat \<Rightarrow> pool \<times> bytes kresult" where
  "open_cached crc s i no =
     (if validated (frames s ! i) then (s, open_resident_validated (region s ! i) (of_nat no))
      else case obind (open_resident crc (region s ! i) (of_nat no)) (\<lambda>p. obind (validate_records p) (\<lambda>_. Ok p)) of
        Ok p \<Rightarrow> (set_validated s i, Ok p)
      | Err e \<Rightarrow> (s, Err e)
      | Panic \<Rightarrow> (s, Panic))"

text \<open>A read guard held over \<open>open_cached\<close> and a pure use of the page, dropped at the end of its block.\<close>

definition with_page :: "crc_fn \<Rightarrow> pool \<Rightarrow> nat \<Rightarrow> (bytes \<Rightarrow> 'a kresult) \<Rightarrow> pool \<times> 'a kresult" where
  "with_page crc s no k =
     then_do (pool_get crc s no) (\<lambda>s i.
     let (s, r) = open_cached crc s i no in
     case unpin s i False of Ok s' \<Rightarrow> (s', obind r k) | _ \<Rightarrow> (s, Panic))"

definition own_page :: "u16 \<Rightarrow> nat \<Rightarrow> string \<Rightarrow> bytes \<Rightarrow> unit kresult" where
  "own_page tid cur why p = (if page_tree_id p \<noteq> tid then Err (Corrupt (of_nat cur) why) else Ok ())"

section \<open>Searching a page\<close>

function bound_loop :: "(bytes \<Rightarrow> bool) \<Rightarrow> bytes \<Rightarrow> nat \<Rightarrow> nat \<Rightarrow> nat kresult" where
  "bound_loop below p lo hi =
     (if lo < hi then
        let mid = (lo + hi) div 2 in
        obind (page_slot p mid) (\<lambda>rec.
        obind (validated_key rec) (\<lambda>k.
        if below k then bound_loop below p (mid + 1) hi else bound_loop below p lo mid))
      else Ok lo)"
  by pat_completeness auto
termination by (relation "measure (\<lambda>(below, p, lo, hi). hi - lo)") auto

declare bound_loop.simps [simp del]

definition lower_bound :: "bytes \<Rightarrow> bytes \<Rightarrow> nat kresult" where
  "lower_bound p key = bound_loop (\<lambda>k. k < key) p 0 (nentries p)"

definition upper_bound :: "bytes \<Rightarrow> bytes \<Rightarrow> nat kresult" where
  "upper_bound p key = bound_loop (\<lambda>k. k \<le> key) p 0 (nentries p)"

text \<open>\<open>pool.page_count()\<close> is \<open>pages\<close>.\<close>

definition child_at :: "nat \<Rightarrow> bytes \<Rightarrow> nat \<Rightarrow> nat kresult" where
  "child_at pages p index =
     obind (if index = 0 then Ok (page_next_leaf p) else obind (page_slot p (index - 1)) validated_child) (\<lambda>child.
     if child = 0 \<or> unat child \<ge> pages
     then Err (Corrupt (page_page_no p) ''interior child pointer is outside the data file'')
     else Ok (unat child))"

section \<open>Descending\<close>

text \<open>One round of the descent: at a leaf the result of \<open>at_leaf\<close>, otherwise the child to enter.\<close>

definition descend_page :: "u16 \<Rightarrow> bytes \<Rightarrow> (bytes \<Rightarrow> 'a kresult) \<Rightarrow> nat \<Rightarrow> nat \<Rightarrow> bytes \<Rightarrow> ('a + nat \<times> nat) kresult" where
  "descend_page tid key at_leaf pages cur p =
     obind (own_page tid cur ''page belongs to another tree'' p) (\<lambda>_.
     obind (page_kind_of p) (\<lambda>kind.
     if kind = PageLeaf then obind (at_leaf p) (\<lambda>a. Ok (Inl a))
     else obind (upper_bound p key) (\<lambda>i. obind (child_at pages p i) (\<lambda>child. Ok (Inr (i, child))))))"

partial_function (option) descend_loop ::
  "crc_fn \<Rightarrow> u16 \<Rightarrow> bytes \<Rightarrow> (bytes \<Rightarrow> 'a kresult) \<Rightarrow> pool \<Rightarrow> nat \<Rightarrow> (nat \<times> nat) list \<Rightarrow>
     (pool \<times> (nat \<times> 'a \<times> (nat \<times> nat) list) kresult) option" where
  "descend_loop crc tid key at_leaf s cur path =
     (case with_page crc s cur (descend_page tid key at_leaf (next_page s) cur) of
        (s, Ok (Inl a)) \<Rightarrow> Some (s, Ok (cur, a, path))
      | (s, Ok (Inr (i, child))) \<Rightarrow> descend_loop crc tid key at_leaf s child (path @ [(cur, i)])
      | (s, Err e) \<Rightarrow> Some (s, Err e)
      | (s, Panic) \<Rightarrow> Some (s, Panic))"

text \<open>The three descents of the code differ in what they keep of the path and do at the leaf.\<close>

definition omap :: "('a \<Rightarrow> 'b) \<Rightarrow> pool \<times> 'a kresult \<Rightarrow> pool \<times> 'b kresult" where
  "omap f x = then_do x (\<lambda>s a. (s, Ok (f a)))"

definition descend :: "crc_fn \<Rightarrow> pool \<Rightarrow> btree \<Rightarrow> bytes \<Rightarrow> (pool \<times> (nat \<times> nat list) kresult) option" where
  "descend crc s t key =
     map_option (omap (\<lambda>(leaf, _, path). (leaf, map fst path))) (descend_loop crc (tree_id t) key (\<lambda>_. Ok ()) s (root t) [])"

definition descend_positioned :: "crc_fn \<Rightarrow> pool \<Rightarrow> btree \<Rightarrow> bytes \<Rightarrow> (pool \<times> (nat \<times> nat \<times> (nat \<times> nat) list) kresult) option" where
  "descend_positioned crc s t key = descend_loop crc (tree_id t) key (\<lambda>p. lower_bound p key) s (root t) []"

definition descend_with_path :: "crc_fn \<Rightarrow> pool \<Rightarrow> btree \<Rightarrow> bytes \<Rightarrow> (pool \<times> (nat \<times> (nat \<times> nat) list) kresult) option" where
  "descend_with_path crc s t key =
     map_option (omap (\<lambda>(leaf, _, path). (leaf, path))) (descend_loop crc (tree_id t) key (\<lambda>_. Ok ()) s (root t) [])"

section \<open>The point lookup\<close>

text \<open>What the leaf says of a key: absent, a value, or the marker of a spilled value.\<close>

definition leaf_lookup :: "bytes \<Rightarrow> bytes \<Rightarrow> (bytes \<times> bool) option kresult" where
  "leaf_lookup key p =
     obind (lower_bound p key) (\<lambda>i.
     if i < nentries p then
       obind (page_slot p i) (\<lambda>rec.
       obind (validated_leaf rec) (\<lambda>(stored_key, value, overflow).
       if stored_key \<noteq> key then Ok None else Ok (Some (value, overflow))))
     else Ok None)"

definition btree_get :: "crc_fn \<Rightarrow> pool \<Rightarrow> btree \<Rightarrow> bytes \<Rightarrow> (pool \<times> bytes option kresult) option" where
  "btree_get crc s t key =
     map_option (\<lambda>d. then_do d (\<lambda>s (leaf, _).
       then_do (with_page crc s leaf (leaf_lookup key)) (\<lambda>s found.
       case found of
         None \<Rightarrow> (s, Ok None)
       | Some (value, False) \<Rightarrow> (s, Ok (Some value))
       | Some (marker, True) \<Rightarrow> omap Some (read_overflow crc s marker))))
     (descend crc s t key)"

section \<open>Stored trees\<close>

text \<open>
  The tree that pages spell out: a leaf with its page number and its entries, an interior node with
  its page number, its leftmost child and its separators with their children. An entry is a key, its
  value and the overflow pages the value is spilled to (none for an inline value).
\<close>

type_synonym entry = "bytes \<times> bytes \<times> nat list"

definition kv :: "entry \<Rightarrow> bytes \<times> bytes" where
  "kv e = (fst e, fst (snd e))"

lemma fst_kv [simp]: "fst (kv e) = fst e" "fst \<circ> kv = fst"
  by (simp_all add: kv_def fun_eq_iff)

lemma snd_kv [simp]: "snd (kv e) = fst (snd e)"
  by (simp add: kv_def)

datatype tree =
    TLeaf nat "entry list"
  | TNode nat tree "(bytes \<times> tree) list"

fun page_of :: "tree \<Rightarrow> nat" where
  "page_of (TLeaf no es) = no"
| "page_of (TNode no t0 kts) = no"

fun tree_entries :: "tree \<Rightarrow> (bytes \<times> bytes) list" where
  "tree_entries (TLeaf no es) = map kv es"
| "tree_entries (TNode no t0 kts) = tree_entries t0 @ concat (map (\<lambda>(k, t). tree_entries t) kts)"

abbreviation tree_keys :: "tree \<Rightarrow> bytes set" where
  "tree_keys t \<equiv> fst ` set (tree_entries t)"

text \<open>The key order: a child's keys lie at or above its separator and below the next.\<close>

fun tree_ordered :: "tree \<Rightarrow> bool" where
  "tree_ordered (TLeaf no es) \<longleftrightarrow> sorted_wrt (<) (map fst es)"
| "tree_ordered (TNode no t0 kts) \<longleftrightarrow>
     tree_ordered t0 \<and> (\<forall>(k, t) \<in> set kts. tree_ordered t \<and> (\<forall>x \<in> tree_keys t. k \<le> x) \<and> (\<forall>x \<in> tree_keys t0. x < k)) \<and>
     sorted_wrt (\<lambda>(k, t) (k', t'). k < k' \<and> (\<forall>x \<in> tree_keys t. x < k')) kts"

text \<open>The pages of the pool hold the tree.\<close>

definition cell_holds :: "crc_fn \<Rightarrow> pool \<Rightarrow> nat \<Rightarrow> bytes \<Rightarrow> entry \<Rightarrow> bool" where
  "cell_holds crc s no rec e \<longleftrightarrow>
     (case e of (k, v, ps) \<Rightarrow>
       decode_record rec (of_nat no) PageLeaf = Ok (LeafRecord k v False) \<and> ps = [] \<or>
       (\<exists>marker. decode_record rec (of_nat no) PageLeaf = Ok (LeafRecord k marker True) \<and> spilled crc s marker v ps))"

definition leaf_image :: "crc_fn \<Rightarrow> pool \<Rightarrow> u16 \<Rightarrow> nat \<Rightarrow> entry list \<Rightarrow> bytes \<Rightarrow> bool" where
  "leaf_image crc s tid no es b \<longleftrightarrow>
     page_ok crc no b \<and> page_kind_of b = Ok PageLeaf \<and> page_tree_id b = tid \<and> list_all2 (cell_holds crc s no) (page_slots b) es"

definition sep_holds :: "nat \<Rightarrow> bytes \<Rightarrow> bytes \<times> nat \<Rightarrow> bool" where
  "sep_holds no rec e \<longleftrightarrow>
     decode_record rec (of_nat no) PageInterior = Ok (InteriorRecord (fst e) (of_nat (snd e))) \<and> snd e \<le> u32_max"

definition node_image :: "crc_fn \<Rightarrow> u16 \<Rightarrow> nat \<Rightarrow> nat \<Rightarrow> (bytes \<times> nat) list \<Rightarrow> bytes \<Rightarrow> bool" where
  "node_image crc tid no c0 kcs b \<longleftrightarrow>
     page_ok crc no b \<and> page_kind_of b = Ok PageInterior \<and> page_tree_id b = tid \<and> unat (page_next_leaf b) = c0 \<and>
     list_all2 (sep_holds no) (page_slots b) kcs"

definition node_kids :: "(bytes \<times> tree) list \<Rightarrow> (bytes \<times> nat) list" where
  "node_kids kts = map (\<lambda>(k, t). (k, page_of t)) kts"

fun tree_stored :: "crc_fn \<Rightarrow> pool \<Rightarrow> u16 \<Rightarrow> tree \<Rightarrow> bool" where
  "tree_stored crc s tid (TLeaf no es) \<longleftrightarrow> 0 < no \<and> no \<notin> available s \<and> no \<le> u32_max \<and> (\<exists>b. holds crc s no b \<and> leaf_image crc s tid no es b)"
| "tree_stored crc s tid (TNode no t0 kts) \<longleftrightarrow>
     0 < no \<and> no \<notin> available s \<and> no \<le> u32_max \<and> (\<exists>b. holds crc s no b \<and> node_image crc tid no (page_of t0) (node_kids kts) b) \<and>
     tree_stored crc s tid t0 \<and> (\<forall>(k, t) \<in> set kts. tree_stored crc s tid t)"

section \<open>Opening through the validated bit\<close>

lemma set_validated_view:
  "pool_file (set_validated s i) = pool_file s" "table (set_validated s i) = table s" "region (set_validated s i) = region s"
  "live_pins (set_validated s i) = live_pins s" "reuse.truncate (set_validated s i) = reuse.truncate s"
  "length (frames (set_validated s i)) = length (frames s)" "hand (set_validated s i) = hand s"
  by (simp_all add: set_validated_def set_frame_def reuse.defs)

lemma set_validated_frame:
  assumes "j < length (frames s)"
  shows "frames (set_validated s i) ! j = (frames s ! j)\<lparr>validated := validated (frames s ! j) \<or> i = j\<rparr>"
  using assms by (cases "i = j") (simp_all add: set_validated_def set_frame_def)

lemma set_validated_inv:
  assumes "pool_inv crc s"
  shows "pool_inv crc (set_validated s i)"
proof -
  let ?t = "set_validated s i"
  note v = set_validated_view [of s i] and f = set_validated_frame [of _ s i]
  have "map pins (frames ?t) = map pins (frames s)" by (rule nth_equalityI) (simp_all add: v f)
  moreover have "table_ok (table ?t) (frames ?t)" using assms by (auto simp: pool_inv_def table_ok_def v f)
  moreover have "is_frozen ?t = is_frozen s" by (rule truncate_frozen [OF v(5)])
  moreover have "frame_inv crc (is_frozen s) (disk_page (pool_file s)) (frames ?t ! j) (region s ! j)" if "j < length (frames s)" for j
    using inv_frame [OF assms that] that by (auto simp: frame_inv_def f)
  moreover have "frames ?t \<noteq> [] \<longleftrightarrow> frames s \<noteq> []" using v(6) by (metis length_0_conv)
  ultimately show ?thesis using assms by (simp add: pool_inv_def v)
qed

lemma set_validated_reads_only: "idle crc s \<Longrightarrow> reads_only crc s (set_validated s i)"
proof -
  assume a: "idle crc s"
  note v = set_validated_view [of s i]
  have "frames (set_validated s i) \<noteq> []" using a v(6) by (metis idle_def length_0_conv)
  then have "idle crc (set_validated s i)" using a set_validated_inv by (simp add: idle_def v)
  moreover have "pool_view crc (set_validated s i) = pool_view crc s"
    by (rule ext) (simp add: pool_view_def v cong: option.case_cong)
  ultimately show ?thesis by (simp add: reads_only_def v holds_def extent_within_def)
qed

lemma unpin_set_validated:
  "unpin (set_validated s i) i False = (case unpin s i False of Ok u \<Rightarrow> Ok (set_validated u i) | Err e \<Rightarrow> Err e | Panic \<Rightarrow> Panic)"
  by (cases s; cases "frames s ! i") (auto simp: unpin_def set_validated_def set_frame_def Let_def)

text \<open>Whether the records of a page decode is a matter of its records.\<close>

lemma validate_slots_all:
  assumes "page_ok crc no b" "\<forall>i \<in> set is. i < nentries b \<and> (\<exists>d. decode_record (page_slots b ! i) n kind = Ok d)"
  shows "validate_slots b n kind is = Ok ()"
  using assms(2)
proof (induction "is")
  case (Cons i "is")
  then have "page_slot b i = Ok (page_slots b ! i)" using open_slot [OF assms(1)] by simp
  moreover obtain d where "decode_record (page_slots b ! i) n kind = Ok d" using Cons.prems by auto
  ultimately show ?case using Cons by simp
qed simp

lemma page_ok_no: "page_ok crc no b \<Longrightarrow> page_page_no b = of_nat no"
  unfolding page_ok_def open_resident_def page_page_no_def by (rule open_inner_Ok(3))

lemma validate_records_all:
  assumes "page_ok crc no b" "page_kind_of b = Ok kind" "\<forall>rec \<in> set (page_slots b). \<exists>d. decode_record rec (of_nat no) kind = Ok d"
  shows "validate_records b = Ok ()"
proof -
  have "\<exists>d. decode_record (page_slots b ! i) (of_nat no) kind = Ok d" if "i < nentries b" for i
    using assms(3) that by (simp add: page_slots_def)
  then have "validate_slots b (of_nat no) kind [0..<nentries b] = Ok ()" by (intro validate_slots_all [OF assms(1)]) simp
  then show ?thesis by (simp add: validate_records_def assms(2) page_ok_no [OF assms(1)])
qed

lemma open_validated_accepts: "page_ok crc no b \<Longrightarrow> open_resident_validated b (of_nat no) = Ok b"
  unfolding page_ok_def open_resident_def open_resident_validated_def open_inner_def Let_def by (simp split: if_splits)

text \<open>A page that is a tree page of the given kind opens through either path.\<close>

lemma with_page_reads:
  assumes "idle crc s" "holds crc s no b" "page_kind_of b = Ok kind"
    and "\<forall>rec \<in> set (page_slots b). \<exists>d. decode_record rec (of_nat no) kind = Ok d"
  obtains b' t where "with_page crc s no k = (t, k b')" "page_ok crc no b'" "page_body b' = page_body b" "reads_only crc s t"
proof -
  obtain u x where w: "with_read crc s no Ok = (u, x)" by fastforce
  obtain b' where b': "x = Ok b'" "page_ok crc no b'" "page_body b' = page_body b" "reads_only crc s u"
    by (rule with_read_idle [OF assms(1,2) w])
  obtain t y where g: "pool_get crc s no = (t, y)" by fastforce
  obtain i where y: "y = Ok i" using w b'(1) g by (cases y) (simp_all add: with_read_def)
  have u: "unpin t i False = Ok u" "b' = region t ! i"
    using w b'(1) g y by (auto simp: with_read_def split: outcome.splits)
  have bk: "page_ok crc no b" using assms(2) by (simp add: holds_def)
  note sl = body_slots [OF b'(2) bk b'(3)]
  have v: "validate_records b' = Ok ()" by (rule validate_records_all [OF b'(2)]) (use assms(3,4) sl in simp_all)
  have r: "open_resident crc b' (of_nat no) = Ok b'" using b'(2) by (simp add: page_ok_def)
  let ?t = "if validated (frames t ! i) then u else set_validated u i"
  have "with_page crc s no k = (?t, k b')"
    using u(1) by (simp add: with_page_def g y open_cached_def u(2) [symmetric] r v open_validated_accepts [OF b'(2)] unpin_set_validated)
  moreover have "reads_only crc s ?t"
    using b'(4) set_validated_reads_only [OF reads_only_idle [OF b'(4)]] reads_only_trans by (cases "validated (frames t ! i)") auto
  ultimately show thesis using that b'(2,3) by blast
qed

section \<open>Binary search\<close>

lemma takeWhile_index:
  assumes "sorted_wrt (\<lambda>x y. P y \<longrightarrow> P x) ks" "i < length ks"
  shows "P (ks ! i) \<longleftrightarrow> i < length (takeWhile P ks)"
  using assms
proof (induction ks arbitrary: i)
  case (Cons k ks)
  show ?case
  proof (cases i)
    case (Suc j)
    have "P (ks ! j) \<Longrightarrow> P k" using Cons.prems Suc nth_mem [of j ks] by auto
    then show ?thesis using Cons.IH [of j] Cons.prems Suc by auto
  qed simp
qed simp

lemma bound_loop_finds:
  assumes "page_ok crc no b" "length ks = nentries b" "\<And>i. i < nentries b \<Longrightarrow> validated_key (page_slots b ! i) = Ok (ks ! i)"
    and "sorted_wrt (\<lambda>x y. below y \<longrightarrow> below x) ks" "lo \<le> length (takeWhile below ks)" "length (takeWhile below ks) \<le> hi" "hi \<le> length ks"
  shows "bound_loop below b lo hi = Ok (length (takeWhile below ks))"
  using assms(5-7)
proof (induction "hi - lo" arbitrary: lo hi rule: less_induct)
  case less
  show ?case
  proof (cases "lo < hi")
    case True
    define mid where "mid = (lo + hi) div 2"
    have m: "lo \<le> mid" "mid < hi" using True by (simp_all add: mid_def)
    then have ml: "mid < nentries b" "mid < length ks" using less.prems assms(2) by simp_all
    have "bound_loop below b lo hi = (if below (ks ! mid) then bound_loop below b (mid + 1) hi else bound_loop below b lo mid)"
      using True open_slot [OF assms(1) ml(1)] assms(3) [OF ml(1)]
      by (subst bound_loop.simps) (simp add: Let_def mid_def [symmetric])
    moreover have "below (ks ! mid) \<longleftrightarrow> mid < length (takeWhile below ks)" by (rule takeWhile_index [OF assms(4) ml(2)])
    moreover have "bound_loop below b (mid + 1) hi = Ok (length (takeWhile below ks))" if "mid < length (takeWhile below ks)"
      by (rule less.hyps) (use m less.prems that in simp_all)
    moreover have "bound_loop below b lo mid = Ok (length (takeWhile below ks))" if "\<not> mid < length (takeWhile below ks)"
      by (rule less.hyps) (use m less.prems that in simp_all)
    ultimately show ?thesis by simp
  next
    case False
    then show ?thesis using less.prems by (simp add: bound_loop.simps)
  qed
qed

lemma bounds_find:
  assumes "page_ok crc no b" "length ks = nentries b" "\<And>i. i < nentries b \<Longrightarrow> validated_key (page_slots b ! i) = Ok (ks ! i)"
    and "sorted_wrt (<) ks"
  shows "lower_bound b key = Ok (length (takeWhile (\<lambda>k. k < key) ks))" "upper_bound b key = Ok (length (takeWhile (\<lambda>k. k \<le> key) ks))"
proof -
  have "sorted_wrt (\<lambda>x y. y < key \<longrightarrow> x < key) ks" "sorted_wrt (\<lambda>x y. y \<le> key \<longrightarrow> x \<le> key) ks"
    using assms(4) by (auto elim!: sorted_wrt_mono_rel [rotated])
  moreover have "length (takeWhile P ks) \<le> nentries b" for P using assms(2) length_takeWhile_le [of P ks] by simp
  ultimately show "lower_bound b key = Ok (length (takeWhile (\<lambda>k. k < key) ks))"
      "upper_bound b key = Ok (length (takeWhile (\<lambda>k. k \<le> key) ks))"
    unfolding lower_bound_def upper_bound_def using assms(2) by (auto intro!: bound_loop_finds [OF assms(1-3)])
qed

section \<open>Page images of the tree\<close>

lemma cell_decodes: "cell_holds crc s no rec e \<Longrightarrow> \<exists>raw ov. decode_record rec (of_nat no) PageLeaf = Ok (LeafRecord (fst e) raw ov)"
  by (cases e) (auto simp: cell_holds_def)

lemma leaf_image_body:
  assumes "leaf_image crc s tid no es b" "page_ok crc no c" "page_body c = page_body b"
  shows "leaf_image crc s tid no es c"
proof -
  have b: "page_ok crc no b" using assms(1) by (simp add: leaf_image_def)
  note sl = body_slices [OF page_ok_length [OF assms(2)] page_ok_length [OF b] assms(3)]
  have "page_tree_id c = page_tree_id b" by (simp add: page_tree_id_def rd_u16_def sl)
  then show ?thesis using assms(1,2) body_slots [OF assms(2) b assms(3)] by (simp add: leaf_image_def)
qed

lemma node_image_body:
  assumes "node_image crc tid no c0 kcs b" "page_ok crc no c" "page_body c = page_body b"
  shows "node_image crc tid no c0 kcs c"
proof -
  have b: "page_ok crc no b" using assms(1) by (simp add: node_image_def)
  note sl = body_slices [OF page_ok_length [OF assms(2)] page_ok_length [OF b] assms(3)]
  have "page_tree_id c = page_tree_id b" by (simp add: page_tree_id_def rd_u16_def sl)
  then show ?thesis using assms(1,2) body_slots [OF assms(2) b assms(3)] by (simp add: node_image_def)
qed

lemma leaf_image_entries:
  assumes "leaf_image crc s tid no es b"
  shows "nentries b = length es" "i < length es \<Longrightarrow> cell_holds crc s no (page_slots b ! i) (es ! i)"
    "i < length es \<Longrightarrow> page_slot b i = Ok (page_slots b ! i)" "i < length es \<Longrightarrow> validated_key (page_slots b ! i) = Ok (fst (es ! i))"
proof -
  have l: "list_all2 (cell_holds crc s no) (page_slots b) es" using assms by (simp add: leaf_image_def)
  show n: "nentries b = length es" using list_all2_lengthD [OF l] by simp
  show c: "cell_holds crc s no (page_slots b ! i) (es ! i)" if "i < length es" using l that n by (simp add: list_all2_conv_all_nth)
  show "page_slot b i = Ok (page_slots b ! i)" if "i < length es"
    using open_slot [of crc no b i] assms that n by (simp add: leaf_image_def)
  show "validated_key (page_slots b ! i) = Ok (fst (es ! i))" if "i < length es"
    using cell_decodes [OF c [OF that]] decode_leaf_readers(1) by blast
qed

lemma slots_length:
  assumes "page_ok crc no b" "rec \<in> set (page_slots b)"
  shows "length rec \<le> PAGE_SIZE"
  using assms(2) page_ok_length [OF assms(1)] by (auto simp: page_slots_def)

lemma node_image_entries:
  assumes "node_image crc tid no c0 kcs b"
  shows "nentries b = length kcs" "i < length kcs \<Longrightarrow> page_slot b i = Ok (page_slots b ! i)"
    "i < length kcs \<Longrightarrow> validated_key (page_slots b ! i) = Ok (fst (kcs ! i))"
    "i < length kcs \<Longrightarrow> validated_child (page_slots b ! i) = Ok (of_nat (snd (kcs ! i))) \<and> snd (kcs ! i) \<le> u32_max"
proof -
  have l: "list_all2 (sep_holds no) (page_slots b) kcs" and ok: "page_ok crc no b" using assms by (simp_all add: node_image_def)
  show n: "nentries b = length kcs" using list_all2_lengthD [OF l] by simp
  show "page_slot b i = Ok (page_slots b ! i)" if "i < length kcs" using open_slot [OF ok] that n by simp
  have c: "sep_holds no (page_slots b ! i) (kcs ! i)" if "i < length kcs" using l that n by (simp add: list_all2_conv_all_nth)
  have len: "length (page_slots b ! i) \<le> PAGE_SIZE" if "i < length kcs" using slots_length [OF ok] that n by simp
  show "validated_key (page_slots b ! i) = Ok (fst (kcs ! i))" if "i < length kcs"
    using c [OF that] decode_interior_readers(1) len [OF that] unfolding sep_holds_def by blast
  show "validated_child (page_slots b ! i) = Ok (of_nat (snd (kcs ! i))) \<and> snd (kcs ! i) \<le> u32_max" if "i < length kcs"
    using c [OF that] decode_interior_readers(2) len [OF that] unfolding sep_holds_def by blast
qed

lemma leaf_image_decodes: "leaf_image crc s tid no es b \<Longrightarrow> \<forall>rec \<in> set (page_slots b). \<exists>d. decode_record rec (of_nat no) PageLeaf = Ok d"
  by (fastforce simp: leaf_image_def list_all2_conv_all_nth in_set_conv_nth dest: cell_decodes)

lemma node_image_decodes:
  "node_image crc tid no c0 kcs b \<Longrightarrow> \<forall>rec \<in> set (page_slots b). \<exists>d. decode_record rec (of_nat no) PageInterior = Ok d"
  by (fastforce simp: node_image_def sep_holds_def list_all2_conv_all_nth in_set_conv_nth)

text \<open>Opening a stored leaf, a stored node.\<close>

lemma with_page_leaf:
  assumes "idle crc s" "holds crc s no b" "leaf_image crc s tid no es b"
  obtains b' t where "with_page crc s no k = (t, k b')" "leaf_image crc s tid no es b'" "reads_only crc s t"
proof -
  have "page_kind_of b = Ok PageLeaf" using assms(3) by (simp add: leaf_image_def)
  from with_page_reads [OF assms(1,2) this leaf_image_decodes [OF assms(3)]]
  obtain b' t where "with_page crc s no k = (t, k b')" "page_ok crc no b'" "page_body b' = page_body b" "reads_only crc s t" by blast
  then show thesis using that leaf_image_body [OF assms(3)] by blast
qed

lemma with_page_node:
  assumes "idle crc s" "holds crc s no b" "node_image crc tid no c0 kcs b"
  obtains b' t where "with_page crc s no k = (t, k b')" "node_image crc tid no c0 kcs b'" "reads_only crc s t"
proof -
  have "page_kind_of b = Ok PageInterior" using assms(3) by (simp add: node_image_def)
  from with_page_reads [OF assms(1,2) this node_image_decodes [OF assms(3)]]
  obtain b' t where "with_page crc s no k = (t, k b')" "page_ok crc no b'" "page_body b' = page_body b" "reads_only crc s t" by blast
  then show thesis using that node_image_body [OF assms(3)] by blast
qed

text \<open>Reading keeps the tree where it is.\<close>

lemma cell_holds_reads_only: "reads_only crc s t \<Longrightarrow> cell_holds crc s no rec e \<Longrightarrow> cell_holds crc t no rec e"
  using spilled_reads_only by (cases e) (auto simp: cell_holds_def)

lemma leaf_image_reads_only: "reads_only crc s t \<Longrightarrow> leaf_image crc s tid no es b \<Longrightarrow> leaf_image crc t tid no es b"
  unfolding leaf_image_def using cell_holds_reads_only list_all2_mono by (metis (mono_tags, lifting))

lemma tree_stored_reads_only: "reads_only crc s t \<Longrightarrow> tree_stored crc s tid a \<Longrightarrow> tree_stored crc t tid a"
proof (induction a)
  case (TLeaf no es)
  then show ?case
    using reads_only_holds [OF TLeaf(1)] leaf_image_reads_only [OF TLeaf(1)] reads_only_available [OF TLeaf(1)] by fastforce
next
  case (TNode no t0 kts)
  then show ?case
    using reads_only_holds [OF TNode(3)] reads_only_available [OF TNode(3)] by fastforce
qed

lemma tree_stored_page: "tree_stored crc s tid t \<Longrightarrow> 0 < page_of t \<and> page_of t < next_page s \<and> page_of t \<le> u32_max"
  by (cases t) (auto simp: available_def)

section \<open>Places in a tree\<close>

text \<open>
  The way from a tree to one of its subtrees, as the nodes passed and the child taken in each: what
  the code keeps as the path of a cursor. The entries split into those left of the place, those of
  the subtree and those right of it.
\<close>

fun children :: "tree \<Rightarrow> tree list" where
  "children (TLeaf no es) = []"
| "children (TNode no t0 kts) = t0 # map snd kts"

type_synonym place = "(tree \<times> nat) list"

fun spine :: "tree \<Rightarrow> place \<Rightarrow> tree \<Rightarrow> bool" where
  "spine t [] l \<longleftrightarrow> l = t"
| "spine t ((n, i) # z) l \<longleftrightarrow> n = t \<and> i < length (children t) \<and> spine (children t ! i) z l"

fun entries_before :: "place \<Rightarrow> (bytes \<times> bytes) list" where
  "entries_before [] = []"
| "entries_before ((n, i) # z) = concat (map tree_entries (take i (children n))) @ entries_before z"

fun entries_after :: "place \<Rightarrow> (bytes \<times> bytes) list" where
  "entries_after [] = []"
| "entries_after ((n, i) # z) = entries_after z @ concat (map tree_entries (drop (Suc i) (children n)))"

definition page_path :: "place \<Rightarrow> (nat \<times> nat) list" where
  "page_path z = map (\<lambda>(n, i). (page_of n, i)) z"

lemma entries_children: "children t \<noteq> [] \<Longrightarrow> tree_entries t = concat (map tree_entries (children t))"
  by (cases t) (auto simp: comp_def case_prod_beta intro: arg_cong [of _ _ concat])

lemma spine_entries: "spine t z l \<Longrightarrow> tree_entries t = entries_before z @ tree_entries l @ entries_after z"
proof (induction t z l rule: spine.induct)
  case (2 t n i z l)
  then have i: "i < length (children t)" "n = t" by simp_all
  have "children t = take i (children t) @ children t ! i # drop (Suc i) (children t)" using i by (simp add: id_take_nth_drop)
  then have "concat (map tree_entries (children t)) =
      concat (map tree_entries (take i (children t))) @ tree_entries (children t ! i) @ concat (map tree_entries (drop (Suc i) (children t)))"
    by (metis concat.simps(2) concat_append list.simps(9) map_append)
  moreover have "children t \<noteq> []" using i by auto
  ultimately show ?case using 2 by (simp add: entries_children)
qed simp

lemma spine_append: "spine t (z @ z') l \<longleftrightarrow> (\<exists>m. spine t z m \<and> spine m z' l)"
  by (induction t z l rule: spine.induct) auto

lemma tree_stored_child: "tree_stored crc s tid t \<Longrightarrow> c \<in> set (children t) \<Longrightarrow> tree_stored crc s tid c"
  by (cases t) auto

lemma tree_ordered_child: "tree_ordered t \<Longrightarrow> c \<in> set (children t) \<Longrightarrow> tree_ordered c"
  by (cases t) auto

lemma spine_stored: "spine t z l \<Longrightarrow> tree_stored crc s tid t \<Longrightarrow> tree_stored crc s tid l"
  by (induction t z l rule: spine.induct) (auto dest: tree_stored_child [OF _ nth_mem])

lemma spine_ordered: "spine t z l \<Longrightarrow> tree_ordered t \<Longrightarrow> tree_ordered l"
  by (induction t z l rule: spine.induct) (auto dest: tree_ordered_child [OF _ nth_mem])

text \<open>The child a descent takes: keys to its left are below the key, keys to its right above it.\<close>

definition child_index :: "bytes \<Rightarrow> (bytes \<times> tree) list \<Rightarrow> nat" where
  "child_index key kts = length (takeWhile (\<lambda>k. k \<le> key) (map fst kts))"

lemma child_index_le: "child_index key kts \<le> length kts"
  using length_takeWhile_le [of _ "map fst kts"] by (simp add: child_index_def)

lemma separators_sorted: "tree_ordered (TNode no t0 kts) \<Longrightarrow> sorted_wrt (<) (map fst kts)"
  by (auto simp: sorted_wrt_map elim!: sorted_wrt_mono_rel [rotated])

lemma child_index_iff:
  assumes "tree_ordered (TNode no t0 kts)" "j < length kts"
  shows "fst (kts ! j) \<le> key \<longleftrightarrow> j < child_index key kts"
proof -
  have "sorted_wrt (\<lambda>x y. y \<le> key \<longrightarrow> x \<le> key) (map fst kts)"
    using separators_sorted [OF assms(1)] by (auto elim!: sorted_wrt_mono_rel [rotated])
  from takeWhile_index [OF this] show ?thesis using assms(2) by (simp add: child_index_def)
qed

lemma child_below:
  assumes "tree_ordered (TNode no t0 kts)" "j < length kts" "c \<in> set (take (Suc j) (t0 # map snd kts))" "x \<in> tree_keys c"
  shows "x < fst (kts ! j)"
proof -
  obtain m where "m < length (take (Suc j) (t0 # map snd kts))" "c = take (Suc j) (t0 # map snd kts) ! m"
    using assms(3) by (metis in_set_conv_nth)
  then have m: "m \<le> j" "c = (t0 # map snd kts) ! m" by (simp_all del: take_Suc_Cons)
  have s: "sorted_wrt (\<lambda>(k, t) (k', t'). k < k' \<and> (\<forall>x \<in> tree_keys t. x < k')) kts"
      "\<forall>(k, t) \<in> set kts. \<forall>x \<in> tree_keys t0. x < k" using assms(1) by auto
  show ?thesis
  proof (cases m)
    case 0
    then show ?thesis using s(2) nth_mem [OF assms(2)] m(2) assms(4) by (cases "kts ! j") auto
  next
    case (Suc n)
    then have "n < j" "c = snd (kts ! n)" using m assms(2) by simp_all
    then show ?thesis using sorted_wrt_nth_less [OF s(1), of n j] assms(2,4) by (cases "kts ! n"; cases "kts ! j") auto
  qed
qed

lemma child_above:
  assumes "tree_ordered (TNode no t0 kts)" "c \<in> set (drop (Suc i) (t0 # map snd kts))" "x \<in> tree_keys c"
  shows "\<exists>j. i \<le> j \<and> j < length kts \<and> fst (kts ! j) \<le> x"
proof -
  obtain j where j: "i \<le> j" "j < length kts" "c = snd (kts ! j)"
    using assms(2) by (auto simp: in_set_conv_nth) (metis add.commute le_add2 less_diff_conv)
  have "\<forall>(k, t) \<in> set kts. \<forall>x \<in> tree_keys t. k \<le> x" using assms(1) by auto
  then show ?thesis using j assms(3) nth_mem [OF j(2)] by (intro exI [of _ j]) (cases "kts ! j", auto)
qed

lemma child_index_splits:
  assumes "tree_ordered (TNode no t0 kts)" "i = child_index key kts"
  shows "\<forall>e \<in> set (concat (map tree_entries (take i (t0 # map snd kts)))). fst e < key"
    "\<forall>e \<in> set (concat (map tree_entries (drop (Suc i) (t0 # map snd kts)))). key < fst e"
proof -
  have il: "i \<le> length kts" using child_index_le assms(2) by simp
  show "\<forall>e \<in> set (concat (map tree_entries (take i (t0 # map snd kts)))). fst e < key"
  proof
    fix e assume "e \<in> set (concat (map tree_entries (take i (t0 # map snd kts))))"
    then obtain c where c: "c \<in> set (take i (t0 # map snd kts))" "fst e \<in> tree_keys c" by auto
    then obtain j where j: "i = Suc j" by (cases i) simp_all
    have "fst e < fst (kts ! j)" using child_below [OF assms(1) _ c(1) [unfolded j] c(2)] il j by simp
    moreover have "fst (kts ! j) \<le> key" using child_index_iff [OF assms(1), of j key] il j assms(2) by simp
    ultimately show "fst e < key" by simp
  qed
  show "\<forall>e \<in> set (concat (map tree_entries (drop (Suc i) (t0 # map snd kts)))). key < fst e"
  proof
    fix e assume "e \<in> set (concat (map tree_entries (drop (Suc i) (t0 # map snd kts))))"
    then obtain c where c: "c \<in> set (drop (Suc i) (t0 # map snd kts))" "fst e \<in> tree_keys c" by auto
    then obtain j where j: "i \<le> j" "j < length kts" "fst (kts ! j) \<le> fst e" using child_above [OF assms(1)] by blast
    then have "\<not> fst (kts ! j) \<le> key" using child_index_iff [OF assms(1) j(2), of key] assms(2) by simp
    then show "key < fst e" using j(3) by simp
  qed
qed

lemma concat_sorted:
  assumes "\<And>c. c \<in> set cs \<Longrightarrow> sorted_wrt (<) (map fst (tree_entries c))"
    and "sorted_wrt (\<lambda>c d. \<forall>x \<in> tree_keys c. \<forall>y \<in> tree_keys d. x < y) cs"
  shows "sorted_wrt (<) (map fst (concat (map tree_entries cs)))"
  using assms by (induction cs) (auto simp: sorted_wrt_append)

lemma tree_entries_sorted: "tree_ordered t \<Longrightarrow> sorted_wrt (<) (map fst (tree_entries t))"
proof (induction t)
  case (TNode no t0 kts)
  let ?cs = "t0 # map snd kts"
  have "sorted_wrt (<) (map fst (tree_entries c))" if "c \<in> set ?cs" for c using TNode that by fastforce
  moreover have "sorted_wrt (\<lambda>c d. \<forall>x \<in> tree_keys c. \<forall>y \<in> tree_keys d. x < y) ?cs"
  proof (rule sorted_wrt_iff_nth_less [THEN iffD2], intro allI impI ballI)
    fix m n x y assume a: "m < n" "n < length ?cs" "x \<in> tree_keys (?cs ! m)" "y \<in> tree_keys (?cs ! n)"
    then obtain j where j: "n = Suc j" "j < length kts" by (cases n) simp_all
    have "take (Suc j) ?cs ! m \<in> set (take (Suc j) ?cs)" using a j by (intro nth_mem) simp
    then have "?cs ! m \<in> set (take (Suc j) ?cs)" using a(1) j(1) by (simp del: take_Suc_Cons)
    then have "x < fst (kts ! j)" using child_below [OF TNode.prems j(2)] a(3) by blast
    moreover have "fst (kts ! j) \<le> y" using TNode.prems a(4) j nth_mem [OF j(2)] by (cases "kts ! j") auto
    ultimately show "x < y" by simp
  qed
  ultimately have "sorted_wrt (<) (map fst (concat (map tree_entries ?cs)))" by (rule concat_sorted)
  then show ?case using entries_children [of "TNode no t0 kts"] by simp
qed simp

section \<open>The descent on a stored tree\<close>

lemma child_at_node:
  assumes "node_image crc tid no (page_of t0) (node_kids kts) b" "i \<le> length kts" "tree_stored crc s tid (TNode no t0 kts)"
  shows "child_at (next_page s) b i = Ok (page_of ((t0 # map snd kts) ! i))"
proof -
  let ?c = "(t0 # map snd kts) ! i"
  have "?c \<in> set (children (TNode no t0 kts))" using assms(2) by (simp only: children.simps) (rule nth_mem, simp)
  note c = tree_stored_page [OF tree_stored_child [OF assms(3) this]]
  have u: "unat (of_nat n :: u32) = n" if "n \<le> u32_max" for n using that by (simp add: unat_of_nat)
  show ?thesis
  proof (cases i)
    case 0
    have "unat (page_next_leaf b) = page_of t0" using assms(1) by (simp add: node_image_def)
    then show ?thesis using c 0 by (simp add: child_at_def) (metis unat_0 less_numeral_extra(3))
  next
    case (Suc j)
    then have j: "j < length (node_kids kts)" using assms(2) by (simp add: node_kids_def)
    have k: "snd (node_kids kts ! j) = page_of (snd (kts ! j))" using Suc assms(2) by (simp add: node_kids_def case_prod_beta)
    note n = node_image_entries(2,4) [OF assms(1) j]
    have "of_nat (page_of (snd (kts ! j))) \<noteq> (0 :: u32)" using c u [of "page_of (snd (kts ! j))"] Suc assms(2) by (metis nth_Cons_Suc nth_map Suc_le_lessD unat_0 less_numeral_extra(3))
    then show ?thesis using c Suc assms(2) n u [of "page_of (snd (kts ! j))"] by (simp add: child_at_def k)
  qed
qed

text \<open>What \<open>at_leaf\<close> does on the leaves of the tree.\<close>

definition leaf_reader :: "crc_fn \<Rightarrow> u16 \<Rightarrow> (bytes \<Rightarrow> 'a kresult) \<Rightarrow> (entry list \<Rightarrow> 'a) \<Rightarrow> bool" where
  "leaf_reader crc tid at_leaf f \<longleftrightarrow>
     (\<forall>s no es b. leaf_image crc s tid no es b \<and> sorted_wrt (<) (map fst es) \<longrightarrow> at_leaf b = Ok (f es))"

text \<open>The place a descent for \<open>key\<close> reaches.\<close>

definition reaches :: "bytes \<Rightarrow> tree \<Rightarrow> place \<Rightarrow> nat \<Rightarrow> entry list \<Rightarrow> bool" where
  "reaches key t z no es \<longleftrightarrow>
     spine t z (TLeaf no es) \<and> (\<forall>e \<in> set (entries_before z). fst e < key) \<and> (\<forall>e \<in> set (entries_after z). key < fst e)"

lemma descend_loop_stored:
  assumes "idle crc s" "tree_stored crc s tid t" "tree_ordered t" "leaf_reader crc tid at_leaf f"
  shows "\<exists>s' z no es. descend_loop crc tid key at_leaf s (page_of t) path = Some (s', Ok (no, f es, path @ page_path z)) \<and>
    reads_only crc s s' \<and> reaches key t z no es"
  using assms(1-3)
proof (induction t arbitrary: s path)
  case (TLeaf no es)
  then obtain b where b: "holds crc s no b" "leaf_image crc s tid no es b" by auto
  obtain b' u where u: "with_page crc s no (descend_page tid key at_leaf (next_page s) no) = (u, descend_page tid key at_leaf (next_page s) no b')"
      "leaf_image crc s tid no es b'" "reads_only crc s u"
    by (rule with_page_leaf [OF TLeaf.prems(1) b])
  have "at_leaf b' = Ok (f es)" using assms(4) u(2) TLeaf.prems(3) by (auto simp: leaf_reader_def)
  then have "descend_page tid key at_leaf (next_page s) no b' = Ok (Inl (f es))"
    using u(2) by (simp add: descend_page_def own_page_def leaf_image_def)
  then have "descend_loop crc tid key at_leaf s no path = Some (u, Ok (no, f es, path))"
    using u(1) by (simp add: descend_loop.simps)
  then show ?case using u(3) by (intro exI [of _ u] exI [of _ "[]"] exI [of _ no] exI [of _ es]) (simp add: page_path_def reaches_def)
next
  case (TNode no t0 kts)
  let ?t = "TNode no t0 kts" and ?i = "child_index key kts"
  let ?c = "(t0 # map snd kts) ! ?i"
  obtain b where b: "holds crc s no b" "node_image crc tid no (page_of t0) (node_kids kts) b" using TNode.prems(2) by auto
  obtain b' u where u: "with_page crc s no (descend_page tid key at_leaf (next_page s) no) = (u, descend_page tid key at_leaf (next_page s) no b')"
      "node_image crc tid no (page_of t0) (node_kids kts) b'" "reads_only crc s u"
    by (rule with_page_node [OF TNode.prems(1) b])
  have il: "?i \<le> length kts" by (rule child_index_le)
  have ks: "map fst (node_kids kts) = map fst kts" by (simp add: node_kids_def comp_def case_prod_beta)
  have "page_ok crc no b'" using u(2) by (simp add: node_image_def)
  then have ub: "upper_bound b' key = Ok ?i"
    using bounds_find(2) [of crc no b' "map fst kts" key] node_image_entries(1,3) [OF u(2)] separators_sorted [OF TNode.prems(3)]
    by (auto simp: child_index_def node_kids_def case_prod_beta)
  have "descend_page tid key at_leaf (next_page s) no b' = Ok (Inr (?i, page_of ?c))"
    using u(2) ub child_at_node [OF u(2) il TNode.prems(2)] by (simp add: descend_page_def own_page_def node_image_def)
  then have step: "descend_loop crc tid key at_leaf s no path = descend_loop crc tid key at_leaf u (page_of ?c) (path @ [(no, ?i)])"
    using u(1) by (simp add: descend_loop.simps [of _ _ _ _ s])
  have mem: "?c \<in> set (children ?t)" using il by (simp only: children.simps) (rule nth_mem, simp)
  have cs: "tree_stored crc u tid ?c" "tree_ordered ?c"
    using tree_stored_child [OF tree_stored_reads_only [OF u(3) TNode.prems(2)] mem] tree_ordered_child [OF TNode.prems(3) mem] by blast+
  have "\<exists>s' z m es. descend_loop crc tid key at_leaf u (page_of ?c) (path @ [(no, ?i)]) =
      Some (s', Ok (m, f es, (path @ [(no, ?i)]) @ page_path z)) \<and> reads_only crc u s' \<and> reaches key ?c z m es"
  proof (cases "?c = t0")
    case True
    then show ?thesis using TNode.IH(1) [of u "path @ [(no, ?i)]"] reads_only_idle [OF u(3)] cs by simp
  next
    case False
    then obtain k where "(k, ?c) \<in> set kts" using mem by auto
    then show ?thesis using TNode.IH(2) [of "(k, ?c)" ?c u "path @ [(no, ?i)]"] reads_only_idle [OF u(3)] cs by auto
  qed
  then obtain s' z m es where d: "descend_loop crc tid key at_leaf u (page_of ?c) (path @ [(no, ?i)]) =
      Some (s', Ok (m, f es, (path @ [(no, ?i)]) @ page_path z))" "reads_only crc u s'" "reaches key ?c z m es" by blast
  have "reaches key ?t ((?t, ?i) # z) m es"
    using d(3) il child_index_splits [OF TNode.prems(3) refl, of key] by (auto simp: reaches_def)
  then show ?case
    using d step reads_only_trans [OF u(3) d(2)]
    by (intro exI [of _ s'] exI [of _ "(?t, ?i) # z"] exI [of _ m] exI [of _ es]) (simp add: page_path_def)
qed

lemma omap_Ok: "omap f (s, Ok a) = (s, Ok (f a))"
  by (simp add: omap_def)

lemma leaf_reader_unit: "leaf_reader crc tid (\<lambda>_. Ok ()) (\<lambda>_. ())"
  by (simp add: leaf_reader_def)

definition entry_index :: "bytes \<Rightarrow> (bytes \<times> 'a) list \<Rightarrow> nat" where
  "entry_index key es = length (takeWhile (\<lambda>k. k < key) (map fst es))"

lemma leaf_lower_bound:
  assumes "leaf_image crc s tid no es b" "sorted_wrt (<) (map fst es)"
  shows "lower_bound b key = Ok (entry_index key es)"
proof -
  have "page_ok crc no b" using assms(1) by (simp add: leaf_image_def)
  from bounds_find(1) [OF this, of "map fst es" key] show ?thesis
    using leaf_image_entries(1,4) [OF assms(1)] assms(2) by (simp add: entry_index_def)
qed

lemma leaf_reader_position: "leaf_reader crc tid (\<lambda>p. lower_bound p key) (entry_index key)"
  using leaf_lower_bound by (fastforce simp: leaf_reader_def)

lemma entry_index_iff:
  assumes "sorted_wrt (<) (map fst es)" "j < length es"
  shows "fst (es ! j) < key \<longleftrightarrow> j < entry_index key es"
proof -
  have "sorted_wrt (\<lambda>x y. y < key \<longrightarrow> x < key) (map fst es)" using assms(1) by (auto elim!: sorted_wrt_mono_rel [rotated])
  from takeWhile_index [OF this] show ?thesis using assms(2) by (simp add: entry_index_def)
qed

lemma entry_index_le: "entry_index key es \<le> length es"
  using length_takeWhile_le [of _ "map fst es"] by (simp add: entry_index_def)

lemma entry_index_lookup:
  fixes key :: bytes
  assumes "sorted_wrt (<) (map fst es)"
  defines "i \<equiv> entry_index key es"
  shows "map_of es key = (if i < length es \<and> fst (es ! i) = key then Some (snd (es ! i)) else None)"
proof (cases "i < length es \<and> fst (es ! i) = key")
  case True
  have "distinct (map fst es)" using assms(1) strict_sorted_iff by blast
  then show ?thesis using True nth_mem [of i es] by (auto simp: map_of_eq_Some_iff)
next
  case False
  have "fst (es ! j) \<noteq> key" if j: "j < length es" for j
  proof
    assume e: "fst (es ! j) = key"
    then have "\<not> j < i" using entry_index_iff [OF assms(1) j, of key] by (simp add: i_def)
    then have "i < j" using False e j by (cases "i = j") auto
    then have "fst (es ! i) < fst (es ! j)" using sorted_wrt_nth_less [OF assms(1), of i j] j by simp
    then show False using entry_index_iff [OF assms(1), of i key] e j \<open>i < j\<close> by (simp add: i_def)
  qed
  then have "key \<notin> fst ` set es" by (auto simp: in_set_conv_nth) (metis fst_conv)
  then show ?thesis using False by (auto simp: map_of_eq_None_iff)
qed

text \<open>A cell of the leaf holds the raw value or the marker of a spilled one.\<close>

definition raw_holds :: "crc_fn \<Rightarrow> pool \<Rightarrow> bytes \<Rightarrow> bool \<Rightarrow> bytes \<Rightarrow> bool" where
  "raw_holds crc s raw ov v \<longleftrightarrow> (if ov then \<exists>ps. spilled crc s raw v ps else raw = v)"

lemma cell_holds_leaf:
  "cell_holds crc s no rec e \<Longrightarrow> \<exists>raw ov. validated_leaf rec = Ok (fst e, raw, ov) \<and> raw_holds crc s raw ov (snd (kv e))"
  using decode_leaf_readers(2) by (cases e) (fastforce simp: cell_holds_def raw_holds_def)

lemma leaf_lookup_image:
  assumes "leaf_image crc s tid no es b" "sorted_wrt (<) (map fst es)"
  shows "(map_of (map kv es) key = None \<and> leaf_lookup key b = Ok None) \<or>
    (\<exists>v raw ov. map_of (map kv es) key = Some v \<and> leaf_lookup key b = Ok (Some (raw, ov)) \<and> raw_holds crc s raw ov v)"
proof -
  let ?i = "entry_index key es"
  note l = leaf_image_entries [OF assms(1)] and lb = leaf_lower_bound [OF assms, of key]
  have lk: "map_of (map kv es) key = (if ?i < length es \<and> fst (es ! ?i) = key then Some (snd (kv (es ! ?i))) else None)"
  proof -
    have e: "entry_index key (map kv es) = ?i" by (simp add: entry_index_def)
    have "sorted_wrt (<) (map fst (map kv es))" using assms(2) by simp
    from entry_index_lookup [OF this, of key, unfolded e] show ?thesis by (cases "?i < length es") simp_all
  qed
  show ?thesis
  proof (cases "?i < length es")
    case True
    obtain raw ov where "validated_leaf (page_slots b ! ?i) = Ok (fst (es ! ?i), raw, ov)" "raw_holds crc s raw ov (snd (kv (es ! ?i)))"
      using cell_holds_leaf [OF l(2) [OF True]] by blast
    then show ?thesis using True l(1) l(3) [OF True] lb by (simp add: leaf_lookup_def lk)
  next
    case False
    then show ?thesis using l(1) lb by (simp add: leaf_lookup_def lk)
  qed
qed

lemma reaches_lookup:
  assumes "reaches key t z no es"
  shows "map_of (tree_entries t) key = map_of (map kv es) key"
proof -
  have e: "tree_entries t = entries_before z @ map kv es @ entries_after z" using spine_entries assms by (fastforce simp: reaches_def)
  have "map_of (entries_before z) key = None" "map_of (entries_after z) key = None"
    using assms unfolding reaches_def map_of_eq_None_iff by auto
  then show ?thesis by (auto simp: e map_add_def split: option.splits)
qed

lemma raw_holds_reads_only: "reads_only crc s t \<Longrightarrow> raw_holds crc s raw ov v \<Longrightarrow> raw_holds crc t raw ov v"
  using spilled_reads_only unfolding raw_holds_def by meson

lemma btree_get_stored:
  assumes "idle crc s" "tree_stored crc s (tree_id bt) t" "tree_ordered t" "root bt = page_of t"
  shows "\<exists>s'. btree_get crc s bt key = Some (s', Ok (map_of (tree_entries t) key)) \<and> reads_only crc s s'"
proof -
  obtain u z no es where d: "descend_loop crc (tree_id bt) key (\<lambda>_. Ok ()) s (page_of t) [] = Some (u, Ok (no, (), [] @ page_path z))"
      "reads_only crc s u" "reaches key t z no es"
    using descend_loop_stored [OF assms(1-3) leaf_reader_unit, of key "[]"] by auto
  have sp: "spine t z (TLeaf no es)" using d(3) by (simp add: reaches_def)
  have so: "sorted_wrt (<) (map fst es)" using spine_ordered [OF sp assms(3)] by simp
  obtain b where b: "holds crc u no b" "leaf_image crc u (tree_id bt) no es b"
    using spine_stored [OF sp tree_stored_reads_only [OF d(2) assms(2)]] by auto
  obtain b' v where v: "with_page crc u no (leaf_lookup key) = (v, leaf_lookup key b')" "leaf_image crc u (tree_id bt) no es b'" "reads_only crc u v"
    by (rule with_page_leaf [OF reads_only_idle [OF d(2)] b])
  have g: "btree_get crc s bt key = Some (then_do (v, leaf_lookup key b') (\<lambda>s found. case found of
       None \<Rightarrow> (s, Ok None) | Some (value, False) \<Rightarrow> (s, Ok (Some value)) | Some (marker, True) \<Rightarrow> omap Some (read_overflow crc s marker)))"
    using d(1) v(1) by (simp add: btree_get_def descend_def assms(4) omap_Ok)
  have m: "map_of (tree_entries t) key = map_of (map kv es) key" by (rule reaches_lookup [OF d(3)])
  note sv = reads_only_trans [OF d(2) v(3)]
  consider "map_of (map kv es) key = None" "leaf_lookup key b' = Ok None"
    | x raw ov where "map_of (map kv es) key = Some x" "leaf_lookup key b' = Ok (Some (raw, ov))" "raw_holds crc u raw ov x"
    using leaf_lookup_image [OF v(2) so, of key] by (elim disjE exE conjE) simp_all
  then show ?thesis
  proof cases
    case 1
    then show ?thesis using g m sv by simp
  next
    case 2
    show ?thesis
    proof (cases ov)
      case True
      have "\<exists>ps. spilled crc v raw x ps" using raw_holds_reads_only [OF v(3) 2(3)] True by (simp add: raw_holds_def)
      then obtain w where "read_overflow crc v raw = (w, Ok x)" "reads_only crc v w"
        using read_overflow_spilled [OF reads_only_idle [OF v(3)]] by blast
      then show ?thesis using g 2(1,2) m True reads_only_trans [OF sv] by (simp add: omap_def)
    next
      case False
      then show ?thesis using g 2 m sv by (simp add: raw_holds_def)
    qed
  qed
qed

text \<open>
  C2: A point lookup returns what the tree holds. For a tree stored in an idle pool over a healthy
  device, with its keys in order, \<open>get\<close> returns (it does not loop), and returns exactly the value
  the tree's entries give the key, inline or reassembled from its overflow pages, and nothing when
  the key is absent. It changes no page, no frozen page and nothing of the allocator, and leaves no
  guard behind.
\<close>

theorem btree_get_correct:
  assumes "idle crc s" "tree_stored crc s (tree_id bt) t" "tree_ordered t" "root bt = page_of t"
  shows "\<exists>s'. btree_get crc s bt key = Some (s', Ok (map_of (tree_entries t) key)) \<and> reads_only crc s s'"
  by (rule btree_get_stored [OF assms])

text \<open>The file of the witness: three blank pages and a sealed leaf with one row.\<close>

definition one_leaf_file :: posix_file where
  "one_leaf_file = good_file (replicate (3 * PAGE_SIZE) 0 @ one_row_leaf)"

lemma one_leaf_stored:
  assumes "pool_new one_leaf_file 8192 0 1 False = Ok s"
  shows "idle crc32c_append s" "tree_stored crc32c_append s 7 (TLeaf 3 [([7], [9], [])])"
proof -
  note f = one_row_leaf_facts
  have len: "length one_row_leaf = 4096" using open_inner_Ok(2) [OF f(1)] by (simp add: PAGE_SIZE_def)
  show i: "idle crc32c_append s" by (rule pool_new_idle(1) [OF assms]) (simp_all add: one_leaf_file_def)
  have d: "disk_page one_leaf_file 3 = one_row_leaf"
    by (simp add: disk_page_def one_leaf_file_def page_at_def PAGE_SIZE_def slice_def len)
  have se: "sealed_ok crc32c_append 3 one_row_leaf" using f(1) by (simp add: sealed_ok_def page_open_def)
  note ok = sealed_ok_page_ok [OF se]
  have h: "holds crc32c_append s 3 one_row_leaf"
    by (rule pool_new_idle(2) [OF assms _ _ ok]) (simp_all add: disk_view_def d se, simp add: one_leaf_file_def)
  have "free s = []" using assms by (auto simp: pool_new_def Let_def obind_iffs file_len_def split: if_splits)
  moreover have "next_page s = 4" using pool_new_facts(7) [OF assms] len by (simp add: one_leaf_file_def PAGE_SIZE_def)
  moreover have "page_tree_id one_row_leaf = 7" by (rule one_row_leaf_tree)
  moreover have "decode_record (enc_leaf [7] [9] False) 3 PageLeaf = Ok (LeafRecord [7] [9] False)"
    by (rule decode_enc_leaf) (simp add: MAX_RECORD_LEN_def layout_defs)
  ultimately show "tree_stored crc32c_append s 7 (TLeaf 3 [([7], [9], [])])"
    using h ok f(2,3) by (auto simp: leaf_image_def cell_holds_def available_def)
qed

lemma one_leaf_pool: "\<exists>s. pool_new one_leaf_file 8192 0 1 False = Ok s"
proof -
  have "length one_row_leaf = 4096" using open_inner_Ok(2) [OF one_row_leaf_facts(1)] by (simp add: PAGE_SIZE_def)
  then show ?thesis
    by (auto simp: pool_new_def one_leaf_file_def file_len_def good_file_def PAGE_SIZE_def reserve_next_def checked_add_u64_def Let_def)
qed

theorem btree_get_correct_witness:
  "\<exists>s s1 s2. pool_new one_leaf_file 8192 0 1 False = Ok s \<and>
     btree_get crc32c_append s \<lparr>tree_id = 7, root = 3\<rparr> [7] = Some (s1, Ok (Some [9])) \<and>
     btree_get crc32c_append s \<lparr>tree_id = 7, root = 3\<rparr> [8] = Some (s2, Ok None)"
proof -
  obtain s where s: "pool_new one_leaf_file 8192 0 1 False = Ok s" using one_leaf_pool by blast
  note st = one_leaf_stored [OF s]
  have "tree_ordered (TLeaf 3 [([7], [9], [])])" by simp
  then show ?thesis
    using s st btree_get_correct [of crc32c_append s "\<lparr>tree_id = 7, root = 3\<rparr>" "TLeaf 3 [([7], [9], [])]" "[7]"]
      btree_get_correct [of crc32c_append s "\<lparr>tree_id = 7, root = 3\<rparr>" "TLeaf 3 [([7], [9], [])]" "[8]"] by auto
qed

end
