(* ===== verification/Btree_Scan.thy ===== *)
theory Btree_Scan
  imports Btree_Read
begin

text \<open>
  The range cursors of core/kernel/src/btree.rs: \<open>range\<close> with its iterator and its callback walk, and
  \<open>range_reverse\<close>. A cursor keeps the path to its leaf and steps to the neighbouring leaf through the
  parents; records are handed out one by one at first, a leaf at a time later, and spilled values are
  reassembled with no leaf pinned. The main results are that a scan of a stored tree ends and yields
  exactly the entries of its range, in order.
\<close>

section \<open>The cursor\<close>

type_synonym record_view = "bytes \<times> bytes \<times> bool"

record range_iter =
  it_tree :: u16
  it_page :: nat
  it_idx :: nat
  it_done :: bool
  it_path :: "(nat \<times> nat) list"
  it_buf :: "record_view list"
  it_served :: nat
  it_leaves :: nat
  it_max_leaves :: nat
  it_pin :: "nat option"
  it_leaf_entries :: nat
  it_leaf_markers :: bool
  it_seeks :: nat

definition btree_range :: "crc_fn \<Rightarrow> pool \<Rightarrow> btree \<Rightarrow> bytes \<Rightarrow> (pool \<times> range_iter kresult) option" where
  "btree_range crc s t from =
     then_may (descend_positioned crc s t from) (\<lambda>s (leaf, idx, path).
     Some (s, Ok \<lparr>it_tree = tree_id t, it_page = leaf, it_idx = idx, it_done = False, it_path = path, it_buf = [],
       it_served = 0, it_leaves = 1, it_max_leaves = next_page s, it_pin = None, it_leaf_entries = 0,
       it_leaf_markers = True, it_seeks = 0\<rparr>))"

text \<open>\<open>self.pin = None\<close>: the guard, if any, is dropped.\<close>

definition drop_pin :: "pool \<times> range_iter \<Rightarrow> (pool \<times> range_iter) \<times> unit kresult" where
  "drop_pin x =
     (case x of (s, it) \<Rightarrow> case it_pin it of
        None \<Rightarrow> ((s, it), Ok ())
      | Some i \<Rightarrow> (case unpin s i False of Ok s \<Rightarrow> ((s, it\<lparr>it_pin := None\<rparr>), Ok ()) | _ \<Rightarrow> ((s, it), Panic)))"

text \<open>Indexing a record's first bytes, as \<open>leaf_has_marker\<close> does; out of range it panics.\<close>

definition record_is_marker :: "bytes \<Rightarrow> bool kresult" where
  "record_is_marker rec =
     (if length rec < 2 then Panic
      else if int_cell (rec ! 0) (rec ! 1) then Ok False
      else if short_cell (rec ! 1) then Ok False
      else let k = unat (le16 (rec ! 0) (rec ! 1)) in
        if 3 + k \<ge> length rec then Panic else Ok (le16 (rec ! (2 + k)) (rec ! (3 + k)) = OVERFLOW_VLEN))"

fun marker_loop :: "bytes \<Rightarrow> nat list \<Rightarrow> bool kresult" where
  "marker_loop p [] = Ok False"
| "marker_loop p (i # is) =
     obind (page_slot p i) (\<lambda>rec. obind (record_is_marker rec) (\<lambda>m. if m then Ok True else marker_loop p is))"

definition leaf_has_marker :: "bytes \<Rightarrow> bool kresult" where
  "leaf_has_marker p = marker_loop p [0..<nentries p]"

section \<open>Stepping to the next leaf\<close>

text \<open>Climb: drop exhausted levels. The path is part of the cursor and stays popped on an error.\<close>

function climb :: "crc_fn \<Rightarrow> pool \<times> (nat \<times> nat) list \<Rightarrow> (pool \<times> (nat \<times> nat) list) \<times> (nat \<times> nat) option kresult" where
  "climb crc (s, path) =
     (if path = [] then ((s, path), Ok None)
      else let (page, i) = last path; rest = butlast path;
               (s, r) = with_page crc s page (\<lambda>p. Ok (nentries p))
           in case r of
                Ok n \<Rightarrow> if i < n then ((s, rest), Ok (Some (page, i + 1))) else climb crc (s, rest)
              | Err e \<Rightarrow> ((s, rest), Err e)
              | Panic \<Rightarrow> ((s, rest), Panic))"
  by pat_completeness auto
termination by (relation "measure (\<lambda>(crc, s, path). length path)") auto

declare climb.simps [simp del]

text \<open>A page opened under a read guard that is kept when \<open>k\<close> says so (\<open>Inl\<close>) and dropped otherwise.\<close>

definition pin_page :: "crc_fn \<Rightarrow> pool \<Rightarrow> nat \<Rightarrow> (bytes \<Rightarrow> ('a + 'b) kresult) \<Rightarrow> pool \<times> (nat \<times> 'a + 'b) kresult" where
  "pin_page crc s no k =
     then_do (pool_get crc s no) (\<lambda>s i.
     let (s, r) = open_cached crc s i no in
     case obind r k of
       Ok (Inl a) \<Rightarrow> (s, Ok (Inl (i, a)))
     | q \<Rightarrow> (case unpin s i False of
           Ok s' \<Rightarrow> (s', case q of Ok (Inr b) \<Rightarrow> Ok (Inr b) | Err e \<Rightarrow> Err e | _ \<Rightarrow> Panic)
         | _ \<Rightarrow> (s, Panic)))"

text \<open>One round of the way down the leftmost spine: at a leaf its entry count and marker flag.\<close>

definition advance_page :: "u16 \<Rightarrow> nat \<Rightarrow> nat \<Rightarrow> nat \<Rightarrow> bytes \<Rightarrow> (nat \<times> bool + nat) kresult" where
  "advance_page tid idx pages cur p =
     obind (own_page tid cur ''page belongs to another tree'' p) (\<lambda>_.
     obind (page_kind_of p) (\<lambda>kind.
     if kind = PageLeaf then obind (leaf_has_marker p) (\<lambda>m. Ok (Inl (nentries p, m)))
     else obind (child_at pages p idx) (\<lambda>child. Ok (Inr child))))"

partial_function (option) leftmost_loop ::
  "crc_fn \<Rightarrow> u16 \<Rightarrow> pool \<times> (nat \<times> nat) list \<Rightarrow> nat \<Rightarrow> nat \<Rightarrow>
     ((pool \<times> (nat \<times> nat) list) \<times> (nat \<times> nat \<times> nat \<times> bool) kresult) option" where
  "leftmost_loop crc tid x cur idx =
     (case x of (s, path) \<Rightarrow>
      case pin_page crc s cur (advance_page tid idx (next_page s) cur) of
        (s, Ok (Inl (i, n, m))) \<Rightarrow> Some ((s, path), Ok (i, cur, n, m))
      | (s, Ok (Inr child)) \<Rightarrow> leftmost_loop crc tid (s, path @ [(cur, idx)]) child 0
      | (s, Err e) \<Rightarrow> Some ((s, path), Err e)
      | (s, Panic) \<Rightarrow> Some ((s, path), Panic))"

text \<open>Running a path operation on the cursor's path.\<close>

definition on_path :: "range_iter \<Rightarrow> (pool \<times> (nat \<times> nat) list) \<times> 'a kresult \<Rightarrow> (pool \<times> range_iter) \<times> 'a kresult" where
  "on_path it y = (case y of ((s, path), r) \<Rightarrow> ((s, it\<lparr>it_path := path\<rparr>), r))"

definition iter_advance :: "crc_fn \<Rightarrow> pool \<times> range_iter \<Rightarrow> ((pool \<times> range_iter) \<times> bool kresult) option" where
  "iter_advance crc x =
     (case x of (s, it) \<Rightarrow>
      then_may (Some (on_path it (climb crc (s, it_path it)))) (\<lambda>(s, it) up.
      case up of
        None \<Rightarrow> Some ((s, it), Ok False)
      | Some (page, j) \<Rightarrow>
          then_may (map_option (on_path it) (leftmost_loop crc (it_tree it) (s, it_path it) page j)) (\<lambda>(s, it) (i, leaf, n, m).
          let it' = it\<lparr>it_page := leaf, it_idx := 0, it_leaf_entries := n, it_leaf_markers := m, it_pin := None\<rparr> in
          then_may (Some (drop_pin (s, it))) (\<lambda>(s, _) _.
          let it = it'\<lparr>it_pin := Some i, it_leaves := it_leaves it + 1\<rparr> in
          Some ((s, it),
            if it_leaves it > it_max_leaves it then Err (Corrupt (of_nat leaf) ''scan visits more leaves than the file holds'')
            else Ok True)))))"

section \<open>The iterator\<close>

definition SHORT_SCAN :: nat where "SHORT_SCAN = 8"

text \<open>Records from slot \<open>i\<close> on, decoded.\<close>

fun read_views :: "bytes \<Rightarrow> nat list \<Rightarrow> record_view list kresult" where
  "read_views p [] = Ok []"
| "read_views p (i # is) =
     obind (page_slot p i) (\<lambda>rec. obind (validated_leaf rec) (\<lambda>v. obind (read_views p is) (\<lambda>vs. Ok (v # vs))))"

text \<open>What one round takes from the leaf: one record while the scan is short, the rest of the leaf later.\<close>

definition next_page_view :: "range_iter \<Rightarrow> bytes \<Rightarrow> record_view list kresult" where
  "next_page_view it p =
     obind (own_page (it_tree it) (it_page it) ''sibling page belongs to another tree'' p) (\<lambda>_.
     read_views p (if it_served it < SHORT_SCAN then (if it_idx it < nentries p then [it_idx it] else []) else [it_idx it..<nentries p]))"

definition resolve :: "crc_fn \<Rightarrow> pool \<Rightarrow> record_view \<Rightarrow> pool \<times> (bytes \<times> bytes) kresult" where
  "resolve crc s v =
     (case v of (k, raw, True) \<Rightarrow> omap (\<lambda>val. (k, val)) (read_overflow crc s raw) | (k, val, False) \<Rightarrow> (s, Ok (k, val)))"

definition yield_item :: "crc_fn \<Rightarrow> pool \<times> range_iter \<Rightarrow> record_view \<Rightarrow> (pool \<times> range_iter) \<times> (bytes \<times> bytes) option kresult" where
  "yield_item crc x v =
     (case x of (s, it) \<Rightarrow> case resolve crc s v of
        (s, Ok item) \<Rightarrow> ((s, it), Ok (Some item))
      | (s, Err e) \<Rightarrow> ((s, it\<lparr>it_done := True\<rparr>), Err e)
      | (s, Panic) \<Rightarrow> ((s, it), Panic))"

text \<open>\<open>Iterator::next\<close>; \<open>Err e\<close> stands for \<open>Some(Err(e))\<close>, after which the cursor is fused.\<close>

partial_function (option) iter_next :: "crc_fn \<Rightarrow> pool \<times> range_iter \<Rightarrow> ((pool \<times> range_iter) \<times> (bytes \<times> bytes) option kresult) option" where
  "iter_next crc x =
     then_may (Some (drop_pin x)) (\<lambda>(s, it) _.
     case it_buf it of
       v # rest \<Rightarrow> Some (yield_item crc (s, it\<lparr>it_buf := rest\<rparr>) v)
     | [] \<Rightarrow>
       if it_done it then Some ((s, it), Ok None)
       else case with_page crc s (it_page it) (next_page_view it) of
         (s, Err e) \<Rightarrow> Some ((s, it\<lparr>it_done := True\<rparr>), Err e)
       | (s, Panic) \<Rightarrow> Some ((s, it), Panic)
       | (s, Ok vs) \<Rightarrow>
         if it_served it < SHORT_SCAN \<and> vs \<noteq> []
         then Some (yield_item crc (s, it\<lparr>it_idx := it_idx it + 1, it_served := it_served it + 1\<rparr>) (hd vs))
         else
           let it = it\<lparr>it_idx := it_idx it + length vs, it_buf := vs\<rparr> in
           Option.bind (iter_advance crc (s, it)) (\<lambda>a. case a of
             ((s, it), Ok stepped) \<Rightarrow> iter_next crc (s, if stepped then it else it\<lparr>it_done := True\<rparr>)
           | ((s, it), Err e) \<Rightarrow> Some ((s, it\<lparr>it_done := True\<rparr>), Err e)
           | ((s, it), Panic) \<Rightarrow> Some ((s, it), Panic)))"

text \<open>A consumer that collects items until the end or the first error.\<close>

partial_function (option) iter_collect :: "crc_fn \<Rightarrow> pool \<times> range_iter \<Rightarrow> (bytes \<times> bytes) list \<Rightarrow> ((pool \<times> range_iter) \<times> (bytes \<times> bytes) list kresult) option" where
  "iter_collect crc x out =
     then_may (iter_next crc x) (\<lambda>x item. case item of None \<Rightarrow> Some (x, Ok out) | Some e \<Rightarrow> iter_collect crc x (out @ [e]))"

section \<open>Pages kept under a guard\<close>

text \<open>A page read under a guard that is held: dropping the guard leads to a state that only read.\<close>

definition parked :: "crc_fn \<Rightarrow> pool \<Rightarrow> pool \<Rightarrow> nat \<Rightarrow> pool \<Rightarrow> bool" where
  "parked crc s u i t \<longleftrightarrow> unpin u i False = Ok t \<and> reads_only crc s t"

lemma with_page_pieces:
  assumes "with_page crc s no Ok = (t, Ok b)"
  obtains w u i where "pool_get crc s no = (w, Ok i)" "open_cached crc w i no = (u, Ok b)" "unpin u i False = Ok t"
proof -
  obtain w y where g: "pool_get crc s no = (w, y)" by fastforce
  obtain i where y: "y = Ok i" using assms g by (cases y) (simp_all add: with_page_def)
  obtain u r where o: "open_cached crc w i no = (u, r)" by fastforce
  have "unpin u i False = Ok t \<and> r = Ok b" using assms g y o by (cases "unpin u i False"; cases r) (simp_all add: with_page_def)
  then show thesis using that g y o by blast
qed

lemma pin_page_reads:
  assumes "idle crc s" "holds crc s no b" "page_kind_of b = Ok kind"
    and "\<forall>rec \<in> set (page_slots b). \<exists>d. decode_record rec (of_nat no) kind = Ok d"
  obtains b' t u i where "page_ok crc no b'" "page_body b' = page_body b" "parked crc s u i t"
    "\<forall>a. k b' = Ok (Inl a) \<longrightarrow> pin_page crc s no k = (u, Ok (Inl (i, a)))" "\<forall>c. k b' = Ok (Inr c) \<longrightarrow> pin_page crc s no k = (t, Ok (Inr c))"
proof -
  obtain b' t where r: "with_page crc s no Ok = (t, Ok b')" "page_ok crc no b'" "page_body b' = page_body b" "reads_only crc s t"
    by (rule with_page_reads [OF assms])
  obtain w u i where p: "pool_get crc s no = (w, Ok i)" "open_cached crc w i no = (u, Ok b')" "unpin u i False = Ok t"
    by (rule with_page_pieces [OF r(1)])
  have "parked crc s u i t" using p(3) r(4) by (simp add: parked_def)
  moreover have "pin_page crc s no k = (u, Ok (Inl (i, a)))" if "k b' = Ok (Inl a)" for a using that p by (simp add: pin_page_def)
  moreover have "pin_page crc s no k = (t, Ok (Inr c))" if "k b' = Ok (Inr c)" for c using that p by (simp add: pin_page_def)
  ultimately show thesis using that r(2,3) by blast
qed

section \<open>Places and their leaves\<close>

fun leaf_count :: "tree \<Rightarrow> nat" where
  "leaf_count (TLeaf no es) = 1"
| "leaf_count (TNode no t0 kts) = leaf_count t0 + sum_list (map (\<lambda>(k, t). leaf_count t) kts)"

fun leaves_after :: "place \<Rightarrow> nat" where
  "leaves_after [] = 0"
| "leaves_after ((n, i) # z) = leaves_after z + sum_list (map leaf_count (drop (Suc i) (children n)))"

lemma entries_after_append: "entries_after (z @ z') = entries_after z' @ entries_after z"
  by (induction z rule: entries_after.induct) simp_all

lemma leaves_after_append: "leaves_after (z @ z') = leaves_after z' + leaves_after z"
  by (induction z rule: leaves_after.induct) simp_all

lemma leaf_count_children: "children t \<noteq> [] \<Longrightarrow> leaf_count t = sum_list (map leaf_count (children t))"
  by (cases t) (simp_all add: comp_def split_def)

lemma page_path_append: "page_path (z @ z') = page_path z @ page_path z'"
  by (simp add: page_path_def)

lemma leaf_count_pos: "0 < leaf_count t"
  by (induction t) simp_all

lemma with_page_tree:
  assumes "idle crc s" "tree_stored crc s tid n"
  obtains b' t where "with_page crc s (page_of n) (\<lambda>p. Ok (nentries p)) = (t, Ok (nentries b'))" "reads_only crc s t"
    "children n \<noteq> [] \<longrightarrow> Suc (nentries b') = length (children n)"
proof (cases n)
  case (TLeaf no es)
  then obtain b where b: "holds crc s no b" "leaf_image crc s tid no es b" using assms(2) by auto
  obtain b' t where "with_page crc s no (\<lambda>p. Ok (nentries p)) = (t, Ok (nentries b'))" "reads_only crc s t"
    by (rule with_page_leaf [OF assms(1) b])
  then show thesis using that TLeaf by simp
next
  case (TNode no t0 kts)
  then obtain b where b: "holds crc s no b" "node_image crc tid no (page_of t0) (node_kids kts) b" using assms(2) by auto
  obtain b' t where "with_page crc s no (\<lambda>p. Ok (nentries p)) = (t, Ok (nentries b'))" "reads_only crc s t"
      "node_image crc tid no (page_of t0) (node_kids kts) b'"
    by (rule with_page_node [OF assms(1) b])
  then show thesis using that TNode node_image_entries(1) by (fastforce simp: node_kids_def)
qed

text \<open>Climbing finds the nearest ancestor with a child to the right.\<close>

lemma climb_stored:
  assumes "idle crc s" "spine t z l" "tree_stored crc s tid t"
  shows "\<exists>s'. reads_only crc s s' \<and>
    (climb crc (s, page_path z) = ((s', []), Ok None) \<and> entries_after z = [] \<or>
     (\<exists>z' n j. climb crc (s, page_path z) = ((s', page_path z'), Ok (Some (page_of n, j))) \<and> spine t z' n \<and> j < length (children n) \<and>
        entries_after z = tree_entries (children n ! j) @ entries_after (z' @ [(n, j)]) \<and>
        leaves_after z = leaf_count (children n ! j) + leaves_after (z' @ [(n, j)])))"
  using assms
proof (induction z arbitrary: s l rule: rev_induct)
  case Nil
  then show ?case by (intro exI [of _ s]) (simp add: climb.simps page_path_def reads_only_refl)
next
  case (snoc f z)
  obtain n i where f: "f = (n, i)" by (cases f)
  have sp: "spine t z n" "i < length (children n)" using snoc.prems(2) by (auto simp: f spine_append)
  note n = spine_stored [OF sp(1) snoc.prems(3)]
  obtain b' u where u: "with_page crc s (page_of n) (\<lambda>p. Ok (nentries p)) = (u, Ok (nentries b'))" "reads_only crc s u"
      "children n \<noteq> [] \<longrightarrow> Suc (nentries b') = length (children n)"
    by (rule with_page_tree [OF snoc.prems(1) n])
  have len: "length (children n) = Suc (nentries b')" using u(3) sp(2) by fastforce
  have c: "climb crc (s, page_path (z @ [f])) =
      (if i < nentries b' then ((u, page_path z), Ok (Some (page_of n, i + 1))) else climb crc (u, page_path z))"
    by (subst climb.simps) (simp add: page_path_def f u(1))
  show ?case
  proof (cases "i < nentries b'")
    case True
    have "drop (Suc i) (children n) = children n ! (i + 1) # drop (Suc (i + 1)) (children n)"
      using True len by (simp add: Cons_nth_drop_Suc)
    then show ?thesis
      using c True sp u(2) len
      by (intro exI [of _ u] conjI disjI2 exI [of _ z] exI [of _ n] exI [of _ "i + 1"])
        (simp_all add: entries_after_append leaves_after_append f)
  next
    case False
    then have "drop (Suc i) (children n) = []" using len by simp
    then have e: "entries_after (z @ [f]) = entries_after z" "leaves_after (z @ [f]) = leaves_after z"
      by (simp_all add: entries_after_append leaves_after_append f)
    have "tree_stored crc u tid t" by (rule tree_stored_reads_only [OF u(2) snoc.prems(3)])
    from snoc.IH [OF reads_only_idle [OF u(2)] sp(1) this] show ?thesis
      unfolding e using c False reads_only_trans [OF u(2)] by auto
  qed
qed

text \<open>The marker flag of a leaf.\<close>

lemma record_is_marker_leaf: "validated_leaf rec = Ok (k, v, ov) \<Longrightarrow> record_is_marker rec = Ok ov"
  by (auto simp: validated_leaf_def record_is_marker_def Let_def obind_iffs split: if_splits)

lemma marker_loop_leaf:
  assumes "leaf_image crc s tid no es b" "\<forall>i \<in> set is. i < length es"
  shows "\<exists>m. marker_loop b is = Ok m \<and> (\<not> m \<longrightarrow> (\<forall>i \<in> set is. \<exists>raw. validated_leaf (page_slots b ! i) = Ok (fst (es ! i), raw, False)))"
  using assms(2)
proof (induction "is")
  case (Cons i "is")
  then have i: "i < length es" by simp
  obtain raw ov where v: "validated_leaf (page_slots b ! i) = Ok (fst (es ! i), raw, ov)"
    using cell_holds_leaf [OF leaf_image_entries(2) [OF assms(1) i]] by blast
  show ?case
    using Cons v record_is_marker_leaf [OF v] leaf_image_entries(3) [OF assms(1) i] by (cases ov) auto
qed (intro exI [of _ False], simp)

lemma leaf_has_marker_leaf:
  assumes "leaf_image crc s tid no es b"
  obtains m where "leaf_has_marker b = Ok m"
    "\<not> m \<longrightarrow> (\<forall>i < length es. \<exists>raw. validated_leaf (page_slots b ! i) = Ok (fst (es ! i), raw, False))"
  using marker_loop_leaf [OF assms, of "[0..<length es]"] leaf_image_entries(1) [OF assms] that by (auto simp: leaf_has_marker_def)

text \<open>Down the leftmost spine to the first leaf, which stays pinned.\<close>

definition leftmost :: "tree \<Rightarrow> place \<Rightarrow> nat \<Rightarrow> entry list \<Rightarrow> bool" where
  "leftmost m w no es \<longleftrightarrow> spine m w (TLeaf no es) \<and> tree_entries m = map kv es @ entries_after w \<and> leaf_count m = Suc (leaves_after w)"

definition lands :: "crc_fn \<Rightarrow> pool \<Rightarrow> ((pool \<times> (nat \<times> nat) list) \<times> (nat \<times> nat \<times> nat \<times> bool) kresult) option \<Rightarrow> place \<Rightarrow> nat \<Rightarrow> entry list \<Rightarrow> bool" where
  "lands crc s r z no es \<longleftrightarrow> (\<exists>u i v m. r = Some ((u, page_path z), Ok (i, no, length es, m)) \<and> parked crc s u i v)"

lemma lands_trans: "reads_only crc s t \<Longrightarrow> lands crc t r z no es \<Longrightarrow> lands crc s r z no es"
  unfolding lands_def parked_def using reads_only_trans by blast

lemma leftmost_node:
  assumes "idle crc s" "tree_stored crc s tid (TNode no t0 kts)" "j \<le> length kts"
  obtains t where "leftmost_loop crc tid (s, path) no j = leftmost_loop crc tid (t, path @ [(no, j)]) (page_of ((t0 # map snd kts) ! j)) 0"
    "reads_only crc s t"
proof -
  obtain b where b: "holds crc s no b" "node_image crc tid no (page_of t0) (node_kids kts) b" using assms(2) by auto
  have "page_kind_of b = Ok PageInterior" using b(2) by (simp add: node_image_def)
  then obtain b' t u i where p: "page_ok crc no b'" "page_body b' = page_body b" "parked crc s u i t"
      "\<forall>a. advance_page tid j (next_page s) no b' = Ok (Inl a) \<longrightarrow> pin_page crc s no (advance_page tid j (next_page s) no) = (u, Ok (Inl (i, a)))"
      "\<forall>c. advance_page tid j (next_page s) no b' = Ok (Inr c) \<longrightarrow> pin_page crc s no (advance_page tid j (next_page s) no) = (t, Ok (Inr c))"
    by (rule pin_page_reads [OF assms(1) b(1) _ node_image_decodes [OF b(2)]])
  note n = node_image_body [OF b(2) p(1,2)]
  have "advance_page tid j (next_page s) no b' = Ok (Inr (page_of ((t0 # map snd kts) ! j)))"
    using n child_at_node [OF n assms(3,2)] by (simp add: advance_page_def own_page_def node_image_def)
  then have "leftmost_loop crc tid (s, path) no j = leftmost_loop crc tid (t, path @ [(no, j)]) (page_of ((t0 # map snd kts) ! j)) 0"
    using p(5) by (simp add: leftmost_loop.simps [of _ _ "(s, path)"])
  then show thesis using that p(3) by (simp add: parked_def)
qed

lemma leftmost_loop_stored:
  assumes "idle crc s" "tree_stored crc s tid m"
  shows "\<exists>w no es. leftmost m w no es \<and> lands crc s (leftmost_loop crc tid (s, page_path z) (page_of m) 0) (z @ w) no es"
  using assms
proof (induction m arbitrary: s z)
  case (TLeaf no es)
  obtain b where b: "holds crc s no b" "leaf_image crc s tid no es b" using TLeaf.prems(2) by auto
  have "page_kind_of b = Ok PageLeaf" using b(2) by (simp add: leaf_image_def)
  then obtain b' t u i where p: "page_ok crc no b'" "page_body b' = page_body b" "parked crc s u i t"
      "\<forall>a. advance_page tid 0 (next_page s) no b' = Ok (Inl a) \<longrightarrow> pin_page crc s no (advance_page tid 0 (next_page s) no) = (u, Ok (Inl (i, a)))"
      "\<forall>c. advance_page tid 0 (next_page s) no b' = Ok (Inr c) \<longrightarrow> pin_page crc s no (advance_page tid 0 (next_page s) no) = (t, Ok (Inr c))"
    by (rule pin_page_reads [OF TLeaf.prems(1) b(1) _ leaf_image_decodes [OF b(2)]])
  note l = leaf_image_body [OF b(2) p(1,2)]
  obtain m where m: "leaf_has_marker b' = Ok m" by (rule leaf_has_marker_leaf [OF l])
  have "advance_page tid 0 (next_page s) no b' = Ok (Inl (length es, m))"
    using l m leaf_image_entries(1) [OF l] by (simp add: advance_page_def own_page_def leaf_image_def)
  then have "leftmost_loop crc tid (s, page_path z) no 0 = Some ((u, page_path z), Ok (i, no, length es, m))"
    using p(4) by (simp add: leftmost_loop.simps [of crc tid "(s, page_path z)"])
  then show ?case using p(3)
    by (intro exI [of _ "[]"] exI [of _ no] exI [of _ es]) (auto simp: leftmost_def lands_def)
next
  case (TNode no t0 kts)
  obtain t where t: "leftmost_loop crc tid (s, page_path z) no 0 =
        leftmost_loop crc tid (t, page_path z @ [(no, 0)]) (page_of ((t0 # map snd kts) ! 0)) 0" "reads_only crc s t"
    by (rule leftmost_node [OF TNode.prems le0])
  have "tree_stored crc t tid t0" using tree_stored_reads_only [OF t(2) TNode.prems(2)] by simp
  from TNode.IH(1) [OF reads_only_idle [OF t(2)] this, of "z @ [(TNode no t0 kts, 0)]"]
  obtain w m es where w: "leftmost t0 w m es"
      "lands crc t (leftmost_loop crc tid (t, page_path z @ [(no, 0)]) (page_of t0) 0) ((z @ [(TNode no t0 kts, 0)]) @ w) m es"
    by (auto simp: page_path_def)
  have "leftmost (TNode no t0 kts) ((TNode no t0 kts, 0) # w) m es"
    using w(1) by (simp add: leftmost_def comp_def split_def)
  moreover have "lands crc s (leftmost_loop crc tid (s, page_path z) no 0) (z @ (TNode no t0 kts, 0) # w) m es"
    unfolding t(1) using lands_trans [OF t(2) w(2)] by simp
  ultimately show ?case by (metis page_of.simps(2))
qed

section \<open>The cursor on a stored tree\<close>

text \<open>The cursor stands at a place of the tree, with the entries that are still to come.\<close>

definition stands :: "crc_fn \<Rightarrow> pool \<Rightarrow> tree \<Rightarrow> range_iter \<Rightarrow> place \<Rightarrow> nat \<Rightarrow> entry list \<Rightarrow> bool" where
  "stands crc s t it z no es \<longleftrightarrow>
     idle crc s \<and> it_pin it = None \<and> tree_stored crc s (it_tree it) t \<and> tree_ordered t \<and> \<not> it_done it \<and>
     spine t z (TLeaf no es) \<and> it_page it = no \<and> it_path it = page_path z \<and> it_leaves it + leaves_after z \<le> it_max_leaves it"

lemma drop_pin_None [simp]: "it_pin it = None \<Longrightarrow> drop_pin (s, it) = ((s, it), Ok ())"
  by (simp add: drop_pin_def)

lemma drop_pin_parked:
  "parked crc s u i v \<Longrightarrow> it_pin it = Some i \<Longrightarrow> drop_pin (u, it) = ((v, it\<lparr>it_pin := None\<rparr>), Ok ())"
  by (simp add: drop_pin_def parked_def)

lemma iter_advance_stands:
  assumes "stands crc s t it z no es"
  obtains s' where "iter_advance crc (s, it) = Some ((s', it\<lparr>it_path := []\<rparr>), Ok False)" "reads_only crc s s'" "entries_after z = []"
  | u s' z' m fs n b i where "iter_advance crc (s, it) = Some ((u, it\<lparr>it_path := page_path z', it_page := m, it_idx := 0,
        it_leaf_entries := n, it_leaf_markers := b, it_pin := Some i, it_leaves := it_leaves it + 1\<rparr>), Ok True)"
      "parked crc s u i s'" "entries_after z = map kv fs @ entries_after z'" "leaves_after z = Suc (leaves_after z')" "spine t z' (TLeaf m fs)"
proof -
  have st: "idle crc s" "spine t z (TLeaf no es)" "tree_stored crc s (it_tree it) t" "it_pin it = None" "it_path it = page_path z"
      "it_leaves it + leaves_after z \<le> it_max_leaves it"
    using assms by (simp_all add: stands_def)
  obtain v where v: "reads_only crc s v"
    "climb crc (s, page_path z) = ((v, []), Ok None) \<and> entries_after z = [] \<or>
     (\<exists>z' n j. climb crc (s, page_path z) = ((v, page_path z'), Ok (Some (page_of n, j))) \<and> spine t z' n \<and> j < length (children n) \<and>
        entries_after z = tree_entries (children n ! j) @ entries_after (z' @ [(n, j)]) \<and>
        leaves_after z = leaf_count (children n ! j) + leaves_after (z' @ [(n, j)]))"
    using climb_stored [OF st(1-3)] by blast
  show thesis
  proof (cases "climb crc (s, page_path z) = ((v, []), Ok None) \<and> entries_after z = []")
    case True
    then have "iter_advance crc (s, it) = Some ((v, it\<lparr>it_path := []\<rparr>), Ok False)" by (simp add: iter_advance_def on_path_def st(5))
    then show thesis using that(1) v(1) True by blast
  next
    case False
    then obtain z' n j where c: "climb crc (s, page_path z) = ((v, page_path z'), Ok (Some (page_of n, j)))" "spine t z' n" "j < length (children n)"
        "entries_after z = tree_entries (children n ! j) @ entries_after (z' @ [(n, j)])"
        "leaves_after z = leaf_count (children n ! j) + leaves_after (z' @ [(n, j)])"
      using v(2) by blast
    obtain k t0 kts where n: "n = TNode k t0 kts" using c(3) by (cases n) simp_all
    let ?c = "children n ! j"
    have nv: "tree_stored crc v (it_tree it) n" by (rule spine_stored [OF c(2) tree_stored_reads_only [OF v(1) st(3)]])
    have jl: "j \<le> length kts" using c(3) n by simp
    obtain w where w: "leftmost_loop crc (it_tree it) (v, page_path z') k j =
          leftmost_loop crc (it_tree it) (w, page_path z' @ [(k, j)]) (page_of ((t0 # map snd kts) ! j)) 0" "reads_only crc v w"
      by (rule leftmost_node [OF reads_only_idle [OF v(1)] nv [unfolded n] jl])
    have "tree_stored crc w (it_tree it) ?c" by (rule tree_stored_child [OF tree_stored_reads_only [OF w(2) nv] nth_mem [OF c(3)]])
    then obtain y m fs where y: "leftmost ?c y m fs"
        "lands crc w (leftmost_loop crc (it_tree it) (w, page_path (z' @ [(n, j)])) (page_of ?c) 0) ((z' @ [(n, j)]) @ y) m fs"
      using leftmost_loop_stored [OF reads_only_idle [OF w(2)]] by blast
    have "leftmost_loop crc (it_tree it) (v, page_path z') (page_of n) j =
        leftmost_loop crc (it_tree it) (w, page_path (z' @ [(n, j)])) (page_of ?c) 0"
      using w(1) by (simp add: n page_path_def)
    then obtain u i x b where u: "leftmost_loop crc (it_tree it) (v, page_path z') (page_of n) j = Some ((u, page_path ((z' @ [(n, j)]) @ y)), Ok (i, m, length fs, b))"
        "parked crc w u i x"
      using y(2) unfolding lands_def by metis
    have la: "leaves_after z = Suc (leaves_after ((z' @ [(n, j)]) @ y))"
      using c(5) y(1) by (simp add: leaves_after_append leftmost_def)
    have "iter_advance crc (s, it) = Some ((u, it\<lparr>it_path := page_path ((z' @ [(n, j)]) @ y), it_page := m, it_idx := 0,
        it_leaf_entries := length fs, it_leaf_markers := b, it_pin := Some i, it_leaves := it_leaves it + 1\<rparr>), Ok True)"
      using c(1) u(1) st(4-6) la by (simp add: iter_advance_def on_path_def Let_def)
    moreover have "parked crc s u i x" using u(2) v(1) w(2) reads_only_trans unfolding parked_def by blast
    moreover have "entries_after z = map kv fs @ entries_after ((z' @ [(n, j)]) @ y)"
      using c(4) y(1) by (simp add: entries_after_append leftmost_def)
    moreover have "spine t ((z' @ [(n, j)]) @ y) (TLeaf m fs)"
      using c(2,3) y(1) by (auto simp: spine_append leftmost_def)
    ultimately show thesis using that(2) la by blast
  qed
qed

text \<open>Decoded records and the entries they stand for.\<close>

definition views_hold :: "crc_fn \<Rightarrow> pool \<Rightarrow> record_view list \<Rightarrow> (bytes \<times> bytes) list \<Rightarrow> bool" where
  "views_hold crc s vs es \<longleftrightarrow> list_all2 (\<lambda>(k, raw, ov) (k', v). k = k' \<and> raw_holds crc s raw ov v) vs es"

lemma views_hold_reads_only: "reads_only crc s t \<Longrightarrow> views_hold crc s vs es \<Longrightarrow> views_hold crc t vs es"
  unfolding views_hold_def using raw_holds_reads_only by (fastforce elim!: list_all2_mono)

lemma read_views_leaf:
  assumes "leaf_image crc s tid no es b" "\<forall>i \<in> set is. i < length es"
  shows "\<exists>vs. read_views b is = Ok vs \<and> views_hold crc s vs (map ((!) (map kv es)) is)"
  using assms(2)
proof (induction "is")
  case (Cons i "is")
  then have i: "i < length es" by simp
  obtain raw ov where "validated_leaf (page_slots b ! i) = Ok (fst (es ! i), raw, ov)" "raw_holds crc s raw ov (snd (kv (es ! i)))"
    using cell_holds_leaf [OF leaf_image_entries(2) [OF assms(1) i]] by blast
  then show ?case
    using Cons leaf_image_entries(3) [OF assms(1) i] by (auto simp: views_hold_def split_def)
qed (simp add: views_hold_def)

lemma resolve_view:
  assumes "idle crc s" "raw_holds crc s raw ov v"
  shows "\<exists>t. resolve crc s (k, raw, ov) = (t, Ok (k, v)) \<and> reads_only crc s t"
proof (cases ov)
  case True
  then obtain t where "read_overflow crc s raw = (t, Ok v)" "reads_only crc s t"
    using read_overflow_spilled [OF assms(1)] assms(2) unfolding raw_holds_def by metis
  then show ?thesis using True by (simp add: resolve_def omap_Ok)
next
  case False
  then show ?thesis using assms reads_only_refl by (simp add: resolve_def raw_holds_def)
qed

definition remaining :: "crc_fn \<Rightarrow> pool \<Rightarrow> tree \<Rightarrow> range_iter \<Rightarrow> (bytes \<times> bytes) list \<Rightarrow> bool" where
  "remaining crc s t it rest \<longleftrightarrow>
     idle crc s \<and> it_pin it = None \<and>
     (\<exists>bes. views_hold crc s (it_buf it) bes \<and>
        (if it_done it then rest = bes
         else \<exists>z no es. stands crc s t it z no es \<and> it_idx it \<le> length es \<and> rest = bes @ drop (it_idx it) (map kv es) @ entries_after z))"

lemma stands_reads_only: "reads_only crc s s' \<Longrightarrow> stands crc s t it z no es \<Longrightarrow> stands crc s' t it z no es"
  using tree_stored_reads_only reads_only_idle by (auto simp: stands_def)

lemma remaining_reads_only: "reads_only crc s s' \<Longrightarrow> remaining crc s t it rest \<Longrightarrow> remaining crc s' t it rest"
  unfolding remaining_def using views_hold_reads_only stands_reads_only reads_only_idle by (smt (verit, best))

lemma stands_cong:
  "stands crc s t it z no es \<Longrightarrow> stands crc s t (it\<lparr>it_idx := i, it_served := n, it_buf := b\<rparr>) z no es"
  by (simp add: stands_def)

lemma iter_next_drop:
  assumes "drop_pin x = ((s, it), Ok ())" "it_pin it = None"
  shows "iter_next crc x = iter_next crc (s, it)"
  unfolding iter_next.simps [of crc x] iter_next.simps [of crc "(s, it)"] using assms by simp

lemma iter_next_done: "it_done it \<Longrightarrow> it_buf it = [] \<Longrightarrow> it_pin it = None \<Longrightarrow> iter_next crc (s, it) = Some ((s, it), Ok None)"
  by (simp add: iter_next.simps [of crc "(s, it)"])

lemma yield_item_view:
  assumes "idle crc s" "raw_holds crc s raw ov v"
  shows "\<exists>s'. yield_item crc (s, it) (k, raw, ov) = ((s', it), Ok (Some (k, v))) \<and> reads_only crc s s'"
  using resolve_view [OF assms, of k] by (auto simp: yield_item_def)

definition yields :: "crc_fn \<Rightarrow> pool \<Rightarrow> tree \<Rightarrow> ((pool \<times> range_iter) \<times> (bytes \<times> bytes) option kresult) option \<Rightarrow> (bytes \<times> bytes) list \<Rightarrow> bool" where
  "yields crc s t r rest \<longleftrightarrow>
     (\<exists>s' it'. r = Some ((s', it'), Ok (case rest of [] \<Rightarrow> None | e # _ \<Rightarrow> Some e)) \<and> reads_only crc s s' \<and> remaining crc s' t it' (tl rest))"

lemma yields_trans: "reads_only crc s s' \<Longrightarrow> yields crc s' t r rest \<Longrightarrow> yields crc s t r rest"
  unfolding yields_def using reads_only_trans by blast

text \<open>A buffered record comes first.\<close>

lemma iter_next_buffered:
  assumes "remaining crc s t it rest" "it_buf it \<noteq> []"
  shows "yields crc s t (iter_next crc (s, it)) rest"
proof -
  obtain k raw ov vs where b: "it_buf it = (k, raw, ov) # vs" using assms(2) by (cases "it_buf it") auto
  have i: "idle crc s" "it_pin it = None" using assms(1) by (simp_all add: remaining_def)
  obtain bes where bes: "views_hold crc s (it_buf it) bes"
      "if it_done it then rest = bes
       else \<exists>z no es. stands crc s t it z no es \<and> it_idx it \<le> length es \<and> rest = bes @ drop (it_idx it) (map kv es) @ entries_after z"
    using assms(1) by (auto simp: remaining_def)
  obtain v es' where e: "bes = (k, v) # es'" "raw_holds crc s raw ov v" "views_hold crc s vs es'"
    using bes(1) by (auto simp: b views_hold_def list_all2_Cons1)
  let ?it = "it\<lparr>it_buf := vs\<rparr>"
  obtain s' where s': "yield_item crc (s, ?it) (k, raw, ov) = ((s', ?it), Ok (Some (k, v)))" "reads_only crc s s'"
    using yield_item_view [OF i(1) e(2)] by blast
  have n: "iter_next crc (s, it) = Some ((s', ?it), Ok (Some (k, v)))"
    using s'(1) i(2) b by (simp add: iter_next.simps [of crc "(s, it)"])
  have "remaining crc s t ?it (tl rest)"
  proof (cases "it_done it")
    case True
    then show ?thesis using i e bes(2) by (simp add: remaining_def)
  next
    case False
    then obtain z no es where "stands crc s t it z no es" "it_idx it \<le> length es" "rest = bes @ drop (it_idx it) (map kv es) @ entries_after z"
      using bes(2) by auto
    moreover from this(1) have "stands crc s t ?it z no es" by (simp add: stands_def)
    ultimately show ?thesis using i e False unfolding remaining_def by (fastforce simp: e(1))
  qed
  moreover have "rest \<noteq> []" "hd rest = (k, v)" using bes(2) e(1) by (auto split: if_splits)
  ultimately show ?thesis
    using n s'(2) remaining_reads_only unfolding yields_def by (cases rest) auto
qed

text \<open>One round at a leaf takes a record, buffers the leaf, or finds nothing left in it.\<close>

lemma next_page_view_leaf:
  assumes "stands crc s t it z no es" "it_idx it \<le> length es"
  obtains s' vs where "with_page crc s no (next_page_view it) = (s', Ok vs)" "reads_only crc s s'"
    "views_hold crc s' vs (if it_served it < SHORT_SCAN then take 1 (drop (it_idx it) (map kv es)) else drop (it_idx it) (map kv es))"
proof -
  have st: "idle crc s" "tree_stored crc s (it_tree it) t" "spine t z (TLeaf no es)" "it_page it = no" using assms(1) by (simp_all add: stands_def)
  obtain b where b: "holds crc s no b" "leaf_image crc s (it_tree it) no es b" using spine_stored [OF st(3,2)] by auto
  obtain b' u where u: "with_page crc s no (next_page_view it) = (u, next_page_view it b')" "leaf_image crc s (it_tree it) no es b'" "reads_only crc s u"
    by (rule with_page_leaf [OF st(1) b])
  define js where "js = (if it_served it < SHORT_SCAN then (if it_idx it < length es then [it_idx it] else []) else [it_idx it..<length es])"
  have "\<forall>i \<in> set js. i < length es" by (simp add: js_def)
  then obtain vs where vs: "read_views b' js = Ok vs" "views_hold crc s vs (map ((!) (map kv es)) js)"
    using read_views_leaf [OF u(2)] by blast
  have "map ((!) (map kv es)) [it_idx it..<length es] = drop (it_idx it) (map kv es)" by (metis add_0 drop_map drop_upt length_map map_nth)
  moreover have "take 1 (drop (it_idx it) (map kv es)) = (if it_idx it < length es then [map kv es ! it_idx it] else [])"
    by (cases "it_idx it < length es") (simp_all add: Cons_nth_drop_Suc [symmetric] drop_map)
  ultimately have "map ((!) (map kv es)) js = (if it_served it < SHORT_SCAN then take 1 (drop (it_idx it) (map kv es)) else drop (it_idx it) (map kv es))"
    by (simp add: js_def)
  moreover have "next_page_view it b' = read_views b' js"
    using u(2) leaf_image_entries(1) [OF u(2)] by (simp add: next_page_view_def own_page_def leaf_image_def js_def)
  ultimately show thesis using that u vs views_hold_reads_only by simp
qed

lemma iter_next_stands:
  assumes "stands crc s t it z no es" "it_idx it \<le> length es" "it_buf it = []"
  shows "yields crc s t (iter_next crc (s, it)) (drop (it_idx it) (map kv es) @ entries_after z)"
  using assms
proof (induction "leaves_after z" arbitrary: s it z no es rule: less_induct)
  case less
  have st: "idle crc s" "it_pin it = None" "\<not> it_done it" "it_page it = no" using less.prems(1) by (simp_all add: stands_def)
  obtain s1 vs where v: "with_page crc s no (next_page_view it) = (s1, Ok vs)" "reads_only crc s s1"
      "views_hold crc s1 vs (if it_served it < SHORT_SCAN then take 1 (drop (it_idx it) (map kv es)) else drop (it_idx it) (map kv es))"
    by (rule next_page_view_leaf [OF less.prems(1,2)])
  note i1 = reads_only_idle [OF v(2)] and st1 = stands_reads_only [OF v(2) less.prems(1)]
  show ?case
  proof (cases "it_served it < SHORT_SCAN \<and> vs \<noteq> []")
    case True
    then obtain k x es' where e: "drop (it_idx it) (map kv es) = (k, x) # es'" using v(3) by (cases "drop (it_idx it) (map kv es)") (auto simp: views_hold_def)
    obtain raw ov where r: "vs = [(k, raw, ov)]" "raw_holds crc s1 raw ov x"
      using v(3) True by (auto simp: e views_hold_def list_all2_Cons2)
    let ?it = "it\<lparr>it_idx := it_idx it + 1, it_served := it_served it + 1\<rparr>"
    obtain s2 where s2: "yield_item crc (s1, ?it) (k, raw, ov) = ((s2, ?it), Ok (Some (k, x)))" "reads_only crc s1 s2"
      using yield_item_view [OF i1 r(2)] by blast
    have n: "iter_next crc (s, it) = Some ((s2, ?it), Ok (Some (k, x)))"
      using st v(1) s2(1) True r(1) less.prems(3) by (simp add: iter_next.simps [of crc "(s, it)"])
    have "drop (Suc (it_idx it)) (map kv es) = es'" using arg_cong [OF e, of tl] by (simp add: drop_Suc tl_drop)
    moreover have "it_idx it < length es" using arg_cong [OF e, of length] by simp
    moreover have "stands crc s1 t ?it z no es" using st1 by (simp add: stands_def)
    ultimately have "remaining crc s1 t ?it (es' @ entries_after z)"
      using i1 st less.prems(3) by (fastforce simp: remaining_def views_hold_def)
    then show ?thesis
      using n remaining_reads_only [OF s2(2)] reads_only_trans [OF v(2) s2(2)] by (auto simp: yields_def e)
  next
    case False
    let ?it = "it\<lparr>it_idx := it_idx it + length vs, it_buf := vs\<rparr>"
    have full: "views_hold crc s1 vs (drop (it_idx it) (map kv es))"
    proof (cases "it_served it < SHORT_SCAN")
      case True
      then have "vs = []" using False by simp
      then show ?thesis using v(3) True by (cases "drop (it_idx it) (map kv es)") (auto simp: views_hold_def)
    qed (use v(3) in simp)
    have sit: "stands crc s1 t ?it z no es" using st1 by (simp add: stands_def)
    have n: "iter_next crc (s, it) = Option.bind (iter_advance crc (s1, ?it)) (\<lambda>a. case a of
             ((s, it), Ok stepped) \<Rightarrow> iter_next crc (s, if stepped then it else it\<lparr>it_done := True\<rparr>)
           | ((s, it), Err e) \<Rightarrow> Some ((s, it\<lparr>it_done := True\<rparr>), Err e)
           | ((s, it), Panic) \<Rightarrow> Some ((s, it), Panic))"
      using st v(1) less.prems(3) by (simp add: iter_next.simps [of crc "(s, it)"] Let_def if_not_P [OF False])
    show ?thesis
    proof (rule iter_advance_stands [OF sit])
      fix s2 assume a: "iter_advance crc (s1, ?it) = Some ((s2, ?it\<lparr>it_path := []\<rparr>), Ok False)" "reads_only crc s1 s2" "entries_after z = []"
      let ?d = "it\<lparr>it_idx := it_idx it + length vs, it_buf := vs, it_path := [], it_done := True\<rparr>"
      have n2: "iter_next crc (s, it) = iter_next crc (s2, ?d)" unfolding n a(1) by simp
      have r: "remaining crc s2 t ?d (drop (it_idx it) (map kv es) @ entries_after z)"
        using views_hold_reads_only [OF a(2) full] reads_only_idle [OF a(2)] st(2) by (simp add: remaining_def a(3))
      show ?thesis
      proof (cases vs)
        case Nil
        then have "drop (it_idx it) (map kv es) = []" using full by (simp add: views_hold_def)
        moreover have "iter_next crc (s2, ?d) = Some ((s2, ?d), Ok None)" using st(2) Nil by (intro iter_next_done) simp_all
        ultimately have "yields crc s2 t (iter_next crc (s, it)) (drop (it_idx it) (map kv es) @ entries_after z)"
          using n2 r a(3) reads_only_refl [OF reads_only_idle [OF a(2)]] by (simp add: yields_def)
        then show ?thesis using yields_trans reads_only_trans [OF v(2) a(2)] by blast
      next
        case (Cons x xs)
        then have "yields crc s2 t (iter_next crc (s2, ?d)) (drop (it_idx it) (map kv es) @ entries_after z)"
          by (intro iter_next_buffered [OF r]) simp
        then show ?thesis using n2 yields_trans reads_only_trans [OF v(2) a(2)] by simp
      qed
    next
      fix u s2 z' m fs n' b i
      assume a: "iter_advance crc (s1, ?it) = Some ((u, ?it\<lparr>it_path := page_path z', it_page := m, it_idx := 0,
            it_leaf_entries := n', it_leaf_markers := b, it_pin := Some i, it_leaves := it_leaves ?it + 1\<rparr>), Ok True)"
          "parked crc s1 u i s2" "entries_after z = map kv fs @ entries_after z'" "leaves_after z = Suc (leaves_after z')" "spine t z' (TLeaf m fs)"
      let ?p = "?it\<lparr>it_path := page_path z', it_page := m, it_idx := 0,
            it_leaf_entries := n', it_leaf_markers := b, it_pin := Some i, it_leaves := it_leaves ?it + 1\<rparr>"
      let ?q = "?p\<lparr>it_pin := None\<rparr>"
      have r2: "reads_only crc s1 s2" using a(2) by (simp add: parked_def)
      have "drop_pin (u, ?p) = ((s2, ?q), Ok ())" by (rule drop_pin_parked [OF a(2)]) simp
      from iter_next_drop [OF this] have n2: "iter_next crc (s, it) = iter_next crc (s2, ?q)" unfolding n a(1) by simp
      have sq: "stands crc s2 t ?q z' m fs"
        using stands_reads_only [OF r2 st1] a(4,5) by (simp add: stands_def)
      have "yields crc s2 t (iter_next crc (s2, ?q)) (drop (it_idx it) (map kv es) @ entries_after z)"
      proof (cases vs)
        case Nil
        then have "drop (it_idx it) (map kv es) = []" using full by (simp add: views_hold_def)
        moreover have "yields crc s2 t (iter_next crc (s2, ?q)) (drop (it_idx ?q) (map kv fs) @ entries_after z')"
          using less.hyps [OF _ sq] a(4) Nil by simp
        ultimately show ?thesis by (simp add: a(3))
      next
        case (Cons x xs)
        have "remaining crc s2 t ?q (drop (it_idx it) (map kv es) @ entries_after z)"
          using views_hold_reads_only [OF r2 full] sq reads_only_idle [OF r2] st(3) unfolding remaining_def by (fastforce simp: a(3))
        then show ?thesis by (rule iter_next_buffered) (simp add: Cons)
      qed
      then show ?thesis using n2 yields_trans reads_only_trans [OF v(2) r2] by simp
    qed
  qed
qed

lemma iter_next_remaining:
  assumes "remaining crc s t it rest"
  shows "yields crc s t (iter_next crc (s, it)) rest"
proof (cases "it_buf it = []")
  case True
  show ?thesis
  proof (cases "it_done it")
    case True
    then have "rest = []" "iter_next crc (s, it) = Some ((s, it), Ok None)"
      using assms \<open>it_buf it = []\<close> by (auto simp: remaining_def views_hold_def iter_next.simps [of crc "(s, it)"])
    then show ?thesis using assms reads_only_refl by (auto simp: yields_def remaining_def)
  next
    case False
    then show ?thesis using assms \<open>it_buf it = []\<close> iter_next_stands by (auto simp: remaining_def views_hold_def)
  qed
qed (rule iter_next_buffered [OF assms])

section \<open>Whole scans\<close>

fun leaf_pages :: "tree \<Rightarrow> nat list" where
  "leaf_pages (TLeaf no es) = [no]"
| "leaf_pages (TNode no t0 kts) = leaf_pages t0 @ concat (map (\<lambda>(k, t). leaf_pages t) kts)"

lemma length_leaf_pages: "length (leaf_pages t) = leaf_count t"
proof (induction t)
  case (TNode no t0 kts)
  then have "map (\<lambda>x. length (leaf_pages (snd x))) kts = map (\<lambda>x. leaf_count (snd x)) kts" by (fastforce intro: map_cong)
  then have "sum_list (map (\<lambda>x. length (leaf_pages (snd x))) kts) = sum_list (map (\<lambda>x. leaf_count (snd x)) kts)" by (rule arg_cong)
  then show ?case using TNode.IH(1) by (simp add: length_concat comp_def split_def)
qed simp

lemma leaf_pages_stored: "tree_stored crc s tid t \<Longrightarrow> set (leaf_pages t) \<subseteq> {1..<next_page s}"
proof (induction t)
  case (TNode no t0 kts)
  then show ?case by fastforce
qed (auto simp: available_def)

lemma spine_leaves: "spine t z (TLeaf no es) \<Longrightarrow> Suc (leaves_after z) \<le> leaf_count t"
proof (induction t z "TLeaf no es" rule: spine.induct)
  case (2 t n i z)
  then have i: "i < length (children t)" "n = t" and c: "Suc (leaves_after z) \<le> leaf_count (children t ! i)" by simp_all
  have "children t = take i (children t) @ children t ! i # drop (Suc i) (children t)" using i by (simp add: id_take_nth_drop)
  then have "sum_list (map leaf_count (children t)) =
      sum_list (map leaf_count (take i (children t))) + leaf_count (children t ! i) + sum_list (map leaf_count (drop (Suc i) (children t)))"
    by (metis add.assoc list.simps(9) map_append sum_list.Cons sum_list_append)
  moreover have "leaf_count t = sum_list (map leaf_count (children t))" using i by (intro leaf_count_children) auto
  ultimately show ?case using c by (simp add: i(2))
qed auto

lemma leaves_fit:
  assumes "tree_stored crc s tid t" "distinct (leaf_pages t)" "spine t z (TLeaf no es)"
  shows "1 + leaves_after z \<le> next_page s"
proof -
  have "card (set (leaf_pages t)) \<le> card {1..<next_page s}" using leaf_pages_stored [OF assms(1)] by (intro card_mono) auto
  then have "leaf_count t \<le> next_page s" using distinct_card [OF assms(2)] by (simp add: length_leaf_pages)
  then show ?thesis using spine_leaves [OF assms(3)] by simp
qed

lemma entry_index_filter:
  assumes "sorted_wrt (<) (map fst es)"
  shows "drop (entry_index key es) es = filter (\<lambda>e. key \<le> fst e) es" "take (entry_index key es) es = filter (\<lambda>e. fst e < key) es"
proof -
  let ?i = "entry_index key es"
  have b: "\<forall>e \<in> set (take ?i es). fst e < key"
    using entry_index_iff [OF assms, where key = key] entry_index_le [of key es]
    by (auto simp: in_set_conv_nth) (metis fst_conv order_less_le_trans)
  have a: "\<forall>e \<in> set (drop ?i es). key \<le> fst e"
  proof
    fix e assume "e \<in> set (drop ?i es)"
    then obtain j where "j < length es - ?i" "e = es ! (?i + j)" by (auto simp: in_set_conv_nth)
    then show "key \<le> fst e" using entry_index_iff [OF assms, of "?i + j" key] by (simp add: not_less)
  qed
  have "filter P es = filter P (take ?i es) @ filter P (drop ?i es)" for P by (metis append_take_drop_id filter_append)
  then show "drop ?i es = filter (\<lambda>e. key \<le> fst e) es" "take ?i es = filter (\<lambda>e. fst e < key) es"
    using a b by (auto simp: filter_id_conv filter_empty_conv not_le not_less)
qed

lemma reaches_filter:
  assumes "reaches key t z no es" "tree_ordered t"
  shows "filter (\<lambda>e. key \<le> fst e) (tree_entries t) = drop (entry_index key es) (map kv es) @ entries_after z"
    "filter (\<lambda>e. fst e < key) (tree_entries t) = entries_before z @ take (entry_index key es) (map kv es)"
proof -
  have sp: "spine t z (TLeaf no es)" using assms(1) by (simp add: reaches_def)
  have so: "sorted_wrt (<) (map fst es)" using spine_ordered [OF sp assms(2)] by simp
  have "filter (\<lambda>e. key \<le> fst e) (entries_before z) = []" "filter (\<lambda>e. key \<le> fst e) (entries_after z) = entries_after z"
      "filter (\<lambda>e. fst e < key) (entries_before z) = entries_before z" "filter (\<lambda>e. fst e < key) (entries_after z) = []"
    using assms(1) by (auto simp: reaches_def filter_empty_conv filter_id_conv not_le not_less)
  then show "filter (\<lambda>e. key \<le> fst e) (tree_entries t) = drop (entry_index key es) (map kv es) @ entries_after z"
      "filter (\<lambda>e. fst e < key) (tree_entries t) = entries_before z @ take (entry_index key es) (map kv es)"
    using spine_entries [OF sp] entry_index_filter [of "map kv es" key] so by (simp_all add: entry_index_def)
qed

lemma btree_range_remaining:
  assumes "idle crc s" "tree_stored crc s (tree_id bt) t" "tree_ordered t" "distinct (leaf_pages t)" "root bt = page_of t"
  shows "\<exists>s' it. btree_range crc s bt from = Some (s', Ok it) \<and> reads_only crc s s' \<and>
    remaining crc s' t it (filter (\<lambda>e. from \<le> fst e) (tree_entries t))"
proof -
  obtain s' z no es where d: "descend_loop crc (tree_id bt) from (\<lambda>p. lower_bound p from) s (page_of t) [] =
        Some (s', Ok (no, entry_index from es, [] @ page_path z))" "reads_only crc s s'" "reaches from t z no es"
    using descend_loop_stored [OF assms(1-3) leaf_reader_position] by blast
  let ?it = "\<lparr>it_tree = tree_id bt, it_page = no, it_idx = entry_index from es, it_done = False, it_path = page_path z, it_buf = [],
       it_served = 0, it_leaves = 1, it_max_leaves = next_page s', it_pin = None, it_leaf_entries = 0,
       it_leaf_markers = True, it_seeks = 0\<rparr>"
  have r: "btree_range crc s bt from = Some (s', Ok ?it)" using d(1) by (simp add: btree_range_def descend_positioned_def assms(5))
  have st: "tree_stored crc s' (tree_id bt) t" by (rule tree_stored_reads_only [OF d(2) assms(2)])
  have sp: "spine t z (TLeaf no es)" using d(3) by (simp add: reaches_def)
  have "stands crc s' t ?it z no es"
    using reads_only_idle [OF d(2)] st assms(3) sp leaves_fit [OF st assms(4) sp] by (simp add: stands_def)
  then have "remaining crc s' t ?it (filter (\<lambda>e. from \<le> fst e) (tree_entries t))"
    using reads_only_idle [OF d(2)] entry_index_le [of "from" es] reaches_filter(1) [OF d(3) assms(3)]
    by (fastforce simp: remaining_def views_hold_def)
  then show ?thesis using r d(2) by blast
qed

lemma iter_collect_remaining:
  assumes "remaining crc s t it rest"
  shows "\<exists>s' it'. iter_collect crc (s, it) out = Some ((s', it'), Ok (out @ rest)) \<and> reads_only crc s s' \<and> remaining crc s' t it' []"
  using assms
proof (induction rest arbitrary: s it out)
  case Nil
  obtain s' it' where "iter_next crc (s, it) = Some ((s', it'), Ok None)" "reads_only crc s s'" "remaining crc s' t it' []"
    using iter_next_remaining [OF Nil] by (auto simp: yields_def)
  then show ?case by (simp add: iter_collect.simps [of crc "(s, it)"])
next
  case (Cons e rest)
  obtain s1 it1 where n: "iter_next crc (s, it) = Some ((s1, it1), Ok (Some e))" "reads_only crc s s1" "remaining crc s1 t it1 rest"
    using iter_next_remaining [OF Cons.prems] by (auto simp: yields_def)
  obtain s' it' where "iter_collect crc (s1, it1) (out @ [e]) = Some ((s', it'), Ok ((out @ [e]) @ rest))" "reads_only crc s1 s'"
      "remaining crc s' t it' []"
    using Cons.IH [OF n(3)] by blast
  then show ?case using n reads_only_trans [OF n(2)] by (auto simp: iter_collect.simps [of crc "(s, it)"])
qed

text \<open>
  C3: A range scan yields exactly its range. For a tree stored in an idle pool over a healthy device,
  with its keys in order and no leaf page shared, opening a range at \<open>from\<close> and taking items until the
  end returns, and returns the entries with a key at or above \<open>from\<close>, in key order, each once, whether
  a record was handed out singly or through the leaf buffer and whether its value is inline or
  spilled; empty leaves are passed over and the leaf counter never trips. Only reads happen.
\<close>

theorem range_scan_correct:
  assumes "idle crc s" "tree_stored crc s (tree_id bt) t" "tree_ordered t" "distinct (leaf_pages t)" "root bt = page_of t"
  shows "\<exists>s1 it s2 it'. btree_range crc s bt from = Some (s1, Ok it) \<and>
    iter_collect crc (s1, it) [] = Some ((s2, it'), Ok (filter (\<lambda>e. from \<le> fst e) (tree_entries t))) \<and>
    sorted_wrt (<) (map fst (tree_entries t)) \<and> reads_only crc s s2"
proof -
  obtain s1 it where r: "btree_range crc s bt from = Some (s1, Ok it)" "reads_only crc s s1"
      "remaining crc s1 t it (filter (\<lambda>e. from \<le> fst e) (tree_entries t))"
    using btree_range_remaining [OF assms] by blast
  obtain s2 it' where "iter_collect crc (s1, it) [] = Some ((s2, it'), Ok ([] @ filter (\<lambda>e. from \<le> fst e) (tree_entries t)))" "reads_only crc s1 s2"
    using iter_collect_remaining [OF r(3)] by blast
  then show ?thesis using r(1) reads_only_trans [OF r(2)] tree_entries_sorted [OF assms(3)] by auto
qed

theorem range_scan_correct_witness:
  "\<exists>s s1 it s2 it'. pool_new one_leaf_file 8192 0 1 False = Ok s \<and>
     btree_range crc32c_append s \<lparr>tree_id = 7, root = 3\<rparr> [2] = Some (s1, Ok it) \<and>
     iter_collect crc32c_append (s1, it) [] = Some ((s2, it'), Ok [([7], [9])])"
proof -
  obtain s where s: "pool_new one_leaf_file 8192 0 1 False = Ok s" using one_leaf_pool by blast
  show ?thesis
    using s range_scan_correct [of crc32c_append s "\<lparr>tree_id = 7, root = 3\<rparr>" "TLeaf 3 [([7], [9], [])]" "[2]"] one_leaf_stored [OF s] by (simp add: kv_def) blast
qed

end
