(* ===== verification/Page_Edit.thy ===== *)
theory Page_Edit
  imports Page_Image
begin

text \<open>
  Page images under the edits of the B-tree (core/kernel/src/btree.rs through \<open>PageMut\<close> of page.rs):
  inserting, removing and compacting records, building a page from records, giving a copy another
  number and pointing an interior record at another child. Each edit ends in \<open>finalise\<close> and leaves
  a page that opens under its number, with its header as it was.
\<close>

section \<open>Well-formed pages by their header\<close>

definition page_is :: "nat \<Rightarrow> page_kind \<Rightarrow> u16 \<Rightarrow> u32 \<Rightarrow> bytes \<Rightarrow> bool" where
  "page_is no kind tid nxt b \<longleftrightarrow>
     page_wf b \<and> page_header b kind tid (of_nat no) \<and> format_version b = FORMAT_VERSION \<and> page_next_leaf b = nxt"

lemma page_is_ok:
  assumes "page_is no kind tid nxt b"
  shows "page_ok crc no b" "page_kind_of b = Ok kind" "page_tree_id b = tid" "page_next_leaf b = nxt" "page_wf b"
proof -
  have b: "page_wf b" "page_header b kind tid (of_nat no)" "format_version b = FORMAT_VERSION" using assms by (simp_all add: page_is_def)
  show "page_ok crc no b" unfolding page_ok_def open_resident_def by (rule open_inner_accepts [OF b]) simp
  show "page_kind_of b = Ok kind" "page_tree_id b = tid" "page_next_leaf b = nxt" "page_wf b"
    using b assms by (simp_all add: page_header_def page_kind_of_def page_tree_id_def page_is_def)
qed

lemma page_ok_is:
  assumes "page_ok crc no b" "page_wf b" "page_kind_of b = Ok kind"
  shows "page_is no kind (page_tree_id b) (page_next_leaf b) b"
proof -
  note o = open_inner_Ok [OF assms(1) [unfolded page_ok_def open_resident_def]]
  have "rd_u32 b 0 = PAGE_MAGIC" "rd_u16 b 4 = PAGE_VERSION"
    using assms(1) by (auto simp: page_ok_def open_resident_def open_inner_def Let_def split: if_splits)
  moreover have "rd_u16 b 6 = page_kind_u16 kind"
    using assms(3) by (auto simp: page_kind_of_def page_kind_from_u16_def split: option.splits if_splits)
  ultimately show ?thesis using assms(2) o(3,9) by (simp add: page_is_def page_header_def page_tree_id_def)
qed

text \<open>The header survives what leaves bytes 0 to 9, 12 to 15 and 18 to 23 alone.\<close>

lemma page_is_cong:
  assumes "page_is no kind tid nxt b" "page_wf c"
    and "\<And>j k. k \<le> 10 \<or> 12 \<le> j \<and> k \<le> 16 \<or> 18 \<le> j \<and> k \<le> 24 \<Longrightarrow> slice c j k = slice b j k"
  shows "page_is no kind tid nxt c"
proof -
  have "page_header b kind tid (of_nat no)" using assms(1) by (simp add: page_is_def)
  then have "page_header c kind tid (of_nat no)" by (rule page_header_cong) (use assms(3) in blast)
  moreover have "slice c 18 20 = slice b 18 20" "slice c 20 24 = slice b 20 24" using assms(3) [of 20 18] assms(3) [of 24 20] by simp_all
  then have "format_version c = format_version b" "page_next_leaf c = page_next_leaf b"
    by (simp_all add: format_version_def page_next_leaf_def rd_u16_def rd_u32_def FORMAT_AT_def)
  ultimately show ?thesis using assms(1,2) by (simp add: page_is_def)
qed

text \<open>Records that do not share bytes: an interior record may be rewritten in place.\<close>

definition slots_apart :: "bytes \<Rightarrow> bool" where
  "slots_apart b \<longleftrightarrow>
     (\<forall>i < nentries b. \<forall>j < nentries b. i \<noteq> j \<longrightarrow>
        slot_off b i + slot_len b i \<le> slot_off b j \<or> slot_off b j + slot_len b j \<le> slot_off b i)"

lemma slots_apart_cong:
  assumes "nentries c = nentries b" "\<And>i. i < nentries b \<Longrightarrow> slot_off c i = slot_off b i \<and> slot_len c i = slot_len b i"
  shows "slots_apart c \<longleftrightarrow> slots_apart b"
  using assms by (auto simp: slots_apart_def)

lemma dir_cong:
  assumes "\<And>j k. k \<le> 12 \<or> 32 \<le> j \<Longrightarrow> slice c j k = slice b j k"
  shows "nentries c = nentries b" "slot_off c i = slot_off b i" "slot_len c i = slot_len b i"
  by (simp_all add: nentries_def slot_off_def slot_len_def rd_u16_def layout_defs assms)

text \<open>What sealing does not rewrite decides all of it.\<close>

lemma body_wf:
  assumes "page_ok crc no b" "page_ok crc no c" "page_body b = page_body c" "page_wf b"
  shows "page_wf c" "slots_apart b \<longleftrightarrow> slots_apart c" "free_space b = free_space c" "page_tree_id b = page_tree_id c"
proof -
  note lb = page_ok_length [OF assms(1)] and lc = page_ok_length [OF assms(2)]
  note sl = body_slices [OF lb lc assms(3)]
  have f: "nentries b = nentries c" "free_ptr b = free_ptr c" "page_tree_id b = page_tree_id c"
    by (simp_all add: nentries_def free_ptr_def page_tree_id_def rd_u16_def sl(1))
  note w = page_wf_bounds [OF assms(4)]
  have d: "slot_off b i = slot_off c i \<and> slot_len b i = slot_len c i" if "i < nentries b" for i
  proof -
    have "40 + i * 4 + 4 \<le> 4096" using that w(2,3) by simp
    then show ?thesis by (simp add: slot_off_def slot_len_def rd_u16_def layout_defs sl(2) PAGE_SIZE_def)
  qed
  show "slots_apart b \<longleftrightarrow> slots_apart c" using f(1) d by (auto simp: slots_apart_def)
  show "free_space b = free_space c" "page_tree_id b = page_tree_id c" using f by (simp_all add: free_space_def)
  have s: "page_slots c = page_slots b" using body_slots(1) [OF assms(1-3)] by simp
  show "page_wf c" using w d lc by (intro page_wfI) (auto simp: f [symmetric] s PAGE_SIZE_def)
qed

section \<open>Edits\<close>

lemma finalise_is:
  assumes "page_is no kind tid nxt b"
  shows "page_is no kind tid nxt (finalise b 0)" "page_slots (finalise b 0) = page_slots b" "free_space (finalise b 0) = free_space b"
    "slots_apart (finalise b 0) \<longleftrightarrow> slots_apart b"
proof -
  have l: "length b = 4096" "page_wf b" using assms page_wf_bounds(1) by (simp_all add: page_is_def)
  note f = finalise_keeps [OF l(1), where g = 0]
  have keep: "slice (finalise b 0) j k = slice b j k" if "k \<le> 20 \<or> 32 \<le> j" for j k using f(1) that by auto
  note w = page_wf_header_cong [OF l(2) f(2) keep]
  show "page_is no kind tid nxt (finalise b 0)" using f(1) by (intro page_is_cong [OF assms w(1)]) auto
  show "page_slots (finalise b 0) = page_slots b" "free_space (finalise b 0) = free_space b" using w by simp_all
  have "slice (finalise b 0) j k = slice b j k" if "k \<le> 12 \<or> 32 \<le> j" for j k using keep that by auto
  then show "slots_apart (finalise b 0) \<longleftrightarrow> slots_apart b" using dir_cong [of "finalise b 0" b] by (intro slots_apart_cong) auto
qed

lemma insert_slot_is:
  assumes "page_is no kind tid nxt b" "at \<le> nentries b" "length rec + 4 \<le> free_space b"
  obtains c where "insert_slot b at rec = Ok c" "page_is no kind tid nxt c" "page_slots c = take at (page_slots b) @ rec # drop at (page_slots b)"
    "slots_apart b \<Longrightarrow> slots_apart c" "free_space c = free_space b - (length rec + 4)"
proof -
  have wf: "page_wf b" using assms(1) by (simp add: page_is_def)
  have can: "can_insert b at rec" using wf assms(2,3) by (simp add: can_insert_def)
  let ?c = "inserted b at rec"
  note h = inserted_header [OF can] and b = can_insert_bounds [OF can] and w = page_wf_bounds [OF wf]
  have e: "insert_slot b at rec = Ok ?c" using assms(2,3) by (simp add: insert_slot_eq [OF wf])
  have hd: "page_is no kind tid nxt ?c" using h(4-6) by (intro page_is_cong [OF assms(1) page_wf_inserted [OF can]]) auto
  have "slots_apart ?c" if ap: "slots_apart b"
    unfolding slots_apart_def
  proof (intro allI impI)
    fix i j assume ij: "i < nentries ?c" "j < nentries ?c" "i \<noteq> j"
    then have le: "i \<le> nentries b" "j \<le> nentries b" using h(2) by simp_all
    note fi = inserted_slot_fields [OF can le(1)] and fj = inserted_slot_fields [OF can le(2)]
    have np: "free_ptr b - length rec + length rec = free_ptr b" using b(4) by simp
    consider "i = at" | "j = at" | "i \<noteq> at" "j \<noteq> at" by blast
    then show "slot_off ?c i + slot_len ?c i \<le> slot_off ?c j \<or> slot_off ?c j + slot_len ?c j \<le> slot_off ?c i"
    proof cases
      case 1
      then show ?thesis using fi fj np ij le w(4) [of j] w(4) [of "j - 1"] by (auto split: if_splits)
    next
      case 2
      then show ?thesis using fi fj np ij le w(4) [of i] w(4) [of "i - 1"] by (auto split: if_splits)
    next
      case 3
      let ?f = "\<lambda>i. if i < at then i else i - 1"
      have "?f i < nentries b" "?f j < nentries b" "?f i \<noteq> ?f j" using 3 ij le b(2) by auto
      then have "slot_off b (?f i) + slot_len b (?f i) \<le> slot_off b (?f j) \<or> slot_off b (?f j) + slot_len b (?f j) \<le> slot_off b (?f i)"
        using ap unfolding slots_apart_def by blast
      then show ?thesis using fi fj 3 by (auto split: if_splits)
    qed
  qed
  then show thesis using that [OF e hd page_slots_inserted [OF can]] free_space_inserted [OF can] by blast
qed

lemma remove_slot_is:
  assumes "page_is no kind tid nxt b" "at < nentries b"
  obtains c where "remove_slot b at = Ok c" "page_is no kind tid nxt c" "page_slots c = take at (page_slots b) @ drop (Suc at) (page_slots b)"
    "slots_apart b \<Longrightarrow> slots_apart c"
proof -
  have wf: "page_wf b" using assms(1) by (simp add: page_is_def)
  note h = page_wf_bounds(1-3) [OF wf]
  let ?m = "put_at b (40 + at * 4) (slice b (40 + Suc at * 4) (40 + nentries b * 4))"
  define c where "c = put_at ?m 10 (to_le (of_nat (nentries b - 1) :: u16))"
  have e: "remove_slot b at = Ok c" using assms(2) by (simp add: remove_slot_eq [OF wf] c_def)
  note f = remove_slot_fields [OF wf e]
  have "slice c j k = slice b j k" if "k \<le> 10 \<or> 12 \<le> j \<and> k \<le> 16 \<or> 18 \<le> j \<and> k \<le> 24" for j k
    using that h assms(2) by (auto simp: c_def slice_put_at_other)
  then have hd: "page_is no kind tid nxt c" by (intro page_is_cong [OF assms(1) page_wf_removed [OF wf e]])
  have "slots_apart c" if ap: "slots_apart b"
    unfolding slots_apart_def
  proof (intro allI impI)
    fix i j assume ij: "i < nentries c" "j < nentries c" "i \<noteq> j"
    let ?f = "\<lambda>i. if i < at then i else Suc i"
    have "?f i < nentries b" "?f j < nentries b" "?f i \<noteq> ?f j" using ij f(1) by (auto simp: f(3))
    then have "slot_off b (?f i) + slot_len b (?f i) \<le> slot_off b (?f j) \<or> slot_off b (?f j) + slot_len b (?f j) \<le> slot_off b (?f i)"
      using ap unfolding slots_apart_def by blast
    then show "slot_off c i + slot_len c i \<le> slot_off c j \<or> slot_off c j + slot_len c j \<le> slot_off c i"
      using ij f(6,7) [of i] f(6,7) [of j] by (simp add: f(3))
  qed
  then show thesis using that [OF e hd page_slots_removed [OF wf e]] by blast
qed

lemma compact_is:
  assumes "page_is no kind tid nxt b"
  obtains c where "compact b = Ok c" "page_is no kind tid nxt c" "page_slots c = page_slots b"
    "free_space c + sum_list (map (\<lambda>r. length r + 4) (page_slots b)) = 4056"
proof -
  have wf: "page_wf b" using assms by (simp add: page_is_def)
  obtain c where c: "compact b = Ok c" "page_wf c" "page_slots c = page_slots b"
      "\<forall>j k. k \<le> 16 \<or> 18 \<le> j \<and> k \<le> 40 \<longrightarrow> slice c j k = slice b j k"
    using compact_law [OF wf] by blast
  have "page_is no kind tid nxt c" using c(4) by (intro page_is_cong [OF assms c(2)]) auto
  moreover have "free_space c + sum_list (map (\<lambda>r. length r + 4) (page_slots b)) = 4056"
    using page.pack_ok [OF wf] c(1) by (auto simp: layout_defs)
  ultimately show thesis using that c by blast
qed

text \<open>A page built from records, and a root with one separator.\<close>

lemma push_records_is:
  assumes "page_is no kind tid nxt b" "slots_apart b" "sum_list (map (\<lambda>r. length r + 4) recs) \<le> free_space b"
  obtains c where "push_records nentries insert_slot b recs = Ok c" "page_is no kind tid nxt c" "slots_apart c"
    "page_slots c = page_slots b @ recs" "free_space c + sum_list (map (\<lambda>r. length r + 4) recs) = free_space b"
proof -
  have "\<exists>c. push_records nentries insert_slot b recs = Ok c \<and> page_is no kind tid nxt c \<and> slots_apart c \<and> page_slots c = page_slots b @ recs \<and>
      free_space c + sum_list (map (\<lambda>r. length r + 4) recs) = free_space b"
    using assms
  proof (induction recs arbitrary: b)
    case (Cons r rs)
    obtain c where c: "insert_slot b (nentries b) r = Ok c" "page_is no kind tid nxt c" "page_slots c = page_slots b @ [r]"
        "slots_apart c" "free_space c = free_space b - (length r + 4)"
      by (rule insert_slot_is [OF Cons.prems(1), of "nentries b" r]) (use Cons.prems in auto)
    then show ?case using Cons.IH [OF c(2,4)] Cons.prems(3) by fastforce
  qed simp
  then show thesis using that by blast
qed

lemma page_init_is:
  assumes "length b = 4096"
  obtains c where "page_init b kind tid (of_nat no) = Ok c" "page_is no kind tid 0 c" "page_slots c = []" "slots_apart c" "free_space c = 4056"
proof -
  obtain c where c: "page_init b kind tid (of_nat no) = Ok c" "page_wf c" "page_slots c = []" "page_header c kind tid (of_nat no)"
      "free_ptr c = 4096" "page_next_leaf c = 0"
    by (rule page_init_law [of b kind tid "of_nat no"]) (use assms in \<open>simp_all add: PAGE_SIZE_def\<close>)
  have n: "nentries c = 0" using arg_cong [OF c(3), of length] by simp
  have "page_is no kind tid 0 c" using c page_init_format [OF c(1)] by (simp add: page_is_def)
  then show thesis using that [OF c(1) _ c(3)] n c(5) by (simp add: slots_apart_def free_space_def layout_defs)
qed

lemma set_next_leaf_is:
  assumes "page_is no kind tid nxt b"
  shows "page_is no kind tid p (set_next_leaf b p)" "page_slots (set_next_leaf b p) = page_slots b"
    "free_space (set_next_leaf b p) = free_space b" "slots_apart (set_next_leaf b p) \<longleftrightarrow> slots_apart b"
proof -
  have l: "length b = 4096" "page_wf b" using assms page_wf_bounds(1) by (simp_all add: page_is_def)
  note s = set_next_leaf_keeps [OF l(1), where p = p]
  have keep: "slice (set_next_leaf b p) j k = slice b j k" if "k \<le> 20 \<or> 32 \<le> j" for j k using s(1) that by auto
  note w = page_wf_header_cong [OF l(2) s(3) keep]
  have "page_header b kind tid (of_nat no)" using assms by (simp add: page_is_def)
  then have "page_header (set_next_leaf b p) kind tid (of_nat no)" by (rule page_header_cong) (auto intro: keep)
  moreover have "format_version (set_next_leaf b p) = FORMAT_VERSION"
    using assms s(1) by (simp add: page_is_def format_version_def rd_u16_def FORMAT_AT_def)
  ultimately show "page_is no kind tid p (set_next_leaf b p)" using w(1) s(2) by (simp add: page_is_def)
  show "page_slots (set_next_leaf b p) = page_slots b" "free_space (set_next_leaf b p) = free_space b" using w by simp_all
  have "slice (set_next_leaf b p) j k = slice b j k" if "k \<le> 12 \<or> 32 \<le> j" for j k using keep that by auto
  then show "slots_apart (set_next_leaf b p) \<longleftrightarrow> slots_apart b"
    using dir_cong [of "set_next_leaf b p" b] by (intro slots_apart_cong) auto
qed

lemma build_page_is:
  assumes "sum_list (map (\<lambda>r. length r + 4) recs) \<le> 4056"
  obtains c where "build_page kind tid (of_nat no) recs nxt = Ok c" "page_is no kind tid nxt c" "page_slots c = recs" "slots_apart c"
    "free_space c + sum_list (map (\<lambda>r. length r + 4) recs) = 4056"
proof -
  obtain b where b: "page_init (replicate PAGE_SIZE 0) kind tid (of_nat no) = Ok b" "page_is no kind tid 0 b" "page_slots b = []"
      "slots_apart b" "free_space b = 4056"
    by (rule page_init_is [of "replicate PAGE_SIZE 0"]) (simp_all only: PAGE_SIZE_def length_replicate)
  obtain c where c: "push_records nentries insert_slot b recs = Ok c" "page_is no kind tid 0 c" "slots_apart c" "page_slots c = recs"
      "free_space c + sum_list (map (\<lambda>r. length r + 4) recs) = 4056"
    by (rule push_records_is [OF b(2,4), of recs]) (use assms b in simp_all)
  note s = set_next_leaf_is [OF c(2), of nxt]
  note f = finalise_is [OF s(1)]
  have "build_page kind tid (of_nat no) recs nxt = Ok (finalise (set_next_leaf c nxt) 0)"
    using b(1) c(1) by (simp add: build_page_def build_page_into_def)
  then show thesis using that f s c by simp
qed

text \<open>A copy under another number.\<close>

lemma renumbered_is:
  fixes m :: nat
  assumes "page_is no kind tid nxt b"
  defines "c \<equiv> put_at b 12 (to_le (of_nat m :: u32))"
  shows "page_is m kind tid nxt c" "page_slots c = page_slots b" "slots_apart c \<longleftrightarrow> slots_apart b" "free_space c = free_space b"
proof -
  have l: "length b = 4096" "page_wf b" using assms(1) page_wf_bounds(1) by (simp_all add: page_is_def)
  have keep: "slice c j k = slice b j k" if "k \<le> 12 \<or> 16 \<le> j" for j k using that l(1) by (auto simp: c_def slice_put_at_other)
  have f: "nentries c = nentries b" "free_ptr c = free_ptr b" by (simp_all add: nentries_def free_ptr_def rd_u16_def keep)
  have d: "slot_off c i = slot_off b i" "slot_len c i = slot_len b i" for i by (simp_all add: slot_off_def slot_len_def rd_u16_def layout_defs keep)
  note w = page_wf_bounds [OF l(2)]
  have "16 \<le> slot_off b i" if "i < nentries b" for i using w(2) w(4) [OF that] by simp
  then show s: "page_slots c = page_slots b" by (intro nth_equalityI) (simp_all add: f nth_page_slots d keep)
  have lc: "length c = 4096" using l(1) by (simp add: c_def)
  have wf: "page_wf c" using w by (intro page_wfI) (simp_all add: f d s lc)
  have "page_header c kind tid (of_nat m)"
    using assms(1) l(1) by (simp add: page_is_def page_header_def c_def rd_simps)
  moreover have "format_version c = format_version b" "page_next_leaf c = page_next_leaf b"
    by (simp_all add: format_version_def page_next_leaf_def rd_u16_def rd_u32_def FORMAT_AT_def keep)
  ultimately show "page_is m kind tid nxt c" using assms(1) wf by (simp add: page_is_def)
  show "slots_apart c \<longleftrightarrow> slots_apart b" by (intro slots_apart_cong) (simp_all add: f d)
  show "free_space c = free_space b" by (simp add: free_space_def f)
qed

text \<open>The trailing bytes of one record rewritten in place.\<close>

lemma patched_slot_is:
  fixes v :: bytes
  assumes "page_is no kind tid nxt b" "slots_apart b" "at < nentries b" "length v \<le> slot_len b at"
  defines "c \<equiv> put_at b (slot_off b at + slot_len b at - length v) v"
  shows "page_is no kind tid nxt c" "slots_apart c" "free_space c = free_space b"
    "page_slots c = (page_slots b)[at := take (length (page_slots b ! at) - length v) (page_slots b ! at) @ v]"
proof -
  have wf: "page_wf b" using assms(1) by (simp add: page_is_def)
  note w = page_wf_bounds [OF wf]
  let ?o = "slot_off b at" and ?n = "slot_len b at" and ?k = "length v"
  let ?p = "?o + ?n - ?k"
  have p: "?o \<le> ?p" "?p + ?k = ?o + ?n" "?o + ?n \<le> 4096" "40 + nentries b * 4 \<le> ?o"
    using assms(3,4) w(2) w(4,5) [OF assms(3)] by auto
  have lc: "length c = 4096" using w(1) p by (simp add: c_def)
  have keep: "slice c j k = slice b j k" if "k \<le> ?p \<or> ?o + ?n \<le> j" for j k
    using that w(1) p by (auto simp: c_def slice_put_at_other)
  have hd: "slice c j k = slice b j k" if "k \<le> 40 + nentries b * 4" for j k using keep that p by auto
  have f: "nentries c = nentries b" "free_ptr c = free_ptr b" by (simp_all add: nentries_def free_ptr_def rd_u16_def hd)
  have d: "slot_off c i = slot_off b i" "slot_len c i = slot_len b i" if "i < nentries b" for i
    using that by (simp_all add: slot_off_def slot_len_def rd_u16_def layout_defs hd)
  have sl: "page_slots c ! i = (page_slots b)[at := take (length (page_slots b ! at) - ?k) (page_slots b ! at) @ v] ! i" if i: "i < nentries b" for i
  proof (cases "i = at")
    case True
    have "slice c ?o (?o + ?n) = slice c ?o ?p @ slice c ?p (?o + ?n)" using p slice_split [of ?o ?p "?o + ?n" c] lc by simp
    also have "slice c ?p (?o + ?n) = v" using w(1) p unfolding c_def by (metis p(2) slice_put_at_same)
    also have "slice c ?o ?p = slice b ?o ?p" by (rule keep) simp
    also have "\<dots> = take (?n - ?k) (slice b ?o (?o + ?n))" using p assms(4) by (simp add: slice_def min_def)
    finally show ?thesis using True i f d p w(1) by (simp add: nth_page_slots)
  next
    case False
    have "slot_off b i + slot_len b i \<le> ?o \<or> ?o + ?n \<le> slot_off b i" using assms(2,3) i False unfolding slots_apart_def by blast
    then have "slice c (slot_off b i) (slot_off b i + slot_len b i) = slice b (slot_off b i) (slot_off b i + slot_len b i)"
      using keep p by auto
    then show ?thesis using False i f d by (simp add: nth_page_slots)
  qed
  show s: "page_slots c = (page_slots b)[at := take (length (page_slots b ! at) - ?k) (page_slots b ! at) @ v]"
    by (rule nth_equalityI) (use sl f in simp_all)
  have ln: "length (page_slots b ! at) = ?n" using assms(3) w(1) w(5) [OF assms(3)] by (simp add: nth_page_slots)
  have "map length (page_slots c) = map length (page_slots b)"
    unfolding s using assms(3,4) ln by (simp add: map_update list_update_same_conv)
  then have wc: "page_wf c" using w lc d by (intro page_wfI) (auto simp: f)
  show "page_is no kind tid nxt c" by (intro page_is_cong [OF assms(1) wc]) (auto intro: hd)
  show "slots_apart c" using assms(2) d by (subst slots_apart_cong [of c b]) (simp_all add: f)
  show "free_space c = free_space b" by (simp add: free_space_def f)
qed

end
