(* ===== verification/Tag_Hints.thy ===== *)
theory Tag_Hints
  imports Tree_Record
begin

text \<open>
  The per-keyspace append hints of a B-tree handle (core/kernel/src/btree.rs, \<open>Fence\<close>, \<open>LeafFences\<close>,
  \<open>TagHint\<close>, \<open>TagHints\<close>): a fixed cache of leaves with the separators on either side of each, from
  which an insert may find its leaf without a descent. Keys compare as byte strings; the \<open>u64\<close>
  counters are held as \<open>nat\<close>. A slot whose tree is 0 is free.
\<close>

section \<open>Fences\<close>

definition TAG_HINTS :: nat where "TAG_HINTS = 16"
definition FENCE_MAX :: nat where "FENCE_MAX = 48"

record fence =
  fence_present :: bool
  fence_len :: byte
  fence_bytes :: bytes

definition fence_absent :: fence where
  "fence_absent = \<lparr>fence_present = False, fence_len = 0, fence_bytes = replicate FENCE_MAX 0\<rparr>"

definition fence_of :: "bytes \<Rightarrow> fence option" where
  "fence_of key =
     (if length key > FENCE_MAX then None
      else Some \<lparr>fence_present = True, fence_len = of_nat (length key), fence_bytes = put_at (replicate FENCE_MAX 0) 0 key\<rparr>)"

definition fence_get :: "fence \<Rightarrow> bytes option" where
  "fence_get f = (if fence_present f then Some (slice (fence_bytes f) 0 (unat (fence_len f))) else None)"

record leaf_fences =
  lf_lower :: fence
  lf_upper :: fence
  armable :: bool

definition fences_none :: leaf_fences where
  "fences_none = \<lparr>lf_lower = fence_absent, lf_upper = fence_absent, armable = True\<rparr>"

definition narrow_lower :: "leaf_fences \<Rightarrow> bytes \<Rightarrow> leaf_fences" where
  "narrow_lower l key = (case fence_of key of Some f \<Rightarrow> l\<lparr>lf_lower := f\<rparr> | None \<Rightarrow> l\<lparr>armable := False\<rparr>)"

definition narrow_upper :: "leaf_fences \<Rightarrow> bytes \<Rightarrow> leaf_fences" where
  "narrow_upper l key = (case fence_of key of Some f \<Rightarrow> l\<lparr>lf_upper := f\<rparr> | None \<Rightarrow> l\<lparr>armable := False\<rparr>)"

definition fences_below :: "leaf_fences \<Rightarrow> bytes \<Rightarrow> leaf_fences" where
  "fences_below l sep = narrow_upper l sep"

definition fences_above :: "leaf_fences \<Rightarrow> bytes \<Rightarrow> leaf_fences" where
  "fences_above l sep = narrow_lower l sep"

text \<open>\<open>Option::is_none_or\<close>\<close>

fun is_none_or :: "('a \<Rightarrow> bool) \<Rightarrow> 'a option \<Rightarrow> bool" where
  "is_none_or P None = True"
| "is_none_or P (Some x) = P x"

section \<open>Hints\<close>

record tag_hint =
  hint_tree :: u16
  hint_tag :: byte
  hint_leaf :: nat
  hint_next :: u32
  hint_lower :: fence
  hint_upper :: fence
  hint_used :: nat

definition hint_free :: tag_hint where
  "hint_free = \<lparr>hint_tree = 0, hint_tag = 0, hint_leaf = 0, hint_next = 0, hint_lower = fence_absent,
     hint_upper = fence_absent, hint_used = 0\<rparr>"

definition claims :: "tag_hint \<Rightarrow> u16 \<Rightarrow> byte \<Rightarrow> bytes \<Rightarrow> bool" where
  "claims h tree tag key \<longleftrightarrow>
     hint_tree h = tree \<and> hint_tag h = tag \<and>
     is_none_or (\<lambda>l. l \<le> key) (fence_get (hint_lower h)) \<and> is_none_or (\<lambda>u. key < u) (fence_get (hint_upper h))"

record tag_hints =
  hint_slots :: "tag_hint list"
  hint_clock :: nat
  hint_hits :: nat
  hint_attempts :: nat
  hint_misses :: nat
  hints_enabled :: bool

definition hints_default :: tag_hints where
  "hints_default = \<lparr>hint_slots = replicate TAG_HINTS hint_free, hint_clock = 0, hint_hits = 0, hint_attempts = 0,
     hint_misses = 0, hints_enabled = True\<rparr>"

text \<open>\<open>Iterator::position\<close>\<close>

fun position :: "('a \<Rightarrow> bool) \<Rightarrow> 'a list \<Rightarrow> nat option" where
  "position P [] = None"
| "position P (x # xs) = (if P x then Some 0 else map_option Suc (position P xs))"

definition hints_find :: "tag_hints \<Rightarrow> u16 \<Rightarrow> bytes \<Rightarrow> tag_hints \<times> (nat \<times> u32) option" where
  "hints_find t tree key =
     (if \<not> hints_enabled t then (t, None)
      else case get_at key 0 of
        None \<Rightarrow> (t, None)
      | Some tag \<Rightarrow>
          (case position (\<lambda>h. claims h tree tag key) (hint_slots t) of
             None \<Rightarrow> (t, None)
           | Some i \<Rightarrow>
               let h = hint_slots t ! i; now = hint_clock t + 1 in
               (t\<lparr>hint_clock := now, hint_slots := (hint_slots t)[i := h\<lparr>hint_used := now\<rparr>]\<rparr>, Some (hint_leaf h, hint_next h))))"

definition hint_overlaps :: "u16 \<Rightarrow> byte \<Rightarrow> nat \<Rightarrow> leaf_fences \<Rightarrow> tag_hint \<Rightarrow> bool" where
  "hint_overlaps tree tag leaf fences h \<longleftrightarrow>
     hint_tree h = tree \<and>
     (hint_leaf h = leaf \<or>
      hint_tag h = tag \<and>
      is_none_or (\<lambda>u. is_none_or (\<lambda>l. l < u) (fence_get (hint_lower h))) (fence_get (lf_upper fences)) \<and>
      is_none_or (\<lambda>u. is_none_or (\<lambda>l. l < u) (fence_get (lf_lower fences))) (fence_get (hint_upper h)))"

text \<open>The least recently used slot; \<open>used < oldest\<close> is strict, so the first of several.\<close>

fun oldest_slot :: "nat \<Rightarrow> nat \<Rightarrow> nat \<Rightarrow> tag_hint list \<Rightarrow> nat" where
  "oldest_slot i victim oldest [] = victim"
| "oldest_slot i victim oldest (h # hs) =
     (if hint_used h < oldest then oldest_slot (i + 1) i (hint_used h) hs else oldest_slot (i + 1) victim oldest hs)"

definition hints_arm :: "tag_hints \<Rightarrow> u16 \<Rightarrow> bytes \<Rightarrow> nat \<Rightarrow> u32 \<Rightarrow> leaf_fences \<Rightarrow> tag_hints" where
  "hints_arm t tree key leaf nxt fences =
     (if \<not> hints_enabled t then t
      else case get_at key 0 of
        None \<Rightarrow> t
      | Some tag \<Rightarrow>
          if \<not> armable fences then t
          else let hit = position (hint_overlaps tree tag leaf fences) (hint_slots t);
                   hs = map (\<lambda>h. if hint_overlaps tree tag leaf fences h then hint_free else h) (hint_slots t);
                   i = (case hit of Some i \<Rightarrow> i
                        | None \<Rightarrow> (case position (\<lambda>h. hint_tree h = 0) hs of Some i \<Rightarrow> i | None \<Rightarrow> oldest_slot 0 0 u64_max hs));
                   now = hint_clock t + 1
               in t\<lparr>hint_clock := now,
                    hint_slots := hs[i := \<lparr>hint_tree = tree, hint_tag = tag, hint_leaf = leaf, hint_next = nxt,
                      hint_lower = lf_lower fences, hint_upper = lf_upper fences, hint_used = now\<rparr>]\<rparr>)"

definition hints_forget_leaf :: "tag_hints \<Rightarrow> u16 \<Rightarrow> nat \<Rightarrow> tag_hints" where
  "hints_forget_leaf t tree leaf =
     t\<lparr>hint_slots := map (\<lambda>h. if hint_tree h = tree \<and> hint_leaf h = leaf then hint_free else h) (hint_slots t)\<rparr>"

definition hints_clear :: "tag_hints \<Rightarrow> tag_hints" where
  "hints_clear t = t\<lparr>hint_slots := map (\<lambda>_. hint_free) (hint_slots t)\<rparr>"

definition hints_clear_tree :: "tag_hints \<Rightarrow> u16 \<Rightarrow> tag_hints" where
  "hints_clear_tree t tree =
     t\<lparr>hint_slots := map (\<lambda>h. if hint_tree h = tree then hint_free else h) (hint_slots t)\<rparr>"

definition hints_set_enabled :: "tag_hints \<Rightarrow> bool \<Rightarrow> tag_hints" where
  "hints_set_enabled t on = (let t = t\<lparr>hints_enabled := on\<rparr> in if \<not> on then hints_clear t else t)"

definition hints_disabled :: tag_hints where
  "hints_disabled = hints_set_enabled hints_default False"

section \<open>Fences hold their key\<close>

lemma fence_of_get:
  assumes "fence_of key = Some f"
  shows "fence_get f = Some key"
proof -
  have l: "length key \<le> 48" and f: "f = \<lparr>fence_present = True, fence_len = of_nat (length key), fence_bytes = put_at (replicate 48 0) 0 key\<rparr>"
    using assms by (auto simp: fence_of_def FENCE_MAX_def split: if_splits)
  have "unat (of_nat (length key) :: byte) = length key" using l by (simp add: unat_of_nat)
  then show ?thesis using l slice_put_at_same [where i = 0 and v = key and b = "replicate 48 0"] by (simp add: f fence_get_def)
qed

lemma fence_absent_get [simp]: "fence_get fence_absent = None"
  by (simp add: fence_get_def fence_absent_def)

lemma narrow_fences:
  "armable (narrow_lower l key) \<Longrightarrow> armable l \<and> fence_get (lf_lower (narrow_lower l key)) = Some key \<and> lf_upper (narrow_lower l key) = lf_upper l"
  "armable (narrow_upper l key) \<Longrightarrow> armable l \<and> fence_get (lf_upper (narrow_upper l key)) = Some key \<and> lf_lower (narrow_upper l key) = lf_lower l"
  by (auto simp: narrow_lower_def narrow_upper_def fence_of_get split: option.splits)

section \<open>Searching a list\<close>

lemma position_Some:
  "position P xs = Some i \<Longrightarrow> i < length xs \<and> P (xs ! i) \<and> (\<forall>j < i. \<not> P (xs ! j))"
proof (induction xs arbitrary: i)
  case (Cons x xs)
  then show ?case by (cases i) (auto simp: less_Suc_eq_0_disj split: if_splits)
qed simp

lemma position_None: "position P xs = None \<longleftrightarrow> (\<forall>x \<in> set xs. \<not> P x)"
  by (induction xs) auto

lemma oldest_slot_bound: "oldest_slot i victim oldest hs < i + length hs \<or> oldest_slot i victim oldest hs = victim"
proof (induction hs arbitrary: i victim oldest)
  case (Cons h hs)
  show ?case using Cons.IH [of "i + 1" i "hint_used h"] Cons.IH [of "i + 1" victim oldest] by auto
qed simp

section \<open>No key has two leaves\<close>

text \<open>
  Two armed slots of a tree name different leaves and, under one tag, disjoint intervals: the cache
  never makes the leaf that is tried depend on the order of its slots.
\<close>

definition fences_of :: "tag_hint \<Rightarrow> leaf_fences" where
  "fences_of h = \<lparr>lf_lower = hint_lower h, lf_upper = hint_upper h, armable = True\<rparr>"

definition hints_compatible :: "tag_hint \<Rightarrow> tag_hint \<Rightarrow> bool" where
  "hints_compatible h k \<longleftrightarrow>
     hint_tree h = 0 \<or> hint_tree k = 0 \<or> \<not> hint_overlaps (hint_tree h) (hint_tag h) (hint_leaf h) (fences_of h) k"

definition hints_inv :: "tag_hints \<Rightarrow> bool" where
  "hints_inv t \<longleftrightarrow>
     length (hint_slots t) = TAG_HINTS \<and>
     (\<forall>i < TAG_HINTS. \<forall>j < TAG_HINTS. i \<noteq> j \<longrightarrow> hints_compatible (hint_slots t ! i) (hint_slots t ! j))"

lemma hints_compatible_sym: "hints_compatible h k \<longleftrightarrow> hints_compatible k h"
  by (auto simp: hints_compatible_def hint_overlaps_def fences_of_def)

lemma hints_compatible_free [simp]: "hints_compatible hint_free k" "hints_compatible k hint_free"
  by (simp_all add: hints_compatible_def hint_free_def)

lemma hints_compatible_used [simp]:
  "hints_compatible (h\<lparr>hint_used := n\<rparr>) k \<longleftrightarrow> hints_compatible h k" "hints_compatible k (h\<lparr>hint_used := n\<rparr>) \<longleftrightarrow> hints_compatible k h"
  by (simp_all add: hints_compatible_def hint_overlaps_def fences_of_def)

lemma claims_overlap:
  assumes "claims h tree tag key" "claims k tree tag key"
  shows "hint_overlaps tree (hint_tag h) (hint_leaf h) (fences_of h) k"
  using assms
  by (cases "fence_get (hint_lower h)"; cases "fence_get (hint_upper h)"; cases "fence_get (hint_lower k)"; cases "fence_get (hint_upper k)")
    (auto simp: claims_def hint_overlaps_def fences_of_def)

lemma hints_inv_default: "hints_inv hints_default"
  by (simp add: hints_inv_def hints_default_def)

text \<open>Freeing slots keeps the invariant.\<close>

lemma hints_inv_map:
  assumes "hints_inv t" "\<And>h. f h = h \<or> f h = hint_free" "hint_slots u = map f (hint_slots t)"
  shows "hints_inv u"
proof -
  have "hints_compatible (f h) (f k)" if "hints_compatible h k" for h k
    using that assms(2) [of h] assms(2) [of k] by auto
  then show ?thesis using assms(1) by (auto simp: hints_inv_def assms(3))
qed

lemma hints_inv_update:
  assumes "hints_inv t" "i < TAG_HINTS" "\<And>j. j < TAG_HINTS \<Longrightarrow> j \<noteq> i \<Longrightarrow> hints_compatible h (hint_slots t ! j)"
    and "hint_slots u = (hint_slots t)[i := h]"
  shows "hints_inv u"
  unfolding hints_inv_def assms(4)
proof (intro conjI allI impI)
  have l: "length (hint_slots t) = TAG_HINTS" using assms(1) by (simp add: hints_inv_def)
  then show "length ((hint_slots t)[i := h]) = TAG_HINTS" by simp
  fix a b assume "a < TAG_HINTS" "b < TAG_HINTS" "a \<noteq> b"
  then show "hints_compatible ((hint_slots t)[i := h] ! a) ((hint_slots t)[i := h] ! b)"
    using assms(1,2) assms(3) [of a] assms(3) [of b] l hints_compatible_sym
    by (cases "a = i"; cases "b = i") (auto simp: hints_inv_def nth_list_update)
qed

lemma hints_inv_find:
  assumes "hints_inv t"
  shows "hints_inv (fst (hints_find t tree key))"
proof (cases "snd (hints_find t tree key)")
  case None
  then have "fst (hints_find t tree key) = t" by (auto simp: hints_find_def Let_def split: option.splits if_splits)
  then show ?thesis using assms by simp
next
  case (Some r)
  then obtain tag i where i: "position (\<lambda>h. claims h tree tag key) (hint_slots t) = Some i"
      "hint_slots (fst (hints_find t tree key)) = (hint_slots t)[i := (hint_slots t ! i)\<lparr>hint_used := hint_clock t + 1\<rparr>]"
    by (auto simp: hints_find_def Let_def split: option.splits if_splits)
  have "i < TAG_HINTS" using position_Some [OF i(1)] assms by (simp add: hints_inv_def)
  then show ?thesis
    by (rule hints_inv_update [OF assms _ _ i(2)]) (use assms \<open>i < TAG_HINTS\<close> in \<open>simp add: hints_inv_def\<close>)
qed

definition armed_hint :: "tag_hints \<Rightarrow> u16 \<Rightarrow> byte \<Rightarrow> nat \<Rightarrow> u32 \<Rightarrow> leaf_fences \<Rightarrow> tag_hint" where
  "armed_hint t tree tag leaf nxt fences =
     \<lparr>hint_tree = tree, hint_tag = tag, hint_leaf = leaf, hint_next = nxt, hint_lower = lf_lower fences,
      hint_upper = lf_upper fences, hint_used = hint_clock t + 1\<rparr>"

lemma arm_slots:
  assumes "hints_inv t" "hints_enabled t" "get_at key 0 = Some tag" "armable fences"
  obtains hs i where "hint_slots (hints_arm t tree key leaf nxt fences) = hs[i := armed_hint t tree tag leaf nxt fences]" "i < TAG_HINTS"
    "hints_inv (t\<lparr>hint_slots := hs\<rparr>)" "\<And>j. j < TAG_HINTS \<Longrightarrow> hs ! j = hint_free \<or> \<not> hint_overlaps tree tag leaf fences (hs ! j)"
    "hints_enabled (hints_arm t tree key leaf nxt fences)"
    "\<And>h. h \<in> set hs \<Longrightarrow> h = hint_free \<or> h \<in> set (hint_slots t)"
proof -
  let ?P = "hint_overlaps tree tag leaf fences"
  define hs where "hs = map (\<lambda>h. if ?P h then hint_free else h) (hint_slots t)"
  define i where "i = (case position ?P (hint_slots t) of Some i \<Rightarrow> i
      | None \<Rightarrow> (case position (\<lambda>h. hint_tree h = 0) hs of Some i \<Rightarrow> i | None \<Rightarrow> oldest_slot 0 0 u64_max hs))"
  have eq: "hint_slots (hints_arm t tree key leaf nxt fences) = hs[i := armed_hint t tree tag leaf nxt fences]"
      "hints_enabled (hints_arm t tree key leaf nxt fences)"
    using assms(2-4) unfolding i_def hs_def by (simp_all add: hints_arm_def Let_def armed_hint_def)
  have u: "hints_inv (t\<lparr>hint_slots := hs\<rparr>)"
    by (rule hints_inv_map [OF assms(1), of "\<lambda>h. if ?P h then hint_free else h"]) (simp_all add: hs_def)
  have l: "length hs = TAG_HINTS" "length (hint_slots t) = TAG_HINTS" using u assms(1) by (simp_all add: hints_inv_def)
  have "oldest_slot 0 0 u64_max hs < TAG_HINTS" using oldest_slot_bound [of 0 0 u64_max hs] l by (auto simp: TAG_HINTS_def)
  then have "i < TAG_HINTS" using l by (auto simp: i_def split: option.splits dest: position_Some)
  moreover have "hs ! j = hint_free \<or> \<not> ?P (hs ! j)" if "j < TAG_HINTS" for j using that l by (auto simp: hs_def)
  moreover have "h = hint_free \<or> h \<in> set (hint_slots t)" if "h \<in> set hs" for h using that by (auto simp: hs_def)
  ultimately show thesis using that [OF eq(1) _ u _ eq(2)] by blast
qed

lemma hints_inv_arm:
  assumes "hints_inv t" "tree \<noteq> 0"
  shows "hints_inv (hints_arm t tree key leaf nxt fences)"
proof (cases "hints_enabled t \<and> armable fences \<and> get_at key 0 \<noteq> None")
  case False
  then have "hints_arm t tree key leaf nxt fences = t" by (auto simp: hints_arm_def split: option.splits)
  then show ?thesis using assms by simp
next
  case True
  then obtain tag where tag: "get_at key 0 = Some tag" by auto
  let ?h = "armed_hint t tree tag leaf nxt fences"
  obtain hs i where a: "hint_slots (hints_arm t tree key leaf nxt fences) = hs[i := ?h]" "i < TAG_HINTS"
      "hints_inv (t\<lparr>hint_slots := hs\<rparr>)" "\<And>j. j < TAG_HINTS \<Longrightarrow> hs ! j = hint_free \<or> \<not> hint_overlaps tree tag leaf fences (hs ! j)"
    by (rule arm_slots [OF assms(1) _ tag]) (use True in auto)
  have "hint_overlaps tree tag leaf (fences_of ?h) k \<longleftrightarrow> hint_overlaps tree tag leaf fences k" for k
    by (simp add: hint_overlaps_def fences_of_def armed_hint_def)
  then have "hints_compatible ?h (hs ! j)" if "j < TAG_HINTS" for j
    using a(4) [OF that] by (auto simp: hints_compatible_def hint_free_def armed_hint_def)
  then show ?thesis by (intro hints_inv_update [OF a(3), of i ?h]) (simp_all add: a)
qed

lemma claims_unique:
  assumes "hints_inv t" "i < TAG_HINTS" "j < TAG_HINTS" "claims (hint_slots t ! i) tree tag key" "claims (hint_slots t ! j) tree tag key" "tree \<noteq> 0"
  shows "i = j"
proof (rule ccontr)
  assume "i \<noteq> j"
  then have "hints_compatible (hint_slots t ! i) (hint_slots t ! j)" using assms(1-3) by (simp add: hints_inv_def)
  moreover have "hint_tree (hint_slots t ! i) = tree" "hint_tree (hint_slots t ! j) = tree" using assms(4,5) by (simp_all add: claims_def)
  ultimately show False using claims_overlap [OF assms(4,5)] assms(6) by (simp add: hints_compatible_def)
qed

lemma hints_find_armed:
  assumes "hints_inv t" "tree \<noteq> 0" "hints_enabled t" "armable fences" "key \<noteq> []" "get_at k 0 = get_at key 0"
    and "is_none_or (\<lambda>l. l \<le> key) (fence_get (lf_lower fences))" "is_none_or (\<lambda>u. key < u) (fence_get (lf_upper fences))"
  shows "snd (hints_find (hints_arm t tree k leaf nxt fences) tree key) = Some (leaf, nxt)"
proof -
  let ?u = "hints_arm t tree k leaf nxt fences"
  obtain tag where tag: "get_at key 0 = Some tag" using assms(5) by (cases key) (simp_all add: get_at_def)
  let ?h = "armed_hint t tree tag leaf nxt fences"
  obtain hs i where a: "hint_slots ?u = hs[i := ?h]" "i < TAG_HINTS" "hints_inv (t\<lparr>hint_slots := hs\<rparr>)" "hints_enabled ?u"
    by (rule arm_slots [OF assms(1,3) _ assms(4)]) (use assms(6) tag in auto)
  have u: "hints_inv ?u" by (rule hints_inv_arm [OF assms(1,2)])
  have hi: "hint_slots ?u ! i = ?h" using a(1-3) by (simp add: hints_inv_def)
  then have c: "claims (hint_slots ?u ! i) tree tag key" using assms(7,8) by (simp add: claims_def armed_hint_def)
  moreover have l: "length (hint_slots ?u) = TAG_HINTS" using u by (simp add: hints_inv_def)
  ultimately have "position (\<lambda>h. claims h tree tag key) (hint_slots ?u) \<noteq> None"
    using a(2) by (auto simp: position_None)
  then obtain j where j: "position (\<lambda>h. claims h tree tag key) (hint_slots ?u) = Some j" by auto
  then have "j = i" using claims_unique [OF u _ a(2) _ c assms(2)] position_Some [OF j] l by simp
  then show ?thesis using j a(4) tag hi by (simp add: hints_find_def Let_def armed_hint_def)
qed

text \<open>What a handle does to its cache.\<close>

inductive hints_step :: "tag_hints \<Rightarrow> tag_hints \<Rightarrow> bool" where
  find: "hints_step t (fst (hints_find t tree key))"
| arm: "tree \<noteq> 0 \<Longrightarrow> hints_step t (hints_arm t tree key leaf nxt fences)"
| forget: "hints_step t (hints_forget_leaf t tree leaf)"
| clear: "hints_step t (hints_clear t)"
| clear_tree: "hints_step t (hints_clear_tree t tree)"
| switch: "hints_step t (hints_set_enabled t on)"
| count: "hint_slots u = hint_slots t \<Longrightarrow> hints_step t u"

lemma hints_step_inv:
  assumes "hints_step t u" "hints_inv t"
  shows "hints_inv u"
  using assms
proof (cases rule: hints_step.cases)
  case (forget tree leaf)
  then show ?thesis by (intro hints_inv_map [OF assms(2), of "\<lambda>h. if hint_tree h = tree \<and> hint_leaf h = leaf then hint_free else h"]) (simp_all add: hints_forget_leaf_def)
next
  case clear
  then show ?thesis by (intro hints_inv_map [OF assms(2), of "\<lambda>_. hint_free"]) (simp_all add: hints_clear_def)
next
  case (clear_tree tree)
  then show ?thesis by (intro hints_inv_map [OF assms(2), of "\<lambda>h. if hint_tree h = tree then hint_free else h"]) (simp_all add: hints_clear_tree_def)
next
  case (switch on)
  then show ?thesis by (intro hints_inv_map [OF assms(2), of "\<lambda>h. if on then h else hint_free"]) (simp_all add: hints_set_enabled_def hints_clear_def Let_def)
next
  case count
  then show ?thesis using assms(2) by (simp add: hints_inv_def)
qed (simp_all add: hints_inv_find hints_inv_arm assms(2))



end
