(* ===== verification/Btree_Write.thy ===== *)
theory Btree_Write
  imports Btree_Read Page_Edit Tag_Hints
begin

text \<open>
  Writing a B+tree (core/kernel/src/btree.rs, the build without the optional cargo features): the
  copy-on-write descent, the insert into a leaf with its splits, the separators it sends up, and
  the two hints that may replace the descent. A handle is the tree with its hints; operations run
  on the pool and the handle. A write guard is the index of its frame; a guard is dropped where the
  code's value goes out of scope, on every return of the block that owns it.
\<close>

record writer = btree +
  last_leaf :: "nat option"
  fast_path_hits :: nat
  fast_path_attempts :: nat
  tags :: "tag_hints option"

type_synonym wstate = "pool \<times> writer"

section \<open>Guards and edits\<close>

definition drop_after :: "nat \<Rightarrow> pool \<times> 'a kresult \<Rightarrow> pool \<times> 'a kresult" where
  "drop_after i x = (case x of (s, r) \<Rightarrow> (case unpin s i True of Ok s' \<Rightarrow> (s', r) | _ \<Rightarrow> (s, Panic)))"

definition edit_frame :: "pool \<Rightarrow> nat \<Rightarrow> (bytes \<Rightarrow> (bytes \<times> 'a) kresult) \<Rightarrow> pool \<times> 'a kresult" where
  "edit_frame s i f =
     (case f (region s ! i) of Ok (b, x) \<Rightarrow> (bytes_mut s i b, Ok x) | Err e \<Rightarrow> (s, Err e) | Panic \<Rightarrow> (s, Panic))"

text \<open>A frame newly allocated, filled with the image built for its number, and released.\<close>

definition with_alloc :: "crc_fn \<Rightarrow> bool \<Rightarrow> pool \<Rightarrow> (nat \<Rightarrow> bytes kresult) \<Rightarrow> pool \<times> nat kresult" where
  "with_alloc crc debug s f =
     then_do (allocate crc debug s) (\<lambda>s (i, no).
     drop_after i (edit_frame s i (\<lambda>_. obind (f no) (\<lambda>b. Ok (b, no)))))"

text \<open>A page under a write guard of its own, replaced by what \<open>f\<close> makes of it.\<close>

definition with_edit :: "crc_fn \<Rightarrow> pool \<Rightarrow> nat \<Rightarrow> (bytes \<Rightarrow> bytes kresult) \<Rightarrow> pool \<times> unit kresult" where
  "with_edit crc s no f =
     with_write crc s no (\<lambda>b. case f b of Ok c \<Rightarrow> (c, Ok ()) | Err e \<Rightarrow> (b, Err e) | Panic \<Rightarrow> (b, Panic))"

definition retire :: "pool \<Rightarrow> nat \<Rightarrow> nat \<Rightarrow> pool \<times> unit kresult" where
  "retire s no birth = (case free_shadow_page s no birth of Ok s' \<Rightarrow> (s', Ok ()) | Err e \<Rightarrow> (s, Err e) | Panic \<Rightarrow> (s, Panic))"

fun retire_all :: "pool \<Rightarrow> (nat \<times> u64) list \<Rightarrow> pool \<times> unit kresult" where
  "retire_all s [] = (s, Ok ())"
| "retire_all s ((no, birth) # rs) = then_do (retire s no (unat birth)) (\<lambda>s _. retire_all s rs)"

text \<open>The page under a guard, or a read guard, opened and every record validated.\<close>

definition open_checked :: "crc_fn \<Rightarrow> nat \<Rightarrow> bytes \<Rightarrow> (bytes \<Rightarrow> 'a kresult) \<Rightarrow> 'a kresult" where
  "open_checked crc no b k =
     obind (open_resident crc b (of_nat no)) (\<lambda>p. obind (validate_records p) (\<lambda>_. k p))"

section \<open>Copy on write\<close>

definition shadow_page :: "crc_fn \<Rightarrow> bool \<Rightarrow> pool \<Rightarrow> nat \<Rightarrow> pool \<times> nat kresult" where
  "shadow_page crc debug s page =
     then_do (with_read crc s page Ok) (\<lambda>s content.
     then_do (allocate crc debug s) (\<lambda>s (i, no).
     drop_after i
       (let s = bytes_mut s i (finalise (put_at content 12 (to_le (of_nat no :: u32))) 0) in
        then_do (retire s page (unat (from_le (slice content 24 32) :: u64))) (\<lambda>s _. (s, Ok no)))))"

definition patch_page :: "crc_fn \<Rightarrow> nat \<Rightarrow> nat \<Rightarrow> nat \<Rightarrow> bytes \<Rightarrow> bytes kresult" where
  "patch_page crc page i new_child b =
     open_checked crc page b (\<lambda>p.
     obind (page_kind_of p) (\<lambda>kind.
     if i = 0 then
       if kind \<noteq> PageInterior then Err (Corrupt (of_nat page) ''child patch reached a non-interior page'')
       else Ok (finalise (set_next_leaf b (of_nat new_child)) 0)
     else if kind \<noteq> PageInterior \<or> i > nentries p then Err (Corrupt (of_nat page) ''child patch slot is out of bounds'')
     else obind (page_slot p (i - 1)) (\<lambda>rec.
       obind (validated_child rec) (\<lambda>_.
       let off = slot_off b (i - 1); len = slot_len b (i - 1) in
       if off + len < 4 \<or> off + len > length b then Panic
       else Ok (finalise (put_at b (off + len - 4) (to_le (of_nat new_child :: u32))) 0)))))"

definition patch_child :: "crc_fn \<Rightarrow> pool \<Rightarrow> nat \<Rightarrow> nat \<Rightarrow> nat \<Rightarrow> pool \<times> unit kresult" where
  "patch_child crc s page i new_child = with_edit crc s page (patch_page crc page i new_child)"

section \<open>The descent for a write\<close>

definition key_at :: "bytes \<Rightarrow> nat \<Rightarrow> bytes kresult" where
  "key_at p i = obind (page_slot p i) validated_key"

definition fence_step :: "bytes \<Rightarrow> nat \<Rightarrow> leaf_fences \<Rightarrow> leaf_fences kresult" where
  "fence_step p i fences =
     obind (if i > 0 then obind (key_at p (i - 1)) (\<lambda>k. Ok (narrow_lower fences k)) else Ok fences) (\<lambda>fences.
     if i < nentries p then obind (key_at p i) (\<lambda>k. Ok (narrow_upper fences k)) else Ok fences)"

text \<open>One page: \<open>None\<close> at a leaf, otherwise the child to enter and the narrowed fences.\<close>

definition write_page :: "u16 \<Rightarrow> bytes \<Rightarrow> nat \<Rightarrow> nat \<Rightarrow> leaf_fences \<Rightarrow> bytes \<Rightarrow> (nat \<times> nat \<times> leaf_fences) option kresult" where
  "write_page tid key pages cur fences p =
     obind (own_page tid cur ''page belongs to another tree'' p) (\<lambda>_.
     obind (page_kind_of p) (\<lambda>kind.
     if kind = PageLeaf then Ok None
     else obind (upper_bound p key) (\<lambda>i.
       obind (fence_step p i fences) (\<lambda>fences.
       obind (child_at pages p i) (\<lambda>child. Ok (Some (i, child, fences)))))))"

text \<open>A frozen child is copied and the parent, already this epoch's, pointed at the copy.\<close>

definition own_child :: "crc_fn \<Rightarrow> bool \<Rightarrow> pool \<Rightarrow> nat \<Rightarrow> nat \<Rightarrow> nat \<Rightarrow> pool \<times> nat kresult" where
  "own_child crc debug s cur i child =
     (if is_frozen s child then
        then_do (shadow_page crc debug s child) (\<lambda>s fresh.
        then_do (patch_child crc s cur i fresh) (\<lambda>s _. (s, Ok fresh)))
      else (s, Ok child))"

partial_function (option) write_loop ::
  "crc_fn \<Rightarrow> bool \<Rightarrow> u16 \<Rightarrow> bytes \<Rightarrow> pool \<Rightarrow> nat \<Rightarrow> nat list \<Rightarrow> leaf_fences \<Rightarrow>
     (pool \<times> (nat \<times> nat \<times> nat list \<times> leaf_fences) kresult) option" where
  "write_loop crc debug tid key s cur path fences =
     then_may (Some (with_page crc s cur (write_page tid key (next_page s) cur fences))) (\<lambda>s step.
     case step of
       None \<Rightarrow> Some (then_do (get_mut crc s cur) (\<lambda>s g. (s, Ok (g, cur, path, fences))))
     | Some (i, child, fences) \<Rightarrow>
         then_may (Some (own_child crc debug s cur i child)) (\<lambda>s next.
         write_loop crc debug tid key s next (path @ [cur]) fences))"

text \<open>A pool operation on the pair of pool and handle.\<close>

definition in_pool :: "writer \<Rightarrow> pool \<times> 'a kresult \<Rightarrow> wstate \<times> 'a kresult" where
  "in_pool w x = (case x of (s, r) \<Rightarrow> ((s, w), r))"

definition own_root :: "crc_fn \<Rightarrow> bool \<Rightarrow> wstate \<Rightarrow> wstate \<times> unit kresult" where
  "own_root crc debug x =
     (case x of (s, w) \<Rightarrow>
      if is_frozen s (root w) then
        then_do (in_pool w (shadow_page crc debug s (root w))) (\<lambda>(s, w) no. ((s, w\<lparr>root := no\<rparr>), Ok ()))
      else ((s, w), Ok ()))"

definition descend_for_write_fenced ::
  "crc_fn \<Rightarrow> bool \<Rightarrow> wstate \<Rightarrow> bytes \<Rightarrow> (wstate \<times> (nat \<times> nat \<times> nat list \<times> leaf_fences) kresult) option" where
  "descend_for_write_fenced crc debug x key =
     then_may (Some (own_root crc debug x)) (\<lambda>(s, w) _.
     map_option (in_pool w) (write_loop crc debug (tree_id w) key s (root w) [] fences_none))"

definition descend_for_write ::
  "crc_fn \<Rightarrow> bool \<Rightarrow> wstate \<Rightarrow> bytes \<Rightarrow> (wstate \<times> (nat \<times> nat \<times> nat list) kresult) option" where
  "descend_for_write crc debug x key =
     then_may (descend_for_write_fenced crc debug x key) (\<lambda>x (g, leaf, path, _). Some (x, Ok (g, leaf, path)))"

section \<open>Separators\<close>

definition insert_record :: "nat \<Rightarrow> bytes \<Rightarrow> bytes \<Rightarrow> bytes kresult" where
  "insert_record at rec b = obind (insert_slot b at rec) (\<lambda>b. Ok (finalise b 0))"

text \<open>A root above the old one.\<close>

definition new_root :: "crc_fn \<Rightarrow> bool \<Rightarrow> pool \<Rightarrow> u16 \<Rightarrow> nat \<Rightarrow> bytes \<Rightarrow> nat \<Rightarrow> pool \<times> nat kresult" where
  "new_root crc debug s tid left sep right =
     then_do (allocate crc debug s) (\<lambda>s (i, no).
     drop_after i
       (then_do (edit_frame s i (\<lambda>b. obind (page_init b PageInterior tid (of_nat no)) (\<lambda>p. Ok (set_next_leaf p (of_nat left), ())))) (\<lambda>s _.
        then_do (edit_frame s i (\<lambda>b. obind (insert_record 0 (enc_interior sep (of_nat right)) b) (\<lambda>b. Ok (b, ())))) (\<lambda>s _.
        (s, Ok no)))))"

definition separator_room :: "crc_fn \<Rightarrow> nat \<Rightarrow> bytes \<Rightarrow> nat \<Rightarrow> bytes \<Rightarrow> (nat \<times> bool) kresult" where
  "separator_room crc parent sep len b =
     open_checked crc parent b (\<lambda>p. obind (upper_bound p sep) (\<lambda>i. Ok (i, free_space p \<ge> len + 4)))"

definition page_records :: "crc_fn \<Rightarrow> nat \<Rightarrow> bytes \<Rightarrow> bytes list kresult" where
  "page_records crc no b = open_checked crc no b (\<lambda>p. all_slots p [0..<nentries p])"

definition page_link :: "crc_fn \<Rightarrow> nat \<Rightarrow> bytes \<Rightarrow> u32 kresult" where
  "page_link crc no b = open_checked crc no b (\<lambda>p. Ok (page_next_leaf p))"

text \<open>The path is given innermost page first: \<open>path.pop()\<close> takes its head.\<close>

fun insert_separator :: "crc_fn \<Rightarrow> bool \<Rightarrow> wstate \<Rightarrow> nat list \<Rightarrow> bytes \<Rightarrow> nat \<Rightarrow> wstate \<times> unit kresult" where
  "insert_separator crc debug (s, w) [] sep right =
     then_do (in_pool w (new_root crc debug s (tree_id w) (root w) sep right)) (\<lambda>(s, w) no.
     ((s, w\<lparr>root := no\<rparr>), Ok ()))"
| "insert_separator crc debug (s, w) (parent # path) sep right =
     (let rec = enc_interior sep (of_nat right) in
      then_do (in_pool w (with_read crc s parent (separator_room crc parent sep (length rec)))) (\<lambda>(s, w) (i, room).
      if room then in_pool w (with_edit crc s parent (insert_record i rec))
      else
        then_do (in_pool w (with_read crc s parent (page_records crc parent))) (\<lambda>(s, w) recs.
        if i > length recs then ((s, w), Panic)
        else let recs = take i recs @ rec # drop i recs in
        then_do (in_pool w (with_read crc s parent (page_link crc parent))) (\<lambda>(s, w) old_child0.
        case split_point recs (PAGE_SIZE - HEADER_LEN) of
          None \<Rightarrow> ((s, w), Err TooLarge)
        | Some sp \<Rightarrow>
            (case drop sp recs of
               [] \<Rightarrow> ((s, w), Panic)
             | first # right_recs \<Rightarrow>
                 then_do ((s, w), validated_key first) (\<lambda>(s, w) up.
                 then_do ((s, w), validated_child first) (\<lambda>(s, w) right_child0.
                 then_do (in_pool w (with_alloc crc debug s (\<lambda>no. build_page PageInterior (tree_id w) (of_nat no) right_recs right_child0))) (\<lambda>(s, w) right_no.
                 then_do ((s, w), build_page PageInterior (tree_id w) (of_nat parent) (take sp recs) old_child0) (\<lambda>(s, w) page.
                 then_do (in_pool w (with_edit crc s parent (\<lambda>_. Ok page))) (\<lambda>(s, w) _.
                 insert_separator crc debug (s, w) path up right_no))))))))))"

section \<open>Inserting into a leaf\<close>

text \<open>What the open leaf says of the key: its slot, whether it is there, the leaf's link, the old record.\<close>

definition leaf_search :: "crc_fn \<Rightarrow> nat \<Rightarrow> bytes \<Rightarrow> bytes \<Rightarrow> (nat \<times> bytes option \<times> u32) kresult" where
  "leaf_search crc leaf key b =
     open_checked crc leaf b (\<lambda>p.
     obind (lower_bound p key) (\<lambda>i.
     obind (if i < nentries p
            then obind (page_slot p i) (\<lambda>rec. obind (validated_key rec) (\<lambda>k. Ok (if k = key then Some rec else None)))
            else Ok None) (\<lambda>old.
     Ok (i, old, page_next_leaf p))))"

definition remove_record :: "nat \<Rightarrow> bytes \<Rightarrow> bytes kresult" where
  "remove_record at b = obind (remove_slot b at) (\<lambda>b. obind (compact b) (\<lambda>b. Ok (finalise b 0)))"

definition make_room :: "nat \<Rightarrow> bytes \<Rightarrow> (bytes \<times> bool) kresult" where
  "make_room len b =
     (if free_space b \<ge> len + 4 then Ok (b, True)
      else obind (compact b) (\<lambda>b. let b = finalise b 0 in Ok (b, free_space b \<ge> len + 4)))"

text \<open>The part of \<open>insert_into_leaf\<close> that works on the leaf: the slot, the link, and whether the record went in.\<close>

definition place_record :: "crc_fn \<Rightarrow> pool \<Rightarrow> nat \<Rightarrow> nat \<Rightarrow> bytes \<Rightarrow> bytes \<Rightarrow> pool \<times> (nat \<times> u32 \<times> bool) kresult" where
  "place_record crc s g leaf key rec =
     then_do (s, leaf_search crc leaf key (region s ! g)) (\<lambda>s (i, old, nxt).
     then_do (case old of None \<Rightarrow> (s, Ok ())
              | Some rec \<Rightarrow>
                  then_do (replaced_overflow_pages crc s rec) (\<lambda>s retired.
                  then_do (edit_frame s g (\<lambda>b. obind (remove_record i b) (\<lambda>b. Ok (b, ())))) (\<lambda>s _.
                  retire_all s retired))) (\<lambda>s _.
     then_do (edit_frame s g (make_room (length rec))) (\<lambda>s room.
     if room then then_do (edit_frame s g (\<lambda>b. obind (insert_record i rec b) (\<lambda>b. Ok (b, ())))) (\<lambda>s _. (s, Ok (i, nxt, True)))
     else (s, Ok (i, nxt, False)))))"

definition arm_tags :: "writer \<Rightarrow> bytes \<Rightarrow> nat \<Rightarrow> u32 \<Rightarrow> leaf_fences option \<Rightarrow> writer" where
  "arm_tags w key leaf nxt fences =
     (case (tags w, fences) of
        (Some t, Some f) \<Rightarrow> w\<lparr>tags := Some (hints_arm t (tree_id w) key leaf nxt f)\<rparr>
      | _ \<Rightarrow> w)"

section \<open>Splitting a leaf\<close>

abbreviation usable :: nat where
  "usable \<equiv> PAGE_SIZE - HEADER_LEN"

definition cells_bytes :: "bytes list \<Rightarrow> nat" where
  "cells_bytes recs = sum_list (map (\<lambda>r. length r + 4) recs)"

text \<open>Greedy packing: the cuts after the leading 0.\<close>

fun greedy_cuts :: "nat \<Rightarrow> nat \<Rightarrow> nat \<Rightarrow> bytes list \<Rightarrow> nat list" where
  "greedy_cuts u i used [] = []"
| "greedy_cuts u i used (r # rs) =
     (if used + length r + 4 > u then i # greedy_cuts u (i + 1) (length r + 4) rs
      else greedy_cuts u (i + 1) (used + length r + 4) rs)"

text \<open>
  The pieces of a split, before the guards are dropped: the cut with its separator and page, or two
  cuts with theirs.
\<close>

datatype split_pieces =
    TwoWay nat bytes nat
  | ThreeWay nat bytes nat nat bytes nat

definition split_two :: "crc_fn \<Rightarrow> bool \<Rightarrow> u16 \<Rightarrow> pool \<Rightarrow> nat \<Rightarrow> nat \<Rightarrow> bytes list \<Rightarrow> u32 \<Rightarrow> nat \<Rightarrow> pool \<times> split_pieces kresult" where
  "split_two crc debug tid s g leaf recs old_next sp =
     (case drop sp recs of
        [] \<Rightarrow> (s, Panic)
      | first # _ \<Rightarrow>
          then_do (s, validated_key first) (\<lambda>s sep.
          then_do (with_alloc crc debug s (\<lambda>no. build_page PageLeaf tid (of_nat no) (drop sp recs) old_next)) (\<lambda>s right_no.
          then_do (edit_frame s g (\<lambda>_. obind (build_page PageLeaf tid (of_nat leaf) (take sp recs) (of_nat right_no)) (\<lambda>b. Ok (b, ())))) (\<lambda>s _.
          (s, Ok (TwoWay sp sep right_no))))))"

definition split_three :: "crc_fn \<Rightarrow> bool \<Rightarrow> u16 \<Rightarrow> pool \<Rightarrow> nat \<Rightarrow> nat \<Rightarrow> bytes list \<Rightarrow> u32 \<Rightarrow> pool \<times> split_pieces kresult" where
  "split_three crc debug tid s g leaf recs old_next =
     (case 0 # greedy_cuts usable 0 0 recs @ [length recs] of
        [c0, c1, c2, c3] \<Rightarrow>
          if c0 = c1 \<or> c1 = c2 \<or> c2 = c3 then (s, Err TooLarge)
          else
            then_do (allocate crc debug s) (\<lambda>s (i, mid_no).
            drop_after i (then_do (allocate crc debug s) (\<lambda>s (j, right_no).
            drop_after j (
              then_do (s, build_page PageLeaf tid (of_nat leaf) (slice recs 0 c1) (of_nat mid_no)) (\<lambda>s left_image.
              then_do (s, build_page PageLeaf tid (of_nat mid_no) (slice recs c1 c2) (of_nat right_no)) (\<lambda>s mid_image.
              then_do (s, build_page PageLeaf tid (of_nat right_no) (drop c2 recs) old_next) (\<lambda>s right_image.
              then_do (s, validated_key (recs ! c1)) (\<lambda>s mid_sep.
              then_do (s, validated_key (recs ! c2)) (\<lambda>s right_sep.
              let s = bytes_mut s i mid_image; s = bytes_mut s j right_image; s = bytes_mut s g left_image in
              (s, Ok (ThreeWay c1 mid_sep mid_no c2 right_sep right_no)))))))))))
      | _ \<Rightarrow> (s, Err TooLarge))"

definition leaf_records :: "crc_fn \<Rightarrow> nat \<Rightarrow> bytes \<Rightarrow> (bytes list \<times> u32) kresult" where
  "leaf_records crc leaf b =
     open_checked crc leaf b (\<lambda>p. obind (all_slots p [0..<nentries p]) (\<lambda>recs. Ok (recs, page_next_leaf p)))"

definition split_leaf :: "crc_fn \<Rightarrow> bool \<Rightarrow> u16 \<Rightarrow> pool \<Rightarrow> nat \<Rightarrow> nat \<Rightarrow> nat \<Rightarrow> bytes \<Rightarrow> pool \<times> (u32 \<times> split_pieces) kresult" where
  "split_leaf crc debug tid s g leaf at rec =
     then_do (s, leaf_records crc leaf (region s ! g)) (\<lambda>s (recs, old_next).
     if at > length recs then (s, Panic)
     else let recs = take at recs @ rec # drop at recs;
              at_tail = (at > 0 \<and> at = length recs - 1 \<and> cells_bytes (take (min at (length recs)) recs) \<le> usable \<and>
                         cells_bytes (drop at recs) \<le> usable);
              at_point = (at_tail \<and> old_next = 0)
          in then_do (case (if at_point then Some at else split_point recs usable) of
                        Some sp \<Rightarrow> split_two crc debug tid s g leaf recs old_next sp
                      | None \<Rightarrow> split_three crc debug tid s g leaf recs old_next) (\<lambda>s pieces. (s, Ok (old_next, pieces))))"

text \<open>\<open>arm_after_split\<close> on the half the record is in.\<close>

definition arm_after_split :: "writer \<Rightarrow> bytes \<Rightarrow> leaf_fences option \<Rightarrow> nat \<Rightarrow> u32 \<Rightarrow> (leaf_fences \<Rightarrow> leaf_fences) \<Rightarrow> writer" where
  "arm_after_split w key fences page nxt side = arm_tags w key page nxt (map_option side fences)"

text \<open>Both separators of a three-way split: the first may have moved the leaf's parent, so the second descends again.\<close>

definition insert_separators ::
  "crc_fn \<Rightarrow> bool \<Rightarrow> wstate \<Rightarrow> nat list \<Rightarrow> bytes \<Rightarrow> nat \<Rightarrow> bytes \<Rightarrow> nat \<Rightarrow> (wstate \<times> unit kresult) option" where
  "insert_separators crc debug x path mid_sep mid_no right_sep right_no =
     then_may (Some (insert_separator crc debug x (rev path) mid_sep mid_no)) (\<lambda>x _.
     then_may (descend_for_write crc debug x right_sep) (\<lambda>(s, w) (guard, _, new_path).
     then_may (Some (in_pool w (drop_after guard (s, Ok ())))) (\<lambda>x _.
     Some (insert_separator crc debug x (rev new_path) right_sep right_no))))"

definition split_leaf_and_insert ::
  "crc_fn \<Rightarrow> bool \<Rightarrow> wstate \<Rightarrow> nat \<Rightarrow> nat \<Rightarrow> nat list \<Rightarrow> nat \<Rightarrow> bytes \<Rightarrow> bytes \<Rightarrow> leaf_fences option \<Rightarrow> (wstate \<times> unit kresult) option" where
  "split_leaf_and_insert crc debug x g leaf path at rec key fences =
     (case x of (s, w) \<Rightarrow>
      let w = w\<lparr>tags := map_option (\<lambda>t. hints_forget_leaf t (tree_id w) leaf) (tags w)\<rparr> in
      then_may (Some (in_pool w (drop_after g (split_leaf crc debug (tree_id w) s g leaf at rec)))) (\<lambda>(s, w) (old_next, pieces).
      case pieces of
        TwoWay sp sep right_no \<Rightarrow>
          let w = (if old_next = 0 then w\<lparr>last_leaf := Some right_no\<rparr> else w) in
          then_may (Some (insert_separator crc debug (s, w) (rev path) sep right_no)) (\<lambda>(s, w) _.
          Some ((s, if at < sp then arm_after_split w key fences leaf (of_nat right_no) (\<lambda>f. fences_below f sep)
                    else arm_after_split w key fences right_no old_next (\<lambda>f. fences_above f sep)), Ok ()))
      | ThreeWay c1 mid_sep mid_no c2 right_sep right_no \<Rightarrow>
          let w = w\<lparr>last_leaf := None\<rparr> in
          then_may (insert_separators crc debug (s, w) path mid_sep mid_no right_sep right_no) (\<lambda>(s, w) _.
          let w = (if old_next = 0 then w\<lparr>last_leaf := Some right_no\<rparr> else w) in
          Some ((s, if at < c1 then arm_after_split w key fences leaf (of_nat mid_no) (\<lambda>f. fences_below f mid_sep)
                    else if at < c2 then arm_after_split w key fences mid_no (of_nat right_no) (\<lambda>f. fences_below (fences_above f mid_sep) right_sep)
                    else arm_after_split w key fences right_no old_next (\<lambda>f. fences_above f right_sep)), Ok ()))))"

definition insert_into_leaf ::
  "crc_fn \<Rightarrow> bool \<Rightarrow> wstate \<Rightarrow> nat \<Rightarrow> nat \<Rightarrow> nat list \<Rightarrow> bytes \<Rightarrow> bytes \<Rightarrow> leaf_fences option \<Rightarrow> (wstate \<times> unit kresult) option" where
  "insert_into_leaf crc debug x g leaf path key rec fences =
     (case x of (s, w) \<Rightarrow>
      case place_record crc s g leaf key rec of
        (s, Ok (i, nxt, True)) \<Rightarrow>
          let w = (if nxt = 0 then w\<lparr>last_leaf := Some leaf\<rparr> else w) in
          Some (in_pool (arm_tags w key leaf nxt fences) (drop_after g (s, Ok ())))
      | (s, Ok (i, nxt, False)) \<Rightarrow> split_leaf_and_insert crc debug (s, w) g leaf path i rec key fences
      | (s, Err e) \<Rightarrow> Some (in_pool w (drop_after g (s, Err e)))
      | (s, Panic) \<Rightarrow> Some (in_pool w (drop_after g (s, Panic))))"

section \<open>The hinted leaves\<close>

text \<open>\<open>fast_path_tag_leaf\<close>: the guard and the slot, or no guard.\<close>

definition tag_fits :: "crc_fn \<Rightarrow> u16 \<Rightarrow> nat \<Rightarrow> u32 \<Rightarrow> bytes \<Rightarrow> nat \<Rightarrow> bytes \<Rightarrow> nat option kresult" where
  "tag_fits crc tid hint nxt key len b =
     open_checked crc hint b (\<lambda>p.
     obind (page_kind_of p) (\<lambda>kind.
     if kind \<noteq> PageLeaf \<or> page_tree_id p \<noteq> tid \<or> page_next_leaf p \<noteq> nxt \<or> free_space p < len + 4 \<or> nentries p = 0 then Ok None
     else obind (lower_bound p key) (\<lambda>at.
       if at = nentries p then Ok (Some at)
       else obind (key_at p at) (\<lambda>k. Ok (if k \<noteq> key then Some at else None)))))"

definition probe :: "crc_fn \<Rightarrow> pool \<Rightarrow> nat \<Rightarrow> (bytes \<Rightarrow> 'a option kresult) \<Rightarrow> pool \<times> (nat \<times> 'a) option kresult" where
  "probe crc s hint check =
     (if is_frozen s hint then (s, Ok None)
      else then_do (get_mut crc s hint) (\<lambda>s g.
        case check (region s ! g) of
          Ok (Some a) \<Rightarrow> (s, Ok (Some (g, a)))
        | Ok None \<Rightarrow> drop_after g (s, Ok None)
        | Err e \<Rightarrow> drop_after g (s, Err e)
        | Panic \<Rightarrow> drop_after g (s, Panic)))"

definition fast_path_tag_leaf :: "crc_fn \<Rightarrow> u16 \<Rightarrow> pool \<Rightarrow> nat \<Rightarrow> u32 \<Rightarrow> bytes \<Rightarrow> bytes \<Rightarrow> pool \<times> (nat \<times> nat) option kresult" where
  "fast_path_tag_leaf crc tid s hint nxt key rec = probe crc s hint (tag_fits crc tid hint nxt key (length rec))"

definition last_fits :: "crc_fn \<Rightarrow> u16 \<Rightarrow> nat \<Rightarrow> bytes \<Rightarrow> nat \<Rightarrow> bytes \<Rightarrow> unit option kresult" where
  "last_fits crc tid hint key len b =
     open_checked crc hint b (\<lambda>p.
     obind (page_kind_of p) (\<lambda>kind.
     if kind = PageLeaf \<and> page_tree_id p = tid \<and> page_next_leaf p = 0 \<and> free_space p \<ge> len + 4 \<and> nentries p > 0
     then obind (key_at p (nentries p - 1)) (\<lambda>k. Ok (if key > k then Some () else None))
     else Ok None))"

definition fast_path_leaf :: "crc_fn \<Rightarrow> u16 \<Rightarrow> pool \<Rightarrow> nat \<Rightarrow> bytes \<Rightarrow> bytes \<Rightarrow> pool \<times> (nat \<times> unit) option kresult" where
  "fast_path_leaf crc tid s hint key rec = probe crc s hint (last_fits crc tid hint key (length rec))"

definition insert_fast :: "wstate \<Rightarrow> nat \<Rightarrow> nat \<Rightarrow> bytes \<Rightarrow> wstate \<times> unit kresult" where
  "insert_fast x g leaf rec =
     (case x of (s, w) \<Rightarrow>
      then_do (in_pool w (drop_after g (edit_frame s g (\<lambda>b. obind (insert_record (nentries b) rec b) (\<lambda>b. Ok (b, ())))))) (\<lambda>(s, w) _.
      ((s, w\<lparr>last_leaf := Some leaf\<rparr>), Ok ())))"

definition insert_tag_fast :: "pool \<Rightarrow> nat \<Rightarrow> nat \<Rightarrow> bytes \<Rightarrow> pool \<times> unit kresult" where
  "insert_tag_fast s g at rec = drop_after g (edit_frame s g (\<lambda>b. obind (insert_record at rec b) (\<lambda>b. Ok (b, ()))))"

section \<open>The insert\<close>

definition encode_record :: "crc_fn \<Rightarrow> bool \<Rightarrow> pool \<Rightarrow> bytes \<Rightarrow> bytes \<Rightarrow> pool \<times> bytes kresult" where
  "encode_record crc debug s key val =
     (if 4 + length key + length val > MAX_RECORD_LEN then
        then_do (write_overflow crc debug s val) (\<lambda>s (head, c).
        (s, Ok (enc_leaf_marker key (enc_marker (of_nat (length val)) (of_nat head) c))))
      else (s, Ok (enc_leaf key val (compact_cells s))))"

definition insert_descending :: "crc_fn \<Rightarrow> bool \<Rightarrow> wstate \<Rightarrow> bytes \<Rightarrow> bytes \<Rightarrow> (wstate \<times> unit kresult) option" where
  "insert_descending crc debug x key rec =
     then_may (descend_for_write_fenced crc debug x key) (\<lambda>x (g, leaf, path, fence).
     insert_into_leaf crc debug x g leaf path key rec (Some fence))"

text \<open>The append hint of the whole tree, then the descent.\<close>

definition insert_by_last :: "crc_fn \<Rightarrow> bool \<Rightarrow> wstate \<Rightarrow> bytes \<Rightarrow> bytes \<Rightarrow> (wstate \<times> unit kresult) option" where
  "insert_by_last crc debug x key rec =
     (case x of (s, w) \<Rightarrow>
      case last_leaf w of
        None \<Rightarrow> insert_descending crc debug (s, w) key rec
      | Some hint \<Rightarrow>
          let w = w\<lparr>fast_path_attempts := fast_path_attempts w + 1\<rparr> in
          then_may (Some (in_pool w (fast_path_leaf crc (tree_id w) s hint key rec))) (\<lambda>(s, w) found.
          case found of
            Some (g, _) \<Rightarrow> Some (insert_fast (s, w\<lparr>fast_path_hits := fast_path_hits w + 1\<rparr>) g hint rec)
          | None \<Rightarrow> insert_descending crc debug (s, w\<lparr>last_leaf := None\<rparr>) key rec))"

definition insert_record_at :: "crc_fn \<Rightarrow> bool \<Rightarrow> wstate \<Rightarrow> bytes \<Rightarrow> bytes \<Rightarrow> (wstate \<times> unit kresult) option" where
  "insert_record_at crc debug x key rec =
     (case x of (s, w) \<Rightarrow>
      case tags w of
        None \<Rightarrow> insert_by_last crc debug (s, w) key rec
      | Some t \<Rightarrow>
          (case hints_find t (tree_id w) key of
             (t, None) \<Rightarrow> insert_by_last crc debug (s, w\<lparr>tags := Some (t\<lparr>hint_misses := hint_misses t + 1\<rparr>)\<rparr>) key rec
           | (t, Some (hint, nxt)) \<Rightarrow>
               let t = t\<lparr>hint_attempts := hint_attempts t + 1\<rparr>; w = w\<lparr>tags := Some t\<rparr> in
               then_may (Some (in_pool w (fast_path_tag_leaf crc (tree_id w) s hint nxt key rec))) (\<lambda>(s, w) found.
               case found of
                 Some (g, at) \<Rightarrow>
                   Some (in_pool (w\<lparr>tags := Some (t\<lparr>hint_hits := hint_hits t + 1\<rparr>)\<rparr>) (insert_tag_fast s g at rec))
               | None \<Rightarrow>
                   insert_descending crc debug (s, w\<lparr>tags := Some (hints_forget_leaf t (tree_id w) hint)\<rparr>) key rec)))"

definition btree_insert :: "crc_fn \<Rightarrow> bool \<Rightarrow> wstate \<Rightarrow> bytes \<Rightarrow> bytes \<Rightarrow> (wstate \<times> unit kresult) option" where
  "btree_insert crc debug x key val =
     (case x of (s, w) \<Rightarrow>
      then_may (Some (in_pool w (encode_record crc debug s key val))) (\<lambda>x rec.
      if length rec > MAX_RECORD_LEN then Some (x, Err TooLarge)
      else insert_record_at crc debug x key rec))"

text \<open>A new tree: one empty leaf. Page 0 is the superblock; handing it out panics.\<close>

definition btree_create :: "crc_fn \<Rightarrow> bool \<Rightarrow> pool \<Rightarrow> u16 \<Rightarrow> nat option \<Rightarrow> nat \<Rightarrow> nat \<Rightarrow> pool \<times> writer kresult" where
  "btree_create crc debug s tid hint n_hits n_attempts =
     then_do (allocate crc debug s) (\<lambda>s (i, no).
     drop_after i
       (if no = 0 then (s, Panic)
        else then_do (edit_frame s i (\<lambda>b. obind (page_init b PageLeaf tid (of_nat no)) (\<lambda>p. Ok (finalise p 0, ())))) (\<lambda>s _.
          (s, Ok \<lparr>tree_id = tid, root = no, last_leaf = hint, fast_path_hits = n_hits, fast_path_attempts = n_attempts, tags = None\<rparr>))))"

definition btree_open :: "u16 \<Rightarrow> nat \<Rightarrow> nat option \<Rightarrow> nat \<Rightarrow> nat \<Rightarrow> writer" where
  "btree_open tid no hint n_hits n_attempts =
     \<lparr>tree_id = tid, root = no, last_leaf = hint, fast_path_hits = n_hits, fast_path_attempts = n_attempts, tags = None\<rparr>"

definition with_tags :: "writer \<Rightarrow> tag_hints \<Rightarrow> writer" where
  "with_tags w t = w\<lparr>tags := Some t\<rparr>"

end
