(* ===== verification/Btree_Live.thy ===== *)
theory Btree_Live
  imports Btree_Write
begin

text \<open>
  The invariant of a tree that is being written: its pages hold it, every page is well formed, keys
  and separators lie between the fences of their subtree, the rightmost leaf is the one without a
  successor, and no page serves twice or can be handed out by the allocator. A subtree under edit is
  seen through its context, the nodes over it from the inside out.
\<close>

section \<open>Pools under change\<close>

text \<open>
  From \<open>s\<close> to \<open>s'\<close> at most the pages in \<open>D\<close> are rewritten or retired and at most \<open>c\<close> new page
  numbers are taken; otherwise only pages the allocator had to give away have changed.
\<close>

definition evolves :: "crc_fn \<Rightarrow> pool \<Rightarrow> pool \<Rightarrow> nat set \<Rightarrow> nat \<Rightarrow> bool" where
  "evolves crc s s' D c \<longleftrightarrow>
     alloc_ready s' \<and> next_page s \<le> next_page s' \<and> next_page s' \<le> next_page s + c \<and> limits s' = limits s \<and>
     available s' \<subseteq> available s \<union> D \<and> (\<forall>p. is_frozen s' p \<longrightarrow> is_frozen s p) \<and> length (frames s') = length (frames s) \<and>
     (\<forall>m b. m \<notin> D \<and> m \<notin> available s \<and> holds crc s m b \<longrightarrow> holds crc s' m b)"

lemma evolves_refl: "alloc_ready s \<Longrightarrow> evolves crc s s D 0"
  by (auto simp: evolves_def)

lemma evolves_trans: "evolves crc s t D c \<Longrightarrow> evolves crc t u E d \<Longrightarrow> evolves crc s u (D \<union> E) (c + d)"
  unfolding evolves_def by (intro conjI; (blast | linarith | simp)?)

lemma evolves_mono: "evolves crc s t D c \<Longrightarrow> D \<subseteq> E \<Longrightarrow> c \<le> d \<Longrightarrow> evolves crc s t E d"
  unfolding evolves_def by (intro conjI; (blast | linarith)?)

lemma evolves_truncate:
  assumes "alloc_ready s" "reuse.truncate t = reuse.truncate s" "\<And>n. extent_within n s \<Longrightarrow> extent_within n t"
    and "length (frames t) = length (frames s)" "\<And>m b. m \<notin> D \<Longrightarrow> holds crc s m b \<Longrightarrow> holds crc t m b"
  shows "evolves crc s t D 0"
proof -
  have "next_page t = next_page s" "limits t = limits s" using assms(2) by (simp_all add: reuse.defs)
  then show ?thesis
    using alloc_ready_truncate [OF assms(1-3)] truncate_frozen [OF assms(2)] assms(4,5) by (simp add: evolves_def)
qed

text \<open>A request for page numbers that cannot be refused.\<close>

definition plenty :: "pool \<Rightarrow> nat \<Rightarrow> bool" where
  "plenty s c \<longleftrightarrow> limits s = None \<and> next_page s + c \<le> u32_max"

lemma plenty_evolves: "plenty s (c + d) \<Longrightarrow> evolves crc s t D c \<Longrightarrow> plenty t d"
  by (simp add: plenty_def evolves_def)

lemma plenty_mono: "plenty s d \<Longrightarrow> c \<le> d \<Longrightarrow> plenty s c"
  by (simp add: plenty_def)

section \<open>Fenced trees\<close>

definition over :: "bytes option \<Rightarrow> bytes \<Rightarrow> bool" where
  "over lo k \<longleftrightarrow> (case lo of None \<Rightarrow> True | Some l \<Rightarrow> l \<le> k)"

definition under :: "bytes option \<Rightarrow> bytes \<Rightarrow> bool" where
  "under hi k \<longleftrightarrow> (case hi of None \<Rightarrow> True | Some u \<Rightarrow> k < u)"

text \<open>The fences of child \<open>j\<close> between separators.\<close>

definition fence_lo :: "bytes option \<Rightarrow> bytes list \<Rightarrow> nat \<Rightarrow> bytes option" where
  "fence_lo lo ks j = (if j = 0 then lo else Some (ks ! (j - 1)))"

definition fence_hi :: "bytes option \<Rightarrow> bytes list \<Rightarrow> nat \<Rightarrow> bytes option" where
  "fence_hi hi ks j = (if j < length ks then Some (ks ! j) else hi)"

text \<open>
  Keys of at most this many bytes: two of them share an interior page, so that an interior page that
  overflows can be cut in two.
\<close>

definition key_cap :: nat where "key_cap = 2018"

text \<open>Interior pages are edited in place: their records share no bytes, and no cell space is lost.\<close>

definition tidy :: "bytes \<Rightarrow> bool" where
  "tidy b \<longleftrightarrow> slots_apart b \<and> free_space b + cells_bytes (page_slots b) = 4056"

definition own_page_no :: "pool \<Rightarrow> nat \<Rightarrow> bool" where
  "own_page_no s no \<longleftrightarrow> 1 < no \<and> no \<notin> available s \<and> no \<le> u32_max"

definition leaf_live :: "crc_fn \<Rightarrow> pool \<Rightarrow> u16 \<Rightarrow> bytes option \<Rightarrow> bytes option \<Rightarrow> nat \<Rightarrow> entry list \<Rightarrow> bool" where
  "leaf_live crc s tid lo hi no es \<longleftrightarrow>
     own_page_no s no \<and> sorted_wrt (<) (map fst es) \<and> (\<forall>e \<in> set es. over lo (fst e) \<and> under hi (fst e)) \<and>
     (\<forall>e \<in> set es. length (fst e) \<le> key_cap) \<and>
     (\<exists>b. holds crc s no b \<and> leaf_image crc s tid no es b \<and> page_wf b \<and> (page_next_leaf b = 0 \<longrightarrow> hi = None))"

definition node_live :: "crc_fn \<Rightarrow> pool \<Rightarrow> u16 \<Rightarrow> bytes option \<Rightarrow> bytes option \<Rightarrow> nat \<Rightarrow> nat list \<Rightarrow> bytes list \<Rightarrow> bool" where
  "node_live crc s tid lo hi no cs ks \<longleftrightarrow>
     own_page_no s no \<and> sorted_wrt (<) ks \<and> (\<forall>k \<in> set ks. over lo k \<and> lo \<noteq> Some k \<and> under hi k) \<and> length cs = Suc (length ks) \<and>
     (\<forall>k \<in> set ks. length k \<le> key_cap) \<and>
     (\<exists>b. holds crc s no b \<and> node_image crc tid no (hd cs) (zip ks (tl cs)) b \<and> page_wf b \<and> tidy b)"

fun seps :: "tree \<Rightarrow> bytes list" where
  "seps (TLeaf no es) = []"
| "seps (TNode no t0 kts) = map fst kts"

function (sequential) live :: "crc_fn \<Rightarrow> pool \<Rightarrow> u16 \<Rightarrow> bytes option \<Rightarrow> bytes option \<Rightarrow> tree \<Rightarrow> bool" where
  "live crc s tid lo hi (TLeaf no es) \<longleftrightarrow> leaf_live crc s tid lo hi no es"
| "live crc s tid lo hi (TNode no t0 kts) \<longleftrightarrow>
     node_live crc s tid lo hi no (map page_of (t0 # map snd kts)) (map fst kts) \<and>
     (\<forall>j < Suc (length kts). live crc s tid (fence_lo lo (map fst kts) j) (fence_hi hi (map fst kts) j) ((t0 # map snd kts) ! j))"
  by pat_completeness auto
termination
proof (relation "measure (\<lambda>(crc, s, tid, lo, hi, t). size t)", goal_cases)
  case (2 crc s tid lo hi no t0 kts j)
  then show ?case
  proof (cases j)
    case (Suc i)
    then have "kts ! i \<in> set kts" using 2 by simp
    then have "size (snd (kts ! i)) \<le> size_list (size_prod (\<lambda>_. 0) size) kts"
      by (intro size_list_estimation') (auto simp: size_prod_simp split: prod.splits)
    then show ?thesis using Suc 2 by simp
  qed simp
qed simp

lemma fence_children: "fence_lo lo (seps (TNode no t0 kts)) = fence_lo lo (map fst kts)" "fence_hi hi (seps (TNode no t0 kts)) = fence_hi hi (map fst kts)"
  by simp_all

lemma live_node:
  "live crc s tid lo hi n \<and> children n \<noteq> [] \<longleftrightarrow>
     node_live crc s tid lo hi (page_of n) (map page_of (children n)) (seps n) \<and> children n \<noteq> [] \<and>
     (\<forall>j < length (children n). live crc s tid (fence_lo lo (seps n) j) (fence_hi hi (seps n) j) (children n ! j))"
  by (cases n) auto

lemma length_children: "children n \<noteq> [] \<Longrightarrow> length (children n) = Suc (length (seps n))"
  by (cases n) auto

text \<open>Keys stay between the fences, so the tree is stored and ordered in the sense of the readers.\<close>

lemma fence_lo_over:
  assumes "over (fence_lo lo ks j) k" "\<forall>k \<in> set ks. over lo k" "j \<le> length ks"
  shows "over lo k"
proof (cases j)
  case (Suc i)
  then have "ks ! i \<le> k" "over lo (ks ! i)" using assms by (simp_all add: fence_lo_def over_def)
  then show ?thesis by (cases lo) (auto simp: over_def)
qed (use assms in \<open>simp add: fence_lo_def\<close>)

lemma fence_hi_under:
  assumes "under (fence_hi hi ks j) k" "\<forall>k \<in> set ks. under hi k"
  shows "under hi k"
  using assms by (cases hi) (auto simp: fence_hi_def under_def split: if_splits intro: less_trans)

lemma live_keys:
  "live crc s tid lo hi t \<Longrightarrow> x \<in> tree_keys t \<Longrightarrow> over lo x \<and> under hi x"
proof (induction crc s tid lo hi t arbitrary: x rule: live.induct)
  case (1 crc s tid lo hi no es)
  then show ?case by (auto simp: leaf_live_def)
next
  case (2 crc s tid lo hi no t0 kts)
  let ?cs = "t0 # map snd kts"
  have "x \<in> fst ` set (concat (map tree_entries ?cs))"
    using 2(3) entries_children [of "TNode no t0 kts"] by (simp only: children.simps) (metis list.discI)
  then obtain c where "c \<in> set ?cs" "x \<in> tree_keys c" by auto
  then obtain j where j: "j < Suc (length kts)" "x \<in> tree_keys (?cs ! j)" by (metis in_set_conv_nth length_Cons length_map)
  then have "over (fence_lo lo (map fst kts) j) x \<and> under (fence_hi hi (map fst kts) j) x" using 2(1) [OF j(1)] 2(2) by simp
  moreover have "\<forall>k \<in> set (map fst kts). over lo k \<and> under hi k" using 2(2) by (auto simp: node_live_def)
  ultimately show ?case using fence_lo_over [of lo "map fst kts" j x] fence_hi_under [of hi "map fst kts" j x] j(1) by auto
qed

lemma node_kids_zip: "node_kids kts = zip (map fst kts) (map page_of (map snd kts))"
  by (induction kts) (auto simp: node_kids_def)

lemma live_stored: "live crc s tid lo hi t \<Longrightarrow> tree_stored crc s tid t"
proof (induction crc s tid lo hi t rule: live.induct)
  case (1 crc s tid lo hi no es)
  then have ll: "leaf_live crc s tid lo hi no es" by simp
  then have "0 < no \<and> no \<notin> available s \<and> no \<le> u32_max" by (auto simp: leaf_live_def own_page_no_def)
  then show ?case using ll unfolding leaf_live_def tree_stored.simps by blast
next
  case (2 crc s tid lo hi no t0 kts)
  have a: "live crc s tid (fence_lo lo (map fst kts) j) (fence_hi hi (map fst kts) j) ((t0 # map snd kts) ! j)" if "j < Suc (length kts)" for j
    using 2(2) that by (simp only: live.simps)
  note c = 2(1) [OF _ a]
  have "tree_stored crc s tid t" if kt: "(k, t) \<in> set kts" for k t
  proof -
    obtain i where i: "i < length kts" "kts ! i = (k, t)" using kt by (metis in_set_conv_nth)
    then show ?thesis using c [of "Suc i"] by simp
  qed
  then have ch: "\<forall>(k, t) \<in> set kts. tree_stored crc s tid t" by blast
  have t0: "tree_stored crc s tid t0" using c [of 0] by simp
  have nl: "node_live crc s tid lo hi no (page_of t0 # map page_of (map snd kts)) (map fst kts)"
    using 2(2) by (simp only: live.simps list.map)
  obtain b where b: "holds crc s no b" "node_image crc tid no (page_of t0) (node_kids kts) b"
    using nl unfolding node_live_def node_kids_zip list.sel by blast
  have "0 < no \<and> no \<notin> available s \<and> no \<le> u32_max" using nl by (auto simp: node_live_def own_page_no_def)
  then show ?case unfolding tree_stored.simps using b ch t0 by blast
qed

lemma live_ordered: "live crc s tid lo hi t \<Longrightarrow> tree_ordered t"
proof (induction crc s tid lo hi t rule: live.induct)
  case (1 crc s tid lo hi no es)
  then show ?case by (simp add: leaf_live_def)
next
  case (2 crc s tid lo hi no t0 kts)
  let ?ks = "map fst kts"
  have c: "live crc s tid (fence_lo lo ?ks j) (fence_hi hi ?ks j) ((t0 # map snd kts) ! j)" if "j < Suc (length kts)" for j
    using 2(2) that by simp
  have srt: "sorted_wrt (<) ?ks" using 2(2) by (simp add: node_live_def)
  have below0: "x < fst (kts ! i)" if "x \<in> tree_keys t0" "i < length kts" for x i
  proof -
    have "under (fence_hi hi ?ks 0) x" using live_keys [OF c [of 0]] that(1) by simp
    then have "x < ?ks ! 0" using that(2) by (cases kts) (simp_all add: fence_hi_def under_def)
    also have "?ks ! 0 \<le> ?ks ! i" using sorted_wrt_nth_less [OF srt, of 0 i] that(2) by (cases "i = 0") simp_all
    finally show ?thesis using that by simp
  qed
  have mid: "fst (kts ! i) \<le> x" "i < j \<Longrightarrow> j < length kts \<Longrightarrow> x < fst (kts ! j)" if "x \<in> tree_keys (snd (kts ! i))" "i < length kts" for x i j
  proof -
    have b: "over (fence_lo lo ?ks (Suc i)) x \<and> under (fence_hi hi ?ks (Suc i)) x" using live_keys [OF c [of "Suc i"]] that by simp
    then show "fst (kts ! i) \<le> x" using that by (simp add: fence_lo_def over_def)
    assume j: "i < j" "j < length kts"
    then have "x < ?ks ! Suc i" using b by (simp add: fence_hi_def under_def)
    also have "?ks ! Suc i \<le> ?ks ! j" using srt j by (cases "Suc i = j") (auto simp: sorted_wrt_iff_nth_less intro: less_imp_le)
    finally show "x < fst (kts ! j)" using j by simp
  qed
  have ord: "tree_ordered ((t0 # map snd kts) ! j)" if "j < Suc (length kts)" for j using 2 that by simp
  have "tree_ordered t \<and> (\<forall>x \<in> tree_keys t. k \<le> x) \<and> (\<forall>x \<in> tree_keys t0. x < k)" if kt: "(k, t) \<in> set kts" for k t
  proof -
    obtain i where i: "i < length kts" "kts ! i = (k, t)" using kt by (metis in_set_conv_nth)
    then show ?thesis using ord [of "Suc i"] mid(1) [of _ i] below0 [of _ i] by auto
  qed
  moreover have "sorted_wrt (\<lambda>(k, t) (k', t'). k < k' \<and> (\<forall>x \<in> tree_keys t. x < k')) kts"
    unfolding sorted_wrt_iff_nth_less
  proof (intro allI impI)
    fix i j assume ij: "i < j" "j < length kts"
    then have "fst (kts ! i) < fst (kts ! j)" using srt by (simp add: sorted_wrt_iff_nth_less)
    then show "(\<lambda>(k, t) (k', t'). k < k' \<and> (\<forall>x \<in> tree_keys t. x < k')) (kts ! i) (kts ! j)"
      using mid(2) [of _ i j] ij by (auto simp: case_prod_beta)
  qed
  ultimately show ?case using ord [of 0] by auto
qed

section \<open>Leaves of a tree\<close>

section \<open>Pages of a tree\<close>

fun tree_pages :: "tree \<Rightarrow> nat list" where
  "tree_pages (TLeaf no es) = no # concat (map (\<lambda>e. snd (snd e)) es)"
| "tree_pages (TNode no t0 kts) = no # tree_pages t0 @ concat (map (\<lambda>(k, t). tree_pages t) kts)"

lemma tree_pages_children: "children n \<noteq> [] \<Longrightarrow> tree_pages n = page_of n # concat (map tree_pages (children n))"
  by (cases n) (auto simp: comp_def case_prod_beta intro: arg_cong [of _ _ concat])

lemma page_of_in_pages: "page_of t \<in> set (tree_pages t)"
  by (cases t) simp_all

lemma leaf_image_pages:
  assumes "leaf_image crc s tid no es b" "p \<in> set (concat (map (\<lambda>e. snd (snd e)) es))"
  shows "p \<notin> available s"
proof -
  obtain e where e: "e \<in> set es" "p \<in> set (snd (snd e))" using assms(2) by auto
  then obtain rec where "cell_holds crc s no rec e"
    using assms(1) by (fastforce simp: leaf_image_def list_all2_conv_all_nth in_set_conv_nth)
  then show ?thesis using e(2) by (cases e) (auto simp: cell_holds_def spilled_def)
qed

lemma live_unavailable: "live crc s tid lo hi t \<Longrightarrow> set (tree_pages t) \<inter> available s = {}"
proof (induction crc s tid lo hi t rule: live.induct)
  case (1 crc s tid lo hi no es)
  then obtain b where "leaf_image crc s tid no es b" "no \<notin> available s" by (auto simp: leaf_live_def own_page_no_def)
  then have "p \<notin> available s" if "p \<in> set (tree_pages (TLeaf no es))" for p using leaf_image_pages that by (cases "p = no") simp_all
  then show ?case by blast
next
  case (2 crc s tid lo hi no t0 kts)
  have c: "set (tree_pages ((t0 # map snd kts) ! j)) \<inter> available s = {}" if "j < Suc (length kts)" for j using 2 that by simp
  have "set (tree_pages d) \<inter> available s = {}" if "d \<in> set (t0 # map snd kts)" for d
    using that c by (metis in_set_conv_nth length_Cons length_map)
  moreover have "no \<notin> available s" using 2(2) by (simp add: node_live_def own_page_no_def)
  ultimately show ?case using tree_pages_children [of "TNode no t0 kts"] by auto
qed

text \<open>A change elsewhere keeps a tree live.\<close>

lemma cell_holds_evolves:
  assumes "cell_holds crc s no rec e" "evolves crc s t D c" "set (snd (snd e)) \<inter> D = {}"
  shows "cell_holds crc t no rec e"
proof -
  have "spilled crc t marker v ps" if "spilled crc s marker v ps" "set ps \<inter> D = {}" for marker v ps
  proof (rule spilled_frame [OF that(1)])
    have ps: "set ps \<inter> available s = {}" using that(1) by (simp add: spilled_def)
    show "holds crc t p d" if "p \<in> set ps" "holds crc s p d" for p d
      using that ps \<open>set ps \<inter> D = {}\<close> assms(2) unfolding evolves_def by blast
    show "set ps \<inter> available t = {}" using ps that(2) assms(2) unfolding evolves_def by blast
    show "next_page s \<le> next_page t" "limits t = limits s" using assms(2) unfolding evolves_def by blast+
  qed
  then show ?thesis using assms(1,3) by (cases e) (auto simp: cell_holds_def)
qed

lemma own_page_no_evolves: "own_page_no s no \<Longrightarrow> evolves crc s t D c \<Longrightarrow> no \<notin> D \<Longrightarrow> own_page_no t no"
  unfolding own_page_no_def evolves_def by blast

lemma leaf_image_evolves:
  assumes "leaf_image crc s tid no es b" "evolves crc s t D c" "set (concat (map (\<lambda>e. snd (snd e)) es)) \<inter> D = {}"
  shows "leaf_image crc t tid no es b"
proof -
  have "cell_holds crc t no rec e" if "cell_holds crc s no rec e" "e \<in> set es" for rec e
    using cell_holds_evolves [OF that(1) assms(2)] that(2) assms(3) by auto
  then show ?thesis using assms(1) unfolding leaf_image_def by (auto elim!: list.rel_mono_strong)
qed

lemma leaf_live_evolves:
  assumes "leaf_live crc s tid lo hi no es" "evolves crc s t D c" "set (tree_pages (TLeaf no es)) \<inter> D = {}"
  shows "leaf_live crc t tid lo hi no es"
proof -
  obtain b where b: "holds crc s no b" "leaf_image crc s tid no es b" "page_wf b" "page_next_leaf b = 0 \<longrightarrow> hi = None"
    and own: "own_page_no s no" using assms(1) by (auto simp: leaf_live_def)
  have "no \<notin> D" "no \<notin> available s" using assms(3) own by (auto simp: own_page_no_def)
  then have "holds crc t no b" "own_page_no t no" using b(1) assms(2) own_page_no_evolves [OF own assms(2)] unfolding evolves_def by blast+
  moreover have "leaf_image crc t tid no es b" using leaf_image_evolves [OF b(2) assms(2)] assms(3) by auto
  ultimately show ?thesis using assms(1) b unfolding leaf_live_def by blast
qed

lemma node_live_evolves:
  assumes "node_live crc s tid lo hi no cs ks" "evolves crc s t D c" "no \<notin> D"
  shows "node_live crc t tid lo hi no cs ks"
proof -
  obtain b where b: "holds crc s no b" "node_image crc tid no (hd cs) (zip ks (tl cs)) b" "page_wf b" "tidy b"
    and own: "own_page_no s no" using assms(1) by (auto simp: node_live_def)
  have "holds crc t no b" using b(1) own assms(2,3) unfolding evolves_def own_page_no_def by blast
  then show ?thesis using assms(1) b own_page_no_evolves [OF own assms(2,3)] unfolding node_live_def by blast
qed

lemma live_evolves:
  assumes "live crc s tid lo hi a" "evolves crc s t D c" "set (tree_pages a) \<inter> D = {}"
  shows "live crc t tid lo hi a"
  using assms
proof (induction crc s tid lo hi a rule: live.induct)
  case (1 crc s tid lo hi no es)
  then show ?case using leaf_live_evolves by simp
next
  case (2 crc s tid lo hi no t0 kts)
  have pg: "set (tree_pages (TNode no t0 kts)) = insert no (\<Union> (set ` tree_pages ` set (t0 # map snd kts)))"
    using tree_pages_children [of "TNode no t0 kts"] by auto
  have "set (tree_pages ((t0 # map snd kts) ! j)) \<inter> D = {}" if "j < Suc (length kts)" for j
  proof -
    have "(t0 # map snd kts) ! j \<in> set (t0 # map snd kts)" using that by (intro nth_mem) simp
    then show ?thesis using 2(4) pg by blast
  qed
  then show ?case using 2 node_live_evolves [OF _ 2(3)] pg by simp
qed

section \<open>Contexts\<close>

text \<open>The nodes above a subtree, innermost first, with the child the subtree takes in each.\<close>

type_synonym tcontext = "(tree \<times> nat) list"

fun set_child :: "tree \<Rightarrow> nat \<Rightarrow> tree \<Rightarrow> tree" where
  "set_child (TNode no t0 kts) 0 c = TNode no c kts"
| "set_child (TNode no t0 kts) (Suc j) c = TNode no t0 (kts[j := (fst (kts ! j), c)])"
| "set_child (TLeaf no es) i c = TLeaf no es"

lemma set_child_facts [simp]:
  "children (set_child n i c) = (children n)[i := c]" "seps (set_child n i c) = seps n" "page_of (set_child n i c) = page_of n"
proof -
  have "map fst (kts[j := (fst (kts ! j), c)]) = map fst kts" for j and kts :: "(bytes \<times> tree) list"
    by (simp add: map_update) (metis length_map list_update_beyond list_update_id not_le nth_map)
  then show "children (set_child n i c) = (children n)[i := c]" "seps (set_child n i c) = seps n" "page_of (set_child n i c) = page_of n"
    by (cases n; cases i; simp add: map_update)+
qed

fun plug :: "tcontext \<Rightarrow> tree \<Rightarrow> tree" where
  "plug [] t = t"
| "plug ((n, i) # z) t = plug z (set_child n i t)"

fun hole_lo :: "tcontext \<Rightarrow> bytes option" where
  "hole_lo [] = None"
| "hole_lo ((n, i) # z) = fence_lo (hole_lo z) (seps n) i"

fun hole_hi :: "tcontext \<Rightarrow> bytes option" where
  "hole_hi [] = None"
| "hole_hi ((n, i) # z) = fence_hi (hole_hi z) (seps n) i"

text \<open>A node with page \<open>p\<close> in place of its child \<open>i\<close>, the other children live.\<close>

definition frame_live :: "crc_fn \<Rightarrow> pool \<Rightarrow> u16 \<Rightarrow> bytes option \<Rightarrow> bytes option \<Rightarrow> tree \<Rightarrow> nat \<Rightarrow> nat \<Rightarrow> bool" where
  "frame_live crc s tid lo hi n i p \<longleftrightarrow>
     i < length (children n) \<and> node_live crc s tid lo hi (page_of n) ((map page_of (children n))[i := p]) (seps n) \<and>
     (\<forall>j < length (children n). j \<noteq> i \<longrightarrow> live crc s tid (fence_lo lo (seps n) j) (fence_hi hi (seps n) j) (children n ! j))"

fun ctx_live :: "crc_fn \<Rightarrow> pool \<Rightarrow> u16 \<Rightarrow> tcontext \<Rightarrow> nat \<Rightarrow> bool" where
  "ctx_live crc s tid [] p \<longleftrightarrow> True"
| "ctx_live crc s tid ((n, i) # z) p \<longleftrightarrow> frame_live crc s tid (hole_lo z) (hole_hi z) n i p \<and> ctx_live crc s tid z (page_of n)"

definition ctx_pages :: "tcontext \<Rightarrow> nat list" where
  "ctx_pages z = concat (map (\<lambda>(n, i). page_of n # concat (map tree_pages (take i (children n) @ drop (Suc i) (children n)))) z)"

lemma ctx_pages_simps [simp]:
  "ctx_pages [] = []"
  "ctx_pages ((n, i) # z) = page_of n # concat (map tree_pages (take i (children n) @ drop (Suc i) (children n))) @ ctx_pages z"
  by (simp_all add: ctx_pages_def)

fun ctx_left :: "tcontext \<Rightarrow> (bytes \<times> bytes) list" where
  "ctx_left [] = []"
| "ctx_left ((n, i) # z) = ctx_left z @ concat (map tree_entries (take i (children n)))"

fun ctx_right :: "tcontext \<Rightarrow> (bytes \<times> bytes) list" where
  "ctx_right [] = []"
| "ctx_right ((n, i) # z) = concat (map tree_entries (drop (Suc i) (children n))) @ ctx_right z"

lemma live_childI:
  assumes "frame_live crc s tid lo hi n i (page_of c)" "live crc s tid (fence_lo lo (seps n) i) (fence_hi hi (seps n) i) c"
  shows "live crc s tid lo hi (set_child n i c)"
proof -
  have i: "i < length (children n)" using assms(1) by (simp add: frame_live_def)
  have "live crc s tid (fence_lo lo (seps n) j) (fence_hi hi (seps n) j) ((children n)[i := c] ! j)" if "j < length (children n)" for j
    using assms that i by (cases "j = i") (simp_all add: frame_live_def)
  moreover have "node_live crc s tid lo hi (page_of n) (map page_of ((children n)[i := c])) (seps n)"
    using assms(1) by (simp add: frame_live_def map_update)
  moreover have "(children n)[i := c] \<noteq> []" using i by auto
  ultimately show ?thesis using live_node [of crc s tid lo hi "set_child n i c"] i by simp
qed

lemma enter_child:
  assumes "live crc s tid lo hi n" "i < length (children n)"
  shows "frame_live crc s tid lo hi n i (page_of (children n ! i))"
    "live crc s tid (fence_lo lo (seps n) i) (fence_hi hi (seps n) i) (children n ! i)"
proof -
  have "children n \<noteq> []" using assms(2) by auto
  then have n: "node_live crc s tid lo hi (page_of n) (map page_of (children n)) (seps n)"
      "\<forall>j < length (children n). live crc s tid (fence_lo lo (seps n) j) (fence_hi hi (seps n) j) (children n ! j)"
    using live_node [of crc s tid lo hi n] assms(1) by blast+
  have "(map page_of (children n))[i := page_of (children n ! i)] = map page_of (children n)"
    by (metis assms(2) list_update_id nth_map)
  then show "frame_live crc s tid lo hi n i (page_of (children n ! i))" using n assms(2) by (simp add: frame_live_def)
  show "live crc s tid (fence_lo lo (seps n) i) (fence_hi hi (seps n) i) (children n ! i)" using n(2) assms(2) by blast
qed

lemma plug_live:
  "ctx_live crc s tid z (page_of l) \<Longrightarrow> live crc s tid (hole_lo z) (hole_hi z) l \<Longrightarrow> live crc s tid None None (plug z l)"
proof (induction z arbitrary: l)
  case (Cons x z)
  obtain n i where x: "x = (n, i)" by (cases x)
  have "live crc s tid (hole_lo z) (hole_hi z) (set_child n i l)" using Cons.prems by (intro live_childI) (simp_all add: x)
  then show ?case using Cons by (simp add: x)
qed simp

lemma child_split: "i < length xs \<Longrightarrow> xs[i := c] = take i xs @ c # drop (Suc i) xs"
  by (rule upd_conv_take_nth_drop)

lemma plug_entries:
  "ctx_live crc s tid z p \<Longrightarrow> tree_entries (plug z l) = ctx_left z @ tree_entries l @ ctx_right z"
proof (induction z arbitrary: l p)
  case (Cons x z)
  obtain n i where x: "x = (n, i)" by (cases x)
  have i: "i < length (children n)" using Cons.prems by (simp add: x frame_live_def)
  then have "children (set_child n i l) \<noteq> []" by auto
  then have "tree_entries (set_child n i l) =
      concat (map tree_entries (take i (children n))) @ tree_entries l @ concat (map tree_entries (drop (Suc i) (children n)))"
    using entries_children [of "set_child n i l"] i by (simp add: child_split)
  then show ?case using Cons.IH [of "page_of n" "set_child n i l"] Cons.prems by (simp add: x)
qed simp

lemma plug_pages:
  "ctx_live crc s tid z p \<Longrightarrow> mset (tree_pages (plug z l)) = mset (ctx_pages z) + mset (tree_pages l)"
proof (induction z arbitrary: l p)
  case (Cons x z)
  obtain n i where x: "x = (n, i)" by (cases x)
  have i: "i < length (children n)" using Cons.prems by (simp add: x frame_live_def)
  then have "children (set_child n i l) \<noteq> []" by auto
  then have "mset (tree_pages (set_child n i l)) =
      mset (page_of n # concat (map tree_pages (take i (children n) @ drop (Suc i) (children n)))) + mset (tree_pages l)"
    using tree_pages_children [of "set_child n i l"] i by (simp add: child_split)
  then show ?case using Cons.IH [of "page_of n" "set_child n i l"] Cons.prems by (simp add: x)
qed simp

lemma ctx_live_evolves:
  assumes "ctx_live crc s tid z p" "evolves crc s t D c" "set (ctx_pages z) \<inter> D = {}"
  shows "ctx_live crc t tid z p"
  using assms(1,3)
proof (induction z arbitrary: p)
  case (Cons x z)
  obtain n i where x: "x = (n, i)" by (cases x)
  have fr: "frame_live crc s tid (hole_lo z) (hole_hi z) n i p" using Cons.prems(1) by (simp add: x)
  have nd: "page_of n \<notin> D" using Cons.prems(2) by (simp add: x)
  have "live crc t tid (fence_lo lo (seps n) j) (fence_hi hi (seps n) j) (children n ! j)"
    if "j < length (children n)" "j \<noteq> i" "live crc s tid (fence_lo lo (seps n) j) (fence_hi hi (seps n) j) (children n ! j)" for j lo hi
  proof -
    have "children n ! j \<in> set (take i (children n) @ drop (Suc i) (children n))"
    proof (cases "j < i")
      case True
      then show ?thesis using that(1) by (auto simp: in_set_conv_nth)
    next
      case False
      then have "drop (Suc i) (children n) ! (j - Suc i) = children n ! j" "j - Suc i < length (drop (Suc i) (children n))"
        using that(1,2) by auto
      then show ?thesis by (metis Un_iff nth_mem set_append)
    qed
    then have "set (tree_pages (children n ! j)) \<inter> D = {}" using Cons.prems(2) by (auto simp: x)
    then show ?thesis using live_evolves [OF that(3) assms(2)] by blast
  qed
  then have "frame_live crc t tid (hole_lo z) (hole_hi z) n i p"
    using fr node_live_evolves [OF _ assms(2) nd] by (simp add: frame_live_def)
  moreover have "ctx_live crc t tid z (page_of n)" using Cons.IH Cons.prems by (auto simp: x)
  ultimately show ?case by (simp add: x)
qed simp

lemma ctx_unavailable:
  assumes "ctx_live crc s tid z p"
  shows "set (ctx_pages z) \<inter> available s = {}"
  using assms
proof (induction z arbitrary: p)
  case (Cons x z)
  obtain n i where x: "x = (n, i)" by (cases x)
  have fr: "frame_live crc s tid (hole_lo z) (hole_hi z) n i p" using Cons.prems by (simp add: x)
  have "set (tree_pages c) \<inter> available s = {}" if mem: "c \<in> set (take i (children n) @ drop (Suc i) (children n))" for c
  proof -
    obtain j where "j < length (children n)" "j \<noteq> i" "c = children n ! j"
    proof -
      consider "c \<in> set (take i (children n))" | "c \<in> set (drop (Suc i) (children n))" using mem by auto
      then show thesis
      proof cases
        case 1
        then obtain j where "j < length (take i (children n))" "take i (children n) ! j = c" by (metis in_set_conv_nth)
        then show thesis by (intro that [of j]) auto
      next
        case 2
        then obtain j where "j < length (drop (Suc i) (children n))" "drop (Suc i) (children n) ! j = c" by (metis in_set_conv_nth)
        then show thesis by (intro that [of "Suc i + j"]) auto
      qed
    qed
    then show ?thesis using fr live_unavailable unfolding frame_live_def by blast
  qed
  moreover have "page_of n \<notin> available s" using fr by (simp add: frame_live_def node_live_def own_page_no_def)
  moreover have "set (ctx_pages z) \<inter> available s = {}" using Cons.IH [of "page_of n"] Cons.prems by (simp add: x)
  ultimately show ?case by (auto simp: x)
qed simp

end
