(* ===== verification/Btree_Steps.thy ===== *)
theory Btree_Steps
  imports Btree_Live
begin

text \<open>
  The page-level steps of a write on a live tree: editing a page, taking one, retiring one, copying
  a page to a fresh number and pointing its parent at the copy. Each either succeeds, with its
  effect confined to the pages named, or is refused; with page numbers in plenty it succeeds.
\<close>

definition refused :: "'s \<times> 'a kresult \<Rightarrow> bool" where
  "refused x \<longleftrightarrow> \<not> is_ok (snd x)"

lemma refused_simps [simp]: "\<not> refused (s, Ok a)" "refused (s, Err e)" "refused (s, Panic)"
  by (simp_all add: refused_def)

lemma refused_then: "refused x \<Longrightarrow> refused (then_do x f)"
  by (cases x; cases "snd x") (auto simp: refused_def)

lemma refused_drop: "refused x \<Longrightarrow> refused (drop_after i x)"
  by (cases x) (auto simp: refused_def drop_after_def split: outcome.splits)

lemma not_refused: "\<not> refused x \<longleftrightarrow> (\<exists>s a. x = (s, Ok a))"
  by (cases x; cases "snd x") (auto simp: refused_def)

section \<open>Editing\<close>

lemma with_edit_idle:
  assumes "idle crc s" "alloc_ready s" "holds crc s no b" "\<not> is_frozen s no"
    and "\<And>b'. page_ok crc no b' \<Longrightarrow> page_body b' = page_body b \<Longrightarrow> \<exists>c. f b' = Ok c \<and> page_ok crc no c \<and> Q c"
  obtains s' c where "with_edit crc s no f = (s', Ok ())" "idle crc s'" "evolves crc s s' {no} 0" "holds crc s' no c" "Q c"
    "reuse.truncate s' = reuse.truncate s"
proof -
  have g: "guarded crc s []" "length [] < length (frames s)" using assms(1) by (simp_all add: idle_guarded)
  let ?k = "\<lambda>b. case f b of Ok c \<Rightarrow> (c, Ok ()) | Err e \<Rightarrow> (b, Err e) | Panic \<Rightarrow> (b, Panic)"
  have k: "\<exists>c. ?k b' = (c, Ok ()) \<and> page_ok crc no c \<and> Q c" if "page_ok crc no b'" "page_body b' = page_body b" for b'
    using assms(5) [OF that] by auto
  obtain b' c s' where w: "with_write crc s no ?k = (s', Ok ())" "Q c" "guarded crc s' []" "holds crc s' no c"
      "\<And>m d. m \<noteq> no \<Longrightarrow> holds crc s m d \<Longrightarrow> holds crc s' m d" "length (frames s') = length (frames s)"
      "reuse.truncate s' = reuse.truncate s" "\<And>n. extent_within n s \<Longrightarrow> extent_within n s'"
    by (rule with_write_guarded [OF g _ assms(3,4), of ?k "\<lambda>_. Ok ()" "\<lambda>_ c. Q c"]) (use k in simp_all)
  have "evolves crc s s' {no} 0" using w(5) by (intro evolves_truncate [OF assms(2) w(7,8,6)]) auto
  moreover have "idle crc s'" using w(3,6) g(2) by (auto simp: idle_guarded)
  ultimately show thesis using that w by (simp add: with_edit_def)
qed

text \<open>A write guard edited in place.\<close>

lemma edit_frame_guarded:
  assumes "guarded crc s ((g, no, b) # gs)" "alloc_ready s" "f b = Ok (c, x)" "page_ok crc no c"
  obtains s' where "edit_frame s g f = (s', Ok x)" "guarded crc s' ((g, no, c) # gs)" "evolves crc s s' {no} 0"
    "reuse.truncate s' = reuse.truncate s" "holds crc s' no c"
proof -
  have r: "region s ! g = b" using assms(1) by (simp add: guarded_def)
  note e = edit_guarded [OF assms(1,4)]
  have "evolves crc s (bytes_mut s g c) {no} 0"
    using e(3) by (intro evolves_truncate [OF assms(2) e(5) _ e(4)]) (auto intro: e(6))
  then show thesis using that [of "bytes_mut s g c"] assms(3) r e(1,2,5) by (simp add: edit_frame_def)
qed

lemma drop_after_guarded:
  assumes "guarded crc s ((g, no, b) # gs)" "alloc_ready s"
  obtains s' where "drop_after g (s, r) = (s', r)" "guarded crc s' gs" "evolves crc s s' {} 0" "reuse.truncate s' = reuse.truncate s"
    "\<And>m c. holds crc s m c \<longleftrightarrow> holds crc s' m c"
proof -
  obtain s' where s': "unpin s g True = Ok s'" "guarded crc s' gs" "length (frames s') = length (frames s)"
      "reuse.truncate s' = reuse.truncate s" "\<And>m c. holds crc s m c \<longleftrightarrow> holds crc s' m c" "\<And>n. extent_within n s \<Longrightarrow> extent_within n s'"
    by (rule unpin_guarded [OF assms(1)]) blast
  have "evolves crc s s' {} 0" using s'(5) by (intro evolves_truncate [OF assms(2) s'(4,6,3)]) auto
  then show thesis using that s' by (simp add: drop_after_def)
qed

section \<open>Taking a page\<close>

lemma allocated_evolves: "allocated_from crc s t no \<Longrightarrow> length (frames t) = length (frames s) \<Longrightarrow> evolves crc s t {} 1"
  unfolding allocated_from_def evolves_def by (auto simp: max_def)

lemma allocate_step:
  assumes "guarded crc s gs" "alloc_ready s" "set (guard_pages gs) \<inter> available s = {}" "length gs < length (frames s)"
  shows "(\<exists>t i no e. allocate crc debug s = (t, Ok (i, no)) \<and> guarded crc t ((i, no, e) # gs) \<and> evolves crc s t {} 1 \<and>
      no \<in> available s \<and> own_page_no t no \<and> \<not> is_frozen t no \<and> no < u32_max \<and> available t = available s - {no}) \<or>
    \<not> plenty s 1 \<and> refused (allocate crc debug s)"
proof (cases "refused (allocate crc debug s)")
  case False
  then obtain t i no where a: "allocate crc debug s = (t, Ok (i, no))" by (auto simp: not_refused)
  obtain e where e: "guarded crc t ((i, no, e) # gs)" "allocated_from crc s t no" "length (frames t) = length (frames s)"
    by (rule allocate_guarded [OF assms(1-3) a])
  then show ?thesis using a allocated_evolves [OF e(2,3)] available_past_superblocks [OF assms(2)] by (auto simp: allocated_from_def own_page_no_def)
next
  case True
  then have "\<not> plenty s 1" using allocate_total(2) [OF assms(1-3), of debug] assms(4) by (auto simp: plenty_def)
  then show ?thesis using True by blast
qed

lemma with_alloc_step:
  assumes "guarded crc s gs" "alloc_ready s" "set (guard_pages gs) \<inter> available s = {}" "length gs < length (frames s)"
    and "\<And>no. no \<in> available s \<Longrightarrow> no < u32_max \<Longrightarrow> 0 < no \<Longrightarrow> \<exists>c. f no = Ok c \<and> page_ok crc no c \<and> Q no c"
  shows "(\<exists>t no c. with_alloc crc debug s f = (t, Ok no) \<and> guarded crc t gs \<and> evolves crc s t {} 1 \<and> no \<in> available s \<and>
      own_page_no t no \<and> \<not> is_frozen t no \<and> no < u32_max \<and> holds crc t no c \<and> Q no c) \<or>
    \<not> plenty s 1 \<and> refused (with_alloc crc debug s f)"
proof -
  consider (ok) t i no e where "allocate crc debug s = (t, Ok (i, no))" "guarded crc t ((i, no, e) # gs)" "evolves crc s t {} 1"
      "no \<in> available s" "own_page_no t no" "\<not> is_frozen t no" "no < u32_max"
    | (no) "\<not> plenty s 1" "refused (allocate crc debug s)"
    using allocate_step [OF assms(1-4), of debug] by blast
  then show ?thesis
  proof cases
    case ok
    obtain c where c: "f no = Ok c" "page_ok crc no c" "Q no c" using assms(5) ok(4,5,7) by (auto simp: own_page_no_def)
    have at: "alloc_ready t" using ok(3) by (simp add: evolves_def)
    obtain u where u: "edit_frame t i (\<lambda>_. obind (f no) (\<lambda>b. Ok (b, no))) = (u, Ok no)" "guarded crc u ((i, no, c) # gs)" "evolves crc t u {no} 0"
        "reuse.truncate u = reuse.truncate t" "holds crc u no c"
      by (rule edit_frame_guarded [OF ok(2) at, of "\<lambda>_. obind (f no) (\<lambda>b. Ok (b, no))" c no]) (use c in auto)
    have au: "alloc_ready u" using u(3) by (simp add: evolves_def)
    obtain v where v: "drop_after i (u, Ok no) = (v, Ok no)" "guarded crc v gs" "evolves crc u v {} 0" "reuse.truncate v = reuse.truncate u"
        "\<And>m c. holds crc u m c \<longleftrightarrow> holds crc v m c"
      by (rule drop_after_guarded [OF u(2) au, of "Ok no"]) blast
    have ev: "evolves crc s v {} 1"
    proof -
      have "evolves crc s v {no} 1" using evolves_trans [OF evolves_trans [OF ok(3) u(3)] v(3)] by simp
      moreover have "no \<notin> available v" using ok(5) v(4) u(4) alloc_inv_truncate [of v t] by (simp add: own_page_no_def available_def)
      ultimately show ?thesis using ok(4) unfolding evolves_def by auto
    qed
    have tr: "reuse.truncate v = reuse.truncate t" using v(4) u(4) by simp
    have "own_page_no v no" using ok(5) alloc_inv_truncate [OF tr] by (simp add: own_page_no_def available_def)
    moreover have "\<not> is_frozen v no" using ok(6) truncate_frozen [OF tr] by simp
    moreover have "holds crc v no c" using u(5) v(5) by blast
    moreover have "with_alloc crc debug s f = (v, Ok no)" using ok(1) u(1) v(1) by (simp add: with_alloc_def)
    ultimately show ?thesis using v(2) ev ok(4,7) c(3) by blast
  next
    case no
    then show ?thesis by (simp add: with_alloc_def refused_then)
  qed
qed

section \<open>Retiring a page\<close>

lemma listed_extend: "mset (listed (bucket_extend g ps bs)) = mset (ps @ listed bs)"
  by (induction g ps bs rule: bucket_extend.induct) simp_all

lemma listed_extend_set: "set (listed (bucket_extend g ps bs)) = set ps \<union> set (listed bs)"
  using mset_eq_setD [OF listed_extend [of g ps bs]] by simp

lemma listed_extend_distinct: "distinct (listed (bucket_extend g ps bs)) \<longleftrightarrow> distinct (ps @ listed bs)"
  by (rule mset_eq_imp_distinct_iff [OF listed_extend])

lemma free_shadow_page_fields:
  fixes s :: "'a reuse_scheme"
  assumes "free_shadow_page s no birth = Ok t"
  obtains fr fc fb where "t = s\<lparr>free := fr, free_count := fc, free_birth := fb\<rparr>" "fr = free s \<or> fr = bucket_extend (stamp_gen s) [no] (free s)"
proof -
  obtain u where u: "free_page s no = Ok u" "t = (if birth > 0 \<and> birth \<le> stamp_gen u then u\<lparr>free_birth := (free_birth u)(no \<mapsto> birth)\<rparr> else u)"
    using assms unfolding free_shadow_page_def obind_Ok_iff by blast
  have "u = s \<or> u = s\<lparr>free := bucket_extend (stamp_gen s) [no] (free s), free_count := free_count s + 1\<rparr>"
    using u(1) unfolding free_page_def by (simp split: if_splits)
  then show thesis
  proof
    assume "u = s"
    then have "t = s\<lparr>free := free s, free_count := free_count s, free_birth := free_birth t\<rparr>" using u(2) by simp
    then show thesis by (rule that) simp
  next
    assume "u = s\<lparr>free := bucket_extend (stamp_gen s) [no] (free s), free_count := free_count s + 1\<rparr>"
    then have "t = s\<lparr>free := bucket_extend (stamp_gen s) [no] (free s), free_count := free_count s + 1, free_birth := free_birth t\<rparr>" using u(2) by simp
    then show thesis by (rule that) simp
  qed
qed

lemma retire_step:
  assumes "guarded crc s gs" "alloc_ready s" "own_page_no s no" "no \<notin> set (guard_pages gs)"
  shows "(\<exists>t. retire s no birth = (t, Ok ()) \<and> guarded crc t gs \<and> evolves crc s t {no} 0 \<and>
      available t \<subseteq> insert no (available s) \<and> (\<forall>m c. holds crc s m c \<longleftrightarrow> holds crc t m c) \<and> is_frozen t = is_frozen s) \<or>
    limits s \<noteq> None \<and> refused (retire s no birth)"
proof (cases "refused (retire s no birth)")
  case True
  have "\<not> refused (retire s no birth)" if "limits s = None"
  proof -
    have "\<exists>u. free_page s no = Ok u" by (cases "no < 2") (simp_all add: free_page_def that)
    then show ?thesis by (auto simp: retire_def free_shadow_page_def)
  qed
  then have "limits s \<noteq> None" using True by blast
  then show ?thesis using True by blast
next
  case False
  then obtain t where t: "retire s no birth = (t, Ok ())" by (auto simp: not_refused)
  then have "free_shadow_page s no birth = Ok t" by (auto simp: retire_def split: outcome.splits)
  then obtain fr fc fb where tt: "t = s\<lparr>free := fr, free_count := fc, free_birth := fb\<rparr>" and fr: "fr = free s \<or> fr = bucket_extend (stamp_gen s) [no] (free s)"
    by (rule free_shadow_page_fields)
  have fields: "frames t = frames s" "region t = region s" "table t = table s" "hand t = hand s" "live_pins t = live_pins s"
      "pool_file t = pool_file s" "next_page t = next_page s" "limits t = limits s" "frozen_boundary t = frozen_boundary s" "thawed t = thawed s"
      "free t = fr" by (simp_all add: tt)
  have fz: "is_frozen t = is_frozen s" by (simp add: is_frozen_def fun_eq_iff fields)
  have pv: "pool_view crc t = pool_view crc s" by (rule ext, rule pool_view_cong) (fact fields)+
  then have hv: "holds crc t = holds crc s" by (simp add: holds_def fun_eq_iff)
  have "pool_inv crc t" using assms(1) by (simp add: guarded_def pool_inv_def fields fz)
  moreover have "guard_ok crc t = guard_ok crc s"
  proof
    fix x show "guard_ok crc t x = guard_ok crc s x" by (cases x) (simp add: fields)
  qed
  ultimately have gt: "guarded crc t gs" using assms(1) by (simp add: guarded_def fields)
  have un: "no \<notin> set (listed (free s))" "no < next_page s" "no \<noteq> 0" "no \<noteq> 1" using assms(3) by (auto simp: own_page_no_def available_def)
  have fs: "set (listed fr) \<subseteq> insert no (set (listed (free s)))" "distinct (listed (free s)) \<Longrightarrow> distinct (listed fr)"
    using fr un(1) listed_extend_set [of "stamp_gen s" "[no]" "free s"] listed_extend_distinct [of "stamp_gen s" "[no]" "free s"]
    by (auto simp del: set_concat)
  have av: "available t \<subseteq> insert no (available s)" unfolding available_def fields using fs(1) by blast
  have "alloc_ready t"
    unfolding alloc_ready_def alloc_inv_def extent_within_def fields
    using assms(2) [unfolded alloc_ready_def alloc_inv_def extent_within_def] un fs by blast
  then have "evolves crc s t {no} 0" using av by (auto simp: evolves_def fields fz hv)
  then show ?thesis using t gt av hv fz by simp
qed

section \<open>Copying a page\<close>

lemma page_is_body:
  assumes "page_is no kind tid nxt b" "page_ok crc no c" "page_body c = page_body b"
  shows "page_is no kind tid nxt c" "page_slots c = page_slots b" "tidy c \<longleftrightarrow> tidy b" "free_space c = free_space b"
proof -
  note b = page_is_ok [OF assms(1)]
  note bs = body_slots [OF assms(2) b(1) assms(3)] and w = body_wf [OF b(1) assms(2) assms(3) [symmetric] b(5)]
  have "page_is no kind (page_tree_id c) (page_next_leaf c) c" by (rule page_ok_is [OF assms(2) w(1)]) (simp add: bs(2) b(2))
  then show "page_is no kind tid nxt c" using bs(3) w(4) b(3,4) by simp
  show "page_slots c = page_slots b" "tidy c \<longleftrightarrow> tidy b" "free_space c = free_space b" using bs(1) w by (simp_all add: tidy_def)
qed

lemma reads_only_evolves:
  assumes "alloc_ready s" "reads_only crc s t"
  shows "evolves crc s t {} 0"
  using assms(2) by (intro evolves_truncate [OF assms(1)]) (simp_all add: reads_only_def)

lemma evolves_ready: "evolves crc s t D c \<Longrightarrow> alloc_ready t"
  by (simp add: evolves_def)

lemma fresh_evolves: "evolves crc s t (insert no D) c \<Longrightarrow> no \<in> available s \<Longrightarrow> no \<notin> available t \<Longrightarrow> evolves crc s t D c"
  unfolding evolves_def by (intro conjI; (blast | linarith | auto)?)

lemma retire_total: "limits s = None \<Longrightarrow> \<not> refused (retire s no birth)"
proof -
  assume lim: "limits s = None"
  have "\<exists>u. free_page s no = Ok u" by (cases "no < 2") (simp_all add: free_page_def lim)
  then show ?thesis by (auto simp: retire_def free_shadow_page_def)
qed

lemma shadow_page_step:
  assumes "idle crc s" "alloc_ready s" "own_page_no s p" "holds crc s p b" "page_is p kind tid nxt b"
  shows "(\<exists>t no c. shadow_page crc debug s p = (t, Ok no) \<and> idle crc t \<and> evolves crc s t {p} 1 \<and> no \<in> available s \<and>
      own_page_no t no \<and> \<not> is_frozen t no \<and> no < u32_max \<and> holds crc t no c \<and> page_is no kind tid nxt c \<and>
      page_slots c = page_slots b \<and> (tidy c \<longleftrightarrow> tidy b)) \<or>
    \<not> plenty s 1 \<and> refused (shadow_page crc debug s p)"
proof -
  obtain s1 x where w: "with_read crc s p Ok = (s1, x)" by fastforce
  obtain b' where b': "x = Ok b'" "page_ok crc p b'" "page_body b' = page_body b" "reads_only crc s s1"
    by (rule with_read_idle [OF assms(1,4) w])
  note pb = page_is_body [OF assms(5) b'(2,3)]
  note e1 = reads_only_evolves [OF assms(2) b'(4)]
  have i1: "guarded crc s1 []" "frames s1 \<noteq> []" using reads_only_idle [OF b'(4)] by (simp_all add: idle_guarded)
  have av1: "available s1 = available s" by (rule reads_only_available [OF b'(4)])
  consider (ok) t i no e where "allocate crc debug s1 = (t, Ok (i, no))" "guarded crc t [(i, no, e)]" "evolves crc s1 t {} 1"
      "no \<in> available s1" "own_page_no t no" "\<not> is_frozen t no" "no < u32_max"
    | (no) "\<not> plenty s1 1" "refused (allocate crc debug s1)"
    using allocate_step [OF i1(1) evolves_ready [OF e1], of debug] i1(2) by auto
  then show ?thesis
  proof cases
    case ok
    let ?c = "finalise (put_at b' 12 (to_le (of_nat no :: u32))) 0"
    note rn = renumbered_is [OF pb(1), of no]
    note fi = finalise_is [OF rn(1)]
    have c: "page_is no kind tid nxt ?c" "page_slots ?c = page_slots b" "tidy ?c \<longleftrightarrow> tidy b"
      using fi rn pb by (simp_all add: tidy_def)
    note ed = edit_guarded [OF ok(2) page_is_ok(1) [OF c(1)]]
    let ?u = "bytes_mut t i ?c"
    have eu: "evolves crc t ?u {no} 0"
      by (rule evolves_truncate [OF evolves_ready [OF ok(3)] ed(5) _ ed(4)]) (auto intro: ed(3,6))
    have same: "available ?u = available t" "is_frozen ?u = is_frozen t" "limits ?u = limits t"
      using alloc_inv_truncate [OF ed(5)] truncate_frozen [OF ed(5)] ed(5) by (simp_all add: available_def reuse.defs)
    have pn: "p \<noteq> no" using ok(4) av1 assms(3) by (auto simp: own_page_no_def)
    have eus: "evolves crc s ?u {no} 1" using evolves_trans [OF evolves_trans [OF e1 ok(3)] eu] by simp
    have nou: "own_page_no ?u no" using ok(5) same(1) by (simp add: own_page_no_def)
    have es0: "evolves crc s ?u {} 1" using fresh_evolves [OF eus] ok(4) av1 nou by (simp add: own_page_no_def)
    have pu: "own_page_no ?u p" by (rule own_page_no_evolves [OF assms(3) es0]) simp
    let ?birth = "unat (from_le (slice b' 24 32) :: u64)"
    consider (ok') v where "retire ?u p ?birth = (v, Ok ())" "guarded crc v [(i, no, ?c)]" "evolves crc ?u v {p} 0"
        "available v \<subseteq> insert p (available ?u)" "\<forall>m c. holds crc ?u m c \<longleftrightarrow> holds crc v m c" "is_frozen v = is_frozen ?u"
      | (no') "limits ?u \<noteq> None" "refused (retire ?u p ?birth)"
      using retire_step [OF ed(1) evolves_ready [OF eu] pu, of ?birth] pn by auto
    then show ?thesis
    proof cases
      case ok'
      obtain y where y: "drop_after i (v, Ok no) = (y, Ok no)" "guarded crc y []" "evolves crc v y {} 0" "reuse.truncate y = reuse.truncate v"
          "\<And>m c. holds crc v m c \<longleftrightarrow> holds crc y m c"
        by (rule drop_after_guarded [OF ok'(2) evolves_ready [OF ok'(3)], of "Ok no"]) blast
      have "shadow_page crc debug s p = (y, Ok no)"
        using w b'(1) ok(1) ok'(1) y(1) by (simp add: shadow_page_def Let_def)
      moreover have ev: "evolves crc s y {p} 1" using evolves_trans [OF es0 evolves_trans [OF ok'(3) y(3)]] by simp
      moreover have "idle crc y"
      proof -
        have "length (frames y) = length (frames s)" using ev by (simp add: evolves_def)
        then show ?thesis using y(2) assms(1) by (auto simp: idle_guarded)
      qed
      moreover have "holds crc y no ?c" using ed(2) ok'(5) y(5) by blast
      moreover have "own_page_no y no"
        using nou ok'(4) pn alloc_inv_truncate [OF y(4)] by (auto simp: own_page_no_def available_def)
      moreover have "\<not> is_frozen y no" using ok(6) same(2) ok'(6) truncate_frozen [OF y(4)] by simp
      ultimately show ?thesis using ok(4,7) av1 c by blast
    next
      case no'
      have "\<not> plenty s 1" using no'(1) es0 by (simp add: plenty_def evolves_def)
      moreover have "refused (shadow_page crc debug s p)"
        using no'(2) by (simp add: shadow_page_def w b'(1) ok(1) Let_def refused_drop refused_then)
      ultimately show ?thesis by blast
    qed
  next
    case no
    have "\<not> plenty s 1" using no(1) plenty_evolves [OF _ e1, of 1] by auto
    then show ?thesis using no(2) by (simp add: shadow_page_def w b'(1) refused_then)
  qed
qed

section \<open>Records\<close>

lemma decode_any_page: "decode_record rec n kind = Ok d \<Longrightarrow> decode_record rec m kind = Ok d"
  by (auto simp: decode_record_def Let_def obind_iffs split: if_splits)

lemma decode_interior_iff:
  "decode_record rec n PageInterior = Ok (InteriorRecord k c) \<longleftrightarrow> length k \<le> 65535 \<and> rec = enc_interior k c"
proof
  assume d: "decode_record rec n PageInterior = Ok (InteriorRecord k c)"
  let ?n = "unat (le16 (rec ! 0) (rec ! 1))"
  have len: "2 \<le> length rec" by (rule decode_record_length [OF d])
  have s0: "slice rec 0 2 = [rec ! 0, rec ! Suc 0]" using slice_two [of 0 rec] len by (simp add: numeral_2_eq_2)
  have f: "?n + 6 = length rec" "k = slice rec 2 (2 + ?n)" "c = from_le (slice rec (2 + ?n) (6 + ?n))"
    using d by (auto simp: decode_record_def Let_def s0 le16_def get_range_Some index_range_def obind_iffs
        checked_add_u64_Some add_ac split: if_splits)
  have u: "?n \<le> 65535" using unat_less_len [of "le16 (rec ! 0) (rec ! 1)"] by simp
  have lk: "length k = ?n" using f(1,2) by simp
  have "rec = slice rec 0 2 @ slice rec 2 (2 + ?n) @ slice rec (2 + ?n) (6 + ?n)"
    using slice_split [of 0 2 "length rec" rec] slice_split [of 2 "2 + ?n" "length rec" rec] f(1) slice_whole [of rec "length rec"] by (simp add: add_ac)
  moreover have "slice rec 0 2 = to_le (of_nat (length k) :: u16)"
    unfolding lk using to_le_from_le [where ?'a = 16, of "slice rec 0 2"] len by (simp add: s0 le16_def)
  moreover have "slice rec (2 + ?n) (6 + ?n) = to_le c" using f(1,3) by simp
  ultimately show "length k \<le> 65535 \<and> rec = enc_interior k c" using lk u f(2) by (simp add: enc_interior_def)
next
  assume a: "length k \<le> 65535 \<and> rec = enc_interior k c"
  then show "decode_record rec n PageInterior = Ok (InteriorRecord k c)"
    by (simp add: enc_interior_def decode_record_def Let_def get_range_def index_range_def slice_def unat_u16_of_nat checked_add_u64_def)
qed

lemma sep_holds_iff: "sep_holds no rec e \<longleftrightarrow> length (fst e) \<le> 65535 \<and> rec = enc_interior (fst e) (of_nat (snd e)) \<and> snd e \<le> u32_max"
  by (simp add: sep_holds_def decode_interior_iff)

lemma cell_holds_any: "cell_holds crc s no rec e \<Longrightarrow> cell_holds crc s m rec e"
  by (cases e) (auto simp: cell_holds_def intro: decode_any_page)

lemma open_checked_ok:
  assumes "page_ok crc no b" "page_kind_of b = Ok kind" "\<forall>rec \<in> set (page_slots b). \<exists>d. decode_record rec (of_nat no) kind = Ok d"
  shows "open_checked crc no b k = k b"
  using assms(1) validate_records_all [OF assms] by (simp add: open_checked_def page_ok_def)

lemma open_checked_node: assumes "node_image crc tid no c0 kcs b" shows "open_checked crc no b k = k b"
  using open_checked_ok [OF _ _ node_image_decodes [OF assms], of crc k] assms by (simp add: node_image_def)

lemma open_checked_leaf: assumes "leaf_image crc s tid no es b" shows "open_checked crc no b k = k b"
  using open_checked_ok [OF _ _ leaf_image_decodes [OF assms], of crc k] assms by (simp add: leaf_image_def)

lemma node_image_is:
  assumes "page_is no PageInterior tid (of_nat c0) b" "c0 \<le> u32_max" "list_all2 (sep_holds no) (page_slots b) kcs"
  shows "node_image crc tid no c0 kcs b"
  using page_is_ok [OF assms(1)] assms(2,3) by (simp add: node_image_def unat_of_nat)

lemma node_image_page_is:
  assumes "node_image crc tid no c0 kcs b" "page_wf b"
  shows "page_is no PageInterior tid (of_nat c0) b"
  using page_ok_is [of crc no b PageInterior] assms by (auto simp: node_image_def)

section \<open>Pointing a node at a copy\<close>

lemma zip_tl_update: "i < length ks \<Longrightarrow> zip ks (tl (cs[Suc i := q])) = (zip ks (tl cs))[i := (ks ! i, q)]"
  by (cases cs) (simp_all add: zip_update [symmetric])

lemma cells_update:
  assumes "j < length recs" "length r = length (recs ! j)"
  shows "cells_bytes (recs[j := r]) = cells_bytes recs"
proof -
  have "(map length recs)[j := map length recs ! j] = map length recs" by (rule list_update_id)
  then have "map length (recs[j := r]) = map length recs" using assms by (simp add: map_update)
  then have "map (\<lambda>n. n + 4) (map length (recs[j := r])) = map (\<lambda>n. n + 4) (map length recs)" by (simp only:)
  then show ?thesis by (simp only: cells_bytes_def map_map comp_def)
qed

lemma patch_page_node:
  assumes "node_image crc tid no (hd cs) (zip ks (tl cs)) b" "page_wf b" "tidy b" "length cs = Suc (length ks)" "i < length cs" "q \<le> u32_max"
  obtains c where "patch_page crc no i q b = Ok c" "node_image crc tid no (hd (cs[i := q])) (zip ks (tl (cs[i := q]))) c" "page_wf c" "tidy c"
proof -
  note pi = node_image_page_is [OF assms(1,2)]
  note ne = node_image_entries [OF assms(1)]
  have kd: "page_kind_of b = Ok PageInterior" and la: "list_all2 (sep_holds no) (page_slots b) (zip ks (tl cs))"
    using assms(1) by (simp_all add: node_image_def)
  have lz: "length (zip ks (tl cs)) = length ks" using assms(4) by simp
  show thesis
  proof (cases i)
    case 0
    note sn = set_next_leaf_is [OF pi, of "of_nat q"]
    note fi = finalise_is [OF sn(1)]
    let ?c = "finalise (set_next_leaf b (of_nat q)) 0"
    have "patch_page crc no i q b = Ok ?c" by (simp add: patch_page_def open_checked_node [OF assms(1)] kd 0)
    moreover have "node_image crc tid no (hd (cs[i := q])) (zip ks (tl (cs[i := q]))) ?c"
      using assms(4) la by (intro node_image_is) (cases cs; simp add: 0 fi sn assms(6))+
    moreover have "tidy ?c" using assms(3) fi sn by (simp add: tidy_def)
    ultimately show thesis using that page_is_ok(5) [OF fi(1)] by blast
  next
    case (Suc j)
    have j: "j < length ks" "j < nentries b" using Suc assms(4,5) ne(1) lz by simp_all
    let ?rec = "page_slots b ! j" and ?k = "ks ! j" and ?v = "to_le (of_nat q :: u32)"
    have sh: "sep_holds no ?rec (?k, tl cs ! j)" using list_all2_nthD [OF la, of j] j assms(4) by simp
    then have rec: "?rec = enc_interior ?k (of_nat (tl cs ! j))" "length ?k \<le> 65535" by (simp_all add: sep_holds_iff)
    note w = page_wf_bounds [OF assms(2)]
    have sl: "slot_len b j = length ?rec" "slot_off b j + slot_len b j \<le> length b"
      using j w(1) w(5) [OF j(2)] by (simp_all add: nth_page_slots)
    have l4: "length ?v \<le> slot_len b j" unfolding sl(1) rec(1) by (simp add: enc_interior_def)
    have ap: "slots_apart b" using assms(3) by (simp add: tidy_def)
    note ps = patched_slot_is [OF pi ap j(2) l4]
    note fi = finalise_is [OF ps(1)]
    let ?c = "finalise (put_at b (slot_off b j + slot_len b j - length ?v) ?v) 0"
    have "patch_page crc no i q b = Ok ?c"
      using j ne(2) [of j] ne(4) [of j] lz l4 sl ne(1)
      by (simp add: patch_page_def open_checked_node [OF assms(1)] kd Suc Let_def)
    moreover have "node_image crc tid no (hd (cs[i := q])) (zip ks (tl (cs[i := q]))) ?c"
    proof (rule node_image_is)
      show "page_is no PageInterior tid (of_nat (hd (cs[i := q]))) ?c" using fi(1) assms(4) by (cases cs) (simp_all add: Suc)
      have "hd cs \<le> u32_max"
        using assms(1) unat_less_len [of "page_next_leaf b"] by (auto simp: node_image_def)
      then show "hd (cs[i := q]) \<le> u32_max" using assms(4) by (cases cs) (simp_all add: Suc)
      have "take (length ?rec - length ?v) ?rec @ ?v = enc_interior ?k (of_nat q)" unfolding rec(1) by (simp add: enc_interior_def)
      then have sc: "page_slots ?c = (page_slots b)[j := enc_interior ?k (of_nat q)]" using fi(2) ps(4) by simp
      then show "list_all2 (sep_holds no) (page_slots ?c) (zip ks (tl (cs[i := q])))"
        unfolding Suc zip_tl_update [OF j(1)] using la rec(2) assms(6) by (auto intro!: list_all2_update_cong simp: sep_holds_iff)
    qed
    moreover have "tidy ?c"
    proof -
      have "length (take (length ?rec - length ?v) ?rec @ ?v) = length ?rec" using l4 sl(1) by simp
      then have "cells_bytes (page_slots ?c) = cells_bytes (page_slots b)"
        unfolding fi(2) ps(4) using j(2) by (intro cells_update) simp_all
      then show ?thesis using assms(3) fi(3,4) ps(2,3) by (simp add: tidy_def)
    qed
    ultimately show thesis using that page_is_ok(5) [OF fi(1)] by blast
  qed
qed

end
