(* ===== verification/Btree_Descent.thy ===== *)
theory Btree_Descent
  imports Btree_Steps
begin

text \<open>
  The descent for a write on a live tree (\<open>descend_for_write\<close>): every page of the published tree on the
  way is copied and its parent, already this epoch's, pointed at the copy; the leaf is reached under a
  write guard with its path and the separators around it.
\<close>

section \<open>A subtree on a fresh page\<close>

fun renumber :: "tree \<Rightarrow> nat \<Rightarrow> tree" where
  "renumber (TLeaf no es) m = TLeaf m es"
| "renumber (TNode no t0 kts) m = TNode m t0 kts"

lemma renumber_facts [simp]:
  "page_of (renumber l m) = m" "tree_entries (renumber l m) = tree_entries l" "children (renumber l m) = children l" "seps (renumber l m) = seps l"
  "tree_pages (renumber l m) = m # tl (tree_pages l)"
  by (cases l; simp)+

lemma tree_pages_head: "tree_pages l = page_of l # tl (tree_pages l)"
  by (cases l) simp_all

lemma tl_pages: "p \<in> set (tl (tree_pages l)) \<Longrightarrow> p \<in> set (tree_pages l)"
  by (cases l) simp_all

lemma evolves_fresh:
  assumes "evolves crc s t (D \<union> E) c" "E \<subseteq> available s"
  shows "evolves crc s t D c"
proof -
  have "available t \<subseteq> available s \<union> D" using assms unfolding evolves_def by blast
  moreover have "holds crc t m b" if "m \<notin> D" "m \<notin> available s" "holds crc s m b" for m b
    using assms that unfolding evolves_def by blast
  ultimately show ?thesis using assms(1) unfolding evolves_def by blast
qed

lemma leaf_image_is:
  assumes "page_is no PageLeaf tid nxt b" "list_all2 (cell_holds crc s m) (page_slots b) es"
  shows "leaf_image crc s tid no es b"
  using page_is_ok [OF assms(1)] assms(2) by (auto simp: leaf_image_def elim: list.rel_mono_strong intro: cell_holds_any)

lemma leaf_image_page_is:
  assumes "leaf_image crc s tid no es b" "page_wf b"
  shows "page_is no PageLeaf tid (page_next_leaf b) b"
  using page_ok_is [of crc no b PageLeaf] assms by (auto simp: leaf_image_def)

lemma shadow_live:
  assumes "idle crc s" "alloc_ready s" "live crc s tid lo hi l" "distinct (tree_pages l)"
  shows "(\<exists>t no. shadow_page crc debug s (page_of l) = (t, Ok no) \<and> idle crc t \<and> evolves crc s t {page_of l} 1 \<and> no \<in> available s \<and>
      \<not> is_frozen t no \<and> live crc t tid lo hi (renumber l no)) \<or>
    \<not> plenty s 1 \<and> refused (shadow_page crc debug s (page_of l))"
proof (cases l)
  case (TLeaf p es)
  then have ll: "leaf_live crc s tid lo hi p es" using assms(3) by simp
  then obtain b where b: "holds crc s p b" "leaf_image crc s tid p es b" "page_wf b" "page_next_leaf b = 0 \<longrightarrow> hi = None"
    and own: "own_page_no s p" by (auto simp: leaf_live_def)
  note pi = leaf_image_page_is [OF b(2,3)]
  have "live crc t tid lo hi (renumber l no)"
    if t: "evolves crc s t {p} 1" "own_page_no t no" "holds crc t no c" "page_is no PageLeaf tid (page_next_leaf b) c" "page_slots c = page_slots b" for t no c
  proof -
    have "set (concat (map (\<lambda>e. snd (snd e)) es)) \<inter> {p} = {}" using assms(4) TLeaf by auto
    then have "leaf_image crc t tid p es b" by (rule leaf_image_evolves [OF b(2) t(1)])
    then have "leaf_image crc t tid no es c" by (intro leaf_image_is [OF t(4), of _ _ p]) (simp add: t(5) leaf_image_def)
    then show ?thesis using ll t b(4) page_is_ok(4,5) [OF t(4)] TLeaf by (auto simp: leaf_live_def)
  qed
  then show ?thesis using shadow_page_step [OF assms(1,2) own b(1) pi, of debug] unfolding TLeaf page_of.simps by blast
next
  case (TNode p t0 kts)
  let ?cs = "map page_of (t0 # map snd kts)" and ?ks = "map fst kts"
  have nl: "node_live crc s tid lo hi p ?cs ?ks" using assms(3) unfolding TNode live.simps by blast
  then obtain b where b: "holds crc s p b" "node_image crc tid p (hd ?cs) (zip ?ks (tl ?cs)) b" "page_wf b" "tidy b"
    and own: "own_page_no s p" unfolding node_live_def by blast
  note pi = node_image_page_is [OF b(2,3)]
  have c0: "hd ?cs \<le> u32_max" using b(2) unat_less_len [of "page_next_leaf b"] by (auto simp: node_image_def)
  have "live crc t tid lo hi (renumber l no)"
    if t: "evolves crc s t {p} 1" "own_page_no t no" "holds crc t no c" "page_is no PageInterior tid (of_nat (hd ?cs)) c"
      "page_slots c = page_slots b" "tidy c" for t no c
  proof -
    have "list_all2 (sep_holds no) (page_slots c) (zip ?ks (tl ?cs))"
      using b(2) unfolding node_image_def t(5) by (auto simp: sep_holds_iff elim: list.rel_mono_strong)
    then have "node_image crc tid no (hd ?cs) (zip ?ks (tl ?cs)) c" by (rule node_image_is [OF t(4) c0])
    then have "node_live crc t tid lo hi no ?cs ?ks"
      using nl t(2,3,6) page_is_ok(5) [OF t(4)] unfolding node_live_def by blast
    moreover have "live crc t tid (fence_lo lo ?ks j) (fence_hi hi ?ks j) ((t0 # map snd kts) ! j)" if j: "j < Suc (length kts)" for j
    proof (rule live_evolves [OF _ t(1)])
      show "live crc s tid (fence_lo lo ?ks j) (fence_hi hi ?ks j) ((t0 # map snd kts) ! j)" using assms(3) j unfolding TNode live.simps by blast
      have "(t0 # map snd kts) ! j \<in> set (children l)" using j unfolding TNode children.simps by (intro nth_mem) simp
      then show "set (tree_pages ((t0 # map snd kts) ! j)) \<inter> {p} = {}"
        using assms(4) tree_pages_children [of l] by (auto simp: TNode)
    qed
    ultimately show ?thesis unfolding TNode renumber.simps live.simps by blast
  qed
  then show ?thesis using shadow_page_step [OF assms(1,2) own b(1) pi, of debug] b(4) unfolding TNode page_of.simps by blast
qed

section \<open>The focus of a write\<close>

definition focus :: "crc_fn \<Rightarrow> pool \<Rightarrow> u16 \<Rightarrow> tcontext \<Rightarrow> tree \<Rightarrow> bool" where
  "focus crc s tid z l \<longleftrightarrow>
     alloc_ready s \<and> ctx_live crc s tid z (page_of l) \<and> live crc s tid (hole_lo z) (hole_hi z) l \<and> distinct (ctx_pages z @ tree_pages l)"

text \<open>The pages of the path are this epoch's.\<close>

definition owned :: "pool \<Rightarrow> tcontext \<Rightarrow> bool" where
  "owned s z \<longleftrightarrow> (\<forall>(n, i) \<in> set z. \<not> is_frozen s (page_of n))"

lemma owned_simps [simp]: "owned s []" "owned s ((n, i) # z) \<longleftrightarrow> \<not> is_frozen s (page_of n) \<and> owned s z"
  by (simp_all add: owned_def)

lemma owned_evolves: "owned s z \<Longrightarrow> evolves crc s t D c \<Longrightarrow> owned t z"
  unfolding owned_def evolves_def by blast

lemma focus_evolves:
  assumes "focus crc s tid z l" "evolves crc s t D c" "set (ctx_pages z @ tree_pages l) \<inter> D = {}"
  shows "focus crc t tid z l"
  using assms ctx_live_evolves [OF _ assms(2), of tid z] live_evolves [OF _ assms(2)] evolves_ready [OF assms(2)]
  unfolding focus_def by (simp add: Int_Un_distrib2)

lemma focus_child:
  assumes "focus crc s tid z n" "i < length (children n)"
  shows "focus crc s tid ((n, i) # z) (children n ! i)"
proof -
  have f: "alloc_ready s" "ctx_live crc s tid z (page_of n)" "live crc s tid (hole_lo z) (hole_hi z) n" "distinct (ctx_pages z @ tree_pages n)"
    using assms(1) by (simp_all add: focus_def)
  have "children n \<noteq> []" using assms(2) by auto
  moreover have "concat (map tree_pages (children n)) =
      concat (map tree_pages (take i (children n))) @ tree_pages (children n ! i) @ concat (map tree_pages (drop (Suc i) (children n)))"
    using arg_cong [OF id_take_nth_drop [OF assms(2)], of "\<lambda>xs. concat (map tree_pages xs)"] by simp
  ultimately have "mset (tree_pages n) =
      mset (page_of n # concat (map tree_pages (take i (children n) @ drop (Suc i) (children n))) @ tree_pages (children n ! i))"
    using tree_pages_children [of n] by simp
  then have "mset (ctx_pages ((n, i) # z) @ tree_pages (children n ! i)) = mset (ctx_pages z @ tree_pages n)" by (simp add: ac_simps)
  then have "distinct (ctx_pages ((n, i) # z) @ tree_pages (children n ! i))" using f(4) mset_eq_imp_distinct_iff by blast
  then show ?thesis using f enter_child [OF f(3) assms(2)] by (simp add: focus_def)
qed

lemma focus_plug:
  assumes "focus crc s tid z l"
  shows "live crc s tid None None (plug z l)" "distinct (tree_pages (plug z l))" "tree_entries (plug z l) = ctx_left z @ tree_entries l @ ctx_right z"
proof -
  have f: "ctx_live crc s tid z (page_of l)" "live crc s tid (hole_lo z) (hole_hi z) l" "distinct (ctx_pages z @ tree_pages l)"
    using assms by (simp_all add: focus_def)
  show "live crc s tid None None (plug z l)" by (rule plug_live [OF f(1,2)])
  show "tree_entries (plug z l) = ctx_left z @ tree_entries l @ ctx_right z" by (rule plug_entries [OF f(1)])
  have "mset (tree_pages (plug z l)) = mset (ctx_pages z @ tree_pages l)" using plug_pages [OF f(1)] by simp
  then show "distinct (tree_pages (plug z l))" using f(3) mset_eq_imp_distinct_iff by blast
qed

lemma patch_child_step:
  assumes "idle crc s" "alloc_ready s" "node_live crc s tid lo hi no cs ks" "\<not> is_frozen s no" "i < length cs" "q \<le> u32_max"
  obtains t where "patch_child crc s no i q = (t, Ok ())" "idle crc t" "evolves crc s t {no} 0" "node_live crc t tid lo hi no (cs[i := q]) ks"
    "reuse.truncate t = reuse.truncate s"
proof -
  obtain b where b: "holds crc s no b" "node_image crc tid no (hd cs) (zip ks (tl cs)) b" "page_wf b" "tidy b"
    and lc: "length cs = Suc (length ks)" using assms(3) unfolding node_live_def by blast
  let ?Q = "\<lambda>c. node_image crc tid no (hd (cs[i := q])) (zip ks (tl (cs[i := q]))) c \<and> page_wf c \<and> tidy c"
  have ed: "\<exists>c. patch_page crc no i q b' = Ok c \<and> page_ok crc no c \<and> ?Q c" if b': "page_ok crc no b'" "page_body b' = page_body b" for b'
  proof -
    note pb = page_is_body [OF node_image_page_is [OF b(2,3)] b']
    show ?thesis
      by (rule patch_page_node [OF node_image_body [OF b(2) b'] page_is_ok(5) [OF pb(1)] _ lc assms(5,6)])
        (use pb(3) b(4) in \<open>auto simp: node_image_def\<close>)
  qed
  obtain t c where t: "with_edit crc s no (patch_page crc no i q) = (t, Ok ())" "idle crc t" "evolves crc s t {no} 0" "holds crc t no c" "?Q c"
      "reuse.truncate t = reuse.truncate s"
    by (rule with_edit_idle [OF assms(1,2) b(1) assms(4), of "patch_page crc no i q" ?Q]) (use ed in blast)+
  have "own_page_no t no" using assms(3) t(6) alloc_inv_truncate [OF t(6)] by (simp add: node_live_def own_page_no_def available_def)
  then have "node_live crc t tid lo hi no (cs[i := q]) ks" using assms(3) t(4,5) unfolding node_live_def by auto
  then show thesis using that t by (simp add: patch_child_def)
qed

lemma other_child: "j < length xs \<Longrightarrow> j \<noteq> i \<Longrightarrow> xs ! j \<in> set (take i xs @ drop (Suc i) xs)"
proof (cases "j < i")
  case True
  then show "j < length xs \<Longrightarrow> ?thesis" by (auto simp: in_set_conv_nth)
next
  case False
  assume "j < length xs" "j \<noteq> i"
  then have "drop (Suc i) xs ! (j - Suc i) = xs ! j" "j - Suc i < length (drop (Suc i) xs)" using False by auto
  then show ?thesis by (metis Un_iff nth_mem set_append)
qed

lemma frame_live_patched:
  assumes "frame_live crc t tid lo hi n i p" "evolves crc t u {page_of n} c"
    and "node_live crc u tid lo hi (page_of n) ((map page_of (children n))[i := q]) (seps n)"
    and "page_of n \<notin> set (concat (map tree_pages (take i (children n) @ drop (Suc i) (children n))))"
  shows "frame_live crc u tid lo hi n i q"
proof -
  have "live crc u tid (fence_lo lo (seps n) j) (fence_hi hi (seps n) j) (children n ! j)" if j: "j < length (children n)" "j \<noteq> i" for j
  proof (rule live_evolves [OF _ assms(2)])
    show "live crc t tid (fence_lo lo (seps n) j) (fence_hi hi (seps n) j) (children n ! j)" using assms(1) j unfolding frame_live_def by blast
    show "set (tree_pages (children n ! j)) \<inter> {page_of n} = {}" using assms(4) other_child [OF j] by auto
  qed
  then show ?thesis using assms(1,3) unfolding frame_live_def by blast
qed

lemma focus_unavailable: "focus crc s tid z l \<Longrightarrow> set (ctx_pages z @ tree_pages l) \<inter> available s = {}"
  using ctx_unavailable [of crc s tid z "page_of l"] live_unavailable [of crc s tid "hole_lo z" "hole_hi z" l] unfolding focus_def by auto

lemma own_child_step:
  assumes "idle crc s" "focus crc s tid ((n, i) # z) l" "\<not> is_frozen s (page_of n)"
  shows "(\<exists>t l'. own_child crc debug s (page_of n) i (page_of l) = (t, Ok (page_of l')) \<and> idle crc t \<and> focus crc t tid ((n, i) # z) l' \<and>
      evolves crc s t {page_of n, page_of l} 1 \<and> \<not> is_frozen t (page_of l') \<and> (l' = l \<or> (\<exists>no \<in> available s. l' = renumber l no))) \<or>
    \<not> plenty s 1 \<and> refused (own_child crc debug s (page_of n) i (page_of l))"
proof (cases "is_frozen s (page_of l)")
  case False
  have "alloc_ready s" using assms(2) unfolding focus_def by blast
  then have "evolves crc s s {page_of n, page_of l} 1" by (rule evolves_mono [OF evolves_refl [where D = "{}"]]) simp_all
  moreover have "own_child crc debug s (page_of n) i (page_of l) = (s, Ok (page_of l))" using False by (simp add: own_child_def)
  ultimately show ?thesis using assms(1,2) False by blast
next
  case True
  let ?z = "(n, i) # z"
  have f: "alloc_ready s" "ctx_live crc s tid ?z (page_of l)" "live crc s tid (hole_lo ?z) (hole_hi ?z) l" "distinct (ctx_pages ?z @ tree_pages l)"
    using assms(2) by (simp_all add: focus_def del: ctx_live.simps hole_lo.simps hole_hi.simps)
  have dl: "distinct (tree_pages l)" and pl: "page_of l \<notin> set (ctx_pages ?z)" using f(4) page_of_in_pages [of l] by auto
  note un = focus_unavailable [OF assms(2)]
  consider (ok) t no where "shadow_page crc debug s (page_of l) = (t, Ok no)" "idle crc t" "evolves crc s t {page_of l} 1" "no \<in> available s"
      "\<not> is_frozen t no" "live crc t tid (hole_lo ?z) (hole_hi ?z) (renumber l no)"
    | (no) "\<not> plenty s 1" "refused (shadow_page crc debug s (page_of l))"
    using shadow_live [OF assms(1) f(1,3) dl, of debug] by blast
  then show ?thesis
  proof cases
    case ok
    have ct: "ctx_live crc t tid ?z (page_of l)" by (rule ctx_live_evolves [OF f(2) ok(3)]) (use pl in simp)
    then have fr: "frame_live crc t tid (hole_lo z) (hole_hi z) n i (page_of l)" and cz: "ctx_live crc t tid z (page_of n)" by simp_all
    have fz: "\<not> is_frozen t (page_of n)" using assms(3) ok(3) unfolding evolves_def by blast
    have nm: "no \<le> u32_max" using ok(6) by (cases l) (auto simp: leaf_live_def node_live_def own_page_no_def)
    have nl: "node_live crc t tid (hole_lo z) (hole_hi z) (page_of n) ((map page_of (children n))[i := page_of l]) (seps n)" "i < length (children n)"
      using fr by (simp_all add: frame_live_def)
    obtain u where u: "patch_child crc t (page_of n) i no = (u, Ok ())" "idle crc u" "evolves crc t u {page_of n} 0"
        "node_live crc u tid (hole_lo z) (hole_hi z) (page_of n) ((map page_of (children n))[i := page_of l, i := no]) (seps n)"
        "reuse.truncate u = reuse.truncate t"
      by (rule patch_child_step [OF ok(2) evolves_ready [OF ok(3)] nl(1) fz, of i no]) (use nl(2) nm in simp_all)
    have dp: "page_of n \<notin> set (concat (map tree_pages (take i (children n) @ drop (Suc i) (children n))))" "page_of n \<notin> set (ctx_pages z)"
        "page_of n \<notin> set (tree_pages l)"
      using f(4) by auto
    have pn: "page_of n \<noteq> no" using un ok(4) by auto
    have "frame_live crc u tid (hole_lo z) (hole_hi z) n i no"
      by (rule frame_live_patched [OF fr u(3) _ dp(1)]) (use u(4) in simp)
    moreover have "ctx_live crc u tid z (page_of n)" by (rule ctx_live_evolves [OF cz u(3)]) (use dp(2) in simp)
    moreover have "live crc u tid (hole_lo ?z) (hole_hi ?z) (renumber l no)"
      by (rule live_evolves [OF ok(6) u(3)]) (use dp(3) pn in \<open>auto dest: tl_pages\<close>)
    moreover have "distinct (ctx_pages ?z @ tree_pages (renumber l no))"
    proof -
      have "no \<notin> set (ctx_pages ?z) \<union> set (tree_pages l)" using un ok(4) by auto
      then have "no \<notin> set (ctx_pages ?z) \<union> set (tl (tree_pages l))" using tl_pages [of no l] by blast
      moreover have "distinct (ctx_pages ?z @ tl (tree_pages l))" using f(4) tl_pages [of _ l] by (auto intro: distinct_tl)
      ultimately show ?thesis by auto
    qed
    ultimately have "focus crc u tid ?z (renumber l no)" using evolves_ready [OF u(3)] by (simp add: focus_def)
    moreover have "own_child crc debug s (page_of n) i (page_of l) = (u, Ok (page_of (renumber l no)))"
      using True ok(1) u(1) by (simp add: own_child_def)
    moreover have "evolves crc s u {page_of n, page_of l} 1" using evolves_trans [OF ok(3) u(3)] by (simp add: insert_commute)
    moreover have "\<not> is_frozen u (page_of (renumber l no))" using ok(5) truncate_frozen [OF u(5)] by simp
    ultimately show ?thesis using u(2) ok(4) by blast
  next
    case no
    then show ?thesis using True by (simp add: own_child_def refused_then)
  qed
qed

section \<open>One page of the descent\<close>

lemma route_facts:
  assumes "sorted_wrt (<) ks" "over lo key" "under hi key" "i = length (takeWhile (\<lambda>k. k \<le> key) ks)"
  shows "i \<le> length ks" "over (fence_lo lo ks i) key" "under (fence_hi hi ks i) key"
proof -
  have m: "sorted_wrt (\<lambda>x y. y \<le> key \<longrightarrow> x \<le> key) ks" using assms(1) by (auto elim!: sorted_wrt_mono_rel [rotated])
  note t = takeWhile_index [OF m, folded assms(4)]
  show "i \<le> length ks" using length_takeWhile_le [of "\<lambda>k. k \<le> key" ks] assms(4) by simp
  then show "over (fence_lo lo ks i) key" using assms(2) t [of "i - 1"] by (auto simp: fence_lo_def over_def)
  show "under (fence_hi hi ks i) key" using assms(3) t [of i] by (auto simp: fence_hi_def under_def)
qed

lemma fence_step_node:
  assumes "node_image crc tid no c0 kcs b" "map fst kcs = ks" "i \<le> length ks"
  obtains f' where "fence_step b i f = Ok f'"
    "armable f' \<Longrightarrow> armable f \<and> fence_get (lf_lower f') = fence_lo (fence_get (lf_lower f)) ks i \<and>
       fence_get (lf_upper f') = fence_hi (fence_get (lf_upper f)) ks i"
proof -
  have l: "length kcs = length ks" using arg_cong [OF assms(2), of length] by simp
  have k: "key_at b j = Ok (ks ! j)" if "j < length ks" for j
  proof -
    have "fst (kcs ! j) = ks ! j" unfolding assms(2) [symmetric] using that l by (intro nth_map [symmetric]) simp
    then show ?thesis using node_image_entries(2,3) [OF assms(1), of j] that l by (simp add: key_at_def)
  qed
  have n: "nentries b = length ks" using node_image_entries(1) [OF assms(1)] l by simp
  define g where "g = (if i > 0 then narrow_lower f (ks ! (i - 1)) else f)"
  define h where "h = (if i < length ks then narrow_upper g (ks ! i) else g)"
  have "(if i > 0 then obind (key_at b (i - 1)) (\<lambda>k. Ok (narrow_lower f k)) else Ok f) = Ok g"
    using k [of "i - 1"] assms(3) by (cases "i > 0") (simp_all add: g_def)
  then have "fence_step b i f = Ok h" using k [of i] unfolding fence_step_def n h_def by (cases "i < length ks") simp_all
  moreover have "armable h \<Longrightarrow> armable g \<and> fence_get (lf_upper h) = fence_hi (fence_get (lf_upper g)) ks i \<and> lf_lower h = lf_lower g"
    using narrow_fences(2) [of g "ks ! i"] by (cases "i < length ks") (simp_all add: fence_hi_def h_def)
  moreover have "armable g \<Longrightarrow> armable f \<and> fence_get (lf_lower g) = fence_lo (fence_get (lf_lower f)) ks i \<and> lf_upper g = lf_upper f"
    using narrow_fences(1) [of f "ks ! (i - 1)"] by (cases "i > 0") (simp_all add: fence_lo_def g_def)
  ultimately show thesis by (intro that [of h]) simp_all
qed

lemma child_at_kids:
  assumes "node_image crc tid no (hd cs) (zip ks (tl cs)) b" "length cs = Suc (length ks)" "i < length cs" "0 < cs ! i" "cs ! i < pages" "cs ! i \<le> u32_max"
  shows "child_at pages b i = Ok (cs ! i)"
proof (cases i)
  case 0
  have "unat (page_next_leaf b) = cs ! 0" using assms(1,2) by (cases cs) (simp_all add: node_image_def)
  then show ?thesis using assms(4,5) 0 by (auto simp: child_at_def)
next
  case (Suc j)
  then have j: "j < length (zip ks (tl cs))" using assms(2,3) by simp
  have c: "snd (zip ks (tl cs) ! j) = cs ! i" using j assms(2) Suc by (cases cs) simp_all
  note n = node_image_entries(2,4) [OF assms(1) j]
  have "unat (of_nat (cs ! i) :: u32) = cs ! i" using assms(6) by (simp add: unat_of_nat)
  moreover have "of_nat (cs ! i) \<noteq> (0 :: u32)" using calculation assms(4) by (metis less_irrefl unat_0)
  ultimately show ?thesis using n c assms(5) Suc by (simp add: child_at_def)
qed

lemma write_page_node:
  assumes "node_image crc tid no (hd cs) (zip ks (tl cs)) b" "length cs = Suc (length ks)" "sorted_wrt (<) ks"
    and "i = length (takeWhile (\<lambda>k. k \<le> key) ks)" "0 < cs ! i" "cs ! i < pages" "cs ! i \<le> u32_max"
  obtains f' where "write_page tid key pages no f b = Ok (Some (i, cs ! i, f'))"
    "armable f' \<Longrightarrow> armable f \<and> fence_get (lf_lower f') = fence_lo (fence_get (lf_lower f)) ks i \<and>
       fence_get (lf_upper f') = fence_hi (fence_get (lf_upper f)) ks i"
proof -
  have mz: "map fst (zip ks (tl cs)) = ks" using assms(2) by simp
  have il: "i \<le> length ks" using length_takeWhile_le [of "\<lambda>k. k \<le> key" ks] assms(4) by simp
  obtain f' where f': "fence_step b i f = Ok f'"
      "armable f' \<Longrightarrow> armable f \<and> fence_get (lf_lower f') = fence_lo (fence_get (lf_lower f)) ks i \<and>
       fence_get (lf_upper f') = fence_hi (fence_get (lf_upper f)) ks i"
    by (rule fence_step_node [OF assms(1) mz il]) blast
  note ne = node_image_entries [OF assms(1)]
  have "length (zip ks (tl cs)) = length ks" using assms(2) by simp
  then have "upper_bound b key = Ok i"
    using bounds_find(2) [OF _ _ _ assms(3), of crc no b key] ne assms(1,4) mz by (simp add: node_image_def)
  moreover have "child_at pages b i = Ok (cs ! i)" by (rule child_at_kids [OF assms(1,2) _ assms(5-7)]) (use il assms(2) in simp)
  ultimately have "write_page tid key pages no f b = Ok (Some (i, cs ! i, f'))"
    using f'(1) assms(1) by (simp add: write_page_def own_page_def node_image_def)
  then show thesis using that f'(2) by blast
qed

section \<open>The loop\<close>

fun height :: "tree \<Rightarrow> nat" where
  "height (TLeaf no es) = 0"
| "height (TNode no t0 kts) = Suc (max (height t0) (Max (insert 0 (set (map (\<lambda>(k, t). height t) kts)))))"

lemma height_child: "i < length (children n) \<Longrightarrow> height (children n ! i) < height n"
proof (cases n)
  case (TNode no t0 kts)
  assume i: "i < length (children n)"
  show ?thesis
  proof (cases i)
    case (Suc j)
    then have "kts ! j \<in> set kts" "children n ! i = snd (kts ! j)" using i TNode by simp_all
    then have "height (children n ! i) \<in> set (map (\<lambda>(k, t). height t) kts)" by (force simp: case_prod_beta)
    then have "height (children n ! i) \<le> Max (insert 0 (set (map (\<lambda>(k, t). height t) kts)))" by (intro Max_ge) auto
    then show ?thesis using TNode by simp
  qed (simp add: TNode)
qed simp

lemma height_renumber [simp]: "height (renumber l m) = height l"
  by (cases l) simp_all

definition ctx_path :: "tcontext \<Rightarrow> nat list" where
  "ctx_path z = map (\<lambda>(n, i). page_of n) z"

lemma ctx_path_simps [simp]: "ctx_path [] = []" "ctx_path ((n, i) # z) = page_of n # ctx_path z" "ctx_path (y @ z) = ctx_path y @ ctx_path z"
  by (simp_all add: ctx_path_def)

text \<open>Fences that may be armed are the separators around the subtree.\<close>

definition fences_fit :: "leaf_fences \<Rightarrow> tcontext \<Rightarrow> bool" where
  "fences_fit f z \<longleftrightarrow> (armable f \<longrightarrow> fence_get (lf_lower f) = hole_lo z \<and> fence_get (lf_upper f) = hole_hi z)"

lemma plug_append: "plug (y @ z) l = plug z (plug y l)"
  by (induction y l rule: plug.induct) simp_all

text \<open>The leaf for \<open>key\<close> reached under a write guard.\<close>

definition descended :: "crc_fn \<Rightarrow> pool \<Rightarrow> u16 \<Rightarrow> bytes \<Rightarrow> tcontext \<Rightarrow> tree \<Rightarrow> pool \<times> (nat \<times> nat \<times> nat list \<times> leaf_fences) kresult \<Rightarrow> bool" where
  "descended crc s tid key z l x \<longleftrightarrow>
     (\<exists>t g leaf b es y f. x = (t, Ok (g, leaf, rev (ctx_path (y @ z)), f)) \<and> guarded crc t [(g, leaf, b)] \<and>
        focus crc t tid (y @ z) (TLeaf leaf es) \<and> owned t (y @ z) \<and> \<not> is_frozen t leaf \<and> fences_fit f (y @ z) \<and>
        over (hole_lo (y @ z)) key \<and> under (hole_hi (y @ z)) key \<and> evolves crc s t (set (tree_pages l)) (height l) \<and> length y \<le> height l \<and>
        tree_entries (plug y (TLeaf leaf es)) = tree_entries l \<and> page_of (plug y (TLeaf leaf es)) = page_of l \<and>
        set (tree_pages (plug y (TLeaf leaf es))) \<subseteq> set (tree_pages l) \<union> available s)"

lemma write_loop_at_leaf:
  assumes "idle crc s" "focus crc s tid z (TLeaf p es)" "\<not> is_frozen s p"
  obtains t g c where "write_loop crc debug tid key s p path f = Some (t, Ok (g, p, path, f))" "guarded crc t [(g, p, c)]" "evolves crc s t {} 0"
proof -
  have ll: "leaf_live crc s tid (hole_lo z) (hole_hi z) p es" and ar: "alloc_ready s" using assms(2) by (simp_all add: focus_def)
  then obtain b where b: "holds crc s p b" "leaf_image crc s tid p es b" by (auto simp: leaf_live_def)
  obtain b' u where u: "with_page crc s p (write_page tid key (next_page s) p f) = (u, write_page tid key (next_page s) p f b')"
      "leaf_image crc s tid p es b'" "reads_only crc s u"
    by (rule with_page_leaf [OF assms(1) b])
  have w: "write_page tid key (next_page s) p f b' = Ok None" using u(2) by (simp add: write_page_def own_page_def leaf_image_def)
  note eu = reads_only_evolves [OF ar u(3)]
  have gu: "guarded crc u []" "length [] < length (frames u)" using reads_only_idle [OF u(3)] by (simp_all add: idle_guarded)
  have "\<not> is_frozen u p" using assms(3) eu unfolding evolves_def by blast
  then obtain g c t where t: "get_mut crc u p = (t, Ok g)" "guarded crc t [(g, p, c)]"
      "length (frames t) = length (frames u)" "reuse.truncate t = reuse.truncate u" "\<And>m d. holds crc u m d \<Longrightarrow> holds crc t m d" "\<And>n. extent_within n u \<Longrightarrow> extent_within n t"
    using get_mut_guarded [OF gu _ reads_only_holds [OF u(3) b(1)]] by (metis empty_iff list.set(1) list.simps(8))
  have "evolves crc u t {} 0" using t(5) by (intro evolves_truncate [OF evolves_ready [OF eu] t(4,6,3)])
  then have ev: "evolves crc s t {} 0" using evolves_trans [OF eu] by simp
  have "write_loop crc debug tid key s p path f = Some (t, Ok (g, p, path, f))"
    by (subst write_loop.simps) (simp add: u(1) w t(1))
  then show thesis using that t(2) ev by blast
qed

lemma write_loop_leaf:
  assumes "idle crc s" "focus crc s tid z (TLeaf p es)" "owned s z" "\<not> is_frozen s p" "fences_fit f z" "over (hole_lo z) key" "under (hole_hi z) key"
  obtains x where "write_loop crc debug tid key s p (rev (ctx_path z)) f = Some x" "descended crc s tid key z (TLeaf p es) x"
proof -
  obtain t g c where t: "write_loop crc debug tid key s p (rev (ctx_path z)) f = Some (t, Ok (g, p, rev (ctx_path z), f))" "guarded crc t [(g, p, c)]"
      and ev: "evolves crc s t {} 0"
    by (rule write_loop_at_leaf [OF assms(1,2,4)])
  note t(1)
  moreover have "descended crc s tid key z (TLeaf p es) (t, Ok (g, p, rev (ctx_path z), f))"
  proof -
    have fo: "focus crc t tid z (TLeaf p es)" using focus_evolves [OF assms(2) ev] by simp
    have ow: "owned t z" "\<not> is_frozen t p" using assms(3,4) ev unfolding owned_def evolves_def by blast+
    have "evolves crc s t (set (tree_pages (TLeaf p es))) (height (TLeaf p es))" using evolves_mono [OF ev] by simp
    then show ?thesis
      unfolding descended_def
      by - (rule exI [of _ t], rule exI [of _ g], rule exI [of _ p], rule exI [of _ c], rule exI [of _ es], rule exI [of _ "[]"], rule exI [of _ f],
        use fo ow t(2) assms(5-7) in auto)
  qed
  ultimately show thesis by (rule that)
qed

lemma live_own: "live crc s tid lo hi l \<Longrightarrow> own_page_no s (page_of l) \<and> page_of l < next_page s"
proof -
  assume "live crc s tid lo hi l"
  then have "own_page_no s (page_of l)" by (cases l) (auto simp: leaf_live_def node_live_def)
  then show ?thesis by (auto simp: own_page_no_def available_def)
qed

lemma write_loop_node:
  assumes "idle crc s" "focus crc s tid z l" "children l \<noteq> []" "owned s z" "\<not> is_frozen s (page_of l)" "fences_fit f z"
    and "over (hole_lo z) key" "under (hole_hi z) key"
  obtains u i f' where "i < length (children l)" "idle crc u" "evolves crc s u {} 0" "focus crc u tid ((l, i) # z) (children l ! i)"
    "owned u ((l, i) # z)" "fences_fit f' ((l, i) # z)" "over (hole_lo ((l, i) # z)) key" "under (hole_hi ((l, i) # z)) key"
    "write_loop crc debug tid key s (page_of l) (rev (ctx_path z)) f =
       then_may (Some (own_child crc debug u (page_of l) i (page_of (children l ! i)))) (\<lambda>s p.
         write_loop crc debug tid key s p (rev (ctx_path ((l, i) # z))) f')"
proof -
  let ?cs = "map page_of (children l)" and ?ks = "seps l" and ?p = "page_of l"
  have f: "alloc_ready s" "live crc s tid (hole_lo z) (hole_hi z) l" using assms(2) by (simp_all add: focus_def)
  have nl: "node_live crc s tid (hole_lo z) (hole_hi z) ?p ?cs ?ks" using live_node [of crc s tid "hole_lo z" "hole_hi z" l] f(2) assms(3) by blast
  then obtain b where b: "holds crc s ?p b" "node_image crc tid ?p (hd ?cs) (zip ?ks (tl ?cs)) b" and srt: "sorted_wrt (<) ?ks"
    unfolding node_live_def by blast
  have lc: "length ?cs = Suc (length ?ks)" using length_children [OF assms(3)] by simp
  let ?k = "write_page tid key (next_page s) ?p f"
  obtain b' u where u: "with_page crc s ?p ?k = (u, ?k b')" "node_image crc tid ?p (hd ?cs) (zip ?ks (tl ?cs)) b'" "reads_only crc s u"
    by (rule with_page_node [OF assms(1) b])
  define i where "i = length (takeWhile (\<lambda>k. k \<le> key) ?ks)"
  note r = route_facts [OF srt assms(7,8) i_def]
  have il: "i < length (children l)" using r(1) lc by simp
  have own: "own_page_no s (page_of (children l ! i))" "page_of (children l ! i) < next_page s"
    using live_own [OF enter_child(2) [OF f(2) il]] by simp_all
  obtain f' where f': "?k b' = Ok (Some (i, ?cs ! i, f'))"
      "armable f' \<Longrightarrow> armable f \<and> fence_get (lf_lower f') = fence_lo (fence_get (lf_lower f)) ?ks i \<and>
         fence_get (lf_upper f') = fence_hi (fence_get (lf_upper f)) ?ks i"
    by (rule write_page_node [OF u(2) lc srt i_def, of "next_page s" f]) (use own il in \<open>auto simp: own_page_no_def\<close>)
  note eu = reads_only_evolves [OF f(1) u(3)]
  have "write_loop crc debug tid key s ?p (rev (ctx_path z)) f =
       then_may (Some (own_child crc debug u ?p i (page_of (children l ! i)))) (\<lambda>s p. write_loop crc debug tid key s p (rev (ctx_path ((l, i) # z))) f')"
    using il by (subst write_loop.simps) (simp add: u(1) f'(1))
  moreover have "focus crc u tid ((l, i) # z) (children l ! i)" using focus_child [OF focus_evolves [OF assms(2) eu] il] by simp
  moreover have "owned u ((l, i) # z)" using owned_evolves [OF assms(4) eu] assms(5) eu by (auto simp: evolves_def)
  moreover have "fences_fit f' ((l, i) # z)" using f'(2) assms(6) by (auto simp: fences_fit_def)
  ultimately show thesis using that il reads_only_idle [OF u(3)] eu r(2,3) by simp
qed

lemma child_pages: "i < length (children n) \<Longrightarrow> set (tree_pages (children n ! i)) \<subseteq> set (tree_pages n)"
proof -
  assume "i < length (children n)"
  then have "children n ! i \<in> set (children n)" "children n \<noteq> []" by auto
  then show ?thesis using tree_pages_children [of n] by auto
qed

lemma child_entries:
  assumes "i < length (children n)" "tree_entries c = tree_entries (children n ! i)"
  shows "tree_entries (set_child n i c) = tree_entries n"
proof -
  have ne: "children n \<noteq> []" "children (set_child n i c) \<noteq> []" using assms(1) by auto
  have "map tree_entries ((children n)[i := c]) = map tree_entries (children n)"
    using assms by (simp add: map_update) (metis list_update_id nth_map)
  then show ?thesis using entries_children [OF ne(1)] entries_children [OF ne(2)] by simp
qed

lemma set_child_pages:
  assumes "i < length (children n)"
  shows "set (tree_pages (set_child n i c)) \<subseteq> set (tree_pages n) \<union> set (tree_pages c)"
proof -
  have ne: "children n \<noteq> []" "children (set_child n i c) \<noteq> []" using assms by auto
  have "set ((children n)[i := c]) \<subseteq> insert c (set (children n))" by (rule set_update_subset_insert)
  then show ?thesis using tree_pages_children [OF ne(1)] tree_pages_children [OF ne(2)] by auto
qed

lemma descended_child:
  assumes "descended crc t tid key ((l, i) # z) c x" "set (tree_pages c) \<subseteq> set (tree_pages (children l ! i)) \<union> available s"
    and "evolves crc s t {page_of l, page_of (children l ! i)} 1" "i < length (children l)"
    and "tree_entries c = tree_entries (children l ! i)" "height c < height l"
  shows "descended crc s tid key z l x"
proof -
  obtain u g leaf b es y f where d: "x = (u, Ok (g, leaf, rev (ctx_path (y @ (l, i) # z)), f))" "guarded crc u [(g, leaf, b)]"
      "focus crc u tid (y @ (l, i) # z) (TLeaf leaf es)" "owned u (y @ (l, i) # z)" "\<not> is_frozen u leaf" "fences_fit f (y @ (l, i) # z)"
      "over (hole_lo (y @ (l, i) # z)) key" "under (hole_hi (y @ (l, i) # z)) key" "evolves crc t u (set (tree_pages c)) (height c)"
      "tree_entries (plug y (TLeaf leaf es)) = tree_entries c" "length y \<le> height c"
      "set (tree_pages (plug y (TLeaf leaf es))) \<subseteq> set (tree_pages c) \<union> available t"
    using assms(1) unfolding descended_def by blast
  have pl: "plug (y @ [(l, i)]) (TLeaf leaf es) = set_child l i (plug y (TLeaf leaf es))" by (simp add: plug_append)
  have ap: "(y @ [(l, i)]) @ z = y @ (l, i) # z" by simp
  have "{page_of l, page_of (children l ! i)} \<union> set (tree_pages c) \<subseteq> set (tree_pages l) \<union> available s"
    using assms(2) child_pages [OF assms(4)] page_of_in_pages [of l] page_of_in_pages [of "children l ! i"] by blast
  then have "evolves crc s u (set (tree_pages l) \<union> available s) (height l)"
    by (rule evolves_mono [OF evolves_trans [OF assms(3) d(9)]]) (use assms(6) in simp)
  then have ev: "evolves crc s u (set (tree_pages l)) (height l)" by (rule evolves_fresh) simp
  have en: "tree_entries (plug (y @ [(l, i)]) (TLeaf leaf es)) = tree_entries l" "page_of (plug (y @ [(l, i)]) (TLeaf leaf es)) = page_of l"
    unfolding pl using child_entries [OF assms(4), of "plug y (TLeaf leaf es)"] d(10) assms(5) by simp_all
  have "available t \<subseteq> available s \<union> set (tree_pages l)"
    using assms(3) child_pages [OF assms(4)] page_of_in_pages [of l] page_of_in_pages [of "children l ! i"] unfolding evolves_def by blast
  then have pg: "set (tree_pages (plug (y @ [(l, i)]) (TLeaf leaf es))) \<subseteq> set (tree_pages l) \<union> available s"
    unfolding pl using set_child_pages [OF assms(4), of "plug y (TLeaf leaf es)"] d(12) assms(2) child_pages [OF assms(4)] by blast
  show ?thesis
    unfolding descended_def
    by (rule exI [of _ u], rule exI [of _ g], rule exI [of _ leaf], rule exI [of _ b], rule exI [of _ es], rule exI [of _ "y @ [(l, i)]"], rule exI [of _ f])
      (unfold ap, use d ev en pg assms(6) in simp)
qed

lemma write_loop_step:
  assumes "idle crc s" "focus crc s tid z l" "owned s z" "\<not> is_frozen s (page_of l)" "fences_fit f z" "over (hole_lo z) key" "under (hole_hi z) key"
  shows "\<exists>x. write_loop crc debug tid key s (page_of l) (rev (ctx_path z)) f = Some x \<and>
    (descended crc s tid key z l x \<or> \<not> plenty s (height l) \<and> refused x)"
  using assms
proof (induction "height l" arbitrary: s z l f rule: less_induct)
  case less
  show ?case
  proof (cases "children l = []")
    case True
    then obtain p es where l: "l = TLeaf p es" by (cases l) auto
    show ?thesis unfolding l page_of.simps by (rule write_loop_leaf [OF less.prems [unfolded l page_of.simps]]) blast
  next
    case False
    obtain u i f' where u: "i < length (children l)" "idle crc u" "evolves crc s u {} 0" "focus crc u tid ((l, i) # z) (children l ! i)"
        "owned u ((l, i) # z)" "fences_fit f' ((l, i) # z)" "over (hole_lo ((l, i) # z)) key" "under (hole_hi ((l, i) # z)) key"
        "write_loop crc debug tid key s (page_of l) (rev (ctx_path z)) f =
           then_may (Some (own_child crc debug u (page_of l) i (page_of (children l ! i)))) (\<lambda>s p.
             write_loop crc debug tid key s p (rev (ctx_path ((l, i) # z))) f')"
      by (rule write_loop_node [OF less.prems(1,2) False less.prems(3-7)])
    let ?c = "children l ! i" and ?z = "(l, i) # z"
    have hc: "height ?c < height l" by (rule height_child [OF u(1)])
    have fz: "\<not> is_frozen u (page_of l)" using u(5) by simp
    consider (ok) t c where "own_child crc debug u (page_of l) i (page_of ?c) = (t, Ok (page_of c))" "idle crc t" "focus crc t tid ?z c"
        "evolves crc u t {page_of l, page_of ?c} 1" "\<not> is_frozen t (page_of c)" "c = ?c \<or> (\<exists>no \<in> available u. c = renumber ?c no)"
      | (no) "\<not> plenty u 1" "refused (own_child crc debug u (page_of l) i (page_of ?c))"
      using own_child_step [OF u(2,4) fz, of debug] by blast
    then show ?thesis
    proof cases
      case ok
      have hcc: "height c = height ?c" using ok(6) by auto
      have "owned t ?z" by (rule owned_evolves [OF u(5) ok(4)])
      then obtain x where x: "write_loop crc debug tid key t (page_of c) (rev (ctx_path ?z)) f' = Some x"
          "descended crc t tid key ?z c x \<or> \<not> plenty t (height c) \<and> refused x"
        using less.hyps [OF _ ok(2,3) _ ok(5) u(6-8)] hc hcc by auto
      have wx: "write_loop crc debug tid key s (page_of l) (rev (ctx_path z)) f = Some x" using u(9) ok(1) x(1) by simp
      have est: "evolves crc s t {page_of l, page_of ?c} 1" using evolves_trans [OF u(3) ok(4)] by simp
      show ?thesis
      proof (cases "descended crc t tid key ?z c x")
        case True
        have "set (tree_pages c) \<subseteq> set (tree_pages ?c) \<union> available s"
          using ok(6) u(3) by (auto simp: evolves_def dest: tl_pages)
        then have "descended crc s tid key z l x" using descended_child [OF True _ est u(1)] ok(6) hc by auto
        then show ?thesis using wx by blast
      next
        case False
        then have "\<not> plenty t (height c)" "refused x" using x(2) by blast+
        moreover have "\<not> plenty s (height l)"
          using calculation(1) plenty_evolves [OF _ est, of "height c"] plenty_mono [of s "height l" "1 + height c"] hc hcc by auto
        ultimately show ?thesis using wx by blast
      qed
    next
      case no
      have "\<not> plenty s (height l)" using no(1) plenty_evolves [OF _ u(3), of 1] plenty_mono [of s "height l" 1] hc by auto
      then show ?thesis using u(9) no(2) by (cases "own_child crc debug u (page_of l) i (page_of ?c)"; cases "snd (own_child crc debug u (page_of l) i (page_of ?c))") auto
    qed
  qed
qed

section \<open>From the root\<close>

text \<open>The handle names the root of the tree.\<close>

definition handles :: "crc_fn \<Rightarrow> pool \<Rightarrow> writer \<Rightarrow> tree \<Rightarrow> bool" where
  "handles crc s w l \<longleftrightarrow> root w = page_of l \<and> focus crc s (tree_id w) [] l"

lemma own_root_step:
  assumes "idle crc s" "handles crc s w l"
  shows "(\<exists>t no l'. own_root crc debug (s, w) = ((t, w\<lparr>root := no\<rparr>), Ok ()) \<and> idle crc t \<and> handles crc t (w\<lparr>root := no\<rparr>) l' \<and>
      evolves crc s t {page_of l} 1 \<and> \<not> is_frozen t no \<and> (l' = l \<or> (\<exists>m \<in> available s. l' = renumber l m))) \<or>
    \<not> plenty s 1 \<and> refused (own_root crc debug (s, w))"
proof (cases "is_frozen s (root w)")
  case False
  have "alloc_ready s" using assms(2) by (simp add: handles_def focus_def)
  then have "evolves crc s s {page_of l} 1" by (rule evolves_mono [OF evolves_refl [where D = "{}"]]) simp_all
  then show ?thesis using assms False by (intro disjI1 exI [of _ s] exI [of _ "root w"] exI [of _ l]) (simp add: own_root_def)
next
  case True
  have f: "alloc_ready s" "live crc s (tree_id w) None None l" "distinct (tree_pages l)" and r: "root w = page_of l"
    using assms(2) by (simp_all add: handles_def focus_def)
  consider (ok) t no where "shadow_page crc debug s (page_of l) = (t, Ok no)" "idle crc t" "evolves crc s t {page_of l} 1" "no \<in> available s"
      "\<not> is_frozen t no" "live crc t (tree_id w) None None (renumber l no)"
    | (no) "\<not> plenty s 1" "refused (shadow_page crc debug s (page_of l))"
    using shadow_live [OF assms(1) f, of debug] by blast
  then show ?thesis
  proof cases
    case ok
    have "no \<notin> set (tree_pages l)" using live_unavailable [OF f(2)] ok(4) by blast
    then have "distinct (tree_pages (renumber l no))" using f(3) tl_pages [of no l] by (auto intro: distinct_tl)
    then have "handles crc t (w\<lparr>root := no\<rparr>) (renumber l no)" using ok(6) evolves_ready [OF ok(3)] by (simp add: handles_def focus_def)
    moreover have "own_root crc debug (s, w) = ((t, w\<lparr>root := no\<rparr>), Ok ())" using True ok(1) r by (simp add: own_root_def in_pool_def)
    ultimately show ?thesis using ok by blast
  next
    case no
    then have "refused (own_root crc debug (s, w))"
      using True r by (cases "shadow_page crc debug s (page_of l)"; cases "snd (shadow_page crc debug s (page_of l))") (auto simp: own_root_def in_pool_def)
    then show ?thesis using no(1) by blast
  qed
qed

definition reached :: "crc_fn \<Rightarrow> wstate \<Rightarrow> bytes \<Rightarrow> tree \<Rightarrow> wstate \<times> (nat \<times> nat \<times> nat list \<times> leaf_fences) kresult \<Rightarrow> bool" where
  "reached crc sw key l x \<longleftrightarrow>
     (\<exists>t no g leaf b es z f. x = ((t, (snd sw)\<lparr>root := no\<rparr>), Ok (g, leaf, rev (ctx_path z), f)) \<and> guarded crc t [(g, leaf, b)] \<and>
        focus crc t (tree_id (snd sw)) z (TLeaf leaf es) \<and> owned t z \<and> \<not> is_frozen t leaf \<and> fences_fit f z \<and>
        over (hole_lo z) key \<and> under (hole_hi z) key \<and> evolves crc (fst sw) t (set (tree_pages l)) (Suc (height l)) \<and> length z \<le> height l \<and>
        tree_entries (plug z (TLeaf leaf es)) = tree_entries l \<and> page_of (plug z (TLeaf leaf es)) = no \<and>
        set (tree_pages (plug z (TLeaf leaf es))) \<subseteq> set (tree_pages l) \<union> available (fst sw))"

lemma descend_for_write_step:
  assumes "idle crc s" "handles crc s w l"
  shows "\<exists>x. descend_for_write_fenced crc debug (s, w) key = Some x \<and>
    (reached crc (s, w) key l x \<or> \<not> plenty s (Suc (height l)) \<and> refused x)"
proof -
  consider (ok) t no l' where "own_root crc debug (s, w) = ((t, w\<lparr>root := no\<rparr>), Ok ())" "idle crc t" "handles crc t (w\<lparr>root := no\<rparr>) l'"
      "evolves crc s t {page_of l} 1" "\<not> is_frozen t no" "l' = l \<or> (\<exists>m \<in> available s. l' = renumber l m)"
    | (no) "\<not> plenty s 1" "refused (own_root crc debug (s, w))"
    using own_root_step [OF assms, of debug] by blast
  then show ?thesis
  proof cases
    case ok
    have h: "no = page_of l'" "focus crc t (tree_id w) [] l'" using ok(3) by (simp_all add: handles_def)
    have ff: "fences_fit fences_none []" by (simp add: fences_fit_def fences_none_def)
    obtain x where x: "write_loop crc debug (tree_id w) key t (page_of l') (rev (ctx_path [])) fences_none = Some x"
        "descended crc t (tree_id w) key [] l' x \<or> \<not> plenty t (height l') \<and> refused x"
      using write_loop_step [OF ok(2) h(2) _ _ ff, of key debug] ok(5) h(1) by (auto simp: over_def under_def)
    have hl: "height l' = height l" "tree_entries l' = tree_entries l" using ok(6) by auto
    have d: "descend_for_write_fenced crc debug (s, w) key = Some (in_pool (w\<lparr>root := no\<rparr>) x)"
      using x(1) h(1) by (simp add: descend_for_write_fenced_def ok(1))
    show ?thesis
    proof (cases "descended crc t (tree_id w) key [] l' x")
      case True
      then obtain u g leaf b es z f where u: "x = (u, Ok (g, leaf, rev (ctx_path z), f))" "guarded crc u [(g, leaf, b)]"
          "focus crc u (tree_id w) z (TLeaf leaf es)" "owned u z" "\<not> is_frozen u leaf" "fences_fit f z" "over (hole_lo z) key" "under (hole_hi z) key"
          "evolves crc t u (set (tree_pages l')) (height l')" "tree_entries (plug z (TLeaf leaf es)) = tree_entries l'"
          "page_of (plug z (TLeaf leaf es)) = page_of l'" "length z \<le> height l'"
          "set (tree_pages (plug z (TLeaf leaf es))) \<subseteq> set (tree_pages l') \<union> available t"
        unfolding descended_def append_Nil2 by blast
      have lp: "set (tree_pages l') \<subseteq> set (tree_pages l) \<union> available s" using ok(6) by (auto dest: tl_pages)
      have "available t \<subseteq> available s \<union> set (tree_pages l)" using ok(4) page_of_in_pages [of l] unfolding evolves_def by blast
      then have pg: "set (tree_pages (plug z (TLeaf leaf es))) \<subseteq> set (tree_pages l) \<union> available s" using u(13) lp by blast
      have sub: "{page_of l} \<union> set (tree_pages l') \<subseteq> set (tree_pages l) \<union> available s" using lp page_of_in_pages [of l] by blast
      have "evolves crc s u (set (tree_pages l) \<union> available s) (Suc (height l))"
        by (rule evolves_mono [OF evolves_trans [OF ok(4) u(9)] sub]) (simp add: hl)
      then have "evolves crc s u (set (tree_pages l)) (Suc (height l))" by (rule evolves_fresh) simp
      then have "reached crc (s, w) key l (in_pool (w\<lparr>root := no\<rparr>) x)"
        unfolding reached_def fst_conv snd_conv in_pool_def u(1) prod.case using u(2-8,10-12) hl h(1) pg by metis
      then show ?thesis using d by blast
    next
      case False
      then have "\<not> plenty t (height l)" "refused (in_pool (w\<lparr>root := no\<rparr>) x)" using x(2) hl(1) by (auto simp: in_pool_def refused_def split: prod.splits)
      then show ?thesis using d plenty_evolves [OF _ ok(4), of "height l"] by auto
    qed
  next
    case no
    then have "\<exists>x. descend_for_write_fenced crc debug (s, w) key = Some x \<and> refused x"
      by (cases "own_root crc debug (s, w)"; cases "snd (own_root crc debug (s, w))") (auto simp: descend_for_write_fenced_def)
    then show ?thesis using no(1) plenty_mono [of s "Suc (height l)" 1] by auto
  qed
qed

section \<open>A new tree\<close>

lemma btree_create_step:
  assumes "idle crc s" "alloc_ready s"
  shows "(\<exists>t w. btree_create crc debug s tid hint n_hits n_attempts = (t, Ok w) \<and> idle crc t \<and> evolves crc s t {} 1 \<and>
      handles crc t w (TLeaf (root w) []) \<and> tree_id w = tid \<and> tags w = None \<and> last_leaf w = hint \<and> \<not> is_frozen t (root w) \<and> root w \<in> available s) \<or>
    \<not> plenty s 1 \<and> refused (btree_create crc debug s tid hint n_hits n_attempts)"
proof -
  have g: "guarded crc s []" "frames s \<noteq> []" using assms(1) by (simp_all add: idle_guarded)
  consider (ok) t i no e where "allocate crc debug s = (t, Ok (i, no))" "guarded crc t [(i, no, e)]" "evolves crc s t {} 1"
      "no \<in> available s" "own_page_no t no" "\<not> is_frozen t no" "no < u32_max"
    | (no) "\<not> plenty s 1" "refused (allocate crc debug s)"
    using allocate_step [OF g(1) assms(2), of debug] g(2) by auto
  then show ?thesis
  proof cases
    case ok
    have le: "length e = 4096" using ok(2) page_ok_length by (auto simp: guarded_def PAGE_SIZE_def)
    obtain p where p: "page_init e PageLeaf tid (of_nat no) = Ok p" "page_is no PageLeaf tid 0 p" "page_slots p = []"
      by (rule page_init_is [OF le])
    note fi = finalise_is [OF p(2)]
    let ?c = "finalise p 0"
    note at = evolves_ready [OF ok(3)]
    obtain u where u: "edit_frame t i (\<lambda>b. obind (page_init b PageLeaf tid (of_nat no)) (\<lambda>p. Ok (finalise p 0, ()))) = (u, Ok ())"
        "guarded crc u [(i, no, ?c)]" "evolves crc t u {no} 0" "reuse.truncate u = reuse.truncate t" "holds crc u no ?c"
      by (rule edit_frame_guarded [OF ok(2) at, of "\<lambda>b. obind (page_init b PageLeaf tid (of_nat no)) (\<lambda>p. Ok (finalise p 0, ()))" ?c "()"])
        (use p(1) page_is_ok(1) [OF fi(1)] in auto)
    let ?w = "\<lparr>tree_id = tid, root = no, last_leaf = hint, fast_path_hits = n_hits, fast_path_attempts = n_attempts, tags = None\<rparr>"
    obtain v where v: "drop_after i (u, Ok ?w) = (v, Ok ?w)" "guarded crc v []" "evolves crc u v {} 0" "reuse.truncate v = reuse.truncate u"
        "\<And>m c. holds crc u m c \<longleftrightarrow> holds crc v m c"
      by (rule drop_after_guarded [OF u(2) evolves_ready [OF u(3)], of "Ok ?w"]) blast
    have tr: "reuse.truncate v = reuse.truncate t" using v(4) u(4) by simp
    have own: "own_page_no v no" using ok(5) alloc_inv_truncate [OF tr] by (simp add: own_page_no_def available_def)
    have "evolves crc s v {no} 1" using evolves_trans [OF evolves_trans [OF ok(3) u(3)] v(3)] by simp
    then have ev: "evolves crc s v {} 1" by (rule fresh_evolves [OF _ ok(4)]) (use own in \<open>simp add: own_page_no_def\<close>)
    have "leaf_image crc v tid no [] ?c" by (rule leaf_image_is [OF fi(1)]) (simp add: fi(2) p(3))
    then have "leaf_live crc v tid None None no []" using own u(5) v(5) page_is_ok(4,5) [OF fi(1)] unfolding leaf_live_def by auto
    then have "handles crc v ?w (TLeaf no [])" using evolves_ready [OF v(3)] by (simp add: handles_def focus_def)
    moreover have "idle crc v"
    proof -
      have "length (frames v) = length (frames s)" using ev by (simp add: evolves_def)
      then show ?thesis using v(2) g(2) by (auto simp: idle_guarded)
    qed
    moreover have "no \<noteq> 0" using own by (auto simp: own_page_no_def)
    then have "btree_create crc debug s tid hint n_hits n_attempts = (v, Ok ?w)"
      using ok(1) u(1) v(1) by (simp add: btree_create_def)
    moreover have "\<not> is_frozen v no" using ok(6) truncate_frozen [OF tr] by simp
    ultimately show ?thesis using ev ok(4) by (intro disjI1 exI [of _ v] exI [of _ ?w]) simp
  next
    case no
    then show ?thesis by (simp add: btree_create_def refused_then)
  qed
qed

section \<open>Around the leaf\<close>

lemma ctx_order:
  assumes "ctx_live crc s tid z p"
  shows "(\<forall>e \<in> set (ctx_left z). \<exists>lo. hole_lo z = Some lo \<and> fst e < lo) \<and> (\<forall>e \<in> set (ctx_right z). \<exists>hi. hole_hi z = Some hi \<and> hi \<le> fst e)"
  using assms
proof (induction z arbitrary: p)
  case (Cons x z)
  obtain n i where x: "x = (n, i)" by (cases x)
  have fr: "frame_live crc s tid (hole_lo z) (hole_hi z) n i p" and cz: "ctx_live crc s tid z (page_of n)" using Cons.prems by (simp_all add: x)
  have i: "i < length (children n)" and nl: "node_live crc s tid (hole_lo z) (hole_hi z) (page_of n) ((map page_of (children n))[i := p]) (seps n)"
    using fr by (simp_all add: frame_live_def)
  have srt: "sorted_wrt (<) (seps n)" and lc: "length (children n) = Suc (length (seps n))" and
      inside: "\<forall>k \<in> set (seps n). over (hole_lo z) k \<and> under (hole_hi z) k"
    using nl by (simp_all add: node_live_def)
  have le: "seps n ! a \<le> seps n ! b" if "a \<le> b" "b < length (seps n)" for a b
    using sorted_wrt_nth_less [OF srt, of a b] that by (cases "a = b") auto
  have kid: "over (fence_lo (hole_lo z) (seps n) j) (fst e) \<and> under (fence_hi (hole_hi z) (seps n) j) (fst e)"
    if "j < length (children n)" "j \<noteq> i" "e \<in> set (tree_entries (children n ! j))" for j e
  proof -
    have "live crc s tid (fence_lo (hole_lo z) (seps n) j) (fence_hi (hole_hi z) (seps n) j) (children n ! j)"
      using fr that(1,2) unfolding frame_live_def by blast
    from live_keys [OF this, of "fst e"] that(3) show ?thesis by blast
  qed
  have "\<exists>lo. hole_lo (x # z) = Some lo \<and> fst e < lo" if e: "e \<in> set (ctx_left (x # z))" for e
  proof (cases "e \<in> set (ctx_left z)")
    case True
    then obtain lo where "hole_lo z = Some lo" "fst e < lo" using Cons.IH [OF cz] by blast
    then show ?thesis using inside i lc by (cases "i = 0") (auto simp: x fence_lo_def over_def intro: less_le_trans)
  next
    case False
    then obtain c where c: "c \<in> set (take i (children n))" "e \<in> set (tree_entries c)" using e by (auto simp: x)
    obtain j where j: "j < i" "e \<in> set (tree_entries (children n ! j))"
      using c(1) [unfolded in_set_conv_nth] c(2) by (auto intro: that)
    then have "fst e < seps n ! j" using kid [of j e] i lc by (simp add: fence_hi_def under_def)
    also have "\<dots> \<le> seps n ! (i - 1)" using le [of j "i - 1"] j i lc by simp
    finally show ?thesis using j by (simp add: x fence_lo_def)
  qed
  moreover have "\<exists>hi. hole_hi (x # z) = Some hi \<and> hi \<le> fst e" if e: "e \<in> set (ctx_right (x # z))" for e
  proof (cases "e \<in> set (ctx_right z)")
    case True
    then obtain hi where hi: "hole_hi z = Some hi" "hi \<le> fst e" using Cons.IH [OF cz] by blast
    have "seps n ! i \<le> fst e" if "i < length (seps n)"
      using inside nth_mem [OF that] hi by (auto simp: under_def intro: order.trans [OF less_imp_le])
    then show ?thesis using hi by (simp add: x fence_hi_def)
  next
    case False
    then obtain c where c: "c \<in> set (drop (Suc i) (children n))" "e \<in> set (tree_entries c)" using e by (auto simp: x)
    obtain j where "j < length (drop (Suc i) (children n))" "drop (Suc i) (children n) ! j = c" using c(1) by (metis in_set_conv_nth)
    then have j: "Suc i + j < length (children n)" "e \<in> set (tree_entries (children n ! (Suc i + j)))" using c(2) by auto
    have "seps n ! i \<le> seps n ! (i + j)" using le [of i "i + j"] j(1) lc by simp
    also have "\<dots> \<le> fst e" using kid [OF j(1) _ j(2)] by (simp add: fence_lo_def over_def)
    finally show ?thesis using j lc by (simp add: x fence_hi_def)
  qed
  ultimately show ?case by blast
qed simp

lemma focus_order:
  assumes "focus crc s tid z l" "over (hole_lo z) key" "under (hole_hi z) key"
  shows "\<forall>e \<in> set (ctx_left z). fst e < key" "\<forall>e \<in> set (ctx_right z). key < fst e"
proof -
  have c: "ctx_live crc s tid z (page_of l)" using assms(1) by (simp add: focus_def)
  show "\<forall>e \<in> set (ctx_left z). fst e < key" using ctx_order [OF c] assms(2) by (fastforce simp: over_def)
  show "\<forall>e \<in> set (ctx_right z). key < fst e" using ctx_order [OF c] assms(3) by (fastforce simp: under_def)
qed

text \<open>The image under the guard is the leaf.\<close>

lemma leaf_guard:
  assumes "guarded crc s ((g, leaf, b) # gs)" "focus crc s tid z (TLeaf leaf es)"
  shows "region s ! g = b" "leaf_image crc s tid leaf es b" "page_is leaf PageLeaf tid (page_next_leaf b) b" "page_next_leaf b = 0 \<longrightarrow> hole_hi z = None"
    "holds crc s leaf b"
proof -
  have g: "guard_ok crc s (g, leaf, b)" using assms(1) by (simp add: guarded_def)
  have h: "holds crc s leaf b" by (rule guard_ok_holds [OF g])
  then have pb: "page_ok crc leaf b" by (simp add: holds_def)
  obtain c where c: "holds crc s leaf c" "leaf_image crc s tid leaf es c" "page_wf c" "page_next_leaf c = 0 \<longrightarrow> hole_hi z = None"
    using assms(2) by (auto simp: focus_def leaf_live_def)
  have bc: "page_body b = page_body c" using h c(1) by (simp add: holds_def)
  show "region s ! g = b" using g by simp
  show "leaf_image crc s tid leaf es b" by (rule leaf_image_body [OF c(2) pb bc])
  note pi = page_is_body [OF leaf_image_page_is [OF c(2,3)] pb bc]
  show "page_is leaf PageLeaf tid (page_next_leaf b) b" "page_next_leaf b = 0 \<longrightarrow> hole_hi z = None"
    using pi(1) page_is_ok(4) [OF pi(1)] c(4) by simp_all
  show "holds crc s leaf b" by (rule h)
qed

section \<open>The descent for a write\<close>

lemma ctx_path_owned: "owned s z \<Longrightarrow> p \<in> set (ctx_path z) \<Longrightarrow> \<not> is_frozen s p"
  by (auto simp: owned_def ctx_path_def)

lemma map_of_between:
  assumes "\<forall>e \<in> set xs. fst e \<noteq> k" "\<forall>e \<in> set zs. fst e \<noteq> k"
  shows "map_of (xs @ ys @ zs) k = map_of ys k"
proof -
  have "map_of xs k = None" "map_of zs k = None" using assms by (auto simp: map_of_eq_None_iff)
  then show ?thesis by (simp add: map_add_def split: option.splits)
qed

lemma focus_lookup:
  assumes "focus crc s tid z l" "over (hole_lo z) key" "under (hole_hi z) key"
  shows "map_of (tree_entries (plug z l)) key = map_of (tree_entries l) key"
proof -
  note o = focus_order [OF assms]
  have "\<forall>e \<in> set (ctx_left z). fst e \<noteq> key" "\<forall>e \<in> set (ctx_right z). fst e \<noteq> key" using o by blast+
  then show ?thesis unfolding focus_plug(3) [OF assms(1)] by (rule map_of_between)
qed

lemma focus_handles:
  assumes "focus crc s (tree_id w) z l" "root w = page_of (plug z l)"
  shows "handles crc s w (plug z l)"
  using focus_plug [OF assms(1)] assms by (simp add: handles_def focus_def)

text \<open>
  C5: Copy on write. On an idle pool that holds a live tree, the descent for a write returns; it
  succeeds when no resource policy and no 32-bit page bound stops it. Then the handle names a tree
  with the same entries, live in every page; the leaf it reached is under a write guard and is the one
  that answers for the key; the whole path to it, the leaf included, is this epoch's, so it may be
  edited; and every page outside the tree that the allocator could not hand out reads as before.
\<close>

theorem descend_for_write_correct:
  assumes "idle crc s" "handles crc s w l"
  shows "\<exists>t w' r. descend_for_write_fenced crc debug (s, w) key = Some ((t, w'), r) \<and>
    (limits s = None \<and> next_page s + height l < u32_max \<longrightarrow> is_ok r) \<and>
    (\<forall>g leaf path f. r = Ok (g, leaf, path, f) \<longrightarrow>
       (\<exists>l' b es. w' = w\<lparr>root := page_of l'\<rparr> \<and> guarded crc t [(g, leaf, b)] \<and> handles crc t w' l' \<and> tree_entries l' = tree_entries l \<and>
          leaf_image crc t (tree_id w) leaf es b \<and> map_of (map kv es) key = map_of (tree_entries l) key \<and>
          (\<forall>p \<in> set (path @ [leaf]). \<not> is_frozen t p) \<and>
          (\<forall>m d. m \<notin> set (tree_pages l) \<and> m \<notin> available s \<and> holds crc s m d \<longrightarrow> holds crc t m d)))"
proof -
  obtain x where x: "descend_for_write_fenced crc debug (s, w) key = Some x" "reached crc (s, w) key l x \<or> \<not> plenty s (Suc (height l)) \<and> refused x"
    using descend_for_write_step [OF assms] by blast
  show ?thesis
  proof (cases "reached crc (s, w) key l x")
    case True
    then obtain t no g leaf b es z f where r: "x = ((t, w\<lparr>root := no\<rparr>), Ok (g, leaf, rev (ctx_path z), f))" "guarded crc t [(g, leaf, b)]"
        "focus crc t (tree_id w) z (TLeaf leaf es)" "owned t z" "\<not> is_frozen t leaf" "over (hole_lo z) key" "under (hole_hi z) key"
        "evolves crc s t (set (tree_pages l)) (Suc (height l))" "tree_entries (plug z (TLeaf leaf es)) = tree_entries l"
        "page_of (plug z (TLeaf leaf es)) = no"
      unfolding reached_def fst_conv snd_conv by blast
    have "handles crc t (w\<lparr>root := no\<rparr>) (plug z (TLeaf leaf es))" using r(3,10) by (intro focus_handles) simp_all
    moreover have "map_of (map kv es) key = map_of (tree_entries l) key" using focus_lookup [OF r(3,6,7)] r(9) by simp
    moreover have "\<forall>p \<in> set (rev (ctx_path z) @ [leaf]). \<not> is_frozen t p" using ctx_path_owned [OF r(4)] r(5) by auto
    moreover have "\<forall>m d. m \<notin> set (tree_pages l) \<and> m \<notin> available s \<and> holds crc s m d \<longrightarrow> holds crc t m d"
      using r(8) unfolding evolves_def by blast
    moreover note leaf_guard(2) [OF r(2,3)]
    ultimately show ?thesis
      using x(1) r(1,2,9,10) by (intro exI [of _ t] exI [of _ "w\<lparr>root := no\<rparr>"] exI [of _ "Ok (g, leaf, rev (ctx_path z), f)"]) auto
  next
    case False
    then have "refused x" "\<not> plenty s (Suc (height l))" using x(2) by blast+
    then show ?thesis using x(1) by (cases x; cases "snd x") (auto simp: refused_def plenty_def)
  qed
qed

lemma sample_tree:
  obtains s w where "idle crc32c_append s" "handles crc32c_append s w (TLeaf (root w) [])" "limits s = None" "next_page s \<le> 3" "tree_id w = 1"
    "tags w = None" "last_leaf w = None" "3 \<le> length (frames s)"
proof -
  let ?f = "good_file (replicate 8192 0)" and ?c = crc32c_append
  obtain s where s: "pool_new ?f 16384 0 3 False = Ok s"
    by (auto simp: pool_new_def file_len_def good_file_def PAGE_SIZE_def reserve_next_def checked_add_u64_def Let_def)
  note f = pool_new_facts [OF s]
  have np: "next_page s = 2" by (simp add: f(7) PAGE_SIZE_def)
  have fr: "free s = []" "frozen_boundary s = 0" "limits s = None"
    using s by (auto simp: pool_new_def Let_def obind_iffs file_len_def split: if_splits)
  have rdy: "alloc_ready s" by (simp add: alloc_ready_def alloc_inv_def extent_within_def np fr f page_at_def PAGE_SIZE_def)
  have id: "idle ?c s" by (rule pool_new_idle(1) [OF s]) simp_all
  have "plenty s 1" by (simp add: plenty_def fr np)
  then obtain t w where t: "btree_create ?c False s 1 None 0 0 = (t, Ok w)" "idle ?c t" "evolves ?c s t {} 1"
      "handles ?c t w (TLeaf (root w) [])" "tree_id w = 1" "tags w = None" "last_leaf w = None"
    using btree_create_step [OF id rdy, of False 1 None 0 0] by blast
  then show thesis using that [of t w] fr(3) np f(3) by (simp add: evolves_def)
qed

theorem descend_for_write_correct_witness:
  "\<exists>s w t w' r. idle crc32c_append s \<and> handles crc32c_append s w (TLeaf (root w) []) \<and>
     descend_for_write_fenced crc32c_append False (s, w) [7] = Some ((t, w'), r) \<and> is_ok r"
proof -
  obtain s w where s: "idle crc32c_append s" "handles crc32c_append s w (TLeaf (root w) [])" "limits s = None" "next_page s \<le> 3" by (rule sample_tree)
  obtain t w' r where "descend_for_write_fenced crc32c_append False (s, w) [7] = Some ((t, w'), r)" "is_ok r"
    using descend_for_write_correct [OF s(1,2), of False "[7]"] s(3,4) by auto
  then show ?thesis using s(1,2) by blast
qed

end
