(* ===== verification/Btree_Leaf.thy ===== *)
theory Btree_Leaf
  imports Btree_Descent
begin

text \<open>
  Putting a record into its leaf (\<open>place_record\<close>, the first half of \<open>insert_into_leaf\<close>): the record under
  the same key is taken out, the pages its value was spilled to are listed and retired, and the new
  record goes to its place, or the page is left compacted when it does not fit.
\<close>

section \<open>The pages of a replaced value\<close>

text \<open>Every chunk of a chain is full but the last.\<close>

fun filled :: "nat \<Rightarrow> nat \<Rightarrow> bytes list \<Rightarrow> bool" where
  "filled tot n [] \<longleftrightarrow> n = tot"
| "filled tot n (c # cs) \<longleftrightarrow> length c = min (tot - n) OV_CAP \<and> filled tot (n + length c) cs"

lemma chunks_filled: "n + length xs = tot \<Longrightarrow> filled tot n (chunks OV_CAP xs)"
proof (induction "length xs" arbitrary: n xs rule: less_induct)
  case less
  show ?case
  proof (cases "xs = []")
    case False
    have "filled tot (n + min (length xs) OV_CAP) (chunks OV_CAP (drop OV_CAP xs))"
      by (rule less.hyps) (use False less.prems in \<open>auto simp: ov_values\<close>)
    then show ?thesis using False less.prems by (auto simp: chunks.simps [of _ xs] ov_values min_def)
  qed (use less.prems in simp)
qed

lemma chunks_count: "length (chunks OV_CAP xs) = (length xs + OV_CAP - 1) div OV_CAP"
proof (induction "length xs" arbitrary: xs rule: less_induct)
  case less
  show ?case
  proof (cases "xs = []")
    case False
    have "length (chunks OV_CAP (drop OV_CAP xs)) = (length xs - OV_CAP + OV_CAP - 1) div OV_CAP"
      using less.hyps [of "drop OV_CAP xs"] False by (simp add: ov_values)
    then show ?thesis using False
      by (cases "length xs \<le> OV_CAP")
        (auto simp: chunks.simps [of _ xs] ov_values div_if Suc_diff_le)
  qed (simp add: ov_values)
qed

lemma spill_chain:
  "filled (length val) 0 (spill val)" "length (spill val) = max ((length val + OV_CAP - 1) div OV_CAP) 1"
proof -
  have e: "chunks OV_CAP val = [] \<longleftrightarrow> val = []" by (subst chunks.simps) (simp add: ov_values)
  show "filled (length val) 0 (spill val)"
    using chunks_filled [of 0 val "length val"] e by (auto simp: spill_def split: list.splits)
  show "length (spill val) = max ((length val + OV_CAP - 1) div OV_CAP) 1"
  proof (cases "val = []")
    case False
    then have "chunks OV_CAP val \<noteq> []" using e by blast
    then have "spill val = chunks OV_CAP val" by (auto simp: spill_def split: list.splits)
    then show ?thesis using chunks_count [of val] \<open>chunks OV_CAP val \<noteq> []\<close> by (cases "chunks OV_CAP val") (auto simp: max_def)
  qed (simp add: spill_def ov_values)
qed

lemma length_chain: "chain_holds crc s ps cs \<Longrightarrow> length ps = length cs"
  by (induction crc s ps cs rule: chain_holds.induct) auto

text \<open>Work beside guards that only reads.\<close>

definition reads_beside :: "crc_fn \<Rightarrow> guard list \<Rightarrow> pool \<Rightarrow> pool \<Rightarrow> bool" where
  "reads_beside crc gs s t \<longleftrightarrow> guarded crc t gs \<and> evolves crc s t {} 0 \<and> reuse.truncate t = reuse.truncate s \<and>
     (\<forall>m c. holds crc s m c \<longrightarrow> holds crc t m c)"

lemma reads_beside_refl: "guarded crc s gs \<Longrightarrow> alloc_ready s \<Longrightarrow> reads_beside crc gs s s"
  by (simp add: reads_beside_def evolves_refl)

lemma reads_beside_trans: "reads_beside crc gs s t \<Longrightarrow> reads_beside crc gs t u \<Longrightarrow> reads_beside crc gs s u"
  using evolves_trans [of crc s t "{}" 0 u "{}" 0] by (auto simp: reads_beside_def)

lemma with_read_beside:
  assumes "guarded crc s gs" "length gs < length (frames s)" "alloc_ready s" "no \<notin> set (guard_pages gs)" "holds crc s no b"
  obtains t b' where "with_read crc s no k = (t, k b')" "page_ok crc no b'" "page_body b' = page_body b" "reads_beside crc gs s t"
proof -
  obtain t r where w: "with_read crc s no k = (t, r)" by fastforce
  obtain b' where b': "r = k b'" "page_ok crc no b'" "page_body b' = page_body b" "guarded crc t gs" "length (frames t) = length (frames s)"
      "\<And>m c. holds crc s m c \<Longrightarrow> holds crc t m c" "reuse.truncate t = reuse.truncate s" "\<And>n. extent_within n s \<Longrightarrow> extent_within n t"
    by (rule with_read_guarded [OF assms(1,2,4,5) w]) blast
  have "evolves crc s t {} 0" using b'(6) by (intro evolves_truncate [OF assms(3) b'(7,8,5)])
  then show thesis using that w b' by (simp add: reads_beside_def)
qed

lemma retire_link_image:
  assumes "overflow_image crc no nxt chunk b" "length chunk = min (tot - n) OV_CAP"
  shows "retire_link crc no tot n c b = Ok (length chunk, crc c chunk, page_lsn b, nxt)"
  using assms by (simp add: retire_link_def overflow_image_def page_ok_def Let_def)

lemma reads_beside_facts:
  assumes "reads_beside crc gs s t"
  shows "guarded crc t gs" "evolves crc s t {} 0" "alloc_ready t" "length (frames t) = length (frames s)" "available t = available s"
    "next_page t = next_page s" "limits t = limits s" "is_frozen t = is_frozen s"
  using assms alloc_inv_truncate [of t s] truncate_frozen [of t s]
  by (auto simp: reads_beside_def evolves_def available_def)

lemma retire_walk_chain:
  assumes "crc32c_crate crc"
    and "guarded crc s gs" "length gs < length (frames s)" "alloc_ready s" "chain_holds crc s ps cs" "filled tot n cs"
    and "\<forall>p \<in> set ps. 1 < p \<and> p \<notin> available s \<and> p \<notin> set (guard_pages gs)" "length pages + length ps \<le> bound"
  shows "\<exists>t rs. retire_walk crc s bound tot (head_of ps) pages n c = (t, Ok (pages @ rs, tot, crc c (concat cs))) \<and>
    map fst rs = ps \<and> reads_beside crc gs s t"
  using assms(2-8)
proof (induction ps arbitrary: s cs pages n c)
  case Nil
  then have "cs = []" by (cases cs) simp_all
  then show ?case using Nil reads_beside_refl crc32c_crate.crc_nil [OF assms(1)] by (simp add: retire_walk.simps head_of_def)
next
  case (Cons p ps)
  obtain d cs' where cs: "cs = d # cs'" using Cons.prems(4) by (cases cs) simp_all
  obtain b where b: "holds crc s p b" "overflow_image crc p (head_of ps) d b" and rest: "chain_holds crc s ps cs'"
    using Cons.prems(4) cs by (auto simp: head_of_def)
  have fl: "length d = min (tot - n) OV_CAP" "filled tot (n + length d) cs'" using Cons.prems(5) unfolding cs filled.simps by blast+
  have pp: "1 < p" "p \<notin> available s" "p \<notin> set (guard_pages gs)" using Cons.prems(6) by simp_all
  then have pn: "p < next_page s" by (auto simp: available_def)
  obtain t b' where t: "with_read crc s p (retire_link crc p tot n c) = (t, retire_link crc p tot n c b')" "page_ok crc p b'"
      "page_body b' = page_body b" "reads_beside crc gs s t"
    by (rule with_read_beside [OF Cons.prems(1-3) pp(3) b(1)])
  note rb = reads_beside_facts [OF t(4)]
  note lk = retire_link_image [OF overflow_image_body [OF b(2) t(2,3)] fl(1), of c]
  let ?birth = "if is_frozen t p then page_lsn b' else of_nat (stamp_gen t)"
  have step: "retire_walk crc s bound tot (head_of (p # ps)) pages n c =
      retire_walk crc t bound tot (head_of ps) (pages @ [(p, ?birth)]) (n + length d) (crc c d)"
    using pp(1) pn Cons.prems(7) t(1) lk by (simp add: retire_walk.simps [of crc s] head_of_def Let_def)
  have "chain_holds crc t ps cs'" using chain_holds_mono [OF rest] t(4) by (auto simp: reads_beside_def)
  then obtain u rs where "retire_walk crc t bound tot (head_of ps) (pages @ [(p, ?birth)]) (n + length d) (crc c d) =
      (u, Ok ((pages @ [(p, ?birth)]) @ rs, tot, crc (crc c d) (concat cs')))" "map fst rs = ps" "reads_beside crc gs t u"
    using Cons.IH [OF rb(1) _ rb(3) _ fl(2), of "pages @ [(p, ?birth)]" "crc c d"] Cons.prems(2,6,7) rb(4,5) by auto
  then show ?case using step reads_beside_trans [OF t(4)] crc32c_crate.crc_pieces [OF assms(1)] cs by auto
qed

lemma replaced_pages_cell:
  assumes "crc32c_crate crc" "guarded crc s gs" "length gs < length (frames s)" "alloc_ready s" "cell_holds crc s no rec e"
    and "set (snd (snd e)) \<inter> set (guard_pages gs) = {}"
  obtains t rs where "replaced_overflow_pages crc s rec = (t, Ok rs)" "map fst rs = snd (snd e)" "reads_beside crc gs s t"
proof -
  obtain k v ps where e: "e = (k, v, ps)" by (cases e)
  consider (inline) "decode_record rec (of_nat no) PageLeaf = Ok (LeafRecord k v False)" "ps = []"
    | (chain) marker where "decode_record rec (of_nat no) PageLeaf = Ok (LeafRecord k marker True)" "spilled crc s marker v ps"
    using assms(5) by (auto simp: e cell_holds_def)
  then show thesis
  proof cases
    case inline
    then show thesis using that [of s "[]"] decode_leaf_readers(2) [OF inline(1)] reads_beside_refl [OF assms(2,4)] e
      by (simp add: replaced_overflow_pages_def)
  next
    case chain
    have p: "length v \<le> u32_max" "\<not> over_record_limit s (length v)" "marker = enc_marker (of_nat (length v)) (of_nat (hd ps)) (crc 0 v)"
        "chain_holds crc s ps (spill v)" "ps \<noteq> []" "\<forall>p \<in> set ps. 1 < p" "hd ps \<le> u32_max" "set ps \<inter> available s = {}"
      using chain(2) by (simp_all add: spilled_def)
    have mk: "unat (from_le (slice marker 0 4) :: u32) = length v" "unat (from_le (slice marker 4 8) :: u32) = hd ps"
        "from_le (slice marker 8 12) = crc 0 v"
      using p(1,7) by (simp_all add: p(3) enc_marker_def slice_append_left slice_append_right slice_whole unat_of_nat)
    let ?bound = "max ((length v + OV_CAP - 1) div OV_CAP) 1"
    have lp: "length ps = ?bound" using length_chain [OF p(4)] spill_chain(2) by simp
    have out: "\<forall>p \<in> set ps. 1 < p \<and> p \<notin> available s \<and> p \<notin> set (guard_pages gs)" using p(6,8) assms(6) unfolding e snd_conv by blast
    obtain t rs where t: "retire_walk crc s ?bound (length v) (head_of ps) [] 0 0 = (t, Ok ([] @ rs, length v, crc 0 (concat (spill v))))"
        "map fst rs = ps" "reads_beside crc gs s t"
      using retire_walk_chain [OF assms(1-4) p(4) spill_chain(1) out, of "[]" ?bound 0] lp by auto
    have h: "head_of ps = hd ps" using p(5) by (cases ps) (simp_all add: head_of_def)
    have "length rs = length ps" using arg_cong [OF t(2), of length] by simp
    then have "replaced_overflow_pages crc s rec = (t, Ok rs)"
      using decode_leaf_readers(2) [OF chain(1)] p(2) mk t(1) h lp spill_facts(1) [of v]
      by (simp add: replaced_overflow_pages_def Let_def)
    then show thesis using that t e by simp
  qed
qed

lemma retire_all_step:
  assumes "guarded crc s gs" "alloc_ready s" "distinct (map fst rs)" "\<forall>p \<in> fst ` set rs. own_page_no s p \<and> p \<notin> set (guard_pages gs)"
  shows "(\<exists>t. retire_all s rs = (t, Ok ()) \<and> guarded crc t gs \<and> evolves crc s t (fst ` set rs) 0 \<and> (\<forall>m c. holds crc s m c \<longleftrightarrow> holds crc t m c)) \<or>
    limits s \<noteq> None \<and> refused (retire_all s rs)"
  using assms
proof (induction rs arbitrary: s)
  case Nil
  then show ?case by (simp add: evolves_refl)
next
  case (Cons r rs)
  obtain p birth where r: "r = (p, birth)" by (cases r)
  consider (ok) t where "retire s p (unat birth) = (t, Ok ())" "guarded crc t gs" "evolves crc s t {p} 0" "\<forall>m c. holds crc s m c \<longleftrightarrow> holds crc t m c"
    | (no) "limits s \<noteq> None" "refused (retire s p (unat birth))"
    using retire_step [OF Cons.prems(1,2), of p "unat birth"] Cons.prems(4) by (auto simp: r)
  then show ?case
  proof cases
    case ok
    have "\<forall>q \<in> fst ` set rs. own_page_no t q \<and> q \<notin> set (guard_pages gs)"
    proof
      fix q assume q: "q \<in> fst ` set rs"
      then have "q \<noteq> p" using Cons.prems(3) by (auto simp: r)
      then show "own_page_no t q \<and> q \<notin> set (guard_pages gs)" using own_page_no_evolves [OF _ ok(3)] Cons.prems(4) q unfolding list.set by blast
    qed
    then have ih: "(\<exists>u. retire_all t rs = (u, Ok ()) \<and> guarded crc u gs \<and> evolves crc t u (fst ` set rs) 0 \<and> (\<forall>m c. holds crc t m c \<longleftrightarrow> holds crc u m c)) \<or>
        limits t \<noteq> None \<and> refused (retire_all t rs)"
      using Cons.IH [OF ok(2) evolves_ready [OF ok(3)]] Cons.prems(3) by simp
    then show ?thesis
    proof
      assume "\<exists>u. retire_all t rs = (u, Ok ()) \<and> guarded crc u gs \<and> evolves crc t u (fst ` set rs) 0 \<and> (\<forall>m c. holds crc t m c \<longleftrightarrow> holds crc u m c)"
      then obtain u where u: "retire_all t rs = (u, Ok ())" "guarded crc u gs" "evolves crc t u (fst ` set rs) 0" "\<forall>m c. holds crc t m c \<longleftrightarrow> holds crc u m c"
        by blast
      have "evolves crc s u (fst ` set (r # rs)) 0" using evolves_trans [OF ok(3) u(3)] by (simp add: r)
      then show ?thesis using ok(1,4) u by (simp add: r)
    next
      assume "limits t \<noteq> None \<and> refused (retire_all t rs)"
      then show ?thesis using ok(1,3) by (simp add: r evolves_def)
    qed
  next
    case no
    then show ?thesis by (simp add: r refused_then)
  qed
qed

section \<open>The place of a key\<close>

definition before :: "bytes \<Rightarrow> (bytes \<times> 'a) list \<Rightarrow> (bytes \<times> 'a) list" where
  "before key es = filter (\<lambda>e. fst e < key) es"

definition after :: "bytes \<Rightarrow> (bytes \<times> 'a) list \<Rightarrow> (bytes \<times> 'a) list" where
  "after key es = filter (\<lambda>e. key < fst e) es"

lemma before_append [simp]: "before key (xs @ ys) = before key xs @ before key ys" "after key (xs @ ys) = after key xs @ after key ys"
  by (simp_all add: before_def after_def)

lemma before_all: "\<forall>e \<in> set es. fst e < key \<Longrightarrow> before key es = es" "\<forall>e \<in> set es. key < fst e \<Longrightarrow> after key es = es"
  by (simp_all add: before_def after_def filter_id_conv)

lemma before_none: "\<forall>e \<in> set es. key \<le> fst e \<Longrightarrow> before key es = []" "\<forall>e \<in> set es. fst e \<le> key \<Longrightarrow> after key es = []"
  by (simp_all add: before_def after_def filter_empty_conv not_less)

lemma around_key:
  assumes "sorted_wrt (<) (map fst es)"
  shows "take (entry_index key es) es = before key es"
    "entry_index key es < length es \<and> fst (es ! entry_index key es) = key \<Longrightarrow> drop (Suc (entry_index key es)) es = after key es"
    "\<not> (entry_index key es < length es \<and> fst (es ! entry_index key es) = key) \<Longrightarrow> drop (entry_index key es) es = after key es"
    "length (before key es) = entry_index key es"
proof -
  let ?i = "entry_index key es"
  note ix = entry_index_iff [OF assms, where key = key]
  have il: "?i \<le> length es" by (rule entry_index_le)
  have l: "\<forall>e \<in> set (take ?i es). fst e < key"
  proof
    fix e assume "e \<in> set (take ?i es)"
    then obtain j where "j < length (take ?i es)" "take ?i es ! j = e" unfolding in_set_conv_nth by blast
    then show "fst e < key" using ix [of j] il by auto
  qed
  have r: "\<forall>e \<in> set (drop ?i es). key \<le> fst e"
  proof
    fix e assume "e \<in> set (drop ?i es)"
    then obtain j where "j < length (drop ?i es)" "drop ?i es ! j = e" unfolding in_set_conv_nth by blast
    then show "key \<le> fst e" using ix [of "?i + j"] il by (auto simp: not_less)
  qed
  have bf: "before key es = take ?i es"
    using before_append(1) [of key "take ?i es" "drop ?i es"] before_all(1) [OF l] before_none(1) [OF r] by simp
  have "after key (take ?i es) = []" by (rule before_none(2)) (use l in \<open>auto intro: less_imp_le\<close>)
  then have af: "after key es = after key (drop ?i es)" using before_append(2) [of key "take ?i es" "drop ?i es"] by simp
  show "take ?i es = before key es" using bf by simp
  show "length (before key es) = ?i" using bf il by simp
  show "drop ?i es = after key es" if n: "\<not> (?i < length es \<and> fst (es ! ?i) = key)"
  proof -
    have "key < fst e" if e: "e \<in> set (drop ?i es)" for e
    proof -
      obtain j where "j < length (drop ?i es)" "drop ?i es ! j = e" using e unfolding in_set_conv_nth by blast
      then have j: "j < length es - ?i" "e = es ! (?i + j)" using il by auto
      have "fst (es ! ?i) \<le> fst e" using sorted_wrt_nth_less [OF assms, of ?i "?i + j"] j by (cases "j = 0") (simp_all add: less_imp_le)
      moreover have "key < fst (es ! ?i)"
      proof -
        have "\<not> fst (es ! ?i) < key" using ix [of ?i] j(1) by simp
        moreover have "fst (es ! ?i) \<noteq> key" using n j(1) by simp
        ultimately show ?thesis by (simp add: not_less order.not_eq_order_implies_strict)
      qed
      ultimately show ?thesis by (rule less_le_trans [rotated])
    qed
    then show ?thesis unfolding af by (intro before_all(2) [symmetric]) blast
  qed
  show "drop (Suc ?i) es = after key es" if n: "?i < length es \<and> fst (es ! ?i) = key"
  proof -
    have d: "drop ?i es = es ! ?i # drop (Suc ?i) es" using n by (simp add: Cons_nth_drop_Suc)
    have "key < fst e" if e: "e \<in> set (drop (Suc ?i) es)" for e
    proof -
      obtain j where "j < length (drop (Suc ?i) es)" "drop (Suc ?i) es ! j = e" using e unfolding in_set_conv_nth by blast
      then have j: "Suc ?i + j < length es" "e = es ! (Suc ?i + j)" by auto
      then show ?thesis using sorted_wrt_nth_less [OF assms, of ?i "Suc ?i + j"] n by simp
    qed
    then show ?thesis unfolding af d using n before_all(2) [of "drop (Suc ?i) es" key] by (simp add: after_def)
  qed
qed

lemma leaf_search_image:
  assumes "leaf_image crc s tid leaf es b" "sorted_wrt (<) (map fst es)" "i = entry_index key es"
  shows "leaf_search crc leaf key b = Ok (i, if i < length es \<and> fst (es ! i) = key then Some (page_slots b ! i) else None, page_next_leaf b)"
  using leaf_image_entries [OF assms(1)] leaf_lower_bound [OF assms(1,2), of key]
  by (simp add: leaf_search_def open_checked_leaf [OF assms(1)] assms(3))

section \<open>Editing the leaf under its guard\<close>

abbreviation entry_pages :: "entry list \<Rightarrow> nat list" where
  "entry_pages es \<equiv> concat (map (\<lambda>e. snd (snd e)) es)"

lemma cells_evolve:
  assumes "list_all2 (cell_holds crc s no) recs es" "evolves crc s t D c" "set (entry_pages es) \<inter> D = {}"
  shows "list_all2 (cell_holds crc t no) recs es"
proof -
  have "cell_holds crc t no rec e" if "cell_holds crc s no rec e" "e \<in> set es" for rec e
    using cell_holds_evolves [OF that(1) assms(2)] that(2) assms(3) by auto
  then show ?thesis using assms(1) by (auto elim!: list.rel_mono_strong)
qed

lemma leaf_focus:
  assumes "ctx_live crc t tid z leaf" "alloc_ready t" "own_page_no t leaf" "holds crc t leaf c" "page_is leaf PageLeaf tid nxt c"
    and "nxt = 0 \<longrightarrow> hole_hi z = None" "list_all2 (cell_holds crc t leaf) (page_slots c) es" "sorted_wrt (<) (map fst es)"
    and "\<forall>e \<in> set es. over (hole_lo z) (fst e) \<and> under (hole_hi z) (fst e) \<and> length (fst e) \<le> key_cap" "distinct (ctx_pages z @ leaf # entry_pages es)"
  shows "focus crc t tid z (TLeaf leaf es)"
proof -
  have im: "leaf_image crc t tid leaf es c" by (rule leaf_image_is [OF assms(5,7)])
  have "page_next_leaf c = 0 \<longrightarrow> hole_hi z = None" using page_is_ok(4) [OF assms(5)] assms(6) by simp
  then have "leaf_live crc t tid (hole_lo z) (hole_hi z) leaf es"
    using im assms(3,4,8,9) page_is_ok(5) [OF assms(5)] unfolding leaf_live_def by auto
  then show ?thesis using assms(1,2,10) by (simp add: focus_def)
qed

lemma leaf_parts:
  assumes "focus crc s tid z (TLeaf leaf es)"
  shows "alloc_ready s" "ctx_live crc s tid z leaf" "own_page_no s leaf" "sorted_wrt (<) (map fst es)"
    "\<forall>e \<in> set es. over (hole_lo z) (fst e) \<and> under (hole_hi z) (fst e) \<and> length (fst e) \<le> key_cap" "distinct (ctx_pages z @ leaf # entry_pages es)"
  using assms by (simp_all add: focus_def leaf_live_def)

lemma leaf_edit:
  assumes "guarded crc s ((g, leaf, b) # gs)" "focus crc s tid z (TLeaf leaf es)" "f b = Ok (c, x)" "page_is leaf PageLeaf tid (page_next_leaf b) c"
    and "list_all2 (cell_holds crc s leaf) (page_slots c) es'" "sorted_wrt (<) (map fst es')"
    and "\<forall>e \<in> set es'. over (hole_lo z) (fst e) \<and> under (hole_hi z) (fst e) \<and> length (fst e) \<le> key_cap" "distinct (ctx_pages z @ leaf # entry_pages es')"
  obtains t where "edit_frame s g f = (t, Ok x)" "guarded crc t ((g, leaf, c) # gs)" "focus crc t tid z (TLeaf leaf es')" "evolves crc s t {leaf} 0"
    "page_next_leaf c = page_next_leaf b" "reuse.truncate t = reuse.truncate s"
proof -
  note p = leaf_parts [OF assms(2)] and lg = leaf_guard [OF assms(1,2)]
  obtain t where t: "edit_frame s g f = (t, Ok x)" "guarded crc t ((g, leaf, c) # gs)" "evolves crc s t {leaf} 0"
      "reuse.truncate t = reuse.truncate s" "holds crc t leaf c"
    by (rule edit_frame_guarded [where f = f and b = b, OF assms(1) p(1) assms(3) page_is_ok(1) [OF assms(4)]])
  have "ctx_live crc t tid z leaf" by (rule ctx_live_evolves [OF p(2) t(3)]) (use p(6) in simp)
  moreover have "own_page_no t leaf" using p(3) alloc_inv_truncate [OF t(4)] by (simp add: own_page_no_def available_def)
  moreover have "list_all2 (cell_holds crc t leaf) (page_slots c) es'" by (rule cells_evolve [OF assms(5) t(3)]) (use assms(8) in auto)
  ultimately have "focus crc t tid z (TLeaf leaf es')"
    by (intro leaf_focus [OF _ evolves_ready [OF t(3)] _ t(5) assms(4) lg(4) _ assms(6-8)])
  then show thesis using that t page_is_ok(4) [OF assms(4)] by blast
qed

section \<open>Taking the old record out\<close>

lemma around_sorted:
  assumes "sorted_wrt (<) (map fst es)"
  shows "sorted_wrt (<) (map fst (before key es @ after key es))" "fst e = key \<Longrightarrow> sorted_wrt (<) (map fst (before key es @ e # after key es))"
proof -
  have f: "sorted_wrt (<) (map fst (before key es))" "sorted_wrt (<) (map fst (after key es))"
    using sorted_wrt_filter [of "\<lambda>x y. fst x < fst y" es] assms by (simp_all add: before_def after_def sorted_wrt_map)
  then show "sorted_wrt (<) (map fst (before key es @ after key es))" "fst e = key \<Longrightarrow> sorted_wrt (<) (map fst (before key es @ e # after key es))"
    by (auto simp: sorted_wrt_append before_def after_def intro: less_trans)
qed

lemma around_pages:
  assumes "sorted_wrt (<) (map fst es)" "distinct (entry_pages es)"
  shows "set (entry_pages (before key es @ after key es)) \<subseteq> set (entry_pages es)" "distinct (entry_pages (before key es @ after key es))"
    "i = entry_index key es \<Longrightarrow> i < length es \<Longrightarrow> fst (es ! i) = key \<Longrightarrow>
       set (snd (snd (es ! i))) \<inter> set (entry_pages (before key es @ after key es)) = {}"
proof -
  let ?i = "entry_index key es" and ?ba = "before key es @ after key es"
  note ak = around_key [OF assms(1), of key]
  show "set (entry_pages ?ba) \<subseteq> set (entry_pages es)" by (auto simp: before_def after_def)
  have ex: "entry_pages es = entry_pages (before key es) @ snd (snd (es ! ?i)) @ entry_pages (after key es)" if "?i < length es" "fst (es ! ?i) = key"
    using arg_cong [OF id_take_nth_drop [OF that(1)], of entry_pages] ak(1,2) that by simp
  show "distinct (entry_pages ?ba)"
  proof (cases "?i < length es \<and> fst (es ! ?i) = key")
    case True
    then show ?thesis using ex assms(2) by auto
  next
    case False
    then have "before key es @ after key es = es" using ak(1,3) by (metis append_take_drop_id)
    then show ?thesis using assms(2) by simp
  qed
  show "set (snd (snd (es ! i))) \<inter> set (entry_pages ?ba) = {}" if "i = ?i" "i < length es" "fst (es ! i) = key"
    using ex assms(2) that by auto
qed

lemma distinct_within: "distinct (xs @ p # ys) \<Longrightarrow> set zs \<subseteq> set ys \<Longrightarrow> distinct zs \<Longrightarrow> distinct (xs @ p # zs)"
  by auto

lemma entry_pages_distinct: "distinct (entry_pages es) \<Longrightarrow> e \<in> set es \<Longrightarrow> distinct (snd (snd e))"
  by (induction es) auto

lemma cell_pages_own:
  assumes "cell_holds crc s no rec e" "alloc_ready s" "p \<in> set (snd (snd e))"
  shows "own_page_no s p"
proof -
  have "1 < p" "p \<notin> available s" using assms(1,3) by (cases e; auto simp: cell_holds_def spilled_def)+
  then show ?thesis using assms(2) by (auto simp: own_page_no_def available_def alloc_ready_def)
qed

lemma remove_record_is:
  assumes "page_is no kind tid nxt b" "at < nentries b"
  obtains c where "remove_record at b = Ok c" "page_is no kind tid nxt c" "page_slots c = take at (page_slots b) @ drop (Suc at) (page_slots b)"
proof -
  obtain r where r: "remove_slot b at = Ok r" "page_is no kind tid nxt r" "page_slots r = take at (page_slots b) @ drop (Suc at) (page_slots b)"
    by (rule remove_slot_is [OF assms])
  obtain c where c: "compact r = Ok c" "page_is no kind tid nxt c" "page_slots c = page_slots r" by (rule compact_is [OF r(2)])
  note f = finalise_is [OF c(2)]
  show thesis by (rule that [of "finalise c 0"]) (use r c f in \<open>simp_all add: remove_record_def\<close>)
qed

lemma take_out_step:
  fixes i :: nat
  assumes "crc32c_crate crc" "guarded crc s [(g, leaf, b)]" "2 \<le> length (frames s)" "focus crc s tid z (TLeaf leaf es)"
    and "i = entry_index key es" "i < length es" "fst (es ! i) = key"
  defines "x \<equiv> then_do (replaced_overflow_pages crc s (page_slots b ! i)) (\<lambda>s retired.
      then_do (edit_frame s g (\<lambda>b. obind (remove_record i b) (\<lambda>b. Ok (b, ())))) (\<lambda>s _. retire_all s retired))"
  shows "(\<exists>t c. x = (t, Ok ()) \<and> guarded crc t [(g, leaf, c)] \<and> focus crc t tid z (TLeaf leaf (before key es @ after key es)) \<and>
      evolves crc s t (set (leaf # entry_pages es)) 0 \<and> page_next_leaf c = page_next_leaf b) \<or>
    limits s \<noteq> None \<and> refused x"
proof -
  note p = leaf_parts [OF assms(4)] and lg = leaf_guard [OF assms(2,4)]
  let ?e = "es ! i" and ?es = "before key es @ after key es"
  have dp: "distinct (entry_pages es)" and lp: "leaf \<notin> set (entry_pages es)" and cp: "set (ctx_pages z) \<inter> set (entry_pages es) = {}"
    using p(6) unfolding distinct_append distinct.simps by auto
  note ak = around_key [OF p(4), of key, folded assms(5)] and ap = around_pages [where key = key, OF p(4) dp, folded assms(5)]
  have cell: "cell_holds crc s leaf (page_slots b ! i) ?e" by (rule leaf_image_entries(2) [OF lg(2) assms(6)])
  have ep: "set (snd (snd ?e)) \<subseteq> set (entry_pages es)" using nth_mem [OF assms(6)] by auto
  have gd: "set (snd (snd ?e)) \<inter> set (guard_pages [(g, leaf, b)]) = {}" using ep lp by auto
  obtain s1 rs where s1: "replaced_overflow_pages crc s (page_slots b ! i) = (s1, Ok rs)" "map fst rs = snd (snd ?e)" "reads_beside crc [(g, leaf, b)] s s1"
    by (rule replaced_pages_cell [OF assms(1,2) _ p(1) cell gd]) (use assms(3) in auto)
  note rb = reads_beside_facts [OF s1(3)]
  have f1: "focus crc s1 tid z (TLeaf leaf es)" by (rule focus_evolves [OF assms(4) rb(2)]) simp
  note lg1 = leaf_guard [OF rb(1) f1]
  have ne: "i < nentries b" using leaf_image_entries(1) [OF lg(2)] assms(6) by simp
  obtain c where c: "remove_record i b = Ok c" "page_is leaf PageLeaf tid (page_next_leaf b) c"
      "page_slots c = take i (page_slots b) @ drop (Suc i) (page_slots b)"
    by (rule remove_record_is [OF lg(3) ne])
  have la: "list_all2 (cell_holds crc s1 leaf) (page_slots b) es" using lg1(2) by (simp add: leaf_image_def)
  have "list_all2 (cell_holds crc s1 leaf) (page_slots c) (take i es @ drop (Suc i) es)"
    unfolding c(3) by (intro list_all2_appendI list_all2_takeI list_all2_dropI la)
  then have lc: "list_all2 (cell_holds crc s1 leaf) (page_slots c) ?es" using ak(1,2) assms(6,7) by simp
  have bd: "\<forall>e \<in> set ?es. over (hole_lo z) (fst e) \<and> under (hole_hi z) (fst e) \<and> length (fst e) \<le> key_cap" using p(5) by (auto simp: before_def after_def)
  have di: "distinct (ctx_pages z @ leaf # entry_pages ?es)" by (rule distinct_within [OF p(6) ap(1,2)])
  obtain s2 where s2: "edit_frame s1 g (\<lambda>b. obind (remove_record i b) (\<lambda>b. Ok (b, ()))) = (s2, Ok ())" "guarded crc s2 [(g, leaf, c)]"
      "focus crc s2 tid z (TLeaf leaf ?es)" "evolves crc s1 s2 {leaf} 0" "page_next_leaf c = page_next_leaf b" "reuse.truncate s2 = reuse.truncate s1"
    by (rule leaf_edit [OF rb(1) f1 _ c(2) lc around_sorted(1) [OF p(4)] bd di, of "\<lambda>b. obind (remove_record i b) (\<lambda>b. Ok (b, ()))" "()"]) (use c(1) in simp)
  have e2: "evolves crc s s2 {leaf} 0" using evolves_trans [OF rb(2) s2(4)] by simp
  have fp: "fst ` set rs = set (snd (snd ?e))" using arg_cong [OF s1(2), of set] by simp
  have own: "own_page_no s2 q \<and> q \<notin> set (guard_pages [(g, leaf, c)])" if "q \<in> fst ` set rs" for q
  proof -
    have q: "q \<in> set (snd (snd ?e))" using that fp by blast
    then have "own_page_no s q" by (rule cell_pages_own [OF cell p(1)])
    moreover have "q \<noteq> leaf" using q gd by auto
    ultimately show ?thesis using own_page_no_evolves [OF _ e2] by simp
  qed
  have "distinct (map fst rs)" unfolding s1(2) by (rule entry_pages_distinct [OF dp nth_mem [OF assms(6)]])
  then consider (ok) s3 where "retire_all s2 rs = (s3, Ok ())" "guarded crc s3 [(g, leaf, c)]" "evolves crc s2 s3 (fst ` set rs) 0"
    | (no) "limits s2 \<noteq> None" "refused (retire_all s2 rs)"
    using retire_all_step [OF s2(2) evolves_ready [OF e2], of rs] own by blast
  then show ?thesis
  proof cases
    case ok
    have "set (ctx_pages z @ tree_pages (TLeaf leaf ?es)) \<inter> fst ` set rs = {}"
      unfolding fp tree_pages.simps set_append list.set using cp lp ap(3) [OF refl assms(6,7)] ep by blast
    then have "focus crc s3 tid z (TLeaf leaf ?es)" by (rule focus_evolves [OF s2(3) ok(3)])
    moreover have "evolves crc s s3 (set (leaf # entry_pages es)) 0"
      by (rule evolves_mono [OF evolves_trans [OF e2 ok(3)]]) (use ep in \<open>auto simp: fp\<close>)
    moreover have "x = (s3, Ok ())" using s1(1) s2(1) ok(1) by (simp add: x_def)
    ultimately show ?thesis using ok(2) s2(5) by blast
  next
    case no
    have "limits s \<noteq> None" using no(1) e2 by (simp add: evolves_def)
    moreover have "refused x" using s1(1) s2(1) no(2) by (simp add: x_def)
    ultimately show ?thesis by blast
  qed
qed

section \<open>Putting the record in\<close>

lemma insert_record_is:
  assumes "page_is no kind tid nxt b" "at \<le> nentries b" "length rec + 4 \<le> free_space b"
  obtains c where "insert_record at rec b = Ok c" "page_is no kind tid nxt c" "page_slots c = take at (page_slots b) @ rec # drop at (page_slots b)"
    "slots_apart b \<Longrightarrow> slots_apart c"
proof -
  obtain r where r: "insert_slot b at rec = Ok r" "page_is no kind tid nxt r" "page_slots r = take at (page_slots b) @ rec # drop at (page_slots b)"
      "slots_apart b \<Longrightarrow> slots_apart r"
    by (rule insert_slot_is [OF assms]) blast
  note f = finalise_is [OF r(2)]
  show thesis by (rule that [of "finalise r 0"]) (use r f in \<open>simp_all add: insert_record_def\<close>)
qed

lemma make_room_is:
  assumes "page_is no kind tid nxt b"
  obtains c room where "make_room n b = Ok (c, room)" "page_is no kind tid nxt c" "page_slots c = page_slots b"
    "room \<Longrightarrow> n + 4 \<le> free_space c" "\<not> room \<Longrightarrow> 4056 < cells_bytes (page_slots b) + n + 4"
proof (cases "free_space b \<ge> n + 4")
  case True
  then show thesis by (intro that [of b True]) (simp_all add: make_room_def assms)
next
  case False
  obtain c where c: "compact b = Ok c" "page_is no kind tid nxt c" "page_slots c = page_slots b"
      "free_space c + sum_list (map (\<lambda>r. length r + 4) (page_slots b)) = 4056"
    by (rule compact_is [OF assms])
  note f = finalise_is [OF c(2)]
  show thesis
    by (rule that [of "finalise c 0" "free_space (finalise c 0) \<ge> n + 4"])
      (use False c f in \<open>auto simp: make_room_def cells_bytes_def Let_def not_le\<close>)
qed

lemma distinct_put:
  assumes "distinct (xs @ p # entry_pages (ys @ zs))" "distinct (snd (snd e))" "set (snd (snd e)) \<inter> set (xs @ p # entry_pages (ys @ zs)) = {}"
  shows "distinct (xs @ p # entry_pages (ys @ e # zs))"
  using assms by auto

lemma place_record_step:
  assumes "crc32c_crate crc" "guarded crc s [(g, leaf, b)]" "2 \<le> length (frames s)" "focus crc s tid z (TLeaf leaf es)"
    and "cell_holds crc s leaf rec e" "fst e = key" "over (hole_lo z) key" "under (hole_hi z) key"
    and "distinct (snd (snd e))" "set (snd (snd e)) \<inter> set (ctx_pages z @ leaf # entry_pages es) = {}" "length key \<le> key_cap"
  shows "(\<exists>t c room. place_record crc s g leaf key rec = (t, Ok (entry_index key es, page_next_leaf b, room)) \<and> guarded crc t [(g, leaf, c)] \<and>
      focus crc t tid z (TLeaf leaf (if room then before key es @ e # after key es else before key es @ after key es)) \<and>
      evolves crc s t (set (leaf # entry_pages es)) 0 \<and> page_next_leaf c = page_next_leaf b \<and>
      (\<not> room \<longrightarrow> 4056 < cells_bytes (page_slots c) + length rec + 4)) \<or>
    limits s \<noteq> None \<and> refused (place_record crc s g leaf key rec)"
proof -
  note p = leaf_parts [OF assms(4)] and lg = leaf_guard [OF assms(2,4)]
  let ?i = "entry_index key es" and ?es = "before key es @ after key es"
  let ?old = "if ?i < length es \<and> fst (es ! ?i) = key then Some (page_slots b ! ?i) else None"
  let ?x = "case ?old of None \<Rightarrow> (s, Ok ())
     | Some rec \<Rightarrow> then_do (replaced_overflow_pages crc s rec) (\<lambda>s retired.
         then_do (edit_frame s g (\<lambda>b. obind (remove_record ?i b) (\<lambda>b. Ok (b, ())))) (\<lambda>s _. retire_all s retired))"
  have ls: "leaf_search crc leaf key b = Ok (?i, ?old, page_next_leaf b)" by (rule leaf_search_image [OF lg(2) p(4) refl])
  note ak = around_key [OF p(4), of key]
  have "(\<exists>t c. ?x = (t, Ok ()) \<and> guarded crc t [(g, leaf, c)] \<and> focus crc t tid z (TLeaf leaf ?es) \<and>
      evolves crc s t (set (leaf # entry_pages es)) 0 \<and> page_next_leaf c = page_next_leaf b) \<or> limits s \<noteq> None \<and> refused ?x"
  proof (cases "?i < length es \<and> fst (es ! ?i) = key")
    case True
    show ?thesis unfolding if_P [OF True] option.case by (rule take_out_step [OF assms(1-4) refl]) (use True in auto)
  next
    case False
    have "?es = es" using ak(1) ak(3) [OF False] by (metis append_take_drop_id)
    moreover have "evolves crc s s (set (leaf # entry_pages es)) 0" by (rule evolves_refl [OF p(1)])
    ultimately show ?thesis using assms(2,4) unfolding if_not_P [OF False] option.case by auto
  qed
  then consider (ok) t c where "?x = (t, Ok ())" "guarded crc t [(g, leaf, c)]" "focus crc t tid z (TLeaf leaf ?es)"
      "evolves crc s t (set (leaf # entry_pages es)) 0" "page_next_leaf c = page_next_leaf b"
    | (no) "limits s \<noteq> None" "refused ?x"
    by blast
  then show ?thesis
  proof cases
    case ok
    note p1 = leaf_parts [OF ok(3)] and lg1 = leaf_guard [OF ok(2,3)]
    obtain d room where d: "make_room (length rec) c = Ok (d, room)" "page_is leaf PageLeaf tid (page_next_leaf c) d" "page_slots d = page_slots c"
        "room \<Longrightarrow> length rec + 4 \<le> free_space d" "\<not> room \<Longrightarrow> 4056 < cells_bytes (page_slots c) + length rec + 4"
      by (rule make_room_is [OF lg1(3), of "length rec"]) blast
    have la: "list_all2 (cell_holds crc t leaf) (page_slots d) ?es" using lg1(2) d(3) by (simp add: leaf_image_def)
    obtain u where u: "edit_frame t g (make_room (length rec)) = (u, Ok room)" "guarded crc u [(g, leaf, d)]" "focus crc u tid z (TLeaf leaf ?es)"
        "evolves crc t u {leaf} 0" "page_next_leaf d = page_next_leaf c"
      by (rule leaf_edit [where f = "make_room (length rec)" and b = c, OF ok(2,3) d(1,2) la p1(4-6)])
    have eu: "evolves crc s u (set (leaf # entry_pages es)) 0"
      by (rule evolves_mono [OF evolves_trans [OF ok(4) u(4)]]) simp_all
    have place: "place_record crc s g leaf key rec =
        (if room then then_do (edit_frame u g (\<lambda>b. obind (insert_record ?i rec b) (\<lambda>b. Ok (b, ())))) (\<lambda>s _. (s, Ok (?i, page_next_leaf b, True)))
         else (u, Ok (?i, page_next_leaf b, False)))"
      using ok(1) u(1) by (simp add: place_record_def lg(1) ls)
    show ?thesis
    proof (cases room)
      case False
      have "4056 < cells_bytes (page_slots d) + length rec + 4" using d(3) d(5) [OF False] by simp
      then show ?thesis
        using place u(2,3,5) eu ok(5) False by (intro disjI1 exI [of _ u] exI [of _ d] exI [of _ False]) simp
    next
      case True
      note lg2 = leaf_guard [OF u(2,3)] and p2 = leaf_parts [OF u(3)]
      have ni: "?i \<le> nentries d" "length (before key es) = ?i" using leaf_image_entries(1) [OF lg2(2)] ak(4) by simp_all
      obtain f where f: "insert_record ?i rec d = Ok f" "page_is leaf PageLeaf tid (page_next_leaf d) f"
          "page_slots f = take ?i (page_slots d) @ rec # drop ?i (page_slots d)"
        by (rule insert_record_is [OF lg2(3) ni(1) d(4) [OF True]])
      have ce: "cell_holds crc u leaf rec e" by (rule cell_holds_evolves [OF assms(5) eu]) (use assms(10) in auto)
      have la2: "list_all2 (cell_holds crc u leaf) (page_slots d) ?es" using lg2(2) by (simp add: leaf_image_def)
      have "list_all2 (cell_holds crc u leaf) (page_slots f) (take ?i ?es @ e # drop ?i ?es)"
        unfolding f(3) using ce by (intro list_all2_appendI list_all2_takeI list_all2_dropI la2 list.rel_intros(2))
      then have lf: "list_all2 (cell_holds crc u leaf) (page_slots f) (before key es @ e # after key es)" using ni(2) by simp
      have bd: "\<forall>x \<in> set (before key es @ e # after key es). over (hole_lo z) (fst x) \<and> under (hole_hi z) (fst x) \<and> length (fst x) \<le> key_cap"
        using p2(5) assms(6-8,11) by auto
      have "set (entry_pages ?es) \<subseteq> set (entry_pages es)" by (auto simp: before_def after_def)
      then have "set (snd (snd e)) \<inter> set (ctx_pages z @ leaf # entry_pages ?es) = {}" using assms(10) unfolding set_append list.set by blast
      note di = distinct_put [OF p2(6) assms(9) this]
      obtain v where v: "edit_frame u g (\<lambda>b. obind (insert_record ?i rec b) (\<lambda>b. Ok (b, ()))) = (v, Ok ())" "guarded crc v [(g, leaf, f)]"
          "focus crc v tid z (TLeaf leaf (before key es @ e # after key es))" "evolves crc u v {leaf} 0" "page_next_leaf f = page_next_leaf d"
        by (rule leaf_edit [OF u(2,3) _ f(2) lf around_sorted(2) [OF p(4) assms(6)] bd di, of "\<lambda>b. obind (insert_record ?i rec b) (\<lambda>b. Ok (b, ()))" "()"])
          (use f(1) in simp)
      have "evolves crc s v (set (leaf # entry_pages es)) 0" by (rule evolves_mono [OF evolves_trans [OF eu v(4)]]) simp_all
      then show ?thesis using place True v u(5) ok(5) by (intro disjI1 exI [of _ v] exI [of _ f] exI [of _ True]) simp
    qed
  next
    case no
    then show ?thesis by (simp add: place_record_def lg(1) ls refused_then)
  qed
qed

end
