(* ===== verification/Btree_Separator.thy ===== *)
theory Btree_Separator
  imports Btree_Leaf
begin

text \<open>
  Sending a separator up (\<open>insert_separator\<close>): a subtree has become two, and the node above gets the
  second one with the separator between them, or is itself cut in two around a separator that goes
  further up, at last into a new root.
\<close>

section \<open>Nodes from children and separators\<close>

definition mk_node :: "nat \<Rightarrow> tree list \<Rightarrow> bytes list \<Rightarrow> tree" where
  "mk_node no cs ks = TNode no (hd cs) (zip ks (tl cs))"

lemma mk_node_facts:
  assumes "length cs = Suc (length ks)"
  shows "children (mk_node no cs ks) = cs" "seps (mk_node no cs ks) = ks" "page_of (mk_node no cs ks) = no"
    "tree_pages (mk_node no cs ks) = no # concat (map tree_pages cs)" "tree_entries (mk_node no cs ks) = concat (map tree_entries cs)"
proof -
  show c: "children (mk_node no cs ks) = cs" "seps (mk_node no cs ks) = ks" "page_of (mk_node no cs ks) = no"
    using assms by (cases cs; simp add: mk_node_def)+
  have "children (mk_node no cs ks) \<noteq> []" using c(1) assms by auto
  then show "tree_pages (mk_node no cs ks) = no # concat (map tree_pages cs)" "tree_entries (mk_node no cs ks) = concat (map tree_entries cs)"
    using tree_pages_children entries_children c by simp_all
qed

text \<open>The children of a node, each between its fences.\<close>

definition kids_live :: "crc_fn \<Rightarrow> pool \<Rightarrow> u16 \<Rightarrow> bytes option \<Rightarrow> bytes option \<Rightarrow> tree list \<Rightarrow> bytes list \<Rightarrow> bool" where
  "kids_live crc s tid lo hi cs ks \<longleftrightarrow>
     length cs = Suc (length ks) \<and> (\<forall>j < length cs. live crc s tid (fence_lo lo ks j) (fence_hi hi ks j) (cs ! j))"

lemma live_mk_node:
  assumes "kids_live crc s tid lo hi cs ks" "node_live crc s tid lo hi no (map page_of cs) ks"
  shows "live crc s tid lo hi (mk_node no cs ks)"
proof -
  have l: "length cs = Suc (length ks)" using assms(1) by (simp add: kids_live_def)
  note m = mk_node_facts [OF l, of no]
  have "children (mk_node no cs ks) \<noteq> []" using m(1) l by auto
  then show ?thesis using live_node [of crc s tid lo hi "mk_node no cs ks"] assms m unfolding kids_live_def by simp
qed

lemma kids_evolve:
  assumes "kids_live crc s tid lo hi cs ks" "evolves crc s t D c" "set (concat (map tree_pages cs)) \<inter> D = {}"
  shows "kids_live crc t tid lo hi cs ks"
proof -
  have "live crc t tid (fence_lo lo ks j) (fence_hi hi ks j) (cs ! j)" if "j < length cs" for j
  proof (rule live_evolves [OF _ assms(2)])
    show "live crc s tid (fence_lo lo ks j) (fence_hi hi ks j) (cs ! j)" using assms(1) that by (simp add: kids_live_def)
    show "set (tree_pages (cs ! j)) \<inter> D = {}" using assms(3) nth_mem [OF that] by auto
  qed
  then show ?thesis using assms(1) by (simp add: kids_live_def)
qed

lemma fences_left:
  assumes "sp < length ks" "k \<le> sp"
  shows "fence_lo lo (take sp ks) k = fence_lo lo ks k" "fence_hi (Some (ks ! sp)) (take sp ks) k = fence_hi hi ks k"
  using assms by (auto simp: fence_lo_def fence_hi_def min_def not_less intro: le_antisym)

lemma fences_right:
  assumes "sp < length ks"
  shows "fence_lo (Some (ks ! sp)) (drop (Suc sp) ks) j = fence_lo lo ks (Suc sp + j)" "fence_hi hi (drop (Suc sp) ks) j = fence_hi hi ks (Suc sp + j)"
  using assms by (auto simp: fence_lo_def fence_hi_def)

lemma kids_split:
  assumes "kids_live crc s tid lo hi cs ks" "sp < length ks"
  shows "kids_live crc s tid lo (Some (ks ! sp)) (take (Suc sp) cs) (take sp ks)"
    "kids_live crc s tid (Some (ks ! sp)) hi (drop (Suc sp) cs) (drop (Suc sp) ks)"
proof -
  have l: "length cs = Suc (length ks)" and k: "\<And>j. j < length cs \<Longrightarrow> live crc s tid (fence_lo lo ks j) (fence_hi hi ks j) (cs ! j)"
    using assms(1) by (simp_all add: kids_live_def)
  show "kids_live crc s tid lo (Some (ks ! sp)) (take (Suc sp) cs) (take sp ks)"
    using l k assms(2) by (auto simp: kids_live_def fences_left(1) fences_left(2) [where hi = hi] less_Suc_eq_le)
  show "kids_live crc s tid (Some (ks ! sp)) hi (drop (Suc sp) cs) (drop (Suc sp) ks)"
    using l k assms(2) by (auto simp: kids_live_def fences_right(1) [where lo = lo] fences_right(2))
qed

text \<open>A separator put at child \<open>i\<close>.\<close>

definition put_at_child :: "nat \<Rightarrow> 'a \<Rightarrow> 'a list \<Rightarrow> 'a list" where
  "put_at_child i x xs = take i xs @ x # drop i xs"

lemma length_put_child [simp]: "length (put_at_child i x xs) = Suc (length xs)"
  by (simp add: put_at_child_def)

lemma nth_put_child:
  "i \<le> length xs \<Longrightarrow> j \<le> length xs \<Longrightarrow> put_at_child i x xs ! j = (if j < i then xs ! j else if j = i then x else xs ! (j - 1))"
proof -
  assume a: "i \<le> length xs" "j \<le> length xs"
  show ?thesis
  proof (cases "i < j")
    case True
    then have "put_at_child i x xs ! j = drop i xs ! (j - Suc i)" using a by (simp add: put_at_child_def nth_append nth_Cons' min_def)
    also have "\<dots> = xs ! (j - 1)" using True a by simp
    finally show ?thesis using True by simp
  qed (use a in \<open>auto simp: put_at_child_def nth_append min_def\<close>)
qed

lemma set_put_child [simp]: "set (put_at_child i x xs) = insert x (set xs)"
proof -
  have "set xs = set (take i xs) \<union> set (drop i xs)" by (metis append_take_drop_id set_append)
  then show ?thesis by (simp add: put_at_child_def)
qed

lemma fences_put:
  assumes "i \<le> length ks" "j \<le> Suc (length ks)"
  shows "fence_lo lo (put_at_child i sep ks) j = (if j \<le> i then fence_lo lo ks j else if j = Suc i then Some sep else fence_lo lo ks (j - 1))"
    "fence_hi hi (put_at_child i sep ks) j = (if j < i then fence_hi hi ks j else if j = i then Some sep else fence_hi hi ks (j - 1))"
  using assms by (auto simp: fence_lo_def fence_hi_def nth_put_child)

lemma kids_put:
  assumes "length cs = Suc (length ks)" "i < length cs"
    and "\<forall>j < length cs. j \<noteq> i \<longrightarrow> live crc s tid (fence_lo lo ks j) (fence_hi hi ks j) (cs ! j)"
    and "live crc s tid (fence_lo lo ks i) (Some sep) l" "live crc s tid (Some sep) (fence_hi hi ks i) r"
  shows "kids_live crc s tid lo hi (put_at_child (Suc i) r (cs[i := l])) (put_at_child i sep ks)"
proof -
  let ?cs = "put_at_child (Suc i) r (cs[i := l])" and ?ks = "put_at_child i sep ks"
  have "live crc s tid (fence_lo lo ?ks j) (fence_hi hi ?ks j) (?cs ! j)" if j: "j \<le> Suc (length ks)" for j
  proof -
    have il: "i \<le> length ks" using assms(1,2) by simp
    have n: "?cs ! j = (if j < Suc i then cs[i := l] ! j else if j = Suc i then r else cs[i := l] ! (j - 1))"
      by (rule nth_put_child) (use assms(1,2) j in simp_all)
    consider "j < i" | "j = i" | "j = Suc i" | "Suc i < j" by linarith
    then show ?thesis
    proof cases
      case 4
      then have "live crc s tid (fence_lo lo ks (j - 1)) (fence_hi hi ks (j - 1)) (cs ! (j - 1))" using assms(1,3) j by simp
      then show ?thesis using 4 n assms(2) by (simp add: fences_put [OF il j])
    qed (use assms n j in \<open>simp_all add: fences_put [OF il]\<close>)
  qed
  then show ?thesis using assms(1) by (simp add: kids_live_def)
qed

section \<open>Separators in order\<close>

definition keys_ok :: "bytes option \<Rightarrow> bytes option \<Rightarrow> bytes list \<Rightarrow> bool" where
  "keys_ok lo hi ks \<longleftrightarrow> sorted_wrt (<) ks \<and> (\<forall>k \<in> set ks. over lo k \<and> lo \<noteq> Some k \<and> under hi k \<and> length k \<le> key_cap)"

lemma over_trans: "over lo a \<Longrightarrow> a < b \<Longrightarrow> over lo b \<and> lo \<noteq> Some b"
  by (auto simp: over_def split: option.splits)

lemma under_trans: "under hi b \<Longrightarrow> a < b \<Longrightarrow> under hi a"
  by (auto simp: under_def split: option.splits)

lemma keys_put:
  assumes "keys_ok lo hi ks" "i \<le> length ks" "over (fence_lo lo ks i) sep" "fence_lo lo ks i \<noteq> Some sep" "under (fence_hi hi ks i) sep" "length sep \<le> key_cap"
  shows "keys_ok lo hi (put_at_child i sep ks)"
proof -
  have srt: "sorted_wrt (<) ks" using assms(1) by (simp add: keys_ok_def)
  have l: "ks ! j < sep" if "j < i" for j
  proof -
    have "ks ! j \<le> ks ! (i - 1)" using sorted_wrt_nth_less [OF srt, of j "i - 1"] that assms(2) by (cases "j = i - 1") (auto intro: less_imp_le)
    also have "\<dots> < sep" using assms(3,4) that by (auto simp: fence_lo_def over_def)
    finally show ?thesis .
  qed
  have r: "sep < ks ! j" if "i \<le> j" "j < length ks" for j
  proof -
    have "sep < ks ! i" using assms(5) that by (simp add: fence_hi_def under_def)
    also have "\<dots> \<le> ks ! j" using sorted_wrt_nth_less [OF srt, of i j] that by (cases "j = i") (auto intro: less_imp_le)
    finally show ?thesis .
  qed
  have "sorted_wrt (<) (put_at_child i sep ks)"
    unfolding sorted_wrt_iff_nth_less
  proof (intro allI impI)
    fix a b assume ab: "a < b" "b < length (put_at_child i sep ks)"
    have n: "put_at_child i sep ks ! c = (if c < i then ks ! c else if c = i then sep else ks ! (c - 1))" if "c \<le> length ks" for c
      by (rule nth_put_child [OF assms(2) that])
    consider "b < i" | "b = i" | "a < i" "i < b" | "a = i" | "i < a" using ab(1) by linarith
    then show "put_at_child i sep ks ! a < put_at_child i sep ks ! b"
    proof cases
      case 3
      then have "ks ! a < sep" "sep < ks ! (b - 1)" using l [of a] r [of "b - 1"] ab by auto
      then show ?thesis using 3 ab n [of a] n [of b] by (auto intro: less_trans)
    qed (use ab n [of a] n [of b] l r sorted_wrt_nth_less [OF srt] assms(2) in auto)
  qed
  moreover have "over lo sep \<and> lo \<noteq> Some sep"
  proof (cases "i = 0")
    case False
    then have "over lo (ks ! (i - 1))" using assms(1,2) by (simp add: keys_ok_def)
    then show ?thesis by (rule over_trans) (use l [of "i - 1"] False in simp)
  qed (use assms(3,4) in \<open>simp add: fence_lo_def\<close>)
  moreover have "under hi sep"
  proof (cases "i < length ks")
    case True
    then have "under hi (ks ! i)" using assms(1) by (simp add: keys_ok_def)
    then show ?thesis by (rule under_trans) (use r [of i] True in simp)
  qed (use assms(5) in \<open>simp add: fence_hi_def\<close>)
  ultimately show ?thesis using assms(1,6) unfolding keys_ok_def by auto
qed

lemma keys_split:
  assumes "keys_ok lo hi ks" "sp < length ks"
  shows "keys_ok lo (Some (ks ! sp)) (take sp ks)" "keys_ok (Some (ks ! sp)) hi (drop (Suc sp) ks)"
    "over lo (ks ! sp)" "lo \<noteq> Some (ks ! sp)" "under hi (ks ! sp)" "length (ks ! sp) \<le> key_cap"
proof -
  have "ks = take sp ks @ ks ! sp # drop (Suc sp) ks" by (rule id_take_nth_drop [OF assms(2)])
  then have s: "sorted_wrt (<) (take sp ks @ ks ! sp # drop (Suc sp) ks)" using assms(1) by (simp add: keys_ok_def)
  have m: "over lo k \<and> lo \<noteq> Some k \<and> under hi k \<and> length k \<le> key_cap" if "k \<in> set ks" for k using assms(1) that by (simp add: keys_ok_def)
  show "keys_ok lo (Some (ks ! sp)) (take sp ks)" using s m in_set_takeD [of _ sp ks] by (auto simp: keys_ok_def sorted_wrt_append under_def)
  show "keys_ok (Some (ks ! sp)) hi (drop (Suc sp) ks)"
    using s m in_set_dropD [of _ "Suc sp" ks] by (auto simp: keys_ok_def sorted_wrt_append over_def intro: less_imp_le)
  show "over lo (ks ! sp)" "lo \<noteq> Some (ks ! sp)" "under hi (ks ! sp)" "length (ks ! sp) \<le> key_cap" using m nth_mem [OF assms(2)] by blast+
qed

lemma route_unique:
  assumes "sorted_wrt (<) ks" "i \<le> length ks" "over (fence_lo lo ks i) key" "under (fence_hi hi ks i) key"
  shows "length (takeWhile (\<lambda>k. k \<le> key) ks) = i"
proof -
  have l: "ks ! j \<le> key" if "j < i" for j
  proof -
    have "ks ! j \<le> ks ! (i - 1)" using sorted_wrt_nth_less [OF assms(1), of j "i - 1"] that assms(2) by (cases "j = i - 1") (auto intro: less_imp_le)
    also have "\<dots> \<le> key" using assms(3) that by (simp add: fence_lo_def over_def)
    finally show ?thesis .
  qed
  have r: "\<not> ks ! i \<le> key" if "i < length ks" using assms(4) that by (simp add: fence_hi_def under_def)
  have "takeWhile (\<lambda>k. k \<le> key) ks = take i ks"
    by (rule takeWhile_eq_take_P_nth) (use l r in auto)
  then show ?thesis using assms(2) by simp
qed

section \<open>The page of a node\<close>

definition sep_recs :: "bytes list \<Rightarrow> nat list \<Rightarrow> bytes list" where
  "sep_recs ks ts = map2 (\<lambda>k c. enc_interior k (of_nat c)) ks ts"

lemma sep_recs_put:
  assumes "length ts = length ks" "i \<le> length ks"
  shows "sep_recs (put_at_child i sep ks) (put_at_child i r ts) = put_at_child i (enc_interior sep (of_nat r)) (sep_recs ks ts)"
  using assms by (simp add: sep_recs_def put_at_child_def take_zip drop_zip take_map drop_map)

lemma sep_recs_part:
  "take n (sep_recs ks ts) = sep_recs (take n ks) (take n ts)" "drop n (sep_recs ks ts) = sep_recs (drop n ks) (drop n ts)"
  by (simp_all add: sep_recs_def take_zip drop_zip take_map drop_map)

lemma length_sep_recs [simp]: "length ts = length ks \<Longrightarrow> length (sep_recs ks ts) = length ks"
  by (simp add: sep_recs_def)

lemma nth_sep_recs: "length ts = length ks \<Longrightarrow> i < length ks \<Longrightarrow> sep_recs ks ts ! i = enc_interior (ks ! i) (of_nat (ts ! i))"
  by (simp add: sep_recs_def)

lemma sep_rec_size: "r \<in> set (sep_recs ks ts) \<Longrightarrow> \<forall>k \<in> set ks. length k \<le> key_cap \<Longrightarrow> length r + 4 \<le> 2028"
  by (auto simp: sep_recs_def enc_interior_def key_cap_def dest!: set_zip_leftD)

lemma validated_sep:
  assumes "length k \<le> key_cap"
  shows "validated_key (enc_interior k c) = Ok k" "validated_child (enc_interior k c) = Ok c"
proof -
  have "decode_record (enc_interior k c) 0 PageInterior = Ok (InteriorRecord k c)" using assms by (simp add: decode_interior_iff key_cap_def)
  then show "validated_key (enc_interior k c) = Ok k" "validated_child (enc_interior k c) = Ok c"
    using decode_interior_readers assms by (auto simp: enc_interior_def key_cap_def PAGE_SIZE_def)
qed

lemma node_image_recs:
  assumes "node_image crc tid no c0 (zip ks ts) b" "length ts = length ks"
  shows "page_slots b = sep_recs ks ts"
proof -
  have la: "list_all2 (sep_holds no) (page_slots b) (zip ks ts)" using assms(1) by (simp add: node_image_def)
  show ?thesis
  proof (rule nth_equalityI)
    show "length (page_slots b) = length (sep_recs ks ts)" using list_all2_lengthD [OF la] assms(2) by simp
    fix i assume "i < length (page_slots b)"
    then show "page_slots b ! i = sep_recs ks ts ! i"
      using list_all2_nthD [OF la, of i] list_all2_lengthD [OF la] assms(2) by (simp add: sep_holds_iff nth_sep_recs)
  qed
qed

text \<open>A node's page in terms of its records.\<close>

definition node_page :: "u16 \<Rightarrow> nat \<Rightarrow> nat list \<Rightarrow> bytes list \<Rightarrow> bytes \<Rightarrow> bool" where
  "node_page tid no cs ks b \<longleftrightarrow>
     page_is no PageInterior tid (of_nat (hd cs)) b \<and> page_slots b = sep_recs ks (tl cs) \<and> tidy b \<and> (\<forall>c \<in> set cs. c \<le> u32_max)"

lemma node_page_image:
  assumes "node_page tid no cs ks b" "length cs = Suc (length ks)" "\<forall>k \<in> set ks. length k \<le> key_cap"
  shows "node_image crc tid no (hd cs) (zip ks (tl cs)) b"
proof (rule node_image_is)
  have m: "\<forall>c \<in> set cs. c \<le> u32_max" using assms(1) by (simp add: node_page_def)
  show "page_is no PageInterior tid (of_nat (hd cs)) b" using assms(1) by (simp add: node_page_def)
  show "hd cs \<le> u32_max" using m assms(2) by (cases cs) simp_all
  have "sep_holds no (sep_recs ks (tl cs) ! i) (zip ks (tl cs) ! i)" if "i < length ks" for i
  proof -
    have "ks ! i \<in> set ks" "tl cs ! i \<in> set cs" using that assms(2) by (auto intro!: nth_mem simp: nth_tl)
    then have "length (ks ! i) \<le> 65535" "tl cs ! i \<le> u32_max" using assms(3) m by (force simp: key_cap_def)+
    then show ?thesis using that assms(2) by (simp add: sep_holds_iff nth_sep_recs)
  qed
  then show "list_all2 (sep_holds no) (page_slots b) (zip ks (tl cs))"
    using assms(1,2) by (simp add: node_page_def list_all2_conv_all_nth)
qed

lemma node_live_iff:
  "node_live crc s tid lo hi no cs ks \<longleftrightarrow>
     own_page_no s no \<and> keys_ok lo hi ks \<and> length cs = Suc (length ks) \<and> (\<exists>b. holds crc s no b \<and> node_page tid no cs ks b)"
proof
  assume nl: "node_live crc s tid lo hi no cs ks"
  have lc: "length cs = Suc (length ks)" using nl by (simp add: node_live_def)
  obtain b where b: "holds crc s no b" "node_image crc tid no (hd cs) (zip ks (tl cs)) b" "page_wf b" "tidy b"
    using nl by (auto simp: node_live_def)
  have "\<forall>c \<in> set cs. c \<le> u32_max"
  proof
    fix c assume "c \<in> set cs"
    then consider "c = hd cs" | j where "j < length ks" "c = tl cs ! j" using lc by (cases cs) (auto simp: in_set_conv_nth)
    then show "c \<le> u32_max"
    proof cases
      case 1
      then show ?thesis using b(2) unat_less_len [of "page_next_leaf b"] by (auto simp: node_image_def)
    next
      case 2
      then show ?thesis using node_image_entries(4) [OF b(2), of j] lc by simp
    qed
  qed
  then have "node_page tid no cs ks b"
    using node_image_page_is [OF b(2,3)] node_image_recs [OF b(2)] b(4) lc by (simp add: node_page_def)
  then show "own_page_no s no \<and> keys_ok lo hi ks \<and> length cs = Suc (length ks) \<and> (\<exists>b. holds crc s no b \<and> node_page tid no cs ks b)"
    using nl b(1) lc by (auto simp: node_live_def keys_ok_def)
next
  assume a: "own_page_no s no \<and> keys_ok lo hi ks \<and> length cs = Suc (length ks) \<and> (\<exists>b. holds crc s no b \<and> node_page tid no cs ks b)"
  then obtain b where b: "holds crc s no b" "node_page tid no cs ks b" by blast
  have "node_image crc tid no (hd cs) (zip ks (tl cs)) b" by (rule node_page_image [OF b(2)]) (use a in \<open>auto simp: keys_ok_def\<close>)
  moreover have "page_wf b" "tidy b" using b(2) page_is_ok(5) by (auto simp: node_page_def)
  ultimately show "node_live crc s tid lo hi no cs ks" using a b(1) unfolding node_live_def keys_ok_def by blast
qed

lemma node_page_body:
  assumes "node_page tid no cs ks b" "page_ok crc no c" "page_body c = page_body b"
  shows "node_page tid no cs ks c"
proof -
  have "page_is no PageInterior tid (of_nat (hd cs)) b" using assms(1) by (simp add: node_page_def)
  note p = page_is_body [OF this assms(2,3)]
  show ?thesis using assms(1) p by (simp add: node_page_def)
qed

lemma build_node_page:
  assumes "cells_bytes (sep_recs ks (tl cs)) \<le> 4056" "\<forall>c \<in> set cs. c \<le> u32_max"
  obtains b where "build_page PageInterior tid (of_nat no) (sep_recs ks (tl cs)) (of_nat (hd cs)) = Ok b" "node_page tid no cs ks b"
proof -
  obtain b where "build_page PageInterior tid (of_nat no) (sep_recs ks (tl cs)) (of_nat (hd cs)) = Ok b"
      "page_is no PageInterior tid (of_nat (hd cs)) b" "page_slots b = sep_recs ks (tl cs)" "slots_apart b"
      "free_space b + sum_list (map (\<lambda>r. length r + 4) (sep_recs ks (tl cs))) = 4056"
    by (rule build_page_is [of "sep_recs ks (tl cs)"]) (use assms(1) in \<open>simp_all add: cells_bytes_def\<close>)
  then show thesis using that assms(2) by (simp add: node_page_def tidy_def cells_bytes_def)
qed

lemma cells_put: "cells_bytes (put_at_child i r rs) = cells_bytes rs + length r + 4"
proof -
  have "cells_bytes rs = cells_bytes (take i rs) + cells_bytes (drop i rs)"
    unfolding cells_bytes_def by (metis append_take_drop_id map_append sum_list_append)
  then show ?thesis by (simp add: put_at_child_def cells_bytes_def)
qed

lemma insert_node_page:
  assumes "node_page tid no cs ks b" "length cs = Suc (length ks)" "i \<le> length ks" "r \<le> u32_max"
    and "length (enc_interior sep (of_nat r)) + 4 \<le> free_space b"
  obtains c where "insert_record i (enc_interior sep (of_nat r)) b = Ok c" "node_page tid no (put_at_child (Suc i) r cs) (put_at_child i sep ks) c"
proof -
  let ?rec = "enc_interior sep (of_nat r)"
  have b: "page_is no PageInterior tid (of_nat (hd cs)) b" "page_slots b = sep_recs ks (tl cs)" "tidy b" "\<forall>c \<in> set cs. c \<le> u32_max"
    using assms(1) by (simp_all add: node_page_def)
  have n: "nentries b = length ks" using arg_cong [OF b(2), of length] assms(2) by simp
  obtain p where p: "insert_slot b i ?rec = Ok p" "page_is no PageInterior tid (of_nat (hd cs)) p" "page_slots p = put_at_child i ?rec (page_slots b)"
      "slots_apart b \<Longrightarrow> slots_apart p" "free_space p = free_space b - (length ?rec + 4)"
    by (rule insert_slot_is [OF b(1), of i ?rec]) (use n assms(3,5) in \<open>simp_all add: put_at_child_def\<close>)
  note f = finalise_is [OF p(2)]
  have tl: "tl (put_at_child (Suc i) r cs) = put_at_child i r (tl cs)" "hd (put_at_child (Suc i) r cs) = hd cs"
    using assms(2) by (cases cs; simp add: put_at_child_def)+
  have "page_slots (finalise p 0) = sep_recs (put_at_child i sep ks) (put_at_child i r (tl cs))"
    using sep_recs_put [of "tl cs" ks i] assms(2,3) by (simp add: f(2) p(3) b(2))
  moreover have "tidy (finalise p 0)" using b(3) p(4,5) assms(5) by (simp add: tidy_def f p(3) cells_put)
  ultimately have "node_page tid no (put_at_child (Suc i) r cs) (put_at_child i sep ks) (finalise p 0)"
    using f(1) b(4) assms(4) by (simp add: node_page_def tl)
  then show thesis using that p(1) by (simp add: insert_record_def)
qed

section \<open>Cutting an overfull page\<close>

lemma cut_exists:
  assumes "u < sum_list sizes" "sum_list sizes \<le> u + m" "\<forall>n \<in> set sizes. n \<le> m" "2 * m \<le> u" "0 < m"
  shows "\<exists>k. cut_fits sizes u k"
proof -
  define k where "k = (LEAST k. u - m < sum_list (take k sizes))"
  have ex: "u - m < sum_list (take (length sizes) sizes)" using assms(1) by simp
  have k: "u - m < sum_list (take k sizes)" unfolding k_def by (rule LeastI [of _ "length sizes"]) (rule ex)
  have kl: "k \<le> length sizes" unfolding k_def by (rule Least_le) (rule ex)
  have k0: "0 < k" using k by (cases k) simp_all
  have "\<not> u - m < sum_list (take (k - 1) sizes)" using not_less_Least [of "k - 1" "\<lambda>k. u - m < sum_list (take k sizes)"] k0 by (simp add: k_def)
  moreover have "sum_list (take k sizes) = sum_list (take (k - 1) sizes) + sizes ! (k - 1)"
    using take_Suc_conv_app_nth [of "k - 1" sizes] k0 kl by simp
  moreover have "sizes ! (k - 1) \<le> m" using assms(3) nth_mem [of "k - 1" sizes] k0 kl by simp
  ultimately have le: "sum_list (take k sizes) \<le> u" using assms(4) by linarith
  have "k \<noteq> length sizes" using le assms(1) by auto
  moreover have "sum_list (drop k sizes) \<le> u" using sum_take_drop [of k sizes] k assms(2,4) by linarith
  ultimately show ?thesis using kl k0 le unfolding cut_fits_def by (intro exI [of _ k]) simp
qed

lemma split_point_exists:
  assumes "4056 < cells_bytes recs" "cells_bytes recs \<le> 6084" "\<forall>r \<in> set recs. length r + 4 \<le> 2028"
  obtains sp where "split_point recs (PAGE_SIZE - HEADER_LEN) = Some sp" "0 < sp" "sp < length recs"
    "cells_bytes (take sp recs) \<le> 4056" "cells_bytes (drop sp recs) \<le> 4056"
proof -
  let ?sz = "map (\<lambda>r. length r + 4) recs"
  have "\<exists>k. cut_fits ?sz 4056 k" by (rule cut_exists [of _ _ 2028]) (use assms in \<open>auto simp: cells_bytes_def\<close>)
  then obtain sp where "split_sizes ?sz 4056 = Some sp" "cut_fits ?sz 4056 sp"
    using split_sizes_spec [of ?sz 4056] by (auto split: option.splits)
  then show thesis
    using that [of sp] by (simp add: split_point_def cut_fits_def cells_bytes_def take_map drop_map PAGE_SIZE_def HEADER_LEN_def)
qed

section \<open>A place in the whole tree\<close>

text \<open>\<open>x\<close> stands in the tree \<open>T\<close> below \<open>z\<close>, a path of this epoch's, with these fences and these entries around it.\<close>

definition settled ::
  "crc_fn \<Rightarrow> pool \<Rightarrow> u16 \<Rightarrow> tree \<Rightarrow> tcontext \<Rightarrow> bytes option \<times> bytes option \<Rightarrow> (bytes \<times> bytes) list \<times> (bytes \<times> bytes) list \<Rightarrow> tree \<Rightarrow> bool" where
  "settled crc s tid T z f e x \<longleftrightarrow>
     focus crc s tid z x \<and> owned s z \<and> plug z x = T \<and> (hole_lo z, hole_hi z) = f \<and> (ctx_left z, ctx_right z) = e"

lemma set_child_same: "i < length (children n) \<Longrightarrow> set_child n i (children n ! i) = n"
  by (cases n; cases i) (auto simp: list_update_id)

lemma settled_child:
  assumes "settled crc s tid T z (lo, hi) (L, R) n" "j < length (children n)" "\<not> is_frozen s (page_of n)"
  shows "settled crc s tid T ((n, j) # z) (fence_lo lo (seps n) j, fence_hi hi (seps n) j)
    (L @ concat (map tree_entries (take j (children n))), concat (map tree_entries (drop (Suc j) (children n))) @ R) (children n ! j)"
  using assms focus_child [of crc s tid z n j] set_child_same [OF assms(2)] by (auto simp: settled_def)

lemma settled_split:
  assumes "settled crc s tid T zl (lo, Some (ks ! sp)) (L, tree_entries nr @ R) nl" "settled crc s tid T zr (Some (ks ! sp), hi) (L @ tree_entries nl, R) nr"
    and "nl = mk_node p (take (Suc sp) cs) (take sp ks)" "nr = mk_node q (drop (Suc sp) cs) (drop (Suc sp) ks)"
    and "length cs = Suc (length ks)" "sp < length ks" "k < length cs" "\<not> is_frozen s p" "\<not> is_frozen s q" "length zl \<le> d" "length zr \<le> d"
  obtains z where "settled crc s tid T z (fence_lo lo ks k, fence_hi hi ks k)
      (L @ concat (map tree_entries (take k cs)), concat (map tree_entries (drop (Suc k) cs)) @ R) (cs ! k)" "length z \<le> Suc d"
proof -
  have ll: "length (take (Suc sp) cs) = Suc (length (take sp ks))" "length (drop (Suc sp) cs) = Suc (length (drop (Suc sp) ks))" using assms(5,6) by simp_all
  note ml = mk_node_facts [OF ll(1), of p, folded assms(3)] and mr = mk_node_facts [OF ll(2), of q, folded assms(4)]
  show thesis
  proof (cases "k \<le> sp")
    case True
    have e: "concat (map tree_entries (drop (Suc k) (take (Suc sp) cs))) @ tree_entries nr = concat (map tree_entries (drop (Suc k) cs))"
      using drop_append [of "Suc k" "take (Suc sp) cs" "drop (Suc sp) cs"] True assms(5,6) by (simp add: mr(5) min_def)
    have "settled crc s tid T ((nl, k) # zl) (fence_lo lo ks k, fence_hi hi ks k)
        (L @ concat (map tree_entries (take k cs)), concat (map tree_entries (drop (Suc k) cs)) @ R) (cs ! k)"
      using settled_child [OF assms(1), of k] True assms(5,6,8) e [symmetric]
      by (simp add: ml fences_left(1) fences_left(2) [where hi = hi] min_def)
    then show thesis using that assms(10) by simp
  next
    case False
    define j where "j = k - Suc sp"
    have k: "k = Suc sp + j" using False by (simp add: j_def)
    have e: "tree_entries nl @ concat (map tree_entries (take j (drop (Suc sp) cs))) = concat (map tree_entries (take k cs))"
      unfolding ml(5) k take_add by simp
    have "settled crc s tid T ((nr, j) # zr) (fence_lo lo ks k, fence_hi hi ks k)
        (L @ concat (map tree_entries (take k cs)), concat (map tree_entries (drop (Suc k) cs)) @ R) (cs ! k)"
      using settled_child [OF assms(2), of j] assms(5-7,9) e [symmetric]
      by (simp add: mr k fences_right(1) [where lo = lo] fences_right(2) add_ac)
    then show thesis using that assms(11) by simp
  qed
qed

section \<open>A subtree that has become two\<close>

definition parted :: "crc_fn \<Rightarrow> pool \<Rightarrow> u16 \<Rightarrow> tcontext \<Rightarrow> tree \<Rightarrow> bytes \<Rightarrow> tree \<Rightarrow> bool" where
  "parted crc s tid z l sep r \<longleftrightarrow>
     alloc_ready s \<and> ctx_live crc s tid z (page_of l) \<and> owned s z \<and> live crc s tid (hole_lo z) (Some sep) l \<and> live crc s tid (Some sep) (hole_hi z) r \<and>
     distinct (ctx_pages z @ tree_pages l @ tree_pages r) \<and> over (hole_lo z) sep \<and> hole_lo z \<noteq> Some sep \<and> under (hole_hi z) sep \<and> length sep \<le> key_cap"

text \<open>Both halves in their place in one tree.\<close>

definition rejoined :: "crc_fn \<Rightarrow> pool \<Rightarrow> u16 \<Rightarrow> tcontext \<Rightarrow> tree \<Rightarrow> bytes \<Rightarrow> tree \<Rightarrow> tree \<Rightarrow> nat \<Rightarrow> bool" where
  "rejoined crc s tid z l sep r T d \<longleftrightarrow>
     (\<exists>zl zr. settled crc s tid T zl (hole_lo z, Some sep) (ctx_left z, tree_entries r @ ctx_right z) l \<and>
        settled crc s tid T zr (Some sep, hole_hi z) (ctx_left z @ tree_entries l, ctx_right z) r \<and> length zl \<le> d \<and> length zr \<le> d)"

lemma parted_evolves:
  assumes "parted crc s tid z l sep r" "evolves crc s t D c" "set (ctx_pages z @ tree_pages l @ tree_pages r) \<inter> D = {}"
  shows "parted crc t tid z l sep r"
proof -
  have "set (ctx_pages z) \<inter> D = {}" "set (tree_pages l) \<inter> D = {}" "set (tree_pages r) \<inter> D = {}" using assms(3) by auto
  then show ?thesis
    using assms(1) ctx_live_evolves [OF _ assms(2), of tid z] live_evolves [OF _ assms(2)] owned_evolves [OF _ assms(2)] evolves_ready [OF assms(2)]
    unfolding parted_def by blast
qed

lemma put_child_update: "i < length xs \<Longrightarrow> put_at_child (Suc i) r (xs[i := l]) = take i xs @ l # r # drop (Suc i) xs"
  by (simp add: put_at_child_def child_split min_def)

lemma node_put:
  assumes "parted crc s tid ((n, i) # z) l sep r"
  defines "cs \<equiv> put_at_child (Suc i) r ((children n)[i := l])" and "ks \<equiv> put_at_child i sep (seps n)"
  shows "i \<le> length (seps n)" "kids_live crc s tid (hole_lo z) (hole_hi z) cs ks" "keys_ok (hole_lo z) (hole_hi z) ks"
    "distinct (ctx_pages z @ page_of n # concat (map tree_pages cs))" "length cs = Suc (length ks)"
    "map page_of cs = put_at_child (Suc i) (page_of r) ((map page_of (children n))[i := page_of l])"
    "node_live crc s tid (hole_lo z) (hole_hi z) (page_of n) ((map page_of (children n))[i := page_of l]) (seps n)"
    "length (takeWhile (\<lambda>k. k \<le> sep) (seps n)) = i" "ctx_live crc s tid z (page_of n)" "owned s z" "\<not> is_frozen s (page_of n)" "alloc_ready s"
    "set (ctx_pages z @ page_of n # concat (map tree_pages cs)) = set (ctx_pages ((n, i) # z) @ tree_pages l @ tree_pages r)"
proof -
  note p = assms(1) [unfolded parted_def ctx_live.simps hole_lo.simps hole_hi.simps]
  have fr: "frame_live crc s tid (hole_lo z) (hole_hi z) n i (page_of l)" using p by blast
  have i: "i < length (children n)" and nl: "node_live crc s tid (hole_lo z) (hole_hi z) (page_of n) ((map page_of (children n))[i := page_of l]) (seps n)"
    and kids: "\<forall>j < length (children n). j \<noteq> i \<longrightarrow> live crc s tid (fence_lo (hole_lo z) (seps n) j) (fence_hi (hole_hi z) (seps n) j) (children n ! j)"
    using fr unfolding frame_live_def by blast+
  show "node_live crc s tid (hole_lo z) (hole_hi z) (page_of n) ((map page_of (children n))[i := page_of l]) (seps n)" by (rule nl)
  have nk: "keys_ok (hole_lo z) (hole_hi z) (seps n)" and lc: "length (children n) = Suc (length (seps n))" using nl by (simp_all add: node_live_iff)
  show il: "i \<le> length (seps n)" using i lc by simp
  have lv: "live crc s tid (fence_lo (hole_lo z) (seps n) i) (Some sep) l" "live crc s tid (Some sep) (fence_hi (hole_hi z) (seps n) i) r" using p by blast+
  show "kids_live crc s tid (hole_lo z) (hole_hi z) cs ks" unfolding cs_def ks_def by (rule kids_put [OF lc i kids lv])
  have sep: "over (fence_lo (hole_lo z) (seps n) i) sep" "fence_lo (hole_lo z) (seps n) i \<noteq> Some sep" "under (fence_hi (hole_hi z) (seps n) i) sep" "length sep \<le> key_cap"
    using p by blast+
  show "keys_ok (hole_lo z) (hole_hi z) ks" unfolding ks_def by (rule keys_put [OF nk il sep])
  show "length (takeWhile (\<lambda>k. k \<le> sep) (seps n)) = i" by (rule route_unique [OF _ il sep(1,3)]) (use nk in \<open>simp add: keys_ok_def\<close>)
  have c: "cs = take i (children n) @ l # r # drop (Suc i) (children n)" unfolding cs_def by (rule put_child_update [OF i])
  have ms: "mset (ctx_pages z @ page_of n # concat (map tree_pages cs)) = mset (ctx_pages ((n, i) # z) @ tree_pages l @ tree_pages r)"
    by (simp add: c ac_simps)
  show "set (ctx_pages z @ page_of n # concat (map tree_pages cs)) = set (ctx_pages ((n, i) # z) @ tree_pages l @ tree_pages r)"
    by (rule mset_eq_setD [OF ms])
  have "distinct (ctx_pages ((n, i) # z) @ tree_pages l @ tree_pages r)" using p by blast
  then show "distinct (ctx_pages z @ page_of n # concat (map tree_pages cs))" using mset_eq_imp_distinct_iff [OF ms] by blast
  show "length cs = Suc (length ks)" using lc by (simp add: cs_def ks_def)
  show "map page_of cs = put_at_child (Suc i) (page_of r) ((map page_of (children n))[i := page_of l])"
    using put_child_update [of i "map page_of (children n)"] i by (simp add: c take_map drop_map)
  show "ctx_live crc s tid z (page_of n)" "owned s z" "\<not> is_frozen s (page_of n)" "alloc_ready s" using p by simp_all
qed

lemma new_root_step:
  assumes "idle crc s" "parted crc s tid [] l sep r"
  shows "(\<exists>t no. new_root crc debug s tid (page_of l) sep (page_of r) = (t, Ok no) \<and> idle crc t \<and> evolves crc s t {} 1 \<and> \<not> is_frozen t no \<and>
      no \<in> available s \<and> focus crc t tid [] (mk_node no [l, r] [sep])) \<or>
    \<not> plenty s 1 \<and> refused (new_root crc debug s tid (page_of l) sep (page_of r))"
proof -
  have g: "guarded crc s []" "frames s \<noteq> []" using assms(1) by (simp_all add: idle_guarded)
  have p: "alloc_ready s" "live crc s tid None (Some sep) l" "live crc s tid (Some sep) None r" "distinct (tree_pages l @ tree_pages r)" "length sep \<le> key_cap"
    using assms(2) by (simp_all add: parted_def)
  consider (ok) t i no e where "allocate crc debug s = (t, Ok (i, no))" "guarded crc t [(i, no, e)]" "evolves crc s t {} 1"
      "no \<in> available s" "own_page_no t no" "\<not> is_frozen t no" "no < u32_max"
    | (no) "\<not> plenty s 1" "refused (allocate crc debug s)"
    using allocate_step [OF g(1) p(1), of debug] g(2) by auto
  then show ?thesis
  proof cases
    case ok
    have le: "length e = 4096" using ok(2) page_ok_length by (auto simp: guarded_def PAGE_SIZE_def)
    obtain q where q: "page_init e PageInterior tid (of_nat no) = Ok q" "page_is no PageInterior tid 0 q" "page_slots q = []" "slots_apart q" "free_space q = 4056"
      by (rule page_init_is [OF le])
    let ?d = "set_next_leaf q (of_nat (page_of l))"
    note sn = set_next_leaf_is [OF q(2), of "of_nat (page_of l)"]
    have pm: "page_of l \<le> u32_max" "page_of r \<le> u32_max" using live_own [OF p(2)] live_own [OF p(3)] by (simp_all add: own_page_no_def)
    have "node_page tid no [page_of l] [] ?d" using sn q pm by (simp add: node_page_def tidy_def sep_recs_def cells_bytes_def)
    then obtain c where c: "insert_record 0 (enc_interior sep (of_nat (page_of r))) ?d = Ok c" "node_page tid no (put_at_child (Suc 0) (page_of r) [page_of l]) (put_at_child 0 sep []) c"
      by (rule insert_node_page [of tid no "[page_of l]" "[]" ?d 0 "page_of r" sep]) (use pm sn q p(5) in \<open>simp_all add: enc_interior_def key_cap_def\<close>)
    have np: "node_page tid no [page_of l, page_of r] [sep] c" using c(2) by (simp add: put_at_child_def)
    let ?f1 = "\<lambda>b. obind (page_init b PageInterior tid (of_nat no)) (\<lambda>p. Ok (set_next_leaf p (of_nat (page_of l)), ()))"
    let ?f2 = "\<lambda>b. obind (insert_record 0 (enc_interior sep (of_nat (page_of r))) b) (\<lambda>b. Ok (b, ()))"
    obtain u where u: "edit_frame t i ?f1 = (u, Ok ())" "guarded crc u [(i, no, ?d)]" "evolves crc t u {no} 0" "reuse.truncate u = reuse.truncate t"
      by (rule edit_frame_guarded [where f = ?f1 and c = ?d and x = "()", OF ok(2) evolves_ready [OF ok(3)] _ page_is_ok(1) [OF sn(1)]]) (use q(1) in simp_all)
    have pc: "page_ok crc no c" using np page_is_ok(1) by (auto simp: node_page_def)
    obtain v where v: "edit_frame u i ?f2 = (v, Ok ())" "guarded crc v [(i, no, c)]" "evolves crc u v {no} 0" "reuse.truncate v = reuse.truncate u" "holds crc v no c"
      by (rule edit_frame_guarded [where f = ?f2 and c = c and x = "()", OF u(2) evolves_ready [OF u(3)] _ pc]) (use c(1) in simp_all)
    obtain x where x: "drop_after i (v, Ok no) = (x, Ok no)" "guarded crc x []" "evolves crc v x {} 0" "reuse.truncate x = reuse.truncate v"
        "\<And>m c. holds crc v m c \<longleftrightarrow> holds crc x m c"
      by (rule drop_after_guarded [OF v(2) evolves_ready [OF v(3)], of "Ok no"]) blast
    have tr: "reuse.truncate x = reuse.truncate t" using x(4) v(4) u(4) by simp
    have own: "own_page_no x no" using ok(5) alloc_inv_truncate [OF tr] by (simp add: own_page_no_def available_def)
    have "evolves crc s x {no} 1" using evolves_trans [OF evolves_trans [OF evolves_trans [OF ok(3) u(3)] v(3)] x(3)] by simp
    then have ev: "evolves crc s x {} 1" by (rule fresh_evolves [OF _ ok(4)]) (use own in \<open>simp add: own_page_no_def\<close>)
    have lv: "live crc x tid None (Some sep) l" "live crc x tid (Some sep) None r" using live_evolves [OF p(2) ev] live_evolves [OF p(3) ev] by simp_all
    have "kids_live crc x tid None None [l, r] [sep]"
      using lv by (auto simp: kids_live_def fence_lo_def fence_hi_def less_Suc_eq nth_Cons')
    moreover have "node_live crc x tid None None no (map page_of [l, r]) [sep]"
      using own np v(5) x(5) p(5) by (auto simp: node_live_iff keys_ok_def over_def under_def)
    ultimately have "live crc x tid None None (mk_node no [l, r] [sep])" by (rule live_mk_node)
    moreover have "no \<notin> set (tree_pages l @ tree_pages r)" using live_unavailable [OF p(2)] live_unavailable [OF p(3)] ok(4) by auto
    then have "distinct (tree_pages (mk_node no [l, r] [sep]))" using p(4) mk_node_facts(4) [of "[l, r]" "[sep]" no] by simp
    ultimately have "focus crc x tid [] (mk_node no [l, r] [sep])" using evolves_ready [OF ev] by (simp add: focus_def)
    moreover have "new_root crc debug s tid (page_of l) sep (page_of r) = (x, Ok no)" using ok(1) u(1) v(1) x(1) by (simp add: new_root_def)
    moreover have "idle crc x"
    proof -
      have "length (frames x) = length (frames s)" using ev by (simp add: evolves_def)
      then show ?thesis using x(2) g(2) by (auto simp: idle_guarded)
    qed
    moreover have "\<not> is_frozen x no" using ok(6) truncate_frozen [OF tr] by simp
    ultimately show ?thesis using ev ok(4) by blast
  next
    case no
    then show ?thesis by (simp add: new_root_def refused_then)
  qed
qed

section \<open>Reading and cutting a node\<close>

lemma node_read:
  assumes "idle crc s" "alloc_ready s" "node_live crc s tid lo hi no cs ks"
  obtains t b where "with_read crc s no k = (t, k b)" "node_page tid no cs ks b" "idle crc t" "evolves crc s t {} 0"
    "node_image crc tid no (hd cs) (zip ks (tl cs)) b"
proof -
  obtain c where c: "holds crc s no c" "node_page tid no cs ks c" "length cs = Suc (length ks)" "keys_ok lo hi ks" using assms(3) by (auto simp: node_live_iff)
  obtain t x where w: "with_read crc s no k = (t, x)" by fastforce
  obtain b where b: "x = k b" "page_ok crc no b" "page_body b = page_body c" "reads_only crc s t" by (rule with_read_idle [OF assms(1) c(1) w])
  note np = node_page_body [OF c(2) b(2,3)]
  have "node_image crc tid no (hd cs) (zip ks (tl cs)) b" by (rule node_page_image [OF np c(3)]) (use c(4) in \<open>simp add: keys_ok_def\<close>)
  then show thesis using that w b(1) np reads_only_idle [OF b(4)] reads_only_evolves [OF assms(2) b(4)] by blast
qed

lemma node_page_search:
  assumes "node_page tid no cs ks b" "length cs = Suc (length ks)" "keys_ok lo hi ks"
  shows "upper_bound b key = Ok (length (takeWhile (\<lambda>k. k \<le> key) ks))" "all_slots b [0..<nentries b] = Ok (sep_recs ks (tl cs))"
    "page_next_leaf b = of_nat (hd cs)" "free_space b + cells_bytes (sep_recs ks (tl cs)) = 4056"
proof -
  have p: "page_is no PageInterior tid (of_nat (hd cs)) b" "page_slots b = sep_recs ks (tl cs)" "tidy b" using assms(1) by (simp_all add: node_page_def)
  note ok = page_is_ok [OF p(1)]
  have im: "node_image (\<lambda>c _. c) tid no (hd cs) (zip ks (tl cs)) b" by (rule node_page_image [OF assms(1,2)]) (use assms(3) in \<open>simp add: keys_ok_def\<close>)
  note ne = node_image_entries [OF im]
  show "upper_bound b key = Ok (length (takeWhile (\<lambda>k. k \<le> key) ks))"
    by (rule bounds_find(2) [OF ok(1) [of "\<lambda>c _. c"]]) (use ne assms(2,3) in \<open>simp_all add: keys_ok_def\<close>)
  have "map ((!) (page_slots b)) [0..<nentries b] = page_slots b" using map_nth [of "page_slots b"] by (simp only: length_page_slots)
  then show "all_slots b [0..<nentries b] = Ok (sep_recs ks (tl cs))"
    using all_slots_eq [OF ok(5), of "[0..<nentries b]"] p(2) by (simp add: atLeast0LessThan)
  show "page_next_leaf b = of_nat (hd cs)" by (rule ok(4))
  show "free_space b + cells_bytes (sep_recs ks (tl cs)) = 4056" using p(2,3) by (simp add: tidy_def)
qed

lemma cut_node_step:
  fixes z l sep r and n :: tree and i sp :: nat
  assumes "idle crc s" "parted crc s tid ((n, i) # z) l sep r"
  defines "cs \<equiv> put_at_child (Suc i) r ((children n)[i := l])" and "ks \<equiv> put_at_child i sep (seps n)"
  defines "ps \<equiv> map page_of cs" and "R \<equiv> sep_recs ks (tl (map page_of cs))"
  defines "nl \<equiv> mk_node (page_of n) (take (Suc sp) cs) (take sp ks)"
  assumes "sp < length ks" "cells_bytes (take sp R) \<le> 4056" "cells_bytes (drop (Suc sp) R) \<le> 4056"
  shows "(\<exists>t q page u. with_alloc crc debug s (\<lambda>no. build_page PageInterior tid (of_nat no) (drop (Suc sp) R) (of_nat (ps ! Suc sp))) = (t, Ok q) \<and>
      build_page PageInterior tid (of_nat (page_of n)) (take sp R) (of_nat (hd ps)) = Ok page \<and> with_edit crc t (page_of n) (\<lambda>_. Ok page) = (u, Ok ()) \<and>
      idle crc u \<and> evolves crc s u {page_of n} 1 \<and> q \<in> available s \<and> \<not> is_frozen u q \<and> \<not> is_frozen u (page_of n) \<and>
      parted crc u tid z nl (ks ! sp) (mk_node q (drop (Suc sp) cs) (drop (Suc sp) ks))) \<or>
    \<not> plenty s 1 \<and> refused (with_alloc crc debug s (\<lambda>no. build_page PageInterior tid (of_nat no) (drop (Suc sp) R) (of_nat (ps ! Suc sp))))"
proof -
  note np = node_put [OF assms(2), folded cs_def ks_def]
  have g: "guarded crc s []" "frames s \<noteq> []" using assms(1) by (simp_all add: idle_guarded)
  have lp: "length ps = Suc (length ks)" using np(5) by (simp add: ps_def)
  have R: "R = sep_recs ks (tl ps)" by (simp add: R_def ps_def)
  have pm: "\<forall>c \<in> set ps. c \<le> u32_max"
  proof
    fix c assume "c \<in> set ps"
    then obtain j where "j < length cs" "c = page_of (cs ! j)" by (auto simp: ps_def in_set_conv_nth)
    then show "c \<le> u32_max" using np(2) live_own [of crc s tid _ _ "cs ! j"] unfolding kids_live_def own_page_no_def by blast
  qed
  have pl: "take sp R = sep_recs (take sp ks) (tl (take (Suc sp) ps))" "hd (take (Suc sp) ps) = hd ps"
    using lp by (cases ps; simp add: R sep_recs_part)+
  have pr: "drop (Suc sp) R = sep_recs (drop (Suc sp) ks) (tl (drop (Suc sp) ps))" "hd (drop (Suc sp) ps) = ps ! Suc sp"
    using lp assms(8) by (simp_all add: R sep_recs_part hd_drop_conv_nth tl_drop)
  have ml: "\<forall>c \<in> set (take (Suc sp) ps). c \<le> u32_max" "\<forall>c \<in> set (drop (Suc sp) ps). c \<le> u32_max" using pm by (auto dest: in_set_takeD in_set_dropD)
  let ?f = "\<lambda>no. build_page PageInterior tid (of_nat no) (drop (Suc sp) R) (of_nat (ps ! Suc sp))"
  have f: "\<exists>c. ?f no = Ok c \<and> page_ok crc no c \<and> node_page tid no (drop (Suc sp) ps) (drop (Suc sp) ks) c" for no
  proof -
    obtain c where "?f no = Ok c" "node_page tid no (drop (Suc sp) ps) (drop (Suc sp) ks) c"
      using build_node_page [OF _ ml(2), of "drop (Suc sp) ks" tid no] assms(10) unfolding pr by metis
    then show ?thesis using page_is_ok(1) unfolding node_page_def by blast
  qed
  have al: "set (guard_pages []) \<inter> available s = {}" "length [] < length (frames s)" using g(2) by simp_all
  consider (ok) t q c where "with_alloc crc debug s ?f = (t, Ok q)" "guarded crc t []" "evolves crc s t {} 1" "q \<in> available s" "own_page_no t q"
      "\<not> is_frozen t q" "holds crc t q c" "node_page tid q (drop (Suc sp) ps) (drop (Suc sp) ks) c"
    | (no) "\<not> plenty s 1" "refused (with_alloc crc debug s ?f)"
    using with_alloc_step [where Q = "\<lambda>no c. node_page tid no (drop (Suc sp) ps) (drop (Suc sp) ks) c", OF g(1) np(12) al f, of debug] by blast
  then show ?thesis
  proof cases
    case ok
    obtain page where page: "build_page PageInterior tid (of_nat (page_of n)) (take sp R) (of_nat (hd ps)) = Ok page"
        "node_page tid (page_of n) (take (Suc sp) ps) (take sp ks) page"
      using build_node_page [OF _ ml(1), of "take sp ks" tid "page_of n"] assms(9) unfolding pl by metis
    have it: "idle crc t" using ok(2,3) g(2) by (auto simp: idle_guarded evolves_def)
    have "node_live crc t tid (hole_lo z) (hole_hi z) (page_of n) ((map page_of (children n))[i := page_of l]) (seps n)"
      by (rule node_live_evolves [OF np(7) ok(3)]) simp
    then obtain d where d: "holds crc t (page_of n) d" "own_page_no t (page_of n)" by (auto simp: node_live_iff)
    have fz: "\<not> is_frozen t (page_of n)" using np(11) ok(3) unfolding evolves_def by blast
    have pk: "page_ok crc (page_of n) page" using page(2) page_is_ok(1) unfolding node_page_def by blast
    obtain u where u: "with_edit crc t (page_of n) (\<lambda>_. Ok page) = (u, Ok ())" "idle crc u" "evolves crc t u {page_of n} 0"
        "holds crc u (page_of n) page" "reuse.truncate u = reuse.truncate t"
      by (rule with_edit_idle [OF it evolves_ready [OF ok(3)] d(1) fz, of "\<lambda>_. Ok page" "\<lambda>c. c = page"]) (use pk in auto)
    have eu: "evolves crc s u {page_of n} 1" using evolves_trans [OF ok(3) u(3)] by simp
    have un: "page_of n \<notin> set (concat (map tree_pages cs))" "page_of n \<notin> set (ctx_pages z)" using np(4) by auto
    have ku: "kids_live crc u tid (hole_lo z) (hole_hi z) cs ks" by (rule kids_evolve [OF np(2) eu]) (use un(1) in simp)
    note ks = kids_split [OF ku assms(8)] and kk = keys_split [OF np(3) assms(8)]
    have qn: "q \<noteq> page_of n" using ok(4) np(7) by (auto simp: node_live_iff own_page_no_def)
    have own: "own_page_no u q" "own_page_no u (page_of n)"
      using ok(5) d(2) alloc_inv_truncate [OF u(5)] by (simp_all add: own_page_no_def available_def)
    have hq: "holds crc u q c" using u(3) ok(5,7) qn unfolding evolves_def own_page_no_def by blast
    have ll: "length (take (Suc sp) cs) = Suc (length (take sp ks))" "length (drop (Suc sp) cs) = Suc (length (drop (Suc sp) ks))" using np(5) assms(8) by simp_all
    have "node_live crc u tid (hole_lo z) (Some (ks ! sp)) (page_of n) (map page_of (take (Suc sp) cs)) (take sp ks)"
      unfolding node_live_iff using own(2) kk(1) ll(1) u(4) page(2) by (auto simp: ps_def take_map)
    note lv = live_mk_node [OF ks(1) this]
    have "node_live crc u tid (Some (ks ! sp)) (hole_hi z) q (map page_of (drop (Suc sp) cs)) (drop (Suc sp) ks)"
      unfolding node_live_iff using own(1) kk(2) ll(2) hq ok(8) by (auto simp: ps_def drop_map)
    note rv = live_mk_node [OF ks(2) this]
    have "ctx_live crc u tid z (page_of n)" by (rule ctx_live_evolves [OF np(9) eu]) (use un(2) in simp)
    moreover have "owned u z" by (rule owned_evolves [OF np(10) eu])
    moreover have "distinct (ctx_pages z @ tree_pages nl @ tree_pages (mk_node q (drop (Suc sp) cs) (drop (Suc sp) ks)))"
    proof -
      have "q \<notin> set (ctx_pages z @ page_of n # concat (map tree_pages cs))"
      proof -
        have "q \<notin> set (ctx_pages z)" using ctx_unavailable [OF np(9)] ok(4) by blast
        moreover have "q \<notin> set (tree_pages c)" if "c \<in> set cs" for c
        proof -
          obtain j where "j < length cs" "cs ! j = c" using \<open>c \<in> set cs\<close> unfolding in_set_conv_nth by blast
          then show ?thesis using np(2) live_unavailable ok(4) unfolding kids_live_def by blast
        qed
        ultimately show ?thesis using qn by auto
      qed
      then have "distinct (q # ctx_pages z @ page_of n # concat (map tree_pages cs))" using np(4) by simp
      moreover have "concat (map tree_pages cs) = concat (map tree_pages (take (Suc sp) cs)) @ concat (map tree_pages (drop (Suc sp) cs))"
        by (metis append_take_drop_id concat_append map_append)
      ultimately show ?thesis unfolding nl_def mk_node_facts(4) [OF ll(1)] mk_node_facts(4) [OF ll(2)] by auto
    qed
    ultimately have "parted crc u tid z nl (ks ! sp) (mk_node q (drop (Suc sp) cs) (drop (Suc sp) ks))"
      using lv rv kk(3-6) evolves_ready [OF eu] mk_node_facts(3) [OF ll(1)] by (simp add: parted_def nl_def)
    moreover have "\<not> is_frozen u q" "\<not> is_frozen u (page_of n)" using ok(6) fz truncate_frozen [OF u(5)] by simp_all
    ultimately show ?thesis using ok(1,4) page(1) u(1,2) eu by blast
  next
    case no
    then show ?thesis by blast
  qed
qed

section \<open>Sending the separator up\<close>

lemma page_of_plug: "page_of x = page_of y \<Longrightarrow> page_of (plug z x) = page_of (plug z y)"
proof (induction z arbitrary: x y)
  case (Cons a z)
  obtain n i where "a = (n, i)" by (cases a)
  then show ?case using Cons.IH [of "set_child n i x" "set_child n i y"] by simp
qed simp

lemma refused_in_pool [simp]: "refused (in_pool w x) \<longleftrightarrow> refused x"
  by (cases x) (simp add: in_pool_def refused_def)

lemma in_pool_simp [simp]: "in_pool w (s, r) = ((s, w), r)"
  by (simp add: in_pool_def)

lemma focus_pages: "focus crc s tid z l \<Longrightarrow> set (tree_pages (plug z l)) = set (ctx_pages z @ tree_pages l)"
proof -
  assume "focus crc s tid z l"
  then have "ctx_live crc s tid z (page_of l)" by (simp add: focus_def)
  then have "mset (tree_pages (plug z l)) = mset (ctx_pages z @ tree_pages l)" using plug_pages by simp
  then show ?thesis by (rule mset_eq_setD)
qed

lemma focus_settled: "focus crc s tid z x \<Longrightarrow> owned s z \<Longrightarrow> settled crc s tid (plug z x) z (hole_lo z, hole_hi z) (ctx_left z, ctx_right z) x"
  by (simp add: settled_def)

text \<open>The two halves as neighbours in the node they were put into.\<close>

lemma rejoined_node:
  assumes "\<And>k. k < length cs \<Longrightarrow> \<exists>z'. settled crc t tid T z' (fence_lo (hole_lo z) ks k, fence_hi (hole_hi z) ks k)
      (ctx_left z @ concat (map tree_entries (take k cs)), concat (map tree_entries (drop (Suc k) cs)) @ ctx_right z) (cs ! k) \<and> length z' \<le> d"
    and "cs = put_at_child (Suc i) r ((children n)[i := l])" "ks = put_at_child i sep (seps n)" "length (children n) = Suc (length (seps n))" "i \<le> length (seps n)"
  shows "rejoined crc t tid ((n, i) # z) l sep r T d"
proof -
  have i: "i < length (children n)" using assms(4,5) by simp
  have c: "cs = take i (children n) @ l # r # drop (Suc i) (children n)" unfolding assms(2) by (rule put_child_update [OF i])
  have e: "cs ! i = l" "cs ! Suc i = r" "take i cs = take i (children n)" "take (Suc i) cs = take i (children n) @ [l]"
      "drop (Suc i) cs = r # drop (Suc i) (children n)" "drop (Suc (Suc i)) cs = drop (Suc i) (children n)"
    using i by (simp_all add: c nth_append)
  have len: "i < length cs" "Suc i < length cs" using assms(2,4,5) by simp_all
  have ix: "i \<le> Suc (length (seps n))" "Suc i \<le> Suc (length (seps n))" using assms(5) by simp_all
  note f = fences_put [where i = i and ks = "seps n", OF assms(5)]
  obtain zl where zl: "settled crc t tid T zl (fence_lo (hole_lo z) ks i, fence_hi (hole_hi z) ks i)
      (ctx_left z @ concat (map tree_entries (take i cs)), concat (map tree_entries (drop (Suc i) cs)) @ ctx_right z) (cs ! i)" "length zl \<le> d"
    using assms(1) [OF len(1)] by blast
  obtain zr where zr: "settled crc t tid T zr (fence_lo (hole_lo z) ks (Suc i), fence_hi (hole_hi z) ks (Suc i))
      (ctx_left z @ concat (map tree_entries (take (Suc i) cs)), concat (map tree_entries (drop (Suc (Suc i)) cs)) @ ctx_right z) (cs ! Suc i)" "length zr \<le> d"
    using assms(1) [OF len(2)] by blast
  show ?thesis
    unfolding rejoined_def using zl zr
    by (intro exI [of _ zl] exI [of _ zr]) (simp add: e assms(3) f [OF ix(1)] f [OF ix(2)])
qed

lemma node_put_records:
  assumes "length pcs = Suc (length ks)" "i \<le> length ks"
  shows "sep_recs (put_at_child i sep ks) (tl (put_at_child (Suc i) r pcs)) = put_at_child i (enc_interior sep (of_nat r)) (sep_recs ks (tl pcs))"
    "hd (put_at_child (Suc i) r pcs) = hd pcs"
proof -
  have "tl (put_at_child (Suc i) r pcs) = put_at_child i r (tl pcs)" using assms(1) by (cases pcs) (simp_all add: put_at_child_def)
  then show "sep_recs (put_at_child i sep ks) (tl (put_at_child (Suc i) r pcs)) = put_at_child i (enc_interior sep (of_nat r)) (sep_recs ks (tl pcs))"
    using sep_recs_put [of "tl pcs" ks i sep r] assms by simp
  show "hd (put_at_child (Suc i) r pcs) = hd pcs" using assms(1) by (cases pcs) (simp_all add: put_at_child_def)
qed

lemma room_step:
  fixes z l sep r and n :: tree and i :: nat
  assumes "idle crc s" "parted crc s tid ((n, i) # z) l sep r"
  defines "cs \<equiv> put_at_child (Suc i) r ((children n)[i := l])" and "ks \<equiv> put_at_child i sep (seps n)"
  defines "pcs \<equiv> (map page_of (children n))[i := page_of l]" and "rec \<equiv> enc_interior sep (of_nat (page_of r))"
  assumes "length rec + 4 + cells_bytes (sep_recs (seps n) (tl pcs)) \<le> 4056"
  obtains t where "with_edit crc s (page_of n) (insert_record i rec) = (t, Ok ())" "idle crc t" "evolves crc s t {page_of n} 0"
    "focus crc t tid z (mk_node (page_of n) cs ks)"
proof -
  note np = node_put [OF assms(2), folded cs_def ks_def pcs_def]
  obtain b where b: "holds crc s (page_of n) b" "node_page tid (page_of n) pcs (seps n) b" and lp: "length pcs = Suc (length (seps n))"
      and kk: "keys_ok (hole_lo z) (hole_hi z) (seps n)" and own: "own_page_no s (page_of n)"
    using np(7) by (auto simp: node_live_iff)
  have "live crc s tid (Some sep) (hole_hi ((n, i) # z)) r" using assms(2) by (simp add: parted_def)
  then have rm: "page_of r \<le> u32_max" using live_own by (auto simp: own_page_no_def)
  let ?Q = "node_page tid (page_of n) (map page_of cs) ks"
  have "\<exists>c. insert_record i rec b' = Ok c \<and> page_ok crc (page_of n) c \<and> ?Q c" if b': "page_ok crc (page_of n) b'" "page_body b' = page_body b" for b'
  proof -
    note nb = node_page_body [OF b(2) b']
    have "length rec + 4 \<le> free_space b'" using node_page_search(4) [OF nb lp kk] assms(7) by simp
    then obtain c where c: "insert_record i rec b' = Ok c" "?Q c"
      by (rule insert_node_page [OF nb lp np(1) rm, of sep, folded rec_def ks_def np(6)])
    then show ?thesis using page_is_ok(1) unfolding node_page_def by blast
  qed
  then obtain t c where t: "with_edit crc s (page_of n) (insert_record i rec) = (t, Ok ())" "idle crc t" "evolves crc s t {page_of n} 0"
      "holds crc t (page_of n) c" "?Q c" "reuse.truncate t = reuse.truncate s"
    by (rule with_edit_idle [OF assms(1) np(12) b(1) np(11), of "insert_record i rec" ?Q])
  have un: "page_of n \<notin> set (concat (map tree_pages cs))" "page_of n \<notin> set (ctx_pages z)" using np(4) by auto
  have "own_page_no t (page_of n)" using own alloc_inv_truncate [OF t(6)] by (simp add: own_page_no_def available_def)
  then have "node_live crc t tid (hole_lo z) (hole_hi z) (page_of n) (map page_of cs) ks"
    using np(3,5) t(4,5) by (auto simp: node_live_iff)
  moreover have "kids_live crc t tid (hole_lo z) (hole_hi z) cs ks" by (rule kids_evolve [OF np(2) t(3)]) (use un in simp)
  ultimately have "live crc t tid (hole_lo z) (hole_hi z) (mk_node (page_of n) cs ks)" by (intro live_mk_node)
  moreover have "ctx_live crc t tid z (page_of n)" by (rule ctx_live_evolves [OF np(9) t(3)]) (use un in simp)
  ultimately have "focus crc t tid z (mk_node (page_of n) cs ks)"
    using np(4) mk_node_facts [OF np(5), of "page_of n"] evolves_ready [OF t(3)] by (simp add: focus_def)
  then show thesis using that t by blast
qed

lemma cells_Suc: "cells_bytes (drop (Suc n) recs) \<le> cells_bytes (drop n recs)"
proof (cases "n < length recs")
  case True
  then show ?thesis using Cons_nth_drop_Suc [OF True, symmetric] by (simp add: cells_bytes_def)
qed simp

lemma separator_node:
  fixes z l sep r and n :: tree and i :: nat
  assumes "idle crc s" "parted crc s (tree_id w) ((n, i) # z) l sep r"
  defines "cs \<equiv> put_at_child (Suc i) r ((children n)[i := l])" and "ks \<equiv> put_at_child i sep (seps n)"
  defines "ps \<equiv> map page_of cs" and "R \<equiv> sep_recs ks (tl (map page_of cs))"
  obtains (room) t where "insert_separator crc debug (s, w) (page_of n # path) sep (page_of r) = ((t, w), Ok ())" "idle crc t"
      "evolves crc s t {page_of n} 0" "focus crc t (tree_id w) z (mk_node (page_of n) cs ks)"
  | (split) t sp where "idle crc t" "evolves crc s t {} 0" "sp < length ks" "cells_bytes (take sp R) \<le> 4056" "cells_bytes (drop (Suc sp) R) \<le> 4056"
      "insert_separator crc debug (s, w) (page_of n # path) sep (page_of r) =
         then_do (in_pool w (with_alloc crc debug t (\<lambda>no. build_page PageInterior (tree_id w) (of_nat no) (drop (Suc sp) R) (of_nat (ps ! Suc sp))))) (\<lambda>(s, w) q.
         then_do ((s, w), build_page PageInterior (tree_id w) (of_nat (page_of n)) (take sp R) (of_nat (hd ps))) (\<lambda>(s, w) page.
         then_do (in_pool w (with_edit crc s (page_of n) (\<lambda>_. Ok page))) (\<lambda>(s, w) _. insert_separator crc debug (s, w) path (ks ! sp) q)))"
proof -
  let ?p = "page_of n" and ?pcs = "(map page_of (children n))[i := page_of l]" and ?rec = "enc_interior sep (of_nat (page_of r))"
  note np = node_put [OF assms(2), folded cs_def ks_def]
  have lp: "length ?pcs = Suc (length (seps n))" and kk: "keys_ok (hole_lo z) (hole_hi z) (seps n)" using np(7) by (auto simp: node_live_iff)
  note nr = node_put_records(1) [OF lp np(1), where sep = sep and r = "page_of r"] node_put_records(2) [OF lp np(1), where r = "page_of r"]
  obtain s1 b1 where s1: "with_read crc s ?p (separator_room crc ?p sep (length ?rec)) = (s1, separator_room crc ?p sep (length ?rec) b1)"
      "node_page (tree_id w) ?p ?pcs (seps n) b1" "idle crc s1" "evolves crc s s1 {} 0" "node_image crc (tree_id w) ?p (hd ?pcs) (zip (seps n) (tl ?pcs)) b1"
    by (rule node_read [OF assms(1) np(12,7)])
  note q1 = node_page_search [OF s1(2) lp kk]
  have room: "separator_room crc ?p sep (length ?rec) b1 = Ok (i, free_space b1 \<ge> length ?rec + 4)"
    unfolding separator_room_def open_checked_node [OF s1(5)] q1(1) np(8) by simp
  have p1: "parted crc s1 (tree_id w) ((n, i) # z) l sep r" by (rule parted_evolves [OF assms(2) s1(4)]) simp
  show thesis
  proof (cases "free_space b1 \<ge> length ?rec + 4")
    case True
    then have "length ?rec + 4 + cells_bytes (sep_recs (seps n) (tl ?pcs)) \<le> 4056" using q1(4) by simp
    then obtain t where t: "with_edit crc s1 ?p (insert_record i ?rec) = (t, Ok ())" "idle crc t" "evolves crc s1 t {?p} 0"
        "focus crc t (tree_id w) z (mk_node ?p cs ks)"
      unfolding cs_def ks_def by (rule room_step [OF s1(3) p1])
    have "insert_separator crc debug (s, w) (?p # path) sep (page_of r) = ((t, w), Ok ())"
      using True t(1) by (simp add: Let_def s1(1) room)
    moreover have "evolves crc s t {?p} 0" using evolves_trans [OF s1(4) t(3)] by simp
    ultimately show thesis using that(1) t by blast
  next
    case False
    have nl1: "node_live crc s1 (tree_id w) (hole_lo z) (hole_hi z) ?p ?pcs (seps n)" by (rule node_live_evolves [OF np(7) s1(4)]) simp
    obtain s2 b2 where s2: "with_read crc s1 ?p (page_records crc ?p) = (s2, page_records crc ?p b2)"
        "node_page (tree_id w) ?p ?pcs (seps n) b2" "idle crc s2" "evolves crc s1 s2 {} 0" "node_image crc (tree_id w) ?p (hd ?pcs) (zip (seps n) (tl ?pcs)) b2"
      by (rule node_read [OF s1(3) evolves_ready [OF s1(4)] nl1])
    have nl2: "node_live crc s2 (tree_id w) (hole_lo z) (hole_hi z) ?p ?pcs (seps n)" by (rule node_live_evolves [OF nl1 s2(4)]) simp
    obtain s3 b3 where s3: "with_read crc s2 ?p (page_link crc ?p) = (s3, page_link crc ?p b3)"
        "node_page (tree_id w) ?p ?pcs (seps n) b3" "idle crc s3" "evolves crc s2 s3 {} 0" "node_image crc (tree_id w) ?p (hd ?pcs) (zip (seps n) (tl ?pcs)) b3"
      by (rule node_read [OF s2(3) evolves_ready [OF s2(4)] nl2])
    let ?R0 = "sep_recs (seps n) (tl ?pcs)"
    have recs: "page_records crc ?p b2 = Ok ?R0" unfolding page_records_def open_checked_node [OF s2(5)] by (rule node_page_search(2) [OF s2(2) lp kk])
    have link: "page_link crc ?p b3 = Ok (of_nat (hd ps))"
      unfolding page_link_def open_checked_node [OF s3(5)] node_page_search(3) [OF s3(2) lp kk] ps_def np(6) nr(2) by simp
    have R: "R = take i ?R0 @ ?rec # drop i ?R0" unfolding R_def np(6) ks_def nr(1) by (simp add: put_at_child_def)
    have kl: "\<forall>k \<in> set ks. length k \<le> key_cap" using np(3) by (simp add: keys_ok_def)
    have "cells_bytes R = cells_bytes ?R0 + length ?rec + 4" using cells_put [of i ?rec ?R0] by (simp add: R put_at_child_def)
    moreover have sz: "\<forall>x \<in> set R. length x + 4 \<le> 2028" unfolding R_def using sep_rec_size kl by blast
    moreover have "length ?rec + 4 \<le> 2028" using sz by (simp add: R)
    ultimately obtain sp where sp: "split_point R (PAGE_SIZE - HEADER_LEN) = Some sp" "0 < sp" "sp < length R" "cells_bytes (take sp R) \<le> 4056" "cells_bytes (drop sp R) \<le> 4056"
      by (rule_tac split_point_exists [of R]) (use False q1(4) in simp_all)
    have lr: "length R = length ks" unfolding R_def using np(5) by simp
    have d: "drop sp R = R ! sp # drop (Suc sp) R" using sp(3) by (simp add: Cons_nth_drop_Suc)
    have tn: "tl ps ! sp = ps ! Suc sp" using sp(3) lr np(5) by (simp add: nth_tl ps_def)
    have "R ! sp = enc_interior (ks ! sp) (of_nat (ps ! Suc sp))" using nth_sep_recs [of "tl ps" ks sp] sp(3) lr np(5) tn by (simp add: R_def ps_def)
    then have vk: "validated_key (R ! sp) = Ok (ks ! sp)" "validated_child (R ! sp) = Ok (of_nat (ps ! Suc sp))"
      using validated_sep [of "ks ! sp"] kl sp(3) lr by simp_all
    have il: "\<not> i > length ?R0" using np(1) lp by simp
    have "insert_separator crc debug (s, w) (?p # path) sep (page_of r) =
         then_do (in_pool w (with_alloc crc debug s3 (\<lambda>no. build_page PageInterior (tree_id w) (of_nat no) (drop (Suc sp) R) (of_nat (ps ! Suc sp))))) (\<lambda>(s, w) q.
         then_do ((s, w), build_page PageInterior (tree_id w) (of_nat ?p) (take sp R) (of_nat (hd ps))) (\<lambda>(s, w) page.
         then_do (in_pool w (with_edit crc s ?p (\<lambda>_. Ok page))) (\<lambda>(s, w) _. insert_separator crc debug (s, w) path (ks ! sp) q)))"
      unfolding insert_separator.simps Let_def s1(1) room
      by (simp add: False s2(1) recs il s3(1) link R [symmetric] sp(1) d vk del: drop_append take_append)
    moreover have "evolves crc s s3 {} 0" using evolves_trans [OF evolves_trans [OF s1(4) s2(4)] s3(4)] by simp
    moreover have "cells_bytes (drop (Suc sp) R) \<le> 4056" using cells_Suc [of sp R] sp(5) by simp
    ultimately show thesis using that(2) s3(3) sp(3,4) lr by simp
  qed
qed

lemma insert_separator_step:
  assumes "idle crc s" "parted crc s (tree_id w) z l sep r" "root w = page_of (plug z l)"
  shows "(\<exists>t T. insert_separator crc debug (s, w) (ctx_path z) sep (page_of r) = ((t, w\<lparr>root := page_of T\<rparr>), Ok ()) \<and> idle crc t \<and>
      evolves crc s t (set (ctx_path z)) (Suc (length z)) \<and> rejoined crc t (tree_id w) z l sep r T (Suc (length z)) \<and>
      set (tree_pages T) \<subseteq> set (ctx_pages z @ tree_pages l @ tree_pages r) \<union> available s) \<or>
    \<not> plenty s (Suc (length z)) \<and> refused (insert_separator crc debug (s, w) (ctx_path z) sep (page_of r))"
  using assms
proof (induction z arbitrary: s l sep r w)
  case Nil
  have r: "root w = page_of l" using Nil.prems(3) by simp
  consider (ok) t no where "new_root crc debug s (tree_id w) (page_of l) sep (page_of r) = (t, Ok no)" "idle crc t" "evolves crc s t {} 1" "\<not> is_frozen t no"
      "focus crc t (tree_id w) [] (mk_node no [l, r] [sep])" "no \<in> available s"
    | (no) "\<not> plenty s 1" "refused (new_root crc debug s (tree_id w) (page_of l) sep (page_of r))"
    using new_root_step [OF Nil.prems(1,2), of debug] by blast
  then show ?case
  proof cases
    case ok
    let ?T = "mk_node no [l, r] [sep]"
    note m = mk_node_facts [of "[l, r]" "[sep]" no, simplified]
    have st: "settled crc t (tree_id w) ?T [] (None, None) ([], []) ?T" using ok(5) by (simp add: settled_def)
    have "settled crc t (tree_id w) ?T [(?T, 0)] (None, Some sep) ([], tree_entries r) l" "settled crc t (tree_id w) ?T [(?T, Suc 0)] (Some sep, None) (tree_entries l, []) r"
      using settled_child [OF st, of 0] settled_child [OF st, of "Suc 0"] ok(4) by (simp_all add: m fence_lo_def fence_hi_def)
    then have "rejoined crc t (tree_id w) [] l sep r ?T (Suc 0)" unfolding rejoined_def by (intro exI [of _ "[(?T, 0)]"] exI [of _ "[(?T, Suc 0)]"]) simp
    moreover have "set (tree_pages ?T) \<subseteq> set (ctx_pages [] @ tree_pages l @ tree_pages r) \<union> available s" using m(4) ok(6) by auto
    ultimately show ?thesis using ok(1-3) r m(3) by (intro disjI1 exI [of _ t] exI [of _ ?T]) simp
  next
    case no
    then show ?thesis using r by (simp add: refused_then)
  qed
next
  case (Cons x z)
  obtain n i where x: "x = (n, i)" by (cases x)
  let ?cs = "put_at_child (Suc i) r ((children n)[i := l])" and ?ks = "put_at_child i sep (seps n)" and ?tid = "tree_id w"
  let ?ps = "map page_of ?cs" and ?R = "sep_recs ?ks (tl (map page_of ?cs))"
  note pt = Cons.prems(2) [unfolded x]
  note np = node_put [OF pt]
  have lc: "length (children n) = Suc (length (seps n))" using np(5) by simp
  have rt: "root w = page_of (plug z m)" if "page_of m = page_of n" for m
    using Cons.prems(3) page_of_plug [of m "set_child n i l" z] that by (simp add: x)
  show ?case
  proof (cases rule: separator_node [OF Cons.prems(1) pt, of debug "ctx_path z", case_names room split])
    case (room t)
    let ?n = "mk_node (page_of n) ?cs ?ks" and ?T = "plug z (mk_node (page_of n) ?cs ?ks)"
    note m = mk_node_facts [OF np(5), of "page_of n"]
    have ow: "owned t z" "\<not> is_frozen t (page_of n)" using owned_evolves [OF np(10) room(3)] np(11) room(3) by (auto simp: evolves_def)
    note st = focus_settled [OF room(4) ow(1)]
    have "rejoined crc t ?tid ((n, i) # z) l sep r ?T (Suc (length z))"
    proof (rule rejoined_node [OF _ refl refl lc np(1)])
      fix k assume "k < length ?cs"
      then show "\<exists>z'. settled crc t ?tid ?T z' (fence_lo (hole_lo z) ?ks k, fence_hi (hole_hi z) ?ks k)
          (ctx_left z @ concat (map tree_entries (take k ?cs)), concat (map tree_entries (drop (Suc k) ?cs)) @ ctx_right z) (?cs ! k) \<and> length z' \<le> Suc (length z)"
        using settled_child [OF st, of k] ow(2) unfolding m by (intro exI [of _ "(?n, k) # z"]) simp
    qed
    then have "rejoined crc t ?tid (x # z) l sep r ?T (Suc (length (x # z)))" unfolding x rejoined_def by fastforce
    moreover have "w\<lparr>root := page_of ?T\<rparr> = w" using rt [OF m(3)] by simp
    moreover have "set (tree_pages ?T) \<subseteq> set (ctx_pages (x # z) @ tree_pages l @ tree_pages r) \<union> available s"
    proof -
      have "set (tree_pages ?T) = set (ctx_pages z @ page_of n # concat (map tree_pages ?cs))" using focus_pages [OF room(4)] unfolding m(4) .
      then show ?thesis unfolding np(13) x by blast
    qed
    moreover have "evolves crc s t (set (ctx_path (x # z))) (Suc (length (x # z)))" by (rule evolves_mono [OF room(3)]) (simp_all add: x)
    ultimately show ?thesis using room(1,2) unfolding x by (intro disjI1 exI [of _ t] exI [of _ ?T]) (simp del: ctx_pages_simps)
  next
    case (split t sp)
    have pt1: "parted crc t ?tid ((n, i) # z) l sep r" by (rule parted_evolves [OF pt split(2)]) simp
    let ?nl = "mk_node (page_of n) (take (Suc sp) ?cs) (take sp ?ks)"
    let ?f = "\<lambda>no. build_page PageInterior ?tid (of_nat no) (drop (Suc sp) ?R) (of_nat (?ps ! Suc sp))"
    have ll: "length (take (Suc sp) ?cs) = Suc (length (take sp ?ks))" "length (drop (Suc sp) ?cs) = Suc (length (drop (Suc sp) ?ks))" using np(5) split(3) by simp_all
    consider (ok) t1 q page u where "with_alloc crc debug t ?f = (t1, Ok q)" "build_page PageInterior ?tid (of_nat (page_of n)) (take sp ?R) (of_nat (hd ?ps)) = Ok page"
        "with_edit crc t1 (page_of n) (\<lambda>_. Ok page) = (u, Ok ())" "idle crc u" "evolves crc t u {page_of n} 1" "\<not> is_frozen u q" "\<not> is_frozen u (page_of n)" "q \<in> available t"
        "parted crc u ?tid z ?nl (?ks ! sp) (mk_node q (drop (Suc sp) ?cs) (drop (Suc sp) ?ks))"
      | (no) "\<not> plenty t 1" "refused (with_alloc crc debug t ?f)"
      using cut_node_step [OF split(1) pt1 split(3-5), of debug] by blast
    then show ?thesis
    proof cases
      case ok
      let ?nr = "mk_node q (drop (Suc sp) ?cs) (drop (Suc sp) ?ks)"
      have eq: "insert_separator crc debug (s, w) (ctx_path (x # z)) sep (page_of r) = insert_separator crc debug (u, w) (ctx_path z) (?ks ! sp) (page_of ?nr)"
        using split(6) ok(1-3) mk_node_facts(3) [OF ll(2), of q] by (simp add: x)
      have eu: "evolves crc s u {page_of n} 1" using evolves_trans [OF split(2) ok(5)] by simp
      consider (ok') v T where "insert_separator crc debug (u, w) (ctx_path z) (?ks ! sp) (page_of ?nr) = ((v, w\<lparr>root := page_of T\<rparr>), Ok ())" "idle crc v"
          "evolves crc u v (set (ctx_path z)) (Suc (length z))" "rejoined crc v ?tid z ?nl (?ks ! sp) ?nr T (Suc (length z))"
          "set (tree_pages T) \<subseteq> set (ctx_pages z @ tree_pages ?nl @ tree_pages ?nr) \<union> available u"
        | (no') "\<not> plenty u (Suc (length z))" "refused (insert_separator crc debug (u, w) (ctx_path z) (?ks ! sp) (page_of ?nr))"
        using Cons.IH [OF ok(4,9) rt [OF mk_node_facts(3) [OF ll(1)]]] by blast
      then show ?thesis
      proof cases
        case ok'
        obtain zl zr where zz: "settled crc v ?tid T zl (hole_lo z, Some (?ks ! sp)) (ctx_left z, tree_entries ?nr @ ctx_right z) ?nl"
            "settled crc v ?tid T zr (Some (?ks ! sp), hole_hi z) (ctx_left z @ tree_entries ?nl, ctx_right z) ?nr" "length zl \<le> Suc (length z)" "length zr \<le> Suc (length z)"
          using ok'(4) unfolding rejoined_def by blast
        have fz: "\<not> is_frozen v (page_of n)" "\<not> is_frozen v q" using ok(6,7) ok'(3) unfolding evolves_def by blast+
        have "rejoined crc v ?tid ((n, i) # z) l sep r T (Suc (Suc (length z)))"
        proof (rule rejoined_node [OF _ refl refl lc np(1)])
          fix k assume k: "k < length ?cs"
          show "\<exists>z'. settled crc v ?tid T z' (fence_lo (hole_lo z) ?ks k, fence_hi (hole_hi z) ?ks k)
              (ctx_left z @ concat (map tree_entries (take k ?cs)), concat (map tree_entries (drop (Suc k) ?cs)) @ ctx_right z) (?cs ! k) \<and> length z' \<le> Suc (Suc (length z))"
            by (rule settled_split [OF zz(1,2) refl refl np(5) split(3) k fz zz(3,4)]) blast
        qed
        moreover have "set (tree_pages T) \<subseteq> set (ctx_pages (x # z) @ tree_pages l @ tree_pages r) \<union> available s"
        proof -
          have "set (tree_pages ?nl @ tree_pages ?nr) \<subseteq> insert q (set (page_of n # concat (map tree_pages ?cs)))"
            unfolding mk_node_facts(4) [OF ll(1)] mk_node_facts(4) [OF ll(2)] by (auto dest: in_set_takeD in_set_dropD simp del: set_put_child)
          moreover have "q \<in> available s" "available u \<subseteq> available s \<union> {page_of n}" using ok(8) split(2) eu unfolding evolves_def by blast+
          ultimately have "set (tree_pages T) \<subseteq> set (ctx_pages z @ page_of n # concat (map tree_pages ?cs)) \<union> available s" using ok'(5) by auto
          then show ?thesis unfolding np(13) x by blast
        qed
        moreover have "evolves crc s v (set (ctx_path (x # z))) (Suc (length (x # z)))"
          by (rule evolves_mono [OF evolves_trans [OF eu ok'(3)]]) (simp_all add: x)
        ultimately show ?thesis using eq ok'(1,2) unfolding x by (intro disjI1 exI [of _ v] exI [of _ T]) (simp del: ctx_pages_simps)
      next
        case no'
        have "\<not> plenty s (Suc (length (x # z)))" using no'(1) plenty_evolves [OF _ eu, of "Suc (length z)"] by auto
        then show ?thesis using eq no'(2) by simp
      qed
    next
      case no
      have "\<not> plenty s (Suc (length (x # z)))" using no(1) plenty_evolves [OF _ split(2), of 1] plenty_mono [of s "Suc (length (x # z))" 1] by auto
      moreover have "refused (insert_separator crc debug (s, w) (ctx_path (x # z)) sep (page_of r))"
        using no(2) split(6) by (simp add: x refused_then)
      ultimately show ?thesis by blast
    qed
  qed
qed

section \<open>Separators above the bound\<close>

text \<open>
  The bound \<open>key_cap\<close> on the keys of a live tree is needed. Three separators of 1500, 3000 and 1500 bytes
  could go to two pages around the middle one, which is promoted and stored in neither; the split point
  counts it on one side, finds no cut, and \<open>insert_separator\<close> gives up after the leaf was split.
\<close>

lemma wide_separator_unsplit:
  "split_point (map (\<lambda>n. enc_interior (replicate n 0) 2) [1500, 3000, 1500]) usable = None"
  "cells_bytes (map (\<lambda>n. enc_interior (replicate n 0) 2) [1500]) \<le> usable"
  by (simp_all add: split_point_def split_sizes_def enc_interior_def cells_bytes_def layout_defs)

end
