(* ===== verification/Btree_Leaf_Split.thy ===== *)
theory Btree_Leaf_Split
  imports Btree_Separator
begin

text \<open>
  Splitting a full leaf (\<open>split_leaf\<close>): at the tail or at the most balanced cut in two, or into three
  leaves when the new record is too big for either half of any cut. The pieces are live leaves with
  the separators between them; only the first has its place in the tree yet.
\<close>

section \<open>Greedy packing\<close>

lemma cells_append [simp]: "cells_bytes (xs @ ys) = cells_bytes xs + cells_bytes ys" "cells_bytes [] = 0" "cells_bytes (r # rs) = length r + 4 + cells_bytes rs"
  by (simp_all add: cells_bytes_def)

lemma cells_take_drop: "cells_bytes (take n rs) + cells_bytes (drop n rs) = cells_bytes rs"
  by (metis append_take_drop_id cells_append(1))

lemma greedy_first:
  assumes "used \<le> u"
  shows "greedy_cuts u i used rs = [] \<and> used + cells_bytes rs \<le> u \<or>
    (\<exists>k < length rs. used + cells_bytes (take k rs) \<le> u \<and> u < used + cells_bytes (take (Suc k) rs) \<and>
       greedy_cuts u i used rs = (i + k) # greedy_cuts u (Suc (i + k)) (length (rs ! k) + 4) (drop (Suc k) rs))"
  using assms
proof (induction rs arbitrary: i used)
  case (Cons r rs)
  show ?case
  proof (cases "used + length r + 4 > u")
    case True
    then show ?thesis using Cons.prems by (intro disjI2 exI [of _ 0]) simp
  next
    case False
    then consider (fits) "greedy_cuts u (Suc i) (used + length r + 4) rs = []" "used + length r + 4 + cells_bytes rs \<le> u"
      | (cut) k where "k < length rs" "used + length r + 4 + cells_bytes (take k rs) \<le> u" "u < used + length r + 4 + cells_bytes (take (Suc k) rs)"
          "greedy_cuts u (Suc i) (used + length r + 4) rs = (Suc i + k) # greedy_cuts u (Suc (Suc i + k)) (length (rs ! k) + 4) (drop (Suc k) rs)"
      using Cons.IH [of "used + length r + 4" "Suc i"] by (auto simp: not_less)
    then show ?thesis
    proof cases
      case (cut k)
      then show ?thesis using False by (intro disjI2 exI [of _ "Suc k"]) (simp add: add_ac)
    qed (use False in simp)
  qed
qed simp

lemma greedy_group:
  assumes "\<forall>r \<in> set rs. length r + 4 \<le> u" "u < cells_bytes rs"
  obtains k where "0 < k" "k < length rs" "cells_bytes (take k rs) \<le> u" "u < cells_bytes (take (Suc k) rs)"
    "greedy_cuts u i 0 rs = (i + k) # greedy_cuts u (i + k) 0 (drop k rs)"
proof -
  obtain k where k: "k < length rs" "cells_bytes (take k rs) \<le> u" "u < cells_bytes (take (Suc k) rs)"
      "greedy_cuts u i 0 rs = (i + k) # greedy_cuts u (Suc (i + k)) (length (rs ! k) + 4) (drop (Suc k) rs)"
    using greedy_first [of 0 u i rs] assms(2) by auto
  have fit: "length (rs ! k) + 4 \<le> u" using assms(1) k(1) by simp
  have "greedy_cuts u (i + k) 0 (drop k rs) = greedy_cuts u (Suc (i + k)) (length (rs ! k) + 4) (drop (Suc k) rs)"
    using Cons_nth_drop_Suc [OF k(1), symmetric] fit by simp
  moreover have "0 < k"
  proof (rule ccontr)
    assume "\<not> 0 < k"
    then have "cells_bytes (take (Suc k) rs) = length (rs ! 0) + 4" using k(1) by (cases rs) simp_all
    then show False using k(3) fit \<open>\<not> 0 < k\<close> by simp
  qed
  ultimately show thesis using that k by simp
qed

lemma greedy_three:
  assumes "\<forall>r \<in> set rs. length r + 4 \<le> u" "u < cells_bytes rs" "cells_bytes rs \<le> 2 * u"
    and "\<And>k. 0 < k \<Longrightarrow> k < length rs \<Longrightarrow> cells_bytes (take k rs) \<le> u \<Longrightarrow> u < cells_bytes (drop k rs)"
  obtains c d where "greedy_cuts u 0 0 rs = [c, c + d]" "0 < c" "0 < d" "c + d < length rs"
    "cells_bytes (take c rs) \<le> u" "cells_bytes (take d (drop c rs)) \<le> u" "cells_bytes (drop (c + d) rs) \<le> u"
proof -
  obtain c where c: "0 < c" "c < length rs" "cells_bytes (take c rs) \<le> u" "u < cells_bytes (take (Suc c) rs)"
      "greedy_cuts u 0 0 rs = (0 + c) # greedy_cuts u (0 + c) 0 (drop c rs)"
    by (rule greedy_group [OF assms(1,2)])
  have big: "u < cells_bytes (drop c rs)" by (rule assms(4) [OF c(1-3)])
  have fit: "\<forall>r \<in> set (drop c rs). length r + 4 \<le> u" using assms(1) by (auto dest: in_set_dropD)
  obtain d where d: "0 < d" "d < length (drop c rs)" "cells_bytes (take d (drop c rs)) \<le> u"
      "greedy_cuts u (0 + c) 0 (drop c rs) = (0 + c + d) # greedy_cuts u (0 + c + d) 0 (drop d (drop c rs))"
    by (rule greedy_group [OF fit big])
  have dd: "drop d (drop c rs) = drop (c + d) rs" by (simp add: add.commute)
  have "take (Suc c) rs = take c rs @ [rs ! c]" using c(2) by (rule take_Suc_conv_app_nth)
  moreover have "length (rs ! c) + 4 \<le> cells_bytes (take d (drop c rs))"
    using Cons_nth_drop_Suc [OF c(2), symmetric] d(1) by (cases d) simp_all
  moreover have "cells_bytes rs = cells_bytes (take c rs) + cells_bytes (take d (drop c rs)) + cells_bytes (drop (c + d) rs)"
    using cells_take_drop [of c rs] cells_take_drop [of d "drop c rs"] dd by simp
  ultimately have last: "cells_bytes (drop (c + d) rs) \<le> u" using c(4) assms(3) by simp
  then have "greedy_cuts u (c + d) 0 (drop (c + d) rs) = []"
    using greedy_first [of 0 u "c + d" "drop (c + d) rs"] cells_take_drop by (metis add_0 add_leD1 le_trans less_le_not_le zero_le)
  then show thesis using that [of c d] c d dd last by simp
qed

section \<open>Pieces of a run of entries\<close>

lemma piece_live:
  assumes "page_is no PageLeaf tid nxt c" "list_all2 (cell_holds crc t m) (page_slots c) es" "holds crc t no c" "own_page_no t no" "nxt = 0 \<longrightarrow> hi = None"
    and "sorted_wrt (<) (map fst es)" "\<forall>e \<in> set es. over lo (fst e) \<and> under hi (fst e) \<and> length (fst e) \<le> key_cap"
  shows "live crc t tid lo hi (TLeaf no es)"
  using leaf_image_is [OF assms(1,2)] page_is_ok(4,5) [OF assms(1)] assms(3-7) unfolding live.simps leaf_live_def by blast

lemma cut_entries:
  assumes "sorted_wrt (<) (map fst es)" "0 < sp" "sp < length es" "\<forall>e \<in> set es. over lo (fst e) \<and> under hi (fst e) \<and> length (fst e) \<le> key_cap"
  defines "sep \<equiv> fst (es ! sp)"
  shows "\<forall>e \<in> set (take sp es). over lo (fst e) \<and> under (Some sep) (fst e) \<and> length (fst e) \<le> key_cap"
    "\<forall>e \<in> set (drop sp es). over (Some sep) (fst e) \<and> under hi (fst e) \<and> length (fst e) \<le> key_cap"
    "over lo sep" "lo \<noteq> Some sep" "under hi sep" "length sep \<le> key_cap" "sorted_wrt (<) (map fst (take sp es))" "sorted_wrt (<) (map fst (drop sp es))"
proof -
  have es: "es = take sp es @ es ! sp # drop (Suc sp) es" by (rule id_take_nth_drop [OF assms(3)])
  have d: "drop sp es = es ! sp # drop (Suc sp) es" using assms(3) by (simp add: Cons_nth_drop_Suc)
  have "sorted_wrt (<) (map fst (take sp es @ es ! sp # drop (Suc sp) es))" using assms(1) es by simp
  then have s: "sorted_wrt (<) (map fst (take sp es))" "sorted_wrt (<) (map fst (es ! sp # drop (Suc sp) es))"
      "\<forall>e \<in> set (take sp es). fst e < sep" "\<forall>e \<in> set (drop (Suc sp) es). sep < fst e"
    by (auto simp: sorted_wrt_append sep_def)
  show "sorted_wrt (<) (map fst (take sp es))" "sorted_wrt (<) (map fst (drop sp es))" using s(1,2) d by simp_all
  have m: "over lo (fst (es ! sp)) \<and> under hi (fst (es ! sp)) \<and> length (fst (es ! sp)) \<le> key_cap" using assms(4) nth_mem [OF assms(3)] by blast
  then show "over lo sep" "under hi sep" "length sep \<le> key_cap" by (simp_all add: sep_def)
  have "take sp es ! 0 \<in> set (take sp es)" by (rule nth_mem) (use assms(2,3) in simp)
  then have z: "es ! 0 \<in> set (take sp es)" using assms(2) by simp
  then have "over lo (fst (es ! 0))" using assms(4) in_set_takeD [OF z] by blast
  then show "lo \<noteq> Some sep" using over_trans s(3) z by blast
  show "\<forall>e \<in> set (take sp es). over lo (fst e) \<and> under (Some sep) (fst e) \<and> length (fst e) \<le> key_cap"
    using s(3) assms(4) in_set_takeD [of _ sp es] by (simp add: under_def)
  show "\<forall>e \<in> set (drop sp es). over (Some sep) (fst e) \<and> under hi (fst e) \<and> length (fst e) \<le> key_cap"
    using s(4) assms(4) in_set_dropD [of _ sp es] d by (auto simp: over_def sep_def)
qed

lemma entry_pages_cut: "entry_pages es = entry_pages (take sp es) @ entry_pages (drop sp es)"
  by (metis append_take_drop_id concat_append map_append)

text \<open>A leaf with the records it is to hold, on its page or not yet.\<close>

definition spread :: "crc_fn \<Rightarrow> pool \<Rightarrow> u16 \<Rightarrow> tcontext \<Rightarrow> nat \<Rightarrow> bytes list \<Rightarrow> entry list \<Rightarrow> u32 \<Rightarrow> bool" where
  "spread crc s tid z leaf recs es nxt \<longleftrightarrow>
     alloc_ready s \<and> ctx_live crc s tid z leaf \<and> owned s z \<and> own_page_no s leaf \<and> \<not> is_frozen s leaf \<and>
     list_all2 (cell_holds crc s leaf) recs es \<and> sorted_wrt (<) (map fst es) \<and>
     (\<forall>e \<in> set es. over (hole_lo z) (fst e) \<and> under (hole_hi z) (fst e) \<and> length (fst e) \<le> key_cap) \<and>
     distinct (ctx_pages z @ leaf # entry_pages es) \<and> (nxt = 0 \<longrightarrow> hole_hi z = None)"

lemma spread_evolves:
  assumes "spread crc s tid z leaf recs es nxt" "evolves crc s t {leaf} c" "own_page_no t leaf"
  shows "spread crc t tid z leaf recs es nxt"
proof -
  have s: "ctx_live crc s tid z leaf" "owned s z" "\<not> is_frozen s leaf" "list_all2 (cell_holds crc s leaf) recs es" "distinct (ctx_pages z @ leaf # entry_pages es)"
    using assms(1) unfolding spread_def by blast+
  have "ctx_live crc t tid z leaf" by (rule ctx_live_evolves [OF s(1) assms(2)]) (use s(5) in simp)
  moreover have "list_all2 (cell_holds crc t leaf) recs es" by (rule cells_evolve [OF s(4) assms(2)]) (use s(5) in auto)
  moreover have "\<not> is_frozen t leaf" using s(3) assms(2) unfolding evolves_def by blast
  ultimately show ?thesis
    using assms(1,3) owned_evolves [OF s(2) assms(2)] evolves_ready [OF assms(2)] unfolding spread_def by blast
qed

lemma spread_unavailable:
  assumes "spread crc s tid z leaf recs es nxt"
  shows "set (ctx_pages z @ leaf # entry_pages es) \<inter> available s = {}"
proof -
  have s: "ctx_live crc s tid z leaf" "own_page_no s leaf" "list_all2 (cell_holds crc s leaf) recs es" "alloc_ready s" using assms unfolding spread_def by blast+
  have "p \<notin> available s" if e: "e \<in> set es" "p \<in> set (snd (snd e))" for e p
  proof -
    obtain i where "i < length es" "es ! i = e" using e(1) unfolding in_set_conv_nth by blast
    then have "cell_holds crc s leaf (recs ! i) e" using list_all2_nthD2 [OF s(3)] by auto
    from cell_pages_own [OF this s(4) e(2)] show ?thesis by (simp add: own_page_no_def)
  qed
  then show ?thesis using ctx_unavailable [OF s(1)] s(2) by (auto simp: own_page_no_def)
qed

lemma spread_keys:
  assumes "spread crc s tid z leaf recs es nxt" "i < length recs"
  shows "validated_key (recs ! i) = Ok (fst (es ! i))"
proof -
  have "list_all2 (cell_holds crc s leaf) recs es" using assms(1) unfolding spread_def by blast
  from list_all2_nthD [OF this assms(2)] show ?thesis using cell_decodes decode_leaf_readers(1) by blast
qed

lemma of_page_no: "own_page_no s no \<Longrightarrow> of_nat no \<noteq> (0 :: u32)"
proof -
  assume a: "own_page_no s no"
  then have "unat (of_nat no :: u32) = no" by (simp add: own_page_no_def unat_of_nat)
  then show ?thesis using a by (metis own_page_no_def not_one_less_zero unat_0)
qed

section \<open>Two leaves\<close>

lemma build_leaf:
  assumes "cells_bytes recs \<le> 4056"
  obtains c where "build_page PageLeaf tid (of_nat no) recs nxt = Ok c" "page_is no PageLeaf tid nxt c" "page_slots c = recs" "page_ok crc no c"
  by (rule build_page_is [of recs PageLeaf tid no nxt]) (use assms page_is_ok(1) in \<open>auto simp: cells_bytes_def\<close>)

lemma split_two_step:
  assumes "guarded crc s [(g, leaf, b)]" "2 \<le> length (frames s)" "spread crc s tid z leaf recs es nxt"
    and "0 < sp" "sp < length recs" "cells_bytes (take sp recs) \<le> 4056" "cells_bytes (drop sp recs) \<le> 4056"
  shows "(\<exists>t no c. split_two crc debug tid s g leaf recs nxt sp = (t, Ok (TwoWay sp (fst (es ! sp)) no)) \<and> guarded crc t [(g, leaf, c)] \<and>
      evolves crc s t {leaf} 1 \<and> parted crc t tid z (TLeaf leaf (take sp es)) (fst (es ! sp)) (TLeaf no (drop sp es)) \<and> \<not> is_frozen t no \<and> \<not> is_frozen t leaf \<and> no \<in> available s) \<or>
    \<not> plenty s 1 \<and> refused (split_two crc debug tid s g leaf recs nxt sp)"
proof -
  have sp: "alloc_ready s" "own_page_no s leaf" "sorted_wrt (<) (map fst es)" "list_all2 (cell_holds crc s leaf) recs es"
      "\<forall>e \<in> set es. over (hole_lo z) (fst e) \<and> under (hole_hi z) (fst e) \<and> length (fst e) \<le> key_cap"
    using assms(3) unfolding spread_def by blast+
  have le: "length recs = length es" by (rule list_all2_lengthD [OF sp(4)])
  note cut = cut_entries [OF sp(3) assms(4) _ sp(5)]
  have d: "drop sp recs = recs ! sp # drop (Suc sp) recs" using assms(5) by (simp add: Cons_nth_drop_Suc)
  let ?f = "\<lambda>no. build_page PageLeaf tid (of_nat no) (drop sp recs) nxt"
  have f: "\<exists>c. ?f no = Ok c \<and> page_ok crc no c \<and> page_is no PageLeaf tid nxt c \<and> page_slots c = drop sp recs" for no
    by (rule build_leaf [where crc = crc, OF assms(7), of tid no nxt]) blast
  have al: "set (guard_pages [(g, leaf, b)]) \<inter> available s = {}" "length [(g, leaf, b)] < length (frames s)" using sp(2) assms(2) by (simp_all add: own_page_no_def)
  consider (ok) t no c where "with_alloc crc debug s ?f = (t, Ok no)" "guarded crc t [(g, leaf, b)]" "evolves crc s t {} 1" "no \<in> available s" "own_page_no t no"
      "\<not> is_frozen t no" "holds crc t no c" "page_is no PageLeaf tid nxt c" "page_slots c = drop sp recs"
    | (no) "\<not> plenty s 1" "refused (with_alloc crc debug s ?f)"
    using with_alloc_step [where Q = "\<lambda>no c. page_is no PageLeaf tid nxt c \<and> page_slots c = drop sp recs", OF assms(1) sp(1) al f, of debug] by blast
  then show ?thesis
  proof cases
    case ok
    obtain c' where c': "build_page PageLeaf tid (of_nat leaf) (take sp recs) (of_nat no) = Ok c'" "page_is leaf PageLeaf tid (of_nat no) c'"
        "page_slots c' = take sp recs" "page_ok crc leaf c'"
      by (rule build_leaf [OF assms(6)])
    let ?e = "\<lambda>_. obind (build_page PageLeaf tid (of_nat leaf) (take sp recs) (of_nat no)) (\<lambda>b. Ok (b, ()))"
    obtain u where u: "edit_frame t g ?e = (u, Ok ())" "guarded crc u [(g, leaf, c')]" "evolves crc t u {leaf} 0" "reuse.truncate u = reuse.truncate t" "holds crc u leaf c'"
      by (rule edit_frame_guarded [where f = ?e and c = c' and x = "()", OF ok(2) evolves_ready [OF ok(3)] _ c'(4)]) (use c'(1) in simp_all)
    have eu: "evolves crc s u {leaf} 1" using evolves_trans [OF ok(3) u(3)] by simp
    have "own_page_no t leaf" by (rule own_page_no_evolves [OF sp(2) ok(3)]) simp
    then have own: "own_page_no u leaf" "own_page_no u no"
      using ok(5) alloc_inv_truncate [OF u(4)] by (simp_all add: own_page_no_def available_def)
    note su = spread_evolves [OF assms(3) eu own(1)]
    have un: "no \<notin> set (ctx_pages z @ leaf # entry_pages es)" using spread_unavailable [OF assms(3)] ok(4) by blast
    have hn: "holds crc u no c" using u(3) ok(5,7) un unfolding evolves_def own_page_no_def by auto
    have la: "list_all2 (cell_holds crc u leaf) recs es" using su unfolding spread_def by blast
    have "live crc u tid (hole_lo z) (Some (fst (es ! sp))) (TLeaf leaf (take sp es))"
      by (rule piece_live [OF c'(2) _ u(5) own(1) _ cut(7) cut(1)])
        (use assms(5) le of_page_no [OF own(2)] in \<open>auto simp: c'(3) intro: list_all2_takeI la\<close>)
    moreover have "live crc u tid (Some (fst (es ! sp))) (hole_hi z) (TLeaf no (drop sp es))"
      by (rule piece_live [OF ok(8) _ hn own(2) _ cut(8) cut(2)])
        (use assms(3,5) le in \<open>auto simp: ok(9) spread_def intro: list_all2_dropI la\<close>)
    moreover have "distinct (ctx_pages z @ tree_pages (TLeaf leaf (take sp es)) @ tree_pages (TLeaf no (drop sp es)))"
    proof -
      have "distinct (no # ctx_pages z @ leaf # entry_pages es)" using un assms(3) unfolding spread_def by simp
      then show ?thesis unfolding entry_pages_cut [of es sp] tree_pages.simps by auto
    qed
    ultimately have "parted crc u tid z (TLeaf leaf (take sp es)) (fst (es ! sp)) (TLeaf no (drop sp es))"
      using su cut(3-6) assms(5) le unfolding parted_def spread_def page_of.simps by simp
    moreover have "split_two crc debug tid s g leaf recs nxt sp = (u, Ok (TwoWay sp (fst (es ! sp)) no))"
      using spread_keys [OF assms(3,5)] ok(1) u(1) d by (simp add: split_two_def)
    moreover have "\<not> is_frozen u no" using ok(6) truncate_frozen [OF u(4)] by simp
    moreover have "\<not> is_frozen u leaf" using su by (simp add: spread_def)
    ultimately show ?thesis using u(2) eu ok(4) by blast
  next
    case no
    then show ?thesis using spread_keys [OF assms(3,5)] d by (simp add: split_two_def refused_then)
  qed
qed

section \<open>Three leaves\<close>

definition parted_twice :: "crc_fn \<Rightarrow> pool \<Rightarrow> u16 \<Rightarrow> tcontext \<Rightarrow> tree \<Rightarrow> bytes \<Rightarrow> tree \<Rightarrow> bytes \<Rightarrow> tree \<Rightarrow> bool" where
  "parted_twice crc s tid z l sep m sep' r \<longleftrightarrow>
     parted crc s tid z l sep m \<and> live crc s tid (Some sep) (Some sep') m \<and> live crc s tid (Some sep') (hole_hi z) r \<and>
     sep < sep' \<and> under (hole_hi z) sep' \<and> length sep' \<le> key_cap \<and> distinct (ctx_pages z @ tree_pages l @ tree_pages m @ tree_pages r)"

lemma parted_twice_evolves:
  assumes "parted_twice crc s tid z l sep m sep' r" "evolves crc s t {} c"
  shows "parted_twice crc t tid z l sep m sep' r"
  using assms parted_evolves [OF _ assms(2)] live_evolves [OF _ assms(2)] unfolding parted_twice_def by simp

lemma leaf_widen:
  assumes "live crc s tid lo (Some u) (TLeaf no es)" "under hi u"
  shows "live crc s tid lo hi (TLeaf no es)"
proof -
  have "under hi k" if "under (Some u) k" for k using under_trans [OF assms(2)] that by (simp add: under_def)
  then show ?thesis using assms(1) unfolding live.simps leaf_live_def by blast
qed

lemma mut_step:
  assumes "guarded crc s gs" "mset gs = mset ((i, no, b) # gs')" "alloc_ready s" "page_ok crc no c"
  shows "guarded crc (bytes_mut s i c) ((i, no, c) # gs')" "evolves crc s (bytes_mut s i c) {no} 0" "holds crc (bytes_mut s i c) no c"
    "reuse.truncate (bytes_mut s i c) = reuse.truncate s"
proof -
  have "guarded crc s ((i, no, b) # gs')" by (rule guarded_perm [OF assms(1)]) (simp add: assms(2))
  note e = edit_guarded [OF this assms(4)]
  show "guarded crc (bytes_mut s i c) ((i, no, c) # gs')" "holds crc (bytes_mut s i c) no c" "reuse.truncate (bytes_mut s i c) = reuse.truncate s"
    by (fact e(1,2,5))+
  show "evolves crc s (bytes_mut s i c) {no} 0"
    using e(3) by (intro evolves_truncate [OF assms(3) e(5) _ e(4)]) (auto intro: e(6))
qed

lemma holds_evolves: "evolves crc s t D c \<Longrightarrow> holds crc s m b \<Longrightarrow> own_page_no s m \<Longrightarrow> m \<notin> D \<Longrightarrow> holds crc t m b"
  unfolding evolves_def own_page_no_def by blast

lemma own_truncate: "reuse.truncate t = reuse.truncate s \<Longrightarrow> own_page_no s m \<Longrightarrow> own_page_no t m"
  using alloc_inv_truncate [of t s] by (simp add: own_page_no_def available_def)

text \<open>Two pages taken beside the guard of a leaf, the three images written, the new pages released.\<close>

lemma write_three:
  assumes "guarded crc s [(g, leaf, b)]" "alloc_ready s" "own_page_no s leaf" "guarded crc t [(i, mid, e), (g, leaf, b)]" "evolves crc s t {} 1" "mid \<in> available s" "own_page_no t mid"
    and "guarded crc u [(j, right, e'), (i, mid, e), (g, leaf, b)]" "evolves crc t u {} 1" "right \<in> available t" "own_page_no u right"
    and "page_ok crc mid M" "page_ok crc right R" "page_ok crc leaf L"
  defines "v \<equiv> bytes_mut (bytes_mut (bytes_mut u i M) j R) g L"
  obtains x where "drop_after i (drop_after j (v, r)) = (x, r)" "guarded crc x [(g, leaf, L)]" "evolves crc s x {leaf} 2"
    "holds crc x mid M" "holds crc x right R" "holds crc x leaf L" "own_page_no x mid" "own_page_no x right" "own_page_no x leaf"
    "reuse.truncate x = reuse.truncate u"
proof -
  have mu: "own_page_no u mid" "own_page_no u leaf" using own_page_no_evolves [OF _ assms(9)] own_page_no_evolves [OF assms(3,5)] assms(7) by simp_all
  have ne: "mid \<noteq> leaf" "right \<noteq> leaf" "right \<noteq> mid"
    using assms(3,6,7,10) own_page_no_evolves [OF assms(3,5)] by (auto simp: own_page_no_def)
  note m1 = mut_step [where i = i and no = mid and b = e and gs' = "[(j, right, e'), (g, leaf, b)]", OF assms(8) _ evolves_ready [OF assms(9)] assms(12)]
  let ?v1 = "bytes_mut u i M"
  have a1: "guarded crc ?v1 [(i, mid, M), (j, right, e'), (g, leaf, b)]" "evolves crc u ?v1 {mid} 0" "holds crc ?v1 mid M" "reuse.truncate ?v1 = reuse.truncate u"
    using m1 by simp_all
  note m2 = mut_step [where i = j and no = right and b = e' and gs' = "[(i, mid, M), (g, leaf, b)]", OF a1(1) _ evolves_ready [OF a1(2)] assms(13)]
  let ?v2 = "bytes_mut ?v1 j R"
  have a2: "guarded crc ?v2 [(j, right, R), (i, mid, M), (g, leaf, b)]" "evolves crc ?v1 ?v2 {right} 0" "holds crc ?v2 right R" "reuse.truncate ?v2 = reuse.truncate ?v1"
    using m2 by simp_all
  note m3 = mut_step [where i = g and no = leaf and b = b and gs' = "[(j, right, R), (i, mid, M)]", OF a2(1) _ evolves_ready [OF a2(2)] assms(14)]
  have a3: "guarded crc v [(g, leaf, L), (j, right, R), (i, mid, M)]" "evolves crc ?v2 v {leaf} 0" "holds crc v leaf L" "reuse.truncate v = reuse.truncate ?v2"
    using m3 by (simp_all add: v_def)
  have g3: "guarded crc v [(j, right, R), (i, mid, M), (g, leaf, L)]" by (rule guarded_perm [OF a3(1)]) simp
  obtain y where y: "drop_after j (v, r) = (y, r)" "guarded crc y [(i, mid, M), (g, leaf, L)]" "evolves crc v y {} 0" "reuse.truncate y = reuse.truncate v"
      "\<And>m c. holds crc v m c \<longleftrightarrow> holds crc y m c"
    by (rule drop_after_guarded [OF g3 evolves_ready [OF a3(2)], of r]) blast
  obtain x where x: "drop_after i (y, r) = (x, r)" "guarded crc x [(g, leaf, L)]" "evolves crc y x {} 0" "reuse.truncate x = reuse.truncate y"
      "\<And>m c. holds crc y m c \<longleftrightarrow> holds crc x m c"
    by (rule drop_after_guarded [OF y(2) evolves_ready [OF y(3)], of r]) blast
  have tr: "reuse.truncate x = reuse.truncate u" using x(4) y(4) a3(4) a2(4) a1(4) by simp
  note own1 = own_truncate [OF a1(4)]
  note own2 = own_truncate [OF trans [OF a2(4) a1(4)]]
  have "holds crc ?v2 mid M" by (rule holds_evolves [OF a2(2) a1(3) own1 [OF mu(1)]]) (use ne in simp)
  then have h1: "holds crc v mid M" by (rule holds_evolves [OF a3(2) _ own2 [OF mu(1)]]) (use ne in simp)
  have h2: "holds crc v right R" by (rule holds_evolves [OF a3(2) a2(3) own2 [OF assms(11)]]) (use ne in simp)
  have "evolves crc s x ({leaf} \<union> {mid, right}) 2"
    by (rule evolves_mono [OF evolves_trans [OF evolves_trans [OF assms(5,9)] evolves_trans [OF evolves_trans [OF a1(2) a2(2)] evolves_trans [OF a3(2) evolves_trans [OF y(3) x(3)]]]]]) auto
  then have ev: "evolves crc s x {leaf} 2"
  proof (rule evolves_fresh)
    show "{mid, right} \<subseteq> available s" using assms(5,6,10) unfolding evolves_def by blast
  qed
  show thesis
    by (rule that [OF _ x(2) ev])
      (use y(1) x(1) h1 h2 a3(3) y(5) x(5) own_truncate [OF tr] mu assms(11) tr in simp_all)
qed

lemma distinct_front: "distinct (xs @ ys @ zs @ ws) \<Longrightarrow> distinct (xs @ ys @ zs)"
  by auto

lemma pieces_parted_twice:
  assumes "spread crc x tid z leaf recs es nxt" "0 < c" "0 < d" "c + d < length es" "mid \<notin> set (ctx_pages z @ leaf # entry_pages es)"
    and "right \<notin> set (ctx_pages z @ leaf # entry_pages es)" "mid \<noteq> right" "own_page_no x mid" "own_page_no x right"
    and "page_is leaf PageLeaf tid (of_nat mid) L" "page_slots L = take c recs" "holds crc x leaf L"
    and "page_is mid PageLeaf tid (of_nat right) M" "page_slots M = take d (drop c recs)" "holds crc x mid M"
    and "page_is right PageLeaf tid nxt R" "page_slots R = drop (c + d) recs" "holds crc x right R"
  shows "parted_twice crc x tid z (TLeaf leaf (take c es)) (fst (es ! c)) (TLeaf mid (take d (drop c es))) (fst (es ! (c + d))) (TLeaf right (drop (c + d) es))"
proof -
  have sp: "alloc_ready x" "own_page_no x leaf" "sorted_wrt (<) (map fst es)" "list_all2 (cell_holds crc x leaf) recs es"
      "\<forall>e \<in> set es. over (hole_lo z) (fst e) \<and> under (hole_hi z) (fst e) \<and> length (fst e) \<le> key_cap"
      "distinct (ctx_pages z @ leaf # entry_pages es)" "nxt = 0 \<longrightarrow> hole_hi z = None" "ctx_live crc x tid z leaf" "owned x z"
    using assms(1) unfolding spread_def by blast+
  have cl: "c < length es" "d < length (drop c es)" using assms(4) by simp_all
  note k1 = cut_entries [OF sp(3) assms(2) cl(1) sp(5)]
  note k2 = cut_entries [OF k1(8) assms(3) cl(2) k1(2)]
  have dn: "drop c es ! d = es ! (c + d)" using cl(1) by simp
  have dd: "drop d (drop c es) = drop (c + d) es" "drop d (drop c recs) = drop (c + d) recs" by (simp_all add: add.commute)
  note k2 = k2 [unfolded dn dd(1)]
  have l1: "live crc x tid (hole_lo z) (Some (fst (es ! c))) (TLeaf leaf (take c es))"
    by (rule piece_live [OF assms(10) _ assms(12) sp(2) _ k1(7) k1(1)])
      (use of_page_no [OF assms(8)] in \<open>auto simp: assms(11) intro: list_all2_takeI sp(4)\<close>)
  have l2: "live crc x tid (Some (fst (es ! c))) (Some (fst (es ! (c + d)))) (TLeaf mid (take d (drop c es)))"
    by (rule piece_live [OF assms(13) _ assms(15,8) _ k2(7) k2(1)])
      (use of_page_no [OF assms(9)] in \<open>auto simp: assms(14) intro: list_all2_takeI list_all2_dropI sp(4)\<close>)
  have l3: "live crc x tid (Some (fst (es ! (c + d)))) (hole_hi z) (TLeaf right (drop (c + d) es))"
    by (rule piece_live [OF assms(16) _ assms(18,9) sp(7) k2(8) k2(2)]) (auto simp: assms(17) intro: list_all2_dropI sp(4))
  have "entry_pages es = entry_pages (take c es) @ entry_pages (take d (drop c es)) @ entry_pages (drop (c + d) es)"
    using entry_pages_cut [of es c] entry_pages_cut [of "drop c es" d] dd(1) by simp
  moreover have "distinct (mid # right # ctx_pages z @ leaf # entry_pages es)" using assms(5-7) sp(6) by simp
  ultimately have di: "distinct (ctx_pages z @ tree_pages (TLeaf leaf (take c es)) @ tree_pages (TLeaf mid (take d (drop c es))) @ tree_pages (TLeaf right (drop (c + d) es)))"
    unfolding tree_pages.simps by (simp only:) auto
  have "parted crc x tid z (TLeaf leaf (take c es)) (fst (es ! c)) (TLeaf mid (take d (drop c es)))"
    using sp(1,8,9) l1 leaf_widen [OF l2 k2(5)] distinct_front [OF di] k1(3-6) unfolding parted_def page_of.simps by blast
  moreover have "fst (es ! c) < fst (es ! (c + d))" using k2(3,4) by (auto simp: over_def)
  ultimately show ?thesis using l2 l3 di k2(5,6) unfolding parted_twice_def by blast
qed

lemma split_three_step:
  assumes "guarded crc s [(g, leaf, b)]" "3 \<le> length (frames s)" "spread crc s tid z leaf recs es nxt" "greedy_cuts 4056 0 0 recs = [c, c + d]"
    and "0 < c" "0 < d" "c + d < length recs" "cells_bytes (take c recs) \<le> 4056" "cells_bytes (take d (drop c recs)) \<le> 4056" "cells_bytes (drop (c + d) recs) \<le> 4056"
  shows "(\<exists>t mid right L. split_three crc debug tid s g leaf recs nxt = (t, Ok (ThreeWay c (fst (es ! c)) mid (c + d) (fst (es ! (c + d))) right)) \<and>
      guarded crc t [(g, leaf, L)] \<and> evolves crc s t {leaf} 2 \<and> \<not> is_frozen t leaf \<and> \<not> is_frozen t mid \<and> \<not> is_frozen t right \<and>
      mid \<in> available s \<and> right \<in> available s \<and>
      parted_twice crc t tid z (TLeaf leaf (take c es)) (fst (es ! c)) (TLeaf mid (take d (drop c es))) (fst (es ! (c + d))) (TLeaf right (drop (c + d) es))) \<or>
    \<not> plenty s 2 \<and> refused (split_three crc debug tid s g leaf recs nxt)"
proof -
  have sp: "alloc_ready s" "own_page_no s leaf" "list_all2 (cell_holds crc s leaf) recs es" "\<not> is_frozen s leaf" using assms(3) unfolding spread_def by blast+
  have le: "length recs = length es" by (rule list_all2_lengthD [OF sp(3)])
  have cuts: "0 # greedy_cuts (PAGE_SIZE - HEADER_LEN) 0 0 recs @ [length recs] = [0, c, c + d, length recs]"
    using assms(4) by (simp add: PAGE_SIZE_def HEADER_LEN_def)
  have ne: "\<not> (0 = c \<or> c = c + d \<or> c + d = length recs)" using assms(5-7) by simp
  have sl: "slice recs 0 c = take c recs" "slice recs c (c + d) = take d (drop c recs)" by (simp_all add: slice_def)
  note vk = spread_keys [OF assms(3)]
  have al: "set (guard_pages [(g, leaf, b)]) \<inter> available s = {}" "length [(g, leaf, b)] < length (frames s)" using sp(2) assms(2) by (simp_all add: own_page_no_def)
  consider (ok) t i mid e where "allocate crc debug s = (t, Ok (i, mid))" "guarded crc t [(i, mid, e), (g, leaf, b)]" "evolves crc s t {} 1" "mid \<in> available s"
      "own_page_no t mid" "\<not> is_frozen t mid"
    | (no) "\<not> plenty s 1" "refused (allocate crc debug s)"
    using allocate_step [OF assms(1) sp(1) al, of debug] by blast
  then show ?thesis
  proof cases
    case ok
    have lt: "own_page_no t leaf" by (rule own_page_no_evolves [OF sp(2) ok(3)]) simp
    have al2: "set (guard_pages [(i, mid, e), (g, leaf, b)]) \<inter> available t = {}" "length [(i, mid, e), (g, leaf, b)] < length (frames t)"
      using lt ok(3,5) assms(2) by (simp_all add: own_page_no_def evolves_def)
    consider (ok') u j right e' where "allocate crc debug t = (u, Ok (j, right))" "guarded crc u [(j, right, e'), (i, mid, e), (g, leaf, b)]" "evolves crc t u {} 1"
        "right \<in> available t" "own_page_no u right" "\<not> is_frozen u right"
      | (no') "\<not> plenty t 1" "refused (allocate crc debug t)"
      using allocate_step [OF ok(2) evolves_ready [OF ok(3)] al2, of debug] by blast
    then show ?thesis
    proof cases
      case ok'
      obtain L where L: "build_page PageLeaf tid (of_nat leaf) (take c recs) (of_nat mid) = Ok L" "page_is leaf PageLeaf tid (of_nat mid) L" "page_slots L = take c recs" "page_ok crc leaf L"
        by (rule build_leaf [OF assms(8)])
      obtain M where M: "build_page PageLeaf tid (of_nat mid) (take d (drop c recs)) (of_nat right) = Ok M" "page_is mid PageLeaf tid (of_nat right) M"
          "page_slots M = take d (drop c recs)" "page_ok crc mid M"
        by (rule build_leaf [OF assms(9)])
      obtain R where R: "build_page PageLeaf tid (of_nat right) (drop (c + d) recs) nxt = Ok R" "page_is right PageLeaf tid nxt R" "page_slots R = drop (c + d) recs" "page_ok crc right R"
        by (rule build_leaf [OF assms(10)])
      let ?r = "Ok (ThreeWay c (fst (es ! c)) mid (c + d) (fst (es ! (c + d))) right)"
      obtain x where x: "drop_after i (drop_after j (bytes_mut (bytes_mut (bytes_mut u i M) j R) g L, ?r)) = (x, ?r)" "guarded crc x [(g, leaf, L)]" "evolves crc s x {leaf} 2"
          "holds crc x mid M" "holds crc x right R" "holds crc x leaf L" "own_page_no x mid" "own_page_no x right" "own_page_no x leaf" "reuse.truncate x = reuse.truncate u"
        by (rule write_three [OF assms(1) sp(1,2) ok(2-5) ok'(2-5) M(4) R(4) L(4)])
      have vks: "validated_key (recs ! c) = Ok (fst (es ! c))" "validated_key (recs ! (c + d)) = Ok (fst (es ! (c + d)))" using vk assms(7) by simp_all
      have run: "split_three crc debug tid s g leaf recs nxt = (x, ?r)"
        unfolding split_three_def cuts list.case if_not_P [OF ne] ok(1) ok'(1) sl by (simp add: ok'(1) L(1) M(1) R(1) vks x(1))
      have rs: "right \<in> available s" "mid \<noteq> right" using ok(3,5) ok'(4) unfolding evolves_def own_page_no_def by auto
      have un: "mid \<notin> set (ctx_pages z @ leaf # entry_pages es)" "right \<notin> set (ctx_pages z @ leaf # entry_pages es)"
        using spread_unavailable [OF assms(3)] ok(4) rs(1) by blast+
      note pt = pieces_parted_twice [OF spread_evolves [OF assms(3) x(3,9)] assms(5,6) assms(7) [unfolded le] un rs(2) x(7,8) L(2,3) x(6) M(2,3) x(4) R(2,3) x(5)]
      have "\<not> is_frozen x leaf" using sp(4) x(3) unfolding evolves_def by blast
      moreover have "\<not> is_frozen u mid" using ok(6) ok'(3) unfolding evolves_def by blast
      then have "\<not> is_frozen x mid" "\<not> is_frozen x right" using ok'(6) truncate_frozen [OF x(10)] by simp_all
      ultimately show ?thesis using run pt x(2,3) ok(4) rs(1) by blast
    next
      case no'
      have "\<not> plenty s 2" using no'(1) plenty_evolves [OF _ ok(3), of 1] by (auto simp: numeral_2_eq_2)
      moreover have "refused (split_three crc debug tid s g leaf recs nxt)"
        unfolding split_three_def cuts using ne no'(2) by (simp add: ok(1) refused_then refused_drop)
      ultimately show ?thesis by blast
    qed
  next
    case no
    have "\<not> plenty s 2" using no(1) plenty_mono [of s 2 1] by auto
    moreover have "refused (split_three crc debug tid s g leaf recs nxt)"
      unfolding split_three_def cuts using ne no(2) by (simp add: refused_then)
    ultimately show ?thesis by blast
  qed
qed

section \<open>The split\<close>

lemma split_point_fits:
  assumes "(if at_point then Some at else split_point recs (PAGE_SIZE - HEADER_LEN)) = Some sp"
    and "at_point \<Longrightarrow> 0 < at \<and> at < length recs \<and> cells_bytes (take at recs) \<le> 4056 \<and> cells_bytes (drop at recs) \<le> 4056"
  shows "0 < sp" "sp < length recs" "cells_bytes (take sp recs) \<le> 4056" "cells_bytes (drop sp recs) \<le> 4056"
  using assms split_sizes_spec [of "map (\<lambda>r. length r + 4) recs" 4056]
  by (auto simp: split_point_def cut_fits_def cells_bytes_def take_map drop_map PAGE_SIZE_def HEADER_LEN_def split: if_splits)

lemma no_split_point:
  assumes "split_point recs (PAGE_SIZE - HEADER_LEN) = None" "0 < k" "k < length recs" "cells_bytes (take k recs) \<le> 4056"
  shows "4056 < cells_bytes (drop k recs)"
  using assms split_sizes_spec [of "map (\<lambda>r. length r + 4) recs" 4056]
  by (auto simp: split_point_def cut_fits_def cells_bytes_def take_map drop_map PAGE_SIZE_def HEADER_LEN_def not_le)

text \<open>The pieces a split leaves of the entries \<open>es\<close>, with the place of a position among them.\<close>

fun split_into :: "crc_fn \<Rightarrow> pool \<Rightarrow> u16 \<Rightarrow> tcontext \<Rightarrow> nat \<Rightarrow> entry list \<Rightarrow> split_pieces \<Rightarrow> bool" where
  "split_into crc t tid z leaf es (TwoWay sp sep no) \<longleftrightarrow>
     parted crc t tid z (TLeaf leaf (take sp es)) sep (TLeaf no (drop sp es)) \<and> \<not> is_frozen t leaf \<and> \<not> is_frozen t no"
| "split_into crc t tid z leaf es (ThreeWay c sep mid c' sep' no) \<longleftrightarrow>
     parted_twice crc t tid z (TLeaf leaf (take c es)) sep (TLeaf mid (take (c' - c) (drop c es))) sep' (TLeaf no (drop c' es)) \<and> c \<le> c' \<and>
     \<not> is_frozen t leaf \<and> \<not> is_frozen t mid \<and> \<not> is_frozen t no"

fun new_pages :: "split_pieces \<Rightarrow> nat set" where
  "new_pages (TwoWay sp sep no) = {no}"
| "new_pages (ThreeWay c sep mid c' sep' no) = {mid, no}"

lemma split_into_evolves: "split_into crc s tid z leaf es p \<Longrightarrow> evolves crc s t {} c \<Longrightarrow> split_into crc t tid z leaf es p"
proof (cases p)
  case (TwoWay sp sep no)
  assume a: "split_into crc s tid z leaf es p" "evolves crc s t {} c"
  then have "parted crc t tid z (TLeaf leaf (take sp es)) sep (TLeaf no (drop sp es))" unfolding TwoWay by (auto intro: parted_evolves [OF _ a(2)])
  then show ?thesis using a unfolding TwoWay evolves_def by auto
next
  case (ThreeWay k sep mid k' sep' no)
  assume a: "split_into crc s tid z leaf es p" "evolves crc s t {} c"
  then show ?thesis using parted_twice_evolves [OF _ a(2)] unfolding ThreeWay evolves_def split_into.simps by blast
qed

lemma split_records_step:
  fixes debug :: bool
  assumes "guarded crc s [(g, leaf, b)]" "3 \<le> length (frames s)" "spread crc s tid z leaf recs es nxt"
    and "4056 < cells_bytes recs" "cells_bytes recs \<le> 8112" "\<forall>r \<in> set recs. length r + 4 \<le> 4056"
    and "at_point \<Longrightarrow> 0 < at \<and> at < length recs \<and> cells_bytes (take at recs) \<le> 4056 \<and> cells_bytes (drop at recs) \<le> 4056"
  defines "x \<equiv> (case (if at_point then Some at else split_point recs (PAGE_SIZE - HEADER_LEN)) of
      Some sp \<Rightarrow> split_two crc debug tid s g leaf recs nxt sp | None \<Rightarrow> split_three crc debug tid s g leaf recs nxt)"
  shows "(\<exists>t p L. x = (t, Ok p) \<and> guarded crc t [(g, leaf, L)] \<and> evolves crc s t {leaf} 2 \<and> split_into crc t tid z leaf es p \<and> new_pages p \<subseteq> available s) \<or>
    \<not> plenty s 2 \<and> refused x"
proof (cases "if at_point then Some at else split_point recs (PAGE_SIZE - HEADER_LEN)")
  case (Some sp)
  note f = split_point_fits [OF Some assms(7)]
  have fr: "2 \<le> length (frames s)" using assms(2) by simp
  have x: "x = split_two crc debug tid s g leaf recs nxt sp" using Some by (simp add: x_def)
  consider (ok) t no c where "x = (t, Ok (TwoWay sp (fst (es ! sp)) no))" "guarded crc t [(g, leaf, c)]" "evolves crc s t {leaf} 1"
      "parted crc t tid z (TLeaf leaf (take sp es)) (fst (es ! sp)) (TLeaf no (drop sp es))" "\<not> is_frozen t no" "\<not> is_frozen t leaf" "no \<in> available s"
    | (no) "\<not> plenty s 1" "refused x"
    using split_two_step [OF assms(1) fr assms(3) f, of debug] unfolding x by blast
  then show ?thesis
  proof cases
    case ok
    have "evolves crc s t {leaf} 2" by (rule evolves_mono [OF ok(3)]) simp_all
    moreover have "split_into crc t tid z leaf es (TwoWay sp (fst (es ! sp)) no)" "new_pages (TwoWay sp (fst (es ! sp)) no) \<subseteq> available s" using ok(4-7) by simp_all
    ultimately show ?thesis using ok(1,2) by blast
  next
    case no
    then show ?thesis using plenty_mono [of s 2 1] by auto
  qed
next
  case None
  then have n: "\<not> at_point" "split_point recs (PAGE_SIZE - HEADER_LEN) = None" by (simp_all split: if_splits)
  obtain c d where cd: "greedy_cuts 4056 0 0 recs = [c, c + d]" "0 < c" "0 < d" "c + d < length recs" "cells_bytes (take c recs) \<le> 4056"
      "cells_bytes (take d (drop c recs)) \<le> 4056" "cells_bytes (drop (c + d) recs) \<le> 4056"
    by (rule greedy_three [OF assms(6,4)]) (use assms(5) no_split_point [OF n(2)] in simp_all)
  have x: "x = split_three crc debug tid s g leaf recs nxt" using None by (simp add: x_def)
  consider (ok) t mid right L where "x = (t, Ok (ThreeWay c (fst (es ! c)) mid (c + d) (fst (es ! (c + d))) right))" "guarded crc t [(g, leaf, L)]" "evolves crc s t {leaf} 2"
      "\<not> is_frozen t leaf" "\<not> is_frozen t mid" "\<not> is_frozen t right" "mid \<in> available s" "right \<in> available s"
      "parted_twice crc t tid z (TLeaf leaf (take c es)) (fst (es ! c)) (TLeaf mid (take d (drop c es))) (fst (es ! (c + d))) (TLeaf right (drop (c + d) es))"
    | (no) "\<not> plenty s 2" "refused x"
    using split_three_step [OF assms(1-3) cd, of debug] unfolding x by blast
  then show ?thesis
  proof cases
    case ok
    have "split_into crc t tid z leaf es (ThreeWay c (fst (es ! c)) mid (c + d) (fst (es ! (c + d))) right)"
        "new_pages (ThreeWay c (fst (es ! c)) mid (c + d) (fst (es ! (c + d))) right) \<subseteq> available s" using ok(4-9) by simp_all
    then show ?thesis using ok(1-3) by blast
  qed blast
qed

lemma split_leaf_step:
  fixes debug :: bool
  assumes "guarded crc s [(g, leaf, b)]" "3 \<le> length (frames s)" "focus crc s tid z (TLeaf leaf (xs @ ys))" "owned s z" "\<not> is_frozen s leaf"
    and "cell_holds crc s leaf rec e" "sorted_wrt (<) (map fst (xs @ e # ys))" "over (hole_lo z) (fst e)" "under (hole_hi z) (fst e)" "length (fst e) \<le> key_cap"
    and "distinct (snd (snd e))" "set (snd (snd e)) \<inter> set (ctx_pages z @ leaf # entry_pages (xs @ ys)) = {}"
    and "4056 < cells_bytes (page_slots b) + length rec + 4" "length rec \<le> MAX_RECORD_LEN"
  defines "x \<equiv> split_leaf crc debug tid s g leaf (length xs) rec"
  shows "(\<exists>t p L. x = (t, Ok (page_next_leaf b, p)) \<and> guarded crc t [(g, leaf, L)] \<and> evolves crc s t {leaf} 2 \<and> split_into crc t tid z leaf (xs @ e # ys) p \<and>
      new_pages p \<subseteq> available s) \<or> \<not> plenty s 2 \<and> refused x"
proof -
  note p = leaf_parts [OF assms(3)] and lg = leaf_guard [OF assms(1,3)]
  let ?sl = "page_slots b" and ?at = "length xs"
  let ?recs = "take ?at ?sl @ rec # drop ?at ?sl"
  have la: "list_all2 (cell_holds crc s leaf) ?sl (xs @ ys)" using lg(2) by (simp add: leaf_image_def)
  have ln: "length ?sl = length (xs @ ys)" by (rule list_all2_lengthD [OF la])
  have "list_all2 (cell_holds crc s leaf) ?recs (take ?at (xs @ ys) @ e # drop ?at (xs @ ys))"
    by (intro list_all2_appendI list_all2_takeI list_all2_dropI la list.rel_intros(2) assms(6))
  then have la': "list_all2 (cell_holds crc s leaf) ?recs (xs @ e # ys)" by simp
  have "distinct (ctx_pages z @ leaf # entry_pages (xs @ e # ys))" by (rule distinct_put [OF p(6) assms(11,12)])
  then have sd: "spread crc s tid z leaf ?recs (xs @ e # ys) (page_next_leaf b)"
    using p assms(4,5,7-10) la' lg(4) unfolding spread_def by auto
  have wf: "page_wf b" by (rule page_is_ok(5) [OF lg(3)])
  have cb: "cells_bytes ?sl \<le> 4056"
    using compact_is [OF lg(3)] unfolding cells_bytes_def by (metis le_add2)
  have cr: "cells_bytes ?recs = cells_bytes ?sl + length rec + 4" using cells_take_drop [of ?at ?sl] by simp
  have mr: "length rec + 4 \<le> 4056" using assms(14) by (simp add: MAX_RECORD_LEN_def layout_defs)
  have each: "length r + 4 \<le> 4056" if "r \<in> set ?recs" for r
  proof (cases "r = rec")
    case False
    then have "r \<in> set ?sl" using that by (auto dest: in_set_takeD in_set_dropD)
    then obtain us vs where "?sl = us @ r # vs" by (meson split_list)
    then show ?thesis using cb by simp
  qed (use mr in simp)
  define tail where "tail \<longleftrightarrow> (?at > 0 \<and> ?at = length ?recs - 1 \<and> cells_bytes (take (min ?at (length ?recs)) ?recs) \<le> PAGE_SIZE - HEADER_LEN \<and>
      cells_bytes (drop ?at ?recs) \<le> PAGE_SIZE - HEADER_LEN) \<and> page_next_leaf b = 0"
  have tl: "0 < ?at \<and> ?at < length ?recs \<and> cells_bytes (take ?at ?recs) \<le> 4056 \<and> cells_bytes (drop ?at ?recs) \<le> 4056" if tail
  proof -
    have "?at < length ?recs" using ln by simp
    moreover have "min ?at (length ?recs) = ?at" using ln by simp
    ultimately show ?thesis using that unfolding tail_def by (simp add: PAGE_SIZE_def HEADER_LEN_def del: length_append take_append drop_append)
  qed
  let ?y = "case (if tail then Some ?at else split_point ?recs (PAGE_SIZE - HEADER_LEN)) of
      Some sp \<Rightarrow> split_two crc debug tid s g leaf ?recs (page_next_leaf b) sp | None \<Rightarrow> split_three crc debug tid s g leaf ?recs (page_next_leaf b)"
  have lr: "leaf_records crc leaf b = Ok (?sl, page_next_leaf b)"
    using all_slots_eq [OF wf, of "[0..<nentries b]"] map_nth [of ?sl] unfolding leaf_records_def open_checked_leaf [OF lg(2)]
    by (simp add: atLeast0LessThan length_page_slots)
  have g: "\<not> ?at > length ?sl" using ln by simp
  have x: "x = then_do ?y (\<lambda>s pieces. (s, Ok (page_next_leaf b, pieces)))"
    unfolding x_def split_leaf_def lg(1) by (simp only: lr then_do_simps prod.case if_not_P [OF g] Let_def tail_def)
  have "(\<exists>t p L. ?y = (t, Ok p) \<and> guarded crc t [(g, leaf, L)] \<and> evolves crc s t {leaf} 2 \<and> split_into crc t tid z leaf (xs @ e # ys) p \<and>
      new_pages p \<subseteq> available s) \<or> \<not> plenty s 2 \<and> refused ?y"
  proof (rule split_records_step [OF assms(1,2) sd])
    show "4056 < cells_bytes ?recs" "cells_bytes ?recs \<le> 8112" using cb cr mr assms(13) by simp_all
    show "\<forall>r \<in> set ?recs. length r + 4 \<le> 4056" using each by blast
  qed (rule tl)
  then show ?thesis
  proof
    assume "\<exists>t p L. ?y = (t, Ok p) \<and> guarded crc t [(g, leaf, L)] \<and> evolves crc s t {leaf} 2 \<and> split_into crc t tid z leaf (xs @ e # ys) p \<and> new_pages p \<subseteq> available s"
    then show ?thesis unfolding x by fastforce
  next
    assume "\<not> plenty s 2 \<and> refused ?y"
    then show ?thesis unfolding x using refused_then by blast
  qed
qed

end
