(* ===== verification/Btree_Insert.thy ===== *)
theory Btree_Insert
  imports Btree_Leaf_Split
begin

text \<open>
  The insert (\<open>Btree::insert\<close>) on a live tree: the record with its spilled value, the append hint, the
  descent, the leaf with its splits and the separators they send up. It replaces or adds one entry and
  keeps the tree live.
\<close>

section \<open>The record\<close>

lemma encode_record_step:
  assumes "idle crc s" "alloc_ready s" "length key \<le> key_cap" "length val \<le> u32_max"
  shows "(\<exists>t rec e. encode_record crc debug s key val = (t, Ok rec) \<and> idle crc t \<and> evolves crc s t {} (length (spill val)) \<and>
      cell_holds crc t m rec e \<and> kv e = (key, val) \<and> distinct (snd (snd e)) \<and> set (snd (snd e)) \<subseteq> available s \<and> length rec \<le> MAX_RECORD_LEN) \<or>
    \<not> plenty s (length (spill val)) \<and> refused (encode_record crc debug s key val)"
proof (cases "4 + length key + length val > MAX_RECORD_LEN")
  case False
  let ?rec = "enc_leaf key val (compact_cells s)"
  have "encode_record crc debug s key val = (s, Ok ?rec)" using False by (simp add: encode_record_def)
  moreover have "cell_holds crc s m ?rec (key, val, [])" using decode_enc_leaf [of key val] False by (simp add: cell_holds_def)
  moreover have "length ?rec \<le> MAX_RECORD_LEN" using False by (auto simp: enc_leaf_def)
  moreover have "evolves crc s s {} (length (spill val))" by (rule evolves_mono [OF evolves_refl [OF assms(2), where D = "{}"]]) simp_all
  ultimately show ?thesis using assms(1) by (intro disjI1 exI [of _ s] exI [of _ ?rec] exI [of _ "(key, val, [])"]) (simp add: kv_def)
next
  case True
  obtain t x where w: "write_overflow crc debug s val = (t, x)" by fastforce
  have en: "encode_record crc debug s key val = then_do (t, x) (\<lambda>s (head, c). (s, Ok (enc_leaf_marker key (enc_marker (of_nat (length val)) (of_nat head) c))))"
    using True w by (simp add: encode_record_def)
  show ?thesis
  proof (cases "is_ok x")
    case ok: True
    then obtain head c where x: "x = Ok (head, c)" by (cases x) auto
    obtain ps where p: "idle crc t" "alloc_ready t" "chain_holds crc t ps (spill val)" "ps \<noteq> []" "head = hd ps" "c = crc 0 val"
        "set ps \<subseteq> available s" "length ps \<le> next_page t" "limits t = limits s" "\<not> over_record_limit s (length val)"
        "\<forall>p \<in> set ps. p < u32_max" "\<forall>m d. m \<notin> set ps \<and> holds crc s m d \<longrightarrow> holds crc t m d" "available t = available s - set ps"
        "distinct ps" "length ps = length (spill val)" "next_page s \<le> next_page t" "next_page t \<le> next_page s + length ps"
        "\<forall>p. is_frozen t p \<longrightarrow> is_frozen s p" "length (frames t) = length (frames s)"
      by (rule write_overflow_chain [OF assms(1,2) w [unfolded x]]) blast
    let ?mk = "enc_marker (of_nat (length val)) (of_nat head) c" and ?e = "(key, val, ps)"
    have "\<forall>p \<in> set ps. 1 < p" using p(7) available_past_superblocks [OF assms(2)] by blast
    moreover have "hd ps \<le> u32_max" using p(4,11) by (cases ps) (auto simp: less_imp_le)
    moreover have "set ps \<inter> available t = {}" using p(13) by blast
    ultimately have sp: "spilled crc t ?mk val ps" using p(3-6,8-10) assms(4) by (simp add: spilled_def over_record_limit_def)
    have "16 + length key \<le> MAX_RECORD_LEN" using assms(3) by (simp add: key_cap_def MAX_RECORD_LEN_def layout_defs)
    note dm = decode_enc_leaf_marker [OF this, of ?mk]
    have "cell_holds crc t m (enc_leaf_marker key ?mk) ?e" using dm sp by (simp add: cell_holds_def enc_marker_def)
    moreover have "evolves crc s t {} (length (spill val))"
      using p(2,7,9,12,13,15-19) unfolding evolves_def by auto
    moreover have "length (enc_leaf_marker key ?mk) \<le> MAX_RECORD_LEN"
      using assms(3) by (simp add: enc_leaf_marker_def enc_marker_def key_cap_def MAX_RECORD_LEN_def layout_defs)
    ultimately show ?thesis
      using en x p(1,7,14) by (intro disjI1 exI [of _ t] exI [of _ "enc_leaf_marker key ?mk"] exI [of _ ?e]) (simp add: kv_def)
  next
    case False
    have "\<not> plenty s (length (spill val))" using write_overflow_returns(2) [OF assms(1,2) w] False by (auto simp: plenty_def)
    moreover have "refused (encode_record crc debug s key val)" unfolding en by (rule refused_then) (simp add: refused_def False)
    ultimately show ?thesis by blast
  qed
qed

section \<open>Going down a path of this epoch\<close>

inductive trail :: "(nat \<Rightarrow> bool) \<Rightarrow> bytes \<Rightarrow> tree \<Rightarrow> nat list \<Rightarrow> nat \<Rightarrow> bool" for fz key where
  at_leaf: "\<not> fz p \<Longrightarrow> trail fz key (TLeaf p es) [] p"
| at_node: "\<not> fz (page_of l) \<Longrightarrow> i = length (takeWhile (\<lambda>k. k \<le> key) (seps l)) \<Longrightarrow> i < length (children l) \<Longrightarrow> trail fz key (children l ! i) ps p \<Longrightarrow>
    trail fz key l (page_of l # ps) p"

lemma trail_start: "trail fz key l ps p \<Longrightarrow> \<not> fz (page_of l)"
  by (induction rule: trail.induct) simp_all

lemma trail_mono: "trail fz key l ps p \<Longrightarrow> (\<And>q. fz' q \<Longrightarrow> fz q) \<Longrightarrow> trail fz' key l ps p"
  by (induction rule: trail.induct) (auto intro: trail.intros)

lemma write_loop_trail:
  assumes "trail fz key l ps p" "idle crc s" "focus crc s tid z l" "owned s z" "fences_fit f z" "over (hole_lo z) key" "under (hole_hi z) key" "\<And>q. is_frozen s q \<Longrightarrow> fz q"
  shows "\<exists>t g b f'. write_loop crc debug tid key s (page_of l) (rev (ctx_path z)) f = Some (t, Ok (g, p, rev (ctx_path z) @ ps, f')) \<and>
    guarded crc t [(g, p, b)] \<and> evolves crc s t {} 0"
  using assms
proof (induction arbitrary: s z f rule: trail.induct)
  case (at_leaf p es)
  have "\<not> is_frozen s p" using at_leaf by blast
  then obtain t g c where "write_loop crc debug tid key s p (rev (ctx_path z)) f = Some (t, Ok (g, p, rev (ctx_path z), f))" "guarded crc t [(g, p, c)]" "evolves crc s t {} 0"
    using write_loop_at_leaf [OF at_leaf(2,3)] by blast
  then show ?case by auto
next
  case (at_node l i ps p)
  have ne: "children l \<noteq> []" using at_node(3) by auto
  have fz: "\<not> is_frozen s (page_of l)" using at_node(1,12) by blast
  obtain u j f' where u: "j < length (children l)" "idle crc u" "evolves crc s u {} 0" "focus crc u tid ((l, j) # z) (children l ! j)"
      "owned u ((l, j) # z)" "fences_fit f' ((l, j) # z)" "over (hole_lo ((l, j) # z)) key" "under (hole_hi ((l, j) # z)) key"
      "write_loop crc debug tid key s (page_of l) (rev (ctx_path z)) f =
         then_may (Some (own_child crc debug u (page_of l) j (page_of (children l ! j)))) (\<lambda>s p.
           write_loop crc debug tid key s p (rev (ctx_path ((l, j) # z))) f')"
    by (rule write_loop_node [OF at_node(6,7) ne at_node(8) fz at_node(9-11)])
  have nl: "node_live crc s tid (hole_lo z) (hole_hi z) (page_of l) (map page_of (children l)) (seps l)"
    using at_node(7) live_node [of crc s tid "hole_lo z" "hole_hi z" l] ne by (simp add: focus_def)
  then have "length (takeWhile (\<lambda>k. k \<le> key) (seps l)) = j"
    using u(1,7,8) length_children [OF ne] by (intro route_unique) (auto simp: node_live_def)
  then have j: "j = i" using at_node(2) by simp
  have fu: "is_frozen u q \<Longrightarrow> fz q" for q using u(3) at_node(12) unfolding evolves_def by blast
  have "\<not> is_frozen u (page_of (children l ! i))" using trail_start [OF at_node(4)] fu by blast
  then have oc: "own_child crc debug u (page_of l) i (page_of (children l ! i)) = (u, Ok (page_of (children l ! i)))" by (simp add: own_child_def)
  obtain t g b f'' where t: "write_loop crc debug tid key u (page_of (children l ! i)) (rev (ctx_path ((l, i) # z))) f' = Some (t, Ok (g, p, rev (ctx_path ((l, i) # z)) @ ps, f''))"
      "guarded crc t [(g, p, b)]" "evolves crc u t {} 0"
    using at_node(5) [OF u(2,4-8) [unfolded j] fu] by blast
  have "evolves crc s t {} 0" using evolves_trans [OF u(3) t(3)] by simp
  then show ?case using u(9) t(1,2) oc unfolding j by auto
qed

lemma hole_wider:
  assumes "ctx_live crc s tid ((n, i) # z) p"
  shows "over (hole_lo ((n, i) # z)) key \<Longrightarrow> over (hole_lo z) key" "under (hole_hi ((n, i) # z)) key \<Longrightarrow> under (hole_hi z) key"
proof -
  have nl: "node_live crc s tid (hole_lo z) (hole_hi z) (page_of n) ((map page_of (children n))[i := p]) (seps n)" "i < length (children n)"
    using assms by (simp_all add: frame_live_def)
  then have k: "\<forall>k \<in> set (seps n). over (hole_lo z) k" "\<forall>k \<in> set (seps n). under (hole_hi z) k" "i \<le> length (seps n)" by (auto simp: node_live_def)
  show "over (hole_lo ((n, i) # z)) key \<Longrightarrow> over (hole_lo z) key" using fence_lo_over [OF _ k(1,3)] by simp
  show "under (hole_hi ((n, i) # z)) key \<Longrightarrow> under (hole_hi z) key" using fence_hi_under [OF _ k(2)] by simp
qed

lemma trail_plug:
  assumes "trail (is_frozen s) key x ps p" "ctx_live crc s tid z (page_of x)" "owned s z" "over (hole_lo z) key" "under (hole_hi z) key"
  shows "trail (is_frozen s) key (plug z x) (rev (ctx_path z) @ ps) p"
  using assms
proof (induction z arbitrary: x ps)
  case (Cons a z)
  obtain n i where a: "a = (n, i)" by (cases a)
  have fr: "frame_live crc s tid (hole_lo z) (hole_hi z) n i (page_of x)" "ctx_live crc s tid z (page_of n)" using Cons.prems(2) by (simp_all add: a)
  then have nl: "node_live crc s tid (hole_lo z) (hole_hi z) (page_of n) ((map page_of (children n))[i := page_of x]) (seps n)" "i < length (children n)"
    by (simp_all add: frame_live_def)
  have srt: "sorted_wrt (<) (seps n)" "i \<le> length (seps n)" using nl by (auto simp: node_live_def)
  have "length (takeWhile (\<lambda>k. k \<le> key) (seps n)) = i"
    by (rule route_unique [OF srt, where lo = "hole_lo z" and hi = "hole_hi z"]) (use Cons.prems(4,5) in \<open>simp_all add: a\<close>)
  then have "trail (is_frozen s) key (set_child n i x) (page_of (set_child n i x) # ps) p"
    using Cons.prems(1,3) nl(2) by (intro at_node [where i = i]) (simp_all add: a)
  then have "trail (is_frozen s) key (plug z (set_child n i x)) (rev (ctx_path z) @ page_of n # ps) p"
    using Cons.IH [of "set_child n i x" "page_of n # ps"] fr(2) Cons.prems(3) hole_wider [OF Cons.prems(2) [unfolded a], of key] Cons.prems(4,5) by (simp add: a)
  then show ?case by (simp add: a)
qed simp

lemma descend_owned:
  assumes "idle crc s" "focus crc s (tree_id w) z (TLeaf p es)" "owned s z" "\<not> is_frozen s p" "over (hole_lo z) key" "under (hole_hi z) key"
    and "root w = page_of (plug z (TLeaf p es))"
  obtains t g b f where "descend_for_write_fenced crc debug (s, w) key = Some ((t, w), Ok (g, p, rev (ctx_path z), f))" "guarded crc t [(g, p, b)]" "evolves crc s t {} 0"
proof -
  let ?T = "plug z (TLeaf p es)"
  have "ctx_live crc s (tree_id w) z (page_of (TLeaf p es))" using assms(2) by (simp add: focus_def)
  then have tr: "trail (is_frozen s) key ?T (rev (ctx_path z) @ []) p" using assms(3-6) by (intro trail_plug at_leaf)
  have f: "focus crc s (tree_id w) [] ?T" using focus_handles [OF assms(2,7)] by (simp add: handles_def)
  have "\<not> is_frozen s (root w)" using trail_start [OF tr] assms(7) by simp
  then have r: "own_root crc debug (s, w) = ((s, w), Ok ())" by (simp add: own_root_def)
  obtain t g b f' where t: "write_loop crc debug (tree_id w) key s (page_of ?T) (rev (ctx_path [])) fences_none = Some (t, Ok (g, p, rev (ctx_path z), f'))"
      "guarded crc t [(g, p, b)]" "evolves crc s t {} 0"
    using write_loop_trail [OF tr assms(1) f, of fences_none debug] by (auto simp: fences_fit_def fences_none_def over_def under_def)
  have "descend_for_write_fenced crc debug (s, w) key = Some ((t, w), Ok (g, p, rev (ctx_path z), f'))"
    using t(1) assms(7) by (simp add: descend_for_write_fenced_def r in_pool_def)
  then show thesis using that t by blast
qed

section \<open>The separators of a split\<close>

lemma ctx_path_pages: "set (ctx_path z) \<subseteq> set (ctx_pages z)"
proof (induction z)
  case (Cons a z)
  then show ?case by (cases a) auto
qed simp

text \<open>The append hint, if armed, names a leaf of the tree.\<close>

definition hint_ok :: "crc_fn \<Rightarrow> pool \<Rightarrow> writer \<Rightarrow> tree \<Rightarrow> bool" where
  "hint_ok crc s w l \<longleftrightarrow> (\<forall>p. last_leaf w = Some p \<longrightarrow> (\<exists>z es. focus crc s (tree_id w) z (TLeaf p es) \<and> plug z (TLeaf p es) = l))"

definition inserted :: "crc_fn \<Rightarrow> pool \<Rightarrow> u16 \<Rightarrow> (bytes \<times> bytes) list \<Rightarrow> nat set \<Rightarrow> nat \<Rightarrow> wstate \<times> unit kresult \<Rightarrow> bool" where
  "inserted crc s tid kvs D c x \<longleftrightarrow>
     (\<exists>t w T. x = ((t, w), Ok ()) \<and> idle crc t \<and> handles crc t w T \<and> hint_ok crc t w T \<and> tree_id w = tid \<and> tags w = None \<and>
        tree_entries T = kvs \<and> evolves crc s t D c)"

lemma settled_handles:
  assumes "settled crc s tid T z f (L, R) x" "tree_id w = tid" "root w = page_of T"
  shows "handles crc s w T" "tree_entries T = L @ tree_entries x @ R"
  using assms focus_handles [of crc s w z x] focus_plug(3) [of crc s tid z x] by (auto simp: settled_def)

lemma settled_hint: "settled crc s (tree_id w) T z f e (TLeaf p es) \<Longrightarrow> last_leaf w = None \<or> last_leaf w = Some p \<Longrightarrow> hint_ok crc s (w\<lparr>root := no\<rparr>) T"
proof -
  assume a: "settled crc s (tree_id w) T z f e (TLeaf p es)" "last_leaf w = None \<or> last_leaf w = Some p"
  then have "focus crc s (tree_id w) z (TLeaf p es) \<and> plug z (TLeaf p es) = T" by (simp add: settled_def)
  then have "\<exists>z es. focus crc s (tree_id w) z (TLeaf p es) \<and> plug z (TLeaf p es) = T" by blast
  then show ?thesis using a(2) unfolding hint_ok_def by (cases "last_leaf w") simp_all
qed

lemma two_way_step:
  assumes "idle crc s" "split_into crc s (tree_id w) z leaf es (TwoWay sp sep no)" "root w = page_of (plug z (TLeaf leaf xs))" "tags w = None"
    and "last_leaf w = None \<or> last_leaf w = Some no"
  shows "inserted crc s (tree_id w) (ctx_left z @ map kv es @ ctx_right z) (set (ctx_path z)) (Suc (length z)) (insert_separator crc debug (s, w) (ctx_path z) sep no) \<or>
    \<not> plenty s (Suc (length z)) \<and> refused (insert_separator crc debug (s, w) (ctx_path z) sep no)"
proof -
  let ?l = "TLeaf leaf (take sp es)" and ?r = "TLeaf no (drop sp es)"
  have pt: "parted crc s (tree_id w) z ?l sep ?r" using assms(2) by simp
  have rt: "root w = page_of (plug z ?l)" using assms(3) page_of_plug [of "TLeaf leaf xs" ?l z] by simp
  have es: "map kv (take sp es) @ map kv (drop sp es) = map kv es" by (metis append_take_drop_id map_append)
  consider (ok) t T where "insert_separator crc debug (s, w) (ctx_path z) sep no = ((t, w\<lparr>root := page_of T\<rparr>), Ok ())" "idle crc t"
      "evolves crc s t (set (ctx_path z)) (Suc (length z))" "rejoined crc t (tree_id w) z ?l sep ?r T (Suc (length z))"
    | (no) "\<not> plenty s (Suc (length z))" "refused (insert_separator crc debug (s, w) (ctx_path z) sep no)"
    using insert_separator_step [OF assms(1) pt rt, of debug] unfolding page_of.simps by blast
  then show ?thesis
  proof cases
    case ok
    obtain zr where zr: "settled crc t (tree_id w) T zr (Some sep, hole_hi z) (ctx_left z @ tree_entries ?l, ctx_right z) ?r"
      using ok(4) unfolding rejoined_def by blast
    have h: "handles crc t (w\<lparr>root := page_of T\<rparr>) T" "tree_entries T = ctx_left z @ map kv es @ ctx_right z"
      using settled_handles [OF zr, of "w\<lparr>root := page_of T\<rparr>"] es by simp_all
    have "hint_ok crc t (w\<lparr>root := page_of T\<rparr>) T" using settled_hint [OF zr] assms(5) by auto
    then show ?thesis unfolding inserted_def using ok(1-3) h assms(4) by (intro disjI1 exI [of _ t] exI [of _ "w\<lparr>root := page_of T\<rparr>"] exI [of _ T]) simp
  qed blast
qed

lemma second_parted:
  assumes "parted_twice crc s tid z l sep m sep' r" "evolves crc s t (set (ctx_path z)) c" "settled crc t tid T zm (Some sep, hole_hi z) (L, R) m"
    and "set (tree_pages T) \<subseteq> set (ctx_pages z @ tree_pages l @ tree_pages m) \<union> available s"
  shows "parted crc t tid zm m sep' r"
proof -
  have p: "live crc s tid (Some sep) (Some sep') m" "live crc s tid (Some sep') (hole_hi z) r" "sep < sep'" "under (hole_hi z) sep'" "length sep' \<le> key_cap"
      "distinct (ctx_pages z @ tree_pages l @ tree_pages m @ tree_pages r)"
    using assms(1) unfolding parted_twice_def by blast+
  have st: "focus crc t tid zm m" "owned t zm" "plug zm m = T" "hole_lo zm = Some sep" "hole_hi zm = hole_hi z" using assms(3) by (simp_all add: settled_def)
  have di: "set (tree_pages m) \<inter> set (ctx_path z) = {}" "set (tree_pages r) \<inter> set (ctx_path z) = {}" using p(6) ctx_path_pages [of z] by auto
  have "set (tree_pages r) \<inter> set (ctx_pages zm @ tree_pages m) = {}"
    using focus_pages [OF st(1)] assms(4) p(6) live_unavailable [OF p(2)] unfolding st(3) by auto
  then have "distinct (ctx_pages zm @ tree_pages m @ tree_pages r)" using st(1) p(6) by (auto simp: focus_def)
  then show ?thesis
    using st live_evolves [OF p(1) assms(2) di(1)] live_evolves [OF p(2) assms(2) di(2)] p(3-5) by (auto simp: parted_def focus_def over_def)
qed

lemma insert_separators_step:
  assumes "idle crc s" "split_into crc s (tree_id w) z leaf es (ThreeWay c sep mid c' sep' no)" "root w = page_of (plug z (TLeaf leaf xs))"
  shows "\<exists>x. insert_separators crc debug (s, w) (rev (ctx_path z)) sep mid sep' no = Some x \<and>
    ((\<exists>t T zr. x = ((t, w\<lparr>root := page_of T\<rparr>), Ok ()) \<and> idle crc t \<and>
        settled crc t (tree_id w) T zr (Some sep', hole_hi z) (ctx_left z @ map kv (take c' es), ctx_right z) (TLeaf no (drop c' es)) \<and>
        evolves crc s t (set (ctx_pages z @ leaf # mid # entry_pages es)) (2 * length z + 3)) \<or>
     \<not> plenty s (2 * length z + 3) \<and> refused x)"
proof -
  let ?l = "TLeaf leaf (take c es)" and ?m = "TLeaf mid (take (c' - c) (drop c es))" and ?r = "TLeaf no (drop c' es)"
  have sp: "parted_twice crc s (tree_id w) z ?l sep ?m sep' ?r" "c \<le> c'" "\<not> is_frozen s mid" using assms(2) by simp_all
  have pt: "parted crc s (tree_id w) z ?l sep ?m" "sep < sep'" "under (hole_hi z) sep'" using sp(1) unfolding parted_twice_def by blast+
  have rt: "root w = page_of (plug z ?l)" using assms(3) page_of_plug [of "TLeaf leaf xs" ?l z] by simp
  consider (ok) t T where "insert_separator crc debug (s, w) (ctx_path z) sep mid = ((t, w\<lparr>root := page_of T\<rparr>), Ok ())" "idle crc t"
      "evolves crc s t (set (ctx_path z)) (Suc (length z))" "rejoined crc t (tree_id w) z ?l sep ?m T (Suc (length z))"
      "set (tree_pages T) \<subseteq> set (ctx_pages z @ tree_pages ?l @ tree_pages ?m) \<union> available s"
    | (no) "\<not> plenty s (Suc (length z))" "refused (insert_separator crc debug (s, w) (ctx_path z) sep mid)"
    using insert_separator_step [OF assms(1) pt(1) rt, of debug] unfolding page_of.simps by blast
  then show ?thesis
  proof cases
    case ok
    obtain zm where zm: "settled crc t (tree_id w) T zm (Some sep, hole_hi z) (ctx_left z @ tree_entries ?l, ctx_right z) ?m" "length zm \<le> Suc (length z)"
      using ok(4) unfolding rejoined_def by blast
    let ?w = "w\<lparr>root := page_of T\<rparr>"
    have st: "focus crc t (tree_id ?w) zm ?m" "owned t zm" "plug zm ?m = T" "hole_lo zm = Some sep" "hole_hi zm = hole_hi z" using zm(1) by (simp_all add: settled_def)
    have fz: "\<not> is_frozen t mid" using sp(3) ok(3) unfolding evolves_def by blast
    obtain u g b f where u: "descend_for_write_fenced crc debug (t, ?w) sep' = Some ((u, ?w), Ok (g, mid, rev (ctx_path zm), f))" "guarded crc u [(g, mid, b)]" "evolves crc t u {} 0"
      by (rule descend_owned [OF ok(2) st(1,2) fz, of sep' debug]) (use st(3-5) pt(2,3) in \<open>auto simp: over_def\<close>)
    obtain v where v: "drop_after g (u, Ok ()) = (v, Ok ())" "guarded crc v []" "evolves crc u v {} 0"
      by (rule drop_after_guarded [OF u(2) evolves_ready [OF u(3)], of "Ok ()"]) blast
    have tv: "evolves crc t v {} 0" using evolves_trans [OF u(3) v(3)] by simp
    have iv: "idle crc v" using v(2) ok(2) tv by (auto simp: idle_guarded evolves_def)
    have pv: "parted crc v (tree_id ?w) zm ?m sep' ?r"
      using parted_evolves [OF second_parted [OF sp(1) ok(3) zm(1) ok(5)] tv] by simp
    have run: "insert_separators crc debug (s, w) (rev (ctx_path z)) sep mid sep' no = Some (insert_separator crc debug (v, ?w) (ctx_path zm) sep' no)"
      using ok(1) u(1) v(1) by (simp add: insert_separators_def descend_for_write_def in_pool_def)
    have sv: "evolves crc s v (set (ctx_path z)) (Suc (length z))" using evolves_trans [OF ok(3) tv] by simp
    have pe: "set (ctx_pages z @ tree_pages ?l @ tree_pages ?m) \<subseteq> set (ctx_pages z @ leaf # mid # entry_pages es)"
      by (auto dest: in_set_takeD in_set_dropD)
    consider (ok') x T' where "insert_separator crc debug (v, ?w) (ctx_path zm) sep' no = ((x, ?w\<lparr>root := page_of T'\<rparr>), Ok ())" "idle crc x"
        "evolves crc v x (set (ctx_path zm)) (Suc (length zm))" "rejoined crc x (tree_id ?w) zm ?m sep' ?r T' (Suc (length zm))"
      | (no') "\<not> plenty v (Suc (length zm))" "refused (insert_separator crc debug (v, ?w) (ctx_path zm) sep' no)"
      using insert_separator_step [OF iv pv, of debug] st(3) by auto
    then show ?thesis
    proof cases
      case ok'
      obtain zr where zr: "settled crc x (tree_id w) T' zr (Some sep', hole_hi zm) (ctx_left zm @ tree_entries ?m, ctx_right zm) ?r"
        using ok'(4) unfolding rejoined_def by auto
      have "take c' es = take c es @ take (c' - c) (drop c es)" using sp(2) take_add [of c "c' - c" es] by simp
      then have "ctx_left zm @ tree_entries ?m = ctx_left z @ map kv (take c' es)" "ctx_right zm = ctx_right z" "hole_hi zm = hole_hi z"
        using zm(1) by (simp_all add: settled_def)
      then have se: "settled crc x (tree_id w) T' zr (Some sep', hole_hi z) (ctx_left z @ map kv (take c' es), ctx_right z) ?r" using zr by simp
      have "set (ctx_path zm) \<subseteq> set (tree_pages T)" using ctx_path_pages [of zm] focus_pages [OF st(1)] st(3) by auto
      then have "set (ctx_path z) \<union> set (ctx_path zm) \<subseteq> set (ctx_pages z @ leaf # mid # entry_pages es) \<union> available s"
        using ok(5) pe ctx_path_pages [of z] unfolding set_append by blast
      then have "evolves crc s x (set (ctx_pages z @ leaf # mid # entry_pages es) \<union> available s) (2 * length z + 3)"
        by (rule evolves_mono [OF evolves_trans [OF sv ok'(3)]]) (use zm(2) in simp)
      then have "evolves crc s x (set (ctx_pages z @ leaf # mid # entry_pages es)) (2 * length z + 3)" by (rule evolves_fresh) simp
      moreover have "w\<lparr>root := page_of T, root := page_of T'\<rparr> = w\<lparr>root := page_of T'\<rparr>" by simp
      ultimately show ?thesis using run ok'(1,2) se by (intro exI conjI disjI1) auto
    next
      case no'
      have "\<not> plenty s (Suc (length z) + Suc (length zm))" using no'(1) plenty_evolves [OF _ sv, of "Suc (length zm)"] by auto
      then have "\<not> plenty s (2 * length z + 3)" using plenty_mono [of s "2 * length z + 3" "Suc (length z) + Suc (length zm)"] zm(2) by auto
      then show ?thesis using run no'(2) by blast
    qed
  next
    case no
    have "\<not> plenty s (2 * length z + 3)" using no(1) plenty_mono [of s "2 * length z + 3" "Suc (length z)"] by auto
    moreover have "\<exists>x. insert_separators crc debug (s, w) (rev (ctx_path z)) sep mid sep' no = Some x \<and> refused x"
      using no(2) by (cases "insert_separator crc debug (s, w) (ctx_path z) sep mid"; cases "snd (insert_separator crc debug (s, w) (ctx_path z) sep mid)") (auto simp: insert_separators_def)
    ultimately show ?thesis by blast
  qed
qed

lemma no_tags [simp]: "tags w = None \<Longrightarrow> arm_tags w key leaf nxt fences = w" "tags w = None \<Longrightarrow> arm_after_split w key fences page nxt side = w"
  by (simp_all add: arm_tags_def arm_after_split_def)

lemma inserted_mono: "inserted crc s tid kvs D c x \<Longrightarrow> evolves crc r s E d \<Longrightarrow> E \<union> D \<subseteq> F \<union> available r \<Longrightarrow> d + c \<le> n \<Longrightarrow> inserted crc r tid kvs F n x"
proof -
  assume a: "inserted crc s tid kvs D c x" "evolves crc r s E d" "E \<union> D \<subseteq> F \<union> available r" "d + c \<le> n"
  have "evolves crc r t F n" if "evolves crc s t D c" for t
    by (rule evolves_fresh [OF evolves_mono [OF evolves_trans [OF a(2) that] a(3,4)]]) simp
  then show ?thesis using a(1) unfolding inserted_def by blast
qed

lemma split_leaf_and_insert_step:
  assumes "guarded crc s [(g, leaf, b)]" "3 \<le> length (frames s)" "focus crc s (tree_id w) z (TLeaf leaf (xs @ ys))" "owned s z" "\<not> is_frozen s leaf"
    and "cell_holds crc s leaf rec e" "sorted_wrt (<) (map fst (xs @ e # ys))" "over (hole_lo z) (fst e)" "under (hole_hi z) (fst e)" "length (fst e) \<le> key_cap"
    and "distinct (snd (snd e))" "set (snd (snd e)) \<inter> set (ctx_pages z @ leaf # entry_pages (xs @ ys)) = {}"
    and "4056 < cells_bytes (page_slots b) + length rec + 4" "length rec \<le> MAX_RECORD_LEN"
    and "root w = page_of (plug z (TLeaf leaf (xs @ ys)))" "tags w = None" "last_leaf w = None"
  shows "\<exists>x. split_leaf_and_insert crc debug (s, w) g leaf (rev (ctx_path z)) (length xs) rec key fences = Some x \<and>
    (inserted crc s (tree_id w) (ctx_left z @ map kv (xs @ e # ys) @ ctx_right z) (set (ctx_pages z @ leaf # entry_pages (xs @ e # ys))) (2 * length z + 5) x \<or>
     \<not> plenty s (2 * length z + 5) \<and> refused x)"
proof -
  let ?es = "xs @ e # ys" and ?D = "set (ctx_pages z @ leaf # entry_pages (xs @ e # ys))" and ?n = "2 * length z + 5"
  let ?kvs = "ctx_left z @ map kv ?es @ ctx_right z" and ?x = "split_leaf crc debug (tree_id w) s g leaf (length xs) rec"
  have wt: "w\<lparr>tags := map_option (\<lambda>t. hints_forget_leaf t (tree_id w) leaf) (tags w)\<rparr> = w" using assms(16) by simp
  consider (ok) t p L where "?x = (t, Ok (page_next_leaf b, p))" "guarded crc t [(g, leaf, L)]" "evolves crc s t {leaf} 2" "split_into crc t (tree_id w) z leaf ?es p" "new_pages p \<subseteq> available s"
    | (no) "\<not> plenty s 2" "refused ?x"
    using split_leaf_step [OF assms(1-14), of debug] by blast
  then show ?thesis
  proof cases
    case ok
    obtain u where u: "drop_after g (t, Ok (page_next_leaf b, p)) = (u, Ok (page_next_leaf b, p))" "guarded crc u []" "evolves crc t u {} 0"
      by (rule drop_after_guarded [OF ok(2) evolves_ready [OF ok(3)], of "Ok (page_next_leaf b, p)"]) blast
    have ud: "drop_after g ?x = (u, Ok (page_next_leaf b, p))" using ok(1) u(1) by simp
    have eu: "evolves crc s u {leaf} 2" using evolves_trans [OF ok(3) u(3)] by simp
    have iu: "idle crc u" using u(2) eu assms(2) by (auto simp: idle_guarded evolves_def)
    have pu: "split_into crc u (tree_id w) z leaf ?es p" by (rule split_into_evolves [OF ok(4) u(3)])
    show ?thesis
    proof (cases p)
      case (TwoWay sp sep no)
      define w1 where "w1 = (if page_next_leaf b = 0 then w\<lparr>last_leaf := Some no\<rparr> else w)"
      have w1: "tree_id w1 = tree_id w" "root w1 = root w" "tags w1 = None" "last_leaf w1 = None \<or> last_leaf w1 = Some no" using assms(16,17) by (simp_all add: w1_def)
      let ?y = "insert_separator crc debug (u, w1) (ctx_path z) sep no"
      have st: "inserted crc u (tree_id w) ?kvs (set (ctx_path z)) (Suc (length z)) ?y \<or> \<not> plenty u (Suc (length z)) \<and> refused ?y"
        using two_way_step [OF iu pu [unfolded TwoWay, folded w1(1)] assms(15) [folded w1(2)] w1(3,4), of debug] unfolding w1(1) .
      show ?thesis
      proof (cases "inserted crc u (tree_id w) ?kvs (set (ctx_path z)) (Suc (length z)) ?y")
        case True
        then obtain v w2 where v: "?y = ((v, w2), Ok ())" "tags w2 = None" unfolding inserted_def by blast
        have "split_leaf_and_insert crc debug (s, w) g leaf (rev (ctx_path z)) (length xs) rec key fences = Some ?y"
          using v by (simp add: split_leaf_and_insert_def wt ud TwoWay w1_def [symmetric] Let_def)
        moreover have "inserted crc s (tree_id w) ?kvs ?D ?n ?y" by (rule inserted_mono [OF True eu]) (use ctx_path_pages [of z] in auto)
        ultimately show ?thesis by blast
      next
        case False
        then have "\<not> plenty u (Suc (length z))" "refused ?y" using st by blast+
        moreover have "\<not> plenty s ?n" using calculation(1) plenty_evolves [OF _ eu, of "Suc (length z)"] plenty_mono [of s ?n "2 + Suc (length z)"] by auto
        moreover have "\<exists>x. split_leaf_and_insert crc debug (s, w) g leaf (rev (ctx_path z)) (length xs) rec key fences = Some x \<and> refused x"
          using calculation(2) by (cases ?y; cases "snd ?y") (auto simp: split_leaf_and_insert_def wt ud TwoWay w1_def [symmetric] Let_def)
        ultimately show ?thesis by blast
      qed
    next
      case (ThreeWay c sep mid c' sep' no)
      let ?w = "w\<lparr>last_leaf := None\<rparr>"
      have ww: "?w = w" "w\<lparr>tags := None, last_leaf := None\<rparr> = w" using assms(16,17) by simp_all
      obtain y where y: "insert_separators crc debug (u, w) (rev (ctx_path z)) sep mid sep' no = Some y"
          "(\<exists>v T zr. y = ((v, w\<lparr>root := page_of T\<rparr>), Ok ()) \<and> idle crc v \<and>
             settled crc v (tree_id w) T zr (Some sep', hole_hi z) (ctx_left z @ map kv (take c' ?es), ctx_right z) (TLeaf no (drop c' ?es)) \<and>
             evolves crc u v (set (ctx_pages z @ leaf # mid # entry_pages ?es)) (2 * length z + 3)) \<or>
           \<not> plenty u (2 * length z + 3) \<and> refused y"
        using insert_separators_step [OF iu pu [unfolded ThreeWay] assms(15), of debug] by blast
      from y(2) show ?thesis
      proof
        assume "\<exists>v T zr. y = ((v, w\<lparr>root := page_of T\<rparr>), Ok ()) \<and> idle crc v \<and>
             settled crc v (tree_id w) T zr (Some sep', hole_hi z) (ctx_left z @ map kv (take c' ?es), ctx_right z) (TLeaf no (drop c' ?es)) \<and>
             evolves crc u v (set (ctx_pages z @ leaf # mid # entry_pages ?es)) (2 * length z + 3)"
        then obtain v T zr where v: "y = ((v, w\<lparr>root := page_of T\<rparr>), Ok ())" "idle crc v"
            "settled crc v (tree_id w) T zr (Some sep', hole_hi z) (ctx_left z @ map kv (take c' ?es), ctx_right z) (TLeaf no (drop c' ?es))"
            "evolves crc u v (set (ctx_pages z @ leaf # mid # entry_pages ?es)) (2 * length z + 3)"
          by blast
        define w2 where "w2 = (if page_next_leaf b = 0 then w\<lparr>root := page_of T, last_leaf := Some no\<rparr> else w\<lparr>root := page_of T\<rparr>)"
        have w2: "w2 = (if page_next_leaf b = 0 then w\<lparr>last_leaf := Some no\<rparr> else w)\<lparr>root := page_of T\<rparr>" by (simp add: w2_def)
        have "hint_ok crc v w2 T" unfolding w2 by (rule settled_hint) (use v(3) assms(17) in auto)
        moreover have "handles crc v w2 T" "tree_entries T = ?kvs"
          using settled_handles [OF v(3), of w2] append_take_drop_id [of c' ?es] by (simp_all add: w2_def flip: map_append)
        ultimately have "inserted crc u (tree_id w) ?kvs (set (ctx_pages z @ leaf # mid # entry_pages ?es)) (2 * length z + 3) ((v, w2), Ok ())"
          unfolding inserted_def using v(2,4) assms(16) by (intro exI [of _ v] exI [of _ w2] exI [of _ T]) (simp add: w2_def)
        then have "inserted crc s (tree_id w) ?kvs ?D ?n ((v, w2), Ok ())"
          by (rule inserted_mono [OF _ eu]) (use ok(5) ThreeWay in auto)
        moreover have "split_leaf_and_insert crc debug (s, w) g leaf (rev (ctx_path z)) (length xs) rec key fences = Some ((v, w2), Ok ())"
          using y(1) v(1) assms(16) by (simp add: split_leaf_and_insert_def wt ud ThreeWay ww w2_def Let_def)
        ultimately show ?thesis by blast
      next
        assume a: "\<not> plenty u (2 * length z + 3) \<and> refused y"
        then have "\<not> plenty s ?n" using plenty_evolves [OF _ eu, of "2 * length z + 3"] by (auto simp: add.commute)
        moreover have "\<exists>x. split_leaf_and_insert crc debug (s, w) g leaf (rev (ctx_path z)) (length xs) rec key fences = Some x \<and> refused x"
          using a y(1) by (cases y; cases "snd y") (auto simp: split_leaf_and_insert_def wt ud ThreeWay ww Let_def)
        ultimately show ?thesis by blast
      qed
    qed
  next
    case no
    have "\<not> plenty s ?n" using no(1) plenty_mono [of s ?n 2] by auto
    moreover have "refused (drop_after g ?x)" by (rule refused_drop [OF no(2)])
    then have "\<exists>x. split_leaf_and_insert crc debug (s, w) g leaf (rev (ctx_path z)) (length xs) rec key fences = Some x \<and> refused x"
      by (cases "drop_after g ?x"; cases "snd (drop_after g ?x)") (auto simp: split_leaf_and_insert_def wt Let_def)
    ultimately show ?thesis by blast
  qed
qed

end
