(* ===== verification/Insert_Refines.thy ===== *)
theory Insert_Refines
  imports Btree_Insert
begin

text \<open>
  The whole insert (\<open>Btree::insert\<close>) on a live tree, with the append hint or without: it refines the
  update of the key-value list at its key.
\<close>

section \<open>Into the leaf\<close>

lemma idle_later: "guarded crc t [] \<Longrightarrow> evolves crc s t D c \<Longrightarrow> frames s \<noteq> [] \<Longrightarrow> idle crc t"
  by (auto simp: idle_guarded evolves_def)

lemma guarded_frames: "guarded crc s (g # gs) \<Longrightarrow> frames s \<noteq> []"
  by (cases g) (auto simp: guarded_def)

lemma in_leaf:
  assumes "guarded crc t [(g, leaf, c)]" "focus crc t (tree_id w) z (TLeaf leaf es)" "root w = page_of (plug z (TLeaf leaf es0))" "tags w = None"
    and "last_leaf w = None \<or> last_leaf w = Some leaf" "evolves crc s t D n"
  obtains u where "drop_after g (t, Ok ()) = (u, Ok ())" "inserted crc s (tree_id w) (ctx_left z @ map kv es @ ctx_right z) D n ((u, w), Ok ())"
proof -
  obtain u where u: "drop_after g (t, Ok ()) = (u, Ok ())" "guarded crc u []" "evolves crc t u {} 0"
    by (rule drop_after_guarded [OF assms(1) evolves_ready [OF assms(6)], of "Ok ()"]) blast
  let ?T = "plug z (TLeaf leaf es)"
  have iu: "idle crc u" by (rule idle_later [OF u(2,3) guarded_frames [OF assms(1)]])
  have fu: "focus crc u (tree_id w) z (TLeaf leaf es)" by (rule focus_evolves [OF assms(2) u(3)]) simp
  have rt: "root w = page_of ?T" using assms(3) page_of_plug [of "TLeaf leaf es0" "TLeaf leaf es" z] by simp
  have hu: "handles crc u w ?T" by (rule focus_handles [OF fu rt])
  have "\<exists>z es. focus crc u (tree_id w) z (TLeaf leaf es) \<and> plug z (TLeaf leaf es) = ?T" using fu by blast
  then have hi: "hint_ok crc u w ?T" unfolding hint_ok_def using assms(5) by (metis option.distinct(1) option.inject)
  have "evolves crc s u D n" using evolves_trans [OF assms(6) u(3)] by simp
  then have "inserted crc s (tree_id w) (ctx_left z @ map kv es @ ctx_right z) D n ((u, w), Ok ())"
    unfolding inserted_def using iu hu hi assms(4) focus_plug(3) [OF fu] by (intro exI [of _ u] exI [of _ w] exI [of _ ?T]) simp
  then show thesis by (rule that [OF u(1)])
qed

lemma insert_into_leaf_step:
  assumes "crc32c_crate crc" "guarded crc s [(g, leaf, b)]" "3 \<le> length (frames s)" "focus crc s (tree_id w) z (TLeaf leaf es)" "owned s z" "\<not> is_frozen s leaf"
    and "cell_holds crc s leaf rec e" "fst e = key" "over (hole_lo z) key" "under (hole_hi z) key" "length key \<le> key_cap"
    and "distinct (snd (snd e))" "set (snd (snd e)) \<inter> set (ctx_pages z @ leaf # entry_pages es) = {}" "length rec \<le> MAX_RECORD_LEN"
    and "root w = page_of (plug z (TLeaf leaf es))" "tags w = None" "last_leaf w = None"
  shows "\<exists>x. insert_into_leaf crc debug (s, w) g leaf (rev (ctx_path z)) key rec fences = Some x \<and>
    (inserted crc s (tree_id w) (ctx_left z @ map kv (before key es @ e # after key es) @ ctx_right z)
       (set (ctx_pages z @ leaf # entry_pages es) \<union> set (snd (snd e))) (2 * length z + 5) x \<or>
     \<not> plenty s (2 * length z + 5) \<and> refused x)"
proof -
  let ?n = "2 * length z + 5" and ?D = "set (ctx_pages z @ leaf # entry_pages es) \<union> set (snd (snd e))" and ?es = "before key es @ e # after key es"
  let ?run = "insert_into_leaf crc debug (s, w) g leaf (rev (ctx_path z)) key rec fences"
  note p = leaf_parts [OF assms(4)]
  note ak = around_key [OF p(4), of key]
  have f2: "2 \<le> length (frames s)" using assms(3) by simp
  consider (ok) t c room where "place_record crc s g leaf key rec = (t, Ok (entry_index key es, page_next_leaf b, room))" "guarded crc t [(g, leaf, c)]"
      "focus crc t (tree_id w) z (TLeaf leaf (if room then ?es else before key es @ after key es))"
      "evolves crc s t (set (leaf # entry_pages es)) 0" "\<not> room \<longrightarrow> 4056 < cells_bytes (page_slots c) + length rec + 4"
    | (no) "limits s \<noteq> None" "refused (place_record crc s g leaf key rec)"
    using place_record_step [OF assms(1,2) f2 assms(4,7-10,12,13,11)] by blast
  then show ?thesis
  proof cases
    case no
    have "\<exists>x. ?run = Some x \<and> refused x"
      using no(2) by (cases "place_record crc s g leaf key rec"; cases "snd (place_record crc s g leaf key rec)") (auto simp: insert_into_leaf_def refused_drop)
    then show ?thesis using no(1) by (auto simp: plenty_def)
  next
    case ok
    have st: "evolves crc s t ?D ?n" by (rule evolves_mono [OF ok(4)]) auto
    show ?thesis
    proof (cases room)
      case True
      define w1 where "w1 = (if page_next_leaf b = 0 then w\<lparr>last_leaf := Some leaf\<rparr> else w)"
      have w1: "tree_id w1 = tree_id w" "root w1 = root w" "tags w1 = None" "last_leaf w1 = None \<or> last_leaf w1 = Some leaf" using assms(16,17) by (simp_all add: w1_def)
      have ft: "focus crc t (tree_id w1) z (TLeaf leaf ?es)" using ok(3) True w1(1) by simp
      have rt: "root w1 = page_of (plug z (TLeaf leaf es))" using w1(2) assms(15) by simp
      obtain u where u: "drop_after g (t, Ok ()) = (u, Ok ())" "inserted crc s (tree_id w1) (ctx_left z @ map kv ?es @ ctx_right z) ?D ?n ((u, w1), Ok ())"
        by (rule in_leaf [OF ok(2) ft rt w1(3,4) st])
      have "?run = Some ((u, w1), Ok ())" using ok(1) True u(1) w1(3) by (simp add: insert_into_leaf_def w1_def [symmetric])
      then show ?thesis using u(2) unfolding w1(1) by blast
    next
      case False
      let ?ba = "before key es @ after key es"
      have ce: "cell_holds crc t leaf rec e" by (rule cell_holds_evolves [OF assms(7) ok(4)]) (use assms(13) in auto)
      have ep: "set (entry_pages ?ba) \<subseteq> set (entry_pages es)" by (auto simp: before_def after_def)
      have di: "set (snd (snd e)) \<inter> set (ctx_pages z @ leaf # entry_pages ?ba) = {}" using assms(13) ep unfolding set_append list.set by blast
      have fr: "3 \<le> length (frames t)" "\<not> is_frozen t leaf" using ok(4) assms(3,6) unfolding evolves_def by auto
      have rt: "root w = page_of (plug z (TLeaf leaf ?ba))" using assms(15) page_of_plug [of "TLeaf leaf es" "TLeaf leaf ?ba" z] by simp
      have ft: "focus crc t (tree_id w) z (TLeaf leaf ?ba)" using ok(3) False by simp
      have "\<exists>x. split_leaf_and_insert crc debug (t, w) g leaf (rev (ctx_path z)) (length (before key es)) rec key fences = Some x \<and>
          (inserted crc t (tree_id w) (ctx_left z @ map kv ?es @ ctx_right z) (set (ctx_pages z @ leaf # entry_pages ?es)) ?n x \<or> \<not> plenty t ?n \<and> refused x)"
        by (rule split_leaf_and_insert_step [OF ok(2) fr(1) ft owned_evolves [OF assms(5) ok(4)] fr(2) ce around_sorted(2) [OF p(4) assms(8)]])
          (use assms(8-12,14,16,17) di rt ok(5) False in simp_all)
      then obtain x where x: "split_leaf_and_insert crc debug (t, w) g leaf (rev (ctx_path z)) (length (before key es)) rec key fences = Some x"
          "inserted crc t (tree_id w) (ctx_left z @ map kv ?es @ ctx_right z) (set (ctx_pages z @ leaf # entry_pages ?es)) ?n x \<or> \<not> plenty t ?n \<and> refused x"
        by blast
      have "?run = Some x" using ok(1) False x(1) ak(4) by (simp add: insert_into_leaf_def)
      moreover have "inserted crc s (tree_id w) (ctx_left z @ map kv ?es @ ctx_right z) ?D ?n x"
        if "inserted crc t (tree_id w) (ctx_left z @ map kv ?es @ ctx_right z) (set (ctx_pages z @ leaf # entry_pages ?es)) ?n x"
        by (rule inserted_mono [OF that ok(4)]) (use ep in auto)
      moreover have "\<not> plenty s ?n" if "\<not> plenty t ?n" using that plenty_evolves [OF _ ok(4), of ?n] by auto
      ultimately show ?thesis using x(2) by blast
    qed
  qed
qed

section \<open>Down from the root\<close>

lemma around_kv: "before key (map kv es) = map kv (before key es)" "after key (map kv es) = map kv (after key es)"
  by (simp_all add: before_def after_def filter_map o_def kv_def split_def)

lemma focus_around:
  assumes "focus crc s tid z (TLeaf leaf es)" "over (hole_lo z) key" "under (hole_hi z) key"
  shows "ctx_left z @ map kv (before key es @ e # after key es) @ ctx_right z =
    before key (tree_entries (plug z (TLeaf leaf es))) @ kv e # after key (tree_entries (plug z (TLeaf leaf es)))"
proof -
  note o = focus_order [OF assms]
  have "before key (ctx_left z) = ctx_left z" "after key (ctx_right z) = ctx_right z" using before_all o by blast+
  moreover have "after key (ctx_left z) = []" "before key (ctx_right z) = []" using o by (auto intro!: before_none less_imp_le)
  ultimately show ?thesis using focus_plug(3) [OF assms(1)] by (simp add: around_kv)
qed

lemma insert_descending_step:
  assumes "crc32c_crate crc" "idle crc s" "3 \<le> length (frames s)" "handles crc s w l"
    and "cell_holds crc s 0 rec e" "fst e = key" "length key \<le> key_cap" "distinct (snd (snd e))" "set (snd (snd e)) \<inter> set (tree_pages l) = {}"
    and "length rec \<le> MAX_RECORD_LEN" "tags w = None" "last_leaf w = None"
  shows "\<exists>x. insert_descending crc debug (s, w) key rec = Some x \<and>
    (inserted crc s (tree_id w) (before key (tree_entries l) @ kv e # after key (tree_entries l)) (set (tree_pages l) \<union> set (snd (snd e))) (3 * height l + 6) x \<or>
     \<not> plenty s (3 * height l + 6) \<and> refused x)"
proof -
  let ?n = "3 * height l + 6" and ?D = "set (tree_pages l) \<union> set (snd (snd e))" and ?run = "insert_descending crc debug (s, w) key rec"
  obtain x where x: "descend_for_write_fenced crc debug (s, w) key = Some x" "reached crc (s, w) key l x \<or> \<not> plenty s (Suc (height l)) \<and> refused x"
    using descend_for_write_step [OF assms(2,4), of debug key] by blast
  from x(2) show ?thesis
  proof
    assume "reached crc (s, w) key l x"
    then obtain t no g leaf b es z f where r: "x = ((t, w\<lparr>root := no\<rparr>), Ok (g, leaf, rev (ctx_path z), f))" "guarded crc t [(g, leaf, b)]"
        "focus crc t (tree_id w) z (TLeaf leaf es)" "owned t z" "\<not> is_frozen t leaf" "over (hole_lo z) key" "under (hole_hi z) key"
        "evolves crc s t (set (tree_pages l)) (Suc (height l))" "length z \<le> height l" "tree_entries (plug z (TLeaf leaf es)) = tree_entries l"
        "page_of (plug z (TLeaf leaf es)) = no" "set (tree_pages (plug z (TLeaf leaf es))) \<subseteq> set (tree_pages l) \<union> available s"
      unfolding reached_def by auto
    let ?w = "w\<lparr>root := no\<rparr>"
    have ce: "cell_holds crc t leaf rec e" by (rule cell_holds_any [OF cell_holds_evolves [OF assms(5) r(8) assms(9)]])
    have "own_page_no s p" if "p \<in> set (snd (snd e))" for p
      by (rule cell_pages_own [OF assms(5) _ that]) (use assms(4) in \<open>simp add: handles_def focus_def\<close>)
    then have "set (snd (snd e)) \<inter> available s = {}" by (auto simp: own_page_no_def)
    moreover have tp: "set (ctx_pages z @ leaf # entry_pages es) \<subseteq> set (tree_pages l) \<union> available s" using r(12) focus_pages [OF r(3)] by simp
    ultimately have di: "set (snd (snd e)) \<inter> set (ctx_pages z @ leaf # entry_pages es) = {}" using assms(9) by blast
    have fr: "3 \<le> length (frames t)" using r(8) assms(3) by (simp add: evolves_def)
    have fw: "focus crc t (tree_id ?w) z (TLeaf leaf es)" using r(3) by simp
    have "\<exists>y. insert_into_leaf crc debug (t, ?w) g leaf (rev (ctx_path z)) key rec (Some f) = Some y \<and>
        (inserted crc t (tree_id ?w) (ctx_left z @ map kv (before key es @ e # after key es) @ ctx_right z)
           (set (ctx_pages z @ leaf # entry_pages es) \<union> set (snd (snd e))) (2 * length z + 5) y \<or>
         \<not> plenty t (2 * length z + 5) \<and> refused y)"
      by (rule insert_into_leaf_step [OF assms(1) r(2) fr fw r(4,5) ce assms(6) r(6,7) assms(7,8) di assms(10)]) (use r(11) assms(11,12) in simp_all)
    then obtain y where y: "insert_into_leaf crc debug (t, ?w) g leaf (rev (ctx_path z)) key rec (Some f) = Some y"
        "inserted crc t (tree_id w) (before key (tree_entries l) @ kv e # after key (tree_entries l))
           (set (ctx_pages z @ leaf # entry_pages es) \<union> set (snd (snd e))) (2 * length z + 5) y \<or> \<not> plenty t (2 * length z + 5) \<and> refused y"
      unfolding focus_around [OF r(3,6,7)] r(10) by auto
    have "?run = Some y" using x(1) r(1) y(1) by (simp add: insert_descending_def)
    moreover have "inserted crc s (tree_id w) (before key (tree_entries l) @ kv e # after key (tree_entries l)) ?D ?n y"
      if "inserted crc t (tree_id w) (before key (tree_entries l) @ kv e # after key (tree_entries l))
           (set (ctx_pages z @ leaf # entry_pages es) \<union> set (snd (snd e))) (2 * length z + 5) y"
      by (rule inserted_mono [OF that r(8)]) (use tp r(9) in auto)
    moreover have "\<not> plenty s ?n" if "\<not> plenty t (2 * length z + 5)"
      using that plenty_evolves [OF _ r(8), of "2 * length z + 5"] plenty_mono [of s ?n "Suc (height l) + (2 * length z + 5)"] r(9) by auto
    ultimately show ?thesis using y(2) by blast
  next
    assume a: "\<not> plenty s (Suc (height l)) \<and> refused x"
    then have "\<not> plenty s ?n" using plenty_mono [of s ?n "Suc (height l)"] by auto
    moreover have "\<exists>y. ?run = Some y \<and> refused y" using a x(1) by (cases x; cases "snd x") (auto simp: insert_descending_def)
    ultimately show ?thesis by blast
  qed
qed

section \<open>At the append hint\<close>

lemma last_fits_leaf:
  assumes "leaf_image crc s tid hint es b"
  shows "last_fits crc tid hint key n b =
    Ok (if page_next_leaf b = 0 \<and> n + 4 \<le> free_space b \<and> es \<noteq> [] \<and> fst (List.last es) < key then Some () else None)"
proof (cases "es = []")
  case True
  then show ?thesis using assms leaf_image_entries(1) [OF assms] by (simp add: last_fits_def open_checked_leaf [OF assms] leaf_image_def)
next
  case False
  then have "key_at b (length es - 1) = Ok (fst (List.last es))"
    using leaf_image_entries(3,4) [OF assms, of "length es - 1"] by (simp add: key_at_def last_conv_nth)
  then show ?thesis using assms False leaf_image_entries(1) [OF assms] by (simp add: last_fits_def open_checked_leaf [OF assms] leaf_image_def)
qed

lemma above_all:
  fixes key :: bytes
  assumes "sorted_wrt (<) (map fst es)" "es \<noteq> []" "fst (List.last es) < key"
  shows "\<forall>e \<in> set es. fst e < key"
proof (cases es rule: rev_cases)
  case (snoc ys y)
  then have "\<forall>e \<in> set ys. fst e < fst y" "fst y < key" using assms(1,3) by (auto simp: sorted_wrt_append)
  then show ?thesis using snoc by (auto intro: less_trans)
qed (use assms(2) in simp)

text \<open>A hit is an append to the last leaf; a miss leaves the tree as it was.\<close>

definition hinted :: "crc_fn \<Rightarrow> pool \<Rightarrow> writer \<Rightarrow> bytes \<Rightarrow> bytes \<Rightarrow> tree \<Rightarrow> pool \<times> (nat \<times> unit) option kresult \<Rightarrow> bool" where
  "hinted crc s w key rec l x \<longleftrightarrow>
     (\<exists>t. x = (t, Ok None) \<and> idle crc t \<and> handles crc t w l \<and> evolves crc s t {} 0) \<or>
     (\<exists>t g b z es hint. x = (t, Ok (Some (g, ()))) \<and> last_leaf w = Some hint \<and> guarded crc t [(g, hint, b)] \<and> evolves crc s t {} 0 \<and>
        focus crc t (tree_id w) z (TLeaf hint es) \<and> plug z (TLeaf hint es) = l \<and> over (hole_lo z) key \<and> hole_hi z = None \<and>
        length rec + 4 \<le> free_space b \<and> (\<forall>e \<in> set es. fst e < key))"

lemma fast_path_step:
  assumes "idle crc s" "handles crc s w l" "hint_ok crc s w l" "last_leaf w = Some hint"
  shows "hinted crc s w key rec l (fast_path_leaf crc (tree_id w) s hint key rec)"
proof -
  obtain z es where z: "focus crc s (tree_id w) z (TLeaf hint es)" "plug z (TLeaf hint es) = l" using assms(3,4) unfolding hint_ok_def by blast
  note p = leaf_parts [OF z(1)]
  show ?thesis
  proof (cases "is_frozen s hint")
    case True
    then show ?thesis using assms(1,2) evolves_refl [OF p(1)] by (simp add: hinted_def fast_path_leaf_def probe_def)
  next
    case False
    obtain b0 where b0: "holds crc s hint b0" using z(1) by (auto simp: focus_def leaf_live_def)
    have gs: "guarded crc s []" "length [] < length (frames s)" using assms(1) by (simp_all add: idle_guarded)
    obtain g b t where t: "get_mut crc s hint = (t, Ok g)" "guarded crc t [(g, hint, b)]" "length (frames t) = length (frames s)" "reuse.truncate t = reuse.truncate s"
        "\<And>m c. holds crc s m c \<Longrightarrow> holds crc t m c" "\<And>n. extent_within n s \<Longrightarrow> extent_within n t"
      by (rule get_mut_guarded [OF gs _ b0 False]) auto
    have et: "evolves crc s t {} 0" by (rule evolves_truncate [OF p(1) t(4) _ t(3)]) (use t(5,6) in blast)+
    have ft: "focus crc t (tree_id w) z (TLeaf hint es)" by (rule focus_evolves [OF z(1) et]) simp
    note lg = leaf_guard [OF t(2) ft]
    let ?hit = "page_next_leaf b = 0 \<and> length rec + 4 \<le> free_space b \<and> es \<noteq> [] \<and> fst (List.last es) < key"
    have run: "fast_path_leaf crc (tree_id w) s hint key rec = (if ?hit then (t, Ok (Some (g, ()))) else drop_after g (t, Ok None))"
      using False t(1) last_fits_leaf [OF lg(2), of key "length rec"] by (simp add: fast_path_leaf_def probe_def lg(1))
    show ?thesis
    proof (cases ?hit)
      case True
      have "List.last es \<in> set es" using True by simp
      then have "over (hole_lo z) (fst (List.last es))" using p(5) by blast
      then have "over (hole_lo z) key" using True by (auto simp: over_def split: option.splits)
      moreover have "\<forall>e \<in> set es. fst e < key" using above_all [OF p(4)] True by blast
      ultimately show ?thesis using run True assms(4) t(2) et ft z(2) lg(4) unfolding hinted_def by fastforce
    next
      case miss: False
      obtain u where u: "drop_after g (t, Ok None) = (u, Ok None :: (nat \<times> unit) option kresult)" "guarded crc u []" "evolves crc t u {} 0"
        by (rule drop_after_guarded [OF t(2) evolves_ready [OF et], of "Ok None"]) blast
      have eu: "evolves crc s u {} 0" using evolves_trans [OF et u(3)] by simp
      have "idle crc u" by (rule idle_later [OF u(2) eu]) (use gs(2) in auto)
      moreover have "handles crc u w l" using assms(2) focus_evolves [OF _ eu, of "tree_id w" "[]" l] by (simp add: handles_def)
      ultimately show ?thesis using run miss u(1) eu by (auto simp: hinted_def)
    qed
  qed
qed

lemma insert_fast_step:
  assumes "guarded crc t [(g, hint, b)]" "focus crc t (tree_id w) z (TLeaf hint es)" "over (hole_lo z) key" "hole_hi z = None"
    and "length rec + 4 \<le> free_space b" "\<forall>e \<in> set es. fst e < key" "cell_holds crc t 0 rec e" "fst e = key" "length key \<le> key_cap"
    and "distinct (snd (snd e))" "set (snd (snd e)) \<inter> set (ctx_pages z @ hint # entry_pages es) = {}"
    and "root w = page_of (plug z (TLeaf hint es))" "tags w = None"
  shows "inserted crc t (tree_id w) (ctx_left z @ map kv (before key es @ e # after key es) @ ctx_right z) {hint} 0 (insert_fast (t, w) g hint rec)"
proof -
  note lg = leaf_guard [OF assms(1,2)] and p = leaf_parts [OF assms(2)]
  let ?es = "before key es @ e # after key es" and ?f = "\<lambda>b. obind (insert_record (nentries b) rec b) (\<lambda>b. Ok (b, ()))"
  have es: "before key es = es" "after key es = []" using assms(6) by (auto intro!: before_all before_none less_imp_le)
  obtain c where c: "insert_record (nentries b) rec b = Ok c" "page_is hint PageLeaf (tree_id w) (page_next_leaf b) c"
      "page_slots c = take (nentries b) (page_slots b) @ rec # drop (nentries b) (page_slots b)"
    by (rule insert_record_is [OF lg(3) order_refl assms(5)])
  have "list_all2 (cell_holds crc t hint) (page_slots b) es" using lg(2) by (simp add: leaf_image_def)
  then have la: "list_all2 (cell_holds crc t hint) (page_slots c) ?es"
    unfolding c(3) es using cell_holds_any [OF assms(7)] by (simp add: list_all2_appendI)
  have bd: "\<forall>x \<in> set ?es. over (hole_lo z) (fst x) \<and> under (hole_hi z) (fst x) \<and> length (fst x) \<le> key_cap"
    using p(5) assms(3,4,8,9) by (auto simp: es under_def)
  have di: "distinct (ctx_pages z @ hint # entry_pages ?es)" using distinct_put [of "ctx_pages z" hint es "[]" e] p(6) assms(10,11) by (simp add: es)
  obtain u where u: "edit_frame t g ?f = (u, Ok ())" "guarded crc u [(g, hint, c)]" "focus crc u (tree_id w) z (TLeaf hint ?es)" "evolves crc t u {hint} 0"
    by (rule leaf_edit [OF assms(1,2) _ c(2) la around_sorted(2) [OF p(4) assms(8)] bd di, of ?f "()"]) (use c(1) in simp)
  let ?w = "w\<lparr>last_leaf := Some hint\<rparr>"
  have fw: "focus crc u (tree_id ?w) z (TLeaf hint ?es)" "root ?w = page_of (plug z (TLeaf hint es))" "tags ?w = None" "last_leaf ?w = None \<or> last_leaf ?w = Some hint"
    using u(3) assms(12,13) by simp_all
  obtain v where v: "drop_after g (u, Ok ()) = (v, Ok ())" "inserted crc t (tree_id ?w) (ctx_left z @ map kv ?es @ ctx_right z) {hint} 0 ((v, ?w), Ok ())"
    by (rule in_leaf [OF u(2) fw u(4)])
  have "insert_fast (t, w) g hint rec = ((v, ?w), Ok ())" using u(1) v(1) by (simp add: insert_fast_def)
  then show ?thesis using v(2) by simp
qed

lemma insert_by_last_step:
  assumes "crc32c_crate crc" "idle crc s" "3 \<le> length (frames s)" "handles crc s w l" "hint_ok crc s w l"
    and "cell_holds crc s 0 rec e" "fst e = key" "length key \<le> key_cap" "distinct (snd (snd e))" "set (snd (snd e)) \<inter> set (tree_pages l) = {}"
    and "length rec \<le> MAX_RECORD_LEN" "tags w = None"
  shows "\<exists>x. insert_by_last crc debug (s, w) key rec = Some x \<and>
    (inserted crc s (tree_id w) (before key (tree_entries l) @ kv e # after key (tree_entries l)) (set (tree_pages l) \<union> set (snd (snd e))) (3 * height l + 6) x \<or>
     \<not> plenty s (3 * height l + 6) \<and> refused x)"
proof (cases "last_leaf w")
  case None
  then show ?thesis using insert_descending_step [OF assms(1-4,6-12), of debug] by (simp add: insert_by_last_def)
next
  case (Some hint)
  let ?kvs = "before key (tree_entries l) @ kv e # after key (tree_entries l)" and ?D = "set (tree_pages l) \<union> set (snd (snd e))" and ?n = "3 * height l + 6"
  let ?w = "w\<lparr>fast_path_attempts := fast_path_attempts w + 1\<rparr>" and ?run = "insert_by_last crc debug (s, w) key rec"
  have h: "handles crc s ?w l" "hint_ok crc s ?w l" "last_leaf ?w = Some hint" using assms(4,5) Some by (simp_all add: handles_def hint_ok_def)
  have "hinted crc s ?w key rec l (fast_path_leaf crc (tree_id w) s hint key rec)"
    using fast_path_step [OF assms(2) h, of key rec] by simp
  then consider (miss) t where "fast_path_leaf crc (tree_id w) s hint key rec = (t, Ok None)" "idle crc t" "handles crc t ?w l" "evolves crc s t {} 0"
    | (hit) t g b z es where "fast_path_leaf crc (tree_id w) s hint key rec = (t, Ok (Some (g, ())))" "guarded crc t [(g, hint, b)]" "evolves crc s t {} 0"
        "focus crc t (tree_id w) z (TLeaf hint es)" "plug z (TLeaf hint es) = l" "over (hole_lo z) key" "hole_hi z = None"
        "length rec + 4 \<le> free_space b" "\<forall>e \<in> set es. fst e < key"
    unfolding hinted_def using Some by auto
  then show ?thesis
  proof cases
    case miss
    let ?v = "?w\<lparr>last_leaf := None\<rparr>"
    have ce: "cell_holds crc t 0 rec e" by (rule cell_holds_evolves [OF assms(6) miss(4)]) simp
    have fr: "3 \<le> length (frames t)" using miss(4) assms(3) by (simp add: evolves_def)
    have hv: "handles crc t ?v l" "tags ?v = None" "last_leaf ?v = None" using miss(3) assms(12) by (simp_all add: handles_def)
    obtain x where x: "insert_descending crc debug (t, ?v) key rec = Some x" "inserted crc t (tree_id w) ?kvs ?D ?n x \<or> \<not> plenty t ?n \<and> refused x"
      using insert_descending_step [OF assms(1) miss(2) fr hv(1) ce assms(7-11) hv(2,3), of debug] by auto
    have "?run = Some x" using Some miss(1) x(1) by (simp add: insert_by_last_def)
    moreover have "inserted crc s (tree_id w) ?kvs ?D ?n x" if "inserted crc t (tree_id w) ?kvs ?D ?n x" by (rule inserted_mono [OF that miss(4)]) auto
    moreover have "\<not> plenty s ?n" if "\<not> plenty t ?n" using that plenty_evolves [OF _ miss(4), of ?n] by auto
    ultimately show ?thesis using x(2) by blast
  next
    case hit
    let ?v = "?w\<lparr>fast_path_hits := fast_path_hits w + 1\<rparr>"
    have ce: "cell_holds crc t 0 rec e" by (rule cell_holds_evolves [OF assms(6) hit(3)]) simp
    have tp: "set (tree_pages l) = set (ctx_pages z @ hint # entry_pages es)" using focus_pages [OF hit(4)] hit(5) by simp
    have fv: "focus crc t (tree_id ?v) z (TLeaf hint es)" using hit(4) by simp
    have ii: "inserted crc t (tree_id ?v) (ctx_left z @ map kv (before key es @ e # after key es) @ ctx_right z) {hint} 0 (insert_fast (t, ?v) g hint rec)"
      by (rule insert_fast_step [OF hit(2) fv hit(6-9) ce assms(7-9)]) (use assms(4,10,12) hit(5) tp in \<open>simp_all add: handles_def\<close>)
    have "under (hole_hi z) key" using hit(7) by (simp add: under_def)
    note fa = focus_around [OF hit(4,6) this, of e, unfolded hit(5)]
    have "inserted crc t (tree_id w) ?kvs {hint} 0 (insert_fast (t, ?v) g hint rec)" using ii unfolding fa by simp
    then have "inserted crc s (tree_id w) ?kvs ?D ?n (insert_fast (t, ?v) g hint rec)" by (rule inserted_mono [OF _ hit(3)]) (use tp in auto)
    moreover have "?run = Some (insert_fast (t, ?v) g hint rec)" using Some hit(1) by (simp add: insert_by_last_def)
    ultimately show ?thesis by blast
  qed
qed

section \<open>The insert\<close>

lemma btree_insert_step:
  assumes "crc32c_crate crc" "idle crc s" "3 \<le> length (frames s)" "handles crc s w l" "hint_ok crc s w l" "tags w = None"
    and "length key \<le> key_cap" "length val \<le> u32_max"
  shows "\<exists>x. btree_insert crc debug (s, w) key val = Some x \<and>
    (inserted crc s (tree_id w) (before key (tree_entries l) @ (key, val) # after key (tree_entries l)) (set (tree_pages l)) (length (spill val) + 3 * height l + 6) x \<or>
     \<not> plenty s (length (spill val) + 3 * height l + 6) \<and> refused x)"
proof -
  let ?c = "length (spill val)" and ?n = "length (spill val) + 3 * height l + 6" and ?m = "3 * height l + 6" and ?run = "btree_insert crc debug (s, w) key val"
  let ?kvs = "before key (tree_entries l) @ (key, val) # after key (tree_entries l)" and ?D = "set (tree_pages l)"
  have ar: "alloc_ready s" and na: "set (tree_pages l) \<inter> available s = {}"
    using assms(4) focus_unavailable [of crc s "tree_id w" "[]" l] by (auto simp: handles_def focus_def)
  consider (ok) t rec e where "encode_record crc debug s key val = (t, Ok rec)" "idle crc t" "evolves crc s t {} ?c" "cell_holds crc t 0 rec e"
      "kv e = (key, val)" "distinct (snd (snd e))" "set (snd (snd e)) \<subseteq> available s" "length rec \<le> MAX_RECORD_LEN"
    | (no) "\<not> plenty s ?c" "refused (encode_record crc debug s key val)"
    using encode_record_step [OF assms(2) ar assms(7,8), of debug 0] by blast
  then show ?thesis
  proof cases
    case ok
    have ke: "fst e = key" using ok(5) by (cases e) (simp add: kv_def)
    have di: "set (snd (snd e)) \<inter> set (tree_pages l) = {}" using ok(7) na by blast
    have ht: "handles crc t w l" "hint_ok crc t w l" using assms(4,5) focus_evolves [OF _ ok(3)] unfolding handles_def hint_ok_def by simp_all blast
    have fr: "3 \<le> length (frames t)" using ok(3) assms(3) by (simp add: evolves_def)
    obtain x where x: "insert_by_last crc debug (t, w) key rec = Some x"
        "inserted crc t (tree_id w) ?kvs (?D \<union> set (snd (snd e))) ?m x \<or> \<not> plenty t ?m \<and> refused x"
      using insert_by_last_step [OF assms(1) ok(2) fr ht ok(4) ke assms(7) ok(6) di ok(8) assms(6), of debug] unfolding ok(5) by blast
    have "?run = Some x" using ok(1,8) x(1) assms(6) by (simp add: btree_insert_def insert_record_at_def)
    moreover have "inserted crc s (tree_id w) ?kvs ?D ?n x" if "inserted crc t (tree_id w) ?kvs (?D \<union> set (snd (snd e))) ?m x"
      by (rule inserted_mono [OF that ok(3)]) (use ok(7) in auto)
    moreover have "\<not> plenty s ?n" if "\<not> plenty t ?m" using that plenty_evolves [OF _ ok(3), of ?m] by (auto simp: add.assoc)
    ultimately show ?thesis using x(2) by blast
  next
    case no
    have "\<not> plenty s ?n" using no(1) plenty_mono [of s ?n ?c] by auto
    moreover have "\<exists>x. ?run = Some x \<and> refused x"
      using no(2) by (cases "encode_record crc debug s key val"; cases "snd (encode_record crc debug s key val)") (auto simp: btree_insert_def)
    ultimately show ?thesis by blast
  qed
qed

text \<open>
  C1: An insert is an update of the key-value list. On an idle pool of at least three frames that holds
  a live tree, with the append hint on a leaf of it or unset, an insert of a key of at most 2018 bytes
  and a value of at most \<open>u32::MAX\<close> bytes returns, whatever splits it causes on the way up; it succeeds
  when there is no resource policy and the page numbers suffice. After a success the handle names a
  tree that is live in every page and whose entries are those before with the key set to the value, in
  order; the append hint again names a leaf of it; no guard is left; and every page outside the old
  tree that the allocator could not hand out reads as before.
\<close>

theorem btree_insert_correct:
  assumes "crc32c_crate crc" "idle crc s" "3 \<le> length (frames s)" "handles crc s w l" "hint_ok crc s w l" "tags w = None"
    and "length key \<le> key_cap" "length val \<le> u32_max"
  shows "\<exists>t w' r. btree_insert crc debug (s, w) key val = Some ((t, w'), r) \<and>
    (limits s = None \<and> next_page s + length (spill val) + 3 * height l + 6 \<le> u32_max \<longrightarrow> is_ok r) \<and>
    (is_ok r \<longrightarrow>
       (\<exists>l'. idle crc t \<and> handles crc t w' l' \<and> hint_ok crc t w' l' \<and> tree_id w' = tree_id w \<and>
          tree_entries l' = before key (tree_entries l) @ (key, val) # after key (tree_entries l) \<and>
          (\<forall>m d. m \<notin> set (tree_pages l) \<and> m \<notin> available s \<and> holds crc s m d \<longrightarrow> holds crc t m d)))"
proof -
  obtain x where x: "btree_insert crc debug (s, w) key val = Some x"
      "inserted crc s (tree_id w) (before key (tree_entries l) @ (key, val) # after key (tree_entries l)) (set (tree_pages l)) (length (spill val) + 3 * height l + 6) x \<or>
       \<not> plenty s (length (spill val) + 3 * height l + 6) \<and> refused x"
    using btree_insert_step [OF assms, of debug] by blast
  from x(2) show ?thesis
  proof
    assume "inserted crc s (tree_id w) (before key (tree_entries l) @ (key, val) # after key (tree_entries l)) (set (tree_pages l)) (length (spill val) + 3 * height l + 6) x"
    then obtain t w' T where t: "x = ((t, w'), Ok ())" "idle crc t" "handles crc t w' T" "hint_ok crc t w' T" "tree_id w' = tree_id w"
        "tree_entries T = before key (tree_entries l) @ (key, val) # after key (tree_entries l)"
        "evolves crc s t (set (tree_pages l)) (length (spill val) + 3 * height l + 6)"
      unfolding inserted_def by blast
    have "\<forall>m d. m \<notin> set (tree_pages l) \<and> m \<notin> available s \<and> holds crc s m d \<longrightarrow> holds crc t m d" using t(7) unfolding evolves_def by blast
    then show ?thesis using x(1) t(1-6) by (intro exI [of _ t] exI [of _ w'] exI [of _ "Ok ()"]) auto
  next
    assume "\<not> plenty s (length (spill val) + 3 * height l + 6) \<and> refused x"
    then show ?thesis using x(1) by (cases x; cases "snd x") (auto simp: refused_def plenty_def)
  qed
qed

lemma spill_small: "v \<noteq> [] \<Longrightarrow> length v \<le> OV_CAP \<Longrightarrow> spill v = [v]"
  by (subst spill_def, subst chunks.simps) (auto simp: ov_defs PAGE_SIZE_def)

theorem btree_insert_correct_witness:
  "\<exists>s w t w' r l'. idle crc32c_append s \<and> handles crc32c_append s w (TLeaf (root w) []) \<and>
     btree_insert crc32c_append False (s, w) [7] [9] = Some ((t, w'), r) \<and> is_ok r \<and> handles crc32c_append t w' l' \<and> tree_entries l' = [([7], [9])]"
proof -
  obtain s w where s: "idle crc32c_append s" "handles crc32c_append s w (TLeaf (root w) [])" "limits s = None" "next_page s \<le> 3"
      "tags w = None" "last_leaf w = None" "3 \<le> length (frames s)" by (rule sample_tree)
  have "hint_ok crc32c_append s w (TLeaf (root w) [])" using s(6) by (simp add: hint_ok_def)
  moreover have "length (spill [9]) = 1" using spill_small [of "[9]"] by (simp add: ov_defs PAGE_SIZE_def)
  ultimately show ?thesis
    using btree_insert_correct [OF castagnoli_crate s(1,7,2) _ s(5), of "[7]" "[9]" False] s(1-4) by (fastforce simp: key_cap_def before_def after_def)
qed

section \<open>A run of inserts\<close>

fun insert_all :: "crc_fn \<Rightarrow> bool \<Rightarrow> wstate \<Rightarrow> (bytes \<times> bytes) list \<Rightarrow> (wstate \<times> unit kresult) option" where
  "insert_all crc debug x [] = Some (x, Ok ())"
| "insert_all crc debug x ((key, val) # kvs) = then_may (btree_insert crc debug x key val) (\<lambda>x _. insert_all crc debug x kvs)"

lemma map_of_filter_key: "map_of (filter (\<lambda>e. P (fst e)) xs) k = (if P k then map_of xs k else None)"
  by (induction xs) auto

lemma map_of_around:
  fixes key :: bytes
  shows "map_of (before key xs @ (key, val) # after key xs) = (map_of xs)(key \<mapsto> val)"
proof
  fix k
  show "map_of (before key xs @ (key, val) # after key xs) k = ((map_of xs)(key \<mapsto> val)) k"
    using map_of_filter_key [of "\<lambda>k. k < key" xs k] map_of_filter_key [of "\<lambda>k. key < k" xs k] less_linear [of k key]
    by (auto simp: before_def after_def map_add_def split: option.splits)
qed

text \<open>A tree is no higher than it has pages, and its pages lie below the allocator's next number.\<close>

lemma height_pages: "height t < length (tree_pages t)"
proof (induction t rule: height.induct)
  case (2 no t0 kts)
  let ?c = "concat (map (\<lambda>(k, t). tree_pages t) kts)" and ?m = "Max (insert 0 (set (map (\<lambda>(k, t). height t) kts)))"
  have "height t \<le> length ?c" if kt: "(k, t) \<in> set kts" for k t
  proof -
    obtain xs ys where "kts = xs @ (k, t) # ys" using split_list [OF kt] by blast
    then show ?thesis using 2(2) [OF kt refl] by simp
  qed
  then have "?m \<le> length ?c" by (auto simp: case_prod_beta)
  then have "max (height t0) ?m < length (tree_pages t0) + length ?c" using 2(1) by (simp only: max_less_iff_conj) linarith
  then show ?case unfolding height.simps tree_pages.simps by (simp only: list.size length_append)
qed simp

lemma height_bound: "handles crc s w l \<Longrightarrow> height l \<le> next_page s"
proof -
  assume h: "handles crc s w l"
  then have d: "distinct (tree_pages l)" and "set (tree_pages l) \<inter> available s = {}"
    using focus_unavailable [of crc s "tree_id w" "[]" l] by (simp_all add: handles_def focus_def)
  then have "set (tree_pages l) \<subseteq> {..<next_page s}" by (fastforce simp: available_def)
  then have "length (tree_pages l) \<le> next_page s" using card_mono [of "{..<next_page s}" "set (tree_pages l)"] distinct_card [OF d] by simp
  then show ?thesis using height_pages [of l] by simp
qed

text \<open>
  Some insert of the run met a resource policy or had too few page numbers left for its spilled value
  and three times the height of a tree.
\<close>

definition exhausted :: "crc_fn \<Rightarrow> bool \<Rightarrow> wstate \<Rightarrow> (bytes \<times> bytes) list \<Rightarrow> bool" where
  "exhausted crc debug x kvs \<longleftrightarrow>
     (\<exists>xs k v ys t w. kvs = xs @ (k, v) # ys \<and> insert_all crc debug x xs = Some ((t, w), Ok ()) \<and>
        \<not> plenty t (length (spill v) + 3 * next_page t + 6))"

lemma insert_all_step:
  assumes "crc32c_crate crc" "idle crc s" "3 \<le> length (frames s)" "handles crc s w l" "hint_ok crc s w l" "tags w = None"
    and "\<forall>(k, v) \<in> set kvs. length k \<le> key_cap \<and> length v \<le> u32_max"
  shows "\<exists>x. insert_all crc debug (s, w) kvs = Some x \<and>
    ((\<exists>t w' l'. x = ((t, w'), Ok ()) \<and> idle crc t \<and> handles crc t w' l' \<and> map_of (tree_entries l') = map_of (rev kvs @ tree_entries l)) \<or>
     exhausted crc debug (s, w) kvs \<and> refused x)"
  using assms
proof (induction kvs arbitrary: s w l)
  case (Cons kv kvs)
  obtain key val where kv: "kv = (key, val)" by (cases kv)
  let ?n = "length (spill val) + 3 * height l + 6"
  have le: "length key \<le> key_cap" "length val \<le> u32_max" "\<forall>(k, v) \<in> set kvs. length k \<le> key_cap \<and> length v \<le> u32_max" using Cons.prems(7) by (auto simp: kv)
  obtain x where x: "btree_insert crc debug (s, w) key val = Some x"
      "inserted crc s (tree_id w) (before key (tree_entries l) @ (key, val) # after key (tree_entries l)) (set (tree_pages l)) ?n x \<or> \<not> plenty s ?n \<and> refused x"
    using btree_insert_step [OF Cons.prems(1-6) le(1,2), of debug] by blast
  from x(2) show ?case
  proof
    assume "inserted crc s (tree_id w) (before key (tree_entries l) @ (key, val) # after key (tree_entries l)) (set (tree_pages l)) ?n x"
    then obtain t w' T where t: "x = ((t, w'), Ok ())" "idle crc t" "handles crc t w' T" "hint_ok crc t w' T" "tags w' = None"
        "tree_entries T = before key (tree_entries l) @ (key, val) # after key (tree_entries l)" "evolves crc s t (set (tree_pages l)) ?n"
      unfolding inserted_def by blast
    have fr: "3 \<le> length (frames t)" using t(7) Cons.prems(3) by (simp add: evolves_def)
    have run: "insert_all crc debug (s, w) ((key, val) # ks) = insert_all crc debug (t, w') ks" for ks using x(1) t(1) by simp
    have ex: "exhausted crc debug (s, w) ((key, val) # kvs)" if "exhausted crc debug (t, w') kvs"
      using that run unfolding exhausted_def by (metis append_Cons)
    have m: "map_of (rev ((key, val) # kvs) @ tree_entries l) = map_of (rev kvs @ tree_entries T)"
      using map_of_around [of key "tree_entries l" val] by (simp add: t(6))
    show ?thesis using Cons.IH [OF Cons.prems(1) t(2) fr t(3-5) le(3)] ex unfolding kv run m by blast
  next
    assume a: "\<not> plenty s ?n \<and> refused x"
    then have "\<not> plenty s (length (spill val) + 3 * next_page s + 6)"
      using plenty_mono [of s "length (spill val) + 3 * next_page s + 6" ?n] height_bound [OF Cons.prems(4)] by auto
    then have "exhausted crc debug (s, w) (kv # kvs)" unfolding exhausted_def kv
      by - (rule exI [of _ "[]"], rule exI [of _ key], rule exI [of _ val], rule exI [of _ kvs], auto)
    moreover have "\<exists>y. insert_all crc debug (s, w) (kv # kvs) = Some y \<and> refused y" using a x(1) by (cases x; cases "snd x") (auto simp: kv)
    ultimately show ?thesis by blast
  qed
qed auto

lemma handled_get:
  assumes "idle crc s" "handles crc s w l"
  shows "\<exists>t. btree_get crc s (btree.truncate w) key = Some (t, Ok (map_of (tree_entries l) key)) \<and> reads_only crc s t"
proof -
  have "live crc s (tree_id w) None None l" "root w = page_of l" using assms(2) by (simp_all add: handles_def focus_def)
  then show ?thesis using btree_get_stored [OF assms(1), of "btree.truncate w" l key] live_stored live_ordered by (simp add: btree.truncate_def)
qed

end
