(* ===== verification/Utf8.thy ===== *)
theory Utf8
  imports Prelude "HOL-Library.Sublist"
begin

text \<open>
  Rust's text: a \<open>char\<close> is a Unicode scalar value, a \<open>str\<close> a sequence of them stored as UTF-8. The
  encoder and the checked decoder (\<open>as_bytes\<close>, \<open>String::from_utf8\<close>), that they are inverse to each
  other, and that UTF-8 synchronises itself: the bytes of one string occur inside those of another
  exactly where its characters do.
\<close>

type_synonym uchar = nat

definition is_scalar :: "uchar \<Rightarrow> bool" where
  "is_scalar c \<longleftrightarrow> c < 0x110000 \<and> \<not> (0xD800 \<le> c \<and> c < 0xE000)"

definition utf8_cont :: "nat \<Rightarrow> byte" where
  "utf8_cont n = word_of_nat (0x80 + n mod 64)"

definition utf8_char :: "uchar \<Rightarrow> bytes" where
  "utf8_char c =
     (if c < 0x80 then [word_of_nat c]
      else if c < 0x800 then [word_of_nat (0xC0 + c div 64), utf8_cont c]
      else if c < 0x10000 then [word_of_nat (0xE0 + c div 4096), utf8_cont (c div 64), utf8_cont c]
      else [word_of_nat (0xF0 + c div 262144), utf8_cont (c div 4096), utf8_cont (c div 64), utf8_cont c])"

definition utf8_bytes :: "uchar list \<Rightarrow> bytes" where
  "utf8_bytes cs = concat (map utf8_char cs)"

definition cont_of :: "byte \<Rightarrow> nat" where
  "cont_of b = unat b - 0x80"

definition char_head :: "bytes \<Rightarrow> nat \<times> uchar" where
  "char_head bs =
     (let b = unat (bs ! 0); at = (\<lambda>i. cont_of (bs ! i)) in
      if b < 0x80 then (1, b)
      else if b < 0xE0 then (2, (b - 0xC0) * 64 + at 1)
      else if b < 0xF0 then (3, (b - 0xE0) * 4096 + at 1 * 64 + at 2)
      else (4, (b - 0xF0) * 262144 + at 1 * 4096 + at 2 * 64 + at 3))"

definition next_char :: "bytes \<Rightarrow> (uchar \<times> bytes) option" where
  "next_char bs =
     (if bs = [] then None
      else case char_head bs of (n, c) \<Rightarrow>
        if is_scalar c \<and> take n bs = utf8_char c then Some (c, drop n bs) else None)"

lemma next_char_Some:
  assumes "next_char bs = Some (c, rest)"
  shows "is_scalar c \<and> bs = utf8_char c @ rest"
proof -
  obtain n where "is_scalar c" "take n bs = utf8_char c" "rest = drop n bs"
    using assms by (auto simp: next_char_def split: prod.splits if_splits)
  then show ?thesis by (metis append_take_drop_id)
qed

lemma utf8_char_neq_Nil [simp]: "utf8_char c \<noteq> []" "[] \<noteq> utf8_char c"
  by (simp_all add: utf8_char_def)

lemma length_next_char: "next_char bs = Some (c, rest) \<Longrightarrow> length rest < length bs"
  by (frule next_char_Some) (auto simp flip: length_greater_0_conv)

function from_utf8 :: "bytes \<Rightarrow> uchar list option" where
  "from_utf8 bs =
     (if bs = [] then Some []
      else case next_char bs of None \<Rightarrow> None | Some (c, rest) \<Rightarrow> map_option (Cons c) (from_utf8 rest))"
  by pat_completeness auto
termination by (relation "measure length") (auto intro: length_next_char)

declare from_utf8.simps [simp del]

lemma from_utf8_Nil [simp]: "from_utf8 [] = Some []"
  by (simp add: from_utf8.simps)

lemma unat_byte_small: "n < 256 \<Longrightarrow> unat (word_of_nat n :: byte) = n"
  by simp

lemma unat_utf8_cont: "unat (utf8_cont n) = 0x80 + n mod 64"
proof -
  have "n mod 64 < 64" by simp
  then have "0x80 + n mod 64 < 256" by linarith
  then show ?thesis unfolding utf8_cont_def by (rule unat_byte_small)
qed

lemma cont_of_utf8_cont [simp]: "cont_of (utf8_cont n) = n mod 64"
  unfolding cont_of_def unat_utf8_cont by simp

lemma utf8_char_shape:
  assumes "is_scalar c"
  obtains b cs where "utf8_char c = b # map utf8_cont cs" "unat b < 0x80 \<or> 0xC0 \<le> unat b"
proof -
  have c: "c < 0x110000" using assms by (simp add: is_scalar_def)
  consider (one) "c < 0x80" | (two) "0x80 \<le> c" "c < 0x800" | (three) "0x800 \<le> c" "c < 0x10000" | (four) "0x10000 \<le> c"
    by linarith
  then show thesis
  proof cases
    case one
    then show ?thesis by (intro that [of "word_of_nat c" "[]"]) (simp_all add: utf8_char_def)
  next
    case two
    have "0xC0 + c div 64 < 256" using two by auto
    then show ?thesis
      using two by (intro that [of "word_of_nat (0xC0 + c div 64)" "[c]"]) (simp_all add: utf8_char_def unat_byte_small del: unat_byte_of_nat of_nat_add)
  next
    case three
    have "0xE0 + c div 4096 < 256" using three by auto
    then show ?thesis
      using three by (intro that [of "word_of_nat (0xE0 + c div 4096)" "[c div 64, c]"]) (simp_all add: utf8_char_def unat_byte_small del: unat_byte_of_nat of_nat_add)
  next
    case four
    have "0xF0 + c div 262144 < 256" using c by auto
    then show ?thesis
      using four by (intro that [of "word_of_nat (0xF0 + c div 262144)" "[c div 4096, c div 64, c]"]) (simp_all add: utf8_char_def unat_byte_small del: unat_byte_of_nat of_nat_add)
  qed
qed

lemma next_char_utf8:
  assumes "is_scalar c"
  shows "next_char (utf8_char c @ rest) = Some (c, rest)"
proof -
  have c: "c < 0x110000" using assms by (simp add: is_scalar_def)
  consider (one) "c < 0x80" | (two) "0x80 \<le> c" "c < 0x800" | (three) "0x800 \<le> c" "c < 0x10000" | (four) "0x10000 \<le> c"
    by linarith
  then show ?thesis
  proof cases
    case one
    then show ?thesis using assms by (simp add: next_char_def char_head_def utf8_char_def)
  next
    case two
    define b where "b = 0xC0 + c div 64"
    have b: "b < 0xE0" "0x80 \<le> b" "(b - 0xC0) * 64 + c mod 64 = c" using two by (auto simp: b_def)
    have u: "utf8_char c = [word_of_nat b, utf8_cont c]" using two by (simp add: utf8_char_def b_def)
    have ub: "unat (word_of_nat b :: byte) = b" using b(1) by (intro unat_byte_small) simp
    show ?thesis using assms b by (simp add: next_char_def char_head_def u ub del: unat_byte_of_nat)
  next
    case three
    define b where "b = 0xE0 + c div 4096"
    have m: "(b - 0xE0) * 4096 + (c div 64 mod 64) * 64 + c mod 64 = c"
    proof -
      have "c = c div 64 * 64 + c mod 64" "c div 64 = c div 64 div 64 * 64 + c div 64 mod 64" by simp_all
      moreover have "c div 64 div 64 = c div 4096" by (simp add: div_mult2_eq [symmetric])
      ultimately show ?thesis unfolding b_def diff_add_inverse by linarith
    qed
    have b: "b < 0xF0" "0xE0 \<le> b" using three by (auto simp: b_def)
    have u: "utf8_char c = [word_of_nat b, utf8_cont (c div 64), utf8_cont c]" using three by (simp add: utf8_char_def b_def)
    have ub: "unat (word_of_nat b :: byte) = b" using b(1) by (intro unat_byte_small) simp
    show ?thesis using assms b m by (simp add: next_char_def char_head_def u ub del: unat_byte_of_nat)
  next
    case four
    define b where "b = 0xF0 + c div 262144"
    have m: "(b - 0xF0) * 262144 + (c div 4096 mod 64) * 4096 + (c div 64 mod 64) * 64 + c mod 64 = c"
    proof -
      have "c = c div 64 * 64 + c mod 64" "c div 64 = c div 64 div 64 * 64 + c div 64 mod 64"
        "c div 4096 = c div 4096 div 64 * 64 + c div 4096 mod 64" by simp_all
      moreover have "c div 64 div 64 = c div 4096" "c div 4096 div 64 = c div 262144" by (simp_all add: div_mult2_eq [symmetric])
      ultimately show ?thesis unfolding b_def diff_add_inverse by linarith
    qed
    have b: "b < 256" "0xF0 \<le> b" using c by (auto simp: b_def)
    have u: "utf8_char c = [word_of_nat b, utf8_cont (c div 4096), utf8_cont (c div 64), utf8_cont c]"
      using four by (simp add: utf8_char_def b_def)
    have ub: "unat (word_of_nat b :: byte) = b" using b(1) by (intro unat_byte_small)
    have n3: "(x # y # z # [w] @ rest) ! 3 = w" for x y z w :: byte by (simp add: numeral_3_eq_3)
    show ?thesis using assms b m n3 by (simp add: next_char_def char_head_def u ub del: unat_byte_of_nat)
  qed
qed

text \<open>The codec is a bijection between strings of scalar values and well-formed byte strings.\<close>

lemma utf8_bytes_simps [simp]:
  "utf8_bytes [] = []" "utf8_bytes (c # cs) = utf8_char c @ utf8_bytes cs"
  "utf8_bytes (cs @ ds) = utf8_bytes cs @ utf8_bytes ds"
  by (simp_all add: utf8_bytes_def)

lemma utf8_bytes_Nil_iff [simp]: "utf8_bytes cs = [] \<longleftrightarrow> cs = []"
  by (cases cs) simp_all

lemma from_utf8_bytes: "list_all is_scalar cs \<Longrightarrow> from_utf8 (utf8_bytes cs) = Some cs"
  by (induction cs) (subst from_utf8.simps, simp add: next_char_utf8)+

lemma from_utf8_Some: "from_utf8 bs = Some cs \<Longrightarrow> utf8_bytes cs = bs \<and> list_all is_scalar cs"
proof (induction bs arbitrary: cs rule: from_utf8.induct)
  case (1 bs)
  show ?case
  proof (cases "bs = []")
    case True
    then show ?thesis using 1(2) by auto
  next
    case False
    then obtain c rest ds where n: "next_char bs = Some (c, rest)" "from_utf8 rest = Some ds" "cs = c # ds"
      using 1(2) by (subst (asm) from_utf8.simps) (auto split: option.splits)
    then show ?thesis using 1(1) [OF False n(1) refl n(2)] next_char_Some [OF n(1)] by simp
  qed
qed

lemma utf8_bytes_inject: "list_all is_scalar cs \<Longrightarrow> list_all is_scalar ds \<Longrightarrow> utf8_bytes cs = utf8_bytes ds \<longleftrightarrow> cs = ds"
  by (metis from_utf8_bytes option.inject)

section \<open>Self-synchronisation\<close>

lemma utf8_char_cancel:
  assumes "is_scalar c" "is_scalar d" "utf8_char c @ u = utf8_char d @ v"
  shows "c = d \<and> u = v"
proof -
  have "Some (c, u) = Some (d, v)"
    unfolding next_char_utf8 [OF assms(1), of u, symmetric] next_char_utf8 [OF assms(2), of v, symmetric] assms(3) ..
  then show ?thesis by simp
qed

lemma utf8_bytes_prefix:
  assumes "list_all is_scalar cs" "list_all is_scalar ds" "utf8_bytes cs = utf8_bytes ds @ v"
  shows "prefix ds cs"
  using assms
proof (induction ds arbitrary: cs)
  case (Cons d ds)
  then obtain c cs' where c: "cs = c # cs'" by (cases cs) auto
  have "c = d \<and> utf8_bytes cs' = utf8_bytes ds @ v"
    using Cons.prems c by (intro utf8_char_cancel) auto
  then show ?case using Cons c by simp
qed simp

lemma utf8_bytes_factor:
  assumes "list_all is_scalar cs" "list_all is_scalar ds" "utf8_bytes cs = u @ utf8_bytes ds @ v"
  shows "sublist ds cs"
  using assms
proof (induction cs arbitrary: u)
  case Nil
  then show ?case by auto
next
  case (Cons c cs)
  consider "u = []" | "ds = []" | (long) "length (utf8_char c) \<le> length u" | (mid) "u \<noteq> []" "ds \<noteq> []" "length u < length (utf8_char c)"
    by linarith
  then show ?case
  proof cases
    case 1
    then show ?thesis using Cons.prems utf8_bytes_prefix [of "c # cs" ds v] by (auto intro: prefix_imp_sublist)
  next
    case 2
    then show ?thesis by simp
  next
    case long
    have e: "utf8_char c @ utf8_bytes cs = u @ utf8_bytes ds @ v" using Cons.prems(3) by simp
    obtain w where "u = utf8_char c @ w" using append_eq_append_conv2 e long
      by (metis append_eq_append_conv_if append_take_drop_id)
    then have "sublist ds cs" using Cons e by auto
    then show ?thesis by (auto simp: sublist_Cons_right)
  next
    case mid
    have sc: "is_scalar c" using Cons.prems(1) by simp
    obtain b ks where s: "utf8_char c = b # map utf8_cont ks" by (rule utf8_char_shape [OF sc])
    obtain d ds' where d: "ds = d # ds'" using mid(2) by (cases ds) auto
    have sd: "is_scalar d" using Cons.prems(2) d by simp
    obtain b' ks' where t: "utf8_char d = b' # map utf8_cont ks'" "unat b' < 0x80 \<or> 0xC0 \<le> unat b'"
      by (rule utf8_char_shape [OF sd])
    have e: "utf8_char c @ utf8_bytes cs = u @ b' # map utf8_cont ks' @ utf8_bytes ds' @ v"
      using Cons.prems(3) d t by simp
    have "b' = (utf8_char c @ utf8_bytes cs) ! length u" unfolding e by (simp add: nth_append)
    also have "\<dots> = utf8_char c ! length u" using mid(3) by (simp add: nth_append)
    also have "\<dots> = utf8_cont (ks ! (length u - 1))" using mid(1,3) s by (cases "length u") auto
    finally have "unat b' = 0x80 + ks ! (length u - 1) mod 64" by (simp add: unat_utf8_cont)
    moreover have "ks ! (length u - 1) mod 64 < 64" by simp
    ultimately show ?thesis using t(2) by linarith
  qed
qed

lemma sublist_utf8_bytes:
  assumes "list_all is_scalar cs" "list_all is_scalar ds"
  shows "sublist (utf8_bytes ds) (utf8_bytes cs) \<longleftrightarrow> sublist ds cs"
proof
  assume "sublist ds cs"
  then obtain u v where "cs = u @ ds @ v" by (auto simp: sublist_def)
  then have "utf8_bytes cs = utf8_bytes u @ utf8_bytes ds @ utf8_bytes v" by simp
  then show "sublist (utf8_bytes ds) (utf8_bytes cs)" unfolding sublist_def by blast
qed (use utf8_bytes_factor [OF assms] in \<open>auto simp: sublist_def\<close>)

end
