(* ===== verification/Like.thy ===== *)
theory Like
  imports Utf8
begin

text \<open>
  \<open>LIKE\<close> and \<open>ILIKE\<close> over one text field (core/engine/src/query/like.rs): a pattern is compiled to
  tokens, the common shapes are answered by substring search, anything else by a wildcard walk that
  backtracks only to the last \<open>%\<close>. The theory shows that every shape and the walk decide the same
  relation, PostgreSQL's, and how many steps the walk takes.
\<close>

section \<open>Data\<close>

datatype token = TokChar uchar | TokOne | TokMany

datatype shape =
    AnyText
  | Exact "uchar list"
  | Prefix "uchar list"
  | Suffix "uchar list"
  | Contains "uchar list"
  | General "token list"

text \<open>A compiled pattern; \<open>Finder::new\<close> keeps the needle's bytes.\<close>

record like_matcher =
  matcher_shape :: shape
  insensitive :: bool
  finder :: "bytes option"

text \<open>
  What the module uses of its surroundings: \<open>memchr::memmem\<close>'s substring search (needle, haystack),
  and the Unicode tables behind \<open>char::to_lowercase\<close> and \<open>str::to_lowercase\<close>.
\<close>

locale memmem_crate =
  fixes find_bytes :: "bytes \<Rightarrow> bytes \<Rightarrow> nat option"
  assumes find_iff: "find_bytes needle hay \<noteq> None \<longleftrightarrow> sublist needle hay"

definition ascii_lower :: "uchar \<Rightarrow> uchar" where
  "ascii_lower c = (if 65 \<le> c \<and> c \<le> 90 then c + 32 else c)"

definition is_ascii :: "uchar list \<Rightarrow> bool" where
  "is_ascii text \<longleftrightarrow> list_all (\<lambda>c. c < 128) text"

locale unicode_tables =
  fixes char_lower :: "uchar \<Rightarrow> uchar list" and str_lower :: "uchar list \<Rightarrow> uchar list"
  assumes str_lower_ascii: "is_ascii text \<Longrightarrow> str_lower text = map ascii_lower text"
    and char_lower_scalar: "is_scalar c \<Longrightarrow> list_all is_scalar (char_lower c)"
    and str_lower_scalar: "list_all is_scalar text \<Longrightarrow> list_all is_scalar (str_lower text)"

section \<open>Compiling a pattern\<close>

definition push_char :: "(uchar \<Rightarrow> uchar list) \<Rightarrow> bool \<Rightarrow> token list \<Rightarrow> uchar \<Rightarrow> token list" where
  "push_char char_lower ins tokens c = tokens @ (if ins then map TokChar (char_lower c) else [TokChar c])"

fun compile_tokens :: "(uchar \<Rightarrow> uchar list) \<Rightarrow> uchar option \<Rightarrow> bool \<Rightarrow> token list \<Rightarrow> uchar list \<Rightarrow> (string, token list) outcome" where
  "compile_tokens char_lower esc ins tokens [] = Ok tokens"
| "compile_tokens char_lower esc ins tokens (c # cs) =
     (if Some c = esc then
        (case cs of
           [] \<Rightarrow> Err ''LIKE pattern must not end with escape character''
         | d # ds \<Rightarrow> compile_tokens char_lower esc ins (push_char char_lower ins tokens d) ds)
      else if c = 0x25 then
        compile_tokens char_lower esc ins (if tokens \<noteq> [] \<and> last tokens = TokMany then tokens else tokens @ [TokMany]) cs
      else if c = 0x5F then compile_tokens char_lower esc ins (tokens @ [TokOne]) cs
      else compile_tokens char_lower esc ins (push_char char_lower ins tokens c) cs)"

fun literal :: "token list \<Rightarrow> uchar list option" where
  "literal [] = Some []"
| "literal (TokChar c # ts) = map_option (Cons c) (literal ts)"
| "literal (_ # ts) = None"

definition shape_of :: "token list \<Rightarrow> shape" where
  "shape_of tokens =
     (if list_all (\<lambda>t. t = TokMany) tokens then if tokens = [] then Exact [] else AnyText
      else let starts = (hd tokens = TokMany); ends = (last tokens = TokMany);
               inner = slice tokens (of_bool starts) (length tokens - of_bool ends)
           in case (starts, ends, literal inner) of
                (False, False, Some s) \<Rightarrow> Exact s
              | (False, True, Some s) \<Rightarrow> Prefix s
              | (True, False, Some s) \<Rightarrow> Suffix s
              | (True, True, Some s) \<Rightarrow> Contains s
              | _ \<Rightarrow> General tokens)"

definition like_compile :: "(uchar \<Rightarrow> uchar list) \<Rightarrow> uchar list \<Rightarrow> uchar option \<Rightarrow> bool \<Rightarrow> (string, like_matcher) outcome" where
  "like_compile char_lower pattern esc ins =
     obind (compile_tokens char_lower esc ins [] pattern) (\<lambda>tokens.
     let sh = shape_of tokens in
     Ok \<lparr>matcher_shape = sh, insensitive = ins,
         finder = (case sh of Contains s \<Rightarrow> Some (utf8_bytes s) | _ \<Rightarrow> None)\<rparr>)"

section \<open>Matching\<close>

text \<open>
  The loop of \<open>wildcard\<close>: \<open>t\<close> and \<open>p\<close> index the text and the pattern, \<open>star\<close> is the last \<open>%\<close> and the
  text position it was entered with. The final slice panics when \<open>p\<close> is past the pattern.
\<close>

definition token_at :: "token list \<Rightarrow> nat \<Rightarrow> token option" where
  "token_at tokens p = (if p < length tokens then Some (tokens ! p) else None)"

function wildcard_loop :: "token list \<Rightarrow> uchar list \<Rightarrow> nat \<Rightarrow> nat \<Rightarrow> (nat \<times> nat) option \<Rightarrow> (string, bool) outcome" where
  "wildcard_loop tokens text t p star =
     (if t < length text then
        if token_at tokens p = Some TokMany then wildcard_loop tokens text t (p + 1) (Some (p, t))
        else if token_at tokens p = Some TokOne \<or> token_at tokens p = Some (TokChar (text ! t))
        then wildcard_loop tokens text (t + 1) (p + 1) star
        else (case star of
                Some (sp, st) \<Rightarrow> wildcard_loop tokens text (st + 1) (sp + 1) (Some (sp, st + 1))
              | None \<Rightarrow> Ok False)
      else if p \<le> length tokens then Ok (list_all (\<lambda>t. t = TokMany) (drop p tokens)) else Panic)"
  by pat_completeness auto

text \<open>A star position is moved forward at every backtrack, and every new star lies behind the old one.\<close>

termination
  by (relation "measures
       [\<lambda>(tokens, text, t, p, star). case star of Some (sp, st) \<Rightarrow> of_bool (p \<le> sp) | None \<Rightarrow> 0,
        \<lambda>(tokens, text, t, p, star). case star of Some (sp, st) \<Rightarrow> length tokens - sp | None \<Rightarrow> length tokens + 1,
        \<lambda>(tokens, text, t, p, star). case star of Some (sp, st) \<Rightarrow> length text - st | None \<Rightarrow> 0,
        \<lambda>(tokens, text, t, p, star). length text - t]")
    (auto simp: token_at_def split: option.splits if_splits)

declare wildcard_loop.simps [simp del]

definition wildcard :: "token list \<Rightarrow> uchar list \<Rightarrow> (string, bool) outcome" where
  "wildcard tokens text = wildcard_loop tokens text 0 0 None"

definition matches_folded :: "(bytes \<Rightarrow> bytes \<Rightarrow> nat option) \<Rightarrow> like_matcher \<Rightarrow> uchar list \<Rightarrow> (string, bool) outcome" where
  "matches_folded find_bytes m text =
     (case matcher_shape m of
        AnyText \<Rightarrow> Ok True
      | Exact s \<Rightarrow> Ok (text = s)
      | Prefix s \<Rightarrow> Ok (prefix s text)
      | Suffix s \<Rightarrow> Ok (suffix s text)
      | Contains s \<Rightarrow>
          (case finder m of
             Some needle \<Rightarrow> Ok (find_bytes needle (utf8_bytes text) \<noteq> None)
           | None \<Rightarrow> Ok (sublist s text))
      | General tokens \<Rightarrow> wildcard tokens text)"

definition like_matches :: "(uchar list \<Rightarrow> uchar list) \<Rightarrow> (bytes \<Rightarrow> bytes \<Rightarrow> nat option) \<Rightarrow> like_matcher \<Rightarrow> uchar list \<Rightarrow> (string, bool) outcome" where
  "like_matches str_lower find_bytes m text =
     (if \<not> insensitive m then matches_folded find_bytes m text
      else if is_ascii text then matches_folded find_bytes m (map ascii_lower text)
      else matches_folded find_bytes m (str_lower text))"

section \<open>The relation a token list denotes\<close>

fun like_tokens :: "token list \<Rightarrow> uchar list \<Rightarrow> bool" where
  "like_tokens [] xs \<longleftrightarrow> xs = []"
| "like_tokens (TokChar c # ts) xs \<longleftrightarrow> xs \<noteq> [] \<and> hd xs = c \<and> like_tokens ts (tl xs)"
| "like_tokens (TokOne # ts) xs \<longleftrightarrow> xs \<noteq> [] \<and> like_tokens ts (tl xs)"
| "like_tokens (TokMany # ts) xs \<longleftrightarrow> list_ex (\<lambda>k. like_tokens ts (drop k xs)) [0..<Suc (length xs)]"

lemma like_Many: "like_tokens (TokMany # ts) xs \<longleftrightarrow> (\<exists>k \<le> length xs. like_tokens ts (drop k xs))"
  unfolding like_tokens.simps(4) list_ex_iff set_upt by (meson atLeastLessThan_iff le0 less_Suc_eq_le)

lemma like_Many_split: "like_tokens (TokMany # ts) xs \<longleftrightarrow> (\<exists>us vs. xs = us @ vs \<and> like_tokens ts vs)"
proof
  assume "like_tokens (TokMany # ts) xs"
  then obtain k where "like_tokens ts (drop k xs)" unfolding like_Many by blast
  then show "\<exists>us vs. xs = us @ vs \<and> like_tokens ts vs" by (metis append_take_drop_id)
next
  assume "\<exists>us vs. xs = us @ vs \<and> like_tokens ts vs"
  then obtain us vs where "xs = us @ vs" "like_tokens ts vs" by blast
  then show "like_tokens (TokMany # ts) xs" unfolding like_Many by (intro exI [of _ "length us"]) simp
qed

declare like_tokens.simps(2,3,4) [simp del]

lemma like_Char: "like_tokens (TokChar c # ts) xs \<longleftrightarrow> (\<exists>ys. xs = c # ys \<and> like_tokens ts ys)"
  by (cases xs) (auto simp: like_tokens.simps)

lemma like_One: "like_tokens (TokOne # ts) xs \<longleftrightarrow> (\<exists>x ys. xs = x # ys \<and> like_tokens ts ys)"
  by (cases xs) (auto simp: like_tokens.simps)

lemma like_append: "like_tokens (as @ bs) xs \<longleftrightarrow> (\<exists>us vs. xs = us @ vs \<and> like_tokens as us \<and> like_tokens bs vs)"
proof (induction as arbitrary: xs)
  case (Cons a as)
  show ?case
  proof (cases a)
    case TokMany
    show ?thesis unfolding TokMany append_Cons like_Many_split Cons by (metis append.assoc)
  next
    case (TokChar c)
    show ?thesis unfolding TokChar append_Cons like_Char Cons by (metis append_Cons)
  next
    case TokOne
    show ?thesis unfolding TokOne append_Cons like_One Cons by (metis append_Cons)
  qed
qed simp

lemma like_One_end: "like_tokens (ts @ [TokOne]) us \<longleftrightarrow> (\<exists>vs x. us = vs @ [x] \<and> like_tokens ts vs)"
  unfolding like_append like_One by (metis append_Nil2 like_tokens.simps(1))

lemma like_literal: "like_tokens (map TokChar s) xs \<longleftrightarrow> xs = s"
proof (induction s arbitrary: xs)
  case (Cons c s)
  show ?case unfolding list.map like_Char Cons by blast
qed simp

lemma like_Many_only: "like_tokens [TokMany] xs"
  unfolding like_Many by (intro exI [of _ "length xs"]) simp

lemma like_Nil_iff: "like_tokens ts [] \<longleftrightarrow> list_all (\<lambda>t. t = TokMany) ts"
proof (induction ts)
  case (Cons t ts)
  then show ?case by (cases t) (simp_all add: like_Many like_Char like_One)
qed simp

section \<open>The walk\<close>

text \<open>
  What the loop keeps: the tokens since the star are matched one to one with the text since its
  position, and the text matches the pattern exactly when the rest does from here, or from a later
  position of the star.
\<close>

definition walk_inv :: "token list \<Rightarrow> uchar list \<Rightarrow> nat \<Rightarrow> nat \<Rightarrow> (nat \<times> nat) option \<Rightarrow> bool" where
  "walk_inv tokens text t p star \<longleftrightarrow>
     p \<le> length tokens \<and> t \<le> length text \<and>
     (case star of
        None \<Rightarrow> True
      | Some (sp, st) \<Rightarrow> sp < p \<and> st + (p - Suc sp) = t \<and> (\<forall>i. sp < i \<and> i < p \<longrightarrow> tokens ! i \<noteq> TokMany))"

definition walk_ahead :: "token list \<Rightarrow> uchar list \<Rightarrow> nat \<Rightarrow> nat \<Rightarrow> (nat \<times> nat) option \<Rightarrow> bool" where
  "walk_ahead tokens text t p star \<longleftrightarrow>
     like_tokens (drop p tokens) (drop t text) \<or>
     (case star of
        None \<Rightarrow> False
      | Some (sp, st) \<Rightarrow> \<exists>k > st. k \<le> length text \<and> like_tokens (drop (Suc sp) tokens) (drop k text))"

text \<open>Tokens other than \<open>%\<close> consume one character each.\<close>

lemma like_single_tokens:
  assumes "TokMany \<notin> set as" "like_tokens (as @ bs) xs"
  shows "length as \<le> length xs \<and> like_tokens bs (drop (length as) xs)"
  using assms
proof (induction as arbitrary: xs)
  case (Cons a as)
  then obtain x ys where "xs = x # ys" "like_tokens (as @ bs) ys" by (cases a) (auto simp: like_Char like_One)
  then show ?case using Cons by auto
qed simp

lemma walk_segment:
  assumes "walk_inv tokens text t p (Some (sp, st))" "like_tokens (drop (Suc sp) tokens) (drop k text)"
  shows "k + (t - st) \<le> length text \<or> length text < k" "like_tokens (drop p tokens) (drop (k + (t - st)) text)"
proof -
  let ?as = "slice tokens (Suc sp) p"
  have i: "sp < p" "st + (p - Suc sp) = t" "p \<le> length tokens" "\<And>i. sp < i \<Longrightarrow> i < p \<Longrightarrow> tokens ! i \<noteq> TokMany"
    using assms(1) by (auto simp: walk_inv_def)
  have split: "drop (Suc sp) tokens = ?as @ drop p tokens"
    using i(1) append_take_drop_id [of "p - Suc sp" "drop (Suc sp) tokens"] by (simp add: slice_def)
  have len: "length ?as = t - st" using i by simp
  have "TokMany \<notin> set ?as"
    using i(3,4) by (auto simp: slice_def in_set_conv_nth)
  from like_single_tokens [OF this] assms(2) have "length ?as \<le> length (drop k text)"
      "like_tokens (drop p tokens) (drop (length ?as) (drop k text))"
    unfolding split by blast+
  then show "k + (t - st) \<le> length text \<or> length text < k" "like_tokens (drop p tokens) (drop (k + (t - st)) text)"
    unfolding len by (auto simp: add.commute)
qed

lemma walk_many:
  assumes "walk_inv tokens text t p star" "t < length text" "token_at tokens p = Some TokMany"
  shows "walk_inv tokens text t (p + 1) (Some (p, t))"
    "walk_ahead tokens text t (p + 1) (Some (p, t)) = walk_ahead tokens text t p star"
proof -
  have p: "p < length tokens" "tokens ! p = TokMany" using assms(3) by (auto simp: token_at_def split: if_splits)
  show "walk_inv tokens text t (p + 1) (Some (p, t))" using assms(1,2) p by (auto simp: walk_inv_def)
  have d: "drop p tokens = TokMany # drop (Suc p) tokens" using p by (metis Cons_nth_drop_Suc)
  have "like_tokens (drop p tokens) (drop t text) \<longleftrightarrow>
      (\<exists>k \<le> length text - t. like_tokens (drop (Suc p) tokens) (drop (t + k) text))"
    unfolding d like_Many by (simp add: add.commute)
  also have "\<dots> \<longleftrightarrow> (\<exists>k \<ge> t. k \<le> length text \<and> like_tokens (drop (Suc p) tokens) (drop k text))"
    using assms(2) by (metis le_add1 le_add_diff_inverse less_imp_le_nat nat_add_left_cancel_le)
  also have "\<dots> \<longleftrightarrow> walk_ahead tokens text t (p + 1) (Some (p, t))"
    using assms(2) by (auto simp: walk_ahead_def le_less)
  finally have e: "walk_ahead tokens text t (p + 1) (Some (p, t)) \<longleftrightarrow> like_tokens (drop p tokens) (drop t text)" by simp
  have "like_tokens (drop p tokens) (drop t text)"
    if "star = Some (sp, st)" "k > st" "k \<le> length text" "like_tokens (drop (Suc sp) tokens) (drop k text)" for sp st k
  proof -
    have i: "st \<le> t" using assms(1) that(1) by (auto simp: walk_inv_def)
    have "like_tokens (drop p tokens) (drop (k + (t - st)) text)" using walk_segment(2) assms(1) that by blast
    then obtain us vs where "drop (k + (t - st)) text = us @ vs" "like_tokens (drop (Suc p) tokens) vs"
      unfolding d like_Many_split by blast
    moreover have "drop t text = slice text t (k + (t - st)) @ drop (k + (t - st)) text"
      using that(2) i append_take_drop_id [of "k - st" "drop t text"] by (simp add: slice_def)
    ultimately show ?thesis unfolding d like_Many_split by (metis append.assoc)
  qed
  then show "walk_ahead tokens text t (p + 1) (Some (p, t)) = walk_ahead tokens text t p star"
    unfolding e by (auto simp: walk_ahead_def split: option.splits)
qed

lemma walk_advance:
  assumes "walk_inv tokens text t p star" "t < length text"
    and "token_at tokens p = Some TokOne \<or> token_at tokens p = Some (TokChar (text ! t))"
  shows "walk_inv tokens text (t + 1) (p + 1) star"
    "walk_ahead tokens text (t + 1) (p + 1) star = walk_ahead tokens text t p star"
proof -
  have p: "p < length tokens" "tokens ! p = TokOne \<or> tokens ! p = TokChar (text ! t)"
    using assms(3) by (auto simp: token_at_def split: if_splits)
  show "walk_inv tokens text (t + 1) (p + 1) star"
    using assms(1,2) p by (auto simp: walk_inv_def less_Suc_eq split: option.splits)
  have "drop p tokens = tokens ! p # drop (Suc p) tokens" "drop t text = text ! t # drop (Suc t) text"
    using p assms(2) by (metis Cons_nth_drop_Suc)+
  then have "like_tokens (drop p tokens) (drop t text) \<longleftrightarrow> like_tokens (drop (Suc p) tokens) (drop (Suc t) text)"
    using p(2) by (auto simp: like_Char like_One)
  then show "walk_ahead tokens text (t + 1) (p + 1) star = walk_ahead tokens text t p star"
    by (simp add: walk_ahead_def)
qed

lemma walk_stuck:
  assumes "t < length text" "token_at tokens p \<noteq> Some TokMany"
    and "\<not> (token_at tokens p = Some TokOne \<or> token_at tokens p = Some (TokChar (text ! t)))"
  shows "\<not> like_tokens (drop p tokens) (drop t text)"
proof (cases "p < length tokens")
  case True
  then have "drop p tokens = tokens ! p # drop (Suc p) tokens" "drop t text = text ! t # drop (Suc t) text"
    using assms(1) by (metis Cons_nth_drop_Suc)+
  then show ?thesis using assms(2,3) True by (cases "tokens ! p") (auto simp: like_Char token_at_def)
qed (use assms(1) in simp)

lemma walk_backtrack:
  assumes "walk_inv tokens text t p (Some (sp, st))" "t < length text" "token_at tokens p \<noteq> Some TokMany"
    and "\<not> (token_at tokens p = Some TokOne \<or> token_at tokens p = Some (TokChar (text ! t)))"
  shows "walk_inv tokens text (st + 1) (sp + 1) (Some (sp, st + 1))"
    "walk_ahead tokens text (st + 1) (sp + 1) (Some (sp, st + 1)) = walk_ahead tokens text t p (Some (sp, st))"
proof -
  have i: "st < length text" "sp < length tokens" using assms(1,2) by (auto simp: walk_inv_def)
  then show "walk_inv tokens text (st + 1) (sp + 1) (Some (sp, st + 1))" by (auto simp: walk_inv_def)
  have "(\<exists>k > st. k \<le> length text \<and> P k) \<longleftrightarrow> P (Suc st) \<or> (\<exists>k > Suc st. k \<le> length text \<and> P k)" for P
    using i(1) by (metis Suc_leI Suc_lessI lessI less_SucI not_less_eq)
  then show "walk_ahead tokens text (st + 1) (sp + 1) (Some (sp, st + 1)) = walk_ahead tokens text t p (Some (sp, st))"
    using walk_stuck [OF assms(2-4)] by (simp add: walk_ahead_def)
qed

lemma walk_end:
  assumes "walk_inv tokens text (length text) p star"
  shows "walk_ahead tokens text (length text) p star \<longleftrightarrow> list_all (\<lambda>t. t = TokMany) (drop p tokens)"
proof -
  have "\<not> like_tokens (drop (Suc sp) tokens) (drop k text)" if "star = Some (sp, st)" "k > st" "k \<le> length text" for sp st k
    using walk_segment(1) [of tokens "text" "length text" p sp st k] assms that by (auto simp: walk_inv_def)
  then show ?thesis by (auto simp: walk_ahead_def like_Nil_iff split: option.splits)
qed

lemma wildcard_loop_correct:
  assumes "walk_inv tokens text t p star"
  shows "wildcard_loop tokens text t p star = Ok (walk_ahead tokens text t p star)"
  using assms
proof (induction tokens "text" t p star rule: wildcard_loop.induct)
  case (1 tokens "text" t p star)
  note e = wildcard_loop.simps [of tokens "text" t p star]
  consider (stop) "\<not> t < length text" | (many) "t < length text" "token_at tokens p = Some TokMany"
    | (adv) "t < length text" "token_at tokens p \<noteq> Some TokMany"
        "token_at tokens p = Some TokOne \<or> token_at tokens p = Some (TokChar (text ! t))"
    | (stuck) "t < length text" "token_at tokens p \<noteq> Some TokMany"
        "\<not> (token_at tokens p = Some TokOne \<or> token_at tokens p = Some (TokChar (text ! t)))"
    by blast
  then show ?case
  proof cases
    case stop
    then have "t = length text" using 1(4) by (simp add: walk_inv_def)
    then show ?thesis using 1(4) e walk_end [of tokens "text" p star] by (simp add: walk_inv_def)
  next
    case many
    note w = walk_many [OF 1(4) many]
    show ?thesis using 1(1) [OF many w(1)] e many w(2) by simp
  next
    case adv
    note w = walk_advance [OF 1(4) adv(1,3)]
    show ?thesis using 1(2) [OF adv w(1)] e adv w(2) by simp
  next
    case stuck
    show ?thesis
    proof (cases star)
      case None
      then show ?thesis using e stuck walk_stuck [OF stuck] by (simp add: walk_ahead_def)
    next
      case (Some s)
      obtain sp st where s: "s = (sp, st)" by fastforce
      note w = walk_backtrack [OF _ stuck, of sp st]
      show ?thesis using 1(3) [OF stuck Some s [symmetric]] w 1(4) e stuck by (simp add: Some s)
    qed
  qed
qed

lemma wildcard_like: "wildcard tokens text = Ok (like_tokens tokens text)"
  using wildcard_loop_correct [of tokens "text" 0 0 None] by (simp add: wildcard_def walk_inv_def walk_ahead_def)

section \<open>The number of steps\<close>

text \<open>The iterations of the loop, by the recursion of \<open>wildcard_loop\<close>.\<close>

function wildcard_steps :: "token list \<Rightarrow> uchar list \<Rightarrow> nat \<Rightarrow> nat \<Rightarrow> (nat \<times> nat) option \<Rightarrow> nat" where
  "wildcard_steps tokens text t p star =
     (if t < length text then
        if token_at tokens p = Some TokMany then 1 + wildcard_steps tokens text t (p + 1) (Some (p, t))
        else if token_at tokens p = Some TokOne \<or> token_at tokens p = Some (TokChar (text ! t))
        then 1 + wildcard_steps tokens text (t + 1) (p + 1) star
        else (case star of
                Some (sp, st) \<Rightarrow> 1 + wildcard_steps tokens text (st + 1) (sp + 1) (Some (sp, st + 1))
              | None \<Rightarrow> 1)
      else 0)"
  by pat_completeness auto
termination
  by (relation "measures
       [\<lambda>(tokens, text, t, p, star). case star of Some (sp, st) \<Rightarrow> of_bool (p \<le> sp) | None \<Rightarrow> 0,
        \<lambda>(tokens, text, t, p, star). case star of Some (sp, st) \<Rightarrow> length tokens - sp | None \<Rightarrow> length tokens + 1,
        \<lambda>(tokens, text, t, p, star). case star of Some (sp, st) \<Rightarrow> length text - st | None \<Rightarrow> 0,
        \<lambda>(tokens, text, t, p, star). length text - t]")
    (auto simp: token_at_def split: option.splits if_splits)

declare wildcard_steps.simps [simp del]

definition walk_credit :: "token list \<Rightarrow> uchar list \<Rightarrow> nat \<Rightarrow> nat \<Rightarrow> (nat \<times> nat) option \<Rightarrow> nat" where
  "walk_credit tokens text t p star =
     (if t < length text
      then (case star of
              None \<Rightarrow> (length text - 1) * length tokens
            | Some (sp, st) \<Rightarrow> (length text - Suc st) * (length tokens - sp)) + (length tokens - p) + 1
      else 0)"

lemma wildcard_steps_credit:
  assumes "walk_inv tokens text t p star"
  shows "wildcard_steps tokens text t p star \<le> walk_credit tokens text t p star"
  using assms
proof (induction tokens "text" t p star rule: wildcard_steps.induct)
  case (1 tokens "text" t p star)
  note e = wildcard_steps.simps [of tokens "text" t p star]
  let ?T = "length text" and ?P = "length tokens"
  consider (stop) "\<not> t < length text" | (many) "t < length text" "token_at tokens p = Some TokMany"
    | (adv) "t < length text" "token_at tokens p \<noteq> Some TokMany"
        "token_at tokens p = Some TokOne \<or> token_at tokens p = Some (TokChar (text ! t))"
    | (stuck) "t < length text" "token_at tokens p \<noteq> Some TokMany"
        "\<not> (token_at tokens p = Some TokOne \<or> token_at tokens p = Some (TokChar (text ! t)))"
    by blast
  then show ?case
  proof cases
    case stop
    then show ?thesis using e by simp
  next
    case many
    have p: "p < ?P" using many(2) by (simp add: token_at_def split: if_splits)
    have le: "(?T - Suc t) * (?P - p) \<le> (case star of None \<Rightarrow> (?T - 1) * ?P | Some (sp, st) \<Rightarrow> (?T - Suc st) * (?P - sp))"
      using 1(4) by (auto simp: walk_inv_def split: option.splits intro!: mult_le_mono)
    have "wildcard_steps tokens text t (p + 1) (Some (p, t)) \<le> (?T - Suc t) * (?P - p) + (?P - (p + 1)) + 1"
      using 1(1) [OF many walk_many(1) [OF 1(4) many]] many(1) by (simp add: walk_credit_def)
    then show ?thesis using e many le p by (simp add: walk_credit_def)
  next
    case adv
    have p: "p < ?P" using adv(3) by (auto simp: token_at_def split: if_splits)
    have "wildcard_steps tokens text (t + 1) (p + 1) star \<le> walk_credit tokens text (t + 1) (p + 1) star"
      using 1(2) [OF adv walk_advance(1) [OF 1(4) adv(1,3)]] .
    then show ?thesis using e adv p by (auto simp: walk_credit_def split: if_splits)
  next
    case stuck
    show ?thesis
    proof (cases star)
      case None
      then show ?thesis using e stuck by (simp add: walk_credit_def)
    next
      case (Some s)
      obtain sp st where s: "s = (sp, st)" by fastforce
      have inv: "walk_inv tokens text t p (Some (sp, st))" using 1(4) Some s by simp
      have st: "st \<le> t" "sp < ?P" using inv by (auto simp: walk_inv_def)
      have "wildcard_steps tokens text (st + 1) (sp + 1) (Some (sp, st + 1)) \<le>
          walk_credit tokens text (st + 1) (sp + 1) (Some (sp, st + 1))"
        using 1(3) [OF stuck Some s [symmetric] walk_backtrack(1) [OF inv stuck]] .
      also have "\<dots> \<le> (?T - Suc st) * (?P - sp)"
      proof (cases "Suc st < ?T")
        case True
        then obtain d where d: "?T - Suc st = Suc d" "?T - Suc (Suc st) = d" by (metis Suc_diff_Suc)
        show ?thesis using True st(2) by (simp add: walk_credit_def d)
      qed (simp add: walk_credit_def)
      finally show ?thesis using e stuck Some s by (simp add: walk_credit_def)
    qed
  qed
qed

text \<open>
  C30: The wildcard walk is never worse than text times pattern: it ends after at most
  \<open>|text| * |pattern| + 1\<close> iterations, and it decides the relation the tokens denote, without a panic.
\<close>

theorem wildcard_bounded:
  "wildcard_steps tokens text 0 0 None \<le> length text * length tokens + 1 \<and>
   wildcard tokens text = Ok (like_tokens tokens text)"
proof -
  have "wildcard_steps tokens text 0 0 None \<le> walk_credit tokens text 0 0 None"
    by (rule wildcard_steps_credit) (simp add: walk_inv_def)
  also have "\<dots> \<le> length text * length tokens + 1"
    by (cases "length text") (simp_all add: walk_credit_def)
  finally show ?thesis using wildcard_like by simp
qed

section \<open>Shapes\<close>

lemma literal_Some: "literal ts = Some s \<longleftrightarrow> ts = map TokChar s"
proof (induction ts arbitrary: s)
  case (Cons t ts)
  then show ?case by (cases t; cases s) auto
qed auto

definition shape_matches :: "shape \<Rightarrow> uchar list \<Rightarrow> bool" where
  "shape_matches sh xs =
     (case sh of
        AnyText \<Rightarrow> True | Exact s \<Rightarrow> xs = s | Prefix s \<Rightarrow> prefix s xs | Suffix s \<Rightarrow> suffix s xs
      | Contains s \<Rightarrow> sublist s xs | General tokens \<Rightarrow> like_tokens tokens xs)"

lemma shape_of_like: "shape_matches (shape_of tokens) xs \<longleftrightarrow> like_tokens tokens xs"
proof (cases "list_all (\<lambda>t. t = TokMany) tokens")
  case True
  show ?thesis
  proof (cases tokens)
    case (Cons t ts)
    then have "like_tokens (TokMany # ts) xs"
      unfolding like_Many using True by (intro exI [of _ "length xs"]) (simp add: like_Nil_iff)
    then show ?thesis using True Cons by (simp add: shape_of_def shape_matches_def)
  qed (simp add: shape_of_def shape_matches_def)
next
  case False
  then have ne: "tokens \<noteq> []" by auto
  define starts ends where "starts = (hd tokens = TokMany)" and "ends = (last tokens = TokMany)"
  define inner where "inner = slice tokens (of_bool starts) (length tokens - of_bool ends)"
  have many: "\<not> (starts \<and> length tokens = 1)" using False by (cases tokens) (auto simp: starts_def)
  have t: "tokens = (if starts then [TokMany] else []) @ inner @ (if ends then [TokMany] else [])"
  proof -
    have a: "tokens = (if starts then [TokMany] else []) @ drop (of_bool starts) tokens"
      using ne by (cases tokens) (auto simp: starts_def)
    have b: "drop (of_bool starts) tokens \<noteq> []" using many ne by (cases tokens) auto
    have "last (drop (of_bool starts) tokens) = last tokens" using b by (simp add: last_drop)
    then have "drop (of_bool starts) tokens = inner @ (if ends then [TokMany] else [])"
      using b append_butlast_last_id [OF b] by (auto simp: inner_def ends_def slice_def butlast_conv_take)
    then show ?thesis using a by simp
  qed
  have sh: "shape_of tokens =
      (case literal inner of
         None \<Rightarrow> General tokens
       | Some s \<Rightarrow> (if starts then if ends then Contains s else Suffix s else if ends then Prefix s else Exact s))"
    using False by (simp add: shape_of_def Let_def starts_def ends_def inner_def split: option.splits)
  show ?thesis
  proof (cases "literal inner")
    case None
    then show ?thesis by (simp add: sh shape_matches_def)
  next
    case (Some s)
    have i: "inner = map TokChar s" using Some by (simp add: literal_Some)
    have "like_tokens tokens xs \<longleftrightarrow> (\<exists>u v w. xs = u @ v @ w \<and> (\<not> starts \<longrightarrow> u = []) \<and> v = s \<and> (\<not> ends \<longrightarrow> w = []))"
      by (subst t) (auto simp: like_append like_literal like_Many_only i)
    then show ?thesis
      by (auto simp: sh Some shape_matches_def prefix_def suffix_def sublist_def)
  qed
qed

section \<open>What a pattern means\<close>

text \<open>
  PostgreSQL's rules on the pattern as it is written: \<open>%\<close> is any run, \<open>_\<close> one character, the escape
  makes the next character literal, a literal is compared folded.
\<close>

fun pg_like :: "(uchar \<Rightarrow> uchar list) \<Rightarrow> uchar option \<Rightarrow> uchar list \<Rightarrow> uchar list \<Rightarrow> bool" where
  "pg_like fold_char esc [] xs \<longleftrightarrow> xs = []"
| "pg_like fold_char esc (c # ps) xs \<longleftrightarrow>
     (if Some c = esc then
        (case ps of
           [] \<Rightarrow> False
         | d # qs \<Rightarrow> prefix (fold_char d) xs \<and> pg_like fold_char esc qs (drop (length (fold_char d)) xs))
      else if c = 0x25 then list_ex (\<lambda>k. pg_like fold_char esc ps (drop k xs)) [0..<Suc (length xs)]
      else if c = 0x5F then xs \<noteq> [] \<and> pg_like fold_char esc ps (tl xs)
      else prefix (fold_char c) xs \<and> pg_like fold_char esc ps (drop (length (fold_char c)) xs))"

text \<open>An escape with nothing after it.\<close>

fun dangling_escape :: "uchar option \<Rightarrow> uchar list \<Rightarrow> bool" where
  "dangling_escape esc [] \<longleftrightarrow> False"
| "dangling_escape esc (c # ps) \<longleftrightarrow>
     (if Some c = esc then (case ps of [] \<Rightarrow> True | d # qs \<Rightarrow> dangling_escape esc qs) else dangling_escape esc ps)"

lemma like_push:
  "(\<exists>us vs. xs = us @ vs \<and> like_tokens (push_char lower ins tokens c) us \<and> Q vs) \<longleftrightarrow>
   (\<exists>us vs. xs = us @ vs \<and> like_tokens tokens us \<and>
      prefix (if ins then lower c else [c]) vs \<and> Q (drop (length (if ins then lower c else [c])) vs))"
proof -
  define l where "l = (if ins then lower c else [c])"
  have t: "push_char lower ins tokens c = tokens @ map TokChar l" by (simp add: push_char_def l_def)
  have "(\<exists>us vs. xs = us @ vs \<and> like_tokens (push_char lower ins tokens c) us \<and> Q vs) \<longleftrightarrow>
      (\<exists>us vs. xs = us @ l @ vs \<and> like_tokens tokens us \<and> Q vs)"
    unfolding t like_append like_literal by (metis append.assoc)
  also have "\<dots> \<longleftrightarrow> (\<exists>us vs. xs = us @ vs \<and> like_tokens tokens us \<and> prefix l vs \<and> Q (drop (length l) vs))"
    unfolding prefix_def by (metis append_eq_conv_conj)
  finally show ?thesis by (simp add: l_def)
qed

lemma like_last_Many:
  assumes "tokens \<noteq> []" "last tokens = TokMany" "like_tokens tokens us"
  shows "like_tokens tokens (us @ vs)"
proof -
  have t: "tokens = butlast tokens @ [TokMany]" using assms(1,2) by (metis append_butlast_last_id)
  obtain a b where "us = a @ b" "like_tokens (butlast tokens) a" using assms(3) by (subst (asm) t) (auto simp: like_append)
  then show ?thesis by (subst t) (auto simp: like_append like_Many_only)
qed

lemma compile_tokens_like:
  defines "fold_char \<equiv> \<lambda>lower ins c. if ins then lower c else [c]"
  assumes "compile_tokens lower esc ins tokens ps = Ok ts"
  shows "like_tokens ts xs \<longleftrightarrow> (\<exists>us vs. xs = us @ vs \<and> like_tokens tokens us \<and> pg_like (fold_char lower ins) esc ps vs)"
  using assms(2)
proof (induction lower esc ins tokens ps arbitrary: xs rule: compile_tokens.induct)
  case (1 lower esc ins tokens)
  then show ?case by simp
next
  case (2 lower esc ins tokens c cs)
  let ?f = "fold_char lower ins"
  have any: "list_ex (\<lambda>k. Q (drop k vs)) [0..<Suc (length vs)] \<longleftrightarrow> (\<exists>a b. vs = a @ b \<and> Q b)" for Q and vs :: "uchar list"
    unfolding list_ex_iff set_upt by (metis append_eq_conv_conj append_take_drop_id atLeastLessThan_iff le0 length_append less_Suc_eq_le le_add1)
  consider (esc) d ds where "Some c = esc" "cs = d # ds" | (pct) "Some c \<noteq> esc" "c = 0x25"
    | (one) "Some c \<noteq> esc" "c = 0x5F" | (lit) "Some c \<noteq> esc" "c \<noteq> 0x25" "c \<noteq> 0x5F"
    using 2(5) by (cases cs; cases "Some c = esc"; cases "c = 0x25"; cases "c = 0x5F") auto
  then show ?case
  proof cases
    case esc
    then have "compile_tokens lower esc ins (push_char lower ins tokens d) ds = Ok ts" using 2(5) by simp
    from 2(1) [OF esc this, of xs] show ?thesis
      using esc like_push [of xs lower ins tokens d "pg_like ?f esc ds"] by (simp add: fold_char_def)
  next
    case pct
    let ?t = "if tokens \<noteq> [] \<and> last tokens = TokMany then tokens else tokens @ [TokMany]"
    have "compile_tokens lower esc ins ?t cs = Ok ts" using 2(5) pct by simp
    from 2(2) [OF pct this, of xs] have "like_tokens ts xs \<longleftrightarrow> (\<exists>us vs. xs = us @ vs \<and> like_tokens ?t us \<and> pg_like ?f esc cs vs)" .
    also have "\<dots> \<longleftrightarrow> (\<exists>us a b. xs = us @ a @ b \<and> like_tokens tokens us \<and> pg_like ?f esc cs b)"
    proof (cases "tokens \<noteq> [] \<and> last tokens = TokMany")
      case True
      show ?thesis
      proof
        assume "\<exists>us vs. xs = us @ vs \<and> like_tokens ?t us \<and> pg_like ?f esc cs vs"
        then obtain us vs where "xs = us @ [] @ vs" "like_tokens tokens us" "pg_like ?f esc cs vs" using True by auto
        then show "\<exists>us a b. xs = us @ a @ b \<and> like_tokens tokens us \<and> pg_like ?f esc cs b" by blast
      next
        assume "\<exists>us a b. xs = us @ a @ b \<and> like_tokens tokens us \<and> pg_like ?f esc cs b"
        then obtain us a b where "xs = (us @ a) @ b" "like_tokens tokens us" "pg_like ?f esc cs b" by auto
        then show "\<exists>us vs. xs = us @ vs \<and> like_tokens ?t us \<and> pg_like ?f esc cs vs"
          using True like_last_Many [of tokens us a] by (intro exI [of _ "us @ a"] exI [of _ b]) simp
      qed
    next
      case False
      then have "?t = tokens @ [TokMany]" by (rule if_not_P)
      then show ?thesis by (simp only: like_append) (metis append.assoc like_Many_only)
    qed
    also have "\<dots> \<longleftrightarrow> (\<exists>us vs. xs = us @ vs \<and> like_tokens tokens us \<and> pg_like ?f esc (c # cs) vs)"
      unfolding pg_like.simps(2) any using pct by auto
    finally show ?thesis .
  next
    case one
    have "compile_tokens lower esc ins (tokens @ [TokOne]) cs = Ok ts" using 2(5) one by simp
    with 2(3) [OF one(1) _ one(2)] one(2)
    have "like_tokens ts xs \<longleftrightarrow> (\<exists>us vs. xs = us @ vs \<and> like_tokens (tokens @ [TokOne]) us \<and> pg_like ?f esc cs vs)" by simp
    also have "\<dots> \<longleftrightarrow> (\<exists>us x vs. xs = us @ x # vs \<and> like_tokens tokens us \<and> pg_like ?f esc cs vs)"
      unfolding like_One_end by (metis append.assoc append_Cons append_Nil)
    also have "\<dots> \<longleftrightarrow> (\<exists>us vs. xs = us @ vs \<and> like_tokens tokens us \<and> vs \<noteq> [] \<and> pg_like ?f esc cs (tl vs))"
      by (metis list.collapse list.distinct(1) list.sel(3))
    finally show ?thesis using one by simp
  next
    case lit
    then have "compile_tokens lower esc ins (push_char lower ins tokens c) cs = Ok ts" using 2(5) by simp
    from 2(4) [OF lit this, of xs] show ?thesis
      using lit like_push [of xs lower ins tokens c "pg_like ?f esc cs"] by (simp add: fold_char_def)
  qed
qed

lemma compile_tokens_Err:
  "dangling_escape esc ps \<Longrightarrow> compile_tokens lower esc ins tokens ps = Err ''LIKE pattern must not end with escape character''"
proof (induction lower esc ins tokens ps rule: compile_tokens.induct)
  case (2 lower esc ins tokens c cs)
  then show ?case
    by (cases "Some c = esc"; cases cs; cases "c = 0x25"; cases "c = 0x5F") (simp_all split del: if_split)
qed simp

lemma compile_tokens_Ok:
  "\<not> dangling_escape esc ps \<Longrightarrow> \<exists>ts. compile_tokens lower esc ins tokens ps = Ok ts"
proof (induction lower esc ins tokens ps rule: compile_tokens.induct)
  case (2 lower esc ins tokens c cs)
  then show ?case
    by (cases "Some c = esc"; cases cs; cases "c = 0x25"; cases "c = 0x5F") (simp_all split del: if_split)
qed simp

text \<open>Literals of scalar values compile to tokens of scalar values.\<close>

fun token_scalar :: "token \<Rightarrow> bool" where
  "token_scalar (TokChar c) = is_scalar c"
| "token_scalar _ = True"

lemma compile_tokens_scalar:
  assumes "list_all is_scalar ps" "list_all token_scalar tokens" "\<And>c. is_scalar c \<Longrightarrow> list_all is_scalar (lower c)"
    and "compile_tokens lower esc ins tokens ps = Ok ts"
  shows "list_all token_scalar ts"
  using assms
proof (induction lower esc ins tokens ps rule: compile_tokens.induct)
  case (2 lower esc ins tokens c cs)
  have p: "list_all token_scalar (push_char lower ins tokens d)" if "is_scalar d" for d
    using that 2(6,7) by (auto simp: push_char_def list_all_iff)
  have m: "list_all token_scalar (if tokens \<noteq> [] \<and> last tokens = TokMany then tokens else tokens @ [TokMany])"
    using 2(6) by simp
  consider (esc) d ds where "Some c = esc" "cs = d # ds" | (pct) "Some c \<noteq> esc" "c = 0x25"
    | (one) "Some c \<noteq> esc" "c \<noteq> 0x25" "c = 0x5F" | (lit) "Some c \<noteq> esc" "c \<noteq> 0x25" "c \<noteq> 0x5F"
    using 2(8) by (cases cs; cases "Some c = esc"; cases "c = 0x25"; cases "c = 0x5F") auto
  then show ?case
  proof cases
    case esc
    then show ?thesis using 2(1) [OF esc _ p 2(7)] 2(5,8) by simp
  next
    case pct
    then show ?thesis using 2(2) [OF pct _ m 2(7)] 2(5,8) by (simp split del: if_split)
  next
    case one
    then show ?thesis using 2(3) [OF one _ _ 2(7)] 2(5,6,8) by simp
  next
    case lit
    then show ?thesis using 2(4) [OF lit _ p 2(7)] 2(5,8) by simp
  qed
qed simp

lemma shape_needle_scalar:
  assumes "list_all token_scalar tokens" "shape_of tokens = Contains s"
  shows "list_all is_scalar s"
proof -
  obtain j k where "literal (slice tokens j k) = Some s"
    using assms(2) by (auto simp: shape_of_def Let_def split: if_splits option.splits bool.splits)
  then have "slice tokens j k = map TokChar s" by (simp add: literal_Some)
  then have "set (map TokChar s) \<subseteq> set tokens" by (metis set_drop_subset set_take_subset slice_def subset_trans)
  then show ?thesis using assms(1) by (force simp: list_all_iff)
qed

section \<open>Matching decides the relation\<close>

context memmem_crate
begin

lemma matches_folded_like:
  assumes "like_compile lower pattern esc ins = Ok m" "list_all is_scalar pattern" "list_all is_scalar xs"
    and "\<And>c. is_scalar c \<Longrightarrow> list_all is_scalar (lower c)"
  shows "insensitive m = ins \<and>
    matches_folded find_bytes m xs = Ok (pg_like (\<lambda>c. if ins then lower c else [c]) esc pattern xs)"
proof -
  obtain tokens where t: "compile_tokens lower esc ins [] pattern = Ok tokens" and m: "insensitive m = ins"
      "matcher_shape m = shape_of tokens" "finder m = (case shape_of tokens of Contains s \<Rightarrow> Some (utf8_bytes s) | _ \<Rightarrow> None)"
    using assms(1) by (auto simp: like_compile_def obind_iffs Let_def)
  have sc: "list_all token_scalar tokens" using compile_tokens_scalar [OF assms(2) _ assms(4) t] by simp
  have "matches_folded find_bytes m xs = Ok (shape_matches (shape_of tokens) xs)"
  proof (cases "shape_of tokens")
    case (Contains s)
    then show ?thesis
      using find_iff sublist_utf8_bytes [OF assms(3) shape_needle_scalar [OF sc Contains]] m
      by (simp add: matches_folded_def shape_matches_def)
  qed (simp_all add: matches_folded_def shape_matches_def m wildcard_like)
  moreover have "like_tokens tokens xs \<longleftrightarrow> pg_like (\<lambda>c. if ins then lower c else [c]) esc pattern xs"
    using compile_tokens_like [OF t, of xs] by simp
  ultimately show ?thesis using m(1) shape_of_like by simp
qed

end

text \<open>The naive search, for the witnesses.\<close>

definition naive_find :: "bytes \<Rightarrow> bytes \<Rightarrow> nat option" where
  "naive_find needle hay = List.find (\<lambda>i. take (length needle) (drop i hay) = needle) [0..<Suc (length hay)]"

interpretation naive: memmem_crate naive_find
proof
  fix needle hay :: bytes
  have "sublist needle hay \<longleftrightarrow> (\<exists>i \<le> length hay. take (length needle) (drop i hay) = needle)"
  proof
    assume "sublist needle hay"
    then obtain u v where "hay = u @ needle @ v" by (auto simp: sublist_def)
    then show "\<exists>i \<le> length hay. take (length needle) (drop i hay) = needle" by (intro exI [of _ "length u"]) simp
  qed (metis sublist_drop sublist_take sublist_order.order_trans)
  then show "naive_find needle hay \<noteq> None \<longleftrightarrow> sublist needle hay"
    by (auto simp: naive_find_def find_None_iff less_Suc_eq_le simp del: upt_Suc)
qed

text \<open>ASCII rows take the byte-wise lower-casing; every row ends in the whole-string one.\<close>

context unicode_tables
begin

lemma like_matches_folded:
  "like_matches str_lower find_bytes m text =
     matches_folded find_bytes m (if insensitive m then str_lower text else text)"
  by (simp add: like_matches_def str_lower_ascii)

end

text \<open>
  C15: \<open>LIKE\<close> and \<open>ILIKE\<close> are PostgreSQL's relation. A pattern that ends in an unpaired escape is
  refused; every other pattern compiles, and the compiled matcher, whichever shape it has, accepts a
  text exactly when the pattern's rules do: on the text as it is, or for \<open>ILIKE\<close> on the lower-cased
  text with the literals of the pattern lower-cased.
\<close>

theorem like_is_pg_like:
  assumes "memmem_crate find_bytes" "unicode_tables char_lower str_lower"
    and "list_all is_scalar pattern" "list_all is_scalar text"
  shows "if dangling_escape esc pattern
    then like_compile char_lower pattern esc ins = Err ''LIKE pattern must not end with escape character''
    else \<exists>m. like_compile char_lower pattern esc ins = Ok m \<and>
      like_matches str_lower find_bytes m text =
        Ok (pg_like (\<lambda>c. if ins then char_lower c else [c]) esc pattern (if ins then str_lower text else text))"
proof (cases "dangling_escape esc pattern")
  case True
  then show ?thesis by (simp add: like_compile_def compile_tokens_Err)
next
  case False
  then obtain m where m: "like_compile char_lower pattern esc ins = Ok m"
    using compile_tokens_Ok [OF False, of char_lower ins "[]"] by (auto simp: like_compile_def Let_def)
  have sc: "list_all is_scalar (if ins then str_lower text else text)"
    using unicode_tables.str_lower_scalar [OF assms(2,4)] assms(4) by simp
  show ?thesis
    using False m memmem_crate.matches_folded_like [OF assms(1) m assms(3) sc]
      unicode_tables.char_lower_scalar [OF assms(2)] unicode_tables.like_matches_folded [OF assms(2)] by simp
qed

text \<open>The tables restricted to ASCII, for the witnesses.\<close>

interpretation ascii_tables: unicode_tables "\<lambda>c. [ascii_lower c]" "map ascii_lower"
  by unfold_locales (auto simp: list_all_iff ascii_lower_def is_scalar_def)

theorem like_is_pg_like_witness:
  "\<exists>m. like_compile (\<lambda>c. [ascii_lower c]) [0x4A, 0x5F, 0x48, 0x4E, 0x25] (Some 0x5C) True = Ok m \<and>
     like_matches (map ascii_lower) naive_find m [0x6A, 0x6F, 0x68, 0x6E, 0x2E] = Ok True"
proof -
  let ?p = "[0x4A, 0x5F, 0x48, 0x4E, 0x25] :: uchar list" and ?t = "[0x6A, 0x6F, 0x68, 0x6E, 0x2E] :: uchar list"
  have sc: "list_all is_scalar ?p" "list_all is_scalar ?t" by (simp_all add: is_scalar_def)
  have e: "\<not> dangling_escape (Some 0x5C) ?p" by simp
  have v: "pg_like (\<lambda>c. if True then [ascii_lower c] else [c]) (Some 0x5C) ?p (if True then map ascii_lower ?t else ?t)"
    by (simp add: ascii_lower_def upt_rec)
  show ?thesis
    using like_is_pg_like [OF naive.memmem_crate_axioms ascii_tables.unicode_tables_axioms sc, of "Some 0x5C" True] e v by simp
qed

text \<open>
  The two lower-casings differ where Unicode's does not work character by character: a capital sigma
  at the end of a word becomes a final sigma in the text and a medial one in the pattern, so a word
  that ends in it is not \<open>ILIKE\<close> itself.
\<close>

lemma final_sigma_not_ilike_itself:
  assumes "memmem_crate find_bytes" "unicode_tables char_lower str_lower"
    and "char_lower 0x39F = [0x3BF]" "char_lower 0x3A3 = [0x3C3]" "str_lower [0x39F, 0x3A3] = [0x3BF, 0x3C2]"
    and "like_compile char_lower [0x39F, 0x3A3] esc True = Ok m" "esc = Some 0x5C"
  shows "like_matches str_lower find_bytes m [0x39F, 0x3A3] = Ok False"
  using like_is_pg_like [OF assms(1,2), of "[0x39F, 0x3A3]" "[0x39F, 0x3A3]" esc True] assms(3-7)
  by (simp add: is_scalar_def)

end
