(* ===== verification/Scalar_Key.thy ===== *)
theory Scalar_Key
  imports Utf8 Keys "HOL-Library.Product_Lexorder"
begin

text \<open>
  Version-1 scalar index keys (core/engine/src/store/scalar_key.rs): one order-preserving byte key
  per value of a declared scalar kind, null first, the three readers of such keys, and their laws:
  byte order is value order also with an entity id behind the key, only canonical keys decode, and
  the width of a key is what decoding consumes.
\<close>

unbundle bit_operations_syntax

section \<open>Data\<close>

datatype kind = KText | KInt | KReal | KBool | KJson | KGeo | KPoint | KVector nat

text \<open>The two errors the module raises (\<open>invalid\<close> and \<open>corrupt\<close>).\<close>

datatype scalar_error = InvalidInput string | CorruptKey string

text \<open>
  \<open>serde_json::Value\<close> is a dependency: its type is a parameter, given by the accessors and the
  constructors the module calls, with their documented laws.
\<close>

record 'v json_api =
  is_null :: "'v \<Rightarrow> bool"
  as_bool :: "'v \<Rightarrow> bool option"
  as_i64 :: "'v \<Rightarrow> u64 option"
  as_f64 :: "'v \<Rightarrow> f64 option"
  as_str :: "'v \<Rightarrow> uchar list option"
  mk_null :: 'v
  mk_bool :: "bool \<Rightarrow> 'v"
  mk_i64 :: "u64 \<Rightarrow> 'v"
  mk_f64 :: "f64 \<Rightarrow> 'v"
  mk_string :: "uchar list \<Rightarrow> 'v"

locale serde_json_crate =
  fixes api :: "'v json_api"
  assumes null_value: "is_null api (mk_null api)"
    and bool_value: "\<not> is_null api (mk_bool api b)" "as_bool api (mk_bool api b) = Some b"
    and int_value: "\<not> is_null api (mk_i64 api n)" "as_i64 api (mk_i64 api n) = Some n"
    and float_value: "f64_is_finite f \<Longrightarrow> \<not> is_null api (mk_f64 api f)" "f64_is_finite f \<Longrightarrow> as_f64 api (mk_f64 api f) = Some f"
    and string_value: "\<not> is_null api (mk_string api s)" "list_all is_scalar s \<Longrightarrow> as_str api (mk_string api s) = Some s"
    and str_scalars: "as_str api v = Some s \<Longrightarrow> list_all is_scalar s"

definition TEXT_LIMIT :: nat where "TEXT_LIMIT = 1024"

definition scalar_tag :: "kind \<Rightarrow> byte option" where
  "scalar_tag k = (case k of KBool \<Rightarrow> Some 1 | KInt \<Rightarrow> Some 2 | KReal \<Rightarrow> Some 3 | KText \<Rightarrow> Some 4 | _ \<Rightarrow> None)"

section \<open>Encoding\<close>

text \<open>\<open>value.filter(|v| !v.is_null())\<close>.\<close>

definition present_value :: "'v json_api \<Rightarrow> 'v option \<Rightarrow> 'v option" where
  "present_value api value = (case value of Some v \<Rightarrow> if is_null api v then None else Some v | None \<Rightarrow> None)"

definition real_bits :: "f64 \<Rightarrow> u64" where
  "real_bits n =
     (let bits = (if f64_magnitude_bits n = 0 then 0 else n) in if bits AND SIGN \<noteq> 0 then NOT bits else bits XOR SIGN)"

text \<open>Appended to a buffer the caller reuses; the buffer is cleared first, and keeps what an error leaves.\<close>

definition encode_into :: "'v json_api \<Rightarrow> kind \<Rightarrow> 'v option \<Rightarrow> bytes \<Rightarrow> bytes \<times> (scalar_error, unit) outcome" where
  "encode_into api kind value out =
     (case scalar_tag kind of
        None \<Rightarrow> (out, Err (InvalidInput ''scalar index requires Bool, Int, Real, or Text''))
      | Some tag \<Rightarrow>
        (case present_value api value of
           None \<Rightarrow> ([0], Ok ())
         | Some v \<Rightarrow>
           (case kind of
              KBool \<Rightarrow>
                (case as_bool api v of
                   None \<Rightarrow> ([tag], Err (InvalidInput ''scalar Bool value required''))
                 | Some b \<Rightarrow> ([tag, of_bool b], Ok ()))
            | KInt \<Rightarrow>
                (case as_i64 api v of
                   None \<Rightarrow> ([tag], Err (InvalidInput ''scalar i64 value required''))
                 | Some n \<Rightarrow> ([tag] @ to_be (n XOR SIGN), Ok ()))
            | KReal \<Rightarrow>
                (case as_f64 api v of
                   None \<Rightarrow> ([tag], Err (InvalidInput ''finite scalar Real value required''))
                 | Some n \<Rightarrow>
                     if \<not> f64_is_finite n then ([tag], Err (InvalidInput ''finite scalar Real value required''))
                     else ([tag] @ to_be (real_bits n), Ok ()))
            | KText \<Rightarrow>
                (case as_str api v of
                   None \<Rightarrow> ([tag], Err (InvalidInput ''scalar Text value required''))
                 | Some s \<Rightarrow>
                     if length (utf8_bytes s) > TEXT_LIMIT
                     then ([tag], Err (InvalidInput ''scalar Text index value exceeds 1024 UTF-8 bytes''))
                     else ([tag] @ concat (map (\<lambda>b. if b = 0 then [b, 255] else [b]) (utf8_bytes s)) @ [0, 0], Ok ()))
            | _ \<Rightarrow> ([tag], Panic))))"

definition scalar_encode :: "'v json_api \<Rightarrow> kind \<Rightarrow> 'v option \<Rightarrow> (scalar_error, bytes) outcome" where
  "scalar_encode api kind value =
     (case encode_into api kind value [] of (out, Ok _) \<Rightarrow> Ok out | (_, Err e) \<Rightarrow> Err e | (_, Panic) \<Rightarrow> Panic)"

section \<open>Reading\<close>

function width_text :: "bytes \<Rightarrow> nat \<Rightarrow> nat \<Rightarrow> (scalar_error, nat) outcome" where
  "width_text bytes at n =
     (if \<not> at < length bytes then Err (CorruptKey ''unterminated scalar Text key'')
      else if bytes ! at = 0 then
        (case get_at bytes (at + 1) of
           Some c \<Rightarrow>
             if c = 0 then Ok (at + 2)
             else if c = 255 then
               if n = TEXT_LIMIT then Err (CorruptKey ''scalar Text key exceeds 1024 UTF-8 bytes'')
               else width_text bytes (at + 2) (n + 1)
             else Err (CorruptKey ''invalid scalar Text escape'')
         | None \<Rightarrow> Err (CorruptKey ''invalid scalar Text escape''))
      else if n = TEXT_LIMIT then Err (CorruptKey ''scalar Text key exceeds 1024 UTF-8 bytes'')
      else width_text bytes (at + 1) (n + 1))"
  by pat_completeness auto
termination by (relation "measure (\<lambda>(bytes, at, n). length bytes - at)") auto

definition decoded_bits :: "u64 \<Rightarrow> u64" where
  "decoded_bits ordered = (if ordered AND SIGN \<noteq> 0 then ordered XOR SIGN else NOT ordered)"

definition scalar_width :: "kind \<Rightarrow> bytes \<Rightarrow> (scalar_error, nat) outcome" where
  "scalar_width kind bytes =
     (case scalar_tag kind of
        None \<Rightarrow> Err (CorruptKey ''unsupported scalar index kind'')
      | Some expected \<Rightarrow>
        (case bytes of
           [] \<Rightarrow> Err (CorruptKey ''missing scalar key tag'')
         | actual # _ \<Rightarrow>
           if actual = 0 then Ok 1
           else if actual \<noteq> expected then Err (CorruptKey ''scalar key tag does not match declared kind'')
           else (case kind of
              KBool \<Rightarrow>
                (case get_at bytes 1 of
                   Some c \<Rightarrow> if c = 0 \<or> c = 1 then Ok 2 else Err (CorruptKey ''invalid scalar Bool key'')
                 | None \<Rightarrow> Err (CorruptKey ''invalid scalar Bool key''))
            | KInt \<Rightarrow> if length bytes < 9 then Err (CorruptKey ''truncated scalar numeric key'') else Ok 9
            | KReal \<Rightarrow>
                (case get_range bytes 1 9 of
                   None \<Rightarrow> Err (CorruptKey ''truncated scalar numeric key'')
                 | Some encoded \<Rightarrow>
                     let bits = decoded_bits (from_be encoded) in
                     if \<not> f64_is_finite bits \<or> bits = SIGN
                     then Err (CorruptKey ''noncanonical or nonfinite scalar Real key'') else Ok 9)
            | KText \<Rightarrow> width_text bytes 1 0
            | _ \<Rightarrow> Panic)))"

function decode_text :: "bytes \<Rightarrow> nat \<Rightarrow> bytes \<Rightarrow> (scalar_error, uchar list \<times> nat) outcome" where
  "decode_text bytes at out =
     (if \<not> at < length bytes then Err (CorruptKey ''unterminated scalar Text key'')
      else if bytes ! at = 0 then
        (case get_at bytes (at + 1) of
           Some c \<Rightarrow>
             if c = 0 then
               (case from_utf8 out of None \<Rightarrow> Err (CorruptKey ''invalid UTF-8 scalar key'') | Some s \<Rightarrow> Ok (s, at + 2))
             else if c = 255 then
               if length out = TEXT_LIMIT then Err (CorruptKey ''scalar Text key exceeds 1024 UTF-8 bytes'')
               else decode_text bytes (at + 2) (out @ [bytes ! at])
             else Err (CorruptKey ''invalid scalar Text escape'')
         | None \<Rightarrow> Err (CorruptKey ''invalid scalar Text escape''))
      else if length out = TEXT_LIMIT then Err (CorruptKey ''scalar Text key exceeds 1024 UTF-8 bytes'')
      else decode_text bytes (at + 1) (out @ [bytes ! at]))"
  by pat_completeness auto
termination by (relation "measure (\<lambda>(bytes, at, out). length bytes - at)") auto

definition scalar_decode :: "'v json_api \<Rightarrow> kind \<Rightarrow> bytes \<Rightarrow> (scalar_error, 'v \<times> nat) outcome" where
  "scalar_decode api kind bytes =
     (case scalar_tag kind of
        None \<Rightarrow> Err (CorruptKey ''unsupported scalar index kind'')
      | Some expected \<Rightarrow>
        (case bytes of
           [] \<Rightarrow> Err (CorruptKey ''missing scalar key tag'')
         | actual # _ \<Rightarrow>
           if actual = 0 then Ok (mk_null api, 1)
           else if actual \<noteq> expected then Err (CorruptKey ''scalar key tag does not match declared kind'')
           else (case kind of
              KBool \<Rightarrow>
                (case get_at bytes 1 of
                   Some c \<Rightarrow> if c = 0 then Ok (mk_bool api False, 2) else if c = 1 then Ok (mk_bool api True, 2)
                             else Err (CorruptKey ''invalid scalar Bool key'')
                 | None \<Rightarrow> Err (CorruptKey ''invalid scalar Bool key''))
            | KInt \<Rightarrow>
                (case get_range bytes 1 9 of
                   None \<Rightarrow> Err (CorruptKey ''truncated scalar numeric key'')
                 | Some encoded \<Rightarrow> Ok (mk_i64 api (from_be encoded XOR SIGN), 9))
            | KReal \<Rightarrow>
                (case get_range bytes 1 9 of
                   None \<Rightarrow> Err (CorruptKey ''truncated scalar numeric key'')
                 | Some encoded \<Rightarrow>
                     let bits = decoded_bits (from_be encoded) in
                     if \<not> f64_is_finite bits \<or> bits = SIGN
                     then Err (CorruptKey ''noncanonical or nonfinite scalar Real key'') else Ok (mk_f64 api bits, 9))
            | KText \<Rightarrow> (case decode_text bytes 1 [] of Ok (s, n) \<Rightarrow> Ok (mk_string api s, n) | Err e \<Rightarrow> Err e | Panic \<Rightarrow> Panic)
            | _ \<Rightarrow> Panic)))"

declare width_text.simps [simp del] decode_text.simps [simp del]

section \<open>Values and their order\<close>

text \<open>
  What a key stands for: null, a boolean, a signed integer, the exact value of a finite double (times
  \<open>2 ^ 1074\<close>), or the bytes of a string. Null sorts first, then the kinds by their tag.
\<close>

datatype scalar_view = VNull | VBool bool | VInt int | VReal int | VText bytes

fun view_rank :: "scalar_view \<Rightarrow> nat \<times> int \<times> bytes" where
  "view_rank VNull = (0, 0, [])"
| "view_rank (VBool b) = (1, of_bool b, [])"
| "view_rank (VInt i) = (2, i, [])"
| "view_rank (VReal x) = (3, x, [])"
| "view_rank (VText s) = (4, 0, s)"

lemma view_rank_inject: "view_rank v = view_rank w \<longleftrightarrow> v = w"
  by (cases v; cases w) auto

instantiation scalar_view :: linorder
begin

definition less_eq_scalar_view :: "scalar_view \<Rightarrow> scalar_view \<Rightarrow> bool" where
  "less_eq_scalar_view v w \<longleftrightarrow> view_rank v \<le> view_rank w"

definition less_scalar_view :: "scalar_view \<Rightarrow> scalar_view \<Rightarrow> bool" where
  "less_scalar_view v w \<longleftrightarrow> view_rank v < view_rank w"

instance
proof
  fix v w x :: scalar_view
  show "v < w \<longleftrightarrow> v \<le> w \<and> \<not> w \<le> v" by (simp add: less_eq_scalar_view_def less_scalar_view_def less_le_not_le)
  show "v \<le> v" "v \<le> w \<or> w \<le> v" by (simp_all add: less_eq_scalar_view_def linear)
  show "v \<le> w \<Longrightarrow> w \<le> x \<Longrightarrow> v \<le> x" unfolding less_eq_scalar_view_def by (rule order_trans)
  show "v \<le> w \<Longrightarrow> w \<le> v \<Longrightarrow> v = w" unfolding less_eq_scalar_view_def by (metis view_rank_inject order_antisym)
qed

end

definition scalar_view_of :: "'v json_api \<Rightarrow> kind \<Rightarrow> 'v option \<Rightarrow> scalar_view option" where
  "scalar_view_of api k value =
     (case present_value api value of
        None \<Rightarrow> if scalar_tag k = None then None else Some VNull
      | Some v \<Rightarrow>
        (case k of
           KBool \<Rightarrow> map_option VBool (as_bool api v)
         | KInt \<Rightarrow> map_option (\<lambda>n. VInt (sint n)) (as_i64 api v)
         | KReal \<Rightarrow> (case as_f64 api v of Some n \<Rightarrow> if f64_is_finite n then Some (VReal (f64_scaled n)) else None | None \<Rightarrow> None)
         | KText \<Rightarrow> (case as_str api v of Some s \<Rightarrow> if length (utf8_bytes s) \<le> TEXT_LIMIT then Some (VText (utf8_bytes s)) else None | None \<Rightarrow> None)
         | _ \<Rightarrow> None))"

lemma concat_nul_escape:
  "concat (map (\<lambda>b. if b = 0 then [b, 255] else [b]) s) @ [0, 0] = nul_escape s"
  by (induction s) auto

lemmas encode_simps = scalar_encode_def encode_into_def scalar_tag_def

text \<open>The accepted values, one line per kind.\<close>

lemma scalar_encode_cases:
  assumes "scalar_encode api k x = Ok a"
  obtains (vnull) "present_value api x = None" "a = [0]" "scalar_view_of api k x = Some VNull" "scalar_tag k \<noteq> None"
  | (vbool) v b where "k = KBool" "present_value api x = Some v" "as_bool api v = Some b" "a = [1, of_bool b]"
      "scalar_view_of api k x = Some (VBool b)"
  | (vint) v n where "k = KInt" "present_value api x = Some v" "as_i64 api v = Some n" "a = 2 # to_be (enc_i64 n)"
      "scalar_view_of api k x = Some (VInt (sint n))"
  | (vreal) v n where "k = KReal" "present_value api x = Some v" "as_f64 api v = Some n" "f64_is_finite n" "a = 3 # to_be (real_bits n)"
      "scalar_view_of api k x = Some (VReal (f64_scaled n))"
  | (vtext) v s where "k = KText" "present_value api x = Some v" "as_str api v = Some s" "length (utf8_bytes s) \<le> TEXT_LIMIT"
      "a = 4 # nul_escape (utf8_bytes s)" "scalar_view_of api k x = Some (VText (utf8_bytes s))"
proof (cases "present_value api x")
  case None
  have t: "scalar_tag k \<noteq> None" using assms by (cases "scalar_tag k") (simp_all add: scalar_encode_def encode_into_def)
  then obtain tag where "scalar_tag k = Some tag" by blast
  then have "a = [0]" using assms None by (simp add: scalar_encode_def encode_into_def)
  moreover have "scalar_view_of api k x = Some VNull" using None t by (simp add: scalar_view_of_def)
  ultimately show ?thesis using None t by (intro vnull)
next
  case (Some v)
  have t: "scalar_tag k \<noteq> None" using assms by (cases "scalar_tag k") (simp_all add: scalar_encode_def encode_into_def)
  show ?thesis
  proof (cases k)
    case KBool
    obtain b where e: "as_bool api v = Some b" "a = [1, of_bool b]"
      using assms Some KBool by (cases "as_bool api v") (simp_all add: encode_simps)
    show ?thesis by (rule vbool [OF KBool Some e]) (simp add: scalar_view_of_def KBool Some e)
  next
    case KInt
    obtain n where e: "as_i64 api v = Some n" "a = 2 # to_be (enc_i64 n)"
      using assms Some KInt by (cases "as_i64 api v") (simp_all add: encode_simps enc_i64_def)
    show ?thesis by (rule vint [OF KInt Some e]) (simp add: scalar_view_of_def KInt Some e)
  next
    case KReal
    obtain n where f: "as_f64 api v = Some n" using assms Some KReal by (cases "as_f64 api v") (simp_all add: encode_simps)
    have e: "f64_is_finite n" "a = 3 # to_be (real_bits n)"
      using assms Some KReal f by (cases "f64_is_finite n"; simp add: encode_simps)+
    show ?thesis by (rule vreal [OF KReal Some f e]) (simp add: scalar_view_of_def KReal Some f e)
  next
    case KText
    obtain u where f: "as_str api v = Some u" using assms Some KText by (cases "as_str api v") (simp_all add: encode_simps)
    have e: "length (utf8_bytes u) \<le> TEXT_LIMIT" "a = 4 # nul_escape (utf8_bytes u)"
      using assms Some KText f by (cases "TEXT_LIMIT < length (utf8_bytes u)"; simp add: encode_simps concat_nul_escape)+
    show ?thesis by (rule vtext [OF KText Some f e]) (simp add: scalar_view_of_def KText Some f e)
  qed (use t in \<open>simp_all add: scalar_tag_def\<close>)
qed

lemma real_bits_ordered: "real_bits n = f64_ordered (if f64_magnitude_bits n = 0 then 0 else n)"
  by (simp add: real_bits_def f64_ordered_def and_SIGN Let_def)

lemma f64_scaled_one_zero: "f64_scaled (if f64_magnitude_bits n = 0 then 0 else n) = f64_scaled n"
  by (simp add: f64_scaled_eq_iff) (simp add: f64_magnitude_bits_def)

lemma real_bits_less: "real_bits n < real_bits m \<longleftrightarrow> f64_scaled n < f64_scaled m"
proof -
  note z = f64_scaled_one_zero
  have s: "f64_scaled v \<noteq> f64_scaled w" if "f64_sign v" "\<not> f64_sign w" "v = (if f64_magnitude_bits n = 0 then 0 else n)" for v w n
    using that by (auto simp: f64_scaled_eq_iff f64_sign_def split: if_splits)
  show ?thesis unfolding real_bits_ordered f64_ordered_less_iff z
    using s [OF _ _ refl] z by metis
qed

lemma real_bits_eq: "real_bits n = real_bits m \<longleftrightarrow> f64_scaled n = f64_scaled m"
  using real_bits_less [of n m] real_bits_less [of m n] by (metis linorder_neq_iff)

lemma enc_i64_eq: "enc_i64 n = enc_i64 m \<longleftrightarrow> sint n = sint m"
  using enc_i64_less [of n m] enc_i64_less [of m n] by (metis linorder_neq_iff)

text \<open>
  C16: Byte order is value order. Two values of one declared kind that the encoder accepts have keys
  that sort as the values do, null first, whatever entity ids follow the keys; equal values (the two
  zeros of a Real among them) share their key and are then in the order of the ids.
\<close>

theorem scalar_key_order:
  assumes "scalar_encode api k x = Ok a" "scalar_encode api k y = Ok b"
  shows "\<exists>v w. scalar_view_of api k x = Some v \<and> scalar_view_of api k y = Some w \<and>
    (a @ i < b @ j \<longleftrightarrow> v < w \<or> v = w \<and> i < j) \<and> (a = b \<longleftrightarrow> v = w)"
proof -
  have nul: "nul_escape p = nul_escape q \<longleftrightarrow> p = q" for p q using nul_escape_eq [of p "[]" q "[]"] by simp
  show ?thesis
    using assms(1)
  proof (cases rule: scalar_encode_cases)
    case vnull
    show ?thesis using assms(2) vnull by (cases rule: scalar_encode_cases) (auto simp: less_scalar_view_def)
  next
    case vbool
    show ?thesis using assms(2)
      by (cases rule: scalar_encode_cases) (use vbool in \<open>auto simp: less_scalar_view_def\<close>)
  next
    case vint
    show ?thesis using assms(2)
      by (cases rule: scalar_encode_cases)
        (use vint in \<open>auto simp: less_scalar_view_def append_less_append enc_i64_less enc_i64_eq to_be_inject\<close>)
  next
    case vreal
    show ?thesis using assms(2)
      by (cases rule: scalar_encode_cases)
        (use vreal in \<open>auto simp: less_scalar_view_def append_less_append real_bits_less real_bits_eq to_be_inject\<close>)
  next
    case vtext
    show ?thesis using assms(2)
      by (cases rule: scalar_encode_cases) (use vtext in \<open>auto simp: less_scalar_view_def nul_escape_less nul\<close>)
  qed
qed

section \<open>Round trips\<close>

text \<open>The text loops read an escaped string up to its terminator, wherever it stands.\<close>

lemma text_tail:
  assumes "at < length bytes"
  obtains b rest where "drop at bytes = b # rest" "bytes ! at = b" "drop (at + 1) bytes = rest"
    "get_at bytes (at + 1) = (case rest of [] \<Rightarrow> None | c # _ \<Rightarrow> Some c)" "drop (at + 2) bytes = drop 1 rest"
proof -
  have d: "drop at bytes = bytes ! at # drop (at + 1) bytes" using assms by (simp add: Cons_nth_drop_Suc)
  have g: "get_at bytes (at + 1) = (case drop (at + 1) bytes of [] \<Rightarrow> None | c # _ \<Rightarrow> Some c)"
  proof (cases "at + 1 < length bytes")
    case True
    then have "drop (at + 1) bytes = bytes ! (at + 1) # drop (Suc (at + 1)) bytes" by (metis Cons_nth_drop_Suc)
    then show ?thesis using True by (simp add: get_at_def)
  qed (simp add: get_at_def)
  have "drop (at + 2) bytes = drop 1 (drop (at + 1) bytes)" by simp
  then show thesis using that d g by blast
qed

lemma decode_text_escape:
  assumes "drop at bytes = nul_escape s @ rest" "length out + length s \<le> TEXT_LIMIT"
  shows "decode_text bytes at out =
    (case from_utf8 (out @ s) of
       None \<Rightarrow> Err (CorruptKey ''invalid UTF-8 scalar key'') | Some cs \<Rightarrow> Ok (cs, at + length (nul_escape s)))"
  using assms
proof (induction s arbitrary: at out)
  case Nil
  then have at: "at < length bytes" by (metis append_Cons drop_eq_Nil linorder_not_less list.distinct(1) nul_escape.simps(1))
  then obtain b tl where t: "drop at bytes = b # tl" "bytes ! at = b"
      "get_at bytes (at + 1) = (case tl of [] \<Rightarrow> None | c # _ \<Rightarrow> Some c)" by (rule text_tail)
  show ?case using Nil t at by (simp add: decode_text.simps [of bytes at] split: option.split)
next
  case (Cons x s)
  then have at: "at < length bytes" by (metis append_Cons drop_eq_Nil linorder_not_less list.distinct(1) nul_escape.simps(2))
  then obtain b tl where t: "drop at bytes = b # tl" "bytes ! at = b" "drop (at + 1) bytes = tl"
      "get_at bytes (at + 1) = (case tl of [] \<Rightarrow> None | c # _ \<Rightarrow> Some c)" "drop (at + 2) bytes = drop 1 tl" by (rule text_tail)
  have lim: "length out \<noteq> TEXT_LIMIT" "length (out @ [x]) + length s \<le> TEXT_LIMIT" using Cons.prems(2) by simp_all
  show ?case
  proof (cases "x = 0")
    case True
    then have "drop (at + 2) bytes = nul_escape s @ rest" using Cons.prems(1) t by simp
    from Cons.IH [OF this lim(2)] show ?thesis
      using True Cons.prems(1) t at lim by (simp add: decode_text.simps [of bytes at] split: option.split)
  next
    case False
    then have "drop (at + 1) bytes = nul_escape s @ rest" using Cons.prems(1) t by simp
    from Cons.IH [OF this lim(2)] show ?thesis
      using False Cons.prems(1) t at lim by (simp add: decode_text.simps [of bytes at] split: option.split)
  qed
qed

lemma decode_text_Ok:
  assumes "decode_text bytes at out = Ok (cs, n)" "length out \<le> TEXT_LIMIT"
  obtains s rest where "drop at bytes = nul_escape s @ rest" "from_utf8 (out @ s) = Some cs" "n = at + length (nul_escape s)"
    "length out + length s \<le> TEXT_LIMIT"
  using assms
proof (induction bytes at out arbitrary: thesis rule: decode_text.induct)
  case (1 bytes at out)
  note eq = decode_text.simps [of bytes at out]
  have at: "at < length bytes" using 1(4) eq by (auto split: if_splits)
  obtain b tl where t: "drop at bytes = b # tl" "bytes ! at = b" "drop (at + 1) bytes = tl"
      "get_at bytes (at + 1) = (case tl of [] \<Rightarrow> None | c # _ \<Rightarrow> Some c)" "drop (at + 2) bytes = drop 1 tl"
    using at by (rule text_tail)
  show ?case
  proof (cases "b = 0")
    case True
    then obtain c tl' where tl: "tl = c # tl'" using 1(4) eq at t by (cases tl) simp_all
    show ?thesis
    proof (cases "c = 0")
      case True
      then have "from_utf8 out = Some cs" "n = at + 2"
        using 1(4) eq at t \<open>b = 0\<close> tl by (cases "from_utf8 out"; simp)+
      then show ?thesis using 1(3) [of "[]" tl'] t \<open>b = 0\<close> tl True 1(5) by simp
    next
      case False
      then have c: "c = 255" "length out \<noteq> TEXT_LIMIT" "decode_text bytes (at + 2) (out @ [b]) = Ok (cs, n)"
        using 1(4) eq at t \<open>b = 0\<close> tl by (cases "c = 255"; cases "length out = TEXT_LIMIT"; simp)+
      have lim: "length (out @ [bytes ! at]) \<le> TEXT_LIMIT" using c(2) 1(5) by simp
      obtain s rest where s: "drop (at + 2) bytes = nul_escape s @ rest" "from_utf8 ((out @ [b]) @ s) = Some cs"
          "n = at + 2 + length (nul_escape s)" "length (out @ [b]) + length s \<le> TEXT_LIMIT"
        using 1(1) [OF _ _ _ _ _ c(2) _ _ lim] at t \<open>b = 0\<close> tl c False by auto
      show ?thesis using 1(3) [of "0 # s" rest] s t \<open>b = 0\<close> tl c by simp
    qed
  next
    case False
    have c: "length out \<noteq> TEXT_LIMIT" "decode_text bytes (at + 1) (out @ [b]) = Ok (cs, n)"
      using 1(4) eq at t False by (cases "length out = TEXT_LIMIT"; simp)+
    have lim: "length (out @ [bytes ! at]) \<le> TEXT_LIMIT" using c(1) 1(5) by simp
    obtain s rest where s: "drop (at + 1) bytes = nul_escape s @ rest" "from_utf8 ((out @ [b]) @ s) = Some cs"
        "n = at + 1 + length (nul_escape s)" "length (out @ [b]) + length s \<le> TEXT_LIMIT"
      using 1(2) [OF _ _ c(1) _ _ lim] at t False c by auto
    show ?thesis using 1(3) [of "b # s" rest] s t False by simp
  qed
qed

text \<open>Skipping a text key checks what decoding it checks, its UTF-8 excepted.\<close>

definition same_reading :: "(scalar_error, nat) outcome \<Rightarrow> (scalar_error, 'a \<times> nat) outcome \<Rightarrow> bool" where
  "same_reading w d \<longleftrightarrow>
     (case d of
        Ok (_, n) \<Rightarrow> w = Ok n
      | Err e \<Rightarrow> if e = CorruptKey ''invalid UTF-8 scalar key'' then \<exists>n. w = Ok n else w = Err e
      | Panic \<Rightarrow> False)"

lemma width_text_decode: "same_reading (width_text bytes at (length out)) (decode_text bytes at out)"
proof (induction bytes at out rule: decode_text.induct)
  case (1 bytes at out)
  note w = width_text.simps [of bytes at "length out"] and d = decode_text.simps [of bytes at out]
  consider (out) "\<not> at < length bytes" | (esc) "at < length bytes" "bytes ! at = 0" | (plain) "at < length bytes" "bytes ! at \<noteq> 0"
    by blast
  then show ?case
  proof cases
    case out
    then show ?thesis by (simp add: w d same_reading_def)
  next
    case plain
    show ?thesis
    proof (cases "length out = TEXT_LIMIT")
      case False
      then show ?thesis using 1(2) plain by (simp add: w d)
    next
      case True
      then show ?thesis using plain by (simp add: w [unfolded True] d same_reading_def)
    qed
  next
    case esc
    show ?thesis
    proof (cases "get_at bytes (at + 1)")
      case None
      then show ?thesis using esc by (simp add: w d same_reading_def)
    next
      case (Some c)
      consider "c = 0" | "c = 255" "length out = TEXT_LIMIT" | "c = 255" "length out \<noteq> TEXT_LIMIT" | "c \<noteq> 0" "c \<noteq> 255" by blast
      then show ?thesis
      proof cases
        case 1
        then show ?thesis using esc Some by (simp add: w d same_reading_def split: option.split)
      next
        case 2
        then show ?thesis using esc Some by (simp add: w [unfolded 2(2)] d same_reading_def)
      next
        case 3
        then show ?thesis using 1(1) [OF _ esc(2) Some] esc Some by (simp add: w d)
      qed (use esc Some in \<open>simp_all add: w d same_reading_def\<close>)
    qed
  qed
qed

lemma f64_sign_NOT: "f64_sign (NOT b) \<longleftrightarrow> \<not> f64_sign b"
  using unat_u64_less [of b] by (auto simp: f64_sign_def unat_NOT_u64)

lemma f64_sign_xor_SIGN: "f64_sign (b XOR SIGN) \<longleftrightarrow> \<not> f64_sign b"
  using unat_u64_less [of b] by (auto simp: f64_sign_def unat_xor_SIGN)

lemma xor_SIGN_twice: "(b XOR SIGN) XOR SIGN = b"
  by (simp add: xor.assoc)

lemma decoded_bits_ordered: "decoded_bits (f64_ordered b) = b" "f64_ordered (decoded_bits w) = w"
  by (auto simp: decoded_bits_def f64_ordered_def and_SIGN f64_sign_NOT f64_sign_xor_SIGN xor_SIGN_twice)

lemma zero_magnitude: "f64_magnitude_bits b = 0 \<longleftrightarrow> b = 0 \<or> b = SIGN"
proof -
  have "b = 0 \<longleftrightarrow> unat b = 0" "b = SIGN \<longleftrightarrow> unat b = 2 ^ 63" by (simp_all add: word_unat_eq_iff unat_SIGN)
  then show ?thesis using magnitude_bits_less [of b] by (auto simp: unat_f64 [of b])
qed

lemma magnitude_0: "f64_magnitude_bits 0 = 0" "f64_is_finite 0" "0 \<noteq> SIGN"
  by (simp_all add: f64_magnitude_bits_def f64_is_finite_def word_unat_eq_iff unat_SIGN)

context serde_json_crate
begin

lemma present_mk:
  "present_value api (Some (mk_null api)) = None"
  "present_value api (Some (mk_bool api b)) = Some (mk_bool api b)"
  "present_value api (Some (mk_i64 api n)) = Some (mk_i64 api n)"
  "f64_is_finite f \<Longrightarrow> present_value api (Some (mk_f64 api f)) = Some (mk_f64 api f)"
  "present_value api (Some (mk_string api s)) = Some (mk_string api s)"
  by (simp_all add: present_value_def null_value bool_value int_value float_value string_value)

lemma scalar_decode_encode:
  assumes "scalar_encode api k x = Ok a"
  shows "\<exists>w. scalar_decode api k (a @ rest) = Ok (w, length a) \<and> scalar_view_of api k (Some w) = scalar_view_of api k x"
  using assms
proof (cases rule: scalar_encode_cases)
  case vnull
  then obtain t where "scalar_tag k = Some t" by blast
  then show ?thesis using vnull by (simp add: scalar_decode_def scalar_view_of_def present_mk)
next
  case (vbool v b)
  then show ?thesis
    by (cases b) (simp_all add: scalar_decode_def scalar_tag_def get_at_def scalar_view_of_def present_mk bool_value)
next
  case (vint v n)
  have "get_range (a @ rest) 1 9 = Some (to_be (enc_i64 n))" by (simp add: vint get_range_def slice_def)
  then show ?thesis
    using vint by (simp add: scalar_decode_def scalar_tag_def scalar_view_of_def present_mk int_value enc_i64_def xor_SIGN_twice)
next
  case (vreal v n)
  let ?z = "if f64_magnitude_bits n = 0 then 0 else n"
  have g: "get_range (a @ rest) 1 9 = Some (to_be (real_bits n))" by (simp add: vreal get_range_def slice_def)
  have d: "decoded_bits (real_bits n) = ?z" by (simp add: real_bits_ordered decoded_bits_ordered)
  have z: "f64_is_finite ?z" "?z \<noteq> SIGN" "f64_scaled ?z = f64_scaled n"
    using vreal(4) magnitude_0 f64_scaled_one_zero by (simp_all add: zero_magnitude)
  then show ?thesis
    using vreal g d by (simp add: scalar_decode_def scalar_tag_def scalar_view_of_def present_mk float_value del: if_split)
next
  case (vtext v s)
  have sc: "list_all is_scalar s" using str_scalars vtext(3) by blast
  have "drop 1 (a @ rest) = nul_escape (utf8_bytes s) @ rest" by (simp add: vtext)
  from decode_text_escape [OF this, of "[]"] have "decode_text (a @ rest) 1 [] = Ok (s, length a)"
    using vtext(4,5) from_utf8_bytes [OF sc] by simp
  then show ?thesis
    using vtext sc by (simp add: scalar_decode_def scalar_tag_def scalar_view_of_def present_mk string_value)
qed

lemma scalar_encode_decode:
  assumes "scalar_decode api k bytes = Ok (w, n)"
  shows "n \<le> length bytes \<and> scalar_encode api k (Some w) = Ok (take n bytes)"
proof -
  obtain t where t: "scalar_tag k = Some t"
    using assms by (cases "scalar_tag k") (simp_all add: scalar_decode_def)
  obtain a rest where b: "bytes = a # rest" using assms t by (cases bytes) (simp_all add: scalar_decode_def)
  show ?thesis
  proof (cases "a = 0")
    case True
    then show ?thesis using assms t b by (auto simp: scalar_decode_def scalar_encode_def encode_into_def present_mk)
  next
    case a0: False
    then have a: "a = t" using assms t b by (cases "a = t") (simp_all add: scalar_decode_def)
    show ?thesis
    proof (cases k)
      case KBool
      have t1: "t = 1" using t KBool by (simp add: scalar_tag_def)
      obtain c rest' where r: "rest = c # rest'" using assms t b a0 a KBool
        by (cases rest) (simp_all add: scalar_decode_def get_at_def)
      then show ?thesis using assms t b a0 a KBool t1
        by (cases "c = 0"; cases "c = 1")
          (auto simp: scalar_decode_def get_at_def scalar_encode_def encode_into_def present_mk bool_value)
    next
      case KInt
      have t1: "t = 2" using t KInt by (simp add: scalar_tag_def)
      have len: "9 \<le> length bytes" using assms t b a0 a KInt
        by (cases "9 \<le> length bytes") (simp_all add: scalar_decode_def get_range_def)
      have g: "get_range bytes 1 9 = Some (slice bytes 1 9)" using len by (simp add: get_range_def)
      have w: "w = mk_i64 api (from_be (slice bytes 1 9) XOR SIGN)" "n = 9"
        using assms t b a0 a KInt g by (simp_all add: scalar_decode_def)
      have "take 9 bytes = a # slice bytes 1 9" using len b by (simp add: slice_def)
      then show ?thesis using len KInt w t a t1
        by (simp add: scalar_encode_def encode_into_def present_mk int_value xor_SIGN_twice)
    next
      case KReal
      have t1: "t = 3" using t KReal by (simp add: scalar_tag_def)
      have len: "9 \<le> length bytes" using assms t b a0 a KReal
        by (cases "9 \<le> length bytes") (simp_all add: scalar_decode_def get_range_def)
      have g: "get_range bytes 1 9 = Some (slice bytes 1 9)" using len by (simp add: get_range_def)
      define f where "f = decoded_bits (from_be (slice bytes 1 9))"
      have w: "f64_is_finite f" "f \<noteq> SIGN" "w = mk_f64 api f" "n = 9"
        using assms t b a0 a KReal g by (auto simp: scalar_decode_def Let_def f_def split: if_splits)
      have "(if f64_magnitude_bits f = 0 then 0 else f) = f" using w(2) by (simp add: zero_magnitude)
      then have "real_bits f = f64_ordered f" by (simp only: real_bits_ordered)
      then have "real_bits f = from_be (slice bytes 1 9)" by (simp add: f_def decoded_bits_ordered)
      moreover have "take 9 bytes = a # slice bytes 1 9" using len b by (simp add: slice_def)
      ultimately show ?thesis using len KReal w t a t1
        by (simp add: scalar_encode_def encode_into_def present_mk float_value)
    next
      case KText
      have t1: "t = 4" using t KText by (simp add: scalar_tag_def)
      have "is_ok (decode_text bytes 1 [])" using assms t b a0 a KText
        by (cases "decode_text bytes 1 []") (simp_all add: scalar_decode_def)
      then obtain s m where d: "decode_text bytes 1 [] = Ok (s, m)" by (auto simp: is_ok_iff)
      have w: "w = mk_string api s" "n = m" using assms t b a0 a KText d by (simp_all add: scalar_decode_def)
      obtain u tl where u: "drop 1 bytes = nul_escape u @ tl" "from_utf8 u = Some s" "n = 1 + length (nul_escape u)" "length u \<le> TEXT_LIMIT"
        using decode_text_Ok [OF d] w by auto
      have us: "utf8_bytes s = u" "list_all is_scalar s" using from_utf8_Some [OF u(2)] by simp_all
      have bs: "bytes = a # nul_escape u @ tl" using u(1) b by simp
      have "take n bytes = a # nul_escape u" "n \<le> length bytes" by (simp_all add: bs u(3))
      then show ?thesis using KText w(1) t a t1 u(4) us
        by (simp add: scalar_encode_def encode_into_def present_mk string_value concat_nul_escape)
    qed (use t in \<open>simp_all add: scalar_tag_def\<close>)
  qed
qed

end

text \<open>
  C31: The scalar codec is canonical. A key decodes to a value that is the encoded one (a Real zero
  loses its sign), consuming the key and leaving the entity id; and every key that decodes is the key
  its value encodes to, so no value has two keys.
\<close>

theorem scalar_codec:
  assumes "serde_json_crate api"
  shows "(scalar_encode api k x = Ok a \<longrightarrow>
      (\<exists>w. scalar_decode api k (a @ rest) = Ok (w, length a) \<and> scalar_view_of api k (Some w) = scalar_view_of api k x)) \<and>
    (scalar_decode api k bytes = Ok (v, n) \<longrightarrow> n \<le> length bytes \<and> scalar_encode api k (Some v) = Ok (take n bytes))"
  using serde_json_crate.scalar_decode_encode [OF assms] serde_json_crate.scalar_encode_decode [OF assms] by blast

text \<open>
  C32: Stepping over a key is decoding without the value. On every input the width is what decoding
  consumes and the errors are the same, with one exception: a text key whose bytes are not UTF-8 is
  stepped over and not decoded.
\<close>

theorem scalar_width_agrees:
  "same_reading (scalar_width k bytes) (scalar_decode api k bytes)"
proof (cases "scalar_tag k")
  case None
  then show ?thesis by (simp add: scalar_width_def scalar_decode_def same_reading_def)
next
  case (Some t)
  show ?thesis
  proof (cases bytes)
    case Nil
    then show ?thesis using Some by (simp add: scalar_width_def scalar_decode_def same_reading_def)
  next
    case (Cons a rest)
    consider "a = 0" | "a \<noteq> 0" "a \<noteq> t" | (tagged) "a \<noteq> 0" "a = t" by blast
    then show ?thesis
    proof cases
      case tagged
      have r: "get_range bytes 1 9 = (if 9 \<le> length bytes then Some (slice bytes 1 9) else None)"
        by (simp add: get_range_def)
      show ?thesis
      proof (cases k)
        case KText
        then show ?thesis
          using width_text_decode [of bytes 1 "[]"] tagged Some Cons
          by (cases "decode_text bytes 1 []")
            (auto simp: scalar_width_def scalar_decode_def same_reading_def)
      next
        case KBool
        then show ?thesis using tagged Some Cons
          by (cases rest) (simp_all add: scalar_width_def scalar_decode_def same_reading_def get_at_def)
      qed (use tagged Some Cons r in \<open>simp_all add: scalar_width_def scalar_decode_def same_reading_def scalar_tag_def Let_def\<close>)
    qed (use Some Cons in \<open>simp_all add: scalar_width_def scalar_decode_def same_reading_def\<close>)
  qed
qed

text \<open>The exception is real.\<close>

lemma width_skips_utf8:
  "scalar_width KText [4, 255, 0, 0] = Ok 4 \<and>
   scalar_decode api KText [4, 255, 0, 0] = Err (CorruptKey ''invalid UTF-8 scalar key'')"
  by (simp add: scalar_width_def scalar_decode_def scalar_tag_def width_text.simps decode_text.simps get_at_def TEXT_LIMIT_def
      from_utf8.simps next_char_def char_head_def is_scalar_def)

section \<open>A concrete value type\<close>

datatype json_value = JNull | JBool bool | JInt u64 | JFloat f64 | JString "uchar list"

definition sample_api :: "json_value json_api" where
  "sample_api =
     \<lparr>is_null = (\<lambda>v. v = JNull),
      as_bool = (\<lambda>v. case v of JBool b \<Rightarrow> Some b | _ \<Rightarrow> None),
      as_i64 = (\<lambda>v. case v of JInt n \<Rightarrow> Some n | _ \<Rightarrow> None),
      as_f64 = (\<lambda>v. case v of JFloat f \<Rightarrow> Some f | _ \<Rightarrow> None),
      as_str = (\<lambda>v. case v of JString s \<Rightarrow> if list_all is_scalar s then Some s else None | _ \<Rightarrow> None),
      mk_null = JNull, mk_bool = JBool, mk_i64 = JInt, mk_f64 = JFloat, mk_string = JString\<rparr>"

interpretation sample_json: serde_json_crate sample_api
  by unfold_locales (auto simp: sample_api_def split: json_value.splits if_splits)

lemma sample_keys:
  "scalar_encode sample_api KInt (Some (JInt (- 1))) = Ok (2 # to_be (- 1 XOR SIGN))"
  "scalar_encode sample_api KInt (Some (JInt 1)) = Ok (2 # to_be (1 XOR SIGN))"
  by (simp_all add: scalar_encode_def encode_into_def scalar_tag_def present_value_def sample_api_def)

theorem scalar_key_order_witness:
  "\<exists>a b. scalar_encode sample_api KInt (Some (JInt (- 1))) = Ok a \<and> scalar_encode sample_api KInt (Some (JInt 1)) = Ok b \<and>
     a @ [9] < b @ [1]"
proof -
  have v: "scalar_view_of sample_api KInt (Some (JInt (- 1))) = Some (VInt (- 1))"
    "scalar_view_of sample_api KInt (Some (JInt 1)) = Some (VInt 1)"
    by (simp_all add: scalar_view_of_def present_value_def sample_api_def)
  show ?thesis
    using scalar_key_order [OF sample_keys, of "[9]" "[1]"] sample_keys v by (simp add: less_scalar_view_def)
qed

theorem scalar_codec_witness:
  "\<exists>w. scalar_decode sample_api KInt ((2 # to_be (1 XOR SIGN :: u64)) @ [7, 7]) = Ok (w, 9) \<and>
     scalar_view_of sample_api KInt (Some w) = Some (VInt 1)"
proof -
  let ?a = "2 # to_be (1 XOR SIGN :: u64) :: bytes"
  have v: "scalar_view_of sample_api KInt (Some (JInt 1)) = Some (VInt 1)" and n: "length ?a = 9"
    by (simp_all add: scalar_view_of_def present_value_def sample_api_def)
  have "\<exists>w. scalar_decode sample_api KInt (?a @ [7, 7]) = Ok (w, length ?a) \<and>
      scalar_view_of sample_api KInt (Some w) = scalar_view_of sample_api KInt (Some (JInt 1))"
    using scalar_codec [OF sample_json.serde_json_crate_axioms, of KInt "Some (JInt 1)" ?a "[7, 7]"] sample_keys(2) by blast
  then show ?thesis unfolding v n .
qed

end
