(* ===== verification/Spec2Isabelle.thy ===== *)
theory Spec2Isabelle
  imports Keys Limits Budget Page Btree_Split Wal_Log Meta Btree_Scan Insert_Refines Like Scalar_Key
begin

text \<open>
  \<^bold>\<open>The storage kernel of sekejapdb, verified.\<close>

  sekejap is an embedded multimodel database. Everything it stores goes through the kernel under
  src/core/kernel: 4 KiB slotted pages in one data file, a buffer pool with copy-on-write epochs, a
  B+tree over the pool, a write-ahead log, and two superblock slots that publish a new root
  atomically. The engine under src/core/engine turns documents into keys of that tree and evaluates
  queries over it. This library models the kernel from the bytes of a page up to lookups, scans
  and inserts in a tree, and two self-contained routines of the engine, and proves what the layers promise each other.

  \<^bold>\<open>How the parts interact.\<close> A write is appended to the log (wal.rs) and applied to the tree (btree.rs),
  whose pages live in frames of the pool (pool.rs); a page of the published tree is frozen and is
  copied to a fresh number before it changes. Fresh numbers come from the end of the file or from the
  free list, which hands out a page only when no published tree, fallback tree or reader can reach
  it. A checkpoint flushes the pool to the file (io.rs) and then writes a superblock (meta.rs) to the
  slot of its parity; opening the store reads the newest intact slot, and replays the log.

  \<^bold>\<open>Conventions.\<close> A Rust \<open>Result\<close> is the sum type \<open>kresult\<close> with a third constructor \<open>Panic\<close> for an index
  out of range, a failed assertion or a checked overflow, so that the absence of panics is a theorem.
  Stored integers are words of their width; offsets, lengths and page numbers are natural numbers
  with the code's range checks written out. State is passed explicitly; a failing operation returns
  the state it leaves behind. A loop that could run for ever on a damaged file is a partial function
  whose value \<open>None\<close> is not returning, and every theorem about it states that it returns. Bounded loops
  (the CLOCK sweep, the overflow walk with its hop limit, the log scans) are total functions with the
  bound the code has. The crc32c, memchr, Unicode and serde_json dependencies are parameters with
  their documented laws as locale assumptions, interpreted on concrete instances.

  \<^bold>\<open>Theories.\<close>
  \<^item> \<open>Prelude\<close>: bytes, codecs, slices, outcomes. \<open>Kernel_Error\<close> (lib.rs): the error enum, the checksum
    parameter and its CRC-32C instance. \<open>Ieee754\<close>: the bit view of doubles used by the key encodings.
  \<^item> \<open>Keys\<close> (keys.rs): every key constructor; byte order is the intended order, prefixes select what
    they should. \<open>Limits\<close> (limits.rs): the policy record, its validation and codec. \<open>Budget\<close> (budget.rs):
    the compare-and-swap loop as an interleaving of steps; the budget is never exceeded.
  \<^item> \<open>Page\<close> (page.rs): the slotted page; insertion, removal and compaction on records, sealing and
    opening, and that opening arbitrary bytes is safe.
  \<^item> \<open>Tree_Record\<close> (btree.rs, verify.rs): cell encodings, the checked decoder and the readers that trust
    it. \<open>Btree_Split\<close> (btree.rs): page building, the split point, the neighbour planner.
  \<^item> \<open>File_Io\<close> (io.rs): the file with injected failures. \<open>Wal\<close>, \<open>Wal_Log\<close> (wal.rs, and the recovery loop of
    store.rs): scanning, opening, appending, cutting, rotating and salvaging the log.
  \<^item> \<open>Freelist\<close>, \<open>Pool\<close>, \<open>Pool_Checkpoint\<close> (pool.rs): page recycling and its sidecar; frames, pins, eviction,
    allocation, the checkpoint flush. \<open>Guards\<close>, \<open>Allocation\<close>: work done under a
    guard, beside the write guards a client holds, and what an allocation may take. \<open>Page_Image\<close>,
    \<open>Page_Edit\<close>: page images as the pool's clients see them, and what each page edit makes of them.
  \<^item> \<open>Meta\<close> (meta.rs): the superblock slots. \<open>Overflow\<close> (btree.rs): spilled values. \<open>Btree_Read\<close> (btree.rs):
    trees stored in the pool, the descents and the point lookup. \<open>Btree_Scan\<close> (btree.rs): the range
    cursor. \<open>Tag_Hints\<close> (btree.rs): the cache of append hints of a tree handle.
  \<^item> \<open>Btree_Write\<close> (btree.rs): the write path of a tree handle, from the copy-on-write descent to the splits
    and the separators they send up. \<open>Btree_Live\<close>: the invariant of a tree under change, and a subtree
    seen through the nodes above it. \<open>Btree_Steps\<close>: what each page-level step does to a live tree.
    \<open>Btree_Descent\<close>: the descent for a write. \<open>Btree_Leaf\<close>: a record placed in its leaf.
    \<open>Btree_Separator\<close>: a separator sent up from a split, through every interior split to a new root.
    \<open>Btree_Leaf_Split\<close>: a leaf split in two or three. \<open>Btree_Insert\<close>: the record an insertion stores
    and the split of a full leaf with all the separators it sends up. \<open>Insert_Refines\<close>: the whole insert,
    with or without the append hint, as an update of the key-value list, and runs of inserts.
  \<^item> \<open>Utf8\<close>, \<open>Like\<close> (engine query/like.rs): Rust strings and the LIKE matcher. \<open>Scalar_Key\<close> (engine
    store/scalar_key.rs): scalar index keys.

  \<^bold>\<open>What is shown.\<close> Durability: a synced log recovers exactly its committed records, opening never
  discards a verified frame, a published superblock is read back, and a torn publication leaves the
  other slot. Isolation: no published page changes, and no page a reader needs is recycled. Refinement:
  the pool is a transparent cache of the file; a lookup in a stored tree and a range scan of it
  are a lookup in and a scan of its key-value list, an insert is an update of that list through every
  split of leaves and nodes, and after a run of inserts a lookup returns what was written last. Round trips of every codec. Equivalence of the LIKE matcher with the relation its
  pattern denotes, and of the trusting record readers with the checked decoder.

  \<^bold>\<open>Not modelled.\<close> Deletion with its rebalancing, grafting, bulk loading and the
  store's transaction orchestration; the write path is modelled for the default build, without the
  optional neighbour redistribution and keyspace append. Its correctness is shown for a handle without
  per-keyspace append hints and for keys of at most 2018 bytes: with longer ones an interior split can fail
  (\<open>wide_separator_unsplit\<close>).
  The kernel's text, graph, spatial and vector indexes and the engine's indexes rest on floating point
  or on the layers above; the query languages, the wire server, bindings, command line and benchmarks
  are outside the storage kernel. Threads, file locks and the operating system's own failures beyond
  a refused, torn or lost call are not modelled.
\<close>

section \<open>Lookups after inserts\<close>



end
